(* ===== verification/Ruby_Prelude.thy ===== *)
theory Ruby_Prelude
  imports Main "HOL-Library.Word" "HOL-Library.Multiset" "HOL-Library.Monad_Syntax"
begin

text \<open>
  Shared vocabulary of the development: the scalar types of \<^verbatim>\<open>Global.h\<close>, the
  abort monad (\<open>None\<close> is a failed \<^verbatim>\<open>assert\<close>, \<^verbatim>\<open>ASSERT\<close> or \<^verbatim>\<open>ERROR_MSG\<close>,
  all of which end the simulator process), and the list, option and multiset lemmas that the
  component theories use.
\<close>

named_theorems abort_simps \<open>unfolding rules for the abort monad\<close>

type_synonym time = int
  \<comment> \<open>\<^verbatim>\<open>typedef int64 Time\<close>: simulated cycles, far below the 63-bit limit\<close>

type_synonym node_id = nat

text \<open>Two enumerations of \<^verbatim>\<open>protocols/RubySlicc_Exports.sm\<close> that the whole memory system shares.\<close>

datatype cache_request_type =
  RT_LD | RT_ST | RT_ATOMIC | RT_IFETCH | RT_IO | RT_REPLACEMENT | RT_COMMIT | RT_LD_XACT | RT_LDX_XACT
  | RT_ST_XACT | RT_BEGIN_XACT | RT_COMMIT_XACT | RT_ABORT_XACT | RT_NULL
  | RT_ACC_LD | RT_ACC_ST

datatype access_permission =
  Perm_Busy | Perm_Read_Only | Perm_Read_Write | Perm_Invalid | Perm_NotPresent | Perm_OnHold
  | Perm_ReadUpgradingToWrite | Perm_Stale

definition check :: "bool \<Rightarrow> unit option" where
  "check b = (if b then Some () else None)"

lemma check_Some [simp, abort_simps]: "check b = Some u \<longleftrightarrow> b"
  by (simp add: check_def)

lemma check_None [simp, abort_simps]: "check b = None \<longleftrightarrow> \<not> b"
  by (simp add: check_def)

lemma check_True [simp, abort_simps]: "check True = Some ()"
  by (simp add: check_def)

lemma check_False [simp, abort_simps]: "check False = None"
  by (simp add: check_def)

lemma check_bind [abort_simps]:
  "(check b \<bind> f) = (if b then f () else None)"
  by (simp add: check_def)

lemmas bind_Some_iff [abort_simps] = Option.bind_eq_Some_conv

subsection \<open>Lists\<close>

lemma mset_two_nth:
  assumes "i < length xs" and "j < length xs" and "i \<noteq> j"
  shows "{#xs ! i, xs ! j#} \<subseteq># mset xs"
proof -
  have "mset [xs ! i, xs ! j] \<subseteq># mset xs"
  proof (rule mset_subset_eqI)
    fix a
    have fin: "finite {k. k < length xs \<and> a = xs ! k}" by simp
    have "(if i \<in> {k. k < length xs \<and> a = xs ! k} then {i} else {}) \<union>
          (if j \<in> {k. k < length xs \<and> a = xs ! k} then {j} else {})
          \<subseteq> {k. k < length xs \<and> a = xs ! k}" by auto
    from card_mono [OF fin this]
    show "count (mset [xs ! i, xs ! j]) a \<le> count (mset xs) a"
      using assms by (auto simp: count_mset count_list_eq_length_filter length_filter_conv_card
          split: if_splits)
  qed
  then show ?thesis by simp
qed

lemma in_remove_neq: "x \<noteq> y \<Longrightarrow> x \<in># M - {#y#} \<longleftrightarrow> x \<in># M"
  by (simp add: in_diff_count)

lemma list_update_swap_mset:
  assumes "i < length xs" and "j < length xs"
  shows "mset (xs[i := xs ! j, j := xs ! i]) = mset xs"
  using assms by (simp add: mset_swap)

subsection \<open>Loops that may abort\<close>

primrec fold_opt :: "('a \<Rightarrow> 's \<Rightarrow> 's option) \<Rightarrow> 'a list \<Rightarrow> 's \<Rightarrow> 's option" where
  "fold_opt f [] s = Some s"
| "fold_opt f (x # xs) s = f x s \<bind> fold_opt f xs"

lemma fold_opt_append: "fold_opt f (xs @ ys) s = (fold_opt f xs s \<bind> fold_opt f ys)"
  by (induction xs arbitrary: s) (auto split: Option.bind_split)

lemma fold_opt_inv:
  assumes "fold_opt f xs s = Some s'" "P s" "\<And>x s s'. x \<in> set xs \<Longrightarrow> P s \<Longrightarrow> f x s = Some s' \<Longrightarrow> P s'"
  shows "P s'"
  using assms by (induction xs arbitrary: s) (auto simp: bind_Some_iff)

text \<open>A search loop that returns from its body: \<open>Some (Some y)\<close> is the early return of \<open>y\<close>, \<open>Some None\<close>
  the end of the loop.\<close>

fun find_opt :: "('a \<Rightarrow> 'b option option) \<Rightarrow> 'a list \<Rightarrow> 'b option option" where
  "find_opt f [] = Some None"
| "find_opt f (x # xs) = do { r \<leftarrow> f x; case r of None \<Rightarrow> find_opt f xs | Some y \<Rightarrow> Some (Some y) }"

lemma find_opt_found: "find_opt f xs = Some (Some y) \<Longrightarrow> \<exists>x \<in> set xs. f x = Some (Some y)"
  by (induction xs) (auto simp: bind_Some_iff split: option.splits)

lemma find_opt_none: "find_opt f xs = Some None \<longleftrightarrow> (\<forall>x \<in> set xs. f x = Some None)"
  by (induction xs) (auto simp: bind_Some_iff split: option.splits)

lemma find_opt_Some: "\<forall>x \<in> set xs. f x \<noteq> None \<Longrightarrow> find_opt f xs \<noteq> None"
  by (induction xs) (auto split: option.splits)

lemma find_opt_cong [fundef_cong]:
  "xs = ys \<Longrightarrow> (\<And>x. x \<in> set ys \<Longrightarrow> f x = g x) \<Longrightarrow> find_opt f xs = find_opt g ys"
  by (induction ys arbitrary: xs) (auto simp: split: option.splits Option.bind_split)

lemma those_Some_iff: "those xs = Some ys \<longleftrightarrow> xs = map Some ys"
  by (induction xs arbitrary: ys) (auto split: option.splits)

lemma those_map_Some: "those (map f xs) = Some ys \<longleftrightarrow> list_all2 (\<lambda>x y. f x = Some y) xs ys"
  unfolding those_Some_iff by (induction xs arbitrary: ys) (auto simp: list_all2_Cons1 Cons_eq_map_conv)

end
