(* ===== verification/Ruby_Vector.thy ===== *)
theory Ruby_Vector
  imports Ruby_Prelude
begin

text \<open>
  The resizable array of \<^verbatim>\<open>gems-lib/common/Vector.h\<close>. \<open>m_vec\<close> is the allocated
  array (its length is the code's \<^verbatim>\<open>m_max_size\<close>), \<open>m_size\<close> the number of elements in
  use. Every access goes through the bounds checks of \<^verbatim>\<open>ref\<close>. Slots between
  \<open>m_size\<close> and the allocation keep stale values, as in the code; a freshly allocated slot
  holds the element type's default-constructed value, the parameter \<open>d\<close>.
  \<open>vec_list\<close> is the abstraction to lists, and the lemmas show that each operation is the
  corresponding list operation.
\<close>

record 'a vector =
  m_vec :: "'a list"
  m_size :: nat

definition vec_empty :: "'a vector" where
  "vec_empty = \<lparr>m_vec = [], m_size = 0\<rparr>"

definition vec_ref :: "'a vector \<Rightarrow> nat \<Rightarrow> 'a option" where
  "vec_ref v i = do {
     check (m_size v \<noteq> 0);
     check (i < m_size v);
     Some (m_vec v ! i) }"

definition vec_set :: "'a vector \<Rightarrow> nat \<Rightarrow> 'a \<Rightarrow> 'a vector option" where
  "vec_set v i x = do {
     check (m_size v \<noteq> 0);
     check (i < m_size v);
     Some (v\<lparr>m_vec := (m_vec v)[i := x]\<rparr>) }"

definition vec_grow :: "'a \<Rightarrow> 'a vector \<Rightarrow> nat \<Rightarrow> 'a vector" where
  "vec_grow d v n =
     v\<lparr>m_vec := take (m_size v) (m_vec v) @ replicate (n - m_size v) d\<rparr>"

definition vec_setSize :: "'a \<Rightarrow> 'a vector \<Rightarrow> nat \<Rightarrow> 'a vector" where
  "vec_setSize d v n =
     (let v' = (if length (m_vec v) < n
                then vec_grow d v (max ((length (m_vec v) + 1) * 2) n) else v)
      in v'\<lparr>m_size := n\<rparr>)"

fun vec_fill :: "'a vector \<Rightarrow> nat \<Rightarrow> nat \<Rightarrow> 'a \<Rightarrow> 'a vector option" where
  "vec_fill v j 0 x = Some v"
| "vec_fill v j (Suc k) x = do { v' \<leftarrow> vec_set v j x; vec_fill v' (Suc j) k x }"

definition vec_increaseSize :: "'a \<Rightarrow> 'a vector \<Rightarrow> nat \<Rightarrow> 'a \<Rightarrow> 'a vector option" where
  "vec_increaseSize d v n reset = do {
     check (m_size v \<le> n);
     let v1 = (if length (m_vec v) \<le> n
               then vec_grow d v (max ((length (m_vec v) + 1) * 2) n) else v);
     vec_fill (v1\<lparr>m_size := n\<rparr>) (m_size v) (n - m_size v) reset }"

definition vec_clear :: "'a vector \<Rightarrow> 'a vector" where
  "vec_clear v = v\<lparr>m_size := 0, m_vec := []\<rparr>"

definition vec_insertAtBottom :: "'a \<Rightarrow> 'a vector \<Rightarrow> 'a \<Rightarrow> 'a vector option" where
  "vec_insertAtBottom d v x =
     (let v' = vec_setSize d v (m_size v + 1) in vec_set v' (m_size v' - 1) x)"

fun vec_shift_up :: "'a vector \<Rightarrow> nat \<Rightarrow> 'a vector option" where
  "vec_shift_up v 0 = Some v"
| "vec_shift_up v (Suc i) = do {
     x \<leftarrow> vec_ref v i;
     v' \<leftarrow> vec_set v (Suc i) x;
     vec_shift_up v' i }"

definition vec_insertAtTop :: "'a \<Rightarrow> 'a vector \<Rightarrow> 'a \<Rightarrow> 'a vector option" where
  "vec_insertAtTop d v x = do {
     v1 \<leftarrow> vec_shift_up (vec_setSize d v (m_size v + 1)) (m_size v);
     vec_set v1 0 x }"

fun vec_move_down :: "'a list \<Rightarrow> nat \<Rightarrow> nat \<Rightarrow> nat \<Rightarrow> 'a list" where
  "vec_move_down xs num i 0 = xs"
| "vec_move_down xs num i (Suc k) = vec_move_down (xs[i := xs ! (i + num)]) num (Suc i) k"

definition vec_removeFromTop :: "'a vector \<Rightarrow> nat \<Rightarrow> 'a vector" where
  "vec_removeFromTop v num =
     (let n = (if m_size v < num then m_size v else num)
      in \<lparr>m_vec = vec_move_down (m_vec v) n 0 (m_size v - n), m_size = m_size v - n\<rparr>)"

fun vec_sum_from :: "'a::plus vector \<Rightarrow> 'a \<Rightarrow> nat \<Rightarrow> nat \<Rightarrow> 'a option" where
  "vec_sum_from v acc i 0 = Some acc"
| "vec_sum_from v acc i (Suc k) = do { x \<leftarrow> vec_ref v i; vec_sum_from v (acc + x) (Suc i) k }"

definition vec_sum :: "'a::plus vector \<Rightarrow> 'a option" where
  "vec_sum v = do {
     check (0 < m_size v);
     x \<leftarrow> vec_ref v 0;
     vec_sum_from v x 1 (m_size v - 1) }"

definition vec_copy :: "'a \<Rightarrow> 'a vector \<Rightarrow> 'a vector" where
  "vec_copy d v =
     \<lparr>m_vec = take (m_size v) (m_vec v) @ replicate (length (m_vec v) - m_size v) d,
      m_size = m_size v\<rparr>"

subsection \<open>Abstraction to lists\<close>

definition vec_ok :: "'a vector \<Rightarrow> bool" where
  "vec_ok v \<longleftrightarrow> m_size v \<le> length (m_vec v)"

definition vec_list :: "'a vector \<Rightarrow> 'a list" where
  "vec_list v = take (m_size v) (m_vec v)"

named_theorems vec_simps \<open>vector operations as list operations\<close>

lemma vec_ok_empty [vec_simps]: "vec_ok vec_empty" "vec_list vec_empty = []"
  by (simp_all add: vec_ok_def vec_empty_def vec_list_def)

lemma length_vec_list [vec_simps]: "vec_ok v \<Longrightarrow> length (vec_list v) = m_size v"
  by (simp add: vec_ok_def vec_list_def)

lemma vec_ref_list:
  "vec_ref v i = (if i < m_size v then Some (vec_list v ! i) else None)"
  by (auto simp: vec_ref_def vec_list_def check_bind)

lemma vec_set_Some:
  "vec_set v i x = (if i < m_size v then Some (v\<lparr>m_vec := (m_vec v)[i := x]\<rparr>) else None)"
  by (auto simp: vec_set_def check_bind)

lemma vec_upd_abs [vec_simps]:
  "m_size (v\<lparr>m_vec := (m_vec v)[i := x]\<rparr>) = m_size v"
  "vec_ok (v\<lparr>m_vec := (m_vec v)[i := x]\<rparr>) = vec_ok v"
  "vec_list (v\<lparr>m_vec := (m_vec v)[i := x]\<rparr>) = (vec_list v)[i := x]"
  by (simp_all add: vec_ok_def vec_list_def take_update_swap)

lemma vec_set_SomeD:
  assumes "vec_set v i x = Some v'"
  shows "i < m_size v" "m_size v' = m_size v" "vec_ok v' = vec_ok v"
    "vec_list v' = (vec_list v)[i := x]"
  using assms by (auto simp: vec_set_Some vec_simps split: if_splits)

lemma vec_setSize_abs:
  assumes "vec_ok v"
  shows "vec_ok (vec_setSize d v n)" "m_size (vec_setSize d v n) = n"
    "take (m_size v) (vec_list (vec_setSize d v n)) = take n (vec_list v)"
  using assms
  by (auto simp: vec_ok_def vec_list_def vec_setSize_def vec_grow_def Let_def min_def max_def)

lemma vec_setSize_nth:
  assumes "vec_ok v" and "i < m_size v" and "i < n"
  shows "vec_list (vec_setSize d v n) ! i = vec_list v ! i"
proof -
  have "vec_list (vec_setSize d v n) ! i = take (m_size v) (vec_list (vec_setSize d v n)) ! i"
    using assms by simp
  also have "\<dots> = vec_list v ! i" using assms by (simp add: vec_setSize_abs)
  finally show ?thesis .
qed

lemma vec_fill_abs:
  "vec_ok v \<Longrightarrow> j + k = m_size v \<Longrightarrow>
   \<exists>v'. vec_fill v j k x = Some v' \<and> vec_ok v' \<and> m_size v' = m_size v \<and>
        vec_list v' = take j (vec_list v) @ replicate k x"
proof (induction k arbitrary: v j)
  case 0
  then show ?case by (simp add: length_vec_list)
next
  case (Suc k)
  let ?v = "v\<lparr>m_vec := (m_vec v)[j := x]\<rparr>"
  from Suc.prems have "vec_ok ?v" "Suc j + k = m_size ?v" by (simp_all add: vec_simps)
  from Suc.IH [OF this] obtain v' where v': "vec_fill ?v (Suc j) k x = Some v'" "vec_ok v'"
    "m_size v' = m_size ?v" "vec_list v' = take (Suc j) (vec_list ?v) @ replicate k x" by blast
  have "take (Suc j) (vec_list ?v) = take j (vec_list v) @ [x]"
    using Suc.prems by (simp add: vec_simps take_Suc_conv_app_nth)
  with v' Suc.prems show ?case by (simp add: vec_set_Some vec_simps)
qed

lemma vec_increaseSize_abs:
  assumes "vec_ok v" and "m_size v \<le> n"
  shows "\<exists>v'. vec_increaseSize d v n x = Some v' \<and> vec_ok v' \<and>
           vec_list v' = vec_list v @ replicate (n - m_size v) x"
proof -
  let ?g = "if length (m_vec v) \<le> n
            then vec_grow d v (max ((length (m_vec v) + 1) * 2) n) else v"
  let ?v = "?g\<lparr>m_size := n\<rparr>"
  have ok: "vec_ok ?v" and sz: "m_size v + (n - m_size v) = m_size ?v"
    and tk: "take (m_size v) (vec_list ?v) = vec_list v"
    using assms by (auto simp: vec_ok_def vec_grow_def vec_list_def min_def max_def)
  from vec_fill_abs [OF ok sz, of x] tk assms show ?thesis
    by (auto simp: vec_increaseSize_def check_bind)
qed

lemma vec_insertAtBottom_abs:
  assumes "vec_ok v"
  shows "\<exists>v'. vec_insertAtBottom d v x = Some v' \<and> vec_ok v' \<and> vec_list v' = vec_list v @ [x]"
proof -
  let ?w = "vec_setSize d v (m_size v + 1)"
  have w: "vec_ok ?w" "m_size ?w = m_size v + 1" "take (m_size v) (vec_list ?w) = vec_list v"
    using vec_setSize_abs [OF assms, of d "m_size v + 1"] assms
    by (simp_all add: length_vec_list)
  have "(vec_list ?w)[m_size v := x] = take (m_size v) (vec_list ?w) @ [x]"
    using w by (simp add: upd_conv_take_nth_drop length_vec_list)
  with w show ?thesis
    by (simp add: vec_insertAtBottom_def Let_def vec_set_Some vec_simps)
qed

lemma vec_shift_up_abs:
  "vec_ok v \<Longrightarrow> i < m_size v \<Longrightarrow>
   \<exists>v'. vec_shift_up v i = Some v' \<and> vec_ok v' \<and> m_size v' = m_size v \<and>
        (\<forall>j < m_size v. vec_list v' ! j =
           (if 0 < j \<and> j \<le> i then vec_list v ! (j - 1) else vec_list v ! j))"
proof (induction i arbitrary: v)
  case 0
  then show ?case by simp
next
  case (Suc i)
  let ?v = "v\<lparr>m_vec := (m_vec v)[Suc i := vec_list v ! i]\<rparr>"
  have "vec_ok ?v" "i < m_size ?v" using Suc.prems by (simp_all add: vec_simps)
  from Suc.IH [OF this] obtain v' where v': "vec_shift_up ?v i = Some v'" "vec_ok v'"
    "m_size v' = m_size ?v" "\<forall>j < m_size ?v. vec_list v' ! j =
      (if 0 < j \<and> j \<le> i then vec_list ?v ! (j - 1) else vec_list ?v ! j)" by blast
  have "vec_list v' ! j = (if 0 < j \<and> j \<le> Suc i then vec_list v ! (j - 1) else vec_list v ! j)"
    if "j < m_size v" for j
    using v'(4) that Suc.prems
    by (cases "j = Suc i") (auto simp: vec_simps nth_list_update)
  with v' Suc.prems show ?case by (simp add: vec_ref_list vec_set_Some vec_simps)
qed

lemma vec_insertAtTop_abs:
  assumes "vec_ok v"
  shows "\<exists>v'. vec_insertAtTop d v x = Some v' \<and> vec_ok v' \<and> vec_list v' = x # vec_list v"
proof -
  let ?w = "vec_setSize d v (m_size v + 1)"
  have w: "vec_ok ?w" "m_size ?w = m_size v + 1"
    using vec_setSize_abs [OF assms, of d "m_size v + 1"] by simp_all
  from vec_shift_up_abs [OF w(1), of "m_size v"] w obtain u where u:
    "vec_shift_up ?w (m_size v) = Some u" "vec_ok u" "m_size u = m_size v + 1"
    "\<forall>j < m_size v + 1. vec_list u ! j =
       (if 0 < j \<and> j \<le> m_size v then vec_list ?w ! (j - 1) else vec_list ?w ! j)" by auto
  have "(vec_list u)[0 := x] = x # vec_list v"
  proof (rule nth_equalityI)
    show "length ((vec_list u)[0 := x]) = length (x # vec_list v)"
      using u assms by (simp add: length_vec_list)
    fix j assume "j < length ((vec_list u)[0 := x])"
    then have j: "j < m_size v + 1" using u by (simp add: length_vec_list)
    show "(vec_list u)[0 := x] ! j = (x # vec_list v) ! j"
    proof (cases j)
      case 0
      then show ?thesis using u by (simp add: length_vec_list)
    next
      case (Suc k)
      then show ?thesis using u j assms by (simp add: vec_setSize_nth)
    qed
  qed
  with u show ?thesis by (simp add: vec_insertAtTop_def vec_set_Some vec_simps)
qed

lemma vec_move_down_nth:
  "i + k + num \<le> length xs \<Longrightarrow>
   length (vec_move_down xs num i k) = length xs \<and>
   (\<forall>j < length xs. vec_move_down xs num i k ! j =
      (if i \<le> j \<and> j < i + k then xs ! (j + num) else xs ! j))"
proof (induction k arbitrary: xs i)
  case 0
  then show ?case by auto
next
  case (Suc k)
  let ?ys = "xs[i := xs ! (i + num)]"
  have ih: "length (vec_move_down ?ys num (Suc i) k) = length xs"
    "\<forall>j < length xs. vec_move_down ?ys num (Suc i) k ! j =
       (if Suc i \<le> j \<and> j < Suc i + k then ?ys ! (j + num) else ?ys ! j)"
    using Suc.IH [of "Suc i" ?ys] Suc.prems by simp_all
  show ?case
  proof (intro conjI allI impI)
    show "length (vec_move_down xs num i (Suc k)) = length xs" using ih by simp
    fix j assume "j < length xs"
    then show "vec_move_down xs num i (Suc k) ! j =
      (if i \<le> j \<and> j < i + Suc k then xs ! (j + num) else xs ! j)"
      using ih(2) Suc.prems by (cases "j = i") (auto simp: nth_list_update)
  qed
qed

lemma vec_removeFromTop_abs:
  assumes "vec_ok v"
  shows "vec_ok (vec_removeFromTop v n)" "vec_list (vec_removeFromTop v n) = drop n (vec_list v)"
proof -
  define k where "k = (if m_size v < n then m_size v else n)"
  have k: "k \<le> m_size v" by (simp add: k_def)
  have len: "0 + (m_size v - k) + k \<le> length (m_vec v)" using assms k by (simp add: vec_ok_def)
  note mv = vec_move_down_nth [OF len]
  have eq: "vec_removeFromTop v n =
      \<lparr>m_vec = vec_move_down (m_vec v) k 0 (m_size v - k), m_size = m_size v - k\<rparr>"
    by (simp add: vec_removeFromTop_def k_def Let_def)
  show "vec_ok (vec_removeFromTop v n)" using mv assms k by (simp add: eq vec_ok_def)
  have "take (m_size v - k) (vec_move_down (m_vec v) k 0 (m_size v - k)) =
      drop k (take (m_size v) (m_vec v))"
    using mv assms k by (intro nth_equalityI) (auto simp: vec_ok_def add.commute)
  moreover have "drop k (take (m_size v) (m_vec v)) = drop n (take (m_size v) (m_vec v))"
    using assms by (simp add: k_def vec_ok_def)
  ultimately show "vec_list (vec_removeFromTop v n) = drop n (vec_list v)"
    by (simp add: eq vec_list_def)
qed

lemma vec_copy_abs: "vec_ok v \<Longrightarrow> vec_ok (vec_copy d v)" "vec_ok v \<Longrightarrow> vec_list (vec_copy d v) = vec_list v"
  by (simp_all add: vec_ok_def vec_copy_def vec_list_def)

lemma vec_sum_from_abs:
  "vec_ok v \<Longrightarrow> i + k \<le> m_size v \<Longrightarrow>
   vec_sum_from v acc i k = Some (foldl (+) acc (take k (drop i (vec_list v))))"
proof (induction k arbitrary: acc i)
  case 0
  then show ?case by simp
next
  case (Suc k)
  have "take (Suc k) (drop i (vec_list v)) = vec_list v ! i # take k (drop (Suc i) (vec_list v))"
    using Suc.prems by (simp add: length_vec_list take_Suc_Cons flip: Cons_nth_drop_Suc)
  with Suc show ?case by (simp add: vec_ref_list)
qed

end
