(* ===== verification/Prio_Heap.thy ===== *)
theory Prio_Heap
  imports Ruby_Vector
begin

text \<open>
  The binary min-heap of \<^verbatim>\<open>gems-lib/common/PrioHeap.h\<close>, the structure under the event
  queue and every message buffer. The elements stand at indices \<open>1 .. m_current_size\<close> of
  a \<^verbatim>\<open>Vector\<close>; index 0 holds a copy of the first key ever inserted. The comparison
  \<^verbatim>\<open>node_less_then_eq\<close> is a parameter \<open>le\<close> that may itself fail an assertion
  (\<open>None\<close>), as the one of \<^verbatim>\<open>MessageBufferNode\<close> does. \<^verbatim>\<open>HeapIndex\<close> is an
  unsigned int; heaps stay far below \<open>2^31\<close> elements, so indices are naturals.

  The locale \<open>node_order\<close> is what the heap needs of the comparison; inside it, insertion and
  extraction are shown to keep the heap order, to act on the multiset of elements as a priority
  queue should, and never to fail an assertion as long as the comparison does not.
\<close>

record 'a prio_heap =
  m_heap :: "'a vector"
  m_current_size :: nat

definition heap_init :: "'a prio_heap" where
  "heap_init = \<lparr>m_heap = vec_empty, m_current_size = 0\<rparr>"

definition heap_size :: "'a prio_heap \<Rightarrow> nat" where
  "heap_size h = m_current_size h"

lemma heap_size_init [simp]: "heap_size heap_init = 0"
  by (simp add: heap_size_def heap_init_def)

definition get_parent :: "nat \<Rightarrow> nat" where "get_parent i = i div 2"
definition get_right :: "nat \<Rightarrow> nat" where "get_right i = 2 * i + 1"
definition get_left :: "nat \<Rightarrow> nat" where "get_left i = 2 * i"

lemmas heap_index_defs = get_parent_def get_right_def get_left_def

function insert_loop :: "('a \<Rightarrow> 'a \<Rightarrow> bool option) \<Rightarrow> 'a \<Rightarrow> nat \<Rightarrow> 'a vector \<Rightarrow> (nat \<times> 'a vector) option"
where
  "insert_loop le key i v =
     (if 1 < i then do {
        p \<leftarrow> vec_ref v (get_parent i);
        b \<leftarrow> le key p;
        if b then do {
          v' \<leftarrow> vec_set v i p;
          insert_loop le key (get_parent i) v' }
        else Some (i, v) }
      else Some (i, v))"
  by pat_completeness auto
termination
  by (relation "measure (\<lambda>(le, key, i, v). i)") (auto simp: heap_index_defs)

definition heap_insert :: "'a \<Rightarrow> ('a \<Rightarrow> 'a \<Rightarrow> bool option) \<Rightarrow> 'a \<Rightarrow> 'a prio_heap \<Rightarrow> 'a prio_heap option"
where
  "heap_insert d le key h = do {
     let n = m_current_size h + 1;
     let v0 = vec_setSize d (m_heap h) (n + 1);
     v1 \<leftarrow> (if n = 1 then vec_set v0 0 key else Some v0);
     (i, v2) \<leftarrow> insert_loop le key n v1;
     v3 \<leftarrow> vec_set v2 i key;
     Some \<lparr>m_heap = v3, m_current_size = n\<rparr> }"

definition peekMin :: "'a prio_heap \<Rightarrow> 'a option" where
  "peekMin h = do {
     check (0 < heap_size h);
     vec_ref (m_heap h) 1 }"

definition peekElement :: "'a prio_heap \<Rightarrow> nat \<Rightarrow> 'a option" where
  "peekElement h i = do {
     check (0 < heap_size h);
     vec_ref (m_heap h) i }"

definition smallest_child ::
  "('a \<Rightarrow> 'a \<Rightarrow> bool option) \<Rightarrow> nat \<Rightarrow> nat \<Rightarrow> 'a vector \<Rightarrow> nat option" where
  "smallest_child le n c v = do {
     let left = get_left c;
     let right = get_right c;
     s \<leftarrow> (if left \<le> n then do {
             x \<leftarrow> vec_ref v left;
             y \<leftarrow> vec_ref v c;
             b \<leftarrow> le x y;
             Some (if b then left else c) }
           else Some c);
     (if right \<le> n then do {
        x \<leftarrow> vec_ref v right;
        y \<leftarrow> vec_ref v s;
        b \<leftarrow> le x y;
        Some (if b then right else s) }
      else Some s) }"

lemma smallest_child_cases:
  assumes "smallest_child le n c v = Some s"
  shows "s = c \<or> s = get_left c \<and> get_left c \<le> n \<or> s = get_right c \<and> get_right c \<le> n"
  using assms
  by (auto simp: smallest_child_def Let_def bind_Some_iff split: if_splits)

function heapify :: "('a \<Rightarrow> 'a \<Rightarrow> bool option) \<Rightarrow> nat \<Rightarrow> nat \<Rightarrow> 'a vector \<Rightarrow> 'a vector option" where
  "heapify le n c v =
     (case smallest_child le n c v of
        None \<Rightarrow> None
      | Some s \<Rightarrow>
          if s = c then Some v
          else do {
            x \<leftarrow> vec_ref v c;
            y \<leftarrow> vec_ref v s;
            v1 \<leftarrow> vec_set v c y;
            v2 \<leftarrow> vec_set v1 s x;
            heapify le n s v2 })"
  by pat_completeness auto
termination
proof (relation "measure (\<lambda>(le, n, c, v). n + 1 - c)")
  fix le :: "'a \<Rightarrow> 'a \<Rightarrow> bool option" and n c s v x y v1 v2
  assume "smallest_child le n c v = Some s" "s \<noteq> c"
  from smallest_child_cases [OF this(1)] this(2)
  show "((le, n, s, v2), (le, n, c, v)) \<in> measure (\<lambda>(le, n, c, v). n + 1 - c)"
    by (auto simp: heap_index_defs)
qed simp

definition extractMin :: "('a \<Rightarrow> 'a \<Rightarrow> bool option) \<Rightarrow> 'a prio_heap \<Rightarrow> ('a \<times> 'a prio_heap) option"
where
  "extractMin le h = do {
     check (0 < heap_size h);
     temp \<leftarrow> vec_ref (m_heap h) 1;
     x \<leftarrow> vec_ref (m_heap h) (m_current_size h);
     v1 \<leftarrow> vec_set (m_heap h) 1 x;
     let n = m_current_size h - 1;
     v2 \<leftarrow> heapify le n 1 v1;
     Some (temp, \<lparr>m_heap = v2, m_current_size = n\<rparr>) }"

partial_function (option) verifyHeap ::
  "('a \<Rightarrow> 'a \<Rightarrow> bool option) \<Rightarrow> 'a prio_heap \<Rightarrow> nat \<Rightarrow> bool option" where
  "verifyHeap le h index =
     (if m_current_size h < index then Some True
      else Option.bind
        (if index = 1 then Some True
         else do {
           x \<leftarrow> vec_ref (m_heap h) (get_parent index);
           y \<leftarrow> vec_ref (m_heap h) index;
           le x y })
        (\<lambda>ordered. if ordered
          then Option.bind (verifyHeap le h (get_right index))
                 (\<lambda>r. if r then verifyHeap le h (get_left index) else Some False)
          else Some False))"

declare insert_loop.simps [simp del] heapify.simps [simp del]

subsection \<open>Abstraction\<close>

definition heap_wf :: "'a prio_heap \<Rightarrow> bool" where
  "heap_wf h \<longleftrightarrow> vec_ok (m_heap h) \<and> (0 < m_current_size h \<longrightarrow> m_current_size h < m_size (m_heap h))"

definition seg :: "nat \<Rightarrow> 'a list \<Rightarrow> 'a list" where
  "seg n xs = take n (drop 1 xs)"

definition heap_mset :: "'a prio_heap \<Rightarrow> 'a multiset" where
  "heap_mset h = mset (seg (m_current_size h) (vec_list (m_heap h)))"

lemma nth_seg: "Suc k < length xs \<Longrightarrow> k < n \<Longrightarrow> seg n xs ! k = xs ! Suc k"
  by (simp add: seg_def)

lemma length_seg: "n < length xs \<Longrightarrow> length (seg n xs) = n"
  by (simp add: seg_def)

lemma seg_update:
  "1 \<le> i \<Longrightarrow> seg n (xs[i := x]) = (seg n xs)[i - 1 := x]"
  by (cases i) (simp_all add: seg_def drop_update_swap take_update_swap)

lemma seg_two:
  assumes "1 \<le> i" "i \<le> n" "1 \<le> j" "j \<le> n" "i \<noteq> j" "n < length xs"
  shows "{#xs ! i, xs ! j#} \<subseteq># mset (seg n xs)"
proof -
  have "{#seg n xs ! (i - 1), seg n xs ! (j - 1)#} \<subseteq># mset (seg n xs)"
    using assms by (intro mset_two_nth) (auto simp: length_seg)
  moreover have "seg n xs ! (i - 1) = xs ! i" "seg n xs ! (j - 1) = xs ! j"
    using assms nth_seg [of "i - 1" xs n] nth_seg [of "j - 1" xs n] by auto
  ultimately show ?thesis by simp
qed

lemma seg_swap:
  assumes "1 \<le> i" "i \<le> n" "1 \<le> j" "j \<le> n" "n < length xs"
  shows "mset (seg n (xs[i := xs ! j, j := xs ! i])) = mset (seg n xs)"
proof -
  have eq: "xs ! i = seg n xs ! (i - 1)" "xs ! j = seg n xs ! (j - 1)"
    using assms nth_seg [of "i - 1" xs n] nth_seg [of "j - 1" xs n] by auto
  show ?thesis
    unfolding seg_update [OF assms(3)] seg_update [OF assms(1)] eq
    using assms by (intro list_update_swap_mset) (auto simp: length_seg)
qed

lemma seg_elem: "1 \<le> i \<Longrightarrow> i \<le> n \<Longrightarrow> n < length xs \<Longrightarrow> xs ! i \<in> set (seg n xs)"
  using nth_seg [of "i - 1" xs n] length_seg [of n xs] nth_mem [of "i - 1" "seg n xs"] by auto

lemma seg_elemE:
  assumes "x \<in> set (seg n xs)" and "n < length xs"
  obtains i where "1 \<le> i" "i \<le> n" "x = xs ! i"
proof -
  from assms obtain k where "k < n" "x = seg n xs ! k"
    by (auto simp: in_set_conv_nth length_seg)
  then show thesis using assms(2) that [of "Suc k"] by (simp add: nth_seg)
qed

subsection \<open>The contract of the comparison, and the heap order\<close>

locale node_order =
  fixes le :: "'a \<Rightarrow> 'a \<Rightarrow> bool option" and lt_eq :: "'a \<Rightarrow> 'a \<Rightarrow> bool"
  assumes lt_eq_total: "lt_eq x y \<or> lt_eq y x"
    and lt_eq_trans: "lt_eq x y \<Longrightarrow> lt_eq y z \<Longrightarrow> lt_eq x z"
    and le_Some: "le x y = Some b \<Longrightarrow> b = lt_eq x y"
begin

definition comparable :: "'a multiset \<Rightarrow> bool" where
  "comparable M \<longleftrightarrow> (\<forall>x y. {#x, y#} \<subseteq># M \<longrightarrow> le x y \<noteq> None)"

definition ordered :: "nat \<Rightarrow> 'a list \<Rightarrow> bool" where
  "ordered n xs \<longleftrightarrow> (\<forall>j. 2 \<le> j \<and> j \<le> n \<longrightarrow> lt_eq (xs ! (j div 2)) (xs ! j))"

definition heap_ok :: "'a prio_heap \<Rightarrow> bool" where
  "heap_ok h \<longleftrightarrow> heap_wf h \<and> comparable (heap_mset h) \<and>
     ordered (m_current_size h) (vec_list (m_heap h))"

lemma lt_eq_refl: "lt_eq x x"
  using lt_eq_total by blast

lemma comparable_mono: "comparable M \<Longrightarrow> N \<subseteq># M \<Longrightarrow> comparable N"
  by (auto simp: comparable_def dest: subset_mset.order_trans)

lemma comparable_nth:
  assumes "comparable (mset (seg n xs))" "1 \<le> i" "i \<le> n" "1 \<le> j" "j \<le> n" "i \<noteq> j" "n < length xs"
  shows "le (xs ! i) (xs ! j) = Some (lt_eq (xs ! i) (xs ! j))"
proof -
  have "le (xs ! i) (xs ! j) \<noteq> None"
    using assms seg_two [OF assms(2-7)] by (auto simp: comparable_def)
  then show ?thesis using le_Some by fastforce
qed

lemma ordered_root:
  assumes "ordered n xs"
  shows "1 \<le> j \<Longrightarrow> j \<le> n \<Longrightarrow> lt_eq (xs ! 1) (xs ! j)"
proof (induction j rule: less_induct)
  case (less j)
  show ?case
  proof (cases "j = 1")
    case True
    then show ?thesis by (simp add: lt_eq_refl)
  next
    case False
    with less have "lt_eq (xs ! 1) (xs ! (j div 2))" "lt_eq (xs ! (j div 2)) (xs ! j)"
      using assms by (auto simp: ordered_def)
    then show ?thesis by (rule lt_eq_trans)
  qed
qed

text \<open>Sifting up: the key belongs at the hole \<open>i\<close>; the only pair that may be out of order is
  the hole and its parent, and the hole's children are above its parent.\<close>

definition up_inv :: "nat \<Rightarrow> nat \<Rightarrow> 'a list \<Rightarrow> bool" where
  "up_inv n i xs \<longleftrightarrow>
     (\<forall>j. 2 \<le> j \<and> j \<le> n \<and> j \<noteq> i \<longrightarrow> lt_eq (xs ! (j div 2)) (xs ! j)) \<and>
     (\<forall>j. 2 \<le> j \<and> j \<le> n \<and> j div 2 = i \<and> 1 < i \<longrightarrow> lt_eq (xs ! (i div 2)) (xs ! j))"

lemma up_inv_step:
  assumes inv: "up_inv n i (xs[i := key])" and i: "1 < i" "i \<le> n" "n < length xs"
    and le: "lt_eq key (xs ! (i div 2))"
  shows "up_inv n (i div 2) (xs[i := xs ! (i div 2), i div 2 := key])"
proof -
  let ?p = "i div 2" and ?ys = "xs[i := key]" and ?zs = "xs[i := xs ! (i div 2), i div 2 := key]"
  have z: "?zs ! j = (if j = ?p then key else if j = i then xs ! ?p else xs ! j)" for j
    using i by (auto simp: nth_list_update)
  have y: "?ys ! j = (if j = i then key else xs ! j)" for j
    using i by (auto simp: nth_list_update)
  have A: "lt_eq (?ys ! (j div 2)) (?ys ! j)" if "2 \<le> j" "j \<le> n" "j \<noteq> i" for j
    using inv that by (simp add: up_inv_def)
  have B: "lt_eq (?ys ! ?p) (?ys ! j)" if "2 \<le> j" "j \<le> n" "j div 2 = i" for j
    using inv that i unfolding up_inv_def by blast
  have C: "lt_eq (?zs ! (j div 2)) (?zs ! j)" if j: "2 \<le> j" "j \<le> n" "j \<noteq> ?p" for j
  proof (cases "j = i")
    case True
    then show ?thesis using le i by (auto simp: z lt_eq_refl)
  next
    case False
    show ?thesis
    proof (cases "j div 2 = i")
      case True
      then show ?thesis using B [OF j(1,2) True] False j i by (simp add: z y split: if_splits)
    next
      case jni: False
      from A [OF j(1,2) False] False jni j
      have "lt_eq (xs ! (j div 2)) (xs ! j)" by (simp add: y)
      then show ?thesis using False jni j le
        by (auto simp: z intro: lt_eq_trans)
    qed
  qed
  have D: "lt_eq (?zs ! (?p div 2)) (?zs ! j)" if j: "2 \<le> j" "j \<le> n" "j div 2 = ?p" "1 < ?p" for j
  proof -
    have "?p \<noteq> i" "?p div 2 \<noteq> i" "?p \<le> n" using i by auto
    then have "lt_eq (xs ! (?p div 2)) (xs ! ?p)"
      using A [of ?p] that by (simp add: y)
    moreover have "lt_eq (xs ! ?p) (xs ! j)" if "j \<noteq> i"
      using A [of j] that j i by (simp add: y split: if_splits)
    ultimately show ?thesis using j by (auto simp: z intro: lt_eq_trans)
  qed
  show ?thesis unfolding up_inv_def using C D by blast
qed

lemma insert_loop_ok:
  assumes "vec_ok v" "1 \<le> i" "i \<le> n" "n < m_size v"
    and "comparable (mset (seg n ((vec_list v)[i := key])))"
    and "up_inv n i ((vec_list v)[i := key])"
  shows "\<exists>i' v'. insert_loop le key i v = Some (i', v') \<and> vec_ok v' \<and> m_size v' = m_size v \<and>
     1 \<le> i' \<and> i' \<le> n \<and>
     ordered n ((vec_list v')[i' := key]) \<and>
     mset (seg n ((vec_list v')[i' := key])) = mset (seg n ((vec_list v)[i := key]))"
  using assms
proof (induction i arbitrary: v rule: less_induct)
  case (less i)
  let ?xs = "vec_list v" and ?p = "i div 2"
  have len: "n < length ?xs" using less.prems by (simp add: length_vec_list)
  show ?case
  proof (cases "1 < i")
    case False
    then have "ordered n (?xs[i := key])" using less.prems by (auto simp: up_inv_def ordered_def)
    with False less.prems show ?thesis by (simp add: insert_loop.simps)
  next
    case True
    then have p: "1 \<le> ?p" "?p < i" "?p \<le> n" using less.prems by auto
    have cmp: "le key (?xs ! ?p) = Some (lt_eq key (?xs ! ?p))"
      using comparable_nth [OF less.prems(5), of i ?p] less.prems p len by simp
    show ?thesis
    proof (cases "lt_eq key (?xs ! ?p)")
      case le: True
      let ?v = "v\<lparr>m_vec := (m_vec v)[i := ?xs ! ?p]\<rparr>"
      have abs: "vec_ok ?v" "m_size ?v = m_size v" "vec_list ?v = ?xs[i := ?xs ! ?p]"
        using less.prems by (simp_all add: vec_simps)
      have swap: "?xs[i := ?xs ! ?p, ?p := key] =
          (?xs[i := key])[i := (?xs[i := key]) ! ?p, ?p := (?xs[i := key]) ! i]"
        using p len less.prems by simp
      have ms: "mset (seg n (?xs[i := ?xs ! ?p, ?p := key])) = mset (seg n (?xs[i := key]))"
        unfolding swap using less.prems p len by (intro seg_swap) auto
      have inv: "up_inv n ?p ((vec_list ?v)[?p := key])"
        using up_inv_step [OF less.prems(6) True less.prems(3) len le] by (simp add: abs)
      from less.IH [OF p(2) abs(1) p(1,3) _ _ inv] less.prems ms abs
      obtain i' v' where r: "insert_loop le key ?p ?v = Some (i', v')" "vec_ok v'"
        "m_size v' = m_size ?v" "1 \<le> i'" "i' \<le> n" "ordered n ((vec_list v')[i' := key])"
        "mset (seg n ((vec_list v')[i' := key])) = mset (seg n ((vec_list ?v)[?p := key]))"
        by auto
      have st: "insert_loop le key i v = insert_loop le key ?p ?v"
        using True p le cmp less.prems
        by (auto simp: insert_loop.simps [of le key i] vec_ref_list vec_set_Some get_parent_def)
      show ?thesis
        using r abs ms by (intro exI [of _ i'] exI [of _ v']) (simp add: st)
    next
      case nle: False
      then have "lt_eq (?xs ! ?p) key" using lt_eq_total by blast
      then have "ordered n (?xs[i := key])"
        using less.prems p len by (auto simp: up_inv_def ordered_def nth_list_update split: if_splits)
      moreover have "insert_loop le key i v = Some (i, v)"
        using True p nle cmp less.prems
        by (simp add: insert_loop.simps [of le key i] vec_ref_list get_parent_def)
      ultimately show ?thesis using less.prems by simp
    qed
  qed
qed

lemma heap_insert_ok:
  assumes ok: "heap_ok h" and cmp: "comparable (add_mset key (heap_mset h))"
  shows "\<exists>h'. heap_insert d le key h = Some h' \<and> heap_ok h' \<and>
           heap_mset h' = add_mset key (heap_mset h) \<and> heap_size h' = heap_size h + 1"
proof -
  let ?n = "m_current_size h + 1"
  let ?v0 = "vec_setSize d (m_heap h) (?n + 1)"
  from ok have wf: "vec_ok (m_heap h)" "0 < m_current_size h \<longrightarrow> m_current_size h < m_size (m_heap h)"
    and ord: "ordered (m_current_size h) (vec_list (m_heap h))"
    by (auto simp: heap_ok_def heap_wf_def)
  have v0: "vec_ok ?v0" "m_size ?v0 = ?n + 1"
    using wf by (simp_all add: vec_setSize_abs)
  obtain v1 where v1: "(if ?n = 1 then vec_set ?v0 0 key else Some ?v0) = Some v1"
    using v0 by (cases "?n = 1") (auto simp: vec_set_Some)
  then have v1_abs: "vec_ok v1" "m_size v1 = ?n + 1"
    using v0 by (auto dest: vec_set_SomeD split: if_splits)
  have v1_nth: "vec_list v1 ! j = vec_list (m_heap h) ! j" if "1 \<le> j" "j \<le> m_current_size h" for j
    using v1 that wf v0 by (auto simp: vec_setSize_nth split: if_splits)
  have len1: "?n < length (vec_list v1)" using v1_abs by (simp add: length_vec_list)
  have seg1: "seg ?n ((vec_list v1)[?n := key]) = seg (m_current_size h) (vec_list (m_heap h)) @ [key]"
  proof (rule nth_equalityI)
    show "length (seg ?n ((vec_list v1)[?n := key])) =
        length (seg (m_current_size h) (vec_list (m_heap h)) @ [key])"
      using len1 wf by (cases "m_current_size h") (auto simp: length_seg length_vec_list seg_def)
    fix j assume "j < length (seg ?n ((vec_list v1)[?n := key]))"
    then have j: "j < ?n" using len1 by (simp add: length_seg)
    have "seg ?n ((vec_list v1)[?n := key]) ! j = (vec_list v1)[?n := key] ! Suc j"
      using j len1 by (intro nth_seg) auto
    then show "seg ?n ((vec_list v1)[?n := key]) ! j =
        (seg (m_current_size h) (vec_list (m_heap h)) @ [key]) ! j"
      using j len1 wf v1_nth [of "Suc j"]
      by (cases "j = m_current_size h")
        (auto simp: nth_append length_seg nth_seg length_vec_list seg_def)
  qed
  have ms: "mset (seg ?n ((vec_list v1)[?n := key])) = add_mset key (heap_mset h)"
    unfolding seg1 by (simp add: seg_def heap_mset_def)
  have inv: "up_inv ?n ?n ((vec_list v1)[?n := key])"
    unfolding up_inv_def
  proof (intro conjI allI impI; (elim conjE)?)
    fix j assume j: "2 \<le> j" "j \<le> ?n" "j \<noteq> ?n"
    then have "lt_eq (vec_list v1 ! (j div 2)) (vec_list v1 ! j)"
      using ord v1_nth [of j] v1_nth [of "j div 2"] by (auto simp: ordered_def)
    then show "lt_eq ((vec_list v1)[?n := key] ! (j div 2)) ((vec_list v1)[?n := key] ! j)"
      using j by (simp add: nth_list_update)
  qed auto
  from insert_loop_ok [OF v1_abs(1), of ?n ?n key] v1_abs cmp ms inv
  obtain i' v2 where r: "insert_loop le key ?n v1 = Some (i', v2)" "vec_ok v2"
    "m_size v2 = ?n + 1" "1 \<le> i'" "i' \<le> ?n" "ordered ?n ((vec_list v2)[i' := key])"
    "mset (seg ?n ((vec_list v2)[i' := key])) = add_mset key (heap_mset h)"
    by auto
  let ?h = "\<lparr>m_heap = v2\<lparr>m_vec := (m_vec v2)[i' := key]\<rparr>, m_current_size = ?n\<rparr>"
  have "heap_insert d le key h = Some ?h"
    unfolding heap_insert_def Let_def v1 using r by (simp add: vec_set_Some)
  moreover have "heap_mset ?h = add_mset key (heap_mset h)"
    using r by (simp add: heap_mset_def vec_simps seg_def)
  ultimately show ?thesis
    using r cmp by (simp add: heap_ok_def heap_wf_def heap_size_def vec_simps)
qed

text \<open>Sifting down: the only pairs that may be out of order are the current node and its
  children, and those children are above the current node's parent.\<close>

definition down_inv :: "nat \<Rightarrow> nat \<Rightarrow> 'a list \<Rightarrow> bool" where
  "down_inv n c xs \<longleftrightarrow>
     (\<forall>j. 2 \<le> j \<and> j \<le> n \<and> j div 2 \<noteq> c \<longrightarrow> lt_eq (xs ! (j div 2)) (xs ! j)) \<and>
     (\<forall>j. 2 \<le> j \<and> j \<le> n \<and> j div 2 = c \<and> 1 < c \<longrightarrow> lt_eq (xs ! (c div 2)) (xs ! j))"

lemma smallest_child_ok:
  assumes "vec_ok v" "1 \<le> c" "n < m_size v" "c \<le> n \<or> n = 0"
    and cmp: "comparable (mset (seg n (vec_list v)))"
  shows "\<exists>s. smallest_child le n c v = Some s \<and>
           (\<forall>j. 2 \<le> j \<and> j \<le> n \<and> j div 2 = c \<longrightarrow> lt_eq (vec_list v ! s) (vec_list v ! j)) \<and>
           lt_eq (vec_list v ! s) (vec_list v ! c)"
proof -
  let ?xs = "vec_list v"
  have len: "n < length ?xs" using assms by (simp add: length_vec_list)
  have L: "le (?xs ! (2 * c)) (?xs ! c) = Some (lt_eq (?xs ! (2 * c)) (?xs ! c))" if "2 * c \<le> n"
    using that assms len by (intro comparable_nth [OF cmp]) auto
  have R: "le (?xs ! (2 * c + 1)) (?xs ! s) = Some (lt_eq (?xs ! (2 * c + 1)) (?xs ! s))"
    if "2 * c + 1 \<le> n" "s = c \<or> s = 2 * c" for s
    using that assms len by (intro comparable_nth [OF cmp]) auto
  have kids: "j = 2 * c \<or> j = 2 * c + 1" if "j div 2 = c" for j using that by auto
  define s1 where "s1 = (if 2 * c \<le> n \<and> lt_eq (?xs ! (2 * c)) (?xs ! c) then 2 * c else c)"
  define s2 where "s2 = (if 2 * c + 1 \<le> n \<and> lt_eq (?xs ! (2 * c + 1)) (?xs ! s1) then 2 * c + 1 else s1)"
  have "smallest_child le n c v = Some s2"
    using L R [of c] R [of "2 * c"] assms
    by (auto simp: smallest_child_def heap_index_defs Let_def vec_ref_list s1_def s2_def)
  moreover have s1: "lt_eq (?xs ! s1) (?xs ! c)" "2 * c \<le> n \<Longrightarrow> lt_eq (?xs ! s1) (?xs ! (2 * c))"
    using lt_eq_total lt_eq_refl by (auto simp: s1_def)
  moreover have s2: "lt_eq (?xs ! s2) (?xs ! s1)" "2 * c + 1 \<le> n \<Longrightarrow> lt_eq (?xs ! s2) (?xs ! (2 * c + 1))"
    using lt_eq_total lt_eq_refl by (auto simp: s2_def)
  ultimately show ?thesis
    using kids by (blast intro: lt_eq_trans)
qed

lemma down_inv_step:
  assumes inv: "down_inv n c xs" and c: "1 \<le> c" "s = 2 * c \<or> s = 2 * c + 1" "s \<le> n" "n < length xs"
    and small: "\<And>j. 2 \<le> j \<Longrightarrow> j \<le> n \<Longrightarrow> j div 2 = c \<Longrightarrow> lt_eq (xs ! s) (xs ! j)"
    and sc: "lt_eq (xs ! s) (xs ! c)"
  shows "down_inv n s (xs[c := xs ! s, s := xs ! c])"
proof -
  let ?zs = "xs[c := xs ! s, s := xs ! c]"
  have z: "?zs ! j = (if j = s then xs ! c else if j = c then xs ! s else xs ! j)" for j
    using c by (auto simp: nth_list_update)
  have half: "s div 2 = c" using c by auto
  have A: "lt_eq (xs ! (j div 2)) (xs ! j)" if "2 \<le> j" "j \<le> n" "j div 2 \<noteq> c" for j
    using inv that by (simp add: down_inv_def)
  have C: "lt_eq (?zs ! (j div 2)) (?zs ! j)" if j: "2 \<le> j" "j \<le> n" "j div 2 \<noteq> s" for j
  proof (cases "j = s")
    case True
    then show ?thesis using sc half c by (auto simp: z lt_eq_refl)
  next
    case False
    show ?thesis
    proof (cases "j div 2 = c")
      case True
      then show ?thesis using small [OF j(1,2) True] False j c by (auto simp: z)
    next
      case jc: False
      have up: "lt_eq (xs ! (c div 2)) (xs ! s)" if "j = c"
        using inv c half that j unfolding down_inv_def by auto
      show ?thesis using up A [OF j(1,2) jc] False jc j by (auto simp: z)
    qed
  qed
  have D: "lt_eq (?zs ! (s div 2)) (?zs ! j)" if j: "2 \<le> j" "j \<le> n" "j div 2 = s" "1 < s" for j
    using A [of j] j half c by (auto simp: z)
  show ?thesis unfolding down_inv_def using C D by blast
qed

lemma heapify_ok:
  assumes "vec_ok v" "1 \<le> c" "c \<le> n \<or> n = 0" "n < m_size v"
    and "comparable (mset (seg n (vec_list v)))" and "down_inv n c (vec_list v)"
  shows "\<exists>v'. heapify le n c v = Some v' \<and> vec_ok v' \<and> m_size v' = m_size v \<and>
           ordered n (vec_list v') \<and> mset (seg n (vec_list v')) = mset (seg n (vec_list v))"
  using assms
proof (induction "n + 1 - c" arbitrary: c v rule: less_induct)
  case less
  let ?xs = "vec_list v"
  have len: "n < length ?xs" using less.prems by (simp add: length_vec_list)
  from smallest_child_ok [OF less.prems(1,2,4,3,5)] obtain s where s:
    "smallest_child le n c v = Some s"
    "\<And>j. 2 \<le> j \<Longrightarrow> j \<le> n \<Longrightarrow> j div 2 = c \<Longrightarrow> lt_eq (?xs ! s) (?xs ! j)"
    "lt_eq (?xs ! s) (?xs ! c)" by blast
  show ?case
  proof (cases "s = c")
    case True
    have "ordered n ?xs"
      using less.prems(6) s(2) True unfolding ordered_def down_inv_def by metis
    then show ?thesis using True s less.prems by (simp add: heapify.simps [of le n c])
  next
    case False
    with smallest_child_cases [OF s(1)]
    have sp: "s = 2 * c \<or> s = 2 * c + 1" "s \<le> n" by (auto simp: heap_index_defs)
    let ?v = "(v\<lparr>m_vec := (m_vec v)[c := ?xs ! s]\<rparr>)\<lparr>m_vec := ((m_vec v)[c := ?xs ! s])[s := ?xs ! c]\<rparr>"
    have vl: "vec_ok ?v" "m_size ?v = m_size v" "vec_list ?v = ?xs[c := ?xs ! s, s := ?xs ! c]"
      using less.prems by (simp_all add: vec_ok_def vec_list_def take_update_swap)
    have ms: "mset (seg n (vec_list ?v)) = mset (seg n ?xs)"
      unfolding vl using less.prems sp len by (intro seg_swap) auto
    have inv: "down_inv n s (vec_list ?v)"
      unfolding vl using down_inv_step [OF less.prems(6,2) sp len s(2,3)] by blast
    have st: "heapify le n c v = heapify le n s ?v"
      using False s(1) less.prems sp
      by (auto simp: heapify.simps [of le n c] vec_ref_list vec_set_Some)
    have "n + 1 - s < n + 1 - c" "1 \<le> s" using sp less.prems by auto
    from less.hyps [OF this(1) vl(1) this(2) _ _ _ inv] sp less.prems ms vl
    show ?thesis unfolding st by simp
  qed
qed

lemma extractMin_ok:
  assumes ok: "heap_ok h" and ne: "0 < heap_size h"
  shows "\<exists>x h'. extractMin le h = Some (x, h') \<and> heap_ok h' \<and> peekMin h = Some x \<and>
           x \<in># heap_mset h \<and> (\<forall>y \<in># heap_mset h. lt_eq x y) \<and>
           heap_mset h' = heap_mset h - {#x#} \<and> heap_size h' + 1 = heap_size h"
proof -
  let ?m = "m_current_size h" and ?xs = "vec_list (m_heap h)"
  let ?n = "m_current_size h - 1"
  let ?v1 = "(m_heap h)\<lparr>m_vec := (m_vec (m_heap h))[1 := ?xs ! ?m]\<rparr>"
  from ok ne have wf: "vec_ok (m_heap h)" "?m < m_size (m_heap h)" "1 \<le> ?m" "?m < length ?xs"
    and cmp: "comparable (mset (seg ?m ?xs))" and ord: "ordered ?m ?xs"
    by (auto simp: heap_ok_def heap_wf_def heap_size_def heap_mset_def seg_def length_vec_list)
  have v1: "vec_ok ?v1" "m_size ?v1 = m_size (m_heap h)" "vec_list ?v1 = ?xs[1 := ?xs ! ?m]"
    using wf by (simp_all add: vec_simps)
  have "seg ?m ?xs = seg ?n ?xs @ [?xs ! ?m]"
    using wf take_Suc_conv_app_nth [of ?n "drop 1 ?xs"] by (simp add: seg_def)
  then have ms0: "mset (seg ?m ?xs) = add_mset (?xs ! ?m) (mset (seg ?n ?xs))" by simp
  have ms1: "mset (seg ?n (vec_list ?v1)) = mset (seg ?m ?xs) - {#?xs ! 1#}"
  proof (cases "?m = 1")
    case True
    then show ?thesis using ms0 by (simp add: seg_def)
  next
    case False
    then have n: "0 < ?n" "?n < length ?xs" using wf by auto
    then have "seg ?n ?xs ! 0 = ?xs ! 1" "0 < length (seg ?n ?xs)"
      using nth_seg [of 0 ?xs ?n] by (auto simp: length_seg)
    then have "mset (seg ?n (?xs[1 := ?xs ! ?m])) = add_mset (?xs ! ?m) (mset (seg ?n ?xs) - {#?xs ! 1#})"
      by (simp add: seg_update mset_update)
    moreover have "?xs ! 1 \<in># mset (seg ?n ?xs)"
      using seg_elem [of 1 ?n ?xs] n by simp
    ultimately show ?thesis using v1 ms0 by (auto simp: multiset_eq_iff)
  qed
  have cmp1: "comparable (mset (seg ?n (vec_list ?v1)))"
    unfolding ms1 using cmp by (rule comparable_mono) simp
  have inv: "down_inv ?n 1 (vec_list ?v1)"
    unfolding v1 using ord by (auto simp: down_inv_def ordered_def nth_list_update)
  have n: "(1::nat) \<le> 1" "1 \<le> ?n \<or> ?n = 0" "?n < m_size ?v1" using wf by auto
  from heapify_ok [OF v1(1) n cmp1 inv] obtain v2 where v2:
    "heapify le ?n 1 ?v1 = Some v2" "vec_ok v2" "m_size v2 = m_size (m_heap h)"
    "ordered ?n (vec_list v2)" "mset (seg ?n (vec_list v2)) = mset (seg ?n (vec_list ?v1))"
    unfolding v1(2) by blast
  let ?h = "\<lparr>m_heap = v2, m_current_size = ?n\<rparr>"
  have "extractMin le h = Some (?xs ! 1, ?h)" "peekMin h = Some (?xs ! 1)"
    using wf v2 ne by (simp_all add: extractMin_def peekMin_def vec_ref_list vec_set_Some check_bind)
  moreover have mh: "heap_mset ?h = heap_mset h - {#?xs ! 1#}"
    using v2(5) ms1 by (simp add: heap_mset_def seg_def)
  moreover have "?xs ! 1 \<in># heap_mset h"
    using seg_elem [of 1 ?m ?xs] wf by (simp add: heap_mset_def seg_def)
  moreover have "\<forall>y \<in># heap_mset h. lt_eq (?xs ! 1) y"
    using ordered_root [OF ord] wf by (auto simp: heap_mset_def elim!: seg_elemE)
  moreover have "heap_ok ?h"
    using v2 wf cmp1 mh ms1 by (auto simp: heap_ok_def heap_wf_def heap_mset_def)
  ultimately show ?thesis using wf by (auto simp: heap_size_def)
qed

lemma heap_ok_init: "heap_ok heap_init"
  by (simp add: heap_ok_def heap_wf_def heap_init_def vec_ok_def vec_empty_def heap_mset_def seg_def
      comparable_def ordered_def vec_list_def)

lemma heap_mset_init: "heap_mset heap_init = {#}"
  by (simp add: heap_mset_def heap_init_def seg_def)

lemma size_heap_mset: "heap_ok h \<Longrightarrow> size (heap_mset h) = heap_size h"
  by (auto simp: heap_ok_def heap_wf_def heap_mset_def seg_def heap_size_def length_vec_list min_def)

lemma heap_mset_empty_iff: "heap_ok h \<Longrightarrow> heap_mset h = {#} \<longleftrightarrow> heap_size h = 0"
  using size_heap_mset by (metis size_eq_0_iff_empty)

end

end
