(* ===== verification/Event_Queue.thy ===== *)
theory Event_Queue
  imports Prio_Heap
begin

text \<open>
  The discrete-event engine of the memory-system simulator:
  \<^verbatim>\<open>ruby_clean/eventqueue/EventQueue.C\<close>, \<^verbatim>\<open>EventQueueNode.h\<close> and the wakeup
  bookkeeping of \<^verbatim>\<open>ruby_clean/common/Consumer.h\<close>. A consumer is named by a number, the
  null pointer is \<open>None\<close>. The virtual method \<^verbatim>\<open>wakeup()\<close> of a consumer is the parameter
  \<open>wk\<close>: from the consumer, the current time and the state of the rest of the system it gives
  the new state and the wakeups it schedules, in order. The loop of
  \<^verbatim>\<open>triggerEvents\<close> returns, beside the state, the events it handled (what the code's
  \<^verbatim>\<open>DEBUG_EXPR\<close> lines print).
\<close>

record eq_node =
  eq_time :: time
  eq_consumer :: "nat option"

definition eq_node_default :: eq_node where
  "eq_node_default = \<lparr>eq_time = 0, eq_consumer = None\<rparr>"

definition eq_node_less_then_eq :: "eq_node \<Rightarrow> eq_node \<Rightarrow> bool option" where
  "eq_node_less_then_eq n1 n2 = Some (eq_time n1 \<le> eq_time n2)"

record event_queue =
  m_prio_heap :: "eq_node prio_heap"
  m_globalTime :: time
  m_timeOfLastRecovery :: time
  m_last_scheduled_wakeup :: "nat \<Rightarrow> time"
  m_last_wakeup :: "nat \<Rightarrow> time"

definition event_queue_init :: event_queue where
  "event_queue_init =
     \<lparr>m_prio_heap = heap_init, m_globalTime = 1, m_timeOfLastRecovery = 1,
      m_last_scheduled_wakeup = (\<lambda>_. 0), m_last_wakeup = (\<lambda>_. 0)\<rparr>"

definition eq_isEmpty :: "event_queue \<Rightarrow> bool" where
  "eq_isEmpty q \<longleftrightarrow> heap_size (m_prio_heap q) = 0"

definition scheduleEventAbsolute :: "nat option \<Rightarrow> time \<Rightarrow> event_queue \<Rightarrow> event_queue option" where
  "scheduleEventAbsolute consumer timeAbs q =
     (case consumer of
        None \<Rightarrow> None
      | Some c \<Rightarrow>
          if m_last_scheduled_wakeup q c \<noteq> timeAbs then do {
            check (m_globalTime q < timeAbs);
            h \<leftarrow> heap_insert eq_node_default eq_node_less_then_eq
                  \<lparr>eq_time = timeAbs, eq_consumer = consumer\<rparr> (m_prio_heap q);
            Some (q\<lparr>m_prio_heap := h,
                    m_last_scheduled_wakeup := (m_last_scheduled_wakeup q)(c := timeAbs)\<rparr>) }
          else Some q)"

definition scheduleEvent :: "nat option \<Rightarrow> time \<Rightarrow> event_queue \<Rightarrow> event_queue option" where
  "scheduleEvent consumer timeDelta q = scheduleEventAbsolute consumer (timeDelta + m_globalTime q) q"

fun schedule_all :: "(nat option \<times> time) list \<Rightarrow> event_queue \<Rightarrow> event_queue option" where
  "schedule_all [] q = Some q"
| "schedule_all ((c, t) # rs) q = do { q' \<leftarrow> scheduleEventAbsolute c t q; schedule_all rs q' }"

type_synonym 'w wakeup_fun = "nat \<Rightarrow> time \<Rightarrow> 'w \<Rightarrow> 'w \<times> (nat option \<times> time) list"

definition triggerWakeup ::
  "'w wakeup_fun \<Rightarrow> nat \<Rightarrow> event_queue \<times> 'w \<Rightarrow> (event_queue \<times> 'w) option" where
  "triggerWakeup wk c = (\<lambda>(q, w).
     let time = m_globalTime q in
     if m_last_wakeup q c \<noteq> time then
       (let (w', reqs) = wk c time w in do {
          q' \<leftarrow> schedule_all reqs q;
          Some (q'\<lparr>m_last_wakeup := (m_last_wakeup q')(c := time)\<rparr>, w') })
     else Some (q, w))"

definition trigger_step ::
  "'w wakeup_fun \<Rightarrow> event_queue \<times> 'w \<Rightarrow> (eq_node \<times> event_queue \<times> 'w) option" where
  "trigger_step wk = (\<lambda>(q, w). do {
     top \<leftarrow> peekMin (m_prio_heap q);
     (thisNode, h) \<leftarrow> extractMin eq_node_less_then_eq (m_prio_heap q);
     (case eq_consumer thisNode of
        None \<Rightarrow> None
      | Some c \<Rightarrow> do {
          (q', w') \<leftarrow> triggerWakeup wk c (q\<lparr>m_globalTime := eq_time top, m_prio_heap := h\<rparr>, w);
          Some (thisNode, q', w') }) })"

definition due :: "time \<Rightarrow> event_queue \<Rightarrow> bool" where
  "due t q \<longleftrightarrow> heap_size (m_prio_heap q) > 0 \<and>
     (case peekMin (m_prio_heap q) of Some n \<Rightarrow> eq_time n \<le> t | None \<Rightarrow> False)"

partial_function (option) trigger_loop ::
  "'w wakeup_fun \<Rightarrow> time \<Rightarrow> event_queue \<times> 'w \<Rightarrow> eq_node list \<Rightarrow> (eq_node list \<times> event_queue \<times> 'w) option"
where
  "trigger_loop wk t s tr =
     (if due t (fst s)
      then Option.bind (trigger_step wk s) (\<lambda>(n, q', w'). trigger_loop wk t (q', w') (tr @ [n]))
      else Some (tr, fst s, snd s))"

definition triggerEvents ::
  "'w wakeup_fun \<Rightarrow> time \<Rightarrow> event_queue \<Rightarrow> 'w \<Rightarrow> (eq_node list \<times> event_queue \<times> 'w) option" where
  "triggerEvents wk t q w = do {
     (tr, q', w') \<leftarrow> trigger_loop wk t (q, w) [];
     Some (tr, q'\<lparr>m_globalTime := t\<rparr>, w') }"

partial_function (option) triggerAllEvents ::
  "'w wakeup_fun \<Rightarrow> event_queue \<times> 'w \<Rightarrow> (event_queue \<times> 'w) option"
where
  "triggerAllEvents wk s =
     (if heap_size (m_prio_heap (fst s)) > 0
      then Option.bind (trigger_step wk s) (\<lambda>(n, q', w'). triggerAllEvents wk (q', w'))
      else Some s)"

subsection \<open>The heap of events\<close>

definition eq_le :: "eq_node \<Rightarrow> eq_node \<Rightarrow> bool" where
  "eq_le a b \<longleftrightarrow> eq_time a \<le> eq_time b"

interpretation eqo: node_order eq_node_less_then_eq eq_le
  by unfold_locales (auto simp: eq_node_less_then_eq_def eq_le_def)

lemma eq_comparable [simp]: "eqo.comparable M"
  by (simp add: eqo.comparable_def eq_node_less_then_eq_def)

definition events :: "event_queue \<Rightarrow> eq_node multiset" where
  "events q = heap_mset (m_prio_heap q)"

definition eq_inv :: "event_queue \<Rightarrow> bool" where
  "eq_inv q \<longleftrightarrow> eqo.heap_ok (m_prio_heap q) \<and>
     (\<forall>n \<in># events q. m_globalTime q \<le> eq_time n \<and> eq_consumer n \<noteq> None) \<and>
     (\<forall>c. m_globalTime q < m_last_scheduled_wakeup q c \<longrightarrow>
        \<lparr>eq_time = m_last_scheduled_wakeup q c, eq_consumer = Some c\<rparr> \<in># events q)"

lemma eq_inv_init: "eq_inv event_queue_init"
  by (simp add: eq_inv_def event_queue_init_def eqo.heap_ok_init events_def eqo.heap_mset_init)

lemma scheduleEventAbsolute_ok:
  assumes "eq_inv q" and "m_globalTime q < t"
  shows "\<exists>q'. scheduleEventAbsolute (Some c) t q = Some q' \<and> eq_inv q' \<and>
           m_globalTime q' = m_globalTime q \<and>
           events q' = (if m_last_scheduled_wakeup q c = t then events q
                        else add_mset \<lparr>eq_time = t, eq_consumer = Some c\<rparr> (events q)) \<and>
           m_last_scheduled_wakeup q' c = t \<and> m_last_wakeup q' = m_last_wakeup q \<and>
           \<lparr>eq_time = t, eq_consumer = Some c\<rparr> \<in># events q'"
proof (cases "m_last_scheduled_wakeup q c = t")
  case True
  then show ?thesis using assms by (auto simp: scheduleEventAbsolute_def eq_inv_def)
next
  case False
  from assms(1) have "eqo.heap_ok (m_prio_heap q)" by (simp add: eq_inv_def)
  from eqo.heap_insert_ok [OF this, of "\<lparr>eq_time = t, eq_consumer = Some c\<rparr>" eq_node_default]
  obtain h where "heap_insert eq_node_default eq_node_less_then_eq
      \<lparr>eq_time = t, eq_consumer = Some c\<rparr> (m_prio_heap q) = Some h" "eqo.heap_ok h"
    "heap_mset h = add_mset \<lparr>eq_time = t, eq_consumer = Some c\<rparr> (heap_mset (m_prio_heap q))" by auto
  with False assms show ?thesis
    by (auto simp: scheduleEventAbsolute_def eq_inv_def events_def check_bind)
qed

lemma schedule_all_ok:
  assumes "eq_inv q" and "\<forall>(c, t) \<in> set rs. c \<noteq> None \<and> m_globalTime q < t"
  shows "\<exists>q' N. schedule_all rs q = Some q' \<and> eq_inv q' \<and> m_globalTime q' = m_globalTime q \<and>
           events q' = events q + N \<and> (\<forall>n \<in># N. m_globalTime q < eq_time n)"
  using assms
proof (induction rs arbitrary: q)
  case Nil
  then show ?case by (intro exI [of _ q] exI [of _ "{#}"]) simp
next
  case (Cons r rs)
  obtain c t where r: "r = (Some c, t)" "m_globalTime q < t" using Cons.prems by (cases r) auto
  from scheduleEventAbsolute_ok [OF Cons.prems(1) r(2), of c] obtain q1 N1 where q1:
    "scheduleEventAbsolute (Some c) t q = Some q1" "eq_inv q1" "m_globalTime q1 = m_globalTime q"
    "events q1 = events q + N1" "\<forall>n \<in># N1. m_globalTime q < eq_time n"
    using r(2) by (cases "m_last_scheduled_wakeup q c = t") auto
  from Cons.IH [OF q1(2)] Cons.prems(2) q1(3) obtain q2 N2 where q2:
    "schedule_all rs q1 = Some q2" "eq_inv q2" "m_globalTime q2 = m_globalTime q1"
    "events q2 = events q1 + N2" "\<forall>n \<in># N2. m_globalTime q1 < eq_time n" by auto
  show ?case
    using q1 q2 r by (intro exI [of _ q2] exI [of _ "N1 + N2"]) auto
qed

text \<open>What the consumers must respect: a wakeup only asks for later wakeups, of real consumers.
  The code asserts both (\<^verbatim>\<open>ASSERT(consumer != NULL)\<close>, \<^verbatim>\<open>assert(timeAbs > m_globalTime)\<close>).\<close>

definition causal :: "'w wakeup_fun \<Rightarrow> bool" where
  "causal wk \<longleftrightarrow> (\<forall>c \<tau> w. \<forall>(c', t') \<in> set (snd (wk c \<tau> w)). c' \<noteq> None \<and> \<tau> < t')"

lemma causalD: "causal wk \<Longrightarrow> wk c \<tau> w = (w', rs) \<Longrightarrow> \<forall>(c', t') \<in> set rs. c' \<noteq> None \<and> \<tau> < t'"
  unfolding causal_def by (metis snd_conv)

lemma trigger_step_ok:
  assumes inv: "eq_inv q" and wk: "causal wk" and ne: "heap_size (m_prio_heap q) > 0"
  shows "\<exists>n q' w' N. trigger_step wk (q, w) = Some (n, q', w') \<and> eq_inv q' \<and>
     n \<in># events q \<and> (\<forall>m \<in># events q. eq_time n \<le> eq_time m) \<and>
     peekMin (m_prio_heap q) = Some n \<and> m_globalTime q' = eq_time n \<and>
     events q' = events q - {#n#} + N \<and> (\<forall>m \<in># N. eq_time n < eq_time m)"
proof -
  from inv have ok: "eqo.heap_ok (m_prio_heap q)" by (simp add: eq_inv_def)
  from eqo.extractMin_ok [OF ok ne] obtain n h where x:
    "extractMin eq_node_less_then_eq (m_prio_heap q) = Some (n, h)" "eqo.heap_ok h"
    "peekMin (m_prio_heap q) = Some n" "n \<in># heap_mset (m_prio_heap q)"
    "\<forall>m \<in># heap_mset (m_prio_heap q). eq_time n \<le> eq_time m"
    "heap_mset h = heap_mset (m_prio_heap q) - {#n#}" by (auto simp: eq_le_def)
  let ?q = "q\<lparr>m_globalTime := eq_time n, m_prio_heap := h\<rparr>"
  have inv1: "eq_inv ?q"
    unfolding eq_inv_def
  proof (intro conjI allI impI ballI)
    fix c assume "m_globalTime ?q < m_last_scheduled_wakeup ?q c"
    moreover have "m_globalTime q \<le> eq_time n" using inv x by (auto simp: eq_inv_def events_def)
    ultimately have "\<lparr>eq_time = m_last_scheduled_wakeup q c, eq_consumer = Some c\<rparr> \<in># events q"
      "\<lparr>eq_time = m_last_scheduled_wakeup q c, eq_consumer = Some c\<rparr> \<noteq> n"
      using inv by (auto simp: eq_inv_def)
    then show "\<lparr>eq_time = m_last_scheduled_wakeup ?q c, eq_consumer = Some c\<rparr> \<in># events ?q"
      using x by (simp add: events_def in_remove_neq)
  qed (use x inv in \<open>auto simp: eq_inv_def events_def dest: in_diffD\<close>)
  obtain c where c: "eq_consumer n = Some c" using inv x by (auto simp: eq_inv_def events_def)
  have "\<exists>q' w' N. triggerWakeup wk c (?q, w) = Some (q', w') \<and> eq_inv q' \<and>
      m_globalTime q' = eq_time n \<and> events q' = events ?q + N \<and> (\<forall>m \<in># N. eq_time n < eq_time m)"
  proof (cases "m_last_wakeup ?q c = eq_time n")
    case True
    then show ?thesis using inv1
      by (intro exI [of _ ?q] exI [of _ w] exI [of _ "{#}"]) (simp add: triggerWakeup_def)
  next
    case False
    obtain w' rs where wr: "wk c (eq_time n) w = (w', rs)" by (cases "wk c (eq_time n) w")
    have "\<forall>(c, t) \<in> set rs. c \<noteq> None \<and> m_globalTime ?q < t" using causalD [OF wk wr] by auto
    from schedule_all_ok [OF inv1 this] obtain q2 N where
      "schedule_all rs ?q = Some q2" "eq_inv q2" "m_globalTime q2 = eq_time n"
      "events q2 = events ?q + N" "\<forall>m \<in># N. eq_time n < eq_time m" by auto
    then show ?thesis using False wr
      by (intro exI [of _ "q2\<lparr>m_last_wakeup := (m_last_wakeup q2)(c := eq_time n)\<rparr>"]
          exI [of _ w'] exI [of _ N]) (auto simp: triggerWakeup_def eq_inv_def events_def)
  qed
  then obtain q' w' N where "triggerWakeup wk c (?q, w) = Some (q', w')" "eq_inv q'"
    "m_globalTime q' = eq_time n" "events q' = events ?q + N" "\<forall>m \<in># N. eq_time n < eq_time m"
    by blast
  moreover have "events ?q = events q - {#n#}" using x by (simp add: events_def)
  ultimately show ?thesis using x c
    by (intro exI [of _ n] exI [of _ q'] exI [of _ w'] exI [of _ N])
      (simp add: trigger_step_def events_def)
qed

subsection \<open>Triggering terminates and is in timestamp order\<close>

definition pending :: "time \<Rightarrow> event_queue \<Rightarrow> nat multiset" where
  "pending t q = image_mset (\<lambda>n. nat (t + 1 - eq_time n)) (events q)"

lemma pending_decreases:
  assumes "n \<in># events q" "events q' = events q - {#n#} + N" "\<forall>m \<in># N. eq_time n < eq_time m"
    "eq_time n \<le> t"
  shows "(pending t q', pending t q) \<in> mult less_than"
proof -
  let ?f = "\<lambda>n. nat (t + 1 - eq_time n)"
  obtain R where R: "events q = add_mset n R" using assms(1) by (metis insert_DiffM)
  have "(image_mset ?f R + image_mset ?f N, image_mset ?f R + {#?f n#}) \<in> mult less_than"
    by (rule one_step_implies_mult) (use assms(3,4) in auto)
  moreover have "pending t q = image_mset ?f R + {#?f n#}"
    "pending t q' = image_mset ?f R + image_mset ?f N"
    using R assms(2) by (simp_all add: pending_def)
  ultimately show ?thesis by simp
qed

lemma due_iff:
  assumes "eq_inv q"
  shows "due t q \<longleftrightarrow> (\<exists>n \<in># events q. eq_time n \<le> t)"
proof (cases "heap_size (m_prio_heap q) = 0")
  case True
  then show ?thesis using assms eqo.heap_mset_empty_iff [of "m_prio_heap q"]
    by (simp add: due_def eq_inv_def events_def)
next
  case False
  with eqo.extractMin_ok [of "m_prio_heap q"] assms obtain n where
    "peekMin (m_prio_heap q) = Some n" "n \<in># events q" "\<forall>m \<in># events q. eq_time n \<le> eq_time m"
    by (auto simp: eq_inv_def events_def eq_le_def)
  with False show ?thesis by (auto simp: due_def dest: bspec)
qed

text \<open>What a run of the loop from \<open>q\<close> with the trace \<open>tr\<close> so far guarantees of its result.\<close>

definition run_post :: "time \<Rightarrow> event_queue \<Rightarrow> eq_node list \<Rightarrow> eq_node list \<Rightarrow> event_queue \<Rightarrow> bool" where
  "run_post t q tr tr' q' \<longleftrightarrow> eq_inv q' \<and> m_globalTime q' \<le> t \<and> (\<forall>n \<in># events q'. t < eq_time n) \<and>
     sorted (map eq_time tr') \<and> (\<forall>n \<in> set tr'. eq_time n \<le> t) \<and>
     (\<forall>n \<in># events q. eq_time n \<le> t \<longrightarrow> n \<in> set tr') \<and> set tr \<subseteq> set tr'"

lemma trigger_loop_ok:
  assumes wk: "causal wk" and inv: "eq_inv q" "m_globalTime q \<le> t"
    and tr: "sorted (map eq_time tr)" "\<forall>n \<in> set tr. eq_time n \<le> t"
      "\<forall>n \<in> set tr. \<forall>m \<in># events q. eq_time n \<le> eq_time m"
  shows "\<exists>tr' q' w'. trigger_loop wk t (q, w) tr = Some (tr', q', w') \<and> run_post t q tr tr' q'"
  using inv tr
proof (induction "pending t q" arbitrary: q w tr rule: wf_induct_rule [OF wf_mult [OF wf_less_than]])
  case 1
  show ?case
  proof (cases "due t q")
    case False
    then have "trigger_loop wk t (q, w) tr = Some (tr, q, w)" by (simp add: trigger_loop.simps)
    moreover have "run_post t q tr tr q"
      using False 1 due_iff [of q t] by (auto simp: run_post_def not_le)
    ultimately show ?thesis by blast
  next
    case True
    then have ne: "heap_size (m_prio_heap q) > 0" by (simp add: due_def)
    from trigger_step_ok [OF "1.prems"(1) wk ne, of w] obtain n q1 w1 N where s:
      "trigger_step wk (q, w) = Some (n, q1, w1)" "eq_inv q1" "n \<in># events q"
      "\<forall>m \<in># events q. eq_time n \<le> eq_time m" "peekMin (m_prio_heap q) = Some n"
      "events q1 = events q - {#n#} + N" "\<forall>m \<in># N. eq_time n < eq_time m"
      "m_globalTime q1 = eq_time n" by blast
    have nt: "eq_time n \<le> t" using True s(5) by (simp add: due_def)
    have st: "trigger_loop wk t (q, w) tr = trigger_loop wk t (q1, w1) (tr @ [n])"
      using True s(1) by (simp add: trigger_loop.simps [of wk t "(q, w)"])
    have sub: "\<forall>m \<in># events q1. eq_time n \<le> eq_time m"
    proof
      fix m assume "m \<in># events q1"
      then have "m \<in># events q - {#n#} \<or> m \<in># N" unfolding s(6) by simp
      then show "eq_time n \<le> eq_time m" using s(4,7) by (auto dest: in_diffD intro: less_imp_le)
    qed
    have "\<forall>k \<in> set tr. eq_time k \<le> eq_time n" using "1.prems" s(3) by blast
    then have "sorted (map eq_time (tr @ [n]))" "\<forall>m \<in> set (tr @ [n]). eq_time m \<le> t"
      "\<forall>k \<in> set (tr @ [n]). \<forall>m \<in># events q1. eq_time k \<le> eq_time m"
      using "1.prems" nt sub by (auto simp: sorted_append intro: order_trans)
    from "1.hyps" [OF pending_decreases [OF s(3,6,7) nt] s(2) _ this, of w1] nt s(8)
    obtain tr' q' w' where r: "trigger_loop wk t (q1, w1) (tr @ [n]) = Some (tr', q', w')"
      "run_post t q1 (tr @ [n]) tr' q'" by auto
    have "run_post t q tr tr' q'"
    proof -
      have "m \<in> set tr'" if "m \<in># events q" "eq_time m \<le> t" for m
        using that r(2) s(6) 
        by (cases "m = n") (auto simp: run_post_def in_remove_neq)
      then show ?thesis using r(2) by (auto simp: run_post_def)
    qed
    then show ?thesis using r(1) st by auto
  qed
qed

text \<open>C1. Handling all events up to a time: from any consistent event queue, if wakeups only
  schedule later wakeups of existing consumers, \<^verbatim>\<open>triggerEvents(t)\<close> returns without a failed
  assertion, however many wakeups the wakeups schedule; it handles events in timestamp order,
  every event due by \<open>t\<close> that was queued is among them, nothing due by \<open>t\<close> is left behind and the
  clock stands at \<open>t\<close>.\<close>

theorem triggerEvents_total_in_order:
  assumes "eq_inv q" and "causal wk" and "m_globalTime q \<le> t"
  shows "\<exists>tr q' w'. triggerEvents wk t q w = Some (tr, q', w') \<and> eq_inv q' \<and> m_globalTime q' = t \<and>
           (\<forall>n \<in># events q'. t < eq_time n) \<and>
           sorted (map eq_time tr) \<and> (\<forall>n \<in> set tr. eq_time n \<le> t) \<and>
           (\<forall>n \<in># events q. eq_time n \<le> t \<longrightarrow> n \<in> set tr)"
proof -
  from trigger_loop_ok [OF assms(2,1,3), of "[]" w] obtain tr q' w' where
    "trigger_loop wk t (q, w) [] = Some (tr, q', w')" "run_post t q [] tr q'" by auto
  then show ?thesis
    by (intro exI [of _ tr] exI [of _ "q'\<lparr>m_globalTime := t\<rparr>"] exI [of _ w'])
      (auto simp: triggerEvents_def run_post_def eq_inv_def events_def intro: less_imp_le)
qed

theorem triggerEvents_total_in_order_witness:
  "\<exists>q. scheduleEventAbsolute (Some 3) 5 event_queue_init = Some q \<and> eq_inv q \<and>
     causal (\<lambda>c \<tau> (w::nat). (w + 1, [(Some c, \<tau> + 2)])) \<and>
     (\<exists>tr q' w'. triggerEvents (\<lambda>c \<tau> (w::nat). (w + 1, [(Some c, \<tau> + 2)])) 20 q 0 = Some (tr, q', w') \<and>
        m_globalTime q' = 20 \<and> \<lparr>eq_time = 5, eq_consumer = Some 3\<rparr> \<in> set tr)"
proof -
  have "m_globalTime event_queue_init < 5" by (simp add: event_queue_init_def)
  from scheduleEventAbsolute_ok [OF eq_inv_init this, of 3] obtain q where q:
    "scheduleEventAbsolute (Some 3) 5 event_queue_init = Some q" "eq_inv q"
    "\<lparr>eq_time = 5, eq_consumer = Some 3\<rparr> \<in># events q" "m_globalTime q = 1"
    by (auto simp: event_queue_init_def)
  have c: "causal (\<lambda>c \<tau> (w::nat). (w + 1, [(Some c, \<tau> + 2)]))" by (simp add: causal_def)
  from triggerEvents_total_in_order [OF q(2) c, of 20 0] q c show ?thesis by fastforce
qed

text \<open>Scheduling a wakeup: a request for a later time puts exactly one event into the queue,
  or none when the consumer's most recently scheduled wakeup is for that same time; a request that
  is not in the future fails the assertion unless it repeats that wakeup, and a null consumer
  always does.\<close>

lemma scheduleEventAbsolute_behaviour:
  assumes "eq_inv q"
  shows "(m_last_scheduled_wakeup q c = t \<longrightarrow> scheduleEventAbsolute (Some c) t q = Some q) \<and>
     (m_last_scheduled_wakeup q c \<noteq> t \<and> m_globalTime q < t \<longrightarrow>
        (\<exists>q'. scheduleEventAbsolute (Some c) t q = Some q' \<and> eq_inv q' \<and>
           events q' = add_mset \<lparr>eq_time = t, eq_consumer = Some c\<rparr> (events q) \<and>
           m_last_scheduled_wakeup q' = (m_last_scheduled_wakeup q)(c := t))) \<and>
     (m_last_scheduled_wakeup q c \<noteq> t \<and> t \<le> m_globalTime q \<longrightarrow>
        scheduleEventAbsolute (Some c) t q = None) \<and>
     scheduleEventAbsolute None t q = None"
proof (intro conjI impI; (elim conjE)?)
  assume d: "m_last_scheduled_wakeup q c \<noteq> t" and "m_globalTime q < t"
  from scheduleEventAbsolute_ok [OF assms this(2), of c] d obtain q' where
    "scheduleEventAbsolute (Some c) t q = Some q'" "eq_inv q'"
    "events q' = add_mset \<lparr>eq_time = t, eq_consumer = Some c\<rparr> (events q)" by auto
  moreover from this(1) have "m_last_scheduled_wakeup q' = (m_last_scheduled_wakeup q)(c := t)"
    using d by (auto simp: scheduleEventAbsolute_def bind_Some_iff)
  ultimately show "\<exists>q'. scheduleEventAbsolute (Some c) t q = Some q' \<and> eq_inv q' \<and>
      events q' = add_mset \<lparr>eq_time = t, eq_consumer = Some c\<rparr> (events q) \<and>
      m_last_scheduled_wakeup q' = (m_last_scheduled_wakeup q)(c := t)" by blast
qed (auto simp: scheduleEventAbsolute_def check_bind)

end
