(* ===== verification/Message_Buffer.thy ===== *)
theory Message_Buffer
  imports Event_Queue
begin

text \<open>
  The timed message queues that connect all controllers of the memory system:
  \<^verbatim>\<open>ruby_clean/buffers/MessageBuffer.C\<close>, \<^verbatim>\<open>MessageBuffer.h\<close>,
  \<^verbatim>\<open>MessageBufferNode.h\<close> and the time stamps of \<^verbatim>\<open>slicc_interface/Message.h\<close>.
  A reference-counted \<^verbatim>\<open>MsgPtr\<close> is an optional message (\<open>None\<close> for the null
  pointer); the stamps that \<^verbatim>\<open>enqueue\<close> writes through the pointer are part of the message
  held by the buffer. The current time and the consumer's wakeups are those of the event queue,
  which the operations take and return. The configuration constants \<^verbatim>\<open>RANDOMIZATION\<close> and
  \<^verbatim>\<open>RECYCLE_LATENCY\<close> and the values that \<^verbatim>\<open>random()\<close> returns are arguments. The int
  counters are unbounded: signed overflow has no defined result in C++.
\<close>

record 'p message =
  msg_LastEnqueueTime :: time
  msg_DelayedCycles :: int
  msg_payload :: 'p

record 'p mb_node =
  mbn_time :: time
  mbn_msg_counter :: int
  mbn_msgptr :: "'p message"

definition mb_node_less_then_eq :: "'p mb_node \<Rightarrow> 'p mb_node \<Rightarrow> bool option" where
  "mb_node_less_then_eq n1 n2 =
     (if mbn_time n1 = mbn_time n2 then do {
        check (mbn_msg_counter n1 \<noteq> mbn_msg_counter n2);
        Some (mbn_msg_counter n1 \<le> mbn_msg_counter n2) }
      else Some (mbn_time n1 \<le> mbn_time n2))"

record 'p message_buffer =
  mb_consumer_ptr :: "nat option"
  mb_prio_heap :: "'p mb_node prio_heap"
  mb_max_size :: int
  mb_size :: int
  mb_time_last_time_size_checked :: time
  mb_size_last_time_size_checked :: int
  mb_time_last_time_enqueue :: time
  mb_time_last_time_pop :: time
  mb_size_at_cycle_start :: int
  mb_msgs_this_cycle :: int
  mb_not_avail_count :: int
  mb_msg_counter :: int
  mb_priority_rank :: int
  mb_strict_fifo :: bool
  mb_ordering_set :: bool
  mb_randomization :: bool
  mb_last_arrival_time :: time

definition message_buffer_new :: "'p message_buffer" where
  "message_buffer_new =
     \<lparr>mb_consumer_ptr = None, mb_prio_heap = heap_init, mb_max_size = -1, mb_size = 0,
      mb_time_last_time_size_checked = 0, mb_size_last_time_size_checked = 0,
      mb_time_last_time_enqueue = 0, mb_time_last_time_pop = 0,
      mb_size_at_cycle_start = 0, mb_msgs_this_cycle = 0, mb_not_avail_count = 0,
      mb_msg_counter = 0, mb_priority_rank = 0, mb_strict_fifo = True, mb_ordering_set = False,
      mb_randomization = True, mb_last_arrival_time = 0\<rparr>"

definition mb_isReady :: "time \<Rightarrow> 'p message_buffer \<Rightarrow> bool" where
  "mb_isReady now b \<longleftrightarrow> heap_size (mb_prio_heap b) > 0 \<and>
     (case peekMin (mb_prio_heap b) of Some n \<Rightarrow> mbn_time n \<le> now | None \<Rightarrow> False)"

definition mb_setConsumer :: "nat option \<Rightarrow> 'p message_buffer \<Rightarrow> 'p message_buffer option" where
  "mb_setConsumer c b = do {
     check (mb_consumer_ptr b = None);
     Some (b\<lparr>mb_consumer_ptr := c\<rparr>) }"

definition mb_setOrdering :: "bool \<Rightarrow> 'p message_buffer \<Rightarrow> 'p message_buffer" where
  "mb_setOrdering order b = b\<lparr>mb_strict_fifo := order, mb_ordering_set := True\<rparr>"

definition mb_setSize :: "int \<Rightarrow> 'p message_buffer \<Rightarrow> 'p message_buffer" where
  "mb_setSize n b = b\<lparr>mb_max_size := n\<rparr>"

definition mb_setRandomization :: "bool \<Rightarrow> 'p message_buffer \<Rightarrow> 'p message_buffer" where
  "mb_setRandomization r b = b\<lparr>mb_randomization := r\<rparr>"

definition mb_setPriority :: "int \<Rightarrow> 'p message_buffer \<Rightarrow> 'p message_buffer" where
  "mb_setPriority r b = b\<lparr>mb_priority_rank := r\<rparr>"

definition mb_isEmpty :: "'p message_buffer \<Rightarrow> bool" where
  "mb_isEmpty b \<longleftrightarrow> heap_size (mb_prio_heap b) = 0"

definition mb_clearStats :: "'p message_buffer \<Rightarrow> 'p message_buffer" where
  "mb_clearStats b = b\<lparr>mb_not_avail_count := 0, mb_msg_counter := 0\<rparr>"

definition mb_getSize :: "time \<Rightarrow> 'p message_buffer \<Rightarrow> int \<times> 'p message_buffer" where
  "mb_getSize now b =
     (if mb_time_last_time_size_checked b = now then (mb_size_last_time_size_checked b, b)
      else (mb_size b, b\<lparr>mb_time_last_time_size_checked := now,
                         mb_size_last_time_size_checked := mb_size b\<rparr>))"

definition mb_areNSlotsAvailable :: "time \<Rightarrow> int \<Rightarrow> 'p message_buffer \<Rightarrow> bool \<times> 'p message_buffer" where
  "mb_areNSlotsAvailable now n b =
     (if mb_max_size b = -1 then (True, b)
      else
        let current_size =
          (if mb_time_last_time_pop b < now then mb_size b
           else if mb_time_last_time_enqueue b < now then mb_size_at_cycle_start b
           else mb_size_at_cycle_start b + mb_msgs_this_cycle b)
        in if current_size + n \<le> mb_max_size b then (True, b)
           else (False, b\<lparr>mb_not_avail_count := mb_not_avail_count b + 1\<rparr>))"

definition mb_peekAtHeadOfQueue :: "time \<Rightarrow> 'p message_buffer \<Rightarrow> 'p message option" where
  "mb_peekAtHeadOfQueue now b = do {
     check (mb_isReady now b);
     n \<leftarrow> peekMin (mb_prio_heap b);
     Some (mbn_msgptr n) }"

definition random_time :: "nat \<Rightarrow> nat \<Rightarrow> nat \<Rightarrow> int" where
  "random_time r1 r2 r3 =
     1 + int (r1 mod 4) + (if r2 mod 8 = 0 then 100 + int (r3 mod 15) else 0)"

definition mb_node_default :: "'p message \<Rightarrow> 'p mb_node" where
  "mb_node_default m = \<lparr>mbn_time = 0, mbn_msg_counter = 0, mbn_msgptr = m\<rparr>"

definition mb_arrival_time :: "bool \<Rightarrow> time \<Rightarrow> time \<Rightarrow> int \<Rightarrow> 'p message_buffer \<Rightarrow> time" where
  "mb_arrival_time RANDOMIZATION now delta rnd b =
     (if \<not> RANDOMIZATION \<or> mb_randomization b = False then now + delta
      else if mb_strict_fifo b
           then (if mb_last_arrival_time b < now then now else mb_last_arrival_time b) + rnd
           else now + rnd)"

definition mb_enqueue ::
  "bool \<Rightarrow> nat \<times> nat \<times> nat \<Rightarrow> 'p message option \<Rightarrow> time \<Rightarrow> event_queue \<times> 'p message_buffer \<Rightarrow>
   (event_queue \<times> 'p message_buffer) option" where
  "mb_enqueue RANDOMIZATION rs message delta = (\<lambda>(q, b). do {
     let now = m_globalTime q;
     let b1 = b\<lparr>mb_msg_counter := mb_msg_counter b + 1, mb_size := mb_size b + 1\<rparr>;
     let b2 = (if mb_time_last_time_enqueue b1 < now
               then b1\<lparr>mb_msgs_this_cycle := 0, mb_time_last_time_enqueue := now\<rparr> else b1);
     let b3 = b2\<lparr>mb_msgs_this_cycle := mb_msgs_this_cycle b2 + 1\<rparr>;
     check (mb_ordering_set b3);
     check (0 < delta);
     let arrival_time = mb_arrival_time RANDOMIZATION now delta
                          (case rs of (r1, r2, r3) \<Rightarrow> random_time r1 r2 r3) b3;
     let last = (if RANDOMIZATION \<and> mb_randomization b3 \<and> mb_strict_fifo b3
                    \<and> mb_last_arrival_time b3 < now then now else mb_last_arrival_time b3);
     check (now < arrival_time);
     check (mb_strict_fifo b3 \<longrightarrow> last \<le> arrival_time);
     let b4 = b3\<lparr>mb_last_arrival_time := arrival_time\<rparr>;
     msg \<leftarrow> message;
     check (msg_LastEnqueueTime msg \<le> now);
     let msg' = msg\<lparr>msg_DelayedCycles := (now - msg_LastEnqueueTime msg) + msg_DelayedCycles msg,
                    msg_LastEnqueueTime := arrival_time\<rparr>;
     let thisNode = \<lparr>mbn_time = arrival_time, mbn_msg_counter = mb_msg_counter b4, mbn_msgptr = msg'\<rparr>;
     h \<leftarrow> heap_insert (mb_node_default msg') mb_node_less_then_eq thisNode (mb_prio_heap b4);
     q' \<leftarrow> scheduleEventAbsolute (mb_consumer_ptr b4) arrival_time q;
     Some (q', b4\<lparr>mb_prio_heap := h\<rparr>) })"

definition mb_pop :: "time \<Rightarrow> 'p message_buffer \<Rightarrow> 'p message_buffer option" where
  "mb_pop now b = do {
     check (mb_isReady now b);
     (n, h) \<leftarrow> extractMin mb_node_less_then_eq (mb_prio_heap b);
     let b1 = b\<lparr>mb_prio_heap := h\<rparr>;
     let b2 = (if mb_time_last_time_pop b1 < now
               then b1\<lparr>mb_size_at_cycle_start := mb_size b1, mb_time_last_time_pop := now\<rparr> else b1);
     Some (b2\<lparr>mb_size := mb_size b2 - 1\<rparr>) }"

definition mb_dequeue :: "time \<Rightarrow> 'p message_buffer \<Rightarrow> ('p message \<times> 'p message_buffer) option" where
  "mb_dequeue now b = do {
     n \<leftarrow> peekMin (mb_prio_heap b);
     b' \<leftarrow> mb_pop now b;
     Some (mbn_msgptr n, b') }"

definition setAndReturnDelayCycles :: "time \<Rightarrow> 'p message \<Rightarrow> (int \<times> 'p message) option" where
  "setAndReturnDelayCycles now msg = do {
     check (msg_LastEnqueueTime msg \<le> now);
     let msg' = msg\<lparr>msg_DelayedCycles := (now - msg_LastEnqueueTime msg) + msg_DelayedCycles msg\<rparr>;
     check (0 \<le> msg_DelayedCycles msg');
     Some (msg_DelayedCycles msg', msg') }"

definition mb_dequeue_getDelayCycles ::
  "time \<Rightarrow> 'p message_buffer \<Rightarrow> (int \<times> 'p message \<times> 'p message_buffer) option" where
  "mb_dequeue_getDelayCycles now b = do {
     (msg, b') \<leftarrow> mb_dequeue now b;
     (d, msg') \<leftarrow> setAndReturnDelayCycles now msg;
     check (0 \<le> d);
     Some (d, msg', b') }"

definition mb_dequeue_getDelayCycles_drop ::
  "time \<Rightarrow> 'p message_buffer \<Rightarrow> (int \<times> 'p message_buffer) option" where
  "mb_dequeue_getDelayCycles_drop now b = do {
     n \<leftarrow> peekMin (mb_prio_heap b);
     (d, msg') \<leftarrow> setAndReturnDelayCycles now (mbn_msgptr n);
     b' \<leftarrow> mb_pop now b;
     check (0 \<le> d);
     Some (d, b') }"

partial_function (option) mb_clear_loop :: "'p mb_node prio_heap \<Rightarrow> 'p mb_node prio_heap option" where
  "mb_clear_loop h =
     (if 0 < heap_size h
      then Option.bind (extractMin mb_node_less_then_eq h) (\<lambda>(n, h'). mb_clear_loop h')
      else Some h)"

definition mb_clear :: "'p message_buffer \<Rightarrow> 'p message_buffer option" where
  "mb_clear b = do {
     h \<leftarrow> mb_clear_loop (mb_prio_heap b);
     check (heap_size h = 0);
     Some (b\<lparr>mb_prio_heap := h, mb_msg_counter := 0, mb_size := 0, mb_time_last_time_enqueue := 0,
             mb_time_last_time_pop := 0, mb_size_at_cycle_start := 0, mb_msgs_this_cycle := 0\<rparr>) }"

definition mb_recycle ::
  "time \<Rightarrow> event_queue \<times> 'p message_buffer \<Rightarrow> (event_queue \<times> 'p message_buffer) option" where
  "mb_recycle RECYCLE_LATENCY = (\<lambda>(q, b). do {
     check (mb_isReady (m_globalTime q) b);
     (node, h) \<leftarrow> extractMin mb_node_less_then_eq (mb_prio_heap b);
     let node' = node\<lparr>mbn_time := m_globalTime q + RECYCLE_LATENCY\<rparr>;
     h' \<leftarrow> heap_insert (mb_node_default (mbn_msgptr node)) mb_node_less_then_eq node' h;
     q' \<leftarrow> scheduleEventAbsolute (mb_consumer_ptr b) (m_globalTime q + RECYCLE_LATENCY) q;
     Some (q', b\<lparr>mb_prio_heap := h'\<rparr>) })"

subsection \<open>Invariants\<close>

definition mb_le :: "'p mb_node \<Rightarrow> 'p mb_node \<Rightarrow> bool" where
  "mb_le a b \<longleftrightarrow> mbn_time a < mbn_time b \<or>
     mbn_time a = mbn_time b \<and> mbn_msg_counter a \<le> mbn_msg_counter b"

interpretation mbo: node_order mb_node_less_then_eq mb_le
  by unfold_locales
    (auto simp: mb_node_less_then_eq_def mb_le_def check_bind split: if_splits)

definition mb_nodes :: "'p message_buffer \<Rightarrow> 'p mb_node multiset" where
  "mb_nodes b = heap_mset (mb_prio_heap b)"

definition counters_distinct :: "'p mb_node multiset \<Rightarrow> bool" where
  "counters_distinct M \<longleftrightarrow> (\<forall>x y. {#x, y#} \<subseteq># M \<longrightarrow> mbn_msg_counter x \<noteq> mbn_msg_counter y)"

definition mb_inv :: "'p message_buffer \<Rightarrow> bool" where
  "mb_inv b \<longleftrightarrow> mbo.heap_ok (mb_prio_heap b) \<and> counters_distinct (mb_nodes b) \<and>
     (\<forall>n \<in># mb_nodes b. mbn_msg_counter n \<le> mb_msg_counter b) \<and>
     mb_size b = int (heap_size (mb_prio_heap b))"

lemma counters_distinct_comparable: "counters_distinct M \<Longrightarrow> mbo.comparable M"
  by (auto simp: counters_distinct_def mbo.comparable_def mb_node_less_then_eq_def)

lemma counters_distinct_mono: "counters_distinct M \<Longrightarrow> N \<subseteq># M \<Longrightarrow> counters_distinct N"
  unfolding counters_distinct_def by (blast intro: subset_mset.order_trans)

lemma counters_distinct_add:
  assumes "counters_distinct M" and "\<forall>y \<in># M. mbn_msg_counter y \<noteq> mbn_msg_counter x"
  shows "counters_distinct (add_mset x M)"
  unfolding counters_distinct_def
proof (intro allI impI)
  fix u v assume sub: "{#u, v#} \<subseteq># add_mset x M"
  show "mbn_msg_counter u \<noteq> mbn_msg_counter v"
  proof (cases "u = x")
    case True
    then have "v \<in># M" using sub by auto
    then show ?thesis using True assms(2) by fastforce
  next
    case u: False
    show ?thesis
    proof (cases "v = x")
      case True
      then have "u \<in># M" using sub u by (metis in_diffD add_mset_remove_trivial insert_subset_eq_iff insertE mset_subset_eqD set_mset_add_mset_insert union_single_eq_member)
      then show ?thesis using True assms(2) by fastforce
    next
      case False
      have "{#u, v#} \<subseteq># M"
      proof (rule mset_subset_eqI)
        fix a
        have "count {#u, v#} a \<le> count (add_mset x M) a" using sub by (rule mset_subset_eq_count)
        then show "count {#u, v#} a \<le> count M a" using u False by (cases "a = x") auto
      qed
      then show ?thesis using assms(1) by (simp add: counters_distinct_def)
    qed
  qed
qed

lemma mb_isReady_head:
  assumes "mb_inv b" "mb_isReady now b"
  shows "\<exists>n h. extractMin mb_node_less_then_eq (mb_prio_heap b) = Some (n, h) \<and>
     peekMin (mb_prio_heap b) = Some n \<and> mbo.heap_ok h \<and> n \<in># mb_nodes b \<and>
     (\<forall>m \<in># mb_nodes b. mb_le n m) \<and> heap_mset h = mb_nodes b - {#n#} \<and>
     heap_size h + 1 = heap_size (mb_prio_heap b) \<and> mbn_time n \<le> now"
proof -
  from assms have "mbo.heap_ok (mb_prio_heap b)" "heap_size (mb_prio_heap b) > 0"
    by (simp_all add: mb_inv_def mb_isReady_def)
  from mbo.extractMin_ok [OF this] assms(2) show ?thesis
    by (auto simp: mb_nodes_def mb_isReady_def)
qed

definition mb_new_node ::
  "bool \<Rightarrow> nat \<times> nat \<times> nat \<Rightarrow> 'p message \<Rightarrow> time \<Rightarrow> time \<Rightarrow> 'p message_buffer \<Rightarrow> 'p mb_node" where
  "mb_new_node R rs msg delta now b =
     (let t = mb_arrival_time R now delta (case rs of (r1, r2, r3) \<Rightarrow> random_time r1 r2 r3) b
      in \<lparr>mbn_time = t, mbn_msg_counter = mb_msg_counter b + 1,
          mbn_msgptr = msg\<lparr>msg_DelayedCycles := (now - msg_LastEnqueueTime msg) + msg_DelayedCycles msg,
                           msg_LastEnqueueTime := t\<rparr>\<rparr>)"

text \<open>When \<^verbatim>\<open>enqueue\<close> is called as intended: the buffer is configured, the delay is
  positive, the message has left its previous buffer, and the arrival time does not overtake an
  earlier one in an ordered buffer.\<close>

definition enq_ok :: "bool \<Rightarrow> nat \<times> nat \<times> nat \<Rightarrow> 'p message \<Rightarrow> time \<Rightarrow> event_queue \<Rightarrow> 'p message_buffer \<Rightarrow> bool" where
  "enq_ok R rs msg delta q b \<longleftrightarrow> mb_ordering_set b \<and> mb_consumer_ptr b \<noteq> None \<and> 0 < delta \<and>
     msg_LastEnqueueTime msg \<le> m_globalTime q \<and>
     (mb_strict_fifo b \<and> \<not> (R \<and> mb_randomization b) \<longrightarrow> mb_last_arrival_time b \<le> m_globalTime q + delta)"

lemma mb_arrival_time_frame [simp]:
  "mb_arrival_time R now d r (b\<lparr>mb_msg_counter := x\<rparr>) = mb_arrival_time R now d r b"
  "mb_arrival_time R now d r (b\<lparr>mb_size := x\<rparr>) = mb_arrival_time R now d r b"
  "mb_arrival_time R now d r (b\<lparr>mb_msgs_this_cycle := x\<rparr>) = mb_arrival_time R now d r b"
  "mb_arrival_time R now d r (b\<lparr>mb_time_last_time_enqueue := y\<rparr>) = mb_arrival_time R now d r b"
  by (simp_all add: mb_arrival_time_def)

lemma random_time_pos: "0 < random_time r1 r2 r3"
  by (simp add: random_time_def)

lemma arrival_time_facts:
  assumes "enq_ok R (r1, r2, r3) msg delta q b"
  shows "m_globalTime q < mb_arrival_time R (m_globalTime q) delta (random_time r1 r2 r3) b"
    "mb_strict_fifo b \<Longrightarrow>
      mb_last_arrival_time b \<le> mb_arrival_time R (m_globalTime q) delta (random_time r1 r2 r3) b"
    "R \<Longrightarrow> mb_randomization b \<Longrightarrow> mb_strict_fifo b \<Longrightarrow>
      m_globalTime q \<le> mb_arrival_time R (m_globalTime q) delta (random_time r1 r2 r3) b"
  using assms random_time_pos [of r1 r2 r3] by (auto simp: mb_arrival_time_def enq_ok_def)

lemma mb_enqueue_ok:
  assumes inv: "mb_inv b" and q: "eq_inv q" and ok: "enq_ok R rs msg delta q b"
  shows "\<exists>q' b'. mb_enqueue R rs (Some msg) delta (q, b) = Some (q', b') \<and> mb_inv b' \<and> eq_inv q' \<and>
     mb_nodes b' = add_mset (mb_new_node R rs msg delta (m_globalTime q) b) (mb_nodes b) \<and>
     mb_last_arrival_time b' = mbn_time (mb_new_node R rs msg delta (m_globalTime q) b) \<and>
     mb_msg_counter b' = mb_msg_counter b + 1 \<and> mb_strict_fifo b' = mb_strict_fifo b \<and>
     mb_size b' = mb_size b + 1 \<and>
     \<lparr>eq_time = mbn_time (mb_new_node R rs msg delta (m_globalTime q) b),
      eq_consumer = mb_consumer_ptr b\<rparr> \<in># events q'"
proof -
  obtain r1 r2 r3 where rs: "rs = (r1, r2, r3)" by (cases rs)
  note af = arrival_time_facts [OF ok [unfolded rs]]
  let ?now = "m_globalTime q"
  let ?t = "mb_arrival_time R ?now delta (random_time r1 r2 r3) b"
  let ?n = "mb_new_node R rs msg delta ?now b"
  obtain c where c: "mb_consumer_ptr b = Some c" using ok by (auto simp: enq_ok_def)
  have n: "mbn_time ?n = ?t" "mbn_msg_counter ?n = mb_msg_counter b + 1"
    by (simp_all add: mb_new_node_def rs Let_def)
  have new: "\<forall>y \<in># mb_nodes b. mbn_msg_counter y \<noteq> mbn_msg_counter ?n"
    using inv n by (auto simp: mb_inv_def)
  then have cd: "counters_distinct (add_mset ?n (mb_nodes b))"
    using inv by (intro counters_distinct_add) (auto simp: mb_inv_def)
  from mbo.heap_insert_ok [of "mb_prio_heap b" ?n "mb_node_default (mbn_msgptr ?n)"]
    counters_distinct_comparable [OF cd] inv
  obtain h where h: "heap_insert (mb_node_default (mbn_msgptr ?n)) mb_node_less_then_eq ?n (mb_prio_heap b) = Some h"
    "mbo.heap_ok h" "heap_mset h = add_mset ?n (mb_nodes b)"
    "heap_size h = heap_size (mb_prio_heap b) + 1" by (auto simp: mb_inv_def mb_nodes_def)
  from scheduleEventAbsolute_ok [OF q af(1), of c] obtain q' where q':
    "scheduleEventAbsolute (Some c) ?t q = Some q'" "eq_inv q'"
    "\<lparr>eq_time = ?t, eq_consumer = Some c\<rparr> \<in># events q'" by blast
  define upd where "upd = (\<lambda>b :: 'a message_buffer. b\<lparr>mb_msg_counter := mb_msg_counter b + 1, mb_size := mb_size b + 1\<rparr>)"
  define b' where "b' = (let b1 = upd b;
      b2 = (if mb_time_last_time_enqueue b1 < ?now
               then b1\<lparr>mb_msgs_this_cycle := 0, mb_time_last_time_enqueue := ?now\<rparr> else b1)
      in b2\<lparr>mb_msgs_this_cycle := mb_msgs_this_cycle b2 + 1, mb_last_arrival_time := ?t, mb_prio_heap := h\<rparr>)"
  have "mb_enqueue R rs (Some msg) delta (q, b) = Some (q', b')"
    using ok af h(1) q'(1) c n
    by (auto simp: mb_enqueue_def Let_def rs enq_ok_def check_bind mb_new_node_def b'_def upd_def)
  moreover have "mb_inv b'"
    using inv h cd n by (auto simp: mb_inv_def b'_def upd_def Let_def mb_nodes_def)
  ultimately show ?thesis
    using q' c n h by (auto simp: b'_def upd_def Let_def mb_nodes_def)
qed

subsection \<open>An ordered buffer is a FIFO queue\<close>

text \<open>\<open>fifo_abs b xs\<close>: the buffer is in strict-FIFO mode and holds exactly the nodes \<open>xs\<close>, oldest
  first, none of them later than the last arrival time handed out.\<close>

definition fifo_abs :: "'p message_buffer \<Rightarrow> 'p mb_node list \<Rightarrow> bool" where
  "fifo_abs b xs \<longleftrightarrow> mb_inv b \<and> mb_strict_fifo b \<and> mset xs = mb_nodes b \<and>
     sorted (map mbn_time xs) \<and> sorted_wrt (<) (map mbn_msg_counter xs) \<and>
     (\<forall>n \<in> set xs. mbn_time n \<le> mb_last_arrival_time b)"

lemma fifo_head:
  assumes "fifo_abs b (x # xs)" and "n \<in># mb_nodes b" and "\<forall>m \<in># mb_nodes b. mb_le n m"
  shows "n = x"
proof (rule ccontr)
  assume "n \<noteq> x"
  have ms: "mset (x # xs) = mb_nodes b" using assms(1) by (simp add: fifo_abs_def)
  then have "n \<in> set xs" using assms(2) \<open>n \<noteq> x\<close> by (metis set_ConsD set_mset_mset)
  then have "mbn_msg_counter x < mbn_msg_counter n" "mbn_time x \<le> mbn_time n"
    using assms(1) by (auto simp: fifo_abs_def)
  moreover have "mb_le n x" using assms(3) ms by (metis list.set_intros(1) set_mset_mset)
  ultimately show False by (auto simp: mb_le_def)
qed

lemma mb_pop_inv:
  assumes inv: "mb_inv b" and rdy: "mb_isReady now b"
  shows "\<exists>b' n. mb_pop now b = Some b' \<and> mb_inv b' \<and> peekMin (mb_prio_heap b) = Some n \<and>
     n \<in># mb_nodes b \<and> (\<forall>m \<in># mb_nodes b. mb_le n m) \<and> mbn_time n \<le> now \<and>
     mb_nodes b' = mb_nodes b - {#n#} \<and> mb_strict_fifo b' = mb_strict_fifo b \<and>
     mb_last_arrival_time b' = mb_last_arrival_time b \<and> mb_size b' = mb_size b - 1"
proof -
  from mb_isReady_head [OF inv rdy] obtain n h where
    x: "extractMin mb_node_less_then_eq (mb_prio_heap b) = Some (n, h)" and
    pk: "peekMin (mb_prio_heap b) = Some n" and hk: "mbo.heap_ok h" and
    n: "n \<in># mb_nodes b" "\<forall>m \<in># mb_nodes b. mb_le n m" "mbn_time n \<le> now" and
    hm: "heap_mset h = mb_nodes b - {#n#}" and sz: "heap_size h + 1 = heap_size (mb_prio_heap b)"
    by blast
  have sub: "mb_nodes b - {#n#} \<subseteq># mb_nodes b" by simp
  define b' where "b' = (let b1 = b\<lparr>mb_prio_heap := h\<rparr>;
      b2 = (if mb_time_last_time_pop b1 < now
            then b1\<lparr>mb_size_at_cycle_start := mb_size b1, mb_time_last_time_pop := now\<rparr> else b1)
      in b2\<lparr>mb_size := mb_size b2 - 1\<rparr>)"
  have "mb_pop now b = Some b'" using rdy x by (simp add: mb_pop_def b'_def Let_def check_bind)
  moreover have "mb_inv b'"
    using inv hk hm sz counters_distinct_mono [OF _ sub]
    by (auto simp: mb_inv_def b'_def Let_def mb_nodes_def dest: in_diffD)
  ultimately show ?thesis using pk n hm by (auto simp: b'_def Let_def mb_nodes_def)
qed

lemma fifo_abs_enqueue:
  assumes "fifo_abs b xs" and "eq_inv q" and "enq_ok R rs msg delta q b"
  shows "\<exists>q' b' n. mb_enqueue R rs (Some msg) delta (q, b) = Some (q', b') \<and>
           fifo_abs b' (xs @ [n]) \<and> eq_inv q' \<and>
           msg_payload (mbn_msgptr n) = msg_payload msg \<and>
           msg_LastEnqueueTime (mbn_msgptr n) = mbn_time n \<and> m_globalTime q < mbn_time n \<and>
           \<lparr>eq_time = mbn_time n, eq_consumer = mb_consumer_ptr b\<rparr> \<in># events q'"
proof -
  let ?n = "mb_new_node R rs msg delta (m_globalTime q) b"
  from assms(1) have inv: "mb_inv b" and sf: "mb_strict_fifo b" by (simp_all add: fifo_abs_def)
  obtain r1 r2 r3 where rs: "rs = (r1, r2, r3)" by (cases rs)
  note af = arrival_time_facts [OF assms(3) [unfolded rs]]
  from mb_enqueue_ok [OF inv assms(2,3)] obtain q' b' where
    e: "mb_enqueue R rs (Some msg) delta (q, b) = Some (q', b')" and
    b': "mb_inv b'" "mb_nodes b' = add_mset ?n (mb_nodes b)"
      "mb_last_arrival_time b' = mbn_time ?n" "mb_strict_fifo b' = mb_strict_fifo b" and
    q': "eq_inv q'" "\<lparr>eq_time = mbn_time ?n, eq_consumer = mb_consumer_ptr b\<rparr> \<in># events q'" by blast
  have n: "mb_last_arrival_time b \<le> mbn_time ?n" "m_globalTime q < mbn_time ?n"
    "mbn_msg_counter ?n = mb_msg_counter b + 1"
    "msg_payload (mbn_msgptr ?n) = msg_payload msg" "msg_LastEnqueueTime (mbn_msgptr ?n) = mbn_time ?n"
    using af sf by (simp_all add: mb_new_node_def rs Let_def)
  have "\<forall>m \<in> set xs. m \<in># mb_nodes b"
    using assms(1) by (metis fifo_abs_def set_mset_mset)
  then have "\<forall>m \<in> set xs. mbn_msg_counter m < mbn_msg_counter ?n \<and> mbn_time m \<le> mbn_time ?n"
    using inv n assms(1) by (force simp: mb_inv_def fifo_abs_def)
  then have "fifo_abs b' (xs @ [?n])"
    using assms(1) b' sf by (auto simp: fifo_abs_def sorted_append sorted_wrt_append)
  then show ?thesis using e q' n by blast
qed

lemma fifo_ready_iff:
  assumes "fifo_abs b (x # xs)"
  shows "mb_isReady now b \<longleftrightarrow> mbn_time x \<le> now"
proof -
  from assms have ok: "mbo.heap_ok (mb_prio_heap b)" and "x \<in># mb_nodes b"
    by (auto simp: fifo_abs_def mb_inv_def) (metis union_single_eq_member)
  then have "0 < heap_size (mb_prio_heap b)"
    using mbo.heap_mset_empty_iff [OF ok] by (auto simp: mb_nodes_def)
  with mbo.extractMin_ok [OF ok] obtain n where "peekMin (mb_prio_heap b) = Some n"
    "n \<in># mb_nodes b" "\<forall>m \<in># mb_nodes b. mb_le n m" by (auto simp: mb_nodes_def)
  moreover from fifo_head [OF assms this(2,3)] have "n = x" .
  ultimately show ?thesis
    using \<open>0 < heap_size (mb_prio_heap b)\<close> by (simp add: mb_isReady_def)
qed

definition example_buffer :: "nat message_buffer" where
  "example_buffer = (mb_setOrdering True message_buffer_new)\<lparr>mb_consumer_ptr := Some 7\<rparr>"

definition example_message :: "nat message" where
  "example_message = \<lparr>msg_LastEnqueueTime = 0, msg_DelayedCycles = 0, msg_payload = 42\<rparr>"

lemma example_buffer_ok:
  "fifo_abs example_buffer []" "enq_ok False (0, 0, 0) example_message 4 event_queue_init example_buffer"
  by (simp_all add: example_buffer_def example_message_def mb_setOrdering_def message_buffer_new_def
      fifo_abs_def mb_inv_def mb_nodes_def mbo.heap_ok_init mbo.heap_mset_init counters_distinct_def
      enq_ok_def event_queue_init_def)



text \<open>C6. Receiving from an ordered buffer: when the buffer is ready, \<^verbatim>\<open>dequeue\<close> returns the
  oldest message, whose arrival time has come, and leaves the others in order.\<close>

theorem mb_dequeue_fifo:
  assumes "fifo_abs b (x # xs)" and "mb_isReady now b"
  shows "\<exists>b'. mb_dequeue now b = Some (mbn_msgptr x, b') \<and> fifo_abs b' xs \<and> mbn_time x \<le> now"
proof -
  from assms(1) have inv: "mb_inv b" by (simp add: fifo_abs_def)
  from mb_pop_inv [OF inv assms(2)] obtain b' n where
    p: "mb_pop now b = Some b'" "mb_inv b'" "peekMin (mb_prio_heap b) = Some n"
    and n: "n \<in># mb_nodes b" "\<forall>m \<in># mb_nodes b. mb_le n m" "mbn_time n \<le> now"
    and b': "mb_nodes b' = mb_nodes b - {#n#}" "mb_strict_fifo b' = mb_strict_fifo b"
      "mb_last_arrival_time b' = mb_last_arrival_time b" by blast
  have "n = x" using fifo_head [OF assms(1) n(1,2)] .
  moreover have "fifo_abs b' xs"
    using assms(1) p(2) b' \<open>n = x\<close> by (auto simp: fifo_abs_def) (metis add_mset_remove_trivial)
  ultimately show ?thesis using p n by (auto simp: mb_dequeue_def)
qed

theorem mb_dequeue_fifo_witness:
  "\<exists>b n b'. fifo_abs b [n] \<and> mb_isReady (mbn_time n) b \<and>
     mb_dequeue (mbn_time n) b = Some (mbn_msgptr n, b') \<and> msg_payload (mbn_msgptr n) = (42::nat) \<and> fifo_abs b' []"
proof -
  from fifo_abs_enqueue [OF example_buffer_ok(1) eq_inv_init example_buffer_ok(2)]
  obtain b n where b: "fifo_abs b [n]" "msg_payload (mbn_msgptr n) = (42::nat)"
    by (auto simp: example_message_def)
  then have r: "mb_isReady (mbn_time n) b" by (simp add: fifo_ready_iff)
  from mb_dequeue_fifo [OF b(1) r] b r show ?thesis by blast
qed

subsection \<open>Flow control\<close>

text \<open>The visible size never understates the buffer: within a cycle that has seen a pop, the size
  is at most the size at the start of the cycle plus the messages enqueued in it.\<close>

definition slots_inv :: "time \<Rightarrow> 'p message_buffer \<Rightarrow> bool" where
  "slots_inv now b \<longleftrightarrow> 0 \<le> mb_msgs_this_cycle b \<and> mb_time_last_time_pop b \<le> now \<and> mb_time_last_time_enqueue b \<le> now \<and>
     (mb_time_last_time_pop b = now \<longrightarrow>
        mb_size b \<le> mb_size_at_cycle_start b +
          (if mb_time_last_time_enqueue b = now then mb_msgs_this_cycle b else 0))"

lemma slots_inv_new: "0 \<le> now \<Longrightarrow> slots_inv now message_buffer_new"
  by (simp add: slots_inv_def message_buffer_new_def)

lemma slots_inv_later: "slots_inv now b \<Longrightarrow> now < now' \<Longrightarrow> slots_inv now' b"
  by (auto simp: slots_inv_def)

lemma slots_inv_pop: "slots_inv now b \<Longrightarrow> mb_pop now b = Some b' \<Longrightarrow> slots_inv now b'"
  by (auto simp: slots_inv_def mb_pop_def Let_def bind_Some_iff split: if_splits)

lemma slots_inv_enqueue:
  assumes "slots_inv (m_globalTime q) b" and "mb_enqueue R rs m delta (q, b) = Some (q', b')"
  shows "slots_inv (m_globalTime q) b'"
  using assms by (auto simp: slots_inv_def mb_enqueue_def Let_def bind_Some_iff split: if_splits)

text \<open>Flow control is sound: if \<^verbatim>\<open>areNSlotsAvailable(n)\<close> answers true on a bounded buffer,
  then \<open>n\<close> more messages fit within the bound; the invariant behind the answer is kept by \<^verbatim>\<open>enqueue\<close>, \<^verbatim>\<open>pop\<close> and the passing of time.\<close>

lemma areNSlotsAvailable_sound:
  assumes "slots_inv now b"
  shows "(mb_max_size b \<noteq> -1 \<and> fst (mb_areNSlotsAvailable now n b) \<longrightarrow> mb_size b + n \<le> mb_max_size b) \<and>
    (now < now' \<longrightarrow> slots_inv now' b) \<and>
    (mb_pop now b = Some b' \<longrightarrow> slots_inv now b') \<and>
    (m_globalTime q = now \<and> mb_enqueue R rs m delta (q, b) = Some (q', b'') \<longrightarrow> slots_inv now b'')"
proof -
  have "mb_max_size b \<noteq> -1 \<and> fst (mb_areNSlotsAvailable now n b) \<longrightarrow> mb_size b + n \<le> mb_max_size b"
    using assms by (auto simp: mb_areNSlotsAvailable_def slots_inv_def Let_def split: if_splits)
  then show ?thesis using assms slots_inv_later slots_inv_pop slots_inv_enqueue by blast
qed

lemma mb_clear_loop_ok:
  "mbo.heap_ok h \<Longrightarrow> \<exists>h'. mb_clear_loop h = Some h' \<and> mbo.heap_ok h' \<and> heap_size h' = 0"
proof (induction "heap_size h" arbitrary: h)
  case 0
  then show ?case by (auto simp: mb_clear_loop.simps)
next
  case (Suc k)
  then have "0 < heap_size h" by simp
  with mbo.extractMin_ok [OF Suc.prems] obtain n h' where
    "extractMin mb_node_less_then_eq h = Some (n, h')" "mbo.heap_ok h'" "heap_size h' + 1 = heap_size h"
    by blast
  with Suc show ?case by (simp add: mb_clear_loop.simps [of h])
qed

lemma mb_clear_ok:
  assumes "mb_inv b"
  shows "\<exists>b'. mb_clear b = Some b' \<and> mb_inv b' \<and> mb_nodes b' = {#} \<and> mb_size b' = 0"
proof -
  from assms mb_clear_loop_ok obtain h where
    h: "mb_clear_loop (mb_prio_heap b) = Some h" "mbo.heap_ok h" "heap_size h = 0"
    by (auto simp: mb_inv_def)
  then have "heap_mset h = {#}" by (simp add: mbo.heap_mset_empty_iff)
  with h show ?thesis
    by (auto simp: mb_clear_def mb_inv_def mb_nodes_def check_bind counters_distinct_def)
qed

lemma mb_recycle_ok:
  assumes inv: "mb_inv b" and q: "eq_inv q" and rdy: "mb_isReady (m_globalTime q) b"
    and c: "mb_consumer_ptr b \<noteq> None" and lat: "0 < L"
  shows "\<exists>q' b' n. mb_recycle L (q, b) = Some (q', b') \<and> mb_inv b' \<and> eq_inv q' \<and>
     n \<in># mb_nodes b \<and> (\<forall>m \<in># mb_nodes b. mb_le n m) \<and>
     mb_nodes b' = add_mset (n\<lparr>mbn_time := m_globalTime q + L\<rparr>) (mb_nodes b - {#n#}) \<and>
     mb_size b' = mb_size b"
proof -
  from mb_isReady_head [OF inv rdy] obtain n h where
    x: "extractMin mb_node_less_then_eq (mb_prio_heap b) = Some (n, h)" and hk: "mbo.heap_ok h" and
    n: "n \<in># mb_nodes b" "\<forall>m \<in># mb_nodes b. mb_le n m" and
    hm: "heap_mset h = mb_nodes b - {#n#}" and sz: "heap_size h + 1 = heap_size (mb_prio_heap b)"
    by blast
  let ?n = "n\<lparr>mbn_time := m_globalTime q + L\<rparr>"
  have cd: "counters_distinct (mb_nodes b)" using inv by (simp add: mb_inv_def)
  have "\<forall>y \<in># mb_nodes b - {#n#}. mbn_msg_counter y \<noteq> mbn_msg_counter ?n"
  proof
    fix y assume "y \<in># mb_nodes b - {#n#}"
    then have "{#y, n#} \<subseteq># mb_nodes b" using n(1)
      by (metis add_mset_commute insert_subset_eq_iff single_subset_iff)
    then show "mbn_msg_counter y \<noteq> mbn_msg_counter ?n" using cd by (simp add: counters_distinct_def)
  qed
  moreover have "counters_distinct (mb_nodes b - {#n#})"
    using counters_distinct_mono [OF cd] by (metis diff_subset_eq_self)
  ultimately have cd': "counters_distinct (add_mset ?n (heap_mset h))"
    unfolding hm by (intro counters_distinct_add) auto
  from mbo.heap_insert_ok [OF hk counters_distinct_comparable [OF cd'], of "mb_node_default (mbn_msgptr n)"]
  obtain h' where h': "heap_insert (mb_node_default (mbn_msgptr n)) mb_node_less_then_eq ?n h = Some h'"
    "mbo.heap_ok h'" "heap_mset h' = add_mset ?n (heap_mset h)" "heap_size h' = heap_size h + 1" by blast
  from c obtain k where k: "mb_consumer_ptr b = Some k" by auto
  from scheduleEventAbsolute_ok [OF q, of "m_globalTime q + L" k] lat obtain q' where
    q': "scheduleEventAbsolute (Some k) (m_globalTime q + L) q = Some q'" "eq_inv q'" by auto
  have "mb_recycle L (q, b) = Some (q', b\<lparr>mb_prio_heap := h'\<rparr>)"
    using rdy x h' k q' by (simp add: mb_recycle_def Let_def check_bind)
  moreover have "mb_inv (b\<lparr>mb_prio_heap := h'\<rparr>)"
    using inv h' cd' sz hm n(1) by (auto simp: mb_inv_def mb_nodes_def dest: in_diffD)
  ultimately show ?thesis using q' n h' hm by (auto simp: mb_nodes_def)
qed

text \<open>Clearing statistics is not neutral: \<^verbatim>\<open>clearStats()\<close> also resets the counter that
  breaks ties between messages of equal arrival time, so a send that succeeds before it fails the
  heap's assertion after it.\<close>

lemma mb_clearStats_breaks_enqueue:
  "(let enq = mb_enqueue False (0, 0, 0) (Some example_message) 4;
        first = enq (event_queue_init, example_buffer)
    in (first \<bind> enq) \<noteq> None \<and> (first \<bind> (\<lambda>(q, b). enq (q, mb_clearStats b))) = None)"
  by code_simp

end
