(* ===== verification/Cs_Chain.thy ===== *)
theory Cs_Chain
  imports Ruby_Prelude
begin

text \<open>
  The chains of instructions the accelerator schedules: \<^verbatim>\<open>include/Chain.hpp\<close> and
  \<^verbatim>\<open>src/Chain.cpp\<close>. Identifiers are naturals; the dependency counter is a 32-bit word,
  since \<^verbatim>\<open>depen_decrease\<close> wraps around at zero.
\<close>

record node =
  nd_c_id :: nat
  nd_old_id :: nat
  nd_new_id :: nat
  nd_name :: nat
  nd_type :: string
  nd_latency :: nat

record chain =
  ch_id :: nat
  num_dependencies :: "32 word"
  live_in :: "nat set"
  live_out :: "nat set"
  instruction_list :: "node list"
  ch_mem :: bool

definition chain_new :: "nat \<Rightarrow> chain" where
  "chain_new n = \<lparr>ch_id = 0, num_dependencies = 0, live_in = {}, live_out = {},
     instruction_list = [], ch_mem = False\<rparr>"

definition chain_is_free :: "chain \<Rightarrow> bool" where
  "chain_is_free c \<longleftrightarrow> num_dependencies c = 0"

definition depen_increase :: "chain \<Rightarrow> chain" where
  "depen_increase c = c\<lparr>num_dependencies := num_dependencies c + 1\<rparr>"

definition depen_decrease :: "chain \<Rightarrow> chain" where
  "depen_decrease c = c\<lparr>num_dependencies := num_dependencies c - 1\<rparr>"

definition push_ins :: "node \<Rightarrow> chain \<Rightarrow> chain" where
  "push_ins n c = c\<lparr>instruction_list := instruction_list c @ [n]\<rparr>"

definition push_liveIn :: "nat \<Rightarrow> chain \<Rightarrow> chain" where
  "push_liveIn t c = c\<lparr>live_in := insert t (live_in c), num_dependencies := num_dependencies c + 1\<rparr>"

definition push_liveOut :: "nat \<Rightarrow> chain \<Rightarrow> chain" where
  "push_liveOut t c = c\<lparr>live_out := insert t (live_out c)\<rparr>"

definition return_instruction :: "chain \<Rightarrow> node list" where
  "return_instruction c = instruction_list c"

definition return_id :: "chain \<Rightarrow> nat" where
  "return_id c = ch_id c"

definition chain_less :: "chain \<Rightarrow> chain \<Rightarrow> bool" where
  "chain_less a b \<longleftrightarrow> length (instruction_list a) < length (instruction_list b)"

lemma depen_decrease_increase: "depen_decrease (depen_increase c) = c"
  by (simp add: depen_decrease_def depen_increase_def)

lemma depen_decrease_wraps:
  "chain_is_free c \<Longrightarrow> unat (num_dependencies (depen_decrease c)) = 2 ^ 32 - 1"
  by (simp add: chain_is_free_def depen_decrease_def unsigned_minus_1_eq_mask mask_eq_exp_minus_1)

end
