(* ===== verification/Cs_Lane.thy ===== *)
theory Cs_Lane
  imports Cs_Chain
begin

text \<open>
  One lane of the accelerator: \<^verbatim>\<open>include/Lane.hpp\<close> and \<^verbatim>\<open>src/Lane.cpp\<close>, an in-order
  pipeline of an instruction queue, a fetch stage and an execute stage, with down-counters for the
  stage delays. The two static queues all lanes share are \<open>lane_globals\<close>. The parameter table
  read from \<^verbatim>\<open>def/Lane.def\<close> is a finite map; a missing parameter fails the assertion that
  guards its use. Reading the front of an empty queue, undefined in C++, is \<open>None\<close> as well.
\<close>

record lane_globals =
  finished_chains :: "int list"
  mem_req_queue :: "(nat \<times> nat) list"

record lane =
  laneID :: nat
  m_memory_mode :: nat
  lane_size :: nat
  fetch_cnt :: nat
  decode_cnt :: nat
  exe_cnt :: int
  m_memory_stall :: nat
  m_stall :: nat
  m_current_ch :: int
  m_current_op :: string
  instruction_queue :: "node list"
  fetch_stack :: "node list"
  decode_stack :: "node list"
  exe_stack :: "node list"
  lane_param :: "string \<Rightarrow> nat option"
  schChainsList :: "nat list"

definition lane_new :: "(string \<Rightarrow> nat option) \<Rightarrow> nat \<Rightarrow> nat \<Rightarrow> nat \<Rightarrow> lane" where
  "lane_new params ID m_mode n_size =
     \<lparr>laneID = ID, m_memory_mode = m_mode, lane_size = n_size, fetch_cnt = 0, decode_cnt = 0,
      exe_cnt = 0, m_memory_stall = 0, m_stall = 0, m_current_ch = -1, m_current_op = [],
      instruction_queue = [], fetch_stack = [], decode_stack = [], exe_stack = [],
      lane_param = params, schChainsList = []\<rparr>"

definition setDCounter :: "nat \<Rightarrow> lane \<Rightarrow> lane" where "setDCounter d l = l\<lparr>decode_cnt := d\<rparr>"
definition setFCounter :: "nat \<Rightarrow> lane \<Rightarrow> lane" where "setFCounter d l = l\<lparr>fetch_cnt := d\<rparr>"
definition setExeCounter :: "int \<Rightarrow> lane \<Rightarrow> lane" where "setExeCounter d l = l\<lparr>exe_cnt := d\<rparr>"

lemmas counter_defs = setDCounter_def setFCounter_def setExeCounter_def

definition LoadInstructionQueue :: "node list \<Rightarrow> nat \<Rightarrow> lane \<Rightarrow> (int \<times> lane) option" where
  "LoadInstructionQueue input_chain c l = do {
     let l1 = l\<lparr>instruction_queue := instruction_queue l @ input_chain, m_current_ch := int c\<rparr>;
     d \<leftarrow> lane_param l1 ''DECODE_DELAY'';
     let l2 = setDCounter d l1;
     let l3 = l2\<lparr>schChainsList := schChainsList l2 @ [c]\<rparr>;
     Some (int (lane_size l3) - int (length (instruction_queue l3)), l3) }"

definition fetch :: "lane \<Rightarrow> lane option" where
  "fetch l =
     (if 0 < fetch_cnt l then Some l
      else (case instruction_queue l of
              [] \<Rightarrow> Some l
            | ins_head # rest \<Rightarrow> do {
                check (lane_param l ''FETCH_DELAY'' \<noteq> None);
                Some (setFCounter 4 (l\<lparr>fetch_stack := fetch_stack l @ [ins_head],
                                      instruction_queue := rest\<rparr>)) }))"

definition decode :: "lane \<Rightarrow> lane option" where
  "decode l =
     (if 0 < decode_cnt l then Some l
      else (case fetch_stack l of
              [] \<Rightarrow> Some l
            | ins_head # rest \<Rightarrow> do {
                d \<leftarrow> lane_param l ''DECODE_DELAY'';
                Some (setDCounter d (l\<lparr>decode_stack := decode_stack l @ [ins_head],
                                      fetch_stack := rest\<rparr>)) }))"

definition mem_latency :: "node \<Rightarrow> lane_globals \<times> lane \<Rightarrow> (lane_globals \<times> lane) option" where
  "mem_latency ins = (\<lambda>(g, l).
     if m_memory_mode l = 0 then do {
       d \<leftarrow> lane_param l ''L1_MISS_LATENCY''; Some (g, setExeCounter (int d) l) }
     else if m_memory_mode l = 1 then do {
       d \<leftarrow> lane_param l ''L2_MISS_LATENCY''; Some (g, setExeCounter (int d) l) }
     else if m_memory_mode l = 2 then do {
       d \<leftarrow> lane_param l ''L3_MISS_LATENCY''; Some (g, setExeCounter (int d) l) }
     else if m_memory_mode l = 3 then
       Some (g\<lparr>mem_req_queue := mem_req_queue g @ [(laneID l, nd_old_id ins)]\<rparr>, setExeCounter (-1) l)
     else Some (g, l))"

definition issue :: "node \<Rightarrow> lane_globals \<times> lane \<Rightarrow> (lane_globals \<times> lane) option" where
  "issue ins = (\<lambda>(g, l).
     if nd_type ins = ''Load'' then mem_latency ins (g, l)
     else if nd_type ins = ''Store'' then mem_latency ins (g, l)
     else
       (let l1 = (if nd_type ins = ''Nop'' then setExeCounter 2 l else l)
        in Some (g, setExeCounter (int (nd_latency ins)) l1)))"

definition execute :: "lane_globals \<times> lane \<Rightarrow> (lane_globals \<times> lane) option" where
  "execute = (\<lambda>(g, l).
     if exe_cnt l = 0 \<and> exe_stack l \<noteq> [] then
       Some (g\<lparr>finished_chains := finished_chains g @ [int (nd_c_id (hd (exe_stack l)))]\<rparr>,
             l\<lparr>exe_stack := tl (exe_stack l), m_current_op := []\<rparr>)
     else if 0 < exe_cnt l then
       (case exe_stack l of
          [] \<Rightarrow> None
        | temp_ins # _ \<Rightarrow> Some (g, l\<lparr>m_current_op := nd_type temp_ins\<rparr>))
     else if exe_cnt l < 0 then Some (g, l)
     else (case fetch_stack l of
             [] \<Rightarrow> Some (g, l)
           | temp_ins # rest \<Rightarrow>
               if fetch_cnt l = 0 then do {
                 (g', l') \<leftarrow> issue temp_ins
                   (g, l\<lparr>exe_stack := exe_stack l @ [temp_ins], m_current_op := nd_type temp_ins\<rparr>);
                 Some (g', l'\<lparr>fetch_stack := tl (fetch_stack l')\<rparr>) }
               else Some (g, l)))"

definition updateCounter :: "lane \<Rightarrow> lane" where
  "updateCounter l =
     (let l1 = (if 0 < fetch_cnt l then l\<lparr>fetch_cnt := fetch_cnt l - 1\<rparr> else l)
      in if 0 < exe_cnt l1 then l1\<lparr>exe_cnt := exe_cnt l1 - 1\<rparr>
         else if exe_cnt l1 = -1 then l1\<lparr>m_memory_stall := m_memory_stall l1 + 1\<rparr>
         else l1)"

definition lane_run :: "lane_globals \<times> lane \<Rightarrow> (lane_globals \<times> lane) option" where
  "lane_run = (\<lambda>(g, l). do {
     (g', l') \<leftarrow> execute (g, updateCounter l);
     l'' \<leftarrow> fetch l';
     Some (g', l'') })"

definition is_exe_full :: "lane \<Rightarrow> bool" where "is_exe_full l \<longleftrightarrow> exe_stack l \<noteq> []"

definition freeSlots :: "lane \<Rightarrow> 32 word" where
  "freeSlots l = of_nat (lane_size l) - of_nat (length (instruction_queue l))"

definition available_size :: "lane \<Rightarrow> int" where
  "available_size l = int (lane_size l) - int (length (instruction_queue l))"

definition lane_less :: "lane \<Rightarrow> lane \<Rightarrow> bool" where
  "lane_less a b \<longleftrightarrow> freeSlots a < freeSlots b"

definition lane_is_free :: "lane \<Rightarrow> bool" where
  "lane_is_free l \<longleftrightarrow>
     fetch_cnt l = 0 \<and> exe_cnt l = 0 \<and> instruction_queue l = [] \<and> exe_stack l = []"

fun lane_runs :: "nat \<Rightarrow> lane_globals \<times> lane \<Rightarrow> (lane_globals \<times> lane) option" where
  "lane_runs 0 s = Some s"
| "lane_runs (Suc k) s = lane_run s \<bind> lane_runs k"

subsection \<open>Invariant and order of retirement\<close>

definition in_flight :: "lane \<Rightarrow> node list" where
  "in_flight l = exe_stack l @ fetch_stack l @ instruction_queue l"

definition lane_params_ok :: "lane \<Rightarrow> bool" where
  "lane_params_ok l \<longleftrightarrow>
     (\<forall>p \<in> {''FETCH_DELAY'', ''DECODE_DELAY'', ''L1_MISS_LATENCY'', ''L2_MISS_LATENCY'', ''L3_MISS_LATENCY''}.
        lane_param l p \<noteq> None)"

definition lane_inv :: "lane \<Rightarrow> bool" where
  "lane_inv l \<longleftrightarrow> lane_params_ok l \<and> (exe_cnt l \<noteq> 0 \<longrightarrow> exe_stack l \<noteq> []) \<and> length (exe_stack l) \<le> 1"

lemma lane_inv_new: "lane_params_ok (lane_new P i m s) \<Longrightarrow> lane_inv (lane_new P i m s)"
  by (simp add: lane_inv_def lane_new_def)

lemma updateCounter_frame [simp]:
  "exe_stack (updateCounter l) = exe_stack l" "fetch_stack (updateCounter l) = fetch_stack l"
  "instruction_queue (updateCounter l) = instruction_queue l"
  "lane_param (updateCounter l) = lane_param l" "m_memory_mode (updateCounter l) = m_memory_mode l"
  "laneID (updateCounter l) = laneID l"
  by (simp_all add: updateCounter_def Let_def)

lemma updateCounter_cnt:
  "fetch_cnt (updateCounter l) = fetch_cnt l - 1"
  "exe_cnt (updateCounter l) = (if 0 < exe_cnt l then exe_cnt l - 1 else exe_cnt l)"
  by (simp_all add: updateCounter_def Let_def)

lemma lane_inv_updateCounter: "lane_inv l \<Longrightarrow> lane_inv (updateCounter l)"
  by (auto simp: lane_inv_def lane_params_ok_def updateCounter_cnt)

text \<open>What issuing an instruction changes.\<close>

lemma mem_latency_ok:
  assumes "lane_params_ok l"
  shows "\<exists>g' k. mem_latency ins (g, l) = Some (g', l\<lparr>exe_cnt := k\<rparr>) \<and>
           finished_chains g' = finished_chains g \<and> (m_memory_mode l < 3 \<longrightarrow> 0 \<le> k) \<and>
           (m_memory_mode l = 3 \<longrightarrow> k = -1 \<and> mem_req_queue g' = mem_req_queue g @ [(laneID l, nd_old_id ins)])"
proof -
  consider "m_memory_mode l = 0" | "m_memory_mode l = 1" | "m_memory_mode l = 2"
    | "m_memory_mode l = 3" | "3 < m_memory_mode l" by linarith
  then show ?thesis
  proof cases
    case 4
    then show ?thesis by (auto simp: mem_latency_def counter_defs)
  next
    case 5
    then have "mem_latency ins (g, l) = Some (g, l\<lparr>exe_cnt := exe_cnt l\<rparr>)" by (simp add: mem_latency_def)
    then show ?thesis using 5 by (intro exI [of _ g] exI [of _ "exe_cnt l"]) simp
  qed (use assms of_nat_0_le_iff in \<open>force simp: mem_latency_def lane_params_ok_def counter_defs\<close>)+
qed

lemma issue_ok:
  assumes "lane_params_ok l"
  shows "\<exists>g' k. issue ins (g, l) = Some (g', l\<lparr>exe_cnt := k\<rparr>) \<and>
           finished_chains g' = finished_chains g \<and> (m_memory_mode l < 3 \<longrightarrow> 0 \<le> k)"
  using mem_latency_ok [OF assms, of ins g]
  by (auto simp: issue_def Let_def counter_defs)

lemma execute_ok:
  assumes "lane_inv l"
  shows "\<exists>g' l'. execute (g, l) = Some (g', l') \<and> lane_inv l' \<and>
     finished_chains g' @ map (\<lambda>n. int (nd_c_id n)) (in_flight l') =
       finished_chains g @ map (\<lambda>n. int (nd_c_id n)) (in_flight l) \<and>
     instruction_queue l' = instruction_queue l \<and> fetch_cnt l' = fetch_cnt l \<and>
     lane_param l' = lane_param l \<and> m_memory_mode l' = m_memory_mode l"
proof (cases "exe_cnt l = 0 \<and> exe_stack l = [] \<and> fetch_stack l \<noteq> [] \<and> fetch_cnt l = 0")
  case True
  then obtain x xs where fs: "fetch_stack l = x # xs" by (cases "fetch_stack l") auto
  let ?l = "l\<lparr>exe_stack := exe_stack l @ [x], m_current_op := nd_type x\<rparr>"
  have "lane_params_ok ?l" using assms by (simp add: lane_inv_def lane_params_ok_def)
  from issue_ok [OF this, of x g] obtain g' k where
    "issue x (g, ?l) = Some (g', ?l\<lparr>exe_cnt := k\<rparr>)" "finished_chains g' = finished_chains g" by blast
  then show ?thesis using True fs assms
    by (auto simp: execute_def in_flight_def lane_inv_def lane_params_ok_def)
next
  case False
  then show ?thesis using assms
    by (cases "exe_stack l"; cases "fetch_stack l")
      (auto simp: execute_def in_flight_def lane_inv_def lane_params_ok_def)
qed

lemma fetch_ok:
  assumes "lane_inv l"
  shows "\<exists>l'. fetch l = Some l' \<and> lane_inv l' \<and> in_flight l' = in_flight l"
  using assms
  by (cases "instruction_queue l")
    (auto simp: fetch_def lane_inv_def lane_params_ok_def in_flight_def counter_defs check_bind)

lemma lane_run_ok:
  assumes "lane_inv l"
  shows "\<exists>g' l'. lane_run (g, l) = Some (g', l') \<and> lane_inv l' \<and>
     finished_chains g' @ map (\<lambda>n. int (nd_c_id n)) (in_flight l') =
       finished_chains g @ map (\<lambda>n. int (nd_c_id n)) (in_flight l)"
proof -
  from execute_ok [OF lane_inv_updateCounter [OF assms], of g] obtain g' l' where
    e: "execute (g, updateCounter l) = Some (g', l')" "lane_inv l'"
    "finished_chains g' @ map (\<lambda>n. int (nd_c_id n)) (in_flight l') =
       finished_chains g @ map (\<lambda>n. int (nd_c_id n)) (in_flight l)"
    by (auto simp: in_flight_def)
  from fetch_ok [OF e(2)] obtain l'' where "fetch l' = Some l''" "lane_inv l''" "in_flight l'' = in_flight l'"
    by blast
  with e show ?thesis by (simp add: lane_run_def)
qed

lemma lane_runs_ok:
  assumes "lane_inv l"
  shows "\<exists>g' l'. lane_runs k (g, l) = Some (g', l') \<and> lane_inv l' \<and>
     finished_chains g' @ map (\<lambda>n. int (nd_c_id n)) (in_flight l') =
       finished_chains g @ map (\<lambda>n. int (nd_c_id n)) (in_flight l)"
  using assms
proof (induction k arbitrary: g l)
  case 0
  then show ?case by simp
next
  case (Suc k)
  from lane_run_ok [OF Suc.prems, of g] obtain g1 l1 where r: "lane_run (g, l) = Some (g1, l1)"
    "lane_inv l1" "finished_chains g1 @ map (\<lambda>n. int (nd_c_id n)) (in_flight l1) =
       finished_chains g @ map (\<lambda>n. int (nd_c_id n)) (in_flight l)" by blast
  from Suc.IH [OF r(2), of g1] r show ?case by auto
qed

subsection \<open>Progress\<close>

definition lane_weight :: "lane \<Rightarrow> nat" where
  "lane_weight l = 3 * length (instruction_queue l) + 2 * length (fetch_stack l) + length (exe_stack l)"

definition lane_delay :: "lane \<Rightarrow> nat" where
  "lane_delay l = nat (exe_cnt l) + fetch_cnt l"

definition timed :: "lane \<Rightarrow> bool" where
  "timed l \<longleftrightarrow> lane_inv l \<and> m_memory_mode l < 3 \<and> 0 \<le> exe_cnt l"

lemma fetch_progress:
  assumes "lane_inv l" and "fetch l = Some l'"
  shows "exe_cnt l' = exe_cnt l" "m_memory_mode l' = m_memory_mode l" "exe_stack l' = exe_stack l"
    "lane_weight l' \<le> lane_weight l"
    "fetch_cnt l = 0 \<Longrightarrow> instruction_queue l \<noteq> [] \<Longrightarrow> lane_weight l' < lane_weight l"
    "lane_weight l' = lane_weight l \<Longrightarrow> fetch_cnt l' = fetch_cnt l"
  using assms
  by (auto simp: fetch_def counter_defs lane_weight_def bind_Some_iff split: if_splits list.splits)

lemma execute_progress:
  assumes "timed l" and "execute (g, l) = Some (g', l')"
  shows "timed l'" "lane_weight l' \<le> lane_weight l" "fetch_cnt l' = fetch_cnt l"
    "instruction_queue l' = instruction_queue l"
    "exe_cnt l = 0 \<Longrightarrow> exe_stack l \<noteq> [] \<Longrightarrow> lane_weight l' < lane_weight l"
    "exe_cnt l = 0 \<Longrightarrow> fetch_stack l \<noteq> [] \<Longrightarrow> fetch_cnt l = 0 \<Longrightarrow> lane_weight l' < lane_weight l"
    "lane_weight l' = lane_weight l \<Longrightarrow> exe_cnt l' = exe_cnt l"
proof -
  have inv: "lane_inv l" using assms(1) by (simp add: timed_def)
  have main: "timed l' \<and> lane_weight l' \<le> lane_weight l \<and>
      (exe_cnt l = 0 \<longrightarrow> exe_stack l \<noteq> [] \<longrightarrow> lane_weight l' < lane_weight l) \<and>
      (exe_cnt l = 0 \<longrightarrow> fetch_stack l \<noteq> [] \<longrightarrow> fetch_cnt l = 0 \<longrightarrow> lane_weight l' < lane_weight l) \<and>
      (lane_weight l' = lane_weight l \<longrightarrow> exe_cnt l' = exe_cnt l)"
  proof (cases "exe_cnt l = 0 \<and> exe_stack l = [] \<and> fetch_stack l \<noteq> [] \<and> fetch_cnt l = 0")
    case True
    then obtain x xs where fs: "fetch_stack l = x # xs" by (cases "fetch_stack l") auto
    let ?l = "l\<lparr>exe_stack := exe_stack l @ [x], m_current_op := nd_type x\<rparr>"
    have "lane_params_ok ?l" using inv by (simp add: lane_inv_def lane_params_ok_def)
    from issue_ok [OF this, of x g] assms(1) obtain g2 k where
      "issue x (g, ?l) = Some (g2, ?l\<lparr>exe_cnt := k\<rparr>)" "0 \<le> k" by (auto simp: timed_def)
    with True fs assms show ?thesis
      by (auto simp: execute_def timed_def lane_inv_def lane_params_ok_def lane_weight_def)
  next
    case False
    with assms show ?thesis
      by (cases "exe_stack l"; cases "fetch_stack l")
        (auto simp: execute_def timed_def lane_inv_def lane_params_ok_def lane_weight_def split: if_splits)
  qed
  then show "timed l'" "lane_weight l' \<le> lane_weight l"
    "exe_cnt l = 0 \<Longrightarrow> exe_stack l \<noteq> [] \<Longrightarrow> lane_weight l' < lane_weight l"
    "exe_cnt l = 0 \<Longrightarrow> fetch_stack l \<noteq> [] \<Longrightarrow> fetch_cnt l = 0 \<Longrightarrow> lane_weight l' < lane_weight l"
    "lane_weight l' = lane_weight l \<Longrightarrow> exe_cnt l' = exe_cnt l" by blast+
  show "fetch_cnt l' = fetch_cnt l" "instruction_queue l' = instruction_queue l"
    using execute_ok [OF inv, of g] assms(2) by auto
qed

lemma lane_run_progress:
  assumes t: "timed l" and ne: "in_flight l \<noteq> []"
  shows "\<exists>g' l'. lane_run (g, l) = Some (g', l') \<and> timed l' \<and>
     (lane_weight l' < lane_weight l \<or> lane_weight l' = lane_weight l \<and> lane_delay l' < lane_delay l)"
proof -
  let ?u = "updateCounter l"
  have inv: "lane_inv l" using t by (simp add: timed_def)
  have tu: "timed ?u" "lane_weight ?u = lane_weight l"
    using t by (auto simp: timed_def lane_inv_updateCounter updateCounter_cnt lane_weight_def)
  from execute_ok [OF lane_inv_updateCounter [OF inv], of g] obtain g' l1 where
    e: "execute (g, ?u) = Some (g', l1)" "lane_inv l1" by blast
  from fetch_ok [OF e(2)] obtain l' where f: "fetch l1 = Some l'" "lane_inv l'" by blast
  note E = execute_progress [OF tu(1) e(1)] and F = fetch_progress [OF e(2) f(1)]
  have run: "lane_run (g, l) = Some (g', l')" using e f by (simp add: lane_run_def)
  have "timed l'" using E(1) F f(2) by (simp add: timed_def)
  moreover have "lane_weight l' < lane_weight l \<or> lane_weight l' = lane_weight l \<and> lane_delay l' < lane_delay l"
  proof (cases "lane_weight l' < lane_weight l")
    case False
    then have w: "lane_weight l1 = lane_weight ?u" "lane_weight l' = lane_weight l1"
      using E(2) F(4) tu by auto
    then have c: "exe_cnt l' = exe_cnt ?u" "fetch_cnt l' = fetch_cnt ?u" using E F by auto
    have "0 < exe_cnt ?u \<or> 0 < fetch_cnt ?u"
    proof (rule ccontr)
      assume "\<not> ?thesis"
      then have z: "exe_cnt ?u = 0" "fetch_cnt ?u = 0" using tu by (auto simp: timed_def)
      then have "exe_stack l = []" "fetch_stack l = []" "instruction_queue l = []"
        using E(3-6) F(5) w by (metis less_irrefl updateCounter_frame(1-3))+
      with ne show False by (simp add: in_flight_def)
    qed
    then have "lane_delay l' < lane_delay l"
      using c t by (auto simp: lane_delay_def updateCounter_cnt timed_def split: if_splits)
    with w tu show ?thesis by simp
  qed simp
  ultimately show ?thesis using run by blast
qed

text \<open>C22. A lane retires in program order and loses nothing: whatever the memory mode, any number
  of cycles of a lane from a consistent state succeeds, and the sequence of chain ids it has
  reported finished, followed by those of the instructions still in its execute stage, fetch stage
  and queue, never changes.\<close>

theorem lane_in_order:
  assumes "lane_inv l"
  shows "\<exists>g' l'. lane_runs k (g, l) = Some (g', l') \<and> lane_inv l' \<and>
     finished_chains g' @ map (\<lambda>n. int (nd_c_id n)) (in_flight l') =
       finished_chains g @ map (\<lambda>n. int (nd_c_id n)) (in_flight l)"
  using assms by (rule lane_runs_ok)


definition example_lane :: "nat \<Rightarrow> lane" where
  "example_lane mode = (lane_new
     [''FETCH_DELAY'' \<mapsto> 2, ''DECODE_DELAY'' \<mapsto> 2, ''L1_MISS_LATENCY'' \<mapsto> 1,
      ''L2_MISS_LATENCY'' \<mapsto> 25, ''L3_MISS_LATENCY'' \<mapsto> 100] 0 mode 300)
     \<lparr>instruction_queue :=
       [\<lparr>nd_c_id = 6, nd_old_id = 1, nd_new_id = 1, nd_name = 1, nd_type = ''FMul'', nd_latency = 5\<rparr>,
        \<lparr>nd_c_id = 6, nd_old_id = 2, nd_new_id = 2, nd_name = 2, nd_type = ''Add'', nd_latency = 2\<rparr>]\<rparr>"

definition no_globals :: lane_globals where
  "no_globals = \<lparr>finished_chains = [], mem_req_queue = []\<rparr>"

lemma example_lane_ok: "lane_inv (example_lane m)" "m < 3 \<Longrightarrow> timed (example_lane m)"
  by (simp_all add: example_lane_def lane_new_def lane_inv_def lane_params_ok_def timed_def)

theorem lane_in_order_witness:
  "lane_inv (example_lane 3) \<and> (\<exists>g' l'. lane_runs 20 (no_globals, example_lane 3) = Some (g', l') \<and>
     finished_chains g' @ map (\<lambda>n. int (nd_c_id n)) (in_flight l') = [6, 6])"
  using lane_in_order [OF example_lane_ok(1), of 20 no_globals 3] example_lane_ok(1)
  by (auto simp: no_globals_def example_lane_def lane_new_def in_flight_def)


text \<open>A lane can call itself free while it still holds an instruction: \<^verbatim>\<open>is_free()\<close> does not
  look at the fetch stage, and after ten cycles on a chain of an \<^verbatim>\<open>FMul\<close> and an \<^verbatim>\<open>Add\<close> (latencies of
  \<^verbatim>\<open>def/Instruction.def\<close>) the lane is free although the \<^verbatim>\<open>Add\<close> has not been executed.\<close>

lemma lane_free_too_early:
  "\<exists>g l. lane_runs 10 (no_globals, example_lane 0) = Some (g, l) \<and> lane_is_free l \<and>
     map nd_type (in_flight l) = [''Add''] \<and> finished_chains g = [6]"
proof -
  have "(case lane_runs 10 (no_globals, example_lane 0) of None \<Rightarrow> False
     | Some (g, l) \<Rightarrow> lane_is_free l \<and> map nd_type (in_flight l) = [''Add''] \<and> finished_chains g = [6])"
    by code_simp
  then show ?thesis by (auto split: option.splits)
qed

end
