(* ===== verification/O3_Interface.thy ===== *)
theory O3_Interface
  imports Event_Queue
begin

text \<open>
  The port between the accelerator and the Ruby memory system:
  \<^verbatim>\<open>ruby_clean/interfaces/O3simInterface.C\<close> and \<^verbatim>\<open>.h\<close>, and the forwarding class
  \<^verbatim>\<open>ruby_clean/O3sim_ruby/O3sim_ruby.C\<close>. Requests go to the sequencer of a processor and
  completions come back through one callback queue per processor. The sequencers, the coherence
  controllers generated from the protocol and the interconnect behind them are the parameter
  \<open>sequencer_port\<close>: whether a request can be accepted, the effect of making it, and the effect of
  one \<^verbatim>\<open>triggerEvents\<close> step, the last two with the completions they report.
\<close>

type_synonym addr = "64 word"

datatype access_mode_type = SupervisorMode | UserMode
datatype opal_memop = OPAL_LOAD | OPAL_STORE | OPAL_IFETCH | OPAL_ATOMIC | OPAL_OTHER nat

record cache_msg =
  cm_Address :: addr
  cm_Type :: cache_request_type
  cm_PC :: addr
  cm_AccessMode :: access_mode_type
  cm_Size :: nat
  cm_Prefetch :: bool
  cm_LogicalAddress :: addr
  cm_ThreadID :: nat

record 's sequencer_port =
  seq_isReady :: "'s \<Rightarrow> nat \<Rightarrow> cache_msg \<Rightarrow> bool"
  seq_makeRequest :: "'s \<Rightarrow> nat \<Rightarrow> cache_msg \<Rightarrow> 's \<times> (nat \<times> addr) list"
  seq_advance :: "'s \<Rightarrow> 's \<times> (nat \<times> addr) list"

record 's o3_interface =
  m_callback_queue :: "addr list list"
  o3_system :: 's

definition o3_new :: "nat \<Rightarrow> 's \<Rightarrow> 's o3_interface" where
  "o3_new NUM_PROCESSORS s = \<lparr>m_callback_queue = replicate NUM_PROCESSORS [], o3_system = s\<rparr>"

definition get_opal_request_type :: "cache_request_type \<Rightarrow> opal_memop option" where
  "get_opal_request_type type =
     (if type = RT_LD then Some OPAL_LOAD
      else if type = RT_ST then Some OPAL_STORE
      else if type = RT_IFETCH then Some OPAL_IFETCH
      else if type = RT_ATOMIC then Some OPAL_ATOMIC
      else None)"

definition get_request_type :: "opal_memop \<Rightarrow> cache_request_type option" where
  "get_request_type opaltype =
     (if opaltype = OPAL_LOAD then Some RT_LD
      else if opaltype = OPAL_STORE then Some RT_ST
      else if opaltype = OPAL_IFETCH then Some RT_IFETCH
      else if opaltype = OPAL_ATOMIC then Some RT_ATOMIC
      else None)"

definition hitCallback :: "nat \<Rightarrow> addr \<Rightarrow> 's o3_interface \<Rightarrow> 's o3_interface option" where
  "hitCallback proc a i = do {
     check (proc < length (m_callback_queue i));
     Some (i\<lparr>m_callback_queue := (m_callback_queue i)[proc := m_callback_queue i ! proc @ [a]]\<rparr>) }"

fun hitCallbacks :: "(nat \<times> addr) list \<Rightarrow> 's o3_interface \<Rightarrow> 's o3_interface option" where
  "hitCallbacks [] i = Some i"
| "hitCallbacks ((p, a) # cs) i = do { i' \<leftarrow> hitCallback p a i; hitCallbacks cs i' }"

definition o3_advanceTime :: "'s sequencer_port \<Rightarrow> 's o3_interface \<Rightarrow> 's o3_interface option" where
  "o3_advanceTime P i =
     (let (s', cbs) = seq_advance P (o3_system i) in hitCallbacks cbs (i\<lparr>o3_system := s'\<rparr>))"

definition o3_makeRequest ::
  "'s sequencer_port \<Rightarrow> addr \<Rightarrow> nat \<Rightarrow> nat \<Rightarrow> nat \<Rightarrow> bool \<Rightarrow> bool \<Rightarrow> 's o3_interface \<Rightarrow> 's o3_interface option"
where
  "o3_makeRequest P a req_size sid tid is_write isPriv i =
     (let msg = \<lparr>cm_Address = a, cm_Type = (if is_write then RT_ST else RT_LD), cm_PC = 0,
                 cm_AccessMode = (if isPriv then SupervisorMode else UserMode),
                 cm_Size = req_size, cm_Prefetch = False, cm_LogicalAddress = a, cm_ThreadID = tid\<rparr>;
          (s', cbs) = seq_makeRequest P (o3_system i) sid msg
      in hitCallbacks cbs (i\<lparr>o3_system := s'\<rparr>))"

definition o3_makePrefetch ::
  "'s sequencer_port \<Rightarrow> nat \<Rightarrow> addr \<Rightarrow> addr \<Rightarrow> nat \<Rightarrow> opal_memop \<Rightarrow> addr \<Rightarrow> bool \<Rightarrow> nat \<Rightarrow>
   's o3_interface \<Rightarrow> 's o3_interface option"
where
  "o3_makePrefetch P cpuNumber logicalAddr physicalAddr requestSize typeOfRequest virtualPC isPriv thread i = do {
     t \<leftarrow> get_request_type typeOfRequest;
     let msg = \<lparr>cm_Address = physicalAddr, cm_Type = t, cm_PC = virtualPC,
                cm_AccessMode = (if isPriv then SupervisorMode else UserMode),
                cm_Size = requestSize, cm_Prefetch = True, cm_LogicalAddress = logicalAddr,
                cm_ThreadID = thread\<rparr>;
     let (s', cbs) = seq_makeRequest P (o3_system i) cpuNumber msg;
     hitCallbacks cbs (i\<lparr>o3_system := s'\<rparr>) }"

definition o3_isReady ::
  "'s sequencer_port \<Rightarrow> addr \<Rightarrow> nat \<Rightarrow> nat \<Rightarrow> nat \<Rightarrow> bool \<Rightarrow> 's o3_interface \<Rightarrow> bool" where
  "o3_isReady P a req_size sid tid is_write i =
     seq_isReady P (o3_system i) sid
       \<lparr>cm_Address = a, cm_Type = (if is_write then RT_ST else RT_LD), cm_PC = 0,
        cm_AccessMode = UserMode, cm_Size = req_size, cm_Prefetch = False, cm_LogicalAddress = a,
        cm_ThreadID = tid\<rparr>"

definition RubyQueueEmpty :: "nat \<Rightarrow> 's o3_interface \<Rightarrow> bool option" where
  "RubyQueueEmpty core_id i = do {
     check (core_id < length (m_callback_queue i));
     Some (m_callback_queue i ! core_id = []) }"

definition RubyQueueTop :: "nat \<Rightarrow> 's o3_interface \<Rightarrow> addr option" where
  "RubyQueueTop core_id i = do {
     check (core_id < length (m_callback_queue i));
     check (m_callback_queue i ! core_id \<noteq> []);
     Some (hd (m_callback_queue i ! core_id)) }"

definition RubyQueuePop :: "nat \<Rightarrow> 's o3_interface \<Rightarrow> 's o3_interface option" where
  "RubyQueuePop core_id i = do {
     check (core_id < length (m_callback_queue i));
     check (m_callback_queue i ! core_id \<noteq> []);
     Some (i\<lparr>m_callback_queue := (m_callback_queue i)[core_id := tl (m_callback_queue i ! core_id)]\<rparr>) }"

text \<open>The forwarding methods of \<^verbatim>\<open>O3sim_ruby\<close>.\<close>

definition send_request ::
  "'s sequencer_port \<Rightarrow> addr \<Rightarrow> nat \<Rightarrow> nat \<Rightarrow> nat \<Rightarrow> bool \<Rightarrow> bool \<Rightarrow> 's o3_interface \<Rightarrow> 's o3_interface option" where
  "send_request = o3_makeRequest"

definition advance_time :: "'s sequencer_port \<Rightarrow> 's o3_interface \<Rightarrow> 's o3_interface option" where
  "advance_time = o3_advanceTime"

definition ruby_isReady ::
  "'s sequencer_port \<Rightarrow> addr \<Rightarrow> nat \<Rightarrow> nat \<Rightarrow> nat \<Rightarrow> bool \<Rightarrow> bool \<Rightarrow> 's o3_interface \<Rightarrow> bool" where
  "ruby_isReady P a req_size sid tid is_write isPriv i = o3_isReady P a req_size sid tid is_write i"

subsection \<open>The callback queues are first-in first-out\<close>

definition callbacks_for :: "nat \<Rightarrow> (nat \<times> addr) list \<Rightarrow> addr list" where
  "callbacks_for p cs = map snd (filter (\<lambda>c. fst c = p) cs)"

lemma get_request_type_roundtrip:
  "get_opal_request_type t = Some op \<Longrightarrow> get_request_type op = Some t"
  by (auto simp: get_opal_request_type_def get_request_type_def split: if_splits)

lemma hitCallbacks_ok:
  assumes "\<forall>(p, a) \<in> set cs. p < length (m_callback_queue i)"
  shows "\<exists>i'. hitCallbacks cs i = Some i' \<and> o3_system i' = o3_system i \<and>
     length (m_callback_queue i') = length (m_callback_queue i) \<and>
     (\<forall>p < length (m_callback_queue i).
        m_callback_queue i' ! p = m_callback_queue i ! p @ callbacks_for p cs)"
  using assms
proof (induction cs arbitrary: i)
  case Nil
  then show ?case by (simp add: callbacks_for_def)
next
  case (Cons c cs)
  obtain p a where c: "c = (p, a)" by (cases c)
  let ?i = "i\<lparr>m_callback_queue := (m_callback_queue i)[p := m_callback_queue i ! p @ [a]]\<rparr>"
  have "\<forall>(p, a) \<in> set cs. p < length (m_callback_queue ?i)" using Cons.prems by auto
  from Cons.IH [OF this] obtain i' where "hitCallbacks cs ?i = Some i'"
    "o3_system i' = o3_system i" "length (m_callback_queue i') = length (m_callback_queue i)"
    "\<forall>r < length (m_callback_queue i). m_callback_queue i' ! r = m_callback_queue ?i ! r @ callbacks_for r cs"
    by auto
  then show ?case using Cons.prems c
    by (auto simp: hitCallback_def check_bind callbacks_for_def nth_list_update)
qed

lemma RubyQueuePop_shorter:
  assumes "RubyQueuePop c i = Some i'"
  shows "length (m_callback_queue i' ! c) < length (m_callback_queue i ! c)"
  using assms by (auto simp: RubyQueuePop_def check_bind split: if_splits)

end
