(* ===== verification/Cs_Memory.thy ===== *)
theory Cs_Memory
  imports O3_Interface
begin

text \<open>
  The load/store unit of the accelerator: \<^verbatim>\<open>include/Memory.hpp\<close> and \<^verbatim>\<open>src/Memory.cpp\<close>.
  \<open>memaddr_map\<close> gives the address of a memory instruction in an iteration, \<open>ldst_addr_buffer\<close>
  holds the requests waiting or in flight, \<open>mem_req_stack\<close> counts the free request slots.
  Addresses are 64-bit words.
\<close>

unbundle bit_operations_syntax

record MemValue =
  mv_isWrite :: bool
  mv_addr :: addr

record MemValue_t =
  mt_isWrite :: bool
  mt_nodeid :: nat
  mt_vaddr :: addr
  mt_is_issue :: bool

definition MemValue_t_eq :: "MemValue_t \<Rightarrow> MemValue_t \<Rightarrow> bool" where
  "MemValue_t_eq a b \<longleftrightarrow>
     mt_isWrite b = mt_isWrite a \<and> mt_nodeid b = mt_nodeid a \<and> mt_vaddr b = mt_vaddr a"

record 's memory =
  m_ruby :: "'s o3_interface"
  memaddr_map :: "nat \<times> nat \<Rightarrow> MemValue option"
  ldst_addr_buffer :: "MemValue_t list"
  mem_req_stack :: int
  m_mem_mshr_stack :: nat
  m_core_id :: nat
  m_thread_id :: nat

definition MEM_MSHR_SIZE :: nat where "MEM_MSHR_SIZE = 10"

definition memory_initialize :: "'s memory \<Rightarrow> 's memory" where
  "memory_initialize m = m\<lparr>m_mem_mshr_stack := MEM_MSHR_SIZE, mem_req_stack := int MEM_MSHR_SIZE,
     ldst_addr_buffer := []\<rparr>"

definition memory_new :: "'s o3_interface \<Rightarrow> 's memory" where
  "memory_new ruby = memory_initialize
     \<lparr>m_ruby = ruby, memaddr_map = Map.empty, ldst_addr_buffer = [], mem_req_stack = 0,
      m_mem_mshr_stack = MEM_MSHR_SIZE, m_core_id = 0, m_thread_id = 0\<rparr>"

definition base_addr :: "addr \<Rightarrow> addr" where
  "base_addr a = a AND NOT 63"

definition line_size :: nat where "line_size = 64"

definition fill_global_memaddr_map :: "nat \<Rightarrow> nat \<Rightarrow> MemValue \<Rightarrow> 's memory \<Rightarrow> 's memory" where
  "fill_global_memaddr_map iter nodeid v m = m\<lparr>memaddr_map := (memaddr_map m)((iter, nodeid) \<mapsto> v)\<rparr>"

definition send_req :: "nat \<Rightarrow> nat \<Rightarrow> 's memory \<Rightarrow> 's memory option" where
  "send_req iter nodeid m =
     (case memaddr_map m (iter, nodeid) of
        Some v \<Rightarrow> Some (m\<lparr>ldst_addr_buffer := ldst_addr_buffer m @
           [\<lparr>mt_isWrite = mv_isWrite v, mt_nodeid = nodeid, mt_vaddr = mv_addr v, mt_is_issue = False\<rparr>]\<rparr>)
      | None \<Rightarrow> None)"

text \<open>The loop of \<^verbatim>\<open>access\<close>: the position of the first request that the port would accept and
  that has not been issued.\<close>

definition can_issue :: "'s sequencer_port \<Rightarrow> 's memory \<Rightarrow> MemValue_t \<Rightarrow> bool" where
  "can_issue P m v \<longleftrightarrow>
     ruby_isReady P (base_addr (mt_vaddr v)) line_size (m_core_id m) (m_thread_id m) False False (m_ruby m)
     \<and> \<not> mt_is_issue v"

fun access_loop :: "'s sequencer_port \<Rightarrow> 's memory \<Rightarrow> MemValue_t list \<Rightarrow> MemValue_t list \<Rightarrow> (bool \<times> 's memory) option"
where
  "access_loop P m pre [] = Some (False, m)"
| "access_loop P m pre (v # vs) =
     (if can_issue P m v then do {
        let m1 = m\<lparr>ldst_addr_buffer := pre @ v\<lparr>mt_is_issue := True\<rparr> # vs, mem_req_stack := mem_req_stack m - 1\<rparr>;
        r \<leftarrow> send_request P (base_addr (mt_vaddr v)) line_size (m_core_id m) (m_thread_id m)
               (mt_isWrite v) False (m_ruby m1);
        Some (True, m1\<lparr>m_ruby := r\<rparr>) }
      else access_loop P m (pre @ [v]) vs)"

definition access :: "'s sequencer_port \<Rightarrow> 's memory \<Rightarrow> (bool \<times> 's memory) option" where
  "access P m =
     (if ldst_addr_buffer m \<noteq> [] \<and> mem_req_stack m \<noteq> 0
      then access_loop P m [] (ldst_addr_buffer m) else Some (False, m))"

definition search_req :: "addr \<Rightarrow> addr \<Rightarrow> MemValue_t list \<Rightarrow> MemValue_t option" where
  "search_req a n buf = find (\<lambda>v. a \<le> mt_vaddr v \<and> mt_vaddr v < a + n) buf"

function process_mshr_loop :: "'s memory \<Rightarrow> nat list \<Rightarrow> (nat list \<times> 's memory) option" where
  "process_mshr_loop m acc =
     (case RubyQueueEmpty (m_core_id m) (m_ruby m) of
        None \<Rightarrow> None
      | Some True \<Rightarrow> Some (acc, m)
      | Some False \<Rightarrow>
         (case RubyQueueTop (m_core_id m) (m_ruby m) of
            None \<Rightarrow> None
          | Some a \<Rightarrow>
             (case search_req a (of_nat line_size) (ldst_addr_buffer m) of
                None \<Rightarrow> None
              | Some req \<Rightarrow>
                 (case RubyQueuePop (m_core_id m) (m_ruby m) of
                    None \<Rightarrow> None
                  | Some r \<Rightarrow>
                      process_mshr_loop
                        (m\<lparr>mem_req_stack := mem_req_stack m + 1,
                           ldst_addr_buffer := filter (\<lambda>v. \<not> MemValue_t_eq v req) (ldst_addr_buffer m),
                           m_ruby := r\<rparr>)
                        (acc @ [mt_nodeid req])))))"
  by pat_completeness auto
termination
  by (relation "measure (\<lambda>(m, acc). length (m_callback_queue (m_ruby m) ! m_core_id m))")
    (auto dest: RubyQueuePop_shorter)

definition process_mshr :: "'s memory \<Rightarrow> (nat list \<times> 's memory) option" where
  "process_mshr m = process_mshr_loop m []"

definition recv_resp :: "'s sequencer_port \<Rightarrow> 's memory \<Rightarrow> (nat list \<times> 's memory) option" where
  "recv_resp P m = do {
     (b, m') \<leftarrow> access P m;
     process_mshr m' }"

declare process_mshr_loop.simps [simp del]

subsection \<open>Cache lines\<close>

lemma base_addr_shift: "base_addr a = push_bit 6 (drop_bit 6 a)"
proof -
  have "(63 :: addr) = mask 6" by (simp add: mask_eq_exp_minus_1)
  then have "base_addr a = a AND NOT (mask 6)" by (simp only: base_addr_def)
  also have "\<dots> = push_bit 6 (drop_bit 6 a)" by (intro bit_word_eqI) (auto simp: bit_simps)
  finally show ?thesis .
qed

lemma base_addr_uint: "uint (base_addr a) = 64 * (uint a div 64)"
proof -
  have "base_addr a + take_bit 6 a = a"
    unfolding base_addr_shift by (rule bits_ident)
  then have "base_addr a = a - take_bit 6 a" by (simp add: eq_diff_eq)
  moreover have t: "uint (take_bit 6 a) = uint a mod 64"
    by (simp add: unsigned_take_bit_eq take_bit_eq_mod [of 6 "uint a"] del: take_bit_numeral_minus_numeral_int)
  moreover have "take_bit 6 a \<le> a"
    unfolding word_le_def t by (intro zmod_le_nonneg_dividend) simp
  ultimately have "uint (base_addr a) = uint a - uint a mod 64"
    by (simp add: uint_minus_simple_alt)
  then show ?thesis by (simp add: minus_mod_eq_mult_div)
qed

text \<open>The test of \<^verbatim>\<open>search_req\<close> recognises the accesses of one cache line, except in the last
  line of the address space, where \<^verbatim>\<open>addr+size\<close> wraps to 0.\<close>

lemma in_line_iff:
  assumes "a + 64 \<noteq> 0" and "base_addr a = a"
  shows "a \<le> v \<and> v < a + 64 \<longleftrightarrow> base_addr v = a"
proof -
  obtain k where al: "uint a = 64 * k" using base_addr_uint [of a] assms(2) by metis
  have lt: "uint a < 2 ^ 64" using uint_bounded [of a] by simp
  have ne: "uint a + 64 \<noteq> 2 ^ 64"
  proof
    assume "uint a + 64 = 2 ^ 64"
    then have "uint (a + 64) = 0" by (simp add: uint_word_ariths)
    with assms(1) show False by (simp add: unsigned_eq_0_iff)
  qed
  have "k < 288230376151711744" "k \<noteq> 288230376151711743" using lt ne al by simp_all
  then have nw: "uint a + 64 < 2 ^ 64" using al by simp
  then have "uint (a + 64) = uint a + 64" by (simp add: uint_word_ariths)
  then have "(a \<le> v \<and> v < a + 64) \<longleftrightarrow> (uint a \<le> uint v \<and> uint v < uint a + 64)"
    by (simp add: word_le_def word_less_def)
  also have "\<dots> \<longleftrightarrow> 64 * (uint v div 64) = uint a"
    unfolding al by auto
  also have "\<dots> \<longleftrightarrow> base_addr v = a" by (simp add: base_addr_uint word_uint_eq_iff)
  finally show ?thesis .
qed

lemma search_req_line:
  assumes "a + 64 \<noteq> 0" and "base_addr a = a"
  shows "search_req a (of_nat line_size) buf = find (\<lambda>v. base_addr (mt_vaddr v) = a) buf"
  by (simp add: search_req_def line_size_def in_line_iff [OF assms])

subsection \<open>Issuing a request\<close>

lemma send_request_ok:
  assumes "\<And>s sid msg. \<forall>(p, a) \<in> set (snd (seq_makeRequest P s sid msg)). p < length (m_callback_queue i)"
  shows "\<exists>i'. send_request P a n c t w pr i = Some i'"
proof -
  let ?msg = "\<lparr>cm_Address = a, cm_Type = (if w then RT_ST else RT_LD), cm_PC = 0,
    cm_AccessMode = (if pr then SupervisorMode else UserMode),
    cm_Size = n, cm_Prefetch = False, cm_LogicalAddress = a, cm_ThreadID = t\<rparr>"
  obtain s' cbs where r: "seq_makeRequest P (o3_system i) c ?msg = (s', cbs)" by fastforce
  have "\<forall>(p, a) \<in> set cbs. p < length (m_callback_queue (i\<lparr>o3_system := s'\<rparr>))"
    using assms [of "o3_system i" c ?msg] r by simp
  from hitCallbacks_ok [OF this] show ?thesis
    using r by (auto simp: send_request_def o3_makeRequest_def Let_def)
qed

lemma access_loop_ok:
  assumes "\<And>s sid msg. \<forall>(p, a) \<in> set (snd (seq_makeRequest P s sid msg)). p < length (m_callback_queue (m_ruby m))"
  shows "(\<forall>v \<in> set vs. \<not> can_issue P m v) \<and> access_loop P m pre vs = Some (False, m) \<or>
    (\<exists>us v ws r. vs = us @ v # ws \<and> (\<forall>u \<in> set us. \<not> can_issue P m u) \<and> can_issue P m v \<and>
       access_loop P m pre vs = Some (True, m\<lparr>ldst_addr_buffer := pre @ us @ v\<lparr>mt_is_issue := True\<rparr> # ws,
         mem_req_stack := mem_req_stack m - 1, m_ruby := r\<rparr>) \<and>
       send_request P (base_addr (mt_vaddr v)) line_size (m_core_id m) (m_thread_id m) (mt_isWrite v) False
         (m_ruby m) = Some r)"
proof (induction vs arbitrary: pre)
  case Nil
  show ?case by simp
next
  case (Cons v vs)
  show ?case
  proof (cases "can_issue P m v")
    case True
    obtain r where "send_request P (base_addr (mt_vaddr v)) line_size (m_core_id m) (m_thread_id m)
        (mt_isWrite v) False (m_ruby m) = Some r"
      using send_request_ok [OF assms] by blast
    with True show ?thesis
      by (intro disjI2 exI [of _ "[]"] exI [of _ v] exI [of _ vs] exI [of _ r]) (simp add: Let_def)
  next
    case False
    from Cons.IH [of "pre @ [v]"] show ?thesis
    proof (elim disjE exE conjE)
      fix us w ws r
      assume "vs = us @ w # ws" "\<forall>u \<in> set us. \<not> can_issue P m u" "can_issue P m w"
        "access_loop P m (pre @ [v]) vs = Some (True, m\<lparr>ldst_addr_buffer := (pre @ [v]) @ us @ w\<lparr>mt_is_issue := True\<rparr> # ws,
         mem_req_stack := mem_req_stack m - 1, m_ruby := r\<rparr>)"
        "send_request P (base_addr (mt_vaddr w)) line_size (m_core_id m) (m_thread_id m) (mt_isWrite w) False
         (m_ruby m) = Some r"
      then show ?thesis using False
        by (intro disjI2 exI [of _ "v # us"] exI [of _ w] exI [of _ ws] exI [of _ r]) simp
    qed (use False in simp)
  qed
qed

definition idle_port :: "unit sequencer_port" where
  "idle_port = \<lparr>seq_isReady = (\<lambda>s p m. True), seq_makeRequest = (\<lambda>s p m. (s, [])), seq_advance = (\<lambda>s. (s, []))\<rparr>"

definition sample_memory :: "unit memory" where
  "sample_memory = (memory_new \<lparr>m_callback_queue = [[64, 0, 64]], o3_system = ()\<rparr>)\<lparr>
     ldst_addr_buffer :=
       [\<lparr>mt_isWrite = False, mt_nodeid = 5, mt_vaddr = 8, mt_is_issue = True\<rparr>,
        \<lparr>mt_isWrite = True, mt_nodeid = 6, mt_vaddr = 72, mt_is_issue = True\<rparr>,
        \<lparr>mt_isWrite = False, mt_nodeid = 7, mt_vaddr = 64, mt_is_issue = True\<rparr>,
        \<lparr>mt_isWrite = False, mt_nodeid = 8, mt_vaddr = 136, mt_is_issue = False\<rparr>]\<rparr>"

text \<open>One call of \<^verbatim>\<open>Memory::access\<close>: when a slot is free it marks the first buffered
  request that is not yet issued and that the port accepts, takes one slot, and sends the request
  for its cache line; otherwise it changes nothing.  It never aborts when the memory system calls
  back only existing cores.\<close>

lemma access_issues_first_ready:
  assumes "\<And>s sid msg. \<forall>(p, a) \<in> set (snd (seq_makeRequest P s sid msg)). p < length (m_callback_queue (m_ruby m))"
  shows "(access P m = Some (False, m) \<and>
       (mem_req_stack m = 0 \<or> (\<forall>v \<in> set (ldst_addr_buffer m). \<not> can_issue P m v))) \<or>
    (mem_req_stack m \<noteq> 0 \<and>
      (\<exists>us v ws r. ldst_addr_buffer m = us @ v # ws \<and> (\<forall>u \<in> set us. \<not> can_issue P m u) \<and> can_issue P m v \<and>
       access P m = Some (True, m\<lparr>ldst_addr_buffer := us @ v\<lparr>mt_is_issue := True\<rparr> # ws,
         mem_req_stack := mem_req_stack m - 1, m_ruby := r\<rparr>) \<and>
       send_request P (base_addr (mt_vaddr v)) line_size (m_core_id m) (m_thread_id m) (mt_isWrite v) False
         (m_ruby m) = Some r))"
  using access_loop_ok [OF assms, of "ldst_addr_buffer m" "[]"]
  by (cases "ldst_addr_buffer m = [] \<or> mem_req_stack m = 0") (auto simp: access_def)

subsection \<open>Collecting the responses\<close>

definition request_key :: "MemValue_t \<Rightarrow> bool \<times> nat \<times> addr" where
  "request_key v = (mt_isWrite v, mt_nodeid v, mt_vaddr v)"

abbreviation line_of :: "MemValue_t \<Rightarrow> addr" where
  "line_of v \<equiv> base_addr (mt_vaddr v)"

abbreviation responses :: "'s memory \<Rightarrow> addr list" where
  "responses m \<equiv> m_callback_queue (m_ruby m) ! m_core_id m"

lemma remove_request:
  assumes "distinct (map request_key buf)" and "v \<in> set buf"
  shows "mset (filter (\<lambda>u. \<not> MemValue_t_eq u v) buf) + {#v#} = mset buf"
  using assms
proof (induction buf)
  case (Cons u buf)
  have e: "MemValue_t_eq w v \<longleftrightarrow> request_key w = request_key v" for w
    by (auto simp: MemValue_t_eq_def request_key_def)
  show ?case
  proof (cases "v = u")
    case True
    with Cons.prems have "filter (\<lambda>w. \<not> MemValue_t_eq w v) buf = buf"
      by (auto simp: filter_id_conv e [unfolded True]) (metis image_eqI)
    with True show ?thesis by (simp add: MemValue_t_eq_def)
  next
    case False
    with Cons.prems have "v \<in> set buf" "\<not> MemValue_t_eq u v" by (auto simp: e image_iff)
    with Cons show ?thesis by simp
  qed
qed simp

lemma process_mshr_loop_ok:
  assumes "responses m = q" "m_core_id m < length (m_callback_queue (m_ruby m))"
    and "\<forall>a \<in> set q. a + 64 \<noteq> 0 \<and> base_addr a = a"
    and "distinct (map request_key (ldst_addr_buffer m))"
    and "\<forall>a. count_list q a \<le> length (filter (\<lambda>v. line_of v = a) (ldst_addr_buffer m))"
  shows "\<exists>served m'. process_mshr_loop m acc = Some (acc @ map mt_nodeid served, m') \<and>
    map line_of served = q \<and> responses m' = [] \<and>
    mem_req_stack m' = mem_req_stack m + int (length q) \<and>
    mset (ldst_addr_buffer m) = mset served + mset (ldst_addr_buffer m')"
  using assms
proof (induction q arbitrary: m acc)
  case Nil
  then show ?case
    by (intro exI [of _ "[]"] exI [of _ m])
      (simp add: process_mshr_loop.simps [of m] RubyQueueEmpty_def check_bind)
next
  case (Cons a q)
  let ?buf = "ldst_addr_buffer m" and ?r = "m_ruby m"
  have "0 < length (filter (\<lambda>v. line_of v = a) ?buf)"
    using Cons.prems(5) [rule_format, of a] by (simp del: length_greater_0_conv)
  then obtain v where v: "find (\<lambda>v. line_of v = a) ?buf = Some v"
    by (cases "find (\<lambda>v. line_of v = a) ?buf") (auto simp: find_None_iff filter_empty_conv)
  then have vin: "v \<in> set ?buf" and vl: "line_of v = a" by (auto simp: find_Some_iff)
  let ?buf' = "filter (\<lambda>u. \<not> MemValue_t_eq u v) ?buf"
  let ?r' = "?r\<lparr>m_callback_queue := (m_callback_queue ?r)[m_core_id m := q]\<rparr>"
  let ?m' = "m\<lparr>mem_req_stack := mem_req_stack m + 1, ldst_addr_buffer := ?buf', m_ruby := ?r'\<rparr>"
  have buf': "mset ?buf' + {#v#} = mset ?buf" by (rule remove_request [OF Cons.prems(4) vin])
  have step: "process_mshr_loop m acc = process_mshr_loop ?m' (acc @ [mt_nodeid v])"
    using Cons.prems(1-3) v search_req_line [of a ?buf]
    by (simp add: process_mshr_loop.simps [of m] RubyQueueEmpty_def RubyQueueTop_def RubyQueuePop_def check_bind)
  have cnt: "count_list q b \<le> length (filter (\<lambda>v. line_of v = b) ?buf')" for b
  proof -
    have "length (filter (\<lambda>v. line_of v = b) ?buf) = size (filter_mset (\<lambda>v. line_of v = b) (mset ?buf))"
      by (metis mset_filter size_mset)
    also have "\<dots> = length (filter (\<lambda>v. line_of v = b) ?buf') + (if b = a then 1 else 0)"
      unfolding buf' [symmetric] using vl by (auto simp flip: mset_filter)
    finally show ?thesis using Cons.prems(5) [rule_format, of b] by (auto split: if_splits)
  qed
  have "distinct (map request_key ?buf')"
    using Cons.prems(4) by (simp add: distinct_map_filter)
  with Cons.IH [of ?m' "acc @ [mt_nodeid v]"] Cons.prems(2,3) cnt
  obtain served m' where "process_mshr_loop ?m' (acc @ [mt_nodeid v]) = Some ((acc @ [mt_nodeid v]) @ map mt_nodeid served, m')"
    "map line_of served = q" "responses m' = []" "mem_req_stack m' = mem_req_stack m + 1 + int (length q)"
    "mset ?buf' = mset served + mset (ldst_addr_buffer m')"
    by auto
  then show ?case using step vl buf'
    by (intro exI [of _ "v # served"] exI [of _ m']) auto
qed

text \<open>C27. \<^verbatim>\<open>Memory::process_mshr\<close> consumes all responses of its core: every response completes one
  buffered request of the responding cache line, the completed nodes are reported in response
  order, one slot is given back per response and all other requests stay buffered.  It needs the
  buffered requests to be pairwise different, at least as many buffered requests for a line as
  responses for it, and responses that are line addresses below the last line.\<close>

theorem process_mshr_serves_responses:
  assumes "m_core_id m < length (m_callback_queue (m_ruby m))"
    and "\<forall>a \<in> set (responses m). a + 64 \<noteq> 0 \<and> base_addr a = a"
    and "distinct (map request_key (ldst_addr_buffer m))"
    and "\<forall>a. count_list (responses m) a \<le> length (filter (\<lambda>v. line_of v = a) (ldst_addr_buffer m))"
  shows "\<exists>served m'. process_mshr m = Some (map mt_nodeid served, m') \<and>
    map line_of served = responses m \<and> responses m' = [] \<and>
    mem_req_stack m' = mem_req_stack m + int (length (responses m)) \<and>
    mset (ldst_addr_buffer m) = mset served + mset (ldst_addr_buffer m')"
  using process_mshr_loop_ok [OF refl assms, of "[]"] by (simp add: process_mshr_def)

theorem process_mshr_serves_responses_witness:
  "\<exists>ids m'. process_mshr sample_memory = Some (ids, m') \<and> responses m' = [] \<and> mem_req_stack m' = 13"
proof -
  have b: "base_addr 64 = 64" "base_addr 0 = 0" "base_addr 8 = 0" "base_addr 72 = 64" "base_addr 136 = 128"
    by (simp_all add: base_addr_def)
  have q: "responses sample_memory = [64, 0, 64]" "mem_req_stack sample_memory = 10"
    "m_core_id sample_memory < length (m_callback_queue (m_ruby sample_memory))"
    by (simp_all add: sample_memory_def memory_new_def memory_initialize_def MEM_MSHR_SIZE_def)
  have k: "distinct (map request_key (ldst_addr_buffer sample_memory))"
    by (simp add: sample_memory_def request_key_def)
  have c: "\<forall>a. count_list (responses sample_memory) a
      \<le> length (filter (\<lambda>v. line_of v = a) (ldst_addr_buffer sample_memory))"
    using q(1) by (simp add: sample_memory_def b)
  show ?thesis
    using process_mshr_serves_responses [OF q(3) _ k c] q(1,2) by (force simp: b)
qed

text \<open>Two equal requests in flight: \<^verbatim>\<open>ldst_addr_buffer.remove\<close> deletes both on the first
  response, and the second response finds no request and aborts.\<close>

lemma process_mshr_equal_requests_abort:
  "process_mshr (sample_memory\<lparr>ldst_addr_buffer :=
     replicate 2 \<lparr>mt_isWrite = False, mt_nodeid = 5, mt_vaddr = 8, mt_is_issue = True\<rparr>,
     m_ruby := \<lparr>m_callback_queue = [[0, 0]], o3_system = ()\<rparr>\<rparr>) = None"
  by (simp add: process_mshr_def process_mshr_loop.simps sample_memory_def memory_new_def memory_initialize_def
      RubyQueueEmpty_def RubyQueueTop_def RubyQueuePop_def check_bind search_req_def line_size_def
      MemValue_t_eq_def numeral_2_eq_2)

end
