(* ===== verification/Std_Map.thy ===== *)
theory Std_Map
  imports Ruby_Prelude
begin

text \<open>
  \<^verbatim>\<open>std::map\<close> and \<^verbatim>\<open>std::set\<close> as the accelerator's sources use them: an ordered map is an
  association list with strictly increasing keys, an ordered set a strictly increasing list, so
  that iteration is in key order. \<open>om_upd\<close> is the access \<^verbatim>\<open>m[k]\<close> followed by a change of the
  value, with the default value for a key that is new; \<^verbatim>\<open>find\<close> is \<^const>\<open>map_of\<close>.
\<close>

named_theorems om_simps \<open>what the operations on ordered maps do to \<open>map_of\<close>\<close>

fun om_upd :: "'k :: linorder \<Rightarrow> ('v \<Rightarrow> 'v) \<Rightarrow> 'v \<Rightarrow> ('k \<times> 'v) list \<Rightarrow> ('k \<times> 'v) list" where
  "om_upd k f d [] = [(k, f d)]"
| "om_upd k f d ((k', v) # m) =
     (if k < k' then (k, f d) # (k', v) # m
      else if k = k' then (k', f v) # m
      else (k', v) # om_upd k f d m)"

abbreviation om_put :: "'k :: linorder \<Rightarrow> 'v \<Rightarrow> ('k \<times> 'v) list \<Rightarrow> ('k \<times> 'v) list" where
  "om_put k v \<equiv> om_upd k (\<lambda>_. v) v"

abbreviation om_push :: "'k :: linorder \<Rightarrow> 'v \<Rightarrow> ('k \<times> 'v list) list \<Rightarrow> ('k \<times> 'v list) list" where
  "om_push k v \<equiv> om_upd k (\<lambda>vs. vs @ [v]) []"

abbreviation om_insert :: "'k :: linorder \<Rightarrow> 'v :: linorder \<Rightarrow> ('k \<times> 'v list) list \<Rightarrow> ('k \<times> 'v list) list" where
  "om_insert k v \<equiv> om_upd k (insort_insert v) []"

abbreviation om_emplace :: "'k :: linorder \<Rightarrow> 'v \<Rightarrow> ('k \<times> 'v) list \<Rightarrow> ('k \<times> 'v) list" where
  "om_emplace k v \<equiv> om_upd k id v"

definition om_ok :: "('k :: linorder \<times> 'v) list \<Rightarrow> bool" where
  "om_ok m \<longleftrightarrow> sorted_wrt (<) (map fst m)"

lemma om_ok_Nil [simp]: "om_ok []"
  by (simp add: om_ok_def)

lemma om_upd_keys: "fst ` set (om_upd k f d m) = insert k (fst ` set m)"
  by (induction k f d m rule: om_upd.induct) (auto split: if_splits)

lemma om_ok_upd [simp]: "om_ok m \<Longrightarrow> om_ok (om_upd k f d m)"
proof (induction k f d m rule: om_upd.induct)
  case (2 k f d k' v m)
  then have m: "om_ok m" "\<forall>x \<in> fst ` set m. k' < x" by (auto simp: om_ok_def)
  consider "k < k'" | "k = k'" | "k' < k" by (rule linorder_cases)
  then show ?case
  proof cases
    case 3
    then have "om_ok (om_upd k f d m)" using 2 m(1) by auto
    then show ?thesis using 3 m(2) om_upd_keys [of k f d m] by (auto simp: om_ok_def)
  qed (use m in \<open>auto simp: om_ok_def intro: less_trans\<close>)
qed (simp add: om_ok_def)

lemma om_ok_distinct: "om_ok m \<Longrightarrow> distinct (map fst m)"
  by (simp add: om_ok_def strict_sorted_iff)

lemma om_upd_map_of [om_simps]:
  "om_ok m \<Longrightarrow> map_of (om_upd k f d m) =
     (map_of m)(k \<mapsto> f (case map_of m k of None \<Rightarrow> d | Some v \<Rightarrow> v))"
proof (induction k f d m rule: om_upd.induct)
  case (2 k f d k' v m)
  then have m: "om_ok m" "\<forall>x \<in> fst ` set m. k' < x" by (auto simp: om_ok_def)
  have "map_of m x = None" if "x < k'" for x
    using that m(2) by (auto simp: map_of_eq_None_iff)
  with 2 m(1) show ?case
    by (auto simp: fun_eq_iff split: option.splits)
qed auto

lemma om_ok_foldl: "om_ok m \<Longrightarrow> (\<And>m x. om_ok m \<Longrightarrow> om_ok (f m x)) \<Longrightarrow> om_ok (foldl f m xs)"
  by (induction xs arbitrary: m) auto

lemma map_of_in_set: "om_ok m \<Longrightarrow> map_of m k = Some v \<longleftrightarrow> (k, v) \<in> set m"
  by (auto dest: map_of_SomeD intro: map_of_is_SomeI om_ok_distinct)

lemma om_ok_eqI:
  assumes "om_ok m" "om_ok n" "map_of m = map_of n"
  shows "m = n"
proof -
  have "set m = set n" using assms map_of_in_set [of m] map_of_in_set [of n] by auto
  moreover have "sorted (map fst m)" "sorted (map fst n)" "distinct (map fst m)" "distinct (map fst n)"
    using assms(1,2) by (auto simp: om_ok_def strict_sorted_iff)
  ultimately show ?thesis by (metis map_sorted_distinct_set_unique distinct_map inj_on_Un sup.idem)
qed

subsection \<open>Grouping\<close>

text \<open>Pushing every pair of a list under its key groups the list: the vectors keep the order of
  the list, the ordered sets hold its values.\<close>

lemma om_push_group:
  assumes "om_ok m"
  shows "om_ok (foldl (\<lambda>m (k, v). om_push k v m) m ps) \<and>
    map_of (foldl (\<lambda>m (k, v). om_push k v m) m ps) k =
      (if k \<in> fst ` set ps then Some ((case map_of m k of None \<Rightarrow> [] | Some vs \<Rightarrow> vs) @ map snd (filter (\<lambda>p. fst p = k) ps))
       else map_of m k)"
  using assms
  by (induction ps arbitrary: m) (auto simp: om_simps image_iff filter_empty_conv split: option.splits prod.splits)

lemma insort_insert_strict: "sorted_wrt (<) xs \<Longrightarrow> sorted_wrt (<) (insort_insert x xs)"
  by (simp add: strict_sorted_iff sorted_insort_insert distinct_insort_insert)

lemma om_insert_group:
  assumes "om_ok m" "\<forall>vs \<in> ran (map_of m). sorted_wrt (<) vs"
  shows "om_ok (foldl (\<lambda>m (k, v). om_insert k v m) m ps) \<and>
    (\<forall>vs \<in> ran (map_of (foldl (\<lambda>m (k, v). om_insert k v m) m ps)). sorted_wrt (<) vs) \<and>
    map_of (foldl (\<lambda>m (k, v). om_insert k v m) m ps) k =
      (if k \<in> fst ` set ps
       then Some (sorted_list_of_set (set (case map_of m k of None \<Rightarrow> [] | Some vs \<Rightarrow> vs) \<union> {v. (k, v) \<in> set ps}))
       else map_of m k)"
  using assms
proof (induction ps arbitrary: m)
  case (Cons p ps)
  obtain k' v where p: "p = (k', v)" by (cases p)
  let ?m = "om_insert k' v m"
  have s: "sorted_wrt (<) (case map_of m k' of None \<Rightarrow> [] | Some vs \<Rightarrow> vs)"
    using Cons.prems(2) by (auto simp: ran_def split: option.splits)
  have ok: "om_ok ?m" "\<forall>vs \<in> ran (map_of ?m). sorted_wrt (<) vs"
    using Cons.prems insort_insert_strict [OF s] by (auto simp: om_simps ran_def split: if_splits)
  have set: "set (insort_insert v vs) = insert v (set vs)" for vs by (rule set_insort_insert)
  have "insort_insert v (case map_of m k' of None \<Rightarrow> [] | Some vs \<Rightarrow> vs) =
      sorted_list_of_set (insert v (set (case map_of m k' of None \<Rightarrow> [] | Some vs \<Rightarrow> vs)))"
    using insort_insert_strict [OF s, of v] set
    by (metis sorted_list_of_set_sort_remdups sorted_sort_id strict_sorted_iff distinct_remdups_id List.finite_set
        sorted_list_of_set.idem_if_sorted_distinct)
  note new = this and IH = Cons.IH [OF ok]
  have step: "map_of ?m k = (if k = k' then Some (sorted_list_of_set (insert v (set (case map_of m k' of None \<Rightarrow> [] | Some vs \<Rightarrow> vs))))
      else map_of m k)"
    using new Cons.prems(1) by (simp add: om_simps)
  have none: "{v. (k, v) \<in> set ps} = {}" if "k \<notin> fst ` set ps" using that by force
  have "map_of (foldl (\<lambda>m (k, v). om_insert k v m) m (p # ps)) k =
      (if k \<in> fst ` set ps
       then Some (sorted_list_of_set (set (case map_of ?m k of None \<Rightarrow> [] | Some vs \<Rightarrow> vs) \<union> {v. (k, v) \<in> set ps}))
       else map_of ?m k)"
    using IH p by simp
  also have "\<dots> = (if k \<in> fst ` set (p # ps)
       then Some (sorted_list_of_set (set (case map_of m k of None \<Rightarrow> [] | Some vs \<Rightarrow> vs) \<union> {w. (k, w) \<in> set (p # ps)}))
       else map_of m k)"
  proof (cases "k = k'")
    case True
    define old where "old = (case map_of m k' of None \<Rightarrow> [] | Some vs \<Rightarrow> vs)"
    have "insert v (set old) \<union> {v. (k, v) \<in> set ps} = set old \<union> {w. (k, w) \<in> set (p # ps)}"
      using True p by auto
    moreover have "set (sorted_list_of_set (insert v (set old))) = insert v (set old)" by (rule set_sorted_list_of_set) simp
    moreover have "insert v (set old) \<union> {v. (k, v) \<in> set ps} = insert v (set old)" if "k \<notin> fst ` set ps"
      using none [OF that] by simp
    ultimately show ?thesis
      unfolding step using True p
      by (cases "k \<in> fst ` set ps") (simp_all flip: old_def del: sorted_list_of_set_insert)
  qed (use p step in auto)
  finally show ?case using IH p by simp
qed auto

end
