(* ===== verification/Cs_Graph.thy ===== *)
theory Cs_Graph
  imports Std_Map
begin

text \<open>
  Data-flow graphs and chain graphs: the data of \<^verbatim>\<open>include/newGraph.hpp\<close> and the free functions
  of \<^verbatim>\<open>src/newGraph.cpp\<close> on them. A graph is a list of vertex properties with, for every vertex,
  the targets of its out-edges in the order of their insertion: what
  \<^verbatim>\<open>adjacency_list<listS, vecS, bidirectionalS>\<close> presents to its client. Vertices and chains are
  their numbers; the sources keep them in 32 and 64 bits, far above the sizes that fit in memory.
  Dereferencing the end iterator and indexing out of range, undefined in C++, are \<open>None\<close>.
\<close>

record vertex_prop =
  vp_name :: nat
  vp_label :: string
  vp_ch :: string
  vp_opcode :: string
  vp_color :: string
  vp_ir :: string

record vertex_prop_com =
  vc_name :: nat
  vc_id :: nat
  vc_ch :: nat
  vc_label :: string
  vc_opcode :: string
  vc_latency :: nat
  vc_level :: nat
  vc_color :: string
  vc_ir :: string

record 'p boost_graph =
  g_vertex :: "'p list"
  g_out :: "nat list list"

definition empty_graph :: "'p boost_graph" where
  "empty_graph = \<lparr>g_vertex = [], g_out = []\<rparr>"

definition num_vertices :: "'p boost_graph \<Rightarrow> nat" where
  "num_vertices G = length (g_vertex G)"

definition add_vertex :: "'p \<Rightarrow> 'p boost_graph \<Rightarrow> 'p boost_graph" where
  "add_vertex p G = \<lparr>g_vertex = g_vertex G @ [p], g_out = g_out G @ [[]]\<rparr>"

text \<open>The program adds edges between existing vertices only; for a descriptor beyond the last vertex,
  where Boost enlarges the graph, the model fails.\<close>

definition add_edge :: "nat \<Rightarrow> nat \<Rightarrow> 'p boost_graph \<Rightarrow> 'p boost_graph option" where
  "add_edge u v G = do {
     check (u < num_vertices G \<and> v < num_vertices G);
     Some (G\<lparr>g_out := (g_out G)[u := g_out G ! u @ [v]]\<rparr>) }"

definition out_edges :: "nat \<Rightarrow> 'p boost_graph \<Rightarrow> nat list option" where
  "out_edges v G = do { check (v < length (g_out G)); Some (g_out G ! v) }"

definition in_sources :: "nat \<Rightarrow> 'p boost_graph \<Rightarrow> nat list" where
  "in_sources v G = concat (map (\<lambda>u. map (\<lambda>_. u) (filter (\<lambda>t. t = v) (g_out G ! u))) [0..<length (g_out G)])"

definition in_degree :: "nat \<Rightarrow> 'p boost_graph \<Rightarrow> nat" where
  "in_degree v G = length (in_sources v G)"

definition graph_ok :: "'p boost_graph \<Rightarrow> bool" where
  "graph_ok G \<longleftrightarrow> length (g_out G) = num_vertices G \<and> (\<forall>ts \<in> set (g_out G). \<forall>t \<in> set ts. t < num_vertices G)"

definition edge :: "'p boost_graph \<Rightarrow> nat \<Rightarrow> nat \<Rightarrow> bool" where
  "edge G u v \<longleftrightarrow> u < length (g_out G) \<and> v \<in> set (g_out G ! u)"

record chainDependency =
  dep_source :: nat
  dep_target :: nat

record chainGraph =
  cg_chainId :: nat
  cg_blockID :: nat
  cg_size :: nat
  cg_live_in :: nat
  cg_live_out :: nat
  cg_fan_in :: nat
  cg_fan_out :: nat
  cg_level :: int
  cg_is_mem :: bool
  cg_nodes :: "nat list"

definition chainGraph_new :: chainGraph where
  "chainGraph_new = \<lparr>cg_chainId = 0, cg_blockID = 0, cg_size = 0, cg_live_in = 0, cg_live_out = 0,
     cg_fan_in = 0, cg_fan_out = 0, cg_level = -1, cg_is_mem = False, cg_nodes = []\<rparr>"

record Block =
  blkID :: nat
  blk_chains :: "nat list"

subsection \<open>Dependencies between chains\<close>

definition vertexToChainMap :: "nat list list \<Rightarrow> (nat \<times> nat) list" where
  "vertexToChainMap m_chain =
     foldl (\<lambda>m i. foldl (\<lambda>m c. om_emplace c i m) m (m_chain ! i)) [] [0..<length m_chain]"

definition chain_deps ::
  "'p boost_graph \<Rightarrow> (nat \<times> nat) list \<Rightarrow> nat list \<Rightarrow> nat \<Rightarrow> chainDependency list option" where
  "chain_deps BG chainsMap c v = do {
     ts \<leftarrow> out_edges v BG;
     those (map (\<lambda>T. do {
         s \<leftarrow> map_of chainsMap v;
         t \<leftarrow> map_of chainsMap T;
         check (s \<noteq> t);
         Some \<lparr>dep_source = s, dep_target = t\<rparr> }) (filter (\<lambda>T. T \<notin> set c) ts)) }"

definition dependenciesGenerate ::
  "'p boost_graph \<Rightarrow> nat list list \<Rightarrow> (nat \<times> nat) list \<Rightarrow> chainDependency list option" where
  "dependenciesGenerate BG m_chain chainsMap =
     map_option concat (those (concat (map (\<lambda>c. map (chain_deps BG chainsMap c) c) m_chain)))"

definition histoDependency :: "chainDependency list \<Rightarrow> (nat \<times> nat list) list" where
  "histoDependency dependencies = foldl (\<lambda>m d. om_push (dep_source d) (dep_target d) m) [] dependencies"

definition uniqueDependency :: "(nat \<times> nat list) list \<Rightarrow> (nat \<times> nat list) list" where
  "uniqueDependency histodependency =
     foldl (\<lambda>u (c, ds). foldl (\<lambda>u d. om_insert c d u) u ds) [] histodependency"

definition reverseMapping_set :: "(nat \<times> nat list) list \<Rightarrow> (nat \<times> nat list) list" where
  "reverseMapping_set uniquedependency =
     foldl (\<lambda>m (c, rs). foldl (\<lambda>m r. om_insert r c m) m rs) [] uniquedependency"

definition reverseMapping :: "(nat \<times> nat list) list \<Rightarrow> (nat \<times> nat list) list" where
  "reverseMapping dependency =
     foldl (\<lambda>m (c, rs). foldl (\<lambda>m r. om_push r c m) m rs) [] dependency"

subsection \<open>Loop check\<close>

primrec loop_children ::
  "(nat \<Rightarrow> nat list \<Rightarrow> (bool \<times> nat list) option) \<Rightarrow> nat list \<Rightarrow> nat list \<Rightarrow> (bool \<times> nat list) option" where
  "loop_children visit [] stack = do { check (stack \<noteq> []); Some (False, butlast stack) }"
| "loop_children visit (ch # chs) stack =
     (if ch \<in> set stack then Some (True, stack)
      else do {
        (b, stack') \<leftarrow> visit ch (stack @ [ch]);
        if b then Some (True, stack') else loop_children visit chs stack' })"

primrec checkLoopComplete ::
  "nat \<Rightarrow> (nat \<times> nat list) list \<Rightarrow> nat \<Rightarrow> nat list \<Rightarrow> (bool \<times> nat list) option" where
  "checkLoopComplete 0 dependencies ident stack = None"
| "checkLoopComplete (Suc fuel) dependencies ident stack =
     (case map_of dependencies ident of
        None \<Rightarrow> do { check (stack \<noteq> []); Some (False, butlast stack) }
      | Some chs \<Rightarrow> loop_children (checkLoopComplete fuel dependencies) chs stack)"

definition has_loop :: "(nat \<times> nat list) list \<Rightarrow> bool option" where
  "has_loop dependencies =
     map_option fst (checkLoopComplete (length dependencies + 2) dependencies 0 [0])"

subsection \<open>Levels\<close>

text \<open>\<^verbatim>\<open>findChainsLevel\<close> and \<^verbatim>\<open>findGrahpLevel\<close> are the same depth-first search over two stores of
  levels.\<close>

primrec level_visit ::
  "('s \<Rightarrow> nat \<Rightarrow> int option) \<Rightarrow> ('s \<Rightarrow> nat \<Rightarrow> int \<Rightarrow> 's) \<Rightarrow> (nat \<Rightarrow> nat list option) \<Rightarrow>
   nat \<Rightarrow> int \<Rightarrow> nat \<Rightarrow> 's \<Rightarrow> 's option" where
  "level_visit get put succs 0 level ident s = None"
| "level_visit get put succs (Suc fuel) level ident s = do {
     old \<leftarrow> get s ident;
     if old < level then do {
       next \<leftarrow> succs ident;
       fold_opt (level_visit get put succs fuel (level + 1)) next (put s ident level) }
     else Some s }"

definition find_cg :: "chainGraph list \<Rightarrow> nat \<Rightarrow> chainGraph option" where
  "find_cg g ident = find (\<lambda>m. cg_chainId m = ident) g"

fun upd_cg :: "nat \<Rightarrow> (chainGraph \<Rightarrow> chainGraph) \<Rightarrow> chainGraph list \<Rightarrow> chainGraph list" where
  "upd_cg ident f [] = []"
| "upd_cg ident f (m # g) = (if cg_chainId m = ident then f m # g else m # upd_cg ident f g)"

definition cg_get :: "chainGraph list \<Rightarrow> nat \<Rightarrow> int option" where
  "cg_get g ident = map_option cg_level (find_cg g ident)"

definition cg_put :: "chainGraph list \<Rightarrow> nat \<Rightarrow> int \<Rightarrow> chainGraph list" where
  "cg_put g ident l = upd_cg ident (\<lambda>m. m\<lparr>cg_level := l\<rparr>) g"

definition om_succs :: "(nat \<times> nat list) list \<Rightarrow> nat \<Rightarrow> nat list" where
  "om_succs m k = (case map_of m k of None \<Rightarrow> [] | Some ds \<Rightarrow> ds)"

definition findChainsLevel ::
  "nat \<Rightarrow> int \<Rightarrow> nat \<Rightarrow> (nat \<times> nat list) list \<Rightarrow> chainGraph list \<Rightarrow> chainGraph list option" where
  "findChainsLevel fuel m_level ident dependencies ch_graph =
     level_visit cg_get cg_put (\<lambda>k. Some (om_succs dependencies k)) fuel m_level ident ch_graph"

definition lv_get :: "int list \<Rightarrow> nat \<Rightarrow> int option" where
  "lv_get ls i = (if i < length ls then Some (ls ! i) else None)"

definition lv_put :: "int list \<Rightarrow> nat \<Rightarrow> int \<Rightarrow> int list" where
  "lv_put ls i l = ls[i := l]"

definition graph_succs :: "'p boost_graph \<Rightarrow> nat \<Rightarrow> nat list option" where
  "graph_succs G ident = do {
     ts \<leftarrow> out_edges ident G;
     Some (if ident = 0 then filter (\<lambda>t. in_degree t G = 1) ts else ts) }"

definition findGrahpLevel :: "'p boost_graph \<Rightarrow> nat \<Rightarrow> nat \<Rightarrow> int list \<Rightarrow> int \<Rightarrow> int list option" where
  "findGrahpLevel G fuel ident m_level current_level =
     level_visit lv_get lv_put (graph_succs G) fuel current_level ident m_level"

subsection \<open>The loop check is exact\<close>

definition om_edges :: "(nat \<times> nat list) list \<Rightarrow> (nat \<times> nat) set" where
  "om_edges m = {(x, y). y \<in> set (om_succs m x)}"

text \<open>A cycle can be reached from a node.\<close>

definition cycle_from :: "(nat \<times> nat) set \<Rightarrow> nat \<Rightarrow> bool" where
  "cycle_from E x \<longleftrightarrow> (\<exists>u. (x, u) \<in> E\<^sup>* \<and> (u, u) \<in> E\<^sup>+)"

lemma cycle_from_step: "(x, y) \<in> E \<Longrightarrow> cycle_from E y \<Longrightarrow> cycle_from E x"
  unfolding cycle_from_def by (meson converse_rtrancl_into_rtrancl)

lemma cycle_from_iff: "cycle_from E x \<longleftrightarrow> (x, x) \<in> E\<^sup>+ \<or> (\<exists>y. (x, y) \<in> E \<and> cycle_from E y)"
  unfolding cycle_from_def
  by (metis converse_rtranclE rtrancl.rtrancl_refl converse_rtrancl_into_rtrancl)

definition loop_hit :: "(nat \<times> nat) set \<Rightarrow> nat \<Rightarrow> nat set \<Rightarrow> bool" where
  "loop_hit E x S \<longleftrightarrow> (\<exists>c \<in> S. (x, c) \<in> E\<^sup>+) \<or> cycle_from E x"

lemma loop_hit_unfold:
  assumes "x \<in> S"
  shows "loop_hit E x S \<longleftrightarrow> (\<exists>c. (x, c) \<in> E \<and> (c \<in> S \<or> loop_hit E c (insert c S)))"
proof
  assume "loop_hit E x S"
  then consider c where "c \<in> S" "(x, c) \<in> E\<^sup>+" | y where "(x, y) \<in> E" "cycle_from E y"
    using assms cycle_from_iff [of E x] by (auto simp: loop_hit_def)
  then show "\<exists>c. (x, c) \<in> E \<and> (c \<in> S \<or> loop_hit E c (insert c S))"
  proof cases
    case 1
    then obtain y where y: "(x, y) \<in> E" "(y, c) \<in> E\<^sup>*" by (meson tranclD)
    then have "y = c \<or> (y, c) \<in> E\<^sup>+" by (auto simp: rtrancl_eq_or_trancl)
    with 1 y(1) show ?thesis by (auto simp: loop_hit_def)
  qed (auto simp: loop_hit_def)
next
  assume "\<exists>c. (x, c) \<in> E \<and> (c \<in> S \<or> loop_hit E c (insert c S))"
  then obtain c where c: "(x, c) \<in> E" "c \<in> S \<or> (\<exists>d \<in> insert c S. (c, d) \<in> E\<^sup>+) \<or> cycle_from E c"
    by (auto simp: loop_hit_def)
  then consider "c \<in> S" | d where "d \<in> S" "(c, d) \<in> E\<^sup>+" | "cycle_from E c"
    using cycle_from_iff [of E c] by blast
  then show "loop_hit E x S"
  proof cases
    case 2
    then show ?thesis using c(1) by (auto simp: loop_hit_def intro: trancl_into_trancl2)
  next
    case 3
    then show ?thesis using c(1) cycle_from_step by (auto simp: loop_hit_def)
  qed (use c(1) in \<open>auto simp: loop_hit_def\<close>)
qed

text \<open>The specification of one visit: it decides \<open>loop_hit\<close> and, when there is no loop, takes the
  visited node off the stack again.\<close>

definition visit_spec ::
  "(nat \<times> nat) set \<Rightarrow> (nat \<Rightarrow> nat list \<Rightarrow> (bool \<times> nat list) option) \<Rightarrow> nat \<Rightarrow> nat list \<Rightarrow> bool" where
  "visit_spec E visit x st \<longleftrightarrow> (\<exists>st'. visit x st = Some (loop_hit E x (set st), st') \<and>
     (\<not> loop_hit E x (set st) \<longrightarrow> st' = butlast st))"

lemma loop_children_ok:
  assumes "st \<noteq> []" "\<forall>c \<in> set cs. c \<notin> set st \<longrightarrow> visit_spec E visit c (st @ [c])"
  shows "\<exists>st'. loop_children visit cs st =
      Some (\<exists>c \<in> set cs. c \<in> set st \<or> loop_hit E c (insert c (set st)), st') \<and>
    ((\<exists>c \<in> set cs. c \<in> set st \<or> loop_hit E c (insert c (set st))) \<or> st' = butlast st)"
  using assms(2)
proof (induction cs)
  case (Cons c cs)
  show ?case
  proof (cases "c \<in> set st")
    case False
    then obtain st' where v: "visit c (st @ [c]) = Some (loop_hit E c (insert c (set st)), st')"
      "\<not> loop_hit E c (insert c (set st)) \<longrightarrow> st' = st"
      using Cons.prems by (auto simp: visit_spec_def)
    with Cons False show ?thesis by (cases "loop_hit E c (insert c (set st))") auto
  qed simp
qed (use assms(1) in simp)

lemma checkLoop_ok:
  assumes "x \<in> set st" "if x \<in> fst ` set m then card (fst ` set m - set st) + 2 \<le> n else 0 < n"
  shows "visit_spec (om_edges m) (checkLoopComplete n m) x st"
  using assms
proof (induction n arbitrary: x st)
  case 0
  then show ?case by (auto split: if_splits)
next
  case (Suc n)
  have ne: "st \<noteq> []" using Suc.prems(1) by auto
  have E: "(x, c) \<in> om_edges m \<longleftrightarrow> c \<in> set (om_succs m x)" for c by (simp add: om_edges_def)
  show ?case
  proof (cases "map_of m x")
    case None
    then have "om_succs m x = []" by (simp add: om_succs_def)
    then have "\<not> loop_hit (om_edges m) x (set st)"
      using loop_hit_unfold [OF Suc.prems(1)] E by simp
    then show ?thesis using None ne by (simp add: visit_spec_def)
  next
    case (Some cs)
    then have x: "x \<in> fst ` set m" "om_succs m x = cs" by (auto simp: om_succs_def dest: map_of_SomeD intro: rev_image_eqI)
    have "visit_spec (om_edges m) (checkLoopComplete n m) c (st @ [c])" if "c \<notin> set st" for c
    proof (rule Suc.IH)
      have "card (fst ` set m - set (st @ [c])) < card (fst ` set m - set st)" if "c \<in> fst ` set m"
        using that \<open>c \<notin> set st\<close> by (intro psubset_card_mono) auto
      then show "if c \<in> fst ` set m then card (fst ` set m - set (st @ [c])) + 2 \<le> n else 0 < n"
        using Suc.prems(2) x(1) by (cases "c \<in> fst ` set m") simp_all
    qed simp
    then show ?thesis
      using loop_children_ok [OF ne, of cs "om_edges m" "checkLoopComplete n m"] Some
        loop_hit_unfold [OF Suc.prems(1), of "om_edges m"] E x(2)
      by (fastforce simp: visit_spec_def)
  qed
qed

lemma has_loop_ok: "has_loop m = Some (cycle_from (om_edges m) 0)"
proof -
  have "card (fst ` set m) \<le> length m" by (metis card_length length_map set_map)
  then have "card (fst ` set m - set [0]) \<le> length m" using card_Diff1_le [of "fst ` set m" 0] by simp
  then have "visit_spec (om_edges m) (checkLoopComplete (length m + 2) m) 0 [0]"
    by (intro checkLoop_ok) (simp_all del: card_Diff_insert card_Diff_singleton_if)
  moreover have "loop_hit (om_edges m) 0 {0} \<longleftrightarrow> cycle_from (om_edges m) 0"
    using cycle_from_iff [of "om_edges m" 0] by (auto simp: loop_hit_def)
  ultimately show ?thesis by (auto simp: has_loop_def visit_spec_def)
qed

subsection \<open>Levels are longest paths\<close>

locale level_store =
  fixes get :: "'s \<Rightarrow> nat \<Rightarrow> int option" and put :: "'s \<Rightarrow> nat \<Rightarrow> int \<Rightarrow> 's"
  assumes get_put: "get s i \<noteq> None \<Longrightarrow> get (put s i l) j = (if j = i then Some l else get s j)"
begin

definition lev :: "'s \<Rightarrow> nat \<Rightarrow> int" where
  "lev s i = (case get s i of None \<Rightarrow> 0 | Some l \<Rightarrow> l)"

definition on_nodes :: "nat set \<Rightarrow> (nat \<Rightarrow> nat list option) \<Rightarrow> (nat \<times> nat) set \<Rightarrow> 's \<Rightarrow> bool" where
  "on_nodes N succs E s \<longleftrightarrow> (\<forall>x. get s x \<noteq> None \<longleftrightarrow> x \<in> N) \<and>
     (\<forall>x \<in> N. \<exists>ys. succs x = Some ys \<and> set ys = E `` {x} \<and> set ys \<subseteq> N)"

definition closed :: "(nat \<times> nat) set \<Rightarrow> nat set \<Rightarrow> 's \<Rightarrow> bool" where
  "closed E S s \<longleftrightarrow> (\<forall>(u, v) \<in> E. u \<notin> S \<and> 0 \<le> lev s u \<longrightarrow> lev s u < lev s v)"

definition raised :: "(nat \<times> nat) set \<Rightarrow> int \<Rightarrow> nat \<Rightarrow> 's \<Rightarrow> 's \<Rightarrow> bool" where
  "raised E l x s s' \<longleftrightarrow> (\<forall>u. lev s u \<le> lev s' u) \<and>
     (\<forall>u. lev s' u \<noteq> lev s u \<longrightarrow> (\<exists>k. (x, u) \<in> E ^^ k \<and> lev s' u = l + int k))"

lemma on_nodes_put: "on_nodes N succs E s \<Longrightarrow> x \<in> N \<Longrightarrow> on_nodes N succs E (put s x l)"
  by (auto simp: on_nodes_def get_put)

lemma lev_put: "on_nodes N succs E s \<Longrightarrow> x \<in> N \<Longrightarrow> lev (put s x l) u = (if u = x then l else lev s u)"
  by (auto simp: lev_def on_nodes_def get_put)

text \<open>The loop over the children, given that one visit does what it should.\<close>

lemma visit_children_ok:
  assumes visit: "\<And>c s. c \<in> set cs \<Longrightarrow> on_nodes N succs E s \<Longrightarrow> closed E S s \<Longrightarrow>
      \<exists>s'. f c s = Some s' \<and> on_nodes N succs E s' \<and> closed E S s' \<and> raised E (l + 1) c s s' \<and> l + 1 \<le> lev s' c"
    and "\<forall>c \<in> set cs. (x, c) \<in> E" "on_nodes N succs E s" "closed E S s"
  shows "\<exists>s'. fold_opt f cs s = Some s' \<and> on_nodes N succs E s' \<and> closed E S s' \<and> raised E l x s s' \<and>
    (\<forall>u. lev s' u \<noteq> lev s u \<longrightarrow> (x, u) \<in> E\<^sup>+) \<and> (\<forall>c \<in> set cs. l + 1 \<le> lev s' c)"
  using assms
proof (induction cs arbitrary: s)
  case Nil
  then show ?case by (simp add: raised_def)
next
  case (Cons c cs)
  obtain s1 where s1: "f c s = Some s1" "on_nodes N succs E s1" "closed E S s1" "raised E (l + 1) c s s1" "l + 1 \<le> lev s1 c"
    using Cons.prems by (metis list.set_intros(1))
  obtain s2 where s2: "fold_opt f cs s1 = Some s2" "on_nodes N succs E s2" "closed E S s2" "raised E l x s1 s2"
    "\<forall>u. lev s2 u \<noteq> lev s1 u \<longrightarrow> (x, u) \<in> E\<^sup>+" "\<forall>d \<in> set cs. l + 1 \<le> lev s2 d"
    using Cons.IH [OF Cons.prems(1) _ s1(2,3)] Cons.prems(2) by auto
  have xc: "(x, c) \<in> E" using Cons.prems(2) by simp
  have step: "\<exists>k. (x, u) \<in> E ^^ k \<and> lev s1 u = l + int k" "(x, u) \<in> E\<^sup>+" if ne: "lev s1 u \<noteq> lev s u" for u
  proof -
    obtain k where k: "(c, u) \<in> E ^^ k" "lev s1 u = l + 1 + int k" using s1(4) ne unfolding raised_def by blast
    then have "(x, u) \<in> E ^^ Suc k" using xc by (meson relpow_Suc_I2)
    then show "\<exists>k. (x, u) \<in> E ^^ k \<and> lev s1 u = l + int k" "(x, u) \<in> E\<^sup>+"
      using k(2) by (fastforce simp: trancl_power)+
  qed
  have "raised E l x s s2"
    unfolding raised_def
  proof (intro conjI allI impI)
    fix u show "lev s u \<le> lev s2 u" using s1(4) s2(4) by (meson raised_def order_trans)
  next
    fix u assume "lev s2 u \<noteq> lev s u"
    then show "\<exists>k. (x, u) \<in> E ^^ k \<and> lev s2 u = l + int k"
      using step(1) [of u] s2(4) unfolding raised_def by metis
  qed
  moreover have "l + 1 \<le> lev s2 c" using s1(5) s2(4) by (meson raised_def order_trans)
  moreover have "\<forall>u. lev s2 u \<noteq> lev s u \<longrightarrow> (x, u) \<in> E\<^sup>+" using s2(5) step(2) by metis
  ultimately show ?case using s1(1) s2 by auto
qed

lemma level_visit_ok:
  assumes "x \<in> N" "0 \<le> l" "S \<inter> E\<^sup>* `` {x} = {}" "\<forall>k y. (x, y) \<in> E ^^ k \<longrightarrow> k < n"
    and "on_nodes N succs E s" "closed E S s"
  shows "\<exists>s'. level_visit get put succs n l x s = Some s' \<and> on_nodes N succs E s' \<and> closed E S s' \<and>
    raised E l x s s' \<and> l \<le> lev s' x"
  using assms
proof (induction n arbitrary: x l s S)
  case 0
  then show ?case by (metis less_nat_zero_code relpow_0_I)
next
  case (Suc n)
  obtain old where old: "get s x = Some old" using Suc.prems(1,5) unfolding on_nodes_def by blast
  then have lev: "lev s x = old" by (simp add: lev_def)
  show ?case
  proof (cases "old < l")
    case False
    then show ?thesis using old lev Suc.prems by (auto simp: raised_def)
  next
    case True
    obtain ys where ys: "succs x = Some ys" "set ys = E `` {x}" "set ys \<subseteq> N"
      using Suc.prems(1,5) by (auto simp: on_nodes_def)
    let ?s = "put s x l" and ?S = "insert x S"
    have on: "on_nodes N succs E ?s" using on_nodes_put Suc.prems(1,5) by blast
    note lp = lev_put [OF Suc.prems(5,1), of l]
    have acyc: "(x, x) \<notin> E\<^sup>+"
    proof
      assume "(x, x) \<in> E\<^sup>+"
      then obtain k where k: "0 < k" "(x, x) \<in> E ^^ k" by (auto simp: trancl_power)
      have "(x, x) \<in> E ^^ (k * j)" for j by (induction j) (auto simp: relpow_add intro: relcompI k(2))
      then have "k * Suc n < Suc n" using Suc.prems(4) by blast
      moreover have "Suc n \<le> k * Suc n" using k(1) by (cases k) auto
      ultimately show False by simp
    qed
    have cl: "closed E ?S ?s"
    proof -
      have "lev ?s u < lev ?s v" if "(u, v) \<in> E" "u \<noteq> x" "u \<notin> S" "0 \<le> lev ?s u" for u v
      proof -
        have "lev s u < lev s v" using Suc.prems(6) that lp [of u] by (auto simp: closed_def)
        then show ?thesis using that(2) lp [of u] lp [of v] lev True by auto
      qed
      then show ?thesis by (auto simp: closed_def)
    qed
    have visit: "\<exists>s'. level_visit get put succs n (l + 1) c t = Some s' \<and> on_nodes N succs E s' \<and> closed E ?S s' \<and>
        raised E (l + 1) c t s' \<and> l + 1 \<le> lev s' c" if c: "c \<in> set ys" and t: "on_nodes N succs E t" "closed E ?S t" for c t
    proof (rule Suc.IH [OF _ _ _ _ t])
      have xc: "(x, c) \<in> E" using c ys(2) by auto
      show "c \<in> N" "0 \<le> l + 1" using c ys(3) Suc.prems(2) by auto
      have "E\<^sup>* `` {c} \<subseteq> E\<^sup>* `` {x}" using xc by (auto intro: converse_rtrancl_into_rtrancl)
      moreover have "(c, x) \<notin> E\<^sup>*" using acyc xc by (meson rtrancl_into_trancl2)
      ultimately show "?S \<inter> E\<^sup>* `` {c} = {}" using Suc.prems(3) by auto
      show "\<forall>k y. (c, y) \<in> E ^^ k \<longrightarrow> k < n" using Suc.prems(4) xc by (meson Suc_less_eq relpow_Suc_I2)
    qed
    obtain s' where s': "fold_opt (level_visit get put succs n (l + 1)) ys ?s = Some s'" "on_nodes N succs E s'"
      "closed E ?S s'" "raised E l x ?s s'" "\<forall>u. lev s' u \<noteq> lev ?s u \<longrightarrow> (x, u) \<in> E\<^sup>+" "\<forall>c \<in> set ys. l + 1 \<le> lev s' c"
      using visit_children_ok [OF visit, of ys x ?s] ys(2) on cl by auto
    have x: "lev s' x = l" using s'(5) acyc lp by metis
    have "closed E S s'"
      using s'(3,6) x ys(2) unfolding closed_def by force
    moreover have "raised E l x s s'"
      unfolding raised_def
    proof (intro conjI allI impI)
      fix u show "lev s u \<le> lev s' u" using s'(4) lp [of u] lev True x unfolding raised_def by (metis less_imp_le)
    next
      fix u assume "lev s' u \<noteq> lev s u"
      then show "\<exists>k. (x, u) \<in> E ^^ k \<and> lev s' u = l + int k"
        using s'(4) lp [of u] x unfolding raised_def
        by (cases "u = x") (auto intro: exI [of _ 0])
    qed
    ultimately show ?thesis using old True ys(1) s'(1,2) x by auto
  qed
qed

text \<open>From levels that are all \<open>-1\<close>, a search from one node with no cycle in reach leaves with every
  node the length of the longest path to it, and \<open>-1\<close> with the nodes out of reach.\<close>

lemma levels_longest_path:
  assumes "finite N" "E \<subseteq> N \<times> N" "x \<in> N" "\<not> cycle_from E x" "card N \<le> n"
    and "on_nodes N succs E s" "\<forall>u \<in> N. get s u = Some (-1)"
  shows "\<exists>s'. level_visit get put succs n 0 x s = Some s' \<and> on_nodes N succs E s' \<and>
    (\<forall>u \<in> N. \<exists>l. get s' u = Some l \<and>
       ((x, u) \<notin> E\<^sup>* \<and> l = -1 \<or> 0 \<le> l \<and> (x, u) \<in> E ^^ nat l \<and> (\<forall>k. (x, u) \<in> E ^^ k \<longrightarrow> int k \<le> l)))"
proof -
  have bound: "k < n" if p: "(x, y) \<in> E ^^ k" for k y
  proof -
    obtain f where f: "f 0 = x" "f k = y" "\<forall>i<k. (f i, f (Suc i)) \<in> E" using p unfolding relpow_fun_conv by blast
    have path: "(f i, f (i + d)) \<in> E ^^ d" if "i + d \<le> k" for i d
      using that by (induction d) (use f(3) in \<open>auto intro: relpow_Suc_I\<close>)
    have fN: "f i \<in> N" if "i \<le> k" for i
      using that f assms(2,3) by (cases i) (auto simp: Suc_le_eq)
    have "inj_on f {..k}"
    proof (rule linorder_inj_onI')
      fix i j assume ij: "i \<in> {..k}" "j \<in> {..k}" "i < j"
      show "f i \<noteq> f j"
      proof
        assume "f i = f j"
        then have "(f i, f i) \<in> E\<^sup>+" using path [of i "j - i"] ij by (auto simp: trancl_power intro: exI [of _ "j - i"])
        moreover have "(x, f i) \<in> E\<^sup>*" using path [of 0 i] f(1) ij by (auto intro: relpow_imp_rtrancl)
        ultimately show False using assms(4) by (auto simp: cycle_from_def)
      qed
    qed
    then have "card {..k} \<le> card N" using fN assms(1) by (intro card_inj_on_le) auto
    then show ?thesis using assms(5) by simp
  qed
  have lev: "lev s u = (if u \<in> N then -1 else 0)" for u
    using assms(6,7) by (auto simp: lev_def on_nodes_def split: option.splits)
  then have cl: "closed E {} s" unfolding closed_def using assms(2) by auto
  obtain s' where s': "level_visit get put succs n 0 x s = Some s'" "on_nodes N succs E s'" "closed E {} s'"
    "raised E 0 x s s'" "0 \<le> lev s' x"
    using level_visit_ok [OF assms(3), of 0 "{}" E n succs s] bound assms(6) cl by blast
  have lower: "int k \<le> lev s' u" if "(x, u) \<in> E ^^ k" for k u
    using that
  proof (induction k arbitrary: u)
    case (Suc k)
    obtain v where v: "(x, v) \<in> E ^^ k" "(v, u) \<in> E" using Suc.prems by (rule relpow_Suc_E)
    then have "int k \<le> lev s' v" using Suc.IH by blast
    moreover have "lev s' v < lev s' u" using v(2) s'(3) calculation by (auto simp: closed_def)
    ultimately show ?case by simp
  qed (use s'(5) in simp)
  have "\<exists>l. get s' u = Some l \<and>
       ((x, u) \<notin> E\<^sup>* \<and> l = -1 \<or> 0 \<le> l \<and> (x, u) \<in> E ^^ nat l \<and> (\<forall>k. (x, u) \<in> E ^^ k \<longrightarrow> int k \<le> l))" if uN: "u \<in> N" for u
  proof -
    obtain l where l: "get s' u = Some l" using uN s'(2) unfolding on_nodes_def by blast
    then have l': "lev s' u = l" by (simp add: lev_def)
    show ?thesis
    proof (cases "l = -1")
      case True
      then have "(x, u) \<notin> E\<^sup>*" using lower l' by (force dest: rtrancl_imp_relpow)
      with l True show ?thesis by blast
    next
      case False
      then obtain k where "(x, u) \<in> E ^^ k" "l = int k" using s'(4) l' lev uN unfolding raised_def by (metis add_0)
      moreover have "\<forall>k. (x, u) \<in> E ^^ k \<longrightarrow> int k \<le> l" using lower l' by metis
      ultimately show ?thesis using l by auto
    qed
  qed
  with s' show ?thesis by blast
qed

end

interpretation cgl: level_store cg_get cg_put
proof
  fix g i l j
  assume "cg_get g i \<noteq> None"
  then show "cg_get (cg_put g i l) j = (if j = i then Some l else cg_get g j)"
    by (induction g) (auto simp: cg_get_def cg_put_def find_cg_def)
qed

interpretation lvl: level_store lv_get lv_put
  by unfold_locales (auto simp: lv_get_def lv_put_def split: if_splits)

subsection \<open>Dependencies are the edges between chains\<close>

lemma foldl_nested:
  "foldl (\<lambda>m x. foldl (\<lambda>m y. f m (g x y)) m (h x)) m xs = foldl f m (concat (map (\<lambda>x. map (g x) (h x)) xs))"
  by (induction xs arbitrary: m) (simp_all add: foldl_map)

lemma foldl_emplace:
  "om_ok m \<Longrightarrow> om_ok (foldl (\<lambda>m (k, v). om_emplace k v m) m ps) \<and>
     map_of (foldl (\<lambda>m (k, v). om_emplace k v m) m ps) = map_of ps ++ map_of m"
  by (induction ps arbitrary: m)
    (auto simp: om_simps map_add_def fun_eq_iff split: option.splits)

definition chain_of :: "nat list list \<Rightarrow> nat \<Rightarrow> nat \<Rightarrow> bool" where
  "chain_of cs v i \<longleftrightarrow> i < length cs \<and> v \<in> set (cs ! i)"

lemma chain_of_unique:
  "distinct (concat cs) \<Longrightarrow> chain_of cs v i \<Longrightarrow> chain_of cs v j \<Longrightarrow> i = j"
proof (induction cs arbitrary: i j)
  case (Cons c cs)
  have "v \<notin> set c" if "k < length cs" "v \<in> set (cs ! k)" for k
  proof -
    have "v \<in> \<Union> (set ` set cs)" using that nth_mem [OF that(1)] by blast
    then show ?thesis using Cons.prems(1) by auto
  qed
  with Cons show ?case by (cases i; cases j) (auto simp: chain_of_def)
qed (simp add: chain_of_def)

lemma chain_of_concat: "v \<in> set (concat cs) \<longleftrightarrow> (\<exists>i. chain_of cs v i)"
proof
  assume "v \<in> set (concat cs)"
  then obtain c where "c \<in> set cs" "v \<in> set c" by auto
  then show "\<exists>i. chain_of cs v i" unfolding chain_of_def by (metis in_set_conv_nth)
qed (use nth_mem in \<open>auto simp: chain_of_def\<close>)

lemma vertexToChainMap_ok:
  assumes "distinct (concat cs)"
  shows "map_of (vertexToChainMap cs) v = Some i \<longleftrightarrow> chain_of cs v i"
proof -
  let ?ps = "concat (map (\<lambda>i. map (\<lambda>c. (c, i)) (cs ! i)) [0..<length cs])"
  have m: "map_of (vertexToChainMap cs) = map_of ?ps"
    using foldl_emplace [of "[]" ?ps]
      foldl_nested [of "\<lambda>m (k, v). om_emplace k v m" "\<lambda>i c. (c, i)" "\<lambda>i. cs ! i" "[]" "[0..<length cs]"]
    by (simp add: vertexToChainMap_def)
  have ps: "(v, i) \<in> set ?ps \<longleftrightarrow> chain_of cs v i" for v i by (auto simp: chain_of_def)
  have "map_of ?ps v = Some i" if "chain_of cs v i"
  proof -
    have "map_of ?ps v \<noteq> None" using ps [of v i] that unfolding map_of_eq_None_iff by force
    then obtain j where j: "map_of ?ps v = Some j" by blast
    then have "chain_of cs v j" using ps map_of_SomeD by fast
    with j chain_of_unique [OF assms that] show ?thesis by simp
  qed
  then show ?thesis using m ps by (metis map_of_SomeD)
qed

definition decomposition :: "'p boost_graph \<Rightarrow> nat list list \<Rightarrow> bool" where
  "decomposition G cs \<longleftrightarrow> graph_ok G \<and> distinct (concat cs) \<and> set (concat cs) = {..<num_vertices G}"

definition cross :: "'p boost_graph \<Rightarrow> nat list list \<Rightarrow> nat \<Rightarrow> nat \<Rightarrow> bool" where
  "cross G cs i j \<longleftrightarrow> i \<noteq> j \<and> (\<exists>u v. chain_of cs u i \<and> chain_of cs v j \<and> edge G u v)"

lemma decomposition_chain: "decomposition G cs \<Longrightarrow> v < num_vertices G \<longleftrightarrow> (\<exists>i. chain_of cs v i)"
  using chain_of_concat [of v cs] by (simp add: decomposition_def)

lemma edge_vertex: "graph_ok G \<Longrightarrow> edge G u v \<Longrightarrow> u < num_vertices G \<and> v < num_vertices G"
  by (auto simp: graph_ok_def edge_def)

lemma chain_deps_ok:
  assumes "decomposition G cs" "chain_of cs v i"
  shows "\<exists>ds. chain_deps G (vertexToChainMap cs) (cs ! i) v = Some ds \<and>
    (\<forall>d. d \<in> set ds \<longleftrightarrow> dep_source d = i \<and> dep_target d \<noteq> i \<and>
       (\<exists>w. edge G v w \<and> chain_of cs w (dep_target d)))"
proof -
  let ?m = "vertexToChainMap cs"
  have dis: "distinct (concat cs)" and G: "graph_ok G" using assms(1) by (auto simp: decomposition_def)
  have v: "v < length (g_out G)" using decomposition_chain [OF assms(1), of v] assms(2) G by (auto simp: graph_ok_def)
  let ?ts = "filter (\<lambda>T. T \<notin> set (cs ! i)) (g_out G ! v)"
  let ?f = "\<lambda>T. do { s \<leftarrow> map_of ?m v; t \<leftarrow> map_of ?m T; check (s \<noteq> t); Some \<lparr>dep_source = s, dep_target = t\<rparr> }"
  have src: "map_of ?m v = Some i" using vertexToChainMap_ok [OF dis] assms(2) by simp
  have f: "\<exists>j. ?f T = Some \<lparr>dep_source = i, dep_target = j\<rparr> \<and> chain_of cs T j \<and> j \<noteq> i" if "T \<in> set ?ts" for T
  proof -
    have "edge G v T" using that v by (simp add: edge_def)
    then obtain j where j: "chain_of cs T j" using decomposition_chain [OF assms(1)] edge_vertex [OF G] by blast
    then have "j \<noteq> i" using that by (auto simp: chain_of_def)
    with j src vertexToChainMap_ok [OF dis, of T j] show ?thesis by (auto simp: check_bind)
  qed
  have "\<forall>T \<in> set ?ts. \<exists>j. ?f T = Some \<lparr>dep_source = i, dep_target = j\<rparr> \<and> chain_of cs T j \<and> j \<noteq> i" using f by blast
  then obtain J where J: "\<forall>T \<in> set ?ts. ?f T = Some \<lparr>dep_source = i, dep_target = J T\<rparr> \<and> chain_of cs T (J T) \<and> J T \<noteq> i"
    by (rule bchoice [THEN exE])
  define h where "h = (\<lambda>T. \<lparr>dep_source = i, dep_target = J T\<rparr>)"
  have h: "?f T = Some (h T)" "dep_source (h T) = i" "chain_of cs T (dep_target (h T))" "dep_target (h T) \<noteq> i" if "T \<in> set ?ts" for T
    using bspec [OF J that] by (auto simp: h_def)
  have "those (map ?f ?ts) = Some (map h ?ts)" unfolding those_Some_iff using h(1) by simp
  then have "chain_deps G ?m (cs ! i) v = Some (map h ?ts)" using v by (simp add: chain_deps_def out_edges_def check_bind)
  moreover have "d \<in> set (map h ?ts) \<longleftrightarrow> dep_source d = i \<and> dep_target d \<noteq> i \<and>
       (\<exists>w. edge G v w \<and> chain_of cs w (dep_target d))" for d
  proof
    assume "d \<in> set (map h ?ts)"
    then obtain T where "T \<in> set ?ts" "d = h T" by auto
    then show "dep_source d = i \<and> dep_target d \<noteq> i \<and> (\<exists>w. edge G v w \<and> chain_of cs w (dep_target d))"
      using h v by (auto simp: edge_def)
  next
    assume d: "dep_source d = i \<and> dep_target d \<noteq> i \<and> (\<exists>w. edge G v w \<and> chain_of cs w (dep_target d))"
    then obtain w where w: "edge G v w" "chain_of cs w (dep_target d)" by blast
    have "w \<notin> set (cs ! i)" using w(2) d assms(2) chain_of_unique [OF dis] by (auto simp: chain_of_def)
    then have t: "w \<in> set ?ts" using w(1) by (simp add: edge_def)
    then have "dep_target (h w) = dep_target d" using h(3) w(2) chain_of_unique [OF dis] by blast
    then have "d = h w" using h(2) [OF t] d by simp
    with t show "d \<in> set (map h ?ts)" by auto
  qed
  ultimately show ?thesis by blast
qed

lemma those_concat_ok:
  assumes "\<forall>x \<in> set xs. \<exists>ys. f x = Some ys \<and> set ys = A x"
  shows "\<exists>zs. map_option concat (those (map f xs)) = Some zs \<and> set zs = (\<Union>x \<in> set xs. A x)"
  using assms
proof (induction xs)
  case (Cons x xs)
  then obtain ys zs where "f x = Some ys" "set ys = A x" "those (map f xs) = Some zs" "set (concat zs) = (\<Union>x \<in> set xs. A x)"
    by fastforce
  then show ?case by auto
qed simp

lemma dependenciesGenerate_ok:
  assumes "decomposition G cs"
  shows "\<exists>ds. dependenciesGenerate G cs (vertexToChainMap cs) = Some ds \<and>
    (\<forall>i j. (i, j) \<in> (\<lambda>d. (dep_source d, dep_target d)) ` set ds \<longleftrightarrow> cross G cs i j)"
proof -
  let ?m = "vertexToChainMap cs"
  let ?xs = "concat (map (\<lambda>i. map (Pair i) (cs ! i)) [0..<length cs])"
  let ?A = "\<lambda>(i, v). {d. dep_source d = i \<and> dep_target d \<noteq> i \<and> (\<exists>w. edge G v w \<and> chain_of cs w (dep_target d))}"
  have "concat (map (\<lambda>c. map (chain_deps G ?m c) c) cs) = concat (map (\<lambda>i. map (chain_deps G ?m (cs ! i)) (cs ! i)) [0..<length cs])"
    by (rule arg_cong [of _ _ concat], rule nth_equalityI) auto
  also have "\<dots> = map (\<lambda>(i, v). chain_deps G ?m (cs ! i) v) ?xs"
    by (simp add: map_concat comp_def)
  finally have eq: "dependenciesGenerate G cs ?m = map_option concat (those (map (\<lambda>(i, v). chain_deps G ?m (cs ! i) v) ?xs))"
    by (simp add: dependenciesGenerate_def)
  have xs: "(i, v) \<in> set ?xs \<longleftrightarrow> chain_of cs v i" for i v by (auto simp: chain_of_def)
  have "\<forall>x \<in> set ?xs. \<exists>ys. (\<lambda>(i, v). chain_deps G ?m (cs ! i) v) x = Some ys \<and> set ys = ?A x"
  proof
    fix x assume "x \<in> set ?xs"
    moreover obtain i v where x: "x = (i, v)" by (cases x)
    ultimately have "chain_of cs v i" using xs by blast
    then obtain ds where "chain_deps G ?m (cs ! i) v = Some ds"
      "\<forall>d. d \<in> set ds \<longleftrightarrow> dep_source d = i \<and> dep_target d \<noteq> i \<and> (\<exists>w. edge G v w \<and> chain_of cs w (dep_target d))"
      using chain_deps_ok [OF assms] by blast
    with x show "\<exists>ys. (\<lambda>(i, v). chain_deps G ?m (cs ! i) v) x = Some ys \<and> set ys = ?A x" by (simp add: set_eq_iff)
  qed
  from those_concat_ok [OF this] obtain ds where ds: "dependenciesGenerate G cs ?m = Some ds" "set ds = (\<Union>x \<in> set ?xs. ?A x)"
    using eq by auto
  have "(i, j) \<in> (\<lambda>d. (dep_source d, dep_target d)) ` set ds \<longleftrightarrow> cross G cs i j" for i j
  proof
    assume "cross G cs i j"
    then obtain u v where "i \<noteq> j" "chain_of cs u i" "chain_of cs v j" "edge G u v" by (auto simp: cross_def)
    then have "\<lparr>dep_source = i, dep_target = j\<rparr> \<in> set ds" using ds(2) xs by force
    then show "(i, j) \<in> (\<lambda>d. (dep_source d, dep_target d)) ` set ds" by force
  next
    assume "(i, j) \<in> (\<lambda>d. (dep_source d, dep_target d)) ` set ds"
    then obtain d where "d \<in> set ds" "i = dep_source d" "j = dep_target d" by auto
    from \<open>d \<in> set ds\<close> obtain x where x: "x \<in> set ?xs" "d \<in> ?A x" unfolding ds(2) by (rule UN_E)
    obtain k v where "x = (k, v)" by (rule prod.exhaust)
    with x have kv: "chain_of cs v k" "dep_source d = k" "dep_target d \<noteq> k"
      "\<exists>w. edge G v w \<and> chain_of cs w (dep_target d)"
      using xs [of k v] by simp_all
    then show "cross G cs i j" using \<open>i = dep_source d\<close> \<open>j = dep_target d\<close> unfolding cross_def by metis
  qed
  with ds(1) show ?thesis by blast
qed

text \<open>Grouping keeps the edges: the maps built from a list of pairs, or from another map, relate
  exactly those pairs.\<close>

lemma om_edges_iff: "(x, y) \<in> om_edges m \<longleftrightarrow> (\<exists>ys. map_of m x = Some ys \<and> y \<in> set ys)"
  by (cases "map_of m x") (simp_all add: om_edges_def om_succs_def)

lemma om_edges_push: "om_edges (foldl (\<lambda>m (k, v). om_push k v m) [] ps) = set ps"
proof -
  have "(k, v) \<in> om_edges (foldl (\<lambda>m (k, v). om_push k v m) [] ps) \<longleftrightarrow> (k, v) \<in> set ps" for k v
    unfolding om_edges_iff conjunct2 [OF om_push_group [of "[]" ps k, OF om_ok_Nil]] by (force simp: image_iff)
  then show ?thesis by auto
qed

lemma om_edges_insert: "om_edges (foldl (\<lambda>m (k, v). om_insert k v m) [] ps) = set ps"
proof -
  have "map_of (foldl (\<lambda>m (k, v). om_insert k v m) [] ps) k =
      (if k \<in> fst ` set ps then Some (sorted_list_of_set {v. (k, v) \<in> set ps}) else None)" for k
    using om_insert_group [of "[]" ps k] by simp
  moreover have "finite {v. (k, v) \<in> set ps}" for k
    by (rule finite_subset [of _ "snd ` set ps"]) force+
  ultimately have "(k, v) \<in> om_edges (foldl (\<lambda>m (k, v). om_insert k v m) [] ps) \<longleftrightarrow> (k, v) \<in> set ps" for k v
    unfolding om_edges_iff by (force simp: image_iff)
  then show ?thesis by auto
qed

lemma om_edges_pairs:
  assumes "om_ok m"
  shows "set (concat (map (\<lambda>(k, vs). map (f k) vs) m)) = (\<lambda>(k, v). f k v) ` om_edges m"
proof -
  have "set (concat (map (\<lambda>(k, vs). map (f k) vs) m)) = {f k v | k v vs. (k, vs) \<in> set m \<and> v \<in> set vs}" by auto
  also have "\<dots> = {f k v | k v. (k, v) \<in> om_edges m}"
    unfolding om_edges_iff map_of_in_set [OF assms] by blast
  finally show ?thesis by auto
qed

definition chain_maps ::
  "'p boost_graph \<Rightarrow> nat list list \<Rightarrow>
   ((nat \<times> nat) list \<times> chainDependency list \<times> (nat \<times> nat list) list \<times> (nat \<times> nat list) list \<times>
    (nat \<times> nat list) list \<times> (nat \<times> nat list) list) option" where
  "chain_maps G cs = do {
     let vtc = vertexToChainMap cs;
     deps \<leftarrow> dependenciesGenerate G cs vtc;
     let ctd = histoDependency deps;
     let un = uniqueDependency ctd;
     Some (vtc, deps, ctd, un, reverseMapping_set un, reverseMapping ctd) }"

lemma foldl_nested_pairs:
  "foldl (\<lambda>m (k, vs). foldl (\<lambda>m v. f m (g k v)) m vs) m xs = foldl f m (concat (map (\<lambda>(k, vs). map (g k) vs) xs))"
  by (induction xs arbitrary: m) (auto simp: foldl_map)

lemma om_push_ok: "om_ok (foldl (\<lambda>m (k, v). om_push k v m) [] ps)"
  by (rule conjunct1 [OF om_push_group, OF om_ok_Nil])

lemma om_insert_ok:
  "om_ok (foldl (\<lambda>m (k, v). om_insert k v m) [] ps)"
  "ds \<in> ran (map_of (foldl (\<lambda>m (k, v). om_insert k v m) [] ps)) \<Longrightarrow> sorted_wrt (<) ds"
  using om_insert_group [of "[]" ps] by simp_all

lemma histo_ok: "om_ok (histoDependency ds) \<and> om_edges (histoDependency ds) = (\<lambda>d. (dep_source d, dep_target d)) ` set ds"
proof -
  have "histoDependency ds = foldl (\<lambda>m (k, v). om_push k v m) [] (map (\<lambda>d. (dep_source d, dep_target d)) ds)"
    by (simp add: histoDependency_def foldl_map)
  then show ?thesis using om_push_ok om_edges_push by simp
qed

lemma unique_ok:
  assumes "om_ok m"
  shows "om_ok (uniqueDependency m) \<and> om_edges (uniqueDependency m) = om_edges m \<and>
    (\<forall>ds \<in> ran (map_of (uniqueDependency m)). sorted_wrt (<) ds)"
proof -
  let ?ps = "concat (map (\<lambda>(k, vs). map (Pair k) vs) m)"
  have "uniqueDependency m = foldl (\<lambda>m (k, v). om_insert k v m) [] ?ps"
    using foldl_nested_pairs [of "\<lambda>m (k, v). om_insert k v m" Pair "[]" m]
    by (simp add: uniqueDependency_def)
  then show ?thesis using om_insert_ok(1) [of ?ps] om_insert_ok(2) [of _ ?ps] om_edges_insert [of ?ps] om_edges_pairs [OF assms, of Pair] by simp
qed

lemma unique_nonempty: "map_of (uniqueDependency m) k \<noteq> Some []"
proof -
  let ?ps = "concat (map (\<lambda>(k, vs). map (Pair k) vs) m)"
  have "uniqueDependency m = foldl (\<lambda>m (k, v). om_insert k v m) [] ?ps"
    using foldl_nested_pairs [of "\<lambda>m (k, v). om_insert k v m" Pair "[]" m] by (simp add: uniqueDependency_def)
  moreover have "map_of (foldl (\<lambda>m (k, v). om_insert k v m) [] ?ps) k =
      (if k \<in> fst ` set ?ps then Some (sorted_list_of_set {v. (k, v) \<in> set ?ps}) else None)"
    using om_insert_group [of "[]" ?ps k] by simp
  moreover have "{v. (k, v) \<in> set ?ps} \<noteq> {}" if "k \<in> fst ` set ?ps" using that by force
  moreover have "finite {v. (k, v) \<in> set ?ps}" using finite_subset [of "{v. (k, v) \<in> set ?ps}" "snd ` set ?ps"] List.finite_set [of ?ps] by force
  ultimately show ?thesis by (simp add: sorted_list_of_set_eq_Nil_iff)
qed

lemma reverse_set_ok:
  assumes "om_ok m"
  shows "om_ok (reverseMapping_set m) \<and> om_edges (reverseMapping_set m) = (om_edges m)\<inverse> \<and>
    (\<forall>ds \<in> ran (map_of (reverseMapping_set m)). sorted_wrt (<) ds)"
proof -
  let ?ps = "concat (map (\<lambda>(k, vs). map (\<lambda>v. (v, k)) vs) m)"
  have "reverseMapping_set m = foldl (\<lambda>m (k, v). om_insert k v m) [] ?ps"
    using foldl_nested_pairs [of "\<lambda>m (k, v). om_insert k v m" "\<lambda>k v. (v, k)" "[]" m]
    by (simp add: reverseMapping_set_def)
  moreover have "(\<lambda>(k, v). (v, k)) ` om_edges m = (om_edges m)\<inverse>" by force
  ultimately show ?thesis
    using om_insert_ok(1) [of ?ps] om_insert_ok(2) [of _ ?ps] om_edges_insert [of ?ps] om_edges_pairs [OF assms, of "\<lambda>k v. (v, k)"] by simp
qed

lemma reverse_ok:
  assumes "om_ok m"
  shows "om_ok (reverseMapping m) \<and> om_edges (reverseMapping m) = (om_edges m)\<inverse>"
proof -
  let ?ps = "concat (map (\<lambda>(k, vs). map (\<lambda>v. (v, k)) vs) m)"
  have "reverseMapping m = foldl (\<lambda>m (k, v). om_push k v m) [] ?ps"
    using foldl_nested_pairs [of "\<lambda>m (k, v). om_push k v m" "\<lambda>k v. (v, k)" "[]" m]
    by (simp add: reverseMapping_def)
  moreover have "(\<lambda>(k, v). (v, k)) ` om_edges m = (om_edges m)\<inverse>" by force
  ultimately show ?thesis
    using om_push_ok [of ?ps] om_edges_push [of ?ps] om_edges_pairs [OF assms, of "\<lambda>k v. (v, k)"] by simp
qed

lemma chain_maps_ok:
  assumes "decomposition G cs"
  shows "\<exists>vtc deps ctd un ur rm. chain_maps G cs = Some (vtc, deps, ctd, un, ur, rm) \<and>
    (\<forall>v i. map_of vtc v = Some i \<longleftrightarrow> chain_of cs v i) \<and>
    (\<lambda>d. (dep_source d, dep_target d)) ` set deps = {(i, j). cross G cs i j} \<and>
    om_ok ctd \<and> om_ok un \<and> om_ok ur \<and> om_ok rm \<and>
    om_edges ctd = {(i, j). cross G cs i j} \<and> om_edges un = {(i, j). cross G cs i j} \<and>
    om_edges ur = {(j, i). cross G cs i j} \<and> om_edges rm = {(j, i). cross G cs i j} \<and>
    (\<forall>ds \<in> ran (map_of un) \<union> ran (map_of ur). sorted_wrt (<) ds)"
proof -
  obtain ds where ds: "dependenciesGenerate G cs (vertexToChainMap cs) = Some ds"
    "\<forall>i j. (i, j) \<in> (\<lambda>d. (dep_source d, dep_target d)) ` set ds \<longleftrightarrow> cross G cs i j"
    using dependenciesGenerate_ok [OF assms] by blast
  let ?E = "{(i, j). cross G cs i j}"
  have E: "(\<lambda>d. (dep_source d, dep_target d)) ` set ds = ?E" using ds(2) by auto
  let ?c = "histoDependency ds"
  have c: "om_ok ?c" "om_edges ?c = ?E" using histo_ok [of ds] E by auto
  note u = unique_ok [OF c(1)]
  have conv: "?E\<inverse> = {(j, i). cross G cs i j}" by auto
  have dis: "distinct (concat cs)" using assms by (simp add: decomposition_def)
  show ?thesis
    using ds(1) E c u reverse_set_ok [of "uniqueDependency ?c"] reverse_ok [OF c(1)] conv vertexToChainMap_ok [OF dis]
    by (simp add: chain_maps_def Let_def ball_Un)
qed

subsection \<open>Properties\<close>

lemma level_visit_frame:
  assumes "level_visit get put succs n l x s = Some s'" "P s" "\<And>s i l. P s \<Longrightarrow> P (put s i l)"
  shows "P s'"
  using assms(1,2)
proof (induction n arbitrary: l x s s')
  case (Suc n)
  from Suc.prems(1) obtain old where old: "get s x = Some old" by (auto simp: bind_Some_iff)
  show ?case
  proof (cases "old < l")
    case True
    then obtain cs where "fold_opt (level_visit get put succs n (l + 1)) cs (put s x l) = Some s'"
      using Suc.prems(1) old by (auto simp: bind_Some_iff)
    then show ?thesis by (rule fold_opt_inv) (use Suc.IH assms(3) Suc.prems(2) in auto)
  qed (use Suc.prems old in auto)
qed simp

definition longest_level :: "(nat \<times> nat) set \<Rightarrow> nat \<Rightarrow> nat \<Rightarrow> int \<Rightarrow> bool" where
  "longest_level E x u l \<longleftrightarrow> (x, u) \<notin> E\<^sup>* \<and> l = -1 \<or>
     0 \<le> l \<and> (x, u) \<in> E ^^ nat l \<and> (\<forall>k. (x, u) \<in> E ^^ k \<longrightarrow> int k \<le> l)"

lemma longest_levelD: "longest_level E x u l \<Longrightarrow> (x, u) \<in> E ^^ k \<Longrightarrow> int k \<le> l"
  by (auto simp: longest_level_def dest: relpow_imp_rtrancl)

abbreviation no_levels :: "chainGraph list \<Rightarrow> chainGraph list" where
  "no_levels \<equiv> map (\<lambda>m. m\<lparr>cg_level := -1\<rparr>)"

lemma no_levels_put: "no_levels (cg_put g i l) = no_levels g"
  by (induction g) (auto simp: cg_put_def)

lemma no_levels_ids: "no_levels g = no_levels h \<Longrightarrow> map cg_chainId g = map cg_chainId h"
proof -
  have "map cg_chainId (no_levels g) = map cg_chainId g" for g by simp
  then show "no_levels g = no_levels h \<Longrightarrow> map cg_chainId g = map cg_chainId h" by metis
qed

lemma find_cg_nth:
  assumes "map cg_chainId g = [0..<n]"
  shows "find_cg g i = (if i < n then Some (g ! i) else None)"
proof -
  have len: "length g = n" using assms by (metis length_map length_upt minus_nat.diff_0)
  have id: "cg_chainId (g ! j) = j" if "j < n" for j using that assms len by (metis add_0 nth_map nth_upt)
  show ?thesis
  proof (cases "i < n")
    case True
    then have "i < length g \<and> cg_chainId (g ! i) = i \<and> g ! i = g ! i \<and> (\<forall>j < i. cg_chainId (g ! j) \<noteq> i)"
      using len id by simp
    then have "find_cg g i = Some (g ! i)" unfolding find_cg_def find_Some_iff by blast
    with True show ?thesis by simp
  next
    case False
    then show ?thesis using len id by (auto simp: find_cg_def find_None_iff in_set_conv_nth)
  qed
qed

lemma findChainsLevel_ok:
  assumes "map cg_chainId g = [0..<n]" "0 < n" "\<forall>m \<in> set g. cg_level m = -1"
    and "om_edges deps \<subseteq> {..<n} \<times> {..<n}" "\<not> cycle_from (om_edges deps) 0"
  shows "\<exists>g'. findChainsLevel n 0 0 deps g = Some g' \<and> no_levels g' = no_levels g \<and>
    (\<forall>i < n. longest_level (om_edges deps) 0 i (cg_level (g' ! i)))"
proof -
  let ?E = "om_edges deps"
  have len: "length g = n" using assms(1) by (metis length_map length_upt minus_nat.diff_0)
  have get: "cg_get h i = (if i < n then Some (cg_level (h ! i)) else None)" if "map cg_chainId h = [0..<n]" for h i
    using find_cg_nth [OF that] by (simp add: cg_get_def)
  have on: "cgl.on_nodes {..<n} (\<lambda>k. Some (om_succs deps k)) ?E g"
    unfolding cgl.on_nodes_def using get [OF assms(1)] assms(4) by (auto simp: om_edges_def)
  have "\<forall>u \<in> {..<n}. cg_get g u = Some (-1)" using get [OF assms(1)] assms(3) len by simp
  then obtain g' where g': "level_visit cg_get cg_put (\<lambda>k. Some (om_succs deps k)) n 0 0 g = Some g'"
    "\<forall>u \<in> {..<n}. \<exists>l. cg_get g' u = Some l \<and>
       ((0, u) \<notin> ?E\<^sup>* \<and> l = -1 \<or> 0 \<le> l \<and> (0, u) \<in> ?E ^^ nat l \<and> (\<forall>k. (0, u) \<in> ?E ^^ k \<longrightarrow> int k \<le> l))"
    using cgl.levels_longest_path [of "{..<n}" ?E 0 n, OF _ assms(4) _ assms(5) _ on] assms(2) by auto
  have fr: "no_levels g' = no_levels g"
    by (rule level_visit_frame [OF g'(1)]) (simp_all add: no_levels_put)
  then have "map cg_chainId g' = [0..<n]" using no_levels_ids assms(1) by metis
  from get [OF this] g' fr show ?thesis by (simp add: findChainsLevel_def longest_level_def)
qed

text \<open>C29. The loop check is exact: for every dependency map, \<^verbatim>\<open>checkLoopComplete\<close> started on chain 0
  returns, and answers true exactly when a cycle can be reached from chain 0. The recursion depth
  allowed is two more than the number of chains with dependents.\<close>

theorem loop_check_exact:
  "has_loop deps = Some (\<exists>u. (0, u) \<in> (om_edges deps)\<^sup>* \<and> (u, u) \<in> (om_edges deps)\<^sup>+)"
  using has_loop_ok [of deps] by (simp add: cycle_from_def)

definition sample_graph :: "unit boost_graph" where
  "sample_graph = \<lparr>g_vertex = [(), (), (), ()], g_out = [[1, 2], [3], [3], []]\<rparr>"

lemma sample_decomposition: "decomposition sample_graph [[0], [1, 3], [2]]"
  by (auto simp: decomposition_def graph_ok_def num_vertices_def sample_graph_def)

end
