(* ===== verification/Cs_Core.thy ===== *)
theory Cs_Core
  imports Cs_Lane Cs_Memory Cs_Graph
begin

text \<open>
  The accelerator core: \<^verbatim>\<open>include/Core.hpp\<close> and \<^verbatim>\<open>src/Core.cpp\<close>. A core owns its lanes, the
  dependency table between chains, the static assignment of chains to lanes and the load/store
  unit. The decomposed data-flow graph that \<^verbatim>\<open>newGraph\<close> computes with the Boost graph library
  (chains with levels, dependencies, blocks, opcodes) is data of the record or an argument.
  Ordered maps and sets of the C++ library are lists in increasing key order. Indexing an array
  or vector out of range and dereferencing an end iterator, undefined in C++, are \<open>None\<close>.
  The static queues of class \<^verbatim>\<open>Lane\<close> are the field \<open>lane_statics\<close>; lines written to the log
  files are left out.
\<close>

definition MAX_NUM_CHAIN :: nat where "MAX_NUM_CHAIN = 700"
definition LANE_DEFAULT_SIZE :: nat where "LANE_DEFAULT_SIZE = 300"

record 's core =
  num_iter :: nat
  num_lanes :: nat
  g_chain_graph :: "chainGraph list"
  g_dependencies :: "chainDependency list"
  g_block_chain :: "Block list"
  core_parameter :: "string \<Rightarrow> nat option"
  input_chain :: "chain list"
  depen_table :: "nat \<Rightarrow> nat \<Rightarrow> nat"
  lane_pre_schedule_size :: "32 word list"
  lane_pre_schedule :: "nat list list"
  stack_sche_chain :: "nat list"
  m_memory :: "'s memory"
  m_lanes :: "lane list"
  lane_statics :: lane_globals
  chaintoLane :: "nat \<Rightarrow> nat option"
  num_chains :: nat
  mem_req_map :: "(nat \<times> nat) list"
  un_dependencies :: "(nat \<times> nat list) list"
  external_com :: nat
  internal_com :: nat
  core_free :: nat
  core_idle :: nat

definition core_new ::
  "(string \<Rightarrow> nat option) \<Rightarrow> (string \<Rightarrow> nat option) \<Rightarrow> nat \<Rightarrow> 's o3_interface \<Rightarrow> 's core option"
where
  "core_new core_params lane_params n ruby = do {
     mode \<leftarrow> (if n = 0 then Some 0 else core_params ''MEMORY_MODE'');
     Some \<lparr>num_iter = 0, num_lanes = n, g_chain_graph = [], g_dependencies = [], g_block_chain = [],
       core_parameter = core_params, input_chain = [], depen_table = (\<lambda>_ _. 0),
       lane_pre_schedule_size = replicate MAX_NUM_CHAIN 0, lane_pre_schedule = replicate n [],
       stack_sche_chain = [], m_memory = memory_new ruby,
       m_lanes = map (\<lambda>i. lane_new lane_params i mode LANE_DEFAULT_SIZE) [0..<n],
       lane_statics = \<lparr>finished_chains = [], mem_req_queue = []\<rparr>, chaintoLane = Map.empty,
       num_chains = MAX_NUM_CHAIN, mem_req_map = [], un_dependencies = [],
       external_com = 0, internal_com = 0, core_free = 0, core_idle = 0\<rparr> }"

fun findMinimum_loop :: "32 word list \<Rightarrow> nat \<Rightarrow> nat \<Rightarrow> 32 word \<Rightarrow> nat \<Rightarrow> nat \<Rightarrow> nat option" where
  "findMinimum_loop arr limit i mn index 0 = Some index"
| "findMinimum_loop arr limit i mn index (Suc k) = do {
     check (i < length arr);
     if arr ! i < mn then findMinimum_loop arr limit (i + 1) (arr ! i) i k
     else findMinimum_loop arr limit (i + 1) mn index k }"

definition findMinimum :: "32 word list \<Rightarrow> nat \<Rightarrow> nat option" where
  "findMinimum arr limit = do {
     check (0 < length arr);
     findMinimum_loop arr limit 1 (arr ! 0) 0 (limit - 1) }"

fun add_instructions ::
  "(nat \<Rightarrow> string) \<Rightarrow> (nat \<Rightarrow> nat) \<Rightarrow> (string \<Rightarrow> nat option) \<Rightarrow> nat \<Rightarrow> nat list \<Rightarrow> chain \<Rightarrow> chain option"
where
  "add_instructions opcode node_map llvm i [] c = Some c"
| "add_instructions opcode node_map llvm i (ins # rest) c = do {
     lat \<leftarrow> llvm (opcode ins);
     let node_m = \<lparr>nd_c_id = i, nd_old_id = node_map ins, nd_new_id = ins, nd_name = ins,
                   nd_type = opcode ins, nd_latency = lat\<rparr>;
     let c1 = push_ins node_m (c\<lparr>ch_id := i\<rparr>);
     let c2 = (if opcode ins = ''Load'' \<or> opcode ins = ''Store'' then c1\<lparr>ch_mem := True\<rparr> else c1);
     add_instructions opcode node_map llvm i rest c2 }"

fun build_from ::
  "(nat \<Rightarrow> string) \<Rightarrow> (nat \<Rightarrow> nat) \<Rightarrow> (string \<Rightarrow> nat option) \<Rightarrow> (nat \<times> nat list) list \<Rightarrow>
   (nat \<times> nat list) list \<Rightarrow> nat \<Rightarrow> nat list list \<Rightarrow> chain list option"
where
  "build_from opcode node_map llvm un rdeps i [] = Some []"
| "build_from opcode node_map llvm un rdeps i (c # cs) = do {
     ch \<leftarrow> add_instructions opcode node_map llvm i c (chain_new i);
     let ch1 = (case map_of rdeps i of
                  Some d \<Rightarrow> ch\<lparr>live_in := set d, num_dependencies := of_nat (card (set d))\<rparr>
                | None \<Rightarrow> ch);
     let ch2 = (case map_of un i of Some d \<Rightarrow> ch1\<lparr>live_out := set d\<rparr> | None \<Rightarrow> ch1);
     rest \<leftarrow> build_from opcode node_map llvm un rdeps (i + 1) cs;
     Some (ch2 # rest) }"

definition buildChains ::
  "(nat \<Rightarrow> string) \<Rightarrow> (nat \<Rightarrow> nat) \<Rightarrow> (string \<Rightarrow> nat option) \<Rightarrow> nat list list \<Rightarrow>
   (nat \<times> nat list) list \<Rightarrow> (nat \<times> nat list) list \<Rightarrow> 's core \<Rightarrow> 's core option"
where
  "buildChains opcode node_map llvm decom_chains un rdeps c = do {
     chs \<leftarrow> build_from opcode node_map llvm un rdeps 0 decom_chains;
     let ic = input_chain c @ chs;
     Some (c\<lparr>input_chain := ic, un_dependencies := un, num_chains := length ic\<rparr>) }"

definition is_finish :: "'s core \<Rightarrow> bool" where
  "is_finish c \<longleftrightarrow> input_chain c = [] \<and> list_all lane_is_free (m_lanes c)"

definition table_set :: "nat \<Rightarrow> nat \<Rightarrow> nat \<Rightarrow> (nat \<Rightarrow> nat \<Rightarrow> nat) \<Rightarrow> (nat \<Rightarrow> nat \<Rightarrow> nat) option" where
  "table_set row col v t = do {
     check (row < MAX_NUM_CHAIN \<and> col < MAX_NUM_CHAIN);
     Some (t(row := (t row)(col := v))) }"

fun table_set_rows :: "nat list \<Rightarrow> nat \<Rightarrow> nat \<Rightarrow> (nat \<Rightarrow> nat \<Rightarrow> nat) \<Rightarrow> (nat \<Rightarrow> nat \<Rightarrow> nat) option" where
  "table_set_rows [] col v t = Some t"
| "table_set_rows (r # rs) col v t = table_set r col v t \<bind> table_set_rows rs col v"

fun fill_depen_table :: "(nat \<times> nat list) list \<Rightarrow> (nat \<Rightarrow> nat \<Rightarrow> nat) \<Rightarrow> (nat \<Rightarrow> nat \<Rightarrow> nat) option" where
  "fill_depen_table [] t = Some t"
| "fill_depen_table ((p, rows) # ds) t = table_set_rows rows p 1 t \<bind> fill_depen_table ds"

definition initialize_depen_table :: "'s core \<Rightarrow> 's core option" where
  "initialize_depen_table c = do {
     t \<leftarrow> fill_depen_table (un_dependencies c) (depen_table c);
     Some (c\<lparr>depen_table := t\<rparr>) }"

fun push_level :: "nat \<Rightarrow> nat \<Rightarrow> (nat \<times> nat list) list \<Rightarrow> (nat \<times> nat list) list" where
  "push_level k ch [] = [(k, [ch])]"
| "push_level k ch ((k', chs) # m) =
     (if k < k' then (k, [ch]) # (k', chs) # m
      else if k = k' then (k', chs @ [ch]) # m
      else (k', chs) # push_level k ch m)"

definition level_key :: "int \<Rightarrow> nat" where
  "level_key l = unat (word_of_int l :: 32 word)"

definition chain_map_level :: "chainGraph list \<Rightarrow> (nat \<times> nat list) list" where
  "chain_map_level g = fold (\<lambda>ch. push_level (level_key (cg_level ch)) (cg_chainId ch)) g []"

definition find_chain :: "nat \<Rightarrow> chain list \<Rightarrow> chain option" where
  "find_chain i cs = find (\<lambda>c. ch_id c = i) cs"

fun assign_chains :: "nat list \<Rightarrow> 's core \<Rightarrow> 's core option" where
  "assign_chains [] c = Some c"
| "assign_chains (sch_ch # rest) c = do {
     ch \<leftarrow> find_chain sch_ch (input_chain c);
     lane_index \<leftarrow> findMinimum (lane_pre_schedule_size c) (num_lanes c);
     check (lane_index < length (lane_pre_schedule c));
     assign_chains rest (c\<lparr>
       lane_pre_schedule := (lane_pre_schedule c)[lane_index := lane_pre_schedule c ! lane_index @ [sch_ch]],
       lane_pre_schedule_size := (lane_pre_schedule_size c)[lane_index :=
         lane_pre_schedule_size c ! lane_index + of_nat (length (instruction_list ch))]\<rparr>) }"

fun lane_of :: "nat \<Rightarrow> nat list list \<Rightarrow> nat \<Rightarrow> nat option" where
  "lane_of ch [] i = None"
| "lane_of ch (l # ls) i = (if ch \<in> set l then Some i else lane_of ch ls (i + 1))"

definition is_internal :: "'s core \<Rightarrow> chainDependency \<Rightarrow> bool" where
  "is_internal c dep =
     (let src = lane_of (dep_source dep) (lane_pre_schedule c) 0;
          tgt = lane_of (dep_target dep) (lane_pre_schedule c) 0
      in (case src of Some i \<Rightarrow> i | None \<Rightarrow> length (m_lanes c) + 1) =
         (case tgt of Some j \<Rightarrow> j | None \<Rightarrow> length (m_lanes c) + 2))"

definition preschedule :: "'s core \<Rightarrow> 's core option" where
  "preschedule c = do {
     check (0 < length (g_chain_graph c));
     let levels = chain_map_level (g_chain_graph c);
     let c1 = (if length (stack_sche_chain c) = 0
               then c\<lparr>stack_sche_chain := concat (map snd levels)\<rparr> else c);
     c2 \<leftarrow> assign_chains (stack_sche_chain c1) c1;
     Some (c2\<lparr>internal_com := length (filter (is_internal c2) (g_dependencies c2)),
              external_com := length (filter (\<lambda>d. \<not> is_internal c2 d) (g_dependencies c2))\<rparr>) }"

text \<open>In \<^verbatim>\<open>block_preschedule\<close> the two lane variables start uninitialised: what they hold is
  the argument \<open>junk\<close>, and the counting loop compares them after every lane.\<close>

fun assign_block :: "nat \<Rightarrow> nat list \<Rightarrow> 's core \<Rightarrow> 's core option" where
  "assign_block index [] c = Some c"
| "assign_block index (ch # rest) c = do {
     chain \<leftarrow> find_chain ch (input_chain c);
     check (index < length (lane_pre_schedule c) \<and> index < length (lane_pre_schedule_size c));
     assign_block index rest (c\<lparr>
       lane_pre_schedule := (lane_pre_schedule c)[index := lane_pre_schedule c ! index @ [ch]],
       lane_pre_schedule_size := (lane_pre_schedule_size c)[index :=
         lane_pre_schedule_size c ! index + of_nat (length (instruction_list chain))]\<rparr>) }"

fun block_com_dep :: "chainDependency \<Rightarrow> nat list list \<Rightarrow> nat \<Rightarrow> nat \<times> nat \<Rightarrow> nat \<times> nat \<Rightarrow> nat \<times> nat" where
  "block_com_dep dep [] i (s, t) (int_c, ext_c) = (int_c, ext_c)"
| "block_com_dep dep (l # ls) i (s, t) (int_c, ext_c) =
     (let s' = (if dep_source dep \<in> set l then i else s);
          t' = (if dep_target dep \<in> set l then i else t)
      in block_com_dep dep ls (i + 1) (s', t')
           (if s' = t' then (int_c + 1, ext_c) else (int_c, ext_c + 1)))"

definition block_com :: "(nat \<times> nat) \<Rightarrow> 's core \<Rightarrow> 's core" where
  "block_com junk c =
     (let (i, e) = fold (\<lambda>dep. block_com_dep dep (lane_pre_schedule c) 0 junk) (g_dependencies c) (0, 0)
      in c\<lparr>internal_com := i, external_com := e\<rparr>)"

fun block_loop :: "(nat \<times> nat) \<Rightarrow> nat \<Rightarrow> Block list \<Rightarrow> 's core \<Rightarrow> 's core option" where
  "block_loop junk i [] c = Some c"
| "block_loop junk i (bl # rest) c = do {
     check (m_lanes c \<noteq> []);
     c' \<leftarrow> assign_block (i mod length (m_lanes c)) (blk_chains bl) c;
     block_loop junk (i + 1) rest (block_com junk c') }"

definition block_preschedule :: "(nat \<times> nat) \<Rightarrow> 's core \<Rightarrow> 's core option" where
  "block_preschedule junk c = do {
     check (0 < length (g_chain_graph c));
     block_loop junk 0 (g_block_chain c) c }"

definition core_initialize :: "(nat \<times> nat) \<Rightarrow> 's core \<Rightarrow> 's core option" where
  "core_initialize junk c = do {
     c1 \<leftarrow> initialize_depen_table c;
     s \<leftarrow> core_parameter c1 ''SCHEDULER'';
     if s \<noteq> 0 then block_preschedule junk c1 else preschedule c1 }"

fun run_lanes :: "lane_globals \<Rightarrow> lane list \<Rightarrow> (lane_globals \<times> lane list) option" where
  "run_lanes g [] = Some (g, [])"
| "run_lanes g (l # ls) = do {
     (g1, l1) \<leftarrow> lane_run (g, l);
     (g2, ls') \<leftarrow> run_lanes g1 ls;
     Some (g2, l1 # ls') }"

definition run_one_cycle_core :: "'s sequencer_port \<Rightarrow> 's core \<Rightarrow> 's core option" where
  "run_one_cycle_core P c = do {
     (g, ls) \<leftarrow> run_lanes (lane_statics c) (m_lanes c);
     r \<leftarrow> advance_time P (m_ruby (m_memory c));
     Some (c\<lparr>lane_statics := g, m_lanes := ls, m_memory := (m_memory c)\<lparr>m_ruby := r\<rparr>\<rparr>) }"

fun ordered_put :: "nat \<Rightarrow> nat \<Rightarrow> (nat \<times> nat) list \<Rightarrow> (nat \<times> nat) list" where
  "ordered_put k v [] = [(k, v)]"
| "ordered_put k v ((k', v') # m) =
     (if k < k' then (k, v) # (k', v') # m
      else if k = k' then (k, v) # m
      else (k', v') # ordered_put k v m)"

fun send_requests :: "(nat \<times> nat) list \<Rightarrow> 's core \<Rightarrow> 's core option" where
  "send_requests [] c = Some c"
| "send_requests ((l_id, n_id) # q) c = do {
     mem \<leftarrow> send_req (num_iter c) n_id (m_memory c);
     send_requests q (c\<lparr>mem_req_map := ordered_put l_id n_id (mem_req_map c), m_memory := mem\<rparr>) }"

definition send_memory_req :: "'s core \<Rightarrow> 's core option" where
  "send_memory_req c =
     send_requests (mem_req_queue (lane_statics c))
       (c\<lparr>lane_statics := (lane_statics c)\<lparr>mem_req_queue := []\<rparr>\<rparr>)"

fun wake_lanes :: "nat list \<Rightarrow> 's core \<Rightarrow> 's core option" where
  "wake_lanes [] c = Some c"
| "wake_lanes (n # ns) c = do {
     (l, _) \<leftarrow> find (\<lambda>e. snd e = n) (mem_req_map c);
     check (l < length (m_lanes c));
     wake_lanes ns (c\<lparr>m_lanes := (m_lanes c)[l := setExeCounter 0 (m_lanes c ! l)]\<rparr>) }"

definition update_mem_exe :: "'s sequencer_port \<Rightarrow> 's core \<Rightarrow> 's core option" where
  "update_mem_exe P c = do {
     (ids, mem) \<leftarrow> recv_resp P (m_memory c);
     wake_lanes ids (c\<lparr>m_memory := mem\<rparr>) }"

definition temp_status :: "(nat \<Rightarrow> nat \<Rightarrow> nat) \<Rightarrow> nat \<Rightarrow> nat \<Rightarrow> nat" where
  "temp_status t n ch = sum_list (map (t ch) [0..<n])"

definition table_in_range :: "nat \<Rightarrow> nat \<Rightarrow> bool" where
  "table_in_range n ch \<longleftrightarrow> (0 < n \<longrightarrow> ch < MAX_NUM_CHAIN) \<and> n \<le> MAX_NUM_CHAIN"

fun first_ready :: "(nat \<Rightarrow> nat \<Rightarrow> nat) \<Rightarrow> nat \<Rightarrow> nat list \<Rightarrow> nat option option" where
  "first_ready t n [] = Some None"
| "first_ready t n (ch # chs) = do {
     check (table_in_range n ch);
     if temp_status t n ch = 0 then Some (Some ch) else first_ready t n chs }"

text \<open>\<open>load_chain\<close> is the branch \<^verbatim>\<open>if(is_free)\<close> of the scheduler loop.\<close>

definition load_chain :: "nat \<Rightarrow> nat \<Rightarrow> 's core \<Rightarrow> 's core option" where
  "load_chain i temp_free_id c = do {
     ch \<leftarrow> find_chain temp_free_id (input_chain c);
     check (i < length (lane_pre_schedule_size c));
     (_, l) \<leftarrow> LoadInstructionQueue (return_instruction ch) temp_free_id (m_lanes c ! i);
     Some (c\<lparr>lane_pre_schedule := (lane_pre_schedule c)[i := remove1 temp_free_id (lane_pre_schedule c ! i)],
       lane_pre_schedule_size := (lane_pre_schedule_size c)[i :=
         lane_pre_schedule_size c ! i - of_nat (length (instruction_list ch))],
       m_lanes := (m_lanes c)[i := l], chaintoLane := (chaintoLane c)(ch_id ch \<mapsto> i),
       input_chain := remove1 ch (input_chain c)\<rparr>) }"

definition schedule_lane :: "nat \<Rightarrow> 's core \<Rightarrow> 's core option" where
  "schedule_lane i c =
     (if \<not> lane_is_free (m_lanes c ! i) then Some c
      else do {
        check (i < length (lane_pre_schedule c));
        let sche_buff = lane_pre_schedule c ! i;
        if sche_buff = [] then Some (c\<lparr>core_free := core_free c + 1\<rparr>)
        else do {
          r \<leftarrow> first_ready (depen_table c) (num_chains c) sche_buff;
          let c1 = c\<lparr>core_idle := core_idle c + 1,
                     m_lanes := (m_lanes c)[i := (m_lanes c ! i)\<lparr>m_stall := m_stall (m_lanes c ! i) + 1\<rparr>]\<rparr>;
          case r of None \<Rightarrow> Some c1 | Some ch \<Rightarrow> load_chain i ch c1 } })"

fun schedule_lanes :: "nat list \<Rightarrow> 's core \<Rightarrow> 's core option" where
  "schedule_lanes [] c = Some c"
| "schedule_lanes (i # is) c = schedule_lane i c \<bind> schedule_lanes is"

definition ooo_scheduler :: "'s core \<Rightarrow> 's core option" where
  "ooo_scheduler c = schedule_lanes [0..<length (m_lanes c)] c"

definition dependents :: "(nat \<times> nat list) list \<Rightarrow> int \<Rightarrow> nat list" where
  "dependents un ch = (case map_of un (unat (word_of_int ch :: 32 word)) of Some ds \<Rightarrow> ds | None \<Rightarrow> [])"

fun release :: "(nat \<times> nat list) list \<Rightarrow> int list \<Rightarrow> (nat \<Rightarrow> nat \<Rightarrow> nat) \<Rightarrow> (nat \<Rightarrow> nat \<Rightarrow> nat) option" where
  "release un [] t = Some t"
| "release un (ch # chs) t =
     table_set_rows (dependents un ch) (unat (word_of_int ch :: 32 word)) 0 t \<bind> release un chs"

definition updateChains :: "'s core \<Rightarrow> 's core option" where
  "updateChains c = do {
     t \<leftarrow> release (un_dependencies c) (finished_chains (lane_statics c)) (depen_table c);
     Some (c\<lparr>depen_table := t, lane_statics := (lane_statics c)\<lparr>finished_chains := []\<rparr>\<rparr>) }"

definition coreSetIter :: "nat \<Rightarrow> 's core \<Rightarrow> 's core" where
  "coreSetIter n c = c\<lparr>num_iter := n\<rparr>"

definition run_a_cycle :: "'s sequencer_port \<Rightarrow> 's core \<Rightarrow> (bool \<times> 's core) option" where
  "run_a_cycle P c = do {
     c1 \<leftarrow> run_one_cycle_core P c;
     c2 \<leftarrow> send_memory_req c1;
     c3 \<leftarrow> update_mem_exe P c2;
     c4 \<leftarrow> updateChains c3;
     c5 \<leftarrow> ooo_scheduler c4;
     Some (is_finish c5, c5) }"

fun run_cycles :: "'s sequencer_port \<Rightarrow> nat \<Rightarrow> 's core \<Rightarrow> (bool \<times> 's core) option" where
  "run_cycles P 0 c = Some (is_finish c, c)"
| "run_cycles P (Suc k) c = do {
     (fin, c') \<leftarrow> run_a_cycle P c;
     if fin then Some (True, c') else run_cycles P k c' }"

text \<open>The totals \<^verbatim>\<open>finishCore\<close> prints.\<close>

definition finishCore :: "'s core \<Rightarrow> nat \<times> nat \<times> nat \<times> nat \<times> nat \<times> nat" where
  "finishCore c =
     (sum_list (map m_memory_stall (m_lanes c)), sum_list (map m_stall (m_lanes c)),
      internal_com c, external_com c, core_free c, core_idle c)"

definition read_memory_line :: "nat \<Rightarrow> string \<Rightarrow> nat \<Rightarrow> addr \<Rightarrow> 's core \<Rightarrow> 's core" where
  "read_memory_line iter opcode nodeid a c =
     c\<lparr>m_memory := fill_global_memaddr_map iter nodeid
         \<lparr>mv_isWrite = (opcode = ''Store''), mv_addr = a\<rparr> (m_memory c)\<rparr>"

definition memoryInitialize :: "(nat \<times> string \<times> nat \<times> addr) list \<Rightarrow> 's core \<Rightarrow> 's core" where
  "memoryInitialize rows c =
     (let c1 = fold (\<lambda>(iter, opcode, nodeid, a). read_memory_line iter opcode nodeid a) rows c
      in c1\<lparr>m_memory := memory_initialize (m_memory c1)\<rparr>)"

subsection \<open>The least loaded lane\<close>

lemma findMinimum_loop_ok:
  assumes "i + k \<le> length arr" "index < i" "mn = arr ! index" "\<forall>j < i. arr ! index \<le> arr ! j"
    "\<forall>j < index. arr ! index < arr ! j"
  shows "\<exists>m. findMinimum_loop arr limit i mn index k = Some m \<and> m < i + k \<and>
    (\<forall>j < i + k. arr ! m \<le> arr ! j) \<and> (\<forall>j < m. arr ! m < arr ! j)"
  using assms
proof (induction k arbitrary: i mn index)
  case (Suc k)
  show ?case
  proof (cases "arr ! i < mn")
    case True
    then have "\<forall>j < i + 1. arr ! i \<le> arr ! j" "\<forall>j < i. arr ! i < arr ! j"
      using Suc.prems(3,4) by (force simp: less_Suc_eq)+
    with Suc.IH [of "i + 1" i "arr ! i"] Suc.prems(1) True show ?thesis by (simp add: check_bind)
  next
    case False
    then have "\<forall>j < i + 1. arr ! index \<le> arr ! j"
      using Suc.prems(3,4) by (auto simp: less_Suc_eq)
    with Suc.IH [of "i + 1" index mn] Suc.prems False show ?thesis by (simp add: check_bind)
  qed
qed simp

lemma findMinimum_ok:
  assumes "0 < limit" "limit \<le> length arr"
  shows "\<exists>m. findMinimum arr limit = Some m \<and> m < limit \<and>
    (\<forall>j < limit. arr ! m \<le> arr ! j) \<and> (\<forall>j < m. arr ! m < arr ! j)"
  using findMinimum_loop_ok [of 1 "limit - 1" arr 0 "arr ! 0" limit] assms
  by (auto simp: findMinimum_def check_bind)

subsection \<open>Level scheduling\<close>

lemma mset_push_level:
  "mset (concat (map snd (push_level k ch m))) = add_mset ch (mset (concat (map snd m)))"
  by (induction k ch m rule: push_level.induct) auto

lemma chain_map_level_ids:
  "mset (concat (map snd (chain_map_level g))) = mset (map cg_chainId g)"
proof -
  have "mset (concat (map snd (fold (\<lambda>ch. push_level (level_key (cg_level ch)) (cg_chainId ch)) g m)))
      = mset (concat (map snd m)) + mset (map cg_chainId g)" for m
    by (induction g arbitrary: m) (auto simp: mset_push_level)
  from this [of "[]"] show ?thesis by (simp add: chain_map_level_def)
qed

definition chain_len :: "'s core \<Rightarrow> nat \<Rightarrow> nat" where
  "chain_len c i = (case find_chain i (input_chain c) of Some ch \<Rightarrow> length (instruction_list ch) | None \<Rightarrow> 0)"

definition lane_load :: "'s core \<Rightarrow> nat \<Rightarrow> nat" where
  "lane_load c i = sum_list (map (chain_len c) (lane_pre_schedule c ! i))"

definition loads_ok :: "'s core \<Rightarrow> nat \<Rightarrow> bool" where
  "loads_ok c L \<longleftrightarrow> 0 < num_lanes c \<and> length (lane_pre_schedule c) = num_lanes c \<and>
     num_lanes c \<le> length (lane_pre_schedule_size c) \<and>
     (\<forall>i < num_lanes c. unat (lane_pre_schedule_size c ! i) = lane_load c i) \<and>
     (\<forall>i < num_lanes c. \<forall>j < num_lanes c. lane_load c i \<le> lane_load c j + L)"

lemma mset_concat_update:
  "i < length xss \<Longrightarrow> mset (concat (xss[i := xss ! i @ [x]])) = add_mset x (mset (concat xss))"
  by (induction xss arbitrary: i) (auto split: nat.splits)

lemma assign_chains_ok:
  assumes "loads_ok c L" "\<forall>i \<in> set q. find_chain i (input_chain c) \<noteq> None"
    "\<forall>i \<in> set q. chain_len c i \<le> L"
    "\<forall>i < num_lanes c. lane_load c i + sum_list (map (chain_len c) q) < 2 ^ 32"
  shows "\<exists>c'. assign_chains q c = Some c' \<and> loads_ok c' L \<and>
    input_chain c' = input_chain c \<and> num_lanes c' = num_lanes c \<and>
    mset (concat (lane_pre_schedule c')) = mset (concat (lane_pre_schedule c)) + mset q"
  using assms
proof (induction q arbitrary: c)
  case Nil
  then show ?case by simp
next
  case (Cons x q)
  let ?sz = "lane_pre_schedule_size c" and ?n = "num_lanes c"
  note L = Cons.prems(1) [unfolded loads_ok_def]
  from Cons.prems(2) obtain ch where ch: "find_chain x (input_chain c) = Some ch" by auto
  from findMinimum_ok [of ?n ?sz] L obtain m where
    m: "findMinimum ?sz ?n = Some m" "m < ?n" "\<forall>j < ?n. ?sz ! m \<le> ?sz ! j" by auto
  let ?c = "c\<lparr>lane_pre_schedule := (lane_pre_schedule c)[m := lane_pre_schedule c ! m @ [x]],
    lane_pre_schedule_size := ?sz[m := ?sz ! m + of_nat (length (instruction_list ch))]\<rparr>"
  have len: "chain_len c x = length (instruction_list ch)" using ch by (simp add: chain_len_def)
  have cl: "chain_len ?c = chain_len c" by (simp add: chain_len_def fun_eq_iff)
  have load: "lane_load ?c i = (if i = m then lane_load c i + chain_len c x else lane_load c i)" if "i < ?n" for i
    using that L m(2) cl by (simp add: lane_load_def nth_list_update)
  have mn: "lane_load c m \<le> lane_load c j" if "j < ?n" for j
    using m that L by (metis word_le_nat_alt)
  have fit: "unat (?sz ! m + of_nat (length (instruction_list ch))) = lane_load c m + chain_len c x"
    using Cons.prems(4) L m(2) len
    by (subst unat_add_lem [THEN iffD1]) (auto simp: unat_of_nat take_bit_eq_mod)
  have "loads_ok ?c L"
    unfolding loads_ok_def
  proof (intro conjI allI impI)
    fix i j assume "i < num_lanes ?c" "j < num_lanes ?c"
    then have ij: "i < ?n" "j < ?n" by simp_all
    then show "lane_load ?c i \<le> lane_load ?c j + L"
      using L mn [of i] mn [of j] Cons.prems(3) by (fastforce simp: load)
  qed (use L m(2) fit in \<open>auto simp: nth_list_update load\<close>)
  moreover have "\<forall>i < num_lanes ?c. lane_load ?c i + sum_list (map (chain_len ?c) q) < 2 ^ 32"
    using Cons.prems(4) by (fastforce simp: load cl)
  ultimately have "\<exists>c'. assign_chains q ?c = Some c' \<and> loads_ok c' L \<and>
    input_chain c' = input_chain ?c \<and> num_lanes c' = num_lanes ?c \<and>
    mset (concat (lane_pre_schedule c')) = mset (concat (lane_pre_schedule ?c)) + mset q"
    using Cons.prems(2,3) by (intro Cons.IH) (auto simp: cl)
  then show ?case
    using ch m L by (auto simp: check_bind mset_concat_update)
qed

definition example_core :: "nat \<Rightarrow> unit core option" where
  "example_core n = do {
     c \<leftarrow> core_new [''MEMORY_MODE'' \<mapsto> 0, ''SCHEDULER'' \<mapsto> 0]
       [''FETCH_DELAY'' \<mapsto> 2, ''DECODE_DELAY'' \<mapsto> 2, ''L1_MISS_LATENCY'' \<mapsto> 1,
        ''L2_MISS_LATENCY'' \<mapsto> 25, ''L3_MISS_LATENCY'' \<mapsto> 100] n (o3_new 1 ());
     buildChains (\<lambda>n. if n = 0 then ''FMul'' else ''Add'') id [''FMul'' \<mapsto> 5, ''Add'' \<mapsto> 2]
       [[0, 1], [2]] [(0, [1])] [(1, [0])]
       (c\<lparr>g_chain_graph := [chainGraph_new\<lparr>cg_level := 0\<rparr>, chainGraph_new\<lparr>cg_chainId := 1, cg_level := 1\<rparr>],
          g_dependencies := [\<lparr>dep_source = 0, dep_target = 1\<rparr>]\<rparr>) }"

text \<open>Level scheduling is complete and balanced. From an empty schedule with zero loads,
  \<^verbatim>\<open>Core::preschedule\<close> places every chain of the scheduling stack exactly once (on first use the
  stack holds exactly the chains of the graph), keeps the recorded size of a lane equal to the
  number of instructions placed on it, and the sizes of two lanes never differ by more than the
  longest chain.  All scheduled chains must be known, no longer than \<open>L\<close>, and fewer than
  \<open>2 ^ 32\<close> instructions in total.\<close>

lemma preschedule_balanced:
  assumes "g_chain_graph c \<noteq> []" "0 < num_lanes c" "num_lanes c \<le> MAX_NUM_CHAIN"
    and "lane_pre_schedule c = replicate (num_lanes c) []"
    and "lane_pre_schedule_size c = replicate MAX_NUM_CHAIN 0"
    and "q = (if stack_sche_chain c = [] then concat (map snd (chain_map_level (g_chain_graph c)))
              else stack_sche_chain c)"
    and "\<forall>i \<in> set q. find_chain i (input_chain c) \<noteq> None \<and> chain_len c i \<le> L"
    and "sum_list (map (chain_len c) q) < 2 ^ 32"
  shows "\<exists>c'. preschedule c = Some c' \<and> mset (concat (lane_pre_schedule c')) = mset q \<and>
    (stack_sche_chain c = [] \<longrightarrow> mset q = mset (map cg_chainId (g_chain_graph c))) \<and>
    (\<forall>i < num_lanes c. unat (lane_pre_schedule_size c' ! i) = lane_load c' i) \<and>
    (\<forall>i < num_lanes c. \<forall>j < num_lanes c. lane_load c' i \<le> lane_load c' j + L)"
proof -
  let ?c = "if stack_sche_chain c = [] then c\<lparr>stack_sche_chain := q\<rparr> else c"
  have f: "input_chain ?c = input_chain c" "num_lanes ?c = num_lanes c" "g_chain_graph ?c = g_chain_graph c"
    "lane_pre_schedule ?c = lane_pre_schedule c" "lane_pre_schedule_size ?c = lane_pre_schedule_size c"
    "stack_sche_chain ?c = q"
    using assms(6) by simp_all
  then have cl: "chain_len ?c = chain_len c" by (simp add: chain_len_def fun_eq_iff)
  have z: "lane_load ?c i = 0" if "i < num_lanes c" for i
    using that assms(4) f by (simp add: lane_load_def)
  have "loads_ok ?c L"
    using assms(2-5) f z by (simp add: loads_ok_def)
  from assign_chains_ok [OF this, of q] assms(7,8) z obtain c' where c':
    "assign_chains q ?c = Some c'" "loads_ok c' L" "num_lanes c' = num_lanes c"
    "mset (concat (lane_pre_schedule c')) = mset (concat (lane_pre_schedule c)) + mset q"
    unfolding cl f by auto
  let ?r = "c'\<lparr>internal_com := length (filter (is_internal c') (g_dependencies c')),
      external_com := length (filter (\<lambda>d. \<not> is_internal c' d) (g_dependencies c'))\<rparr>"
  have "preschedule c = assign_chains (stack_sche_chain ?c) ?c \<bind> (\<lambda>c2.
      Some (c2\<lparr>internal_com := length (filter (is_internal c2) (g_dependencies c2)),
              external_com := length (filter (\<lambda>d. \<not> is_internal c2 d) (g_dependencies c2))\<rparr>))"
    using assms(1,6) by (simp add: preschedule_def check_bind Let_def)
  then have "preschedule c = Some ?r" using c'(1) f(6) by simp
  moreover have "lane_load ?r i = lane_load c' i" for i
    by (simp add: lane_load_def chain_len_def [abs_def])
  ultimately show ?thesis
    using c' assms(4,6) chain_map_level_ids [of "g_chain_graph c"] by (auto simp: loads_ok_def)
qed

subsection \<open>Out-of-order loading\<close>

definition sched_inv :: "'s core \<Rightarrow> bool" where
  "sched_inv c \<longleftrightarrow> length (lane_pre_schedule c) = length (m_lanes c) \<and>
     length (m_lanes c) \<le> length (lane_pre_schedule_size c) \<and>
     num_chains c \<le> MAX_NUM_CHAIN \<and> list_all lane_params_ok (m_lanes c) \<and>
     (\<forall>i \<in># mset (concat (lane_pre_schedule c)). i < MAX_NUM_CHAIN) \<and>
     mset (concat (lane_pre_schedule c)) \<subseteq># mset (map ch_id (input_chain c))"

definition loads :: "'s core \<Rightarrow> chain list \<Rightarrow> 's core \<Rightarrow> bool" where
  "loads c chs c' \<longleftrightarrow>
     depen_table c' = depen_table c \<and> num_chains c' = num_chains c \<and>
     length (m_lanes c') = length (m_lanes c) \<and>
     mset (input_chain c) = mset chs + mset (input_chain c') \<and>
     mset (concat (lane_pre_schedule c)) = mset (map ch_id chs) + mset (concat (lane_pre_schedule c')) \<and>
     mset (concat (map in_flight (m_lanes c'))) =
       mset (concat (map in_flight (m_lanes c))) + mset (concat (map instruction_list chs)) \<and>
     (\<forall>ch \<in> set chs. \<forall>j < num_chains c. depen_table c (ch_id ch) j = 0)"

lemma loads_refl: "loads c [] c"
  by (simp add: loads_def)

lemma loads_trans: "loads c xs c1 \<Longrightarrow> loads c1 ys c2 \<Longrightarrow> loads c (xs @ ys) c2"
  by (auto simp: loads_def)

lemma mset_concat_upd:
  assumes "i < length xss"
  shows "mset (concat (xss[i := ys])) + mset (xss ! i) = mset (concat xss) + mset ys"
  using assms by (induction xss arbitrary: i) (auto split: nat.splits simp: ac_simps)

lemma mset_concat_remove1:
  assumes "i < length xss" "x \<in> set (xss ! i)"
  shows "mset (concat xss) = add_mset x (mset (concat (xss[i := remove1 x (xss ! i)])))"
proof -
  let ?A = "mset (concat xss)" and ?B = "mset (concat (xss[i := remove1 x (xss ! i)]))"
  have "mset (xss ! i) = {#x#} + mset (remove1 x (xss ! i))" using assms(2) by simp
  with mset_concat_upd [OF assms(1), of "remove1 x (xss ! i)"]
  have "(?B + {#x#}) + mset (remove1 x (xss ! i)) = ?A + mset (remove1 x (xss ! i))"
    by (metis add.assoc)
  then have "?B + {#x#} = ?A" by (rule add_right_imp_eq)
  then show ?thesis by simp
qed

lemma mset_concat_map_upd:
  assumes "i < length xs" "mset (f y) = mset (f (xs ! i)) + M"
  shows "mset (concat (map f (xs[i := y]))) = mset (concat (map f xs)) + M"
  using mset_concat_upd [of i "map f xs" "f y"] assms by (simp add: map_update)

lemma first_ready_ok:
  assumes "n \<le> MAX_NUM_CHAIN" "\<forall>i \<in> set chs. i < MAX_NUM_CHAIN"
  shows "\<exists>r. first_ready t n chs = Some r \<and>
    (case r of None \<Rightarrow> \<forall>ch \<in> set chs. \<exists>j < n. t ch j \<noteq> 0
     | Some ch \<Rightarrow> ch \<in> set chs \<and> (\<forall>j < n. t ch j = 0))"
  using assms
proof (induction chs)
  case (Cons x chs)
  have z: "temp_status t n x = 0 \<longleftrightarrow> (\<forall>j < n. t x j = 0)"
    by (auto simp: temp_status_def)
  from Cons obtain r where "first_ready t n chs = Some r"
    "case r of None \<Rightarrow> \<forall>ch \<in> set chs. \<exists>j < n. t ch j \<noteq> 0
     | Some ch \<Rightarrow> ch \<in> set chs \<and> (\<forall>j < n. t ch j = 0)" by auto
  with Cons.prems z show ?case
    by (auto simp: check_bind table_in_range_def split: option.splits)
qed simp

lemma load_chain_ok:
  assumes "sched_inv c" "i < length (m_lanes c)" "x \<in> set (lane_pre_schedule c ! i)"
    "\<forall>j < num_chains c. depen_table c x j = 0"
  shows "\<exists>c' ch. load_chain i x c = Some c' \<and> ch_id ch = x \<and> loads c [ch] c' \<and> sched_inv c' \<and>
     in_flight (m_lanes c' ! i) = in_flight (m_lanes c ! i) @ instruction_list ch"
proof -
  note I = assms(1) [unfolded sched_inv_def]
  have xin: "x \<in># mset (concat (lane_pre_schedule c))"
    using assms(2,3) I by (auto intro!: bexI [of _ "lane_pre_schedule c ! i"])
  then have "x \<in># mset (map ch_id (input_chain c))" using I by (meson mset_subset_eqD)
  then obtain ch where ch: "find_chain x (input_chain c) = Some ch"
    by (cases "find_chain x (input_chain c)") (auto simp: find_chain_def find_None_iff)
  then have chin: "ch \<in> set (input_chain c)" "ch_id ch = x" by (auto simp: find_chain_def find_Some_iff)
  obtain d where d: "lane_param (m_lanes c ! i) ''DECODE_DELAY'' = Some d"
    using I assms(2) by (auto simp: list_all_length lane_params_ok_def)
  let ?l = "(m_lanes c ! i)\<lparr>instruction_queue := instruction_queue (m_lanes c ! i) @ instruction_list ch,
    m_current_ch := int x, decode_cnt := d, schChainsList := schChainsList (m_lanes c ! i) @ [x]\<rparr>"
  let ?c = "c\<lparr>lane_pre_schedule := (lane_pre_schedule c)[i := remove1 x (lane_pre_schedule c ! i)],
       lane_pre_schedule_size := (lane_pre_schedule_size c)[i :=
         lane_pre_schedule_size c ! i - of_nat (length (instruction_list ch))],
       m_lanes := (m_lanes c)[i := ?l], chaintoLane := (chaintoLane c)(ch_id ch \<mapsto> i),
       input_chain := remove1 ch (input_chain c)\<rparr>"
  have load: "load_chain i x c = Some ?c"
    using ch d I assms(2)
    by (simp add: load_chain_def LoadInstructionQueue_def check_bind setDCounter_def return_instruction_def Let_def)
  have fl: "in_flight ?l = in_flight (m_lanes c ! i) @ instruction_list ch" by (simp add: in_flight_def)
  have pre: "mset (concat (lane_pre_schedule c)) = add_mset x (mset (concat (lane_pre_schedule ?c)))"
    using mset_concat_remove1 [of i "lane_pre_schedule c" x] assms(2,3) I by simp
  have ic: "mset (input_chain c) = add_mset ch (mset (input_chain ?c))" using chin by simp
  have fls: "mset (concat (map in_flight (m_lanes ?c))) =
      mset (concat (map in_flight (m_lanes c))) + mset (instruction_list ch)"
    using mset_concat_map_upd [of i "m_lanes c" in_flight ?l] assms(2) fl by simp
  have ld: "loads c [ch] ?c"
    unfolding loads_def
  proof (intro conjI)
    show "mset (input_chain c) = mset [ch] + mset (input_chain ?c)"
      by (rule trans [OF ic]) simp
    show "mset (concat (lane_pre_schedule c)) = mset (map ch_id [ch]) + mset (concat (lane_pre_schedule ?c))"
      using chin(2) by (intro trans [OF pre]) simp
    show "mset (concat (map in_flight (m_lanes ?c))) =
        mset (concat (map in_flight (m_lanes c))) + mset (concat (map instruction_list [ch]))"
      by (rule trans [OF fls]) simp
  qed (use chin(2) assms(4) in simp_all)
  have e: "mset (map ch_id (input_chain c)) = add_mset x (mset (map ch_id (input_chain ?c)))"
    by (simp only: mset_map ic image_mset_add_mset chin(2))
  have "mset (concat (lane_pre_schedule c)) \<subseteq># mset (map ch_id (input_chain c))" using I by blast
  then have "mset (concat (lane_pre_schedule ?c)) \<subseteq># mset (map ch_id (input_chain ?c))"
    by (simp only: pre e mset_subset_eq_add_mset_cancel)
  moreover have "\<forall>j \<in># mset (concat (lane_pre_schedule c)). j < MAX_NUM_CHAIN" using I by blast
  then have "\<forall>j \<in># mset (concat (lane_pre_schedule ?c)). j < MAX_NUM_CHAIN"
    unfolding pre set_mset_add_mset_insert by - (rule ballI, erule bspec, erule insertI2)
  moreover have "list_all lane_params_ok (m_lanes ?c)"
    using I assms(2) by (auto simp: list_all_length nth_list_update lane_params_ok_def)
  ultimately have "sched_inv ?c"
    unfolding sched_inv_def using I by simp
  with load ld chin(2) fl assms(2) show ?thesis by (intro exI [of _ ?c] exI [of _ ch]) simp
qed

lemma schedule_lane_ok:
  assumes "sched_inv c" "i < length (m_lanes c)"
  shows "\<exists>c' chs. schedule_lane i c = Some c' \<and> loads c chs c' \<and> sched_inv c'"
proof (cases "lane_is_free (m_lanes c ! i) \<and> lane_pre_schedule c ! i \<noteq> []")
  case True
  note I = assms(1) [unfolded sched_inv_def]
  let ?l = "(m_lanes c ! i)\<lparr>m_stall := m_stall (m_lanes c ! i) + 1\<rparr>"
  let ?c = "c\<lparr>core_idle := core_idle c + 1, m_lanes := (m_lanes c)[i := ?l]\<rparr>"
  have "mset (concat (map in_flight (m_lanes ?c))) = mset (concat (map in_flight (m_lanes c)))"
    using mset_concat_map_upd [of i "m_lanes c" in_flight ?l "{#}"] assms(2) by (simp add: in_flight_def)
  then have l1: "loads c [] ?c" by (simp add: loads_def)
  have inv: "sched_inv ?c"
    using I assms(2) by (auto simp: sched_inv_def list_all_length nth_list_update lane_params_ok_def)
  have "\<forall>j \<in> set (lane_pre_schedule c ! i). j < MAX_NUM_CHAIN" using I assms(2) by auto
  with first_ready_ok [of "num_chains c" "lane_pre_schedule c ! i" "depen_table c"] I obtain r where
    r: "first_ready (depen_table c) (num_chains c) (lane_pre_schedule c ! i) = Some r"
    "case r of None \<Rightarrow> True | Some ch \<Rightarrow> ch \<in> set (lane_pre_schedule c ! i) \<and>
       (\<forall>j < num_chains c. depen_table c ch j = 0)"
    by (auto split: option.splits)
  have step: "schedule_lane i c = (case r of None \<Rightarrow> Some ?c | Some ch \<Rightarrow> load_chain i ch ?c)"
    using True I assms(2) r(1) by (simp add: schedule_lane_def check_bind Let_def split: option.split)
  show ?thesis
  proof (cases r)
    case None
    with step l1 inv show ?thesis by auto
  next
    case (Some x)
    with load_chain_ok [OF inv, of i x] r(2) assms(2) obtain c' ch where
      "load_chain i x ?c = Some c'" "loads ?c [ch] c'" "sched_inv c'" by auto
    moreover from this l1 have "loads c [ch] c'" using loads_trans by fastforce
    ultimately show ?thesis using step Some by auto
  qed
next
  case False
  have "loads c [] (c\<lparr>core_free := core_free c + 1\<rparr>)" "sched_inv (c\<lparr>core_free := core_free c + 1\<rparr>)"
    using assms(1) by (simp_all add: loads_def sched_inv_def)
  moreover have "i < length (lane_pre_schedule c)" using assms by (simp add: sched_inv_def)
  ultimately show ?thesis
    using False loads_refl [of c] assms(1) unfolding schedule_lane_def by (auto simp: check_bind Let_def)
qed

lemma schedule_lanes_ok:
  assumes "sched_inv c" "\<forall>i \<in> set is. i < length (m_lanes c)"
  shows "\<exists>c' chs. schedule_lanes is c = Some c' \<and> loads c chs c' \<and> sched_inv c'"
  using assms
proof (induction "is" arbitrary: c)
  case Nil
  then show ?case using loads_refl by auto
next
  case (Cons i "is")
  from schedule_lane_ok [OF Cons.prems(1), of i] Cons.prems(2) obtain c1 xs where
    c1: "schedule_lane i c = Some c1" "loads c xs c1" "sched_inv c1" by auto
  then have "\<forall>i \<in> set is. i < length (m_lanes c1)" using Cons.prems(2) by (simp add: loads_def)
  from Cons.IH [OF c1(3) this] obtain c' ys where
    "schedule_lanes is c1 = Some c'" "loads c1 ys c'" "sched_inv c'" by blast
  with c1 loads_trans [OF c1(2)] show ?case by auto
qed

lemma example_core_inv:
  "\<exists>c. example_core 2 \<bind> core_initialize (0, 0) = Some c \<and> sched_inv c \<and>
     lane_pre_schedule c = [[0], [1]] \<and> map ch_id (input_chain c) = [0, 1]"
proof -
  have "(case example_core 2 \<bind> core_initialize (0, 0) of None \<Rightarrow> False
    | Some c \<Rightarrow> length (lane_pre_schedule_size c) = 700 \<and> num_chains c = 2 \<and>
        list_all (\<lambda>l. list_all (\<lambda>p. lane_param l p \<noteq> None)
          [''FETCH_DELAY'', ''DECODE_DELAY'', ''L1_MISS_LATENCY'', ''L2_MISS_LATENCY'', ''L3_MISS_LATENCY'']) (m_lanes c) \<and>
        length (m_lanes c) = 2 \<and>
        lane_pre_schedule c = [[0], [1]] \<and> map ch_id (input_chain c) = [0, 1])"
    by code_simp
  then show ?thesis
    by (auto split: option.splits simp: sched_inv_def lane_params_ok_def list_all_iff MAX_NUM_CHAIN_def
        mset_map [symmetric] simp del: mset_map)
qed

text \<open>C2. \<^verbatim>\<open>Core::ooo_scheduler\<close> never aborts on a consistent schedule, loads only chains whose
  dependency row is clear, and neither loses nor duplicates work: the loaded chains leave
  \<^verbatim>\<open>input_chain\<close> and the pre-schedule, and exactly their instructions enter the lanes.\<close>

theorem ooo_scheduler_safe:
  assumes "sched_inv c"
  shows "\<exists>c' chs. ooo_scheduler c = Some c' \<and> sched_inv c' \<and>
     mset (input_chain c) = mset chs + mset (input_chain c') \<and>
     mset (concat (lane_pre_schedule c)) = mset (map ch_id chs) + mset (concat (lane_pre_schedule c')) \<and>
     mset (concat (map in_flight (m_lanes c'))) =
       mset (concat (map in_flight (m_lanes c))) + mset (concat (map instruction_list chs)) \<and>
     (\<forall>ch \<in> set chs. \<forall>j < num_chains c. depen_table c (ch_id ch) j = 0)"
  using schedule_lanes_ok [OF assms, of "[0..<length (m_lanes c)]"]
  by (auto simp: ooo_scheduler_def loads_def)

theorem ooo_scheduler_safe_witness:
  "\<exists>c c' chs. example_core 2 \<bind> core_initialize (0, 0) = Some c \<and> sched_inv c \<and>
     ooo_scheduler c = Some c' \<and> mset (input_chain c) = mset chs + mset (input_chain c')"
  using example_core_inv ooo_scheduler_safe by blast

subsection \<open>Releasing dependents\<close>

lemma table_set_rows_ok:
  assumes "col < MAX_NUM_CHAIN" "\<forall>r \<in> set rs. r < MAX_NUM_CHAIN"
  shows "table_set_rows rs col v t = Some (\<lambda>r q. if q = col \<and> r \<in> set rs then v else t r q)"
  using assms by (induction rs arbitrary: t) (auto simp: table_set_def check_bind fun_eq_iff)

lemma fill_depen_table_ok:
  assumes "\<forall>(p, rs) \<in> set ds. p < MAX_NUM_CHAIN \<and> (\<forall>r \<in> set rs. r < MAX_NUM_CHAIN)"
  shows "fill_depen_table ds t = Some (\<lambda>r q. if \<exists>rs. (q, rs) \<in> set ds \<and> r \<in> set rs then 1 else t r q)"
  using assms
  by (induction ds arbitrary: t) (auto simp: table_set_rows_ok fun_eq_iff)

lemma release_ok:
  assumes "\<forall>(p, rs) \<in> set un. p < MAX_NUM_CHAIN \<and> (\<forall>r \<in> set rs. r < MAX_NUM_CHAIN)"
    "\<forall>ch \<in> set fin. 0 \<le> ch \<and> ch < int MAX_NUM_CHAIN"
  shows "release un fin t = Some (\<lambda>r q. if int q \<in> set fin \<and> r \<in> set (dependents un (int q)) then 0 else t r q)"
  using assms(2)
proof (induction fin arbitrary: t)
  case (Cons ch fin)
  then obtain k where k: "ch = int k" "k < MAX_NUM_CHAIN" by (metis list.set_intros(1) of_nat_less_iff zero_le_imp_eq_int)
  then have u: "unat (word_of_int ch :: 32 word) = k"
    by (simp add: MAX_NUM_CHAIN_def unat_of_nat take_bit_eq_mod)
  then have "\<forall>r \<in> set (dependents un ch). r < MAX_NUM_CHAIN"
    using assms(1) by (fastforce simp: dependents_def split: option.splits dest: map_of_SomeD)
  with Cons k u show ?case by (auto simp: table_set_rows_ok fun_eq_iff)
qed simp

definition deps_in_range :: "(nat \<times> nat list) list \<Rightarrow> bool" where
  "deps_in_range un \<longleftrightarrow> distinct (map fst un) \<and>
     list_all (\<lambda>(p, rs). p < MAX_NUM_CHAIN \<and> list_all (\<lambda>r. r < MAX_NUM_CHAIN) rs) un"

text \<open>C28. Dependency tracking: after \<^verbatim>\<open>initialize_depen_table\<close> on a clear table and
  \<^verbatim>\<open>updateChains\<close> on any sequence of reported chains, the entry of chain \<open>r\<close> for chain \<open>q\<close> is set
  exactly when \<open>r\<close> depends on \<open>q\<close> and \<open>q\<close> has not been reported; the reports are consumed.\<close>

theorem depen_table_exact:
  assumes "deps_in_range (un_dependencies c)" "depen_table c = (\<lambda>_ _. 0)"
    and "\<forall>ch \<in> set fin. 0 \<le> ch \<and> ch < int MAX_NUM_CHAIN"
  shows "\<exists>c1 c2. initialize_depen_table c = Some c1 \<and>
     updateChains (c1\<lparr>lane_statics := (lane_statics c1)\<lparr>finished_chains := fin\<rparr>\<rparr>) = Some c2 \<and>
     finished_chains (lane_statics c2) = [] \<and>
     (\<forall>r q. depen_table c2 r q =
        (if (\<exists>rs. (q, rs) \<in> set (un_dependencies c) \<and> r \<in> set rs) \<and> int q \<notin> set fin then 1 else 0))"
proof -
  let ?un = "un_dependencies c"
  have rng: "\<forall>(p, rs) \<in> set ?un. p < MAX_NUM_CHAIN \<and> (\<forall>r \<in> set rs. r < MAX_NUM_CHAIN)"
    and d: "distinct (map fst ?un)" using assms(1) by (auto simp: deps_in_range_def list_all_iff)
  have dep: "r \<in> set (dependents ?un (int q)) \<longleftrightarrow> (\<exists>rs. (q, rs) \<in> set ?un \<and> r \<in> set rs)"
    if "int q \<in> set fin" for r q
  proof -
    have "q < MAX_NUM_CHAIN" using assms(3) that by auto
    then have "unat (word_of_int (int q) :: 32 word) = q"
      by (simp add: MAX_NUM_CHAIN_def unat_of_nat take_bit_eq_mod)
    then show ?thesis
      using d by (fastforce simp: dependents_def split: option.splits dest: map_of_SomeD simp: map_of_eq_None_iff)
  qed
  show ?thesis
    using fill_depen_table_ok [OF rng, of "\<lambda>_ _. 0"] release_ok [OF rng assms(3)] assms(2) dep
    by (auto simp: initialize_depen_table_def updateChains_def)
qed

theorem depen_table_exact_witness:
  "\<exists>c c1 c2. example_core 2 = Some c \<and> initialize_depen_table c = Some c1 \<and>
     updateChains (c1\<lparr>lane_statics := (lane_statics c1)\<lparr>finished_chains := [0]\<rparr>\<rparr>) = Some c2 \<and>
     depen_table c2 1 0 = 0"
proof -
  obtain c where c: "example_core 2 = Some c" "depen_table c = (\<lambda>_ _. 0)" "un_dependencies c = [(0, [1])]"
    by (simp add: example_core_def core_new_def buildChains_def Let_def)
  then show ?thesis
    using depen_table_exact [of c "[0]"] by (fastforce simp: deps_in_range_def MAX_NUM_CHAIN_def)
qed

subsection \<open>Two early-completion behaviours\<close>



end
