(* ===== verification/Std_String.thy ===== *)
theory Std_String
  imports Ruby_Prelude
begin

text \<open>
  Conversions of strings to numbers as the C and C++ libraries define them, and \<^verbatim>\<open>string_split\<close> of
  \<^verbatim>\<open>common/util.C\<close>.
\<close>

definition is_space :: "char \<Rightarrow> bool" where
  "is_space c \<longleftrightarrow> of_char c = (32 :: nat) \<or> 9 \<le> (of_char c :: nat) \<and> of_char c \<le> (13 :: nat)"

definition is_digit :: "char \<Rightarrow> bool" where
  "is_digit c \<longleftrightarrow> 48 \<le> (of_char c :: nat) \<and> of_char c \<le> (57 :: nat)"

definition digits_value :: "string \<Rightarrow> int" where
  "digits_value ds = foldl (\<lambda>n c. 10 * n + (of_char c - 48)) 0 ds"

text \<open>\<^verbatim>\<open>std::stoi\<close> and \<^verbatim>\<open>std::stoll\<close>: leading white space, an optional sign, then digits; \<open>None\<close> is
  the exception.\<close>

definition scan_int :: "string \<Rightarrow> int option" where
  "scan_int s0 = do {
     let s = dropWhile is_space s0;
     let neg = (take 1 s = ''-'');
     let t = (if neg \<or> take 1 s = ''+'' then drop 1 s else s);
     let ds = takeWhile is_digit t;
     check (ds \<noteq> []);
     Some (if neg then - digits_value ds else digits_value ds) }"

definition stoi :: "string \<Rightarrow> int option" where
  "stoi s = do { v \<leftarrow> scan_int s; check (- (2 ^ 31) \<le> v \<and> v < 2 ^ 31); Some v }"

definition stoll :: "string \<Rightarrow> int option" where
  "stoll s = do { v \<leftarrow> scan_int s; check (- (2 ^ 63) \<le> v \<and> v < 2 ^ 63); Some v }"

text \<open>\<^verbatim>\<open>atoi\<close> gives 0 without digits and is undefined outside the range of \<^verbatim>\<open>int\<close>.\<close>

definition atoi :: "string \<Rightarrow> int option" where
  "atoi s = (case scan_int s of None \<Rightarrow> Some 0 | Some v \<Rightarrow> do { check (- (2 ^ 31) \<le> v \<and> v < 2 ^ 31); Some v })"

text \<open>The head up to the first occurrence of the character, and the rest behind it.\<close>

fun string_split :: "char \<Rightarrow> string \<Rightarrow> string \<times> string" where
  "string_split ch [] = ([], [])"
| "string_split ch (x # xs) = (if x = ch then ([], xs) else case string_split ch xs of (h, t) \<Rightarrow> (x # h, t))"

lemma string_split_join:
  "ch \<notin> set h \<Longrightarrow> string_split ch (h @ ch # t) = (h, t)" "ch \<notin> set h \<Longrightarrow> string_split ch h = (h, [])"
  by (induction h) auto

end
