(* ===== verification/Cs_Decompose.thy ===== *)
theory Cs_Decompose
  imports Cs_Graph Std_String "HOL-Library.List_Lexorder" "HOL-Library.Char_ord"
begin

text \<open>
  Decomposition of a data-flow graph into chains: class \<^verbatim>\<open>newGraph\<close> of \<^verbatim>\<open>src/newGraph.cpp\<close>. The
  graph that \<^verbatim>\<open>read_graphviz\<close> delivers and the parameter and instruction tables are data of the
  record; every member function that changes the object is a function on the record, with
  \<open>None\<close> for a failed assertion, an exception of \<^verbatim>\<open>std::stoi\<close>, an index out of range or a
  dereferenced end iterator. Labels are taken to have no line breaks. Floating-point averages and
  everything that is only printed are left out.
\<close>

record newGraph =
  first_node_id :: nat
  first_ch :: nat
  chain_graph :: "chainGraph list"
  graph_parameter :: "string \<Rightarrow> nat option"
  llvm_ins :: "string \<Rightarrow> nat option"
  dirty_graph :: "vertex_prop boost_graph"
  clean_graph :: "vertex_prop boost_graph"
  orig_graph :: "vertex_prop boost_graph"
  ilp_graph :: "vertex_prop boost_graph"
  comp_graph :: "vertex_prop_com boost_graph"
  Chains :: "nat list list"
  max_ilp :: nat
  max_mlp :: nat
  num_ops :: nat
  graph_length :: nat
  firstlevelLD :: nat
  ins_histo :: "(string \<times> nat) list"
  chain_level :: "(nat \<times> nat list) list"
  block_chain :: "Block list"
  orig_map :: "(nat \<times> int) list"
  vertex_to_Chunk :: "(nat \<times> nat) list"
  ng_dependencies :: "chainDependency list"
  chain_to_dependencies :: "(nat \<times> nat list) list"
  reverse_mapping :: "(nat \<times> nat list) list"
  ng_un_dependencies :: "(nat \<times> nat list) list"
  un_reverse_mapping :: "(nat \<times> nat list) list"
  chain_map :: "(nat \<times> nat list) list"

text \<open>The constructor leaves the statistics uninitialised; the only one read before it is written
  is \<^verbatim>\<open>max_ilp\<close>, an argument here.\<close>

definition newGraph_new ::
  "(string \<Rightarrow> nat option) \<Rightarrow> (string \<Rightarrow> nat option) \<Rightarrow> nat \<Rightarrow> vertex_prop boost_graph \<Rightarrow> newGraph" where
  "newGraph_new params llvm uninit dirty =
     \<lparr>first_node_id = 0, first_ch = 0, chain_graph = [], graph_parameter = params, llvm_ins = llvm,
      dirty_graph = dirty, clean_graph = empty_graph, orig_graph = empty_graph, ilp_graph = empty_graph,
      comp_graph = empty_graph, Chains = [], max_ilp = uninit, max_mlp = 0, num_ops = 0, graph_length = 0,
      firstlevelLD = 0, ins_histo = [], chain_level = [], block_chain = [], orig_map = [],
      vertex_to_Chunk = [], ng_dependencies = [], chain_to_dependencies = [], reverse_mapping = [],
      ng_un_dependencies = [], un_reverse_mapping = [], chain_map = []\<rparr>"

subsection \<open>Strings\<close>

definition u32 :: "int \<Rightarrow> nat" where
  "u32 i = nat (i mod 2 ^ 32)"

text \<open>The groups of the regular expressions \<^verbatim>\<open>^(.*?)\(\<close> and \<^verbatim>\<open>^.*?\((\d+)\)\<close>, empty without a match.\<close>

definition label_type :: "string \<Rightarrow> string" where
  "label_type s = (if CHR ''('' \<in> set s then takeWhile (\<lambda>c. c \<noteq> CHR ''('') s else [])"

fun label_id :: "string \<Rightarrow> string" where
  "label_id [] = []"
| "label_id (c # s) =
     (if c = CHR ''('' \<and> takeWhile is_digit s \<noteq> [] \<and> take 1 (dropWhile is_digit s) = '')''
      then takeWhile is_digit s else label_id s)"

subsection \<open>Reading the graph\<close>

definition edge_list :: "'p boost_graph \<Rightarrow> (nat \<times> nat) list" where
  "edge_list G = concat (map (\<lambda>v. map (Pair v) (g_out G ! v)) [0..<length (g_out G)])"

definition cleanReadGraphHelper :: "newGraph \<Rightarrow> newGraph option" where
  "cleanReadGraphHelper g = do {
     let D = dirty_graph g;
     let (map_v, C) = foldl (\<lambda>(m, C) p. (om_emplace (vp_name p) (num_vertices C) m,
           add_vertex (p\<lparr>vp_color := ''black'', vp_ir := []\<rparr>) C)) ([], clean_graph g) (g_vertex D);
     C' \<leftarrow> fold_opt (\<lambda>(u, v) C. do {
         check (u < num_vertices D \<and> v < num_vertices D);
         s \<leftarrow> map_of map_v (vp_name (g_vertex D ! u));
         t \<leftarrow> map_of map_v (vp_name (g_vertex D ! v));
         add_edge s t C }) (edge_list D) C;
     Some (g\<lparr>clean_graph := C'\<rparr>) }"

definition cleanRemoveReadGraphHelper :: "newGraph \<Rightarrow> newGraph option" where
  "cleanRemoveReadGraphHelper g = do {
     let C = clean_graph g;
     let (v_map, G) = foldl (\<lambda>(m, G) i. (om_emplace (num_vertices G) i m,
           add_vertex ((g_vertex C ! i)\<lparr>vp_ir := []\<rparr>) G)) ([], orig_graph g) [0..<num_vertices C];
     G' \<leftarrow> fold_opt (\<lambda>(u, v) G. do {
         s \<leftarrow> map_of v_map u;
         t \<leftarrow> map_of v_map v;
         add_edge s t G }) (edge_list C) G;
     Some (g\<lparr>orig_graph := G'\<rparr>) }"

definition complete_vertex ::
  "(string \<Rightarrow> nat option) \<Rightarrow> int list \<Rightarrow> nat \<Rightarrow> vertex_prop \<Rightarrow> (vertex_prop_com \<times> int) option" where
  "complete_vertex llvm m_level i p = do {
     let ty = label_type (vp_label p);
     let ident = label_id (vp_label p);
     chn \<leftarrow> stoi (vp_ch p);
     lat \<leftarrow> llvm ty;
     old \<leftarrow> stoi ident;
     Some (\<lparr>vc_name = vp_name p, vc_id = vp_name p, vc_ch = u32 chn, vc_label = ty @ ''('' @ ident @ '')'',
            vc_opcode = ty, vc_latency = lat, vc_level = u32 (m_level ! i), vc_color = vp_color p, vc_ir = []\<rparr>, old) }"

definition count_map :: "'k :: linorder list \<Rightarrow> ('k \<times> nat) list \<Rightarrow> ('k \<times> nat) list" where
  "count_map ks m = foldl (\<lambda>m k. om_upd k Suc 0 m) m ks"

definition is_mem_op :: "string \<Rightarrow> bool" where
  "is_mem_op op \<longleftrightarrow> op = ''Load'' \<or> op = ''Store''"

definition completeReadGraphHelper :: "newGraph \<Rightarrow> newGraph option" where
  "completeReadGraphHelper g = do {
     let G = orig_graph g;
     let n = num_vertices G;
     m_level \<leftarrow> findGrahpLevel G n 0 (replicate n (-1)) 0;
     ps \<leftarrow> those (map (\<lambda>i. complete_vertex (llvm_ins g) m_level i (g_vertex G ! i)) [0..<n]);
     let vs = map fst ps;
     let CG = foldl (\<lambda>CG v. add_vertex v CG) (comp_graph g) vs;
     let om = foldl (\<lambda>m i. om_put (num_vertices (comp_graph g) + i) (snd (ps ! i)) m) (orig_map g) [0..<n];
     CG' \<leftarrow> fold_opt (\<lambda>(u, v) CG. add_edge u v CG) (edge_list G) CG;
     let graph_ilp = count_map (map u32 m_level) [];
     let mlp = count_map (map vc_level (filter (\<lambda>v. is_mem_op (vc_opcode v)) vs)) [];
     Some (g\<lparr>comp_graph := CG', orig_map := om, graph_length := u32 (Max (set m_level)),
        max_ilp := foldl max (max_ilp g) (map snd graph_ilp), num_ops := n,
        ins_histo := count_map (map vc_opcode vs) (ins_histo g),
        firstlevelLD := firstlevelLD g + length (filter (\<lambda>v. vc_level v = 1 \<and> vc_opcode v = ''Load'') vs),
        max_mlp := foldl max 0 (map snd mlp)\<rparr>) }"

subsection \<open>Chains\<close>

definition createChains :: "newGraph \<Rightarrow> newGraph option" where
  "createChains g = do {
     let vs = g_vertex (orig_graph g);
     (g', temp_map) \<leftarrow> fold_opt (\<lambda>v (g, m). do {
         c \<leftarrow> stoi (vp_ch (vs ! v));
         let g' = (if vp_opcode (vs ! v) = ''BB'' then g\<lparr>first_ch := u32 c, first_node_id := vp_name (vs ! v)\<rparr> else g);
         Some (g', om_push (u32 c) v m) }) [0..<length vs] (g, []);
     let chs = om_succs temp_map (first_ch g') # map snd (filter (\<lambda>p. fst p \<noteq> first_ch g') temp_map);
     Some (g'\<lparr>chain_map := zip [0..<length chs] chs, Chains := Chains g' @ chs\<rparr>) }"

definition split_after :: "nat \<Rightarrow> nat list \<Rightarrow> nat list \<times> nat list" where
  "split_after v c = (takeWhile (\<lambda>x. x \<noteq> v) c @ [v], drop 1 (dropWhile (\<lambda>x. x \<noteq> v) c))"

definition breakingStartNode :: "newGraph \<Rightarrow> newGraph option" where
  "breakingStartNode g = do {
     check (Chains g \<noteq> []);
     let ch_first = hd (Chains g);
     Some (if first_node_id g \<in> set ch_first \<and> 1 < length ch_first
           then (case split_after (first_node_id g) ch_first of (a, b) \<Rightarrow> g\<lparr>Chains := (Chains g)[0 := a] @ [b]\<rparr>)
           else g) }"

definition out_break :: "'p boost_graph \<Rightarrow> nat list \<Rightarrow> nat list \<Rightarrow> nat \<Rightarrow> nat option option" where
  "out_break G a b node =
     (if node = last a then Some None
      else do { ts \<leftarrow> out_edges node G; Some (if list_ex (\<lambda>t. t \<in> set b) ts then Some node else None) })"

definition break_out_dep :: "'p boost_graph \<Rightarrow> nat list list \<Rightarrow> chainDependency \<Rightarrow> nat list list option option" where
  "break_out_dep G cs d = do {
     check (dep_source d < length cs \<and> dep_target d < length cs);
     r \<leftarrow> find_opt (out_break G (cs ! dep_source d) (cs ! dep_target d)) (cs ! dep_source d);
     Some (map_option (\<lambda>node. case split_after node (cs ! dep_source d) of
             (x, y) \<Rightarrow> cs[dep_source d := x] @ [y]) r) }"

definition breakOutHelper :: "'p boost_graph \<Rightarrow> nat list list \<Rightarrow> chainDependency list \<Rightarrow> (bool \<times> nat list list) option" where
  "breakOutHelper G cs deps = do {
     r \<leftarrow> find_opt (break_out_dep G cs) deps;
     Some (case r of None \<Rightarrow> (False, cs) | Some cs' \<Rightarrow> (True, cs')) }"

definition break_in_dep :: "'p boost_graph \<Rightarrow> nat list list \<Rightarrow> chainDependency \<Rightarrow> nat list list option option" where
  "break_in_dep G cs d = do {
     check (dep_source d < length cs \<and> dep_target d < length cs);
     let b = cs ! dep_target d;
     r \<leftarrow> find_opt (\<lambda>node. do {
         ts \<leftarrow> out_edges node G;
         find_opt (\<lambda>t. do { check (t \<in> set b); Some (if t = hd b then None else Some t) }) ts }) (cs ! dep_source d);
     Some (map_option (\<lambda>t. cs[dep_target d := takeWhile (\<lambda>x. x \<noteq> t) b] @ [dropWhile (\<lambda>x. x \<noteq> t) b]) r) }"

definition breakInHelper :: "'p boost_graph \<Rightarrow> nat list list \<Rightarrow> chainDependency list \<Rightarrow> (bool \<times> nat list list) option" where
  "breakInHelper G cs deps = do {
     r \<leftarrow> find_opt (break_in_dep G cs) deps;
     Some (case r of None \<Rightarrow> (False, cs) | Some cs' \<Rightarrow> (True, cs')) }"

definition try_merge :: "'p boost_graph \<Rightarrow> nat list list \<Rightarrow> nat \<Rightarrow> nat \<Rightarrow> nat list list option option" where
  "try_merge G cs i target = do {
     t \<leftarrow> map_of (vertexToChainMap cs) target;
     if t = i then Some None
     else do {
       check (t < length cs \<and> cs ! t \<noteq> []);
       if hd (cs ! t) \<noteq> target then Some None
       else do {
         let temp = (let m = cs[i := cs ! i @ cs ! t] in take t m @ drop (t + 1) m);
         deps \<leftarrow> dependenciesGenerate G temp (vertexToChainMap temp);
         loop \<leftarrow> has_loop (uniqueDependency (histoDependency deps));
         Some (if loop then None else Some temp) } } }"

definition mergeChain :: "'p boost_graph \<Rightarrow> nat list list \<Rightarrow> (bool \<times> nat list list) option" where
  "mergeChain G cs = do {
     r \<leftarrow> find_opt (\<lambda>i. do {
         check (cs ! i \<noteq> []);
         ts \<leftarrow> out_edges (last (cs ! i)) G;
         find_opt (try_merge G cs i) ts }) [1..<length cs];
     Some (case r of None \<Rightarrow> (False, cs) | Some cs' \<Rightarrow> (True, cs')) }"

subsection \<open>Splitting and merging terminate\<close>

definition chain_measure :: "nat list list \<Rightarrow> nat" where
  "chain_measure cs = sum_list (map (\<lambda>c. length c - 1) cs)"

lemma replace_split:
  assumes "i < length cs" "cs ! i = x @ y"
  shows "mset (concat (cs[i := x] @ [y])) = mset (concat cs)"
    "x \<noteq> [] \<Longrightarrow> y \<noteq> [] \<Longrightarrow> chain_measure (cs[i := x] @ [y]) < chain_measure cs"
proof -
  have cs: "cs = take i cs @ (x @ y) # drop (Suc i) cs" using assms by (simp flip: assms(2) add: id_take_nth_drop)
  have upd: "cs[i := x] = take i cs @ x # drop (Suc i) cs" using assms(1) by (rule upd_conv_take_nth_drop)
  show "mset (concat (cs[i := x] @ [y])) = mset (concat cs)"
    unfolding upd by (subst (3) cs) simp
  show "chain_measure (cs[i := x] @ [y]) < chain_measure cs" if "x \<noteq> []" "y \<noteq> []"
  proof -
    have "chain_measure cs = chain_measure (take i cs @ (x @ y) # drop (Suc i) cs)" using cs by simp
    then show ?thesis unfolding upd using that by (cases x; cases y) (simp_all add: chain_measure_def)
  qed
qed

lemma split_after_ok:
  assumes "v \<in> set c"
  shows "split_after v c = (x, y) \<Longrightarrow> c = x @ y \<and> x \<noteq> [] \<and> last x = v \<and> (v \<noteq> last c \<longrightarrow> y \<noteq> [])"
proof -
  assume s: "split_after v c = (x, y)"
  have ne: "dropWhile (\<lambda>x. x \<noteq> v) c \<noteq> []" using assms by simp
  have "hd (dropWhile (\<lambda>x. x \<noteq> v) c) = v" using hd_dropWhile [OF ne] by simp
  with ne have d: "dropWhile (\<lambda>x. x \<noteq> v) c = v # drop 1 (dropWhile (\<lambda>x. x \<noteq> v) c)"
    by (metis drop0 drop_Suc list.collapse One_nat_def)
  have "c = takeWhile (\<lambda>x. x \<noteq> v) c @ dropWhile (\<lambda>x. x \<noteq> v) c" by simp
  then have c: "c = x @ y" using s d by (metis append.assoc append_Cons append_Nil prod.inject split_after_def)
  moreover have "x \<noteq> []" "last x = v" using s by (auto simp: split_after_def)
  ultimately show ?thesis by auto
qed

lemma break_out_dep_ok:
  assumes "break_out_dep G cs d = Some (Some cs')"
  shows "mset (concat cs') = mset (concat cs) \<and> chain_measure cs' < chain_measure cs"
proof -
  obtain node where node: "find_opt (out_break G (cs ! dep_source d) (cs ! dep_target d)) (cs ! dep_source d) = Some (Some node)"
    and i: "dep_source d < length cs"
    and cs': "cs' = (case split_after node (cs ! dep_source d) of (x, y) \<Rightarrow> cs[dep_source d := x] @ [y])"
    using assms by (auto simp: break_out_dep_def bind_Some_iff)
  obtain v where "v \<in> set (cs ! dep_source d)" "out_break G (cs ! dep_source d) (cs ! dep_target d) v = Some (Some node)"
    using find_opt_found [OF node] by blast
  then have v: "node \<in> set (cs ! dep_source d)" "node \<noteq> last (cs ! dep_source d)"
    by (auto simp: out_break_def bind_Some_iff split: if_splits)
  obtain x y where xy: "split_after node (cs ! dep_source d) = (x, y)" by (rule prod.exhaust)
  show ?thesis using split_after_ok [OF v(1) xy] v(2) replace_split [OF i, of x y] cs' xy by auto
qed

lemma breakOutHelper_ok:
  assumes "breakOutHelper G cs deps = Some (b, cs')"
  shows "mset (concat cs') = mset (concat cs)" "b \<Longrightarrow> chain_measure cs' < chain_measure cs" "\<not> b \<Longrightarrow> cs' = cs"
  using assms find_opt_found [of "break_out_dep G cs" deps] break_out_dep_ok
  by (fastforce simp: breakOutHelper_def bind_Some_iff split: option.splits)+

lemma break_in_dep_ok:
  assumes "break_in_dep G cs d = Some (Some cs')"
  shows "mset (concat cs') = mset (concat cs) \<and> chain_measure cs' < chain_measure cs"
proof -
  let ?b = "cs ! dep_target d"
  let ?f = "\<lambda>t. do { check (t \<in> set ?b); Some (if t = hd ?b then None else Some t) }"
  obtain t where t: "find_opt (\<lambda>node. do { ts \<leftarrow> out_edges node G; find_opt ?f ts }) (cs ! dep_source d) = Some (Some t)"
    and i: "dep_target d < length cs"
    and cs': "cs' = cs[dep_target d := takeWhile (\<lambda>x. x \<noteq> t) ?b] @ [dropWhile (\<lambda>x. x \<noteq> t) ?b]"
    using assms by (auto simp: break_in_dep_def bind_Some_iff Let_def)
  obtain ts where ts: "find_opt ?f ts = Some (Some t)"
    using find_opt_found [OF t] by (auto simp: bind_Some_iff)
  obtain u where "?f u = Some (Some t)" using find_opt_found [OF ts] by blast
  then have "t \<in> set ?b" "t \<noteq> hd ?b" by (auto simp: check_bind split: if_splits)
  then have "takeWhile (\<lambda>x. x \<noteq> t) ?b \<noteq> []" "dropWhile (\<lambda>x. x \<noteq> t) ?b \<noteq> []"
    by (auto simp: takeWhile_eq_Nil_iff)
  then show ?thesis
    using replace_split [OF i, of "takeWhile (\<lambda>x. x \<noteq> t) ?b" "dropWhile (\<lambda>x. x \<noteq> t) ?b"] cs' by simp
qed

lemma breakInHelper_ok:
  assumes "breakInHelper G cs deps = Some (b, cs')"
  shows "mset (concat cs') = mset (concat cs)" "b \<Longrightarrow> chain_measure cs' < chain_measure cs" "\<not> b \<Longrightarrow> cs' = cs"
  using assms find_opt_found [of "break_in_dep G cs" deps] break_in_dep_ok
  by (fastforce simp: breakInHelper_def bind_Some_iff split: option.splits)+

lemma try_merge_ok:
  assumes "try_merge G cs i target = Some (Some cs')" "i < length cs"
  shows "\<exists>t. t < length cs \<and> t \<noteq> i \<and> cs' = (let m = cs[i := cs ! i @ cs ! t] in take t m @ drop (t + 1) m) \<and>
    (\<exists>deps. dependenciesGenerate G cs' (vertexToChainMap cs') = Some deps \<and>
       has_loop (uniqueDependency (histoDependency deps)) = Some False)"
proof -
  obtain t deps loop where t: "map_of (vertexToChainMap cs) target = Some t" "t \<noteq> i" "t < length cs" "cs ! t \<noteq> []"
    "hd (cs ! t) = target"
    and temp: "dependenciesGenerate G (let m = cs[i := cs ! i @ cs ! t] in take t m @ drop (t + 1) m)
       (vertexToChainMap (let m = cs[i := cs ! i @ cs ! t] in take t m @ drop (t + 1) m)) = Some deps"
    "has_loop (uniqueDependency (histoDependency deps)) = Some loop" "\<not> loop"
    "cs' = (let m = cs[i := cs ! i @ cs ! t] in take t m @ drop (t + 1) m)"
    using assms(1) by (auto simp: try_merge_def bind_Some_iff Let_def split: if_splits)
  then show ?thesis by auto
qed

lemma merge_concat:
  assumes "t < length cs" "i < length cs" "t \<noteq> i"
  shows "mset (concat (let m = cs[i := cs ! i @ cs ! t] in take t m @ drop (t + 1) m)) = mset (concat cs)"
    "length (let m = cs[i := cs ! i @ cs ! t] in take t m @ drop (t + 1) m) < length cs"
proof -
  let ?m = "cs[i := cs ! i @ cs ! t]"
  have m: "?m = take t ?m @ ?m ! t # drop (Suc t) ?m" using assms(1) by (intro id_take_nth_drop) simp
  have t: "?m ! t = cs ! t" using assms(3) by simp
  have "mset (concat ?m) = mset (concat (take t ?m)) + (mset (?m ! t) + mset (concat (drop (Suc t) ?m)))"
    by (subst m) (simp only: concat_append concat.simps mset_append)
  then have "mset (concat ?m) = mset (concat (take t ?m @ drop (t + 1) ?m)) + mset (cs ! t)"
    unfolding t by (simp only: concat_append mset_append Suc_eq_plus1 ac_simps)
  moreover have "mset (concat ?m) = mset (concat cs) + mset (cs ! t)"
  proof -
    have cs: "cs = take i cs @ cs ! i # drop (Suc i) cs" using assms(2) by (rule id_take_nth_drop)
    have "?m = take i cs @ (cs ! i @ cs ! t) # drop (Suc i) cs" using assms(2) by (rule upd_conv_take_nth_drop)
    then have "mset (concat ?m) = mset (concat (take i cs)) + (mset (cs ! i) + mset (cs ! t) + mset (concat (drop (Suc i) cs)))"
      by simp
    moreover have "mset (concat cs) = mset (concat (take i cs)) + (mset (cs ! i) + mset (concat (drop (Suc i) cs)))"
      by (subst cs) simp
    ultimately show ?thesis by simp
  qed
  ultimately show "mset (concat (let m = cs[i := cs ! i @ cs ! t] in take t m @ drop (t + 1) m)) = mset (concat cs)"
    by (simp add: Let_def)
  show "length (let m = cs[i := cs ! i @ cs ! t] in take t m @ drop (t + 1) m) < length cs"
    using assms(1) by (simp add: Let_def)
qed

lemma mergeChain_ok:
  assumes "mergeChain G cs = Some (b, cs')"
  shows "mset (concat cs') = mset (concat cs)" "b \<Longrightarrow> length cs' < length cs" "\<not> b \<Longrightarrow> cs' = cs"
    "b \<Longrightarrow> \<exists>deps. dependenciesGenerate G cs' (vertexToChainMap cs') = Some deps \<and>
       has_loop (uniqueDependency (histoDependency deps)) = Some False"
proof -
  let ?f = "\<lambda>i. do { check (cs ! i \<noteq> []); ts \<leftarrow> out_edges (last (cs ! i)) G; find_opt (try_merge G cs i) ts }"
  obtain r where r: "find_opt ?f [1..<length cs] = Some r" "(b, cs') = (case r of None \<Rightarrow> (False, cs) | Some cs' \<Rightarrow> (True, cs'))"
    using assms by (auto simp: mergeChain_def bind_Some_iff)
  have main: "mset (concat cs') = mset (concat cs) \<and> length cs' < length cs \<and>
      (\<exists>deps. dependenciesGenerate G cs' (vertexToChainMap cs') = Some deps \<and>
         has_loop (uniqueDependency (histoDependency deps)) = Some False)" if b
  proof -
    have "find_opt ?f [1..<length cs] = Some (Some cs')" using r that by (auto split: option.splits)
    from find_opt_found [OF this] obtain i ts where i: "i < length cs" "find_opt (try_merge G cs i) ts = Some (Some cs')"
      by (auto simp: bind_Some_iff)
    from find_opt_found [OF i(2)] obtain u where "try_merge G cs i u = Some (Some cs')" by blast
    from try_merge_ok [OF this i(1)] merge_concat [OF _ i(1)] show ?thesis by blast
  qed
  show "mset (concat cs') = mset (concat cs)" using main r(2) by (cases r) auto
  show "b \<Longrightarrow> length cs' < length cs" using main by blast
  show "\<not> b \<Longrightarrow> cs' = cs" using r(2) by (auto split: option.splits)
  show "b \<Longrightarrow> \<exists>deps. dependenciesGenerate G cs' (vertexToChainMap cs') = Some deps \<and>
       has_loop (uniqueDependency (histoDependency deps)) = Some False" using main by blast
qed

function break_out_loop :: "'p boost_graph \<Rightarrow> nat list list \<Rightarrow> nat list list option" where
  "break_out_loop G cs = do {
     deps \<leftarrow> dependenciesGenerate G cs (vertexToChainMap cs);
     r \<leftarrow> breakOutHelper G cs deps;
     if fst r then break_out_loop G (snd r) else Some (snd r) }"
  by pat_completeness auto
termination
  by (relation "measure (\<lambda>(G, cs). chain_measure cs)") (auto dest: breakOutHelper_ok(2))

function break_in_loop :: "'p boost_graph \<Rightarrow> nat list list \<Rightarrow> nat list list option" where
  "break_in_loop G cs = do {
     deps \<leftarrow> dependenciesGenerate G cs (vertexToChainMap cs);
     r \<leftarrow> breakInHelper G cs deps;
     if fst r then break_in_loop G (snd r) else Some (snd r) }"
  by pat_completeness auto
termination
  by (relation "measure (\<lambda>(G, cs). chain_measure cs)") (auto dest: breakInHelper_ok(2))

function merge_loop :: "'p boost_graph \<Rightarrow> nat list list \<Rightarrow> nat list list option" where
  "merge_loop G cs = do {
     r \<leftarrow> mergeChain G cs;
     if fst r then merge_loop G (snd r) else Some (snd r) }"
  by pat_completeness auto
termination
  by (relation "measure (\<lambda>(G, cs). length cs)") (auto dest: mergeChain_ok(2))

declare break_out_loop.simps [simp del] break_in_loop.simps [simp del] merge_loop.simps [simp del]

definition breakEveryLiveOut :: "newGraph \<Rightarrow> newGraph option" where
  "breakEveryLiveOut g = do { cs \<leftarrow> break_out_loop (orig_graph g) (Chains g); Some (g\<lparr>Chains := cs\<rparr>) }"

definition breakEveryLiveIn :: "newGraph \<Rightarrow> newGraph option" where
  "breakEveryLiveIn g = do { cs \<leftarrow> break_in_loop (orig_graph g) (Chains g); Some (g\<lparr>Chains := cs\<rparr>) }"

definition mergeChains :: "newGraph \<Rightarrow> newGraph option" where
  "mergeChains g = do { cs \<leftarrow> merge_loop (clean_graph g) (Chains g); Some (g\<lparr>Chains := cs\<rparr>) }"

subsection \<open>The chain graph\<close>

definition buildDependencies :: "newGraph \<Rightarrow> newGraph option" where
  "buildDependencies g = do {
     (vtc, deps, ctd, un, ur, rm) \<leftarrow> chain_maps (orig_graph g) (Chains g);
     Some (g\<lparr>vertex_to_Chunk := vtc, ng_dependencies := deps, chain_to_dependencies := ctd,
        ng_un_dependencies := un, un_reverse_mapping := ur, reverse_mapping := rm\<rparr>) }"

definition chain_node :: "newGraph \<Rightarrow> nat \<Rightarrow> chainGraph option" where
  "chain_node g i = do {
     let ch = Chains g ! i;
     check (list_all (\<lambda>v. v < num_vertices (orig_graph g)) ch);
     Some (chainGraph_new\<lparr>cg_chainId := i, cg_size := length ch,
        cg_fan_in := length (om_succs (reverse_mapping g) i), cg_fan_out := length (om_succs (chain_to_dependencies g) i),
        cg_live_in := length (om_succs (un_reverse_mapping g) i), cg_live_out := length (om_succs (ng_un_dependencies g) i),
        cg_nodes := ch, cg_is_mem := list_ex (\<lambda>v. is_mem_op (vp_opcode (g_vertex (orig_graph g) ! v))) ch\<rparr>) }"

definition buildChainGraph :: "newGraph \<Rightarrow> newGraph option" where
  "buildChainGraph g = do {
     ns \<leftarrow> those (map (chain_node g) [0..<length (Chains g)]);
     let cg = chain_graph g @ ns;
     cg' \<leftarrow> findChainsLevel (length cg) 0 0 (ng_un_dependencies g) cg;
     Some (g\<lparr>chain_graph := cg'\<rparr>) }"

definition buildChainLevel :: "newGraph \<Rightarrow> newGraph" where
  "buildChainLevel g = g\<lparr>chain_level :=
     foldl (\<lambda>m c. om_push (u32 (cg_level c)) (cg_chainId c) m) (chain_level g) (chain_graph g)\<rparr>"

subsection \<open>Blocks\<close>

text \<open>The state of \<^verbatim>\<open>createChainBlocks\<close>: the last block number, the bypass counts of the blocks and
  the chains.\<close>

type_synonym block_state = "nat \<times> (nat \<times> nat) list \<times> chainGraph list"

definition set_block :: "nat \<Rightarrow> nat \<Rightarrow> chainGraph list \<Rightarrow> chainGraph list" where
  "set_block child b cg = upd_cg child (\<lambda>m. m\<lparr>cg_blockID := b\<rparr>) cg"

definition new_block :: "nat \<Rightarrow> block_state \<Rightarrow> block_state" where
  "new_block child s = (case s of (i, pass, cg) \<Rightarrow> (i + 1, om_put (i + 1) 1 pass, set_block child (i + 1) cg))"

definition root_child :: "nat \<Rightarrow> block_state \<Rightarrow> block_state option" where
  "root_child child s = do {
     m \<leftarrow> find_cg (snd (snd s)) child;
     Some (if cg_level m = 1 then new_block child s else s) }"

definition fresh_block :: "nat \<Rightarrow> block_state \<Rightarrow> block_state option" where
  "fresh_block child s = do {
     m \<leftarrow> find_cg (snd (snd s)) child;
     Some (if cg_blockID m = 0 then new_block child s else s) }"

definition block_child ::
  "nat option \<Rightarrow> (nat \<times> nat list) list \<Rightarrow> nat \<Rightarrow> nat \<Rightarrow> nat \<times> block_state \<Rightarrow> (nat \<times> block_state) option" where
  "block_child limit ur ident child st = (case st of (cnt, i, pass, cg) \<Rightarrow> do {
     parents \<leftarrow> map_of ur child;
     let is_single_parent = (length parents = 2 \<and> 0 \<in> set parents);
     ch \<leftarrow> find_cg cg ident;
     m \<leftarrow> find_cg cg child;
     if is_single_parent \<and> cnt = 1 then Some (cnt + 1, i, pass, set_block child (cg_blockID ch) cg)
     else if is_single_parent \<and> 1 < cnt then do {
       p \<leftarrow> map_of pass (cg_blockID ch);
       lim \<leftarrow> limit;
       if p + 1 \<le> lim
       then Some (cnt + 1, i, om_put (cg_blockID ch) (p + 1) pass, set_block child (cg_blockID ch) cg)
       else map_option (Pair cnt) (fresh_block child (i, pass, cg)) }
     else map_option (Pair cnt) (fresh_block child (i, pass, cg)) })"

definition block_visit ::
  "nat option \<Rightarrow> (nat \<times> nat list) list \<Rightarrow> (nat \<times> nat list) list \<Rightarrow> nat \<Rightarrow> block_state \<Rightarrow> block_state option" where
  "block_visit limit un ur ident s = (case s of (i, pass, cg) \<Rightarrow> do {
     ch \<leftarrow> find_cg cg ident;
     if ident = 0 then do {
       children \<leftarrow> map_of un 0;
       fold_opt root_child children (i, om_put i 0 pass, set_block 0 i cg) }
     else case map_of un ident of None \<Rightarrow> Some s
     | Some children \<Rightarrow> map_option snd (fold_opt (block_child limit ur ident) children (1, s)) })"

fun push_block :: "nat \<Rightarrow> nat \<Rightarrow> Block list \<Rightarrow> Block list" where
  "push_block b c [] = [\<lparr>blkID = b, blk_chains = [c]\<rparr>]"
| "push_block b c (x # xs) = (if blkID x = b then x\<lparr>blk_chains := blk_chains x @ [c]\<rparr> # xs else x # push_block b c xs)"

definition createChainBlocks :: "newGraph \<Rightarrow> newGraph option" where
  "createChainBlocks g = do {
     (i, pass, cg) \<leftarrow> fold_opt (block_visit (graph_parameter g ''BLOCK_LIMIT'') (ng_un_dependencies g) (un_reverse_mapping g))
        (concat (map snd (chain_level g))) (0, [], chain_graph g);
     Some (g\<lparr>chain_graph := cg,
        block_chain := foldl (\<lambda>bs c. push_block (cg_blockID c) (cg_chainId c) bs) (block_chain g) cg\<rparr>) }"

subsection \<open>The ILP graph\<close>

definition parent_last :: "nat \<Rightarrow> nat list \<times> chainGraph list \<Rightarrow> (nat list \<times> chainGraph list) option" where
  "parent_last p s = (case s of (parents, cg) \<Rightarrow> do {
     m \<leftarrow> find_cg cg p;
     check (cg_nodes m \<noteq> []);
     let ns = sort (cg_nodes m);
     Some (parents @ [last ns], upd_cg p (\<lambda>m. m\<lparr>cg_nodes := ns\<rparr>) cg) })"

definition chain_edges :: "nat list \<Rightarrow> nat list \<Rightarrow> (nat \<times> nat) list" where
  "chain_edges parents ns =
     (if ns = [] then []
      else take 1 (zip ns (drop 1 ns)) @ map (\<lambda>p. (p, hd ns)) parents @ drop 1 (zip ns (drop 1 ns)))"

definition ilp_chain ::
  "(nat \<times> nat list) list \<Rightarrow> nat \<Rightarrow> nat list \<times> (nat \<times> nat) list \<times> chainGraph list \<Rightarrow>
   (nat list \<times> (nat \<times> nat) list \<times> chainGraph list) option" where
  "ilp_chain ur j s = (case s of (vs, es, cg) \<Rightarrow>
     (case map_of ur (cg_chainId (cg ! j)) of
        None \<Rightarrow> Some (vs @ cg_nodes (cg ! j), es, cg)
      | Some ps \<Rightarrow> do {
          (parents, cg') \<leftarrow> fold_opt parent_last ps ([], cg);
          let ns = sort (cg_nodes (cg' ! j));
          Some (vs @ ns, es @ chain_edges parents ns, cg'[j := (cg' ! j)\<lparr>cg_nodes := ns\<rparr>]) }))"

definition nop_vertex :: "nat \<Rightarrow> vertex_prop \<Rightarrow> vertex_prop" where
  "nop_vertex n p = p\<lparr>vp_name := n, vp_label := ''NOP'', vp_ch := ''1'', vp_opcode := ''NOP'', vp_color := ''black''\<rparr>"

definition default_vertex :: vertex_prop where
  "default_vertex = \<lparr>vp_name = 0, vp_label = [], vp_ch = [], vp_opcode = [], vp_color = [], vp_ir = []\<rparr>"

definition ilp_vertex ::
  "nat list \<Rightarrow> nat \<Rightarrow> (nat \<times> nat) list \<times> vertex_prop boost_graph \<times> vertex_prop boost_graph \<Rightarrow>
   ((nat \<times> nat) list \<times> vertex_prop boost_graph \<times> vertex_prop boost_graph) option" where
  "ilp_vertex vs i s = (case s of (v_map, I, G) \<Rightarrow> do {
     let new_v = num_vertices I;
     check (new_v < num_vertices G);
     Some (om_emplace new_v i v_map, add_vertex default_vertex I,
           G\<lparr>g_vertex := (g_vertex G)[new_v := nop_vertex (vs ! i) (g_vertex G ! new_v)]\<rparr>) })"

definition buildILPGraph :: "newGraph \<Rightarrow> newGraph option" where
  "buildILPGraph g = do {
     (vs, es, cg) \<leftarrow> fold_opt (ilp_chain (un_reverse_mapping g)) [0..<length (chain_graph g)] ([], [], chain_graph g);
     (v_map, I, G) \<leftarrow> fold_opt (ilp_vertex vs) [0..<length vs] ([], ilp_graph g, orig_graph g);
     I' \<leftarrow> fold_opt (\<lambda>(u, v) I. do { s \<leftarrow> map_of v_map u; t \<leftarrow> map_of v_map v; add_edge s t I }) es I;
     Some (g\<lparr>chain_graph := cg, ilp_graph := I', orig_graph := G\<rparr>) }"

text \<open>\<^verbatim>\<open>ilpStat\<close>: the numbers of levels with one or two, three or four, and more instructions, and the
  sum and number of the histogram that its average is made of.\<close>

definition ilpStat :: "newGraph \<Rightarrow> (nat \<times> nat \<times> nat \<times> nat \<times> nat) option" where
  "ilpStat g = do {
     m_level \<leftarrow> findGrahpLevel (ilp_graph g) (num_vertices (orig_graph g)) 0 (replicate (num_vertices (orig_graph g)) (-1)) 0;
     let cs = map snd (count_map (map u32 m_level) []);
     Some (length (filter (\<lambda>c. c = 1 \<or> c = 2) cs), length (filter (\<lambda>c. c = 3 \<or> c = 4) cs),
           length (filter (\<lambda>c. c \<noteq> 1 \<and> c \<noteq> 2 \<and> c \<noteq> 3 \<and> c \<noteq> 4) cs), sum_list cs, length cs) }"

subsection \<open>Statistics of the chains\<close>

text \<open>The values that \<^verbatim>\<open>printChainStats\<close> computes from the chain graph, without the memory
  parallelism per level: its loop compares an iterator of one map with the end of another.\<close>

record chain_stats =
  st_max_level :: int
  st_max_size :: nat
  st_tot_size :: nat
  st_ilp :: "(nat \<times> nat) list"
  st_max_ilp :: nat
  st_sum_ilp :: nat
  st_size_histo :: "(nat \<times> nat) list"
  st_intra :: nat
  st_liveIn_hist :: "(nat \<times> nat) list"
  st_liveOut_hist :: "(nat \<times> nat) list"
  st_op_list :: "(nat \<times> nat list) list"
  st_blocks :: nat
  st_inter :: nat

definition printChainStats :: "newGraph \<Rightarrow> chain_stats" where
  "printChainStats g =
     (let cg = chain_graph g;
          ilp = count_map (map (\<lambda>c. u32 (cg_level c)) cg) [];
          cap = (\<lambda>n. if n < 5 then n else 5)
      in \<lparr>st_max_level = foldl (\<lambda>m c. if m < cg_level c then cg_level c else m) 0 cg,
          st_max_size = foldl (\<lambda>m c. if m < cg_size c then cg_size c else m) 0 cg,
          st_tot_size = sum_list (map cg_size cg),
          st_ilp = ilp, st_max_ilp = foldl max 0 (map snd ilp), st_sum_ilp = sum_list (map snd ilp),
          st_size_histo = count_map (map (\<lambda>c. cap (cg_size c)) cg) [],
          st_intra = sum_list (map cg_fan_in cg),
          st_liveIn_hist = count_map (map (\<lambda>c. cap (cg_live_in c)) cg) [],
          st_liveOut_hist = count_map (map (\<lambda>c. cap (cg_live_out c)) cg) [],
          st_op_list = foldl (\<lambda>m c. foldl (\<lambda>m v. om_push (cap (cg_size c)) v m) m (cg_nodes c)) [] cg,
          st_blocks = length (remdups (map cg_blockID cg)),
          st_inter = u32 (sum_list (map (\<lambda>c. int (cg_size c) - 1) cg))\<rparr>)"

subsection \<open>The pipeline\<close>

definition when_param :: "string \<Rightarrow> (newGraph \<Rightarrow> newGraph option) \<Rightarrow> newGraph \<Rightarrow> newGraph option" where
  "when_param name f g = do { p \<leftarrow> graph_parameter g name; if p \<noteq> 0 then f g else Some g }"

definition decompose_graph :: "newGraph \<Rightarrow> newGraph option" where
  "decompose_graph g = do {
     g \<leftarrow> createChains g;
     g \<leftarrow> breakingStartNode g;
     g \<leftarrow> when_param ''BREAK_LIVE_OUT'' breakEveryLiveOut g;
     g \<leftarrow> when_param ''BREAK_LIVE_IN'' breakEveryLiveIn g;
     when_param ''MERGE'' mergeChains g }"

definition chain_graph_phase :: "newGraph \<Rightarrow> newGraph option" where
  "chain_graph_phase g = do {
     g \<leftarrow> buildDependencies g;
     loop \<leftarrow> has_loop (ng_un_dependencies g);
     check (\<not> loop);
     g \<leftarrow> buildChainGraph g;
     createChainBlocks (buildChainLevel g) }"

definition newGraph_initialize :: "newGraph \<Rightarrow> newGraph option" where
  "newGraph_initialize g = do {
     g \<leftarrow> cleanReadGraphHelper g;
     g \<leftarrow> cleanRemoveReadGraphHelper g;
     g \<leftarrow> completeReadGraphHelper g;
     g \<leftarrow> decompose_graph g;
     g \<leftarrow> chain_graph_phase g;
     g \<leftarrow> buildILPGraph g;
     ilpStat g;
     Some (g\<lparr>num_ops := num_vertices (orig_graph g)\<rparr>) }"

end
