(* ===== verification/Cs_Chain_Splits.thy ===== *)
theory Cs_Chain_Splits
  imports Cs_Decompose
begin

text \<open>
  Correctness of the phase of \<^verbatim>\<open>newGraph::initialize\<close> that forms chains: the initial chains
  partition the vertices of the graph, and breaking and merging keep the partition, terminate and
  reach their goals.
\<close>

lemma decomposition_mset:
  "decomposition G cs \<Longrightarrow> mset (concat cs') = mset (concat cs) \<Longrightarrow> decomposition G cs'"
  unfolding decomposition_def by (metis mset_eq_imp_distinct_iff mset_eq_setD)

lemma decomposition_out: "decomposition G cs \<Longrightarrow> chain_of cs v i \<Longrightarrow> v < length (g_out G)"
  using decomposition_chain [of G cs v] by (metis decomposition_def graph_ok_def)

lemma break_out_loop_mset: "break_out_loop G cs = Some cs' \<Longrightarrow> mset (concat cs') = mset (concat cs)"
proof (induction G cs rule: break_out_loop.induct)
  case (1 G cs)
  then obtain deps r where r: "dependenciesGenerate G cs (vertexToChainMap cs) = Some deps" "breakOutHelper G cs deps = Some r"
    "(if fst r then break_out_loop G (snd r) else Some (snd r)) = Some cs'"
    by (auto simp: break_out_loop.simps [of G cs] bind_Some_iff)
  with 1 show ?case using breakOutHelper_ok(1) [of G cs deps "fst r" "snd r"] by (auto split: if_splits)
qed

lemma break_in_loop_mset: "break_in_loop G cs = Some cs' \<Longrightarrow> mset (concat cs') = mset (concat cs)"
proof (induction G cs rule: break_in_loop.induct)
  case (1 G cs)
  then obtain deps r where r: "dependenciesGenerate G cs (vertexToChainMap cs) = Some deps" "breakInHelper G cs deps = Some r"
    "(if fst r then break_in_loop G (snd r) else Some (snd r)) = Some cs'"
    by (auto simp: break_in_loop.simps [of G cs] bind_Some_iff)
  with 1 show ?case using breakInHelper_ok(1) [of G cs deps "fst r" "snd r"] by (auto split: if_splits)
qed

lemma merge_loop_mset: "merge_loop G cs = Some cs' \<Longrightarrow> mset (concat cs') = mset (concat cs)"
proof (induction G cs rule: merge_loop.induct)
  case (1 G cs)
  then obtain r where r: "mergeChain G cs = Some r" "(if fst r then merge_loop G (snd r) else Some (snd r)) = Some cs'"
    by (auto simp: merge_loop.simps [of G cs] bind_Some_iff)
  with 1 show ?case using mergeChain_ok(1) [of G cs "fst r" "snd r"] by (auto split: if_splits)
qed

lemma start_node_mset: "breakingStartNode g = Some g' \<Longrightarrow> mset (concat (Chains g')) = mset (concat (Chains g)) \<and> orig_graph g' = orig_graph g"
proof -
  assume b: "breakingStartNode g = Some g'"
  then have ne: "0 < length (Chains g)" "hd (Chains g) = Chains g ! 0"
    by (auto simp: breakingStartNode_def check_bind hd_conv_nth split: if_splits)
  show ?thesis
  proof (cases "first_node_id g \<in> set (hd (Chains g)) \<and> 1 < length (hd (Chains g))")
    case True
    obtain x y where xy: "split_after (first_node_id g) (hd (Chains g)) = (x, y)" by (rule prod.exhaust)
    have "Chains g ! 0 = x @ y" using split_after_ok [OF _ xy] True ne(2) by simp
    from replace_split(1) [OF ne(1) this] show ?thesis
      using b True xy by (auto simp: breakingStartNode_def bind_Some_iff)
  qed (use b in \<open>auto simp: breakingStartNode_def bind_Some_iff\<close>)
qed

subsection \<open>Breaking at live-outs\<close>

lemma breakOutHelper_total:
  assumes "decomposition G cs" "dependenciesGenerate G cs (vertexToChainMap cs) = Some deps"
  shows "breakOutHelper G cs deps \<noteq> None"
proof -
  have out: "out_edges v G \<noteq> None" if "chain_of cs v i" for v i
    using decomposition_out [OF assms(1) that] by (simp add: out_edges_def check_bind)
  have "break_out_dep G cs d \<noteq> None" if d: "d \<in> set deps" for d
  proof -
    have "(dep_source d, dep_target d) \<in> (\<lambda>d. (dep_source d, dep_target d)) ` set deps" using d by blast
    then have c: "cross G cs (dep_source d) (dep_target d)" using dependenciesGenerate_ok [OF assms(1)] assms(2) by simp
    then have r: "dep_source d < length cs" "dep_target d < length cs" by (auto simp: cross_def chain_of_def)
    have "find_opt (out_break G (cs ! dep_source d) (cs ! dep_target d)) (cs ! dep_source d) \<noteq> None"
    proof (rule find_opt_Some, rule ballI)
      fix v assume "v \<in> set (cs ! dep_source d)"
      then show "out_break G (cs ! dep_source d) (cs ! dep_target d) v \<noteq> None"
        using out [of v "dep_source d"] r(1) by (auto simp: out_break_def chain_of_def)
    qed
    then show ?thesis using r by (auto simp: break_out_dep_def check_bind)
  qed
  then have "find_opt (break_out_dep G cs) deps \<noteq> None" by (intro find_opt_Some) blast
  then show ?thesis by (auto simp: breakOutHelper_def)
qed

lemma breakOutHelper_done:
  assumes "decomposition G cs" "dependenciesGenerate G cs (vertexToChainMap cs) = Some deps"
    "breakOutHelper G cs deps = Some (False, cs')" "chain_of cs u i" "chain_of cs v j" "i \<noteq> j" "edge G u v"
  shows "u = last (cs ! i)"
proof (rule ccontr)
  assume u: "u \<noteq> last (cs ! i)"
  have "cross G cs i j" using assms(4-7) by (auto simp: cross_def)
  then have "(i, j) \<in> (\<lambda>d. (dep_source d, dep_target d)) ` set deps"
    using dependenciesGenerate_ok [OF assms(1)] assms(2) by simp
  then obtain d where d: "d \<in> set deps" "dep_source d = i" "dep_target d = j" by auto
  have "find_opt (break_out_dep G cs) deps = Some None"
    using assms(3) by (auto simp: breakOutHelper_def bind_Some_iff split: option.splits)
  then have "break_out_dep G cs d = Some None" using d(1) by (simp add: find_opt_none)
  then have "find_opt (out_break G (cs ! i) (cs ! j)) (cs ! i) = Some None"
    using d(2,3) by (auto simp: break_out_dep_def bind_Some_iff)
  then have "out_break G (cs ! i) (cs ! j) u = Some None" using assms(4) by (simp add: find_opt_none chain_of_def)
  then show False
    using u assms(5,7) by (auto simp: out_break_def out_edges_def edge_def check_bind list_ex_iff chain_of_def split: if_splits)
qed

lemma break_out_loop_ok:
  assumes "decomposition G cs"
  shows "\<exists>cs'. break_out_loop G cs = Some cs' \<and> decomposition G cs' \<and> length cs \<le> length cs' \<and>
    (\<forall>u v i j. chain_of cs' u i \<and> chain_of cs' v j \<and> i \<noteq> j \<and> edge G u v \<longrightarrow> u = last (cs' ! i))"
  using assms
proof (induction G cs rule: break_out_loop.induct)
  case (1 G cs)
  obtain deps where deps: "dependenciesGenerate G cs (vertexToChainMap cs) = Some deps"
    using dependenciesGenerate_ok [OF 1(2)] by blast
  obtain b cs1 where r: "breakOutHelper G cs deps = Some (b, cs1)"
    using breakOutHelper_total [OF 1(2) deps] by auto
  have d1: "decomposition G cs1" by (rule decomposition_mset [OF 1(2) breakOutHelper_ok(1) [OF r]])
  show ?case
  proof (cases b)
    case True
    then have "find_opt (break_out_dep G cs) deps = Some (Some cs1)"
      using r by (auto simp: breakOutHelper_def bind_Some_iff split: option.splits)
    from find_opt_found [OF this] have "length cs \<le> length cs1"
      by (auto simp: break_out_dep_def bind_Some_iff case_prod_beta)
    then show ?thesis using 1(1) [OF deps r] True d1 deps r by (auto simp: break_out_loop.simps [of G cs])
  next
    case False
    then have "cs1 = cs" using breakOutHelper_ok(3) [OF r] by simp
    then show ?thesis
      using False breakOutHelper_done [OF 1(2) deps] deps r 1(2) by (auto simp: break_out_loop.simps [of G cs])
  qed
qed

subsection \<open>Merging\<close>

lemma mergeChain_total:
  assumes "decomposition G cs" "[] \<notin> set cs"
  shows "mergeChain G cs \<noteq> None"
proof -
  have dis: "distinct (concat cs)" using assms(1) by (simp add: decomposition_def)
  have merge1: "try_merge G cs i w \<noteq> None" if i: "i < length cs" and w: "w < num_vertices G" for i w
  proof -
    obtain t where t: "chain_of cs w t" using decomposition_chain [OF assms(1)] w by blast
    then have m: "map_of (vertexToChainMap cs) w = Some t" by (simp add: vertexToChainMap_ok [OF dis])
    have tl: "t < length cs" "cs ! t \<noteq> []" using t by (auto simp: chain_of_def)
    show ?thesis
    proof (cases "t = i \<or> hd (cs ! t) \<noteq> w")
      case False
      let ?temp = "let m = cs[i := cs ! i @ cs ! t] in take t m @ drop (t + 1) m"
      have "decomposition G ?temp" using decomposition_mset [OF assms(1)] merge_concat(1) [OF tl(1) i] False by blast
      then obtain deps where "dependenciesGenerate G ?temp (vertexToChainMap ?temp) = Some deps"
        using dependenciesGenerate_ok by blast
      then show ?thesis using m tl False by (auto simp: try_merge_def check_bind has_loop_ok Let_def)
    qed (use m tl in \<open>auto simp: try_merge_def check_bind\<close>)
  qed
  have "find_opt (\<lambda>i. do { check (cs ! i \<noteq> []); ts \<leftarrow> out_edges (last (cs ! i)) G; find_opt (try_merge G cs i) ts })
      [1..<length cs] \<noteq> None"
  proof (rule find_opt_Some, rule ballI)
    fix i assume i: "i \<in> set [1..<length cs]"
    then have ne: "cs ! i \<noteq> []" using assms(2) by (metis atLeastLessThan_iff nth_mem set_upt)
    then have "chain_of cs (last (cs ! i)) i" using i by (simp add: chain_of_def)
    then have v: "last (cs ! i) < length (g_out G)" by (rule decomposition_out [OF assms(1)])
    have "find_opt (try_merge G cs i) (g_out G ! last (cs ! i)) \<noteq> None"
      using v i assms(1) by (intro find_opt_Some ballI merge1) (auto simp: decomposition_def graph_ok_def)
    then show "do { check (cs ! i \<noteq> []); ts \<leftarrow> out_edges (last (cs ! i)) G; find_opt (try_merge G cs i) ts } \<noteq> None"
      using ne v by (simp add: check_bind out_edges_def)
  qed
  then show ?thesis by (auto simp: mergeChain_def)
qed

text \<open>The dependency relation of a decomposition.\<close>

abbreviation chain_rel :: "'p boost_graph \<Rightarrow> nat list list \<Rightarrow> (nat \<times> nat) set" where
  "chain_rel G cs \<equiv> {(i, j). cross G cs i j}"

lemma chain_loop_ok:
  assumes "decomposition G cs" "dependenciesGenerate G cs (vertexToChainMap cs) = Some deps"
  shows "has_loop (uniqueDependency (histoDependency deps)) = Some (cycle_from (chain_rel G cs) 0)"
proof -
  obtain vtc un ur rm ctd ds where "chain_maps G cs = Some (vtc, ds, ctd, un, ur, rm)" "om_edges un = chain_rel G cs"
    using chain_maps_ok [OF assms(1)] by (elim exE conjE)
  then show ?thesis using assms(2) by (auto simp: chain_maps_def Let_def has_loop_ok)
qed

lemma merge_nonempty:
  assumes "mergeChain G cs = Some (b, cs')" "[] \<notin> set cs"
  shows "[] \<notin> set cs'"
proof (cases b)
  case True
  then have "find_opt (\<lambda>i. do { check (cs ! i \<noteq> []); ts \<leftarrow> out_edges (last (cs ! i)) G; find_opt (try_merge G cs i) ts })
      [1..<length cs] = Some (Some cs')"
    using assms(1) by (auto simp: mergeChain_def bind_Some_iff split: option.splits)
  from find_opt_found [OF this] obtain i ts where i: "i < length cs" "find_opt (try_merge G cs i) ts = Some (Some cs')"
    by (auto simp: bind_Some_iff)
  from find_opt_found [OF i(2)] obtain w where "try_merge G cs i w = Some (Some cs')" by blast
  from try_merge_ok [OF this i(1)] obtain t where "cs' = (let m = cs[i := cs ! i @ cs ! t] in take t m @ drop (t + 1) m)"
    by blast
  then have "set cs' \<subseteq> insert (cs ! i @ cs ! t) (set cs)"
    using set_update_subset_insert [of cs i "cs ! i @ cs ! t"] set_take_subset set_drop_subset by (fastforce simp: Let_def)
  then show ?thesis using assms(2) i(1) by (metis Nil_is_append_conv insert_iff nth_mem subsetD)
next
  case False
  then show ?thesis using mergeChain_ok(3) [OF assms(1)] assms(2) by simp
qed

lemma merge_loop_ok:
  assumes "decomposition G cs" "[] \<notin> set cs"
  shows "\<exists>cs'. merge_loop G cs = Some cs' \<and> decomposition G cs' \<and> [] \<notin> set cs' \<and> length cs' \<le> length cs \<and>
    (cs' = cs \<or> \<not> cycle_from (chain_rel G cs') 0)"
  using assms
proof (induction G cs rule: merge_loop.induct)
  case (1 G cs)
  obtain b cs1 where r: "mergeChain G cs = Some (b, cs1)" using mergeChain_total [OF 1(2,3)] by auto
  note ok = mergeChain_ok [OF r]
  have d1: "decomposition G cs1" by (rule decomposition_mset [OF 1(2) ok(1)])
  show ?case
  proof (cases b)
    case True
    have "\<not> cycle_from (chain_rel G cs1) 0" using ok(4) [OF True] chain_loop_ok [OF d1] by auto
    then show ?thesis
      using 1(1) [OF r] True d1 merge_nonempty [OF r 1(3)] ok(2) [OF True] r by (fastforce simp: merge_loop.simps [of G cs])
  next
    case False
    then show ?thesis using ok(3) r 1(2,3) by (auto simp: merge_loop.simps [of G cs])
  qed
qed

subsection \<open>The initial chains\<close>

definition ch_key :: "vertex_prop \<Rightarrow> nat" where
  "ch_key p = u32 (the (stoi (vp_ch p)))"

lemma mset_om_push: "mset (concat (map snd (om_push k v m))) = add_mset v (mset (concat (map snd m)))"
  by (induction m) auto

lemma mset_om_group:
  "mset (concat (map snd (foldl (\<lambda>m (k, v). om_push k v m) m ps))) = mset (concat (map snd m)) + mset (map snd ps)"
  by (induction ps arbitrary: m) (auto simp: mset_om_push)

lemma om_succs_first:
  assumes "om_ok m"
  shows "mset (concat (om_succs m f # map snd (filter (\<lambda>p. fst p \<noteq> f) m))) = mset (concat (map snd m))"
  using om_ok_distinct [OF assms]
proof (induction m)
  case (Cons p m)
  have "filter (\<lambda>p. fst p \<noteq> f) m = m" if "fst p = f"
  proof (rule filter_True)
    have "f \<notin> fst ` set m" using Cons.prems that by simp
    then show "\<forall>q \<in> set m. fst q \<noteq> f" by (metis imageI)
  qed
  with Cons show ?case by (cases p) (auto simp: om_succs_def split: option.splits)
qed (simp add: om_succs_def)

definition chain_step :: "vertex_prop list \<Rightarrow> nat \<Rightarrow> newGraph \<times> (nat \<times> nat list) list \<Rightarrow> (newGraph \<times> (nat \<times> nat list) list) option" where
  "chain_step vs v s = (case s of (g, m) \<Rightarrow> do {
     c \<leftarrow> stoi (vp_ch (vs ! v));
     let g' = (if vp_opcode (vs ! v) = ''BB'' then g\<lparr>first_ch := u32 c, first_node_id := vp_name (vs ! v)\<rparr> else g);
     Some (g', om_push (u32 c) v m) })"

lemma chain_steps_ok:
  assumes "\<forall>v \<in> set xs. stoi (vp_ch (vs ! v)) \<noteq> None"
  shows "\<exists>a b. fold_opt (chain_step vs) xs (g, m) =
      Some (g\<lparr>first_ch := a, first_node_id := b\<rparr>, foldl (\<lambda>m (k, v). om_push k v m) m (map (\<lambda>v. (ch_key (vs ! v), v)) xs)) \<and>
    ((\<exists>v \<in> set xs. vp_opcode (vs ! v) = ''BB'' \<and> a = ch_key (vs ! v) \<and> b = vp_name (vs ! v)) \<or>
     (\<forall>v \<in> set xs. vp_opcode (vs ! v) \<noteq> ''BB'') \<and> a = first_ch g \<and> b = first_node_id g)"
  using assms
proof (induction xs arbitrary: g m)
  case (Cons x xs)
  obtain c where c: "stoi (vp_ch (vs ! x)) = Some c" using Cons.prems by auto
  then have k: "u32 c = ch_key (vs ! x)" by (simp add: ch_key_def)
  let ?g = "if vp_opcode (vs ! x) = ''BB'' then g\<lparr>first_ch := u32 c, first_node_id := vp_name (vs ! x)\<rparr> else g"
  have pre: "\<forall>v \<in> set xs. stoi (vp_ch (vs ! v)) \<noteq> None" using Cons.prems by simp
  obtain a b where ab: "fold_opt (chain_step vs) xs (?g, om_push (u32 c) x m) =
      Some (?g\<lparr>first_ch := a, first_node_id := b\<rparr>,
        foldl (\<lambda>m (k, v). om_push k v m) (om_push (u32 c) x m) (map (\<lambda>v. (ch_key (vs ! v), v)) xs))"
    "(\<exists>v \<in> set xs. vp_opcode (vs ! v) = ''BB'' \<and> a = ch_key (vs ! v) \<and> b = vp_name (vs ! v)) \<or>
     (\<forall>v \<in> set xs. vp_opcode (vs ! v) \<noteq> ''BB'') \<and> a = first_ch ?g \<and> b = first_node_id ?g"
    using Cons.IH [OF pre, of ?g "om_push (u32 c) x m"] by (elim exE conjE)
  have g: "?g\<lparr>first_ch := a, first_node_id := b\<rparr> = g\<lparr>first_ch := a, first_node_id := b\<rparr>" by simp
  have "fold_opt (chain_step vs) (x # xs) (g, m) = fold_opt (chain_step vs) xs (?g, om_push (u32 c) x m)"
    using c by (simp add: chain_step_def)
  moreover have "(\<exists>v \<in> set (x # xs). vp_opcode (vs ! v) = ''BB'' \<and> a = ch_key (vs ! v) \<and> b = vp_name (vs ! v)) \<or>
     (\<forall>v \<in> set (x # xs). vp_opcode (vs ! v) \<noteq> ''BB'') \<and> a = first_ch g \<and> b = first_node_id g"
    using ab(2) k by (cases "vp_opcode (vs ! x) = ''BB''") auto
  ultimately show ?case using ab(1) g k by (intro exI [of _ a] exI [of _ b]) simp
qed auto

lemma createChains_ok:
  assumes "graph_ok (orig_graph g)" "Chains g = []" "\<forall>p \<in> set (g_vertex (orig_graph g)). stoi (vp_ch p) \<noteq> None"
  shows "\<exists>g' a b m. createChains g = Some g' \<and> decomposition (orig_graph g) (Chains g') \<and>
    g' = g\<lparr>first_ch := a, first_node_id := b, chain_map := m, Chains := Chains g'\<rparr> \<and>
    (\<forall>c \<in> set (Chains g'). c = [] \<or> (\<exists>k. c = filter (\<lambda>v. ch_key (g_vertex (orig_graph g) ! v) = k) [0..<num_vertices (orig_graph g)])) \<and>
    Chains g' \<noteq> [] \<and>
    ((\<exists>v < num_vertices (orig_graph g). vp_opcode (g_vertex (orig_graph g) ! v) = ''BB'') \<longrightarrow>
       (\<exists>v \<in> set (Chains g' ! 0). vp_opcode (g_vertex (orig_graph g) ! v) = ''BB'' \<and> b = vp_name (g_vertex (orig_graph g) ! v)))"
proof -
  let ?vs = "g_vertex (orig_graph g)"
  let ?n = "length ?vs"
  let ?ps = "map (\<lambda>v. (ch_key (?vs ! v), v)) [0..<?n]"
  let ?m = "foldl (\<lambda>m (k, v). om_push k v m) [] ?ps"
  have n: "num_vertices (orig_graph g) = ?n" by (simp add: num_vertices_def)
  obtain a b where ab: "fold_opt (chain_step ?vs) [0..<?n] (g, []) = Some (g\<lparr>first_ch := a, first_node_id := b\<rparr>, ?m)"
    "(\<exists>v \<in> set [0..<?n]. vp_opcode (?vs ! v) = ''BB'' \<and> a = ch_key (?vs ! v) \<and> b = vp_name (?vs ! v)) \<or>
     (\<forall>v \<in> set [0..<?n]. vp_opcode (?vs ! v) \<noteq> ''BB'') \<and> a = first_ch g \<and> b = first_node_id g"
    using chain_steps_ok [of "[0..<?n]" ?vs g "[]"] assms(3) by auto
  let ?chs = "om_succs ?m a # map snd (filter (\<lambda>p. fst p \<noteq> a) ?m)"
  let ?g = "g\<lparr>first_ch := a, first_node_id := b, chain_map := zip [0..<length ?chs] ?chs, Chains := ?chs\<rparr>"
  have "(\<lambda>v (g, m). do { c \<leftarrow> stoi (vp_ch (?vs ! v));
         let g' = (if vp_opcode (?vs ! v) = ''BB'' then g\<lparr>first_ch := u32 c, first_node_id := vp_name (?vs ! v)\<rparr> else g);
         Some (g', om_push (u32 c) v m) }) = chain_step ?vs"
    by (auto simp: chain_step_def fun_eq_iff)
  then have cr: "createChains g = Some ?g" using ab(1) assms(2) by (simp add: createChains_def Let_def)
  have ok: "om_ok ?m" by (rule om_push_ok)
  have ms: "mset (concat ?chs) = mset [0..<?n]"
    unfolding om_succs_first [OF ok] mset_om_group by (simp add: comp_def)
  have "distinct (concat ?chs)" using mset_eq_imp_distinct_iff [OF ms] by simp
  moreover have "set (concat ?chs) = {..<?n}" using mset_eq_setD [OF ms] by (simp only: set_upt lessThan_atLeast0)
  ultimately have dec: "decomposition (orig_graph g) ?chs" using assms(1) by (simp add: decomposition_def n)
  have key: "map_of ?m k = Some c \<Longrightarrow> c = filter (\<lambda>v. ch_key (?vs ! v) = k) [0..<?n]" for k c
    using conjunct2 [OF om_push_group [of "[]" ?ps k, OF om_ok_Nil]]
    by (auto simp: filter_map comp_def split: if_splits)
  have grp: "c = [] \<or> (\<exists>k. c = filter (\<lambda>v. ch_key (?vs ! v) = k) [0..<?n])" if "c \<in> set ?chs" for c
  proof -
    have "c = om_succs ?m a \<or> (\<exists>k. (k, c) \<in> set ?m)" using that by auto
    then show ?thesis using key map_of_in_set [OF ok] by (auto simp: om_succs_def split: option.splits)
  qed
  have bb: "\<exists>v \<in> set (om_succs ?m a). vp_opcode (?vs ! v) = ''BB'' \<and> b = vp_name (?vs ! v)"
    if vb: "v < ?n" "vp_opcode (?vs ! v) = ''BB''" for v
  proof -
    obtain w where w: "w < ?n" "vp_opcode (?vs ! w) = ''BB''" "a = ch_key (?vs ! w)" "b = vp_name (?vs ! w)"
      using ab(2) vb by auto
    then have "(a, w) \<in> om_edges ?m" unfolding om_edges_push by auto
    then have "w \<in> set (om_succs ?m a)" by (simp add: om_edges_def)
    with w show ?thesis by blast
  qed
  show ?thesis
    using cr dec grp bb n by (intro exI [of _ ?g] exI [of _ a] exI [of _ b] exI [of _ "zip [0..<length ?chs] ?chs"]) auto
qed

subsection \<open>Properties\<close>

definition same_vertices :: "newGraph \<Rightarrow> newGraph \<Rightarrow> bool" where
  "same_vertices g g' \<longleftrightarrow> orig_graph g' = orig_graph g \<and> mset (concat (Chains g')) = mset (concat (Chains g))"

lemma same_vertices_trans: "same_vertices g g' \<Longrightarrow> same_vertices g' g'' \<Longrightarrow> same_vertices g g''"
  by (simp add: same_vertices_def)

lemma same_vertices_ops:
  "breakEveryLiveOut g = Some g' \<Longrightarrow> same_vertices g g'"
  "breakEveryLiveIn g = Some g' \<Longrightarrow> same_vertices g g'"
  "mergeChains g = Some g' \<Longrightarrow> same_vertices g g'"
  by (auto simp: same_vertices_def breakEveryLiveOut_def breakEveryLiveIn_def mergeChains_def bind_Some_iff
      dest: break_out_loop_mset break_in_loop_mset merge_loop_mset)

lemma same_vertices_when:
  "when_param s f g = Some g' \<Longrightarrow> (f g = Some g' \<Longrightarrow> same_vertices g g') \<Longrightarrow> same_vertices g g'"
  by (auto simp: when_param_def bind_Some_iff same_vertices_def split: if_splits)

lemma start_node_total:
  "Chains g \<noteq> [] \<Longrightarrow> \<exists>g'. breakingStartNode g = Some g' \<and> graph_parameter g' = graph_parameter g"
  by (cases "split_after (first_node_id g) (hd (Chains g))") (auto simp: breakingStartNode_def check_bind Let_def)

text \<open>C9. Forming chains keeps every instruction exactly once: starting from the vertex attributes,
  whatever combination of breaking at live-outs, breaking at live-ins and merging the parameters
  ask for, the chains that result partition the vertices of the graph; with breaking at live-ins and
  merging switched off, the default, the phase always completes. The \<^verbatim>\<open>ch\<close> attributes must be numbers
  and the three parameters present.\<close>

theorem decompose_graph_partition:
  assumes "graph_ok (orig_graph g)" "Chains g = []" "\<forall>p \<in> set (g_vertex (orig_graph g)). stoi (vp_ch p) \<noteq> None"
    and "graph_parameter g ''BREAK_LIVE_OUT'' = Some bo" "graph_parameter g ''BREAK_LIVE_IN'' = Some bi"
    and "graph_parameter g ''MERGE'' = Some mg"
  shows "(bi = 0 \<and> mg = 0 \<longrightarrow> decompose_graph g \<noteq> None) \<and>
    (\<forall>g'. decompose_graph g = Some g' \<longrightarrow> orig_graph g' = orig_graph g \<and> decomposition (orig_graph g) (Chains g'))"
proof (intro conjI impI allI)
  obtain g1 a b m where c: "createChains g = Some g1" "decomposition (orig_graph g) (Chains g1)" "Chains g1 \<noteq> []"
    "g1 = g\<lparr>first_ch := a, first_node_id := b, chain_map := m, Chains := Chains g1\<rparr>"
    using createChains_ok [OF assms(1-3)] by (elim exE conjE)
  obtain g2 where s: "breakingStartNode g1 = Some g2" "graph_parameter g2 = graph_parameter g1"
    using start_node_total [OF c(3)] by blast
  have fr: "orig_graph g1 = orig_graph g" "graph_parameter g1 = graph_parameter g" by (subst c(4), simp)+
  have g2: "orig_graph g2 = orig_graph g" "decomposition (orig_graph g) (Chains g2)"
    using start_node_mset [OF s(1)] fr c(2) decomposition_mset by auto
  {
    assume off: "bi = 0 \<and> mg = 0"
    obtain cs' where "break_out_loop (orig_graph g2) (Chains g2) = Some cs'"
      using break_out_loop_ok [of "orig_graph g2" "Chains g2"] g2 by auto
    then have "\<exists>g3. when_param ''BREAK_LIVE_OUT'' breakEveryLiveOut g2 = Some g3 \<and> graph_parameter g3 = graph_parameter g"
      using s(2) fr assms(4) by (cases "bo = 0") (auto simp: when_param_def breakEveryLiveOut_def)
    then obtain g3 where "when_param ''BREAK_LIVE_OUT'' breakEveryLiveOut g2 = Some g3"
      "graph_parameter g3 = graph_parameter g" by blast
    moreover have "when_param ''BREAK_LIVE_IN'' breakEveryLiveIn g3 = Some g3" "when_param ''MERGE'' mergeChains g3 = Some g3"
      using calculation(2) off assms(5,6) by (simp_all add: when_param_def)
    ultimately show "decompose_graph g \<noteq> None" using c(1) s(1) by (simp add: decompose_graph_def)
  }
  {
    fix g' assume "decompose_graph g = Some g'"
    then obtain g3 g4 where st: "when_param ''BREAK_LIVE_OUT'' breakEveryLiveOut g2 = Some g3"
      "when_param ''BREAK_LIVE_IN'' breakEveryLiveIn g3 = Some g4" "when_param ''MERGE'' mergeChains g4 = Some g'"
      using c(1) s(1) by (auto simp: decompose_graph_def bind_Some_iff)
    have "same_vertices g2 g3" "same_vertices g3 g4" "same_vertices g4 g'"
      using st [THEN same_vertices_when] same_vertices_ops by blast+
    then have "same_vertices g2 g'" using same_vertices_trans by blast
    then show "orig_graph g' = orig_graph g" "decomposition (orig_graph g) (Chains g')"
      using g2 decomposition_mset [OF g2(2)] by (auto simp: same_vertices_def)
  }
qed

definition sample_vertex :: "nat \<Rightarrow> string \<Rightarrow> string \<Rightarrow> vertex_prop" where
  "sample_vertex n c op = default_vertex\<lparr>vp_name := n, vp_ch := c, vp_opcode := op\<rparr>"

definition sample_ng :: newGraph where
  "sample_ng = (newGraph_new (\<lambda>_. Some 0) Map.empty 0 empty_graph)
     \<lparr>orig_graph := \<lparr>g_vertex = [sample_vertex 0 ''0'' ''BB'', sample_vertex 1 ''1'' ''Add'', sample_vertex 2 ''1'' ''Load''],
        g_out = [[1, 2], [2], []]\<rparr>\<rparr>"

theorem decompose_graph_partition_witness:
  "\<exists>g'. decompose_graph sample_ng = Some g' \<and> decomposition (orig_graph sample_ng) (Chains g')"
proof -
  have "stoi ''0'' \<noteq> None" "stoi ''1'' \<noteq> None" by code_simp+
  then have "\<forall>p \<in> set (g_vertex (orig_graph sample_ng)). stoi (vp_ch p) \<noteq> None"
    by (simp add: sample_ng_def sample_vertex_def)
  then show ?thesis
    using decompose_graph_partition [of sample_ng 0 0 0]
    by (auto simp: sample_ng_def newGraph_new_def graph_ok_def num_vertices_def)
qed

text \<open>Breaking at live-outs terminates and does its job: from any partition of the vertices into
  chains the loop of \<^verbatim>\<open>breakEveryLiveOut\<close> ends without failure in a partition with at least as many
  chains, in which every edge from one chain to another starts at the last instruction of its
  chain.\<close>

lemma break_live_out_ok:
  assumes "decomposition G cs"
  shows "\<exists>cs'. break_out_loop G cs = Some cs' \<and> decomposition G cs' \<and> length cs \<le> length cs' \<and>
    (\<forall>u v i j. chain_of cs' u i \<and> chain_of cs' v j \<and> i \<noteq> j \<and> edge G u v \<longrightarrow> u = last (cs' ! i))"
  by (rule break_out_loop_ok [OF assms])

text \<open>C30. Merging chains terminates and is safe: from a partition into non-empty chains the loop over
  \<^verbatim>\<open>mergeChain\<close> ends without failure in a partition into no more, non-empty chains; if it changed
  anything, no cycle of chains can be reached from chain 0.\<close>

theorem merge_chains_ok:
  assumes "decomposition G cs" "[] \<notin> set cs"
  shows "\<exists>cs'. merge_loop G cs = Some cs' \<and> decomposition G cs' \<and> [] \<notin> set cs' \<and> length cs' \<le> length cs \<and>
    (cs' = cs \<or> \<not> (\<exists>u. (0, u) \<in> (chain_rel G cs')\<^sup>* \<and> (u, u) \<in> (chain_rel G cs')\<^sup>+))"
  using merge_loop_ok [OF assms] by (simp add: cycle_from_def)

theorem merge_chains_ok_witness:
  "\<exists>cs'. merge_loop sample_graph [[0], [1, 3], [2]] = Some cs' \<and> [] \<notin> set cs' \<and> length cs' \<le> 3"
  using merge_chains_ok [OF sample_decomposition] by auto

text \<open>Breaking at live-ins reads past the end of a chain: \<^verbatim>\<open>breakInHelper\<close> compares \<^verbatim>\<open>*temp_it\<close> before it
  tests \<^verbatim>\<open>temp_it\<close> for the end. When the first dependency leads from a chain whose first instruction
  has an edge inside its own chain, the search fails and the loop dereferences the end iterator.\<close>

lemma break_in_reads_past_end:
  assumes "dependenciesGenerate G cs (vertexToChainMap cs) = Some (d # ds)"
    and "cs ! dep_source d = v # vs" "out_edges v G = Some (t # ts)" "t \<notin> set (cs ! dep_target d)"
  shows "break_in_loop G cs = None"
  using assms by (simp add: break_in_loop.simps [of G cs] breakInHelper_def break_in_dep_def check_bind)

text \<open>Breaking behind the start node can leave an empty chain: when the basic-block vertex is the last
  of a first chain with other vertices, \<^verbatim>\<open>breakingStartNode\<close> appends an empty vector to the chains, and
  \<^verbatim>\<open>mergeChain\<close>, if nothing can be merged before it, calls \<^verbatim>\<open>back()\<close> on it.\<close>

lemma start_node_empty_chain:
  assumes "Chains g = (xs @ [first_node_id g]) # cs" "xs \<noteq> []" "first_node_id g \<notin> set xs"
  shows "\<exists>g'. breakingStartNode g = Some g' \<and> Chains g' = (xs @ [first_node_id g]) # cs @ [[]] \<and>
    (cs = [] \<longrightarrow> mergeChain (clean_graph g') (Chains g') = None)"
proof -
  have ne: "x \<noteq> first_node_id g" if "x \<in> set xs" for x using that assms(3) by auto
  have "dropWhile (\<lambda>x. x \<noteq> first_node_id g) (xs @ [first_node_id g]) = [first_node_id g]"
    using dropWhile_append2 [of xs "\<lambda>x. x \<noteq> first_node_id g" "[first_node_id g]"] ne by simp
  moreover have "takeWhile (\<lambda>x. x \<noteq> first_node_id g) (xs @ [first_node_id g]) = xs"
    using takeWhile_append2 [of xs "\<lambda>x. x \<noteq> first_node_id g" "[first_node_id g]"] ne by simp
  ultimately have s: "split_after (first_node_id g) (xs @ [first_node_id g]) = (xs @ [first_node_id g], [])"
    by (simp add: split_after_def)
  have "mergeChain G [ys, []] = None" for ys :: "nat list" and G :: "vertex_prop boost_graph"
    by (simp add: mergeChain_def)
  with s assms show ?thesis by (auto simp: breakingStartNode_def)
qed

end
