(* ===== verification/Cs_Chain_Blocks.thy ===== *)
theory Cs_Chain_Blocks
  imports Cs_Chain_Splits
begin

text \<open>
  Correctness of the second phase of \<^verbatim>\<open>newGraph::initialize\<close>: dependencies, the chain graph with
  its levels, and the grouping of chains into blocks; and what the construction of the ILP graph
  does to the instruction graph.
\<close>

abbreviation no_blocks :: "chainGraph list \<Rightarrow> chainGraph list" where
  "no_blocks \<equiv> map (\<lambda>m. m\<lparr>cg_blockID := 0\<rparr>)"

lemma no_blocks_set: "no_blocks (set_block c b g) = no_blocks g"
  by (induction g) (auto simp: set_block_def)

lemma no_blocks_ids: "no_blocks g = no_blocks h \<Longrightarrow> map cg_chainId g = map cg_chainId h"
proof -
  have "map cg_chainId (no_blocks g) = map cg_chainId g" for g by simp
  then show "no_blocks g = no_blocks h \<Longrightarrow> map cg_chainId g = map cg_chainId h" by metis
qed

lemma blocks_set_block: "cg_blockID ` set (set_block c b g) \<subseteq> insert b (cg_blockID ` set g)"
  by (induction g) (auto simp: set_block_def)

definition blk_inv :: "chainGraph list \<Rightarrow> block_state \<Rightarrow> bool" where
  "blk_inv g0 s \<longleftrightarrow> (case s of (i, pass, cg) \<Rightarrow> no_blocks cg = no_blocks g0 \<and> om_ok pass \<and>
     (\<forall>b \<in> cg_blockID ` set cg. map_of pass b \<noteq> None))"

lemma blk_inv_set:
  assumes "blk_inv g0 (i, pass, cg)" "map_of pass b \<noteq> None"
  shows "blk_inv g0 (j, pass, set_block c b cg)"
  using assms blocks_set_block [of c b cg] by (auto simp: blk_inv_def no_blocks_set)

lemma blk_inv_pass: "blk_inv g0 (i, pass, cg) \<Longrightarrow> blk_inv g0 (j, om_put b v pass, cg)"
  by (auto simp: blk_inv_def om_simps)

lemma blk_inv_new: "blk_inv g0 s \<Longrightarrow> blk_inv g0 (new_block c s)"
proof (cases s)
  case (fields i pass cg)
  assume "blk_inv g0 s"
  then have inv: "blk_inv g0 (i, pass, cg)" using fields by simp
  then have "om_ok pass" by (simp add: blk_inv_def)
  then have "map_of (om_put (i + 1) 1 pass) (i + 1) \<noteq> None" by (simp add: om_simps)
  with blk_inv_pass [OF inv] have "blk_inv g0 (i + 1, om_put (i + 1) 1 pass, set_block c (i + 1) cg)"
    by (rule blk_inv_set)
  then show ?thesis using fields by (simp add: new_block_def)
qed

lemma blk_find:
  assumes "blk_inv g0 (i, pass, cg)" "map cg_chainId g0 = [0..<n]" "c < n"
  shows "\<exists>m \<in> set cg. find_cg cg c = Some m"
proof -
  have "no_blocks cg = no_blocks g0" using assms(1) by (simp add: blk_inv_def)
  then have "map cg_chainId cg = map cg_chainId g0" by (rule no_blocks_ids)
  then have ids: "map cg_chainId cg = [0..<n]" using assms(2) by simp
  then have "length cg = n" by (metis length_map length_upt minus_nat.diff_0)
  then show ?thesis using find_cg_nth [OF ids, of c] assms(3) by simp
qed

lemma root_child_ok:
  assumes "blk_inv g0 s" "map cg_chainId g0 = [0..<n]" "c < n"
  shows "\<exists>s'. root_child c s = Some s' \<and> blk_inv g0 s'"
proof (cases s)
  case (fields i pass cg)
  then obtain m where "find_cg cg c = Some m" using blk_find assms by blast
  then show ?thesis using fields assms(1) blk_inv_new by (auto simp: root_child_def)
qed

lemma fresh_block_ok:
  assumes "blk_inv g0 s" "map cg_chainId g0 = [0..<n]" "c < n"
  shows "\<exists>s'. fresh_block c s = Some s' \<and> blk_inv g0 s'"
proof (cases s)
  case (fields i pass cg)
  then obtain m where "find_cg cg c = Some m" using blk_find assms by blast
  then show ?thesis using fields assms(1) blk_inv_new by (auto simp: fresh_block_def)
qed

lemma block_child_ok:
  assumes "blk_inv g0 s" "map cg_chainId g0 = [0..<n]" "c < n" "x < n" "map_of ur c \<noteq> None" "limit = Some l"
  shows "\<exists>ks. block_child limit ur x c (cnt, s) = Some ks \<and> blk_inv g0 (snd ks)"
proof (cases s)
  case (fields i pass cg)
  obtain m where m: "find_cg cg c = Some m" using blk_find assms fields by blast
  obtain ch where ch: "ch \<in> set cg" "find_cg cg x = Some ch" using blk_find assms fields by blast
  obtain ps where ps: "map_of ur c = Some ps" using assms(5) by blast
  have inv: "blk_inv g0 (i, pass, cg)" using assms(1) fields by simp
  then obtain p where p: "map_of pass (cg_blockID ch) = Some p" using ch(1) by (auto simp: blk_inv_def)
  let ?b = "cg_blockID ch"
  have put: "map_of (om_put ?b (p + 1) pass) ?b \<noteq> None" using inv by (simp add: blk_inv_def om_simps)
  have 1: "blk_inv g0 (i, pass, set_block c ?b cg)" using blk_inv_set [OF inv] p by simp
  have 2: "blk_inv g0 (i, om_put ?b (p + 1) pass, set_block c ?b cg)"
    using blk_inv_set [OF blk_inv_pass [OF inv] put] by blast
  obtain s' where s': "fresh_block c (i, pass, cg) = Some s'" "blk_inv g0 s'"
    using fresh_block_ok [OF inv assms(2,3)] by blast
  let ?single = "length ps = 2 \<and> 0 \<in> set ps"
  have step: "block_child limit ur x c (cnt, s) =
      (if ?single \<and> cnt = 1 then Some (cnt + 1, i, pass, set_block c ?b cg)
       else if ?single \<and> 1 < cnt \<and> p + 1 \<le> l then Some (cnt + 1, i, om_put ?b (p + 1) pass, set_block c ?b cg)
       else Some (cnt, s'))"
    using m ch(2) ps p s'(1) fields assms(6) by (simp add: block_child_def Let_def)
  show ?thesis unfolding step using 1 2 s'(2) by (auto simp del: split_paired_Ex)
qed

lemma fold_opt_total:
  assumes "\<And>x s. x \<in> set xs \<Longrightarrow> P s \<Longrightarrow> \<exists>s'. f x s = Some s' \<and> P s'" "P s"
  shows "\<exists>s'. fold_opt f xs s = Some s' \<and> P s'"
  using assms
proof (induction xs arbitrary: s)
  case (Cons x xs)
  then obtain s' where "f x s = Some s'" "P s'" by (metis list.set_intros(1))
  with Cons.IH [of s'] Cons.prems(1) show ?case by auto
qed simp

lemma block_visit_ok:
  assumes "blk_inv g0 s" "map cg_chainId g0 = [0..<n]" "x < n" "x \<noteq> 0" "limit = Some l"
    and "om_edges un \<subseteq> {..<n} \<times> {..<n}" "om_edges ur = (om_edges un)\<inverse>"
  shows "\<exists>s'. block_visit limit un ur x s = Some s' \<and> blk_inv g0 s'"
proof (cases s)
  case (fields i pass cg)
  obtain ch where ch: "find_cg cg x = Some ch" using blk_find [of g0 i pass cg n x] assms(1-3) fields by auto
  show ?thesis
  proof (cases "map_of un x")
    case (Some cs)
    have "\<exists>s'. block_child limit ur x c ks = Some s' \<and> blk_inv g0 (snd s')" if "c \<in> set cs" "blk_inv g0 (snd ks)" for c ks
    proof -
      have "(x, c) \<in> om_edges un" using that(1) Some by (auto simp: om_edges_iff)
      then have "c < n" "(c, x) \<in> om_edges ur" using assms(6,7) by auto
      then have "map_of ur c \<noteq> None" by (auto simp: om_edges_iff)
      then show ?thesis using block_child_ok [OF that(2) assms(2) \<open>c < n\<close> assms(3) _ assms(5), of ur "fst ks"] by simp
    qed
    then obtain ks where "fold_opt (block_child limit ur x) cs (1, s) = Some ks" "blk_inv g0 (snd ks)"
      using fold_opt_total [of cs "\<lambda>ks. blk_inv g0 (snd ks)" "block_child limit ur x" "(1, s)"] assms(1) by auto
    with Some ch fields assms(4) show ?thesis by (auto simp: block_visit_def)
  qed (use ch fields assms(1,4) in \<open>auto simp: block_visit_def\<close>)
qed

lemma block_visit_root:
  assumes "map cg_chainId g0 = [0..<n]" "0 < n" "\<forall>m \<in> set g0. cg_blockID m = 0" "map_of un 0 \<noteq> None"
    and "om_edges un \<subseteq> {..<n} \<times> {..<n}"
  shows "\<exists>s'. block_visit limit un ur 0 (0, [], g0) = Some s' \<and> blk_inv g0 s'"
proof -
  obtain cs where cs: "map_of un 0 = Some cs" using assms(4) by blast
  obtain ch where ch: "find_cg g0 0 = Some ch" using find_cg_nth [OF assms(1), of 0] assms(2) by auto
  have "cg_blockID ` set (set_block 0 0 g0) \<subseteq> {0}" using blocks_set_block [of 0 0 g0] assms(3) by auto
  then have inv: "blk_inv g0 (0, om_put 0 0 [], set_block 0 0 g0)" by (auto simp: blk_inv_def no_blocks_set om_ok_def)
  have "c < n" if "c \<in> set cs" for c
  proof -
    have "(0, c) \<in> om_edges un" using that cs by (auto simp: om_edges_iff)
    then show ?thesis using assms(5) by auto
  qed
  then have "\<exists>s'. fold_opt root_child cs (0, om_put 0 0 [], set_block 0 0 g0) = Some s' \<and> blk_inv g0 s'"
    using root_child_ok [OF _ assms(1)] inv by (intro fold_opt_total) auto
  then show ?thesis using cs ch by (auto simp: block_visit_def)
qed

subsection \<open>Blocks group the chains\<close>

abbreviation blocks_of :: "(nat \<times> nat) list \<Rightarrow> Block list" where
  "blocks_of ps \<equiv> foldl (\<lambda>bs (b, c). push_block b c bs) [] ps"

lemma push_block_ids: "blkID ` set (push_block b c bs) = insert b (blkID ` set bs)"
  by (induction bs) auto

lemma push_block_distinct: "distinct (map blkID bs) \<Longrightarrow> distinct (map blkID (push_block b c bs))"
proof (induction bs)
  case (Cons x bs)
  then show ?case using push_block_ids [of b c bs] by (auto simp flip: set_map)
qed simp

lemma push_block_chains:
  assumes "distinct (map blkID bs)" "x \<in> set (push_block b c bs)"
  shows "blkID x = b \<and> b \<notin> blkID ` set bs \<and> blk_chains x = [c] \<or>
    (\<exists>y \<in> set bs. blkID x = blkID y \<and> blk_chains x = (if blkID x = b then blk_chains y @ [c] else blk_chains y))"
  using assms
proof (induction bs)
  case (Cons y bs)
  show ?case
  proof (cases "blkID y = b")
    case True
    then have "\<forall>z \<in> set bs. blkID z \<noteq> b" using Cons.prems(1) by (auto dest: sym)
    with True Cons.prems(2) show ?thesis by auto
  next
    case False
    with Cons show ?thesis by auto
  qed
qed auto

lemma push_blocks_group:
  "distinct (map blkID (blocks_of ps)) \<and> blkID ` set (blocks_of ps) = fst ` set ps \<and>
   (\<forall>x \<in> set (blocks_of ps). blk_chains x = map snd (filter (\<lambda>p. fst p = blkID x) ps))"
proof (induction ps rule: rev_induct)
  case (snoc p ps)
  obtain b c where p: "p = (b, c)" by (cases p)
  have eq: "blocks_of (ps @ [p]) = push_block b c (blocks_of ps)" by (simp add: p)
  have "blk_chains x = map snd (filter (\<lambda>q. fst q = blkID x) (ps @ [p]))" if x: "x \<in> set (push_block b c (blocks_of ps))" for x
    using push_block_chains [OF conjunct1 [OF snoc.IH] x]
  proof (elim disjE bexE conjE)
    assume "blkID x = b" "b \<notin> blkID ` set (blocks_of ps)" "blk_chains x = [c]"
    moreover from this have "filter (\<lambda>q. fst q = b) ps = []" using snoc.IH by (force simp: filter_empty_conv)
    ultimately show ?thesis by (simp add: p)
  next
    fix y
    assume "y \<in> set (blocks_of ps)" "blkID x = blkID y"
      "blk_chains x = (if blkID x = b then blk_chains y @ [c] else blk_chains y)"
    then show ?thesis using snoc.IH by (auto simp: p)
  qed
  then show ?case
    unfolding eq using snoc.IH push_block_ids [of b c "blocks_of ps"] push_block_distinct [of "blocks_of ps" b c]
    by (auto simp: p)
qed simp

subsection \<open>The phase\<close>

lemma buildDependencies_ok:
  assumes "decomposition (orig_graph g) (Chains g)"
  shows "\<exists>vtc deps ctd un ur rm. buildDependencies g =
      Some (g\<lparr>vertex_to_Chunk := vtc, ng_dependencies := deps, chain_to_dependencies := ctd,
        ng_un_dependencies := un, un_reverse_mapping := ur, reverse_mapping := rm\<rparr>) \<and>
    om_edges un = chain_rel (orig_graph g) (Chains g) \<and> om_edges ur = (chain_rel (orig_graph g) (Chains g))\<inverse>"
proof -
  obtain vtc deps ctd un ur rm where m: "chain_maps (orig_graph g) (Chains g) = Some (vtc, deps, ctd, un, ur, rm)"
    "om_edges un = chain_rel (orig_graph g) (Chains g)" "om_edges ur = {(j, i). cross (orig_graph g) (Chains g) i j}"
    using chain_maps_ok [OF assms] by (elim exE conjE)
  have "{(j, i). cross (orig_graph g) (Chains g) i j} = (chain_rel (orig_graph g) (Chains g))\<inverse>" by auto
  with m show ?thesis
    by (intro exI [of _ vtc] exI [of _ deps] exI [of _ ctd] exI [of _ un] exI [of _ ur] exI [of _ rm])
      (simp add: buildDependencies_def)
qed

lemma chain_rel_bound: "chain_rel G cs \<subseteq> {..<length cs} \<times> {..<length cs}"
  by (auto simp: cross_def chain_of_def)

lemma those_map_upt:
  assumes "\<And>i. i < n \<Longrightarrow> f i = Some (h i)"
  shows "those (map f [0..<n]) = Some (map h [0..<n])"
  using assms by (simp add: those_map_Some list_all2_conv_all_nth)

lemma no_levels_fields:
  assumes "no_levels g = no_levels h"
  shows "map cg_chainId g = map cg_chainId h" "map cg_nodes g = map cg_nodes h" "map cg_blockID g = map cg_blockID h"
proof -
  have "map cg_chainId (no_levels g) = map cg_chainId g" "map cg_nodes (no_levels g) = map cg_nodes g"
    "map cg_blockID (no_levels g) = map cg_blockID g" for g by simp_all
  then show "map cg_chainId g = map cg_chainId h" "map cg_nodes g = map cg_nodes h" "map cg_blockID g = map cg_blockID h"
    using assms by metis+
qed

lemma no_blocks_fields:
  assumes "no_blocks g = no_blocks h"
  shows "map cg_nodes g = map cg_nodes h" "map cg_level g = map cg_level h"
proof -
  have "map cg_level (no_blocks g) = map cg_level g" "map cg_nodes (no_blocks g) = map cg_nodes g" for g by simp_all
  then show "map cg_nodes g = map cg_nodes h" "map cg_level g = map cg_level h" using assms by metis+
qed

lemma buildChainGraph_ok:
  assumes dec: "decomposition (orig_graph g) (Chains g)" and "Chains g \<noteq> []" "chain_graph g = []"
    and un: "om_edges (ng_un_dependencies g) = chain_rel (orig_graph g) (Chains g)"
    and acyc: "\<not> cycle_from (chain_rel (orig_graph g) (Chains g)) 0"
  shows "\<exists>cg. buildChainGraph g = Some (g\<lparr>chain_graph := cg\<rparr>) \<and> map cg_chainId cg = [0..<length (Chains g)] \<and>
    map cg_nodes cg = Chains g \<and> (\<forall>m \<in> set cg. cg_blockID m = 0) \<and>
    (\<forall>i < length (Chains g). longest_level (chain_rel (orig_graph g) (Chains g)) 0 i (cg_level (cg ! i)))"
proof -
  let ?n = "length (Chains g)"
  have "\<forall>v \<in> set (Chains g ! i). v < num_vertices (orig_graph g)" if "i < ?n" for i
    using dec nth_mem [OF that] unfolding decomposition_def by auto
  then have "\<exists>m. chain_node g i = Some m \<and> cg_chainId m = i \<and> cg_level m = -1 \<and> cg_nodes m = Chains g ! i \<and> cg_blockID m = 0"
    if "i < ?n" for i
    using that by (simp add: chain_node_def check_def list_all_iff chainGraph_new_def Let_def)
  then obtain f where f: "\<forall>i < ?n. chain_node g i = Some (f i) \<and> cg_chainId (f i) = i \<and> cg_level (f i) = -1 \<and>
      cg_nodes (f i) = Chains g ! i \<and> cg_blockID (f i) = 0"
    by metis
  define ns where "ns = map f [0..<?n]"
  have those: "those (map (chain_node g) [0..<?n]) = Some ns"
    unfolding ns_def using f by (intro those_map_upt) auto
  have ns: "map cg_chainId ns = [0..<?n]" "\<forall>m \<in> set ns. cg_level m = -1" "map cg_nodes ns = Chains g"
      "map cg_blockID ns = replicate ?n 0" "length ns = ?n"
    using f by (auto simp: ns_def intro: nth_equalityI)
  obtain cg where cg: "findChainsLevel ?n 0 0 (ng_un_dependencies g) ns = Some cg" "no_levels cg = no_levels ns"
      "\<forall>i < ?n. longest_level (om_edges (ng_un_dependencies g)) 0 i (cg_level (cg ! i))"
    using findChainsLevel_ok [OF ns(1) _ ns(2), of "ng_un_dependencies g"] assms(2) acyc
      chain_rel_bound [of "orig_graph g" "Chains g"] unfolding un by auto
  have "set (map cg_blockID cg) \<subseteq> {0}" unfolding no_levels_fields(3) [OF cg(2)] ns(4) by auto
  then show ?thesis
    using cg(1,3) ns(1,3,5) no_levels_fields(1,2) [OF cg(2)] assms(3) those un
    by (intro exI [of _ cg]) (auto simp: buildChainGraph_def Let_def)
qed

subsection \<open>The order in which chains are visited\<close>

lemma om_push_mset: "mset (concat (map snd (om_push k v m))) = add_mset v (mset (concat (map snd m)))"
proof (induction m)
  case (Cons kv m)
  then show ?case by (cases kv) auto
qed simp

lemma push_levels:
  "mset (concat (map snd (foldl (\<lambda>m c. om_push (u32 (cg_level c)) (cg_chainId c) m) m cs))) =
     mset (concat (map snd m)) + mset (map cg_chainId cs)"
  by (induction cs arbitrary: m) (auto simp: om_push_mset)

lemma push_first:
  assumes "m = (0 :: nat, x # vs) # ms"
  shows "\<exists>vs' ms'. foldl (\<lambda>m c. om_push (u32 (cg_level c)) (cg_chainId c) m) m cs = (0, x # vs') # ms'"
  using assms by (induction cs arbitrary: m vs ms) auto

lemma visit_order:
  assumes "map cg_chainId cg = [0..<n]" "0 < n" "cg_level (cg ! 0) = 0"
  shows "\<exists>xs. concat (map snd (foldl (\<lambda>m c. om_push (u32 (cg_level c)) (cg_chainId c) m) [] cg)) = 0 # xs \<and>
    set xs = {0<..<n}"
proof -
  obtain c cs where cg: "cg = c # cs" using assms(1,2) by (cases cg) (auto simp: upt_rec)
  then have c: "cg_chainId c = 0" "cg_level c = 0" using assms by (auto simp: upt_rec split: if_splits)
  let ?m = "foldl (\<lambda>m c. om_push (u32 (cg_level c)) (cg_chainId c) m) [] cg"
  have "?m = foldl (\<lambda>m c. om_push (u32 (cg_level c)) (cg_chainId c) m) [(0, [0])] cs" using c by (simp add: cg u32_def)
  then obtain vs ms where m: "?m = (0, 0 # vs) # ms" using push_first [of "[(0, [0])]" 0 "[]" "[]" cs] by auto
  then have xs: "concat (map snd ?m) = 0 # (vs @ concat (map snd ms))" by simp
  have "mset (concat (map snd ?m)) = mset [0..<n]" using push_levels [of "[]" cg] assms(1) by simp
  then have "mset (vs @ concat (map snd ms)) = mset [1..<n]" unfolding xs using assms(2) by (simp add: upt_rec)
  then have "set (vs @ concat (map snd ms)) = {0<..<n}" by (metis atLeastSucLessThan_greaterThanLessThan mset_eq_setD One_nat_def set_upt)
  with xs show ?thesis by blast
qed

lemma root_level:
  assumes "longest_level E 0 0 l" "\<not> cycle_from E 0"
  shows "l = 0"
proof -
  have l: "0 \<le> l" "(0, 0) \<in> E ^^ nat l" using assms(1) by (auto simp: longest_level_def)
  have "nat l = 0"
  proof (rule ccontr)
    assume "nat l \<noteq> 0"
    then have "(0, 0) \<in> E\<^sup>+" using l(2) trancl_power by blast
    then show False using assms(2) by (auto simp: cycle_from_def)
  qed
  with l(1) show ?thesis by simp
qed

lemma createChainBlocks_ok:
  assumes ids: "map cg_chainId (chain_graph g) = [0..<n]" and "0 < n" "\<forall>m \<in> set (chain_graph g). cg_blockID m = 0"
    and lvl: "cg_level (chain_graph g ! 0) = 0" "chain_level g = []" "block_chain g = []"
    and un: "om_edges (ng_un_dependencies g) \<subseteq> {..<n} \<times> {..<n}" "(0, j) \<in> om_edges (ng_un_dependencies g)"
    and ur: "om_edges (un_reverse_mapping g) = (om_edges (ng_un_dependencies g))\<inverse>"
    and lim: "graph_parameter g ''BLOCK_LIMIT'' = Some lim"
  shows "\<exists>cg. createChainBlocks (buildChainLevel g) = Some ((buildChainLevel g)\<lparr>chain_graph := cg,
      block_chain := blocks_of (map (\<lambda>c. (cg_blockID c, cg_chainId c)) cg)\<rparr>) \<and> no_blocks cg = no_blocks (chain_graph g)"
proof -
  let ?g = "buildChainLevel g" and ?un = "ng_un_dependencies g" and ?ur = "un_reverse_mapping g"
  obtain xs where xs: "concat (map snd (chain_level ?g)) = 0 # xs" "set xs = {0<..<n}"
    using visit_order [OF ids assms(2) lvl(1)] lvl(2) by (auto simp: buildChainLevel_def)
  have "map_of ?un 0 \<noteq> None" using un(2) by (auto simp: om_edges_iff)
  then obtain s where s: "block_visit (Some lim) ?un ?ur 0 (0, [], chain_graph g) = Some s" "blk_inv (chain_graph g) s"
    using block_visit_root [OF ids assms(2,3) _ un(1)] by blast
  have "\<exists>s'. block_visit (Some lim) ?un ?ur x t = Some s' \<and> blk_inv (chain_graph g) s'"
    if "x \<in> set xs" "blk_inv (chain_graph g) t" for x t
    using block_visit_ok [OF that(2) ids, of x "Some lim" lim ?un ?ur] that(1) xs(2) un(1) ur by simp
  then obtain s' where s': "fold_opt (block_visit (Some lim) ?un ?ur) xs s = Some s'" "blk_inv (chain_graph g) s'"
    using fold_opt_total [of xs "blk_inv (chain_graph g)" "block_visit (Some lim) ?un ?ur" s] s(2) by blast
  obtain i pass cg where f: "s' = (i, pass, cg)" by (cases s')
  have "fold_opt (block_visit (Some lim) ?un ?ur) (concat (map snd (chain_level ?g))) (0, [], chain_graph g) = Some (i, pass, cg)"
    using s(1) s'(1) f by (simp add: xs(1))
  moreover have "graph_parameter ?g = graph_parameter g" "ng_un_dependencies ?g = ?un" "un_reverse_mapping ?g = ?ur"
    "chain_graph ?g = chain_graph g" "block_chain ?g = []"
    using lvl(3) by (simp_all add: buildChainLevel_def)
  ultimately show ?thesis using s'(2) f lim
    by (intro exI [of _ cg]) (simp add: createChainBlocks_def blk_inv_def foldl_map)
qed

text \<open>The final state of the phase: chains in order with their vertices, levels that are longest paths,
  and blocks that group the chains.\<close>

definition chain_graph_ok :: "newGraph \<Rightarrow> bool" where
  "chain_graph_ok g \<longleftrightarrow>
     map cg_chainId (chain_graph g) = [0..<length (Chains g)] \<and> map cg_nodes (chain_graph g) = Chains g \<and>
     om_edges (ng_un_dependencies g) = chain_rel (orig_graph g) (Chains g) \<and>
     om_edges (un_reverse_mapping g) = (chain_rel (orig_graph g) (Chains g))\<inverse> \<and>
     (\<forall>i < length (Chains g). longest_level (chain_rel (orig_graph g) (Chains g)) 0 i (cg_level (chain_graph g ! i))) \<and>
     distinct (map blkID (block_chain g)) \<and> blkID ` set (block_chain g) = cg_blockID ` set (chain_graph g) \<and>
     (\<forall>b \<in> set (block_chain g). blk_chains b = map cg_chainId (filter (\<lambda>c. cg_blockID c = blkID b) (chain_graph g)))"

lemma chain_graph_phase_total:
  assumes dec: "decomposition (orig_graph g) (Chains g)" and "Chains g \<noteq> []"
    and acyc: "\<not> cycle_from (chain_rel (orig_graph g) (Chains g)) 0" and "cross (orig_graph g) (Chains g) 0 j"
    and lim: "graph_parameter g ''BLOCK_LIMIT'' = Some lim"
    and new: "chain_graph g = []" "chain_level g = []" "block_chain g = []"
  shows "\<exists>g'. chain_graph_phase g = Some g' \<and> chain_graph_ok g' \<and> orig_graph g' = orig_graph g \<and> Chains g' = Chains g"
proof -
  let ?E = "chain_rel (orig_graph g) (Chains g)" and ?n = "length (Chains g)"
  obtain vtc deps ctd un ur rm where d: "buildDependencies g =
      Some (g\<lparr>vertex_to_Chunk := vtc, ng_dependencies := deps, chain_to_dependencies := ctd,
        ng_un_dependencies := un, un_reverse_mapping := ur, reverse_mapping := rm\<rparr>)" (is "_ = Some ?g1")
    "om_edges un = ?E" "om_edges ur = ?E\<inverse>"
    using buildDependencies_ok [OF dec] by (elim exE conjE)
  obtain cg where cg: "buildChainGraph ?g1 = Some (?g1\<lparr>chain_graph := cg\<rparr>)" "map cg_chainId cg = [0..<?n]"
    "map cg_nodes cg = Chains g" "\<forall>m \<in> set cg. cg_blockID m = 0" "\<forall>i < ?n. longest_level ?E 0 i (cg_level (cg ! i))"
    using buildChainGraph_ok [of ?g1] assms d(2) by auto
  let ?g2 = "?g1\<lparr>chain_graph := cg\<rparr>"
  have n: "0 < ?n" using assms(2) by simp
  have "cg_level (cg ! 0) = 0" using root_level cg(5) n acyc by blast
  then obtain cg' where b: "createChainBlocks (buildChainLevel ?g2) = Some ((buildChainLevel ?g2)\<lparr>chain_graph := cg',
      block_chain := blocks_of (map (\<lambda>c. (cg_blockID c, cg_chainId c)) cg')\<rparr>)" "no_blocks cg' = no_blocks cg"
    using createChainBlocks_ok [of ?g2 ?n j lim] cg(2,4) n d(2,3) new lim assms(4) chain_rel_bound [of "orig_graph g" "Chains g"]
    by auto
  let ?g3 = "(buildChainLevel ?g2)\<lparr>chain_graph := cg', block_chain := blocks_of (map (\<lambda>c. (cg_blockID c, cg_chainId c)) cg')\<rparr>"
  have "has_loop un = Some False" using has_loop_ok [of un] d(2) acyc by simp
  then have run: "chain_graph_phase g = Some ?g3"
    using d(1) cg(1) b(1) by (simp add: chain_graph_phase_def check_def)
  have "cg_level (cg' ! i) = cg_level (cg ! i)" if "i < ?n" for i
  proof -
    have "length cg = ?n" using cg(2) by (metis length_map length_upt minus_nat.diff_0)
    then show ?thesis using that no_blocks_fields(2) [OF b(2)] by (metis length_map nth_map)
  qed
  then have "chain_graph_ok ?g3"
    using push_blocks_group [of "map (\<lambda>c. (cg_blockID c, cg_chainId c)) cg'"] cg(2,3,5) d(2,3)
      no_blocks_fields(1) [OF b(2)] no_blocks_ids [OF b(2)]
    by (auto simp: chain_graph_ok_def buildChainLevel_def filter_map comp_def image_image)
  with run show ?thesis by (simp add: buildChainLevel_def)
qed

end
