(* ===== verification/Cs_Ilp_Graph.thy ===== *)
theory Cs_Ilp_Graph
  imports Cs_Chain_Blocks
begin

text \<open>
  Correctness of the last phase of \<^verbatim>\<open>newGraph::initialize\<close>: the chains become the vertices and edges
  of the ILP graph. The construction returns on every chain graph without empty chains; the
  properties of this theory say which graph it labels, and what happens to a graph with a single chain.
\<close>

lemma fold_opt_upt:
  assumes "P 0 s" "\<And>j s. j < n \<Longrightarrow> P j s \<Longrightarrow> \<exists>s'. f j s = Some s' \<and> P (Suc j) s'"
  shows "\<exists>s'. fold_opt f [0..<n] s = Some s' \<and> P n s'"
  using assms(2)
proof (induction n)
  case (Suc n)
  then obtain s' where s': "fold_opt f [0..<n] s = Some s'" "P n s'" by (metis less_SucI)
  obtain s'' where "f n s' = Some s''" "P (Suc n) s''" using Suc.prems [OF _ s'(2)] by blast
  with s'(1) show ?case by (auto simp: fold_opt_append)
qed (simp add: assms(1))

subsection \<open>Vertices and edges of the chains\<close>

abbreviation node_sets :: "chainGraph list \<Rightarrow> (nat \<times> nat multiset) list" where
  "node_sets \<equiv> map (\<lambda>m. (cg_chainId m, mset (cg_nodes m)))"

lemma node_sets_upd:
  "find_cg cg p = Some m \<Longrightarrow> node_sets (upd_cg p (\<lambda>m'. m'\<lparr>cg_nodes := sort (cg_nodes m)\<rparr>) cg) = node_sets cg"
  by (induction cg) (auto simp: find_cg_def split: if_splits)

lemma map_pair_zip: "map (\<lambda>x. (f x, h x)) xs = zip (map f xs) (map h xs)"
  by (induction xs) auto

lemma node_sets_chains:
  "node_sets cg = zip [0..<length cs] (map mset cs) \<longleftrightarrow>
     map cg_chainId cg = [0..<length cs] \<and> map (\<lambda>m. mset (cg_nodes m)) cg = map mset cs"
proof
  assume eq: "node_sets cg = zip [0..<length cs] (map mset cs)"
  have "map fst (node_sets cg) = [0..<length cs]" "map snd (node_sets cg) = map mset cs" unfolding eq by simp_all
  then show "map cg_chainId cg = [0..<length cs] \<and> map (\<lambda>m. mset (cg_nodes m)) cg = map mset cs"
    by (simp add: comp_def)
next
  assume "map cg_chainId cg = [0..<length cs] \<and> map (\<lambda>m. mset (cg_nodes m)) cg = map mset cs"
  then show "node_sets cg = zip [0..<length cs] (map mset cs)" using map_pair_zip by metis
qed

lemma parent_last_ok:
  assumes "node_sets cg = zip [0..<length cs] (map mset cs)" "[] \<notin> set cs" "set (concat cs) \<subseteq> {..<N}"
    and "p < length cs" "set parents \<subseteq> {..<N}"
  shows "\<exists>parents' cg'. parent_last p (parents, cg) = Some (parents', cg') \<and> set parents' \<subseteq> {..<N} \<and> node_sets cg' = node_sets cg"
proof -
  have ids: "map cg_chainId cg = [0..<length cs]" and ns: "map (\<lambda>m. mset (cg_nodes m)) cg = map mset cs"
    using assms(1) by (simp_all add: node_sets_chains)
  have len: "length cg = length cs" using ids by (metis length_map length_upt minus_nat.diff_0)
  have m: "find_cg cg p = Some (cg ! p)" using find_cg_nth [OF ids] assms(4) by simp
  have "mset (cg_nodes (cg ! p)) = mset (cs ! p)" using ns assms(4) len by (metis (lifting) nth_map)
  then have eq: "set (cg_nodes (cg ! p)) = set (cs ! p)" by (rule mset_eq_setD)
  moreover have "cs ! p \<noteq> []" using assms(2) nth_mem [OF assms(4)] by metis
  moreover have "set (cs ! p) \<subseteq> {..<N}" using assms(3) nth_mem [OF assms(4)] by (auto simp: UN_subset_iff)
  ultimately have ne: "cg_nodes (cg ! p) \<noteq> []" "set (cg_nodes (cg ! p)) \<subseteq> {..<N}" by auto
  then have "last (sort (cg_nodes (cg ! p))) < N"
    using last_in_set [of "sort (cg_nodes (cg ! p))"] by (metis lessThan_iff set_empty set_sort subsetD)
  then show ?thesis using m ne(1) assms(5) node_sets_upd [OF m] by (simp add: parent_last_def check_def Let_def)
qed

lemma parents_ok:
  assumes "node_sets cg = zip [0..<length cs] (map mset cs)" "[] \<notin> set cs" "set (concat cs) \<subseteq> {..<N}" "set ps \<subseteq> {..<length cs}"
  shows "\<exists>s'. fold_opt parent_last ps ([], cg) = Some s' \<and>
    set (fst s') \<subseteq> {..<N} \<and> node_sets (snd s') = zip [0..<length cs] (map mset cs)"
proof (rule fold_opt_total)
  fix p s
  assume "p \<in> set ps" and s: "set (fst s) \<subseteq> {..<N} \<and> node_sets (snd s) = zip [0..<length cs] (map mset cs)"
  then have "p < length cs" using assms(4) by auto
  then show "\<exists>s'. parent_last p s = Some s' \<and> set (fst s') \<subseteq> {..<N} \<and> node_sets (snd s') = zip [0..<length cs] (map mset cs)"
    using parent_last_ok [OF conjunct2 [OF s] assms(2,3) _ conjunct1 [OF s], of p] s by auto
qed (use assms(1) in simp)

lemma chain_edges_bound:
  assumes "set parents \<subseteq> {..<N}" "set ns \<subseteq> {..<N}"
  shows "set (chain_edges parents ns) \<subseteq> {..<N} \<times> {..<N}"
proof -
  have "set (zip ns (drop 1 ns)) \<subseteq> {..<N} \<times> {..<N}"
    using assms(2) by (force dest: set_zip_leftD set_zip_rightD in_set_dropD)
  then show ?thesis
    using assms by (cases ns) (auto simp: chain_edges_def dest!: in_set_takeD in_set_dropD)
qed

definition ilp_inv :: "nat list list \<Rightarrow> nat \<Rightarrow> nat list \<times> (nat \<times> nat) list \<times> chainGraph list \<Rightarrow> bool" where
  "ilp_inv cs j s \<longleftrightarrow> (case s of (vs, es, cg) \<Rightarrow>
     node_sets cg = zip [0..<length cs] (map mset cs) \<and> mset vs = mset (concat (take j cs)) \<and>
     set es \<subseteq> set (concat cs) \<times> set (concat cs))"

lemma ilp_chain_ok:
  assumes "[] \<notin> set cs" "set (concat cs) = {..<N}" "om_edges ur \<subseteq> {..<length cs} \<times> {..<length cs}" "j < length cs" "ilp_inv cs j s"
  shows "\<exists>s'. ilp_chain ur j s = Some s' \<and> ilp_inv cs (Suc j) s'"
proof (cases s)
  case (fields vs es cg)
  have inv: "node_sets cg = zip [0..<length cs] (map mset cs)" "mset vs = mset (concat (take j cs))"
      "set es \<subseteq> {..<N} \<times> {..<N}"
    using assms(5) fields by (auto simp: ilp_inv_def simp flip: assms(2))
  have nodes: "mset (cg_nodes (h ! j)) = mset (cs ! j) \<and> length h = length cs \<and> cg_chainId (h ! j) = j"
    if "node_sets h = zip [0..<length cs] (map mset cs)" for h
  proof -
    have A: "map cg_chainId h = [0..<length cs]" and B: "map (\<lambda>m. mset (cg_nodes m)) h = map mset cs"
      using that by (simp_all add: node_sets_chains)
    have len: "length h = length cs" using A by (metis length_map length_upt minus_nat.diff_0)
    then have "cg_chainId (h ! j) = map cg_chainId h ! j" "mset (cg_nodes (h ! j)) = map (\<lambda>m. mset (cg_nodes m)) h ! j"
      using assms(4) by simp_all
    then show ?thesis unfolding A B using assms(4) len by simp
  qed
  have take: "mset (concat (take (Suc j) cs)) = mset (concat (take j cs)) + mset (cs ! j)"
    by (simp add: take_Suc_conv_app_nth assms(4))
  show ?thesis
  proof (cases "map_of ur (cg_chainId (cg ! j))")
    case None
    then show ?thesis using inv nodes [OF inv(1)] fields take by (auto simp: ilp_chain_def ilp_inv_def assms(2) simp flip: assms(2))
  next
    case (Some ps)
    have "(cg_chainId (cg ! j), p) \<in> om_edges ur" if "p \<in> set ps" for p using that Some by (simp add: om_edges_iff)
    then have "set ps \<subseteq> {..<length cs}" using assms(3) by auto
    then obtain t where t: "fold_opt parent_last ps ([], cg) = Some t" "set (fst t) \<subseteq> {..<N}"
        "node_sets (snd t) = zip [0..<length cs] (map mset cs)"
      using parents_ok [OF inv(1) assms(1), of N ps] assms(2) by auto
    obtain parents cg' where f: "t = (parents, cg')" by (cases t)
    let ?ns = "sort (cg_nodes (cg' ! j))"
    have n: "mset ?ns = mset (cs ! j)" "j < length cg'" using nodes [of cg'] t(3) f assms(4) by auto
    then have "set ?ns = set (cs ! j)" by (metis mset_eq_setD)
    also have "\<dots> \<subseteq> {..<N}" using assms(2) nth_mem [OF assms(4)] by (auto simp flip: assms(2))
    finally have "set (chain_edges parents ?ns) \<subseteq> {..<N} \<times> {..<N}" using chain_edges_bound t(2) f by simp
    moreover have "node_sets (cg'[j := (cg' ! j)\<lparr>cg_nodes := ?ns\<rparr>]) = node_sets cg'"
      using n(2) by (simp add: map_update list_update_same_conv)
    ultimately have "ilp_inv cs (Suc j) (vs @ ?ns, es @ chain_edges parents ?ns, cg'[j := (cg' ! j)\<lparr>cg_nodes := ?ns\<rparr>])"
      using inv(2,3) t(3) f n(1) take unfolding ilp_inv_def assms(2) by simp
    moreover have "ilp_chain ur j s = Some (vs @ ?ns, es @ chain_edges parents ?ns, cg'[j := (cg' ! j)\<lparr>cg_nodes := ?ns\<rparr>])"
      using fields Some t(1) f by (simp add: ilp_chain_def Let_def)
    ultimately show ?thesis by blast
  qed
qed

subsection \<open>Labels\<close>

definition label_inv ::
  "vertex_prop boost_graph \<Rightarrow> nat \<Rightarrow> (nat \<times> nat) list \<times> vertex_prop boost_graph \<times> vertex_prop boost_graph \<Rightarrow> bool" where
  "label_inv G0 i s \<longleftrightarrow> (case s of (v_map, I, G) \<Rightarrow>
     om_ok v_map \<and> (\<forall>v. map_of v_map v = (if v < i then Some v else None)) \<and>
     g_vertex I = replicate i default_vertex \<and> g_out I = replicate i [] \<and>
     num_vertices G = num_vertices G0 \<and> g_out G = g_out G0 \<and> (\<forall>v < i. vp_opcode (g_vertex G ! v) = ''NOP''))"

lemma ilp_vertex_ok:
  assumes "i < num_vertices G0" "label_inv G0 i s"
  shows "\<exists>s'. ilp_vertex vs i s = Some s' \<and> label_inv G0 (Suc i) s'"
proof (cases s)
  case (fields v_map I G)
  then show ?thesis using assms
    by (auto simp: label_inv_def ilp_vertex_def check_def Let_def num_vertices_def add_vertex_def nop_vertex_def
        om_simps nth_list_update less_Suc_eq replicate_append_same)
qed

lemma add_edges_ok:
  assumes "set es \<subseteq> {..<N} \<times> {..<N}" "\<forall>v < N. map_of v_map v = Some v" "num_vertices I = N" "graph_ok I"
  shows "\<exists>I'. fold_opt (\<lambda>(u, v) I. do { s \<leftarrow> map_of v_map u; t \<leftarrow> map_of v_map v; add_edge s t I }) es I = Some I' \<and>
    g_vertex I' = g_vertex I \<and> graph_ok I'"
proof -
  have "\<exists>I'. fold_opt (\<lambda>(u, v) I. do { s \<leftarrow> map_of v_map u; t \<leftarrow> map_of v_map v; add_edge s t I }) es I = Some I' \<and>
      (g_vertex I' = g_vertex I \<and> graph_ok I')"
  proof (rule fold_opt_total)
    fix e J
    assume "e \<in> set es" "g_vertex J = g_vertex I \<and> graph_ok J"
    moreover obtain u v where "e = (u, v)" by (cases e)
    ultimately have e: "e = (u, v)" "u < N" "v < N" "num_vertices J = N" "g_vertex J = g_vertex I" "graph_ok J"
      using assms(1,3) by (auto simp: num_vertices_def)
    then have "\<forall>ts \<in> set ((g_out J)[u := g_out J ! u @ [v]]). \<forall>t \<in> set ts. t < N"
      using set_update_subset_insert [of "g_out J" u "g_out J ! u @ [v]"] nth_mem [of u "g_out J"]
      by (fastforce simp: graph_ok_def)
    with e show "\<exists>J'. (case e of (u, v) \<Rightarrow> \<lambda>I. do { s \<leftarrow> map_of v_map u; t \<leftarrow> map_of v_map v; add_edge s t I }) J = Some J' \<and>
        (g_vertex J' = g_vertex I \<and> graph_ok J')"
      using assms(2) by (auto simp: add_edge_def check_def num_vertices_def graph_ok_def)
  qed (use assms in simp)
  then show ?thesis by simp
qed

lemma buildILPGraph_ok:
  assumes dec: "decomposition (orig_graph g) (Chains g)" and "[] \<notin> set (Chains g)"
    and cg: "map cg_chainId (chain_graph g) = [0..<length (Chains g)]" "map cg_nodes (chain_graph g) = Chains g"
    and ur: "om_edges (un_reverse_mapping g) \<subseteq> {..<length (Chains g)} \<times> {..<length (Chains g)}"
    and new: "ilp_graph g = empty_graph"
  shows "\<exists>cg I G. buildILPGraph g = Some (g\<lparr>chain_graph := cg, ilp_graph := I, orig_graph := G\<rparr>) \<and>
    g_vertex I = replicate (num_vertices (orig_graph g)) default_vertex \<and> graph_ok I \<and>
    num_vertices G = num_vertices (orig_graph g) \<and> g_out G = g_out (orig_graph g) \<and>
    (\<forall>v < num_vertices (orig_graph g). vp_opcode (g_vertex G ! v) = ''NOP'')"
proof -
  let ?cs = "Chains g" and ?N = "num_vertices (orig_graph g)"
  have N: "set (concat ?cs) = {..<?N}" "distinct (concat ?cs)" using dec by (simp_all add: decomposition_def)
  have len: "length (chain_graph g) = length ?cs" using cg(2) by (metis length_map)
  have "map (\<lambda>m. mset (cg_nodes m)) (chain_graph g) = map mset (map cg_nodes (chain_graph g))" by simp
  then have "ilp_inv ?cs 0 ([], [], chain_graph g)" using cg by (simp add: ilp_inv_def node_sets_chains)
  then have "\<exists>s. fold_opt (ilp_chain (un_reverse_mapping g)) [0..<length ?cs] ([], [], chain_graph g) = Some s \<and> ilp_inv ?cs (length ?cs) s"
    using ilp_chain_ok [OF assms(2) N(1) ur] by (rule fold_opt_upt)
  then obtain vs es cg' where 1: "fold_opt (ilp_chain (un_reverse_mapping g)) [0..<length ?cs] ([], [], chain_graph g) = Some (vs, es, cg')"
      "mset vs = mset (concat ?cs)" "set es \<subseteq> {..<?N} \<times> {..<?N}"
    unfolding N(1) [symmetric] by (auto simp: ilp_inv_def simp del: set_concat)
  have "mset vs = mset [0..<?N]" using 1(2) N by (metis atLeast_upt set_eq_iff_mset_eq_distinct distinct_upt)
  then have vs: "length vs = ?N" by (metis length_upt minus_nat.diff_0 size_mset)
  have "label_inv (orig_graph g) 0 ([], ilp_graph g, orig_graph g)" by (simp add: label_inv_def new empty_graph_def)
  then have "\<exists>s. fold_opt (ilp_vertex vs) [0..<?N] ([], ilp_graph g, orig_graph g) = Some s \<and> label_inv (orig_graph g) ?N s"
    using ilp_vertex_ok by (rule fold_opt_upt)
  then obtain v_map I G where 2: "fold_opt (ilp_vertex vs) [0..<?N] ([], ilp_graph g, orig_graph g) = Some (v_map, I, G)"
      "label_inv (orig_graph g) ?N (v_map, I, G)" by auto
  then have "\<forall>v < ?N. map_of v_map v = Some v" "num_vertices I = ?N" "graph_ok I"
    by (auto simp: label_inv_def num_vertices_def graph_ok_def)
  then obtain I' where "fold_opt (\<lambda>(u, v) I. do { s \<leftarrow> map_of v_map u; t \<leftarrow> map_of v_map v; add_edge s t I }) es I = Some I'"
      "g_vertex I' = g_vertex I" "graph_ok I'"
    using add_edges_ok [OF 1(3)] by blast
  then show ?thesis using 1(1) 2 vs len
    by (intro exI [of _ cg'] exI [of _ I'] exI [of _ G]) (simp add: buildILPGraph_def label_inv_def)
qed

subsection \<open>Properties\<close>

lemma buildDependencies_nonempty: "buildDependencies g = Some g' \<Longrightarrow> map_of (ng_un_dependencies g') k \<noteq> Some []"
  by (auto simp: buildDependencies_def chain_maps_def bind_Some_iff Let_def unique_nonempty)

lemma sample_ng_chains:
  "decomposition (orig_graph sample_ng) [[0], [1, 2]]"
  "cross (orig_graph sample_ng) [[0], [1, 2]] i j \<longleftrightarrow> i = 0 \<and> j = 1"
proof -
  let ?G = "orig_graph sample_ng"
  have G: "g_out ?G = [[1, 2], [2], []]" "num_vertices ?G = 3" by (simp_all add: sample_ng_def num_vertices_def)
  show "decomposition ?G [[0], [1, 2]]" by (auto simp: decomposition_def graph_ok_def G)
  have e: "edge ?G u v \<longleftrightarrow> u = 0 \<and> (v = 1 \<or> v = 2) \<or> u = 1 \<and> v = 2" for u v
    by (auto simp: edge_def G nth_Cons' less_Suc_eq split: if_splits)
  have c: "chain_of [[0], [1, 2]] v k \<longleftrightarrow> v = 0 \<and> k = 0 \<or> (v = 1 \<or> v = 2) \<and> k = 1" for v k :: nat
    by (auto simp: chain_of_def nth_Cons' less_Suc_eq split: if_splits)
  show "cross ?G [[0], [1, 2]] i j \<longleftrightarrow> i = 0 \<and> j = 1" unfolding cross_def e c by auto
qed

lemma sample_ng_acyclic: "\<not> cycle_from (chain_rel (orig_graph sample_ng) [[0], [1, 2]]) 0"
proof -
  have "chain_rel (orig_graph sample_ng) [[0], [1, 2]] = {(0, 1)}" unfolding sample_ng_chains(2) by auto
  moreover have "(u, u) \<notin> {(0, 1 :: nat)}\<^sup>+" for u
  proof
    assume "(u, u) \<in> {(0, 1 :: nat)}\<^sup>+"
    then show False by (induction rule: trancl.cases) (auto elim: tranclE)
  qed
  ultimately show ?thesis by (simp add: cycle_from_def)
qed

text \<open>C8. The chain graph is built completely: from chains that partition the vertices, with no cycle in
  reach of chain 0 and at least one chain that depends on chain 0, the phase from the dependencies to
  the blocks returns. Chains are numbered in order and keep their vertices, the dependency maps hold
  exactly the edges between chains, every level is the length of the longest path from chain 0 (or
  \<open>-1\<close>), and the blocks list, under distinct block numbers and in chain order, exactly the chains
  with that block number.\<close>

theorem chain_graph_built:
  assumes "decomposition (orig_graph g) (Chains g)" "Chains g \<noteq> []"
    and "\<not> cycle_from (chain_rel (orig_graph g) (Chains g)) 0" "cross (orig_graph g) (Chains g) 0 j"
    and "graph_parameter g ''BLOCK_LIMIT'' = Some lim" "chain_graph g = []" "chain_level g = []" "block_chain g = []"
  shows "\<exists>g'. chain_graph_phase g = Some g' \<and> chain_graph_ok g' \<and> orig_graph g' = orig_graph g \<and> Chains g' = Chains g"
  by (rule chain_graph_phase_total [OF assms])

theorem chain_graph_built_witness:
  "\<exists>g'. chain_graph_phase (sample_ng\<lparr>Chains := [[0], [1, 2]]\<rparr>) = Some g' \<and> chain_graph_ok g' \<and>
     map cg_nodes (chain_graph g') = [[0], [1, 2]]"
proof -
  let ?g = "sample_ng\<lparr>Chains := [[0], [1, 2]]\<rparr>"
  have "decomposition (orig_graph ?g) (Chains ?g)" "\<not> cycle_from (chain_rel (orig_graph ?g) (Chains ?g)) 0"
    "cross (orig_graph ?g) (Chains ?g) 0 1"
    using sample_ng_chains sample_ng_acyclic by simp_all
  then obtain g' where "chain_graph_phase ?g = Some g'" "chain_graph_ok g'" "Chains g' = Chains ?g"
    using chain_graph_built [of ?g 1 0] by (auto simp: sample_ng_def newGraph_new_def)
  then show ?thesis by (auto simp: chain_graph_ok_def)
qed

text \<open>A graph in which nothing depends on chain 0 is not handled: \<^verbatim>\<open>createChainBlocks\<close> looks chain 0
  up in \<^verbatim>\<open>un_dependencies\<close> and uses the iterator without comparing it with the end. A program
  whose instructions all end up in one chain is the simplest case.\<close>

lemma chain_blocks_without_dependents:
  assumes "decomposition (orig_graph g) (Chains g)" "Chains g \<noteq> []" "\<forall>j. \<not> cross (orig_graph g) (Chains g) 0 j"
    and "chain_graph g = []" "chain_level g = []"
  shows "chain_graph_phase g = None"
proof -
  let ?E = "chain_rel (orig_graph g) (Chains g)" and ?n = "length (Chains g)"
  obtain vtc deps ctd un ur rm where d: "buildDependencies g =
      Some (g\<lparr>vertex_to_Chunk := vtc, ng_dependencies := deps, chain_to_dependencies := ctd,
        ng_un_dependencies := un, un_reverse_mapping := ur, reverse_mapping := rm\<rparr>)" (is "_ = Some ?g1")
    "om_edges un = ?E" "om_edges ur = ?E\<inverse>"
    using buildDependencies_ok [OF assms(1)] by (elim exE conjE)
  show ?thesis
  proof (cases "cycle_from ?E 0")
    case True
    then show ?thesis using d(1,2) has_loop_ok [of un] by (simp add: chain_graph_phase_def check_def)
  next
    case False
    obtain cg where cg: "buildChainGraph ?g1 = Some (?g1\<lparr>chain_graph := cg\<rparr>)" "map cg_chainId cg = [0..<?n]"
      "\<forall>i < ?n. longest_level ?E 0 i (cg_level (cg ! i))"
      using buildChainGraph_ok [of ?g1] assms d(2) False by auto
    have n: "0 < ?n" using assms(2) by simp
    then have "cg_level (cg ! 0) = 0" using root_level cg(3) False by blast
    then obtain xs where xs: "concat (map snd (chain_level (buildChainLevel (?g1\<lparr>chain_graph := cg\<rparr>)))) = 0 # xs"
      using visit_order [OF cg(2) n] assms(5) by (auto simp: buildChainLevel_def)
    have "(0, j) \<notin> om_edges un" for j using assms(3) d(2) by simp
    then have "map_of un 0 = None \<or> map_of un 0 = Some []" by (cases "map_of un 0"; cases "the (map_of un 0)") (auto simp: om_edges_iff)
    then have none: "map_of un 0 = None" using buildDependencies_nonempty [OF d(1), of 0] by simp
    have "find_cg cg 0 = Some (cg ! 0)" using find_cg_nth [OF cg(2), of 0] n by simp
    with none have "block_visit l un ur 0 (0, [], cg) = None" for l by (simp add: block_visit_def)
    then have "createChainBlocks (buildChainLevel (?g1\<lparr>chain_graph := cg\<rparr>)) = None"
      using xs by (simp add: createChainBlocks_def buildChainLevel_def)
    moreover have "has_loop un = Some False" using has_loop_ok [of un] d(2) False by simp
    ultimately show ?thesis using d(1) cg(1) by (simp add: chain_graph_phase_def check_def)
  qed
qed

text \<open>Building the ILP graph destroys the labels of the instruction graph: the construction
  returns on every chain graph without empty chains and creates as many vertices as there are
  instructions, but writes \<^verbatim>\<open>NOP\<close> into \<^verbatim>\<open>orig_graph\<close> where \<^verbatim>\<open>ilp_graph\<close> was meant: afterwards every
  instruction has the opcode \<^verbatim>\<open>NOP\<close> and no vertex of the ILP graph has a label.\<close>

lemma ilp_graph_overwrites_instructions:
  assumes "decomposition (orig_graph g) (Chains g)" "[] \<notin> set (Chains g)" "chain_graph_ok g" "ilp_graph g = empty_graph"
  shows "\<exists>cg I G. buildILPGraph g = Some (g\<lparr>chain_graph := cg, ilp_graph := I, orig_graph := G\<rparr>) \<and>
    g_vertex I = replicate (num_vertices (orig_graph g)) default_vertex \<and> graph_ok I \<and>
    num_vertices G = num_vertices (orig_graph g) \<and> g_out G = g_out (orig_graph g) \<and>
    (\<forall>v < num_vertices (orig_graph g). vp_opcode (g_vertex G ! v) = ''NOP'')"
proof (rule buildILPGraph_ok [OF assms(1,2)])
  show "om_edges (un_reverse_mapping g) \<subseteq> {..<length (Chains g)} \<times> {..<length (Chains g)}"
    using assms(3) chain_rel_bound [of "orig_graph g" "Chains g"] by (auto simp: chain_graph_ok_def)
qed (use assms(3,4) in \<open>simp_all add: chain_graph_ok_def\<close>)

end
