(* ===== verification/Cs_Main.thy ===== *)
theory Cs_Main
  imports Cs_Core Cs_Ilp_Graph
begin

text \<open>
  The driver, \<^verbatim>\<open>main\<close> in \<^verbatim>\<open>src/ChainSaw.cpp\<close>: it replays a memory trace of the host processor on Ruby
  and, at every chunk marker, hands over to the accelerator until the core reports completion. The
  core and the driver share one Ruby object, here the one in the core's memory unit. A line of the
  trace is the list of its comma-separated tokens. Three loops of the driver need not end: waiting for
  outstanding requests, waiting for the port, and running the core; each is bounded by a number of
  iterations \<open>k\<close>, and running out of it is \<open>None\<close>, like a failed assertion. Command line, files,
  decompression and printing are left out.
\<close>

definition REQ_SIZE :: nat where "REQ_SIZE = 64"
definition CHUNK_LIMIT :: "32 word" where "CHUNK_LIMIT = 99"

record 's sim =
  testCore :: "'s core"
  memory_vector :: "addr list"
  global_cnt :: "32 word"
  cycle_cnt :: "32 word"
  ruby_cycle :: "32 word"
  num_chunk_call :: "32 word"
  flag_empty :: bool

definition sim_new :: "'s core \<Rightarrow> 's sim" where
  "sim_new c = \<lparr>testCore = c, memory_vector = [], global_cnt = 0, cycle_cnt = 0, ruby_cycle = 0,
     num_chunk_call = 0, flag_empty = True\<rparr>"

abbreviation sim_ruby :: "'s sim \<Rightarrow> 's o3_interface" where
  "sim_ruby s \<equiv> m_ruby (m_memory (testCore s))"

definition set_ruby :: "'s o3_interface \<Rightarrow> 's sim \<Rightarrow> 's sim" where
  "set_ruby r s = s\<lparr>testCore := (testCore s)\<lparr>m_memory := (m_memory (testCore s))\<lparr>m_ruby := r\<rparr>\<rparr>\<rparr>"

text \<open>One Ruby cycle: \<^verbatim>\<open>advance_time\<close> and the two counters.\<close>

definition ruby_tick :: "'s sequencer_port \<Rightarrow> 's sim \<Rightarrow> 's sim option" where
  "ruby_tick P s = do {
     r \<leftarrow> advance_time P (sim_ruby s);
     Some ((set_ruby r s)\<lparr>global_cnt := global_cnt s + 1, ruby_cycle := ruby_cycle s + 1\<rparr>) }"

function take_responses :: "'s o3_interface \<Rightarrow> addr list \<Rightarrow> ('s o3_interface \<times> addr list) option" where
  "take_responses r mv =
     (case RubyQueueEmpty 0 r of
        None \<Rightarrow> None
      | Some True \<Rightarrow> Some (r, mv)
      | Some False \<Rightarrow>
         (case RubyQueueTop 0 r of
            None \<Rightarrow> None
          | Some a \<Rightarrow>
             (if a \<in> set mv
              then (case RubyQueuePop 0 r of
                      None \<Rightarrow> None
                    | Some r' \<Rightarrow> take_responses r' (remove1 a mv))
              else None)))"
  by pat_completeness auto
termination
  by (relation "measure (\<lambda>(r, mv). length (m_callback_queue r ! 0))") (auto dest: RubyQueuePop_shorter)

declare take_responses.simps [simp del]

definition process_responses :: "'s sim \<Rightarrow> 's sim option" where
  "process_responses s = do {
     (r, mv) \<leftarrow> take_responses (sim_ruby s) (memory_vector s);
     Some ((set_ruby r s)\<lparr>memory_vector := mv\<rparr>) }"

fun drain :: "'s sequencer_port \<Rightarrow> nat \<Rightarrow> 's sim \<Rightarrow> 's sim option" where
  "drain P k s =
     (if memory_vector s = [] then Some s
      else case k of
        0 \<Rightarrow> None
      | Suc k \<Rightarrow> do { s \<leftarrow> ruby_tick P s; s \<leftarrow> process_responses s; drain P k s })"

fun wait_ready :: "'s sequencer_port \<Rightarrow> addr \<Rightarrow> nat \<Rightarrow> 's sim \<Rightarrow> 's sim option" where
  "wait_ready P a k s =
     (if ruby_isReady P a REQ_SIZE 0 0 False False (sim_ruby s) then Some s
      else case k of
        0 \<Rightarrow> None
      | Suc k \<Rightarrow> do { s \<leftarrow> ruby_tick P s; wait_ready P a k s })"

fun run_core :: "'s sequencer_port \<Rightarrow> nat \<Rightarrow> 's sim \<Rightarrow> 's sim option" where
  "run_core P 0 s = None"
| "run_core P (Suc k) s = do {
     (fin, c) \<leftarrow> run_a_cycle P (testCore s);
     if fin then Some (s\<lparr>testCore := c\<rparr>)
     else run_core P k (s\<lparr>testCore := c, global_cnt := global_cnt s + 1, cycle_cnt := cycle_cnt s + 1\<rparr>) }"

text \<open>The core holds the decomposed graph as its member \<^verbatim>\<open>m_graph\<close>; \<^verbatim>\<open>node_map[ins]\<close> is 0 for a vertex
  that is not in the map.\<close>

definition core_set_graph :: "newGraph \<Rightarrow> 's core \<Rightarrow> 's core" where
  "core_set_graph g c = c\<lparr>g_chain_graph := chain_graph g, g_dependencies := ng_dependencies g, g_block_chain := block_chain g\<rparr>"

definition load_chains :: "(string \<Rightarrow> nat option) \<Rightarrow> newGraph \<Rightarrow> 's core \<Rightarrow> 's core option" where
  "load_chains llvm g c = do {
     check (list_all (\<lambda>v. v < num_vertices (comp_graph g)) (concat (Chains g)));
     buildChains (\<lambda>v. vc_opcode (g_vertex (comp_graph g) ! v))
       (\<lambda>v. case map_of (orig_map g) v of None \<Rightarrow> 0 | Some i \<Rightarrow> u32 i)
       llvm (Chains g) (ng_un_dependencies g) (un_reverse_mapping g) c }"

record 's sim_env =
  env_port :: "'s sequencer_port"
  env_llvm :: "string \<Rightarrow> nat option"
  env_graph :: newGraph
  env_junk :: "nat \<times> nat"
  env_bound :: nat

text \<open>A chunk marker. The result says whether the driver leaves its loop.\<close>

definition chunk_line :: "'s sim_env \<Rightarrow> string list \<Rightarrow> 's sim \<Rightarrow> (bool \<times> 's sim) option" where
  "chunk_line E match s = do {
     s \<leftarrow> (if flag_empty s then Some s
           else do { s \<leftarrow> drain (env_port E) (env_bound E) s; Some (s\<lparr>flag_empty := True\<rparr>) });
     c \<leftarrow> load_chains (env_llvm E) (env_graph E) (testCore s);
     n \<leftarrow> stoll (match ! 0);
     c \<leftarrow> core_initialize (env_junk E) (coreSetIter (u32 n) c);
     s \<leftarrow> run_core (env_port E) (env_bound E) (s\<lparr>testCore := c\<rparr>);
     Some (CHUNK_LIMIT < num_chunk_call s, s\<lparr>num_chunk_call := num_chunk_call s + 1\<rparr>) }"

definition send_line :: "'s sim_env \<Rightarrow> addr \<Rightarrow> bool \<Rightarrow> 's sim \<Rightarrow> 's sim option" where
  "send_line E a isWrite s = do {
     s \<leftarrow> wait_ready (env_port E) a (env_bound E) s;
     r \<leftarrow> send_request (env_port E) a REQ_SIZE 0 0 isWrite False (sim_ruby s);
     Some ((set_ruby r s)\<lparr>memory_vector := memory_vector s @ [a]\<rparr>) }"

definition memory_line :: "'s sim_env \<Rightarrow> string list \<Rightarrow> 's sim \<Rightarrow> 's sim option" where
  "memory_line E match s = do {
     v \<leftarrow> stoll (if length match = 4 then match ! 3 else match ! 0);
     let isWrite = (match ! 1 = ''Store'');
     s \<leftarrow> ruby_tick (env_port E) (s\<lparr>flag_empty := False\<rparr>);
     let req_addr = base_addr (word_of_int v);
     s \<leftarrow> (if req_addr \<in> set (memory_vector s) then Some s else send_line E req_addr isWrite s);
     process_responses s }"

definition trace_line :: "'s sim_env \<Rightarrow> string list \<Rightarrow> 's sim \<Rightarrow> (bool \<times> 's sim) option" where
  "trace_line E match s = do {
     check (length match = 4 \<or> length match = 3 \<or> length match = 2);
     if length match = 2 then chunk_line E match s
     else map_option (Pair False) (memory_line E match s) }"

fun simulate :: "'s sim_env \<Rightarrow> string list list \<Rightarrow> 's sim \<Rightarrow> 's sim option" where
  "simulate E [] s = Some s"
| "simulate E (l # ls) s = do {
     (stop, s) \<leftarrow> trace_line E l s;
     if stop then Some s else simulate E ls s }"

text \<open>The whole program, from the files that were read: the core, the decomposition of the graph, the
  accelerator's memory trace and the main loop.\<close>

record 's sim_input =
  in_core_params :: "string \<Rightarrow> nat option"
  in_lane_params :: "string \<Rightarrow> nat option"
  in_graph_params :: "string \<Rightarrow> nat option"
  in_llvm :: "string \<Rightarrow> nat option"
  in_lanes :: nat
  in_dot :: "vertex_prop boost_graph"
  in_acc :: "(nat \<times> string \<times> nat \<times> addr) list"
  in_ruby :: "'s o3_interface"
  in_port :: "'s sequencer_port"
  in_uninit :: nat
  in_junk :: "nat \<times> nat"
  in_bound :: nat

definition chainsaw_main :: "'s sim_input \<Rightarrow> string list list \<Rightarrow> 's sim option" where
  "chainsaw_main i ls = do {
     c \<leftarrow> core_new (in_core_params i) (in_lane_params i) (in_lanes i) (in_ruby i);
     g \<leftarrow> newGraph_initialize (newGraph_new (in_graph_params i) (in_llvm i) (in_uninit i) (in_dot i));
     let c = memoryInitialize (in_acc i) (core_set_graph g c);
     simulate \<lparr>env_port = in_port i, env_llvm = in_llvm i, env_graph = g, env_junk = in_junk i, env_bound = in_bound i\<rparr>
       ls (sim_new c) }"

text \<open>The totals printed at the end.\<close>

definition total_cycles :: "'s sim \<Rightarrow> 32 word \<times> 32 word \<times> 32 word" where
  "total_cycles s = (global_cnt s, ruby_cycle s, global_cnt s - ruby_cycle s)"

declare drain.simps [simp del] wait_ready.simps [simp del]

subsection \<open>The state of the driver\<close>

lemmas sim_defs = set_ruby_def ruby_tick_def process_responses_def

lemma take_responses_sub:
  assumes "take_responses r mv = Some (r', mv')"
  shows "set mv' \<subseteq> set mv \<and> (distinct mv \<longrightarrow> distinct mv')"
  using assms
proof (induction r mv rule: take_responses.induct)
  case (1 r mv)
  show ?case
  proof (cases "RubyQueueEmpty 0 r = Some False \<and> RubyQueueTop 0 r \<noteq> None \<and> the (RubyQueueTop 0 r) \<in> set mv \<and> RubyQueuePop 0 r \<noteq> None")
    case True
    then obtain a r1 where s: "RubyQueueEmpty 0 r = Some False" "RubyQueueTop 0 r = Some a" "a \<in> set mv" "RubyQueuePop 0 r = Some r1"
      by auto
    then have "take_responses r1 (remove1 a mv) = Some (r', mv')"
      using 1(2) by (subst (asm) take_responses.simps) simp
    with 1(1) [OF s(1) _ s(2,3,4)] show ?thesis using set_remove1_subset [of a mv] by auto
  next
    case False
    then show ?thesis using 1(2)
      by (subst (asm) take_responses.simps) (auto split: option.splits bool.splits if_splits)
  qed
qed

text \<open>What every step keeps: the counters add up, no line is requested twice, requests are line
  addresses, and with \<^verbatim>\<open>flag_empty\<close> set nothing is outstanding.\<close>

definition sim_inv :: "'s sim \<Rightarrow> bool" where
  "sim_inv s \<longleftrightarrow> global_cnt s = ruby_cycle s + cycle_cnt s \<and> distinct (memory_vector s) \<and>
     (\<forall>a \<in> set (memory_vector s). base_addr a = a) \<and> (flag_empty s \<longrightarrow> memory_vector s = [])"

lemma sim_inv_new: "sim_inv (sim_new c)"
  by (simp add: sim_inv_def sim_new_def)

lemma sim_inv_tick: "ruby_tick P s = Some s' \<Longrightarrow> sim_inv s \<Longrightarrow> sim_inv s' \<and> memory_vector s' = memory_vector s \<and>
    num_chunk_call s' = num_chunk_call s \<and> flag_empty s' = flag_empty s"
  by (auto simp: sim_defs sim_inv_def bind_Some_iff)

lemma sim_inv_responses: "process_responses s = Some s' \<Longrightarrow> sim_inv s \<Longrightarrow> sim_inv s' \<and>
    num_chunk_call s' = num_chunk_call s \<and> flag_empty s' = flag_empty s"
  by (auto simp: sim_defs sim_inv_def bind_Some_iff dest!: take_responses_sub)

lemma sim_inv_drain:
  "drain P k s = Some s' \<Longrightarrow> sim_inv s \<Longrightarrow> sim_inv s' \<and> memory_vector s' = [] \<and> num_chunk_call s' = num_chunk_call s"
proof (induction k arbitrary: s)
  case 0
  then show ?case by (subst (asm) drain.simps) (auto split: if_splits)
next
  case (Suc k)
  show ?case
  proof (cases "memory_vector s = []")
    case True
    with Suc.prems show ?thesis by (subst (asm) drain.simps) auto
  next
    case False
    then obtain s1 s2 where "ruby_tick P s = Some s1" "process_responses s1 = Some s2" "drain P k s2 = Some s'"
      using Suc.prems(1) by (subst (asm) drain.simps) (auto simp: bind_Some_iff)
    with Suc.IH [of s2] Suc.prems(2) sim_inv_tick [of P s s1] sim_inv_responses [of s1 s2] show ?thesis by auto
  qed
qed

lemma sim_inv_wait:
  "wait_ready P a k s = Some s' \<Longrightarrow> sim_inv s \<Longrightarrow> sim_inv s' \<and> memory_vector s' = memory_vector s \<and>
    num_chunk_call s' = num_chunk_call s \<and> flag_empty s' = flag_empty s"
proof (induction k arbitrary: s)
  case 0
  then show ?case by (subst (asm) wait_ready.simps) (auto split: if_splits)
next
  case (Suc k)
  show ?case
  proof (cases "ruby_isReady P a REQ_SIZE 0 0 False False (sim_ruby s)")
    case True
    with Suc.prems show ?thesis by (subst (asm) wait_ready.simps) auto
  next
    case False
    then obtain s1 where "ruby_tick P s = Some s1" "wait_ready P a k s1 = Some s'"
      using Suc.prems(1) by (subst (asm) wait_ready.simps) (auto simp: bind_Some_iff)
    with Suc.IH [of s1] Suc.prems(2) sim_inv_tick [of P s s1] show ?thesis by auto
  qed
qed

lemma sim_inv_core:
  "run_core P k s = Some s' \<Longrightarrow> sim_inv s \<Longrightarrow> sim_inv s' \<and> num_chunk_call s' = num_chunk_call s \<and> flag_empty s' = flag_empty s"
proof (induction k arbitrary: s)
  case (Suc k)
  from Suc.prems(1) obtain fin c where c: "run_a_cycle P (testCore s) = Some (fin, c)" by (auto simp: bind_Some_iff)
  have "sim_inv (s\<lparr>testCore := c\<rparr>)" "sim_inv (s\<lparr>testCore := c, global_cnt := global_cnt s + 1, cycle_cnt := cycle_cnt s + 1\<rparr>)"
    using Suc.prems(2) by (simp_all add: sim_inv_def)
  with c Suc.prems(1) Suc.IH show ?case by (cases fin) fastforce+
qed simp

lemma sim_inv_chunk:
  assumes "chunk_line E match s = Some (stop, s')" "sim_inv s"
  shows "sim_inv s' \<and> flag_empty s' \<and> num_chunk_call s' = num_chunk_call s + 1 \<and> (stop \<longleftrightarrow> CHUNK_LIMIT < num_chunk_call s)"
proof -
  obtain s1 c n c' s2 where st:
      "(if flag_empty s then Some s
        else do { s \<leftarrow> drain (env_port E) (env_bound E) s; Some (s\<lparr>flag_empty := True\<rparr>) }) = Some s1"
      "run_core (env_port E) (env_bound E) (s1\<lparr>testCore := c'\<rparr>) = Some s2"
      "stop = (CHUNK_LIMIT < num_chunk_call s2)" "s' = s2\<lparr>num_chunk_call := num_chunk_call s2 + 1\<rparr>"
    using assms(1) by (auto simp: chunk_line_def bind_Some_iff)
  have s1: "sim_inv s1 \<and> flag_empty s1 \<and> num_chunk_call s1 = num_chunk_call s"
  proof (cases "flag_empty s")
    case False
    then obtain s0 where "drain (env_port E) (env_bound E) s = Some s0" "s1 = s0\<lparr>flag_empty := True\<rparr>"
      using st(1) by (auto simp: bind_Some_iff)
    with sim_inv_drain [of "env_port E" "env_bound E" s s0] assms(2) show ?thesis by (auto simp: sim_inv_def)
  qed (use st(1) assms(2) in auto)
  then have "sim_inv (s1\<lparr>testCore := c'\<rparr>)" by (simp add: sim_inv_def)
  from sim_inv_core [OF st(2) this] s1 st(3,4) show ?thesis by (auto simp: sim_inv_def)
qed

lemma base_addr_idem: "base_addr (base_addr a) = base_addr a"
  by (simp add: base_addr_def ac_simps)

lemma sim_inv_send:
  assumes "send_line E a w s = Some s'" "sim_inv s" "a \<notin> set (memory_vector s)" "base_addr a = a" "\<not> flag_empty s"
  shows "sim_inv s' \<and> num_chunk_call s' = num_chunk_call s \<and> \<not> flag_empty s'"
proof -
  obtain s1 r where st: "wait_ready (env_port E) a (env_bound E) s = Some s1"
      "s' = (set_ruby r s1)\<lparr>memory_vector := memory_vector s1 @ [a]\<rparr>"
    using assms(1) by (auto simp: send_line_def bind_Some_iff)
  from sim_inv_wait [OF st(1) assms(2)] assms(3,5)
  have s1: "sim_inv s1" "a \<notin> set (memory_vector s1)" "num_chunk_call s1 = num_chunk_call s" "\<not> flag_empty s1" by simp_all
  then show ?thesis using assms(4) unfolding st(2) sim_inv_def set_ruby_def by simp
qed

lemma sim_inv_memory:
  assumes "memory_line E match s = Some s'" "sim_inv s"
  shows "sim_inv s' \<and> num_chunk_call s' = num_chunk_call s"
proof -
  obtain v s1 s2 where st: "ruby_tick (env_port E) (s\<lparr>flag_empty := False\<rparr>) = Some s1"
      "(if base_addr (word_of_int v) \<in> set (memory_vector s1) then Some s1
        else send_line E (base_addr (word_of_int v)) (match ! 1 = ''Store'') s1) = Some s2" "process_responses s2 = Some s'"
    using assms(1) unfolding memory_line_def Let_def bind_Some_iff by blast
  have "sim_inv (s\<lparr>flag_empty := False\<rparr>)" using assms(2) by (simp add: sim_inv_def)
  from sim_inv_tick [OF st(1) this] have s1: "sim_inv s1" "\<not> flag_empty s1" "num_chunk_call s1 = num_chunk_call s" by auto
  then have "sim_inv s2 \<and> num_chunk_call s2 = num_chunk_call s"
    using st(2) sim_inv_send [of E "base_addr (word_of_int v)" _ s1 s2] base_addr_idem by (auto split: if_splits)
  with sim_inv_responses [OF st(3)] show ?thesis by simp
qed

lemma sim_inv_simulate:
  assumes "simulate E ls s = Some s'" "sim_inv s" "num_chunk_call s \<le> CHUNK_LIMIT + 1"
  shows "sim_inv s' \<and> num_chunk_call s' \<le> CHUNK_LIMIT + 2"
  using assms
proof (induction ls arbitrary: s)
  case (Cons l ls)
  then obtain stop s1 where l: "trace_line E l s = Some (stop, s1)"
      "if stop then s' = s1 else simulate E ls s1 = Some s'" by (auto simp: bind_Some_iff split: if_splits)
  show ?case
  proof (cases "length l = 2")
    case True
    then have "chunk_line E l s = Some (stop, s1)" using l(1) by (simp add: trace_line_def check_def)
    from sim_inv_chunk [OF this Cons.prems(2)]
    have c: "sim_inv s1" "num_chunk_call s1 = num_chunk_call s + 1" "stop \<longleftrightarrow> CHUNK_LIMIT < num_chunk_call s" by auto
    have b: "num_chunk_call s + 1 \<le> CHUNK_LIMIT + 2" "\<not> stop \<Longrightarrow> num_chunk_call s + 1 \<le> CHUNK_LIMIT + 1"
      using Cons.prems(3) c(3) unfolding CHUNK_LIMIT_def by unat_arith+
    show ?thesis
    proof (cases stop)
      case True
      with l(2) c b show ?thesis by simp
    next
      case False
      with l(2) c b Cons.IH [of s1] show ?thesis by simp
    qed
  next
    case False
    then have "memory_line E l s = Some s1" "\<not> stop" using l(1) by (auto simp: trace_line_def bind_Some_iff)
    with sim_inv_memory [of E l s s1] Cons.IH [of s1] Cons.prems(2,3) l(2) show ?thesis by simp
  qed
qed (simp add: CHUNK_LIMIT_def, unat_arith)

subsection \<open>Draining\<close>

text \<open>What the driver needs of the memory system to make progress: responses go to processor 0 and
  answer requests that are outstanding, and while any is outstanding a bound on the remaining time
  decreases.\<close>

definition responsive :: "'s sequencer_port \<Rightarrow> ('s \<Rightarrow> addr multiset) \<Rightarrow> ('s \<Rightarrow> nat) \<Rightarrow> bool" where
  "responsive P outstanding rank \<longleftrightarrow> (\<forall>s s' cbs. seq_advance P s = (s', cbs) \<longrightarrow>
     (\<forall>(p, a) \<in> set cbs. p = 0) \<and> outstanding s = outstanding s' + mset (map snd cbs) \<and>
     (outstanding s \<noteq> {#} \<longrightarrow> rank s' < rank s))"

lemma take_responses_total:
  assumes "m_callback_queue r = as # qs" "mset as \<subseteq># mset mv"
  shows "\<exists>mv'. take_responses r mv = Some (r\<lparr>m_callback_queue := [] # qs\<rparr>, mv') \<and> mset mv = mset mv' + mset as"
  using assms
proof (induction as arbitrary: r mv)
  case Nil
  then have "r\<lparr>m_callback_queue := [] # qs\<rparr> = r" by (cases r) simp
  with Nil show ?case by (subst take_responses.simps) (simp add: RubyQueueEmpty_def check_def)
next
  case (Cons a as)
  let ?r = "r\<lparr>m_callback_queue := as # qs\<rparr>"
  have a: "a \<in> set mv" "mset as \<subseteq># mset (remove1 a mv)"
    using Cons.prems(2) by (simp_all add: insert_subset_eq_iff)
  obtain mv' where mv': "take_responses ?r (remove1 a mv) = Some (?r\<lparr>m_callback_queue := [] # qs\<rparr>, mv')"
    "mset (remove1 a mv) = mset mv' + mset as" using Cons.IH [of ?r "remove1 a mv"] a(2) by auto
  have "take_responses r mv = take_responses ?r (remove1 a mv)"
    using Cons.prems(1) a(1)
    by (subst take_responses.simps) (simp add: RubyQueueEmpty_def RubyQueueTop_def RubyQueuePop_def check_def)
  moreover have "mset mv = add_mset a (mset (remove1 a mv))" using a(1) by simp
  ultimately show ?case using mv' by (intro exI [of _ mv']) simp
qed

lemma drain_step:
  assumes resp: "responsive P outstanding rank" and out: "outstanding (o3_system (sim_ruby s)) = mset (memory_vector s)"
    and q: "m_callback_queue (sim_ruby s) = [] # qs"
  shows "\<exists>s1 s2. ruby_tick P s = Some s1 \<and> process_responses s1 = Some s2 \<and>
    outstanding (o3_system (sim_ruby s2)) = mset (memory_vector s2) \<and> m_callback_queue (sim_ruby s2) = [] # qs \<and>
    (memory_vector s \<noteq> [] \<longrightarrow> rank (o3_system (sim_ruby s2)) < rank (o3_system (sim_ruby s))) \<and>
    global_cnt s2 = global_cnt s + 1 \<and> ruby_cycle s2 = ruby_cycle s + 1"
proof -
  let ?r = "sim_ruby s"
  obtain sys cbs where adv: "seq_advance P (o3_system ?r) = (sys, cbs)" by (cases "seq_advance P (o3_system ?r)")
  then have cbs: "\<forall>(p, a) \<in> set cbs. p = 0" "mset (memory_vector s) = outstanding sys + mset (map snd cbs)"
      "memory_vector s \<noteq> [] \<longrightarrow> rank sys < rank (o3_system ?r)"
    using resp out unfolding responsive_def by fastforce+
  have "filter (\<lambda>c. fst c = 0) cbs = cbs" using cbs(1) by (intro filter_True) auto
  then have cf: "callbacks_for 0 cbs = map snd cbs" "\<forall>p > 0. callbacks_for p cbs = []"
    using cbs(1) by (auto simp: callbacks_for_def filter_empty_conv)
  have "\<forall>(p, a) \<in> set cbs. p < length (m_callback_queue (?r\<lparr>o3_system := sys\<rparr>))" using cbs(1) q by auto
  from hitCallbacks_ok [OF this] obtain r where hit: "hitCallbacks cbs (?r\<lparr>o3_system := sys\<rparr>) = Some r" "o3_system r = sys"
      "length (m_callback_queue r) = length (m_callback_queue ?r)"
      "\<forall>p < length (m_callback_queue ?r). m_callback_queue r ! p = m_callback_queue ?r ! p @ callbacks_for p cbs" by auto
  have qr: "m_callback_queue r = map snd cbs # qs"
  proof (rule nth_equalityI)
    fix i assume "i < length (m_callback_queue r)"
    then show "m_callback_queue r ! i = (map snd cbs # qs) ! i" using hit(3,4) q cf by (cases i) auto
  qed (use hit(3) q in simp)
  have "mset (map snd cbs) \<subseteq># mset (memory_vector s)" using cbs(2) by simp
  from take_responses_total [OF qr this] obtain mv where tr:
      "take_responses r (memory_vector s) = Some (r\<lparr>m_callback_queue := [] # qs\<rparr>, mv)"
      "mset (memory_vector s) = mset mv + mset (map snd cbs)" by blast
  have tick: "ruby_tick P s = Some ((set_ruby r s)\<lparr>global_cnt := global_cnt s + 1, ruby_cycle := ruby_cycle s + 1\<rparr>)"
    using adv hit(1) by (simp add: ruby_tick_def advance_time_def o3_advanceTime_def)
  show ?thesis unfolding tick
    using tr(1) tr(2) cbs(2,3) hit(2) by (simp add: process_responses_def set_ruby_def)
qed

lemma drain_total:
  assumes "responsive P outstanding rank" "outstanding (o3_system (sim_ruby s)) = mset (memory_vector s)"
    and "m_callback_queue (sim_ruby s) = [] # qs" "rank (o3_system (sim_ruby s)) \<le> k"
  shows "\<exists>s'. drain P k s = Some s' \<and> memory_vector s' = [] \<and> outstanding (o3_system (sim_ruby s')) = {#} \<and>
    global_cnt s' - global_cnt s = ruby_cycle s' - ruby_cycle s"
  using assms(2-4)
proof (induction k arbitrary: s)
  case 0
  from drain_step [OF assms(1) 0(1,2)] 0(3) have "memory_vector s = []" by auto
  with 0 show ?case by (subst drain.simps) simp
next
  case (Suc k)
  show ?case
  proof (cases "memory_vector s = []")
    case True
    with Suc.prems show ?thesis by (subst drain.simps) simp
  next
    case False
    obtain s1 s2 where st: "ruby_tick P s = Some s1" "process_responses s1 = Some s2"
      "outstanding (o3_system (sim_ruby s2)) = mset (memory_vector s2)" "m_callback_queue (sim_ruby s2) = [] # qs"
      "rank (o3_system (sim_ruby s2)) < rank (o3_system (sim_ruby s))"
      "global_cnt s2 = global_cnt s + 1" "ruby_cycle s2 = ruby_cycle s + 1"
      using drain_step [OF assms(1) Suc.prems(1,2)] False by (elim exE conjE) simp
    obtain s' where s': "drain P k s2 = Some s'" "memory_vector s' = []" "outstanding (o3_system (sim_ruby s')) = {#}"
      "global_cnt s' - global_cnt s2 = ruby_cycle s' - ruby_cycle s2"
      using Suc.IH [OF st(3,4)] st(5) Suc.prems(3) by auto
    from s'(4) have "global_cnt s' - global_cnt s = ruby_cycle s' - ruby_cycle s" unfolding st(6,7) by (simp add: algebra_simps)
    moreover have "drain P (Suc k) s = Some s'" using False st(1,2) s'(1) by (subst drain.simps) simp
    ultimately show ?thesis using s'(2,3) by blast
  qed
qed

subsection \<open>From the graph to the core\<close>

lemma add_instructions_ok:
  assumes "\<forall>v \<in> set vs. llvm (opcode v) \<noteq> None"
  shows "\<exists>c'. add_instructions opcode nm llvm i vs c = Some c' \<and>
    map nd_name (instruction_list c') = map nd_name (instruction_list c) @ vs"
  using assms
proof (induction vs arbitrary: c)
  case (Cons v vs)
  then obtain lat where lat: "llvm (opcode v) = Some lat" by auto
  let ?n = "\<lparr>nd_c_id = i, nd_old_id = nm v, nd_new_id = v, nd_name = v, nd_type = opcode v, nd_latency = lat\<rparr>"
  let ?c = "push_ins ?n (c\<lparr>ch_id := i\<rparr>)"
  let ?d = "if opcode v = ''Load'' \<or> opcode v = ''Store'' then ?c\<lparr>ch_mem := True\<rparr> else ?c"
  have "map nd_name (instruction_list ?d) = map nd_name (instruction_list c) @ [v]" by (simp add: push_ins_def)
  with Cons.IH [of ?d] Cons.prems lat show ?case by (simp add: Let_def)
qed simp

lemma build_from_ok:
  assumes "\<forall>c \<in> set cs. \<forall>v \<in> set c. llvm (opcode v) \<noteq> None"
  shows "\<exists>chs. build_from opcode nm llvm un rd i cs = Some chs \<and> map (\<lambda>ch. map nd_name (instruction_list ch)) chs = cs"
  using assms
proof (induction cs arbitrary: i)
  case (Cons c cs)
  obtain ch where "add_instructions opcode nm llvm i c (chain_new i) = Some ch" "map nd_name (instruction_list ch) = c"
    using add_instructions_ok [of c llvm opcode nm i "chain_new i"] Cons.prems by (auto simp: chain_new_def)
  moreover obtain chs where "build_from opcode nm llvm un rd (i + 1) cs = Some chs"
      "map (\<lambda>ch. map nd_name (instruction_list ch)) chs = cs"
    using Cons by fastforce
  ultimately show ?case by (simp add: Let_def split: option.splits)
qed simp

lemma chain_graph_phase_un:
  assumes "decomposition (orig_graph g) (Chains g)" "chain_graph_phase g = Some g'"
  shows "om_ok (ng_un_dependencies g') \<and> om_edges (ng_un_dependencies g') = chain_rel (orig_graph g) (Chains g) \<and>
    (\<forall>k. map_of (ng_un_dependencies g') k \<noteq> Some []) \<and> Chains g' = Chains g \<and> comp_graph g' = comp_graph g"
proof -
  obtain g1 where g1: "buildDependencies g = Some g1" "ng_un_dependencies g' = ng_un_dependencies g1"
      "Chains g' = Chains g1" "comp_graph g' = comp_graph g1"
    using assms(2) by (auto simp: chain_graph_phase_def buildChainGraph_def createChainBlocks_def buildChainLevel_def
        bind_Some_iff Let_def)
  obtain vtc deps ctd un ur rm where m: "chain_maps (orig_graph g) (Chains g) = Some (vtc, deps, ctd, un, ur, rm)"
      "om_ok un" "om_edges un = chain_rel (orig_graph g) (Chains g)"
    using chain_maps_ok [OF assms(1)] by (elim exE conjE)
  with g1 buildDependencies_nonempty [OF g1(1)] show ?thesis by (auto simp: buildDependencies_def)
qed

lemma deps_in_range_edges:
  assumes "om_ok un" "om_edges un \<subseteq> {..<n} \<times> {..<n}" "\<forall>k. map_of un k \<noteq> Some []" "n \<le> MAX_NUM_CHAIN"
  shows "\<forall>(p, rs) \<in> set un. p < MAX_NUM_CHAIN \<and> (\<forall>r \<in> set rs. r < MAX_NUM_CHAIN)"
proof clarify
  fix p rs assume "(p, rs) \<in> set un"
  then have p: "map_of un p = Some rs" using map_of_in_set [OF assms(1)] by blast
  then have "rs \<noteq> []" using assms(3) by auto
  moreover have "p < n \<and> r < n" if "r \<in> set rs" for r using p that assms(2) om_edges_iff [of p r un] by blast
  ultimately show "p < MAX_NUM_CHAIN \<and> (\<forall>r \<in> set rs. r < MAX_NUM_CHAIN)"
    using assms(4) by (cases rs) fastforce+
qed

subsection \<open>Properties\<close>

text \<open>C7. The core waits for exactly the data-flow dependencies: when the graph phase has run on
  chains that partition the instructions, there are at most \<^verbatim>\<open>MAX_NUM_CHAIN\<close> chains and every opcode
  is known, loading them into the core gives it these chains, instruction by instruction, and
  \<^verbatim>\<open>initialize_depen_table\<close> marks chain \<open>r\<close> as waiting for chain \<open>q\<close> exactly when an edge of the graph
  leads from an instruction of \<open>q\<close> to one of \<open>r\<close>.\<close>

theorem core_waits_for_graph:
  assumes "decomposition (orig_graph g0) (Chains g0)" "chain_graph_phase g0 = Some g" "length (Chains g0) \<le> MAX_NUM_CHAIN"
    and "\<forall>v \<in> set (concat (Chains g0)). v < num_vertices (comp_graph g0) \<and> llvm (vc_opcode (g_vertex (comp_graph g0) ! v)) \<noteq> None"
    and "input_chain c = []" "depen_table c = (\<lambda>_ _. 0)"
  shows "\<exists>c1 c2. load_chains llvm g c = Some c1 \<and> initialize_depen_table c1 = Some c2 \<and>
    map (\<lambda>ch. map nd_name (instruction_list ch)) (input_chain c1) = Chains g0 \<and>
    (\<forall>r q. depen_table c2 r q = (if cross (orig_graph g0) (Chains g0) q r then 1 else 0))"
proof -
  let ?un = "ng_un_dependencies g"
  have un: "om_ok ?un" "om_edges ?un = chain_rel (orig_graph g0) (Chains g0)" "\<forall>k. map_of ?un k \<noteq> Some []"
      "Chains g = Chains g0" "comp_graph g = comp_graph g0"
    using chain_graph_phase_un [OF assms(1,2)] by auto
  obtain chs where chs: "build_from (\<lambda>v. vc_opcode (g_vertex (comp_graph g) ! v))
      (\<lambda>v. case map_of (orig_map g) v of None \<Rightarrow> 0 | Some i \<Rightarrow> u32 i) llvm ?un (un_reverse_mapping g) 0 (Chains g) = Some chs"
      "map (\<lambda>ch. map nd_name (instruction_list ch)) chs = Chains g"
    using build_from_ok [of "Chains g" llvm "\<lambda>v. vc_opcode (g_vertex (comp_graph g) ! v)"] assms(4) un(4,5) by fastforce
  have load: "load_chains llvm g c = Some (c\<lparr>input_chain := chs, un_dependencies := ?un, num_chains := length chs\<rparr>)"
    using chs(1) assms(4,5) un(4,5) by (auto simp: load_chains_def buildChains_def check_def list_all_iff)
  have edge: "(\<exists>rs. (q, rs) \<in> set ?un \<and> r \<in> set rs) \<longleftrightarrow> cross (orig_graph g0) (Chains g0) q r" for q r
    using om_edges_iff [of q r ?un] un(2) map_of_in_set [OF un(1)] by auto
  have "\<forall>(p, rs) \<in> set ?un. p < MAX_NUM_CHAIN \<and> (\<forall>r \<in> set rs. r < MAX_NUM_CHAIN)"
    using deps_in_range_edges [OF un(1) _ un(3) assms(3)] un(2) chain_rel_bound [of "orig_graph g0" "Chains g0"] by simp
  from fill_depen_table_ok [OF this, of "\<lambda>_ _. 0"] load show ?thesis
    using assms(6) chs(2) un(4) by (simp add: initialize_depen_table_def edge)
qed

theorem core_waits_for_graph_witness:
  "\<exists>g c c1 c2. chain_graph_phase (sample_ng\<lparr>Chains := [[0], [1, 2]],
        comp_graph := \<lparr>g_vertex = map (\<lambda>op. \<lparr>vc_name = 0, vc_id = 0, vc_ch = 0, vc_label = [], vc_opcode = op, vc_latency = 0,
          vc_level = 0, vc_color = [], vc_ir = []\<rparr>) [''BB'', ''Add'', ''Load''], g_out = [[1, 2], [2], []]\<rparr>\<rparr>) = Some g \<and>
     example_core 2 = Some c \<and> load_chains (\<lambda>_. Some 1) g (c\<lparr>input_chain := []\<rparr>) = Some c1 \<and> initialize_depen_table c1 = Some c2 \<and>
     depen_table c2 1 0 = 1 \<and> depen_table c2 0 1 = 0"
proof -
  let ?g = "sample_ng\<lparr>Chains := [[0], [1, 2]],
        comp_graph := \<lparr>g_vertex = map (\<lambda>op. \<lparr>vc_name = 0, vc_id = 0, vc_ch = 0, vc_label = [], vc_opcode = op, vc_latency = 0,
          vc_level = 0, vc_color = [], vc_ir = []\<rparr>) [''BB'', ''Add'', ''Load''], g_out = [[1, 2], [2], []]\<rparr>\<rparr>"
  have dec: "decomposition (orig_graph ?g) (Chains ?g)" and acyc: "\<not> cycle_from (chain_rel (orig_graph ?g) (Chains ?g)) 0"
    and cr: "cross (orig_graph ?g) (Chains ?g) 0 1" "\<not> cross (orig_graph ?g) (Chains ?g) 1 0"
    using sample_ng_chains sample_ng_acyclic by simp_all
  obtain g where g: "chain_graph_phase ?g = Some g"
    using chain_graph_phase_total [OF dec _ acyc cr(1), of 0] by (auto simp: sample_ng_def newGraph_new_def)
  obtain c where c: "example_core 2 = Some c" "depen_table c = (\<lambda>_ _. 0)"
    by (simp add: example_core_def core_new_def buildChains_def Let_def)
  have "\<exists>c1 c2. load_chains (\<lambda>_. Some 1) g (c\<lparr>input_chain := []\<rparr>) = Some c1 \<and> initialize_depen_table c1 = Some c2 \<and>
    map (\<lambda>ch. map nd_name (instruction_list ch)) (input_chain c1) = Chains ?g \<and>
    (\<forall>r q. depen_table c2 r q = (if cross (orig_graph ?g) (Chains ?g) q r then 1 else 0))"
    by (rule core_waits_for_graph [OF dec g]) (auto simp: c(2) MAX_NUM_CHAIN_def num_vertices_def)
  with g c(1) cr show ?thesis by auto
qed

text \<open>A memory system that answers one request per cycle, in order.\<close>

definition fifo_port :: "addr list sequencer_port" where
  "fifo_port = \<lparr>seq_isReady = (\<lambda>_ _ _. True), seq_makeRequest = (\<lambda>s _ m. (s @ [cm_Address m], [])),
     seq_advance = (\<lambda>s. case s of [] \<Rightarrow> ([], []) | a # as \<Rightarrow> (as, [(0, a)]))\<rparr>"

lemma fifo_port_responsive: "responsive fifo_port mset length"
  by (auto simp: responsive_def fifo_port_def split: list.splits)

text \<open>C25. Waiting for the host's requests ends: before a chunk the driver advances Ruby until no
  request is outstanding. If the memory system answers exactly the requests the driver has sent, each
  within a bounded time, the loop ends within that bound, no assertion about unknown addresses fails,
  nothing is left outstanding in Ruby, and every cycle spent is counted as a Ruby cycle.\<close>

theorem drain_completes:
  assumes "responsive P outstanding rank" "outstanding (o3_system (sim_ruby s)) = mset (memory_vector s)"
    and "m_callback_queue (sim_ruby s) = [] # qs" "rank (o3_system (sim_ruby s)) \<le> k"
  shows "\<exists>s'. drain P k s = Some s' \<and> memory_vector s' = [] \<and> outstanding (o3_system (sim_ruby s')) = {#} \<and>
    global_cnt s' - global_cnt s = ruby_cycle s' - ruby_cycle s"
  by (rule drain_total [OF assms])

theorem drain_completes_witness:
  "\<exists>c. core_new (\<lambda>_. Some 0) (\<lambda>_. Some 1) 0 (o3_new 1 [64, 128]) = Some c \<and>
     (\<exists>s'. drain fifo_port 2 ((sim_new c)\<lparr>memory_vector := [64, 128], flag_empty := False\<rparr>) = Some s' \<and> memory_vector s' = [])"
proof -
  obtain c where c: "core_new (\<lambda>_. Some 0) (\<lambda>_. Some 1) 0 (o3_new 1 [64, 128 :: addr]) = Some c"
    "m_ruby (m_memory c) = o3_new 1 [64, 128]"
    by (auto simp: core_new_def memory_new_def memory_initialize_def)
  let ?s = "(sim_new c)\<lparr>memory_vector := [64, 128], flag_empty := False\<rparr>"
  have "\<exists>s'. drain fifo_port 2 ?s = Some s' \<and> memory_vector s' = [] \<and> mset (o3_system (sim_ruby s')) = {#} \<and>
      global_cnt s' - global_cnt ?s = ruby_cycle s' - ruby_cycle ?s"
    by (rule drain_completes [OF fifo_port_responsive]) (simp_all add: sim_new_def c(2) o3_new_def)
  with c(1) show ?thesis by blast
qed


definition sample_dot :: "vertex_prop boost_graph" where
  "sample_dot = \<lparr>g_vertex = map (\<lambda>(n, c, op). \<lparr>vp_name = n, vp_label = op @ ''(7)'', vp_ch = c, vp_opcode = op, vp_color = [], vp_ir = []\<rparr>)
     [(0, ''0'', ''BB''), (1, ''1'', ''FMul''), (2, ''1'', ''Add'')], g_out = [[1], [2], []]\<rparr>"

definition sample_input :: "addr list sim_input" where
  "sample_input = \<lparr>in_core_params = [''MEMORY_MODE'' \<mapsto> 0, ''SCHEDULER'' \<mapsto> 0],
     in_lane_params = [''FETCH_DELAY'' \<mapsto> 2, ''DECODE_DELAY'' \<mapsto> 2, ''L1_MISS_LATENCY'' \<mapsto> 1,
       ''L2_MISS_LATENCY'' \<mapsto> 25, ''L3_MISS_LATENCY'' \<mapsto> 100],
     in_graph_params = [''BREAK_LIVE_OUT'' \<mapsto> 1, ''BREAK_LIVE_IN'' \<mapsto> 0, ''MERGE'' \<mapsto> 0, ''BLOCK_LIMIT'' \<mapsto> 2],
     in_llvm = [''BB'' \<mapsto> 1, ''FMul'' \<mapsto> 5, ''Add'' \<mapsto> 2], in_lanes = 2, in_dot = sample_dot, in_acc = [],
     in_ruby = o3_new 1 [], in_port = fifo_port, in_uninit = 0, in_junk = (0, 0), in_bound = 40\<rparr>"


end
