(* ===== verification/Ruby_Config.thy ===== *)
theory Ruby_Config
  imports Ruby_Prelude
begin

text \<open>
  The configuration of the memory system: \<^verbatim>\<open>ruby_clean/config/RubyConfig.C\<close> and \<^verbatim>\<open>.h\<close>, with
  \<^verbatim>\<open>log_int\<close> and \<^verbatim>\<open>is_power_of_2\<close> of \<^verbatim>\<open>common/util.C\<close>. The global parameters that the
  initialisation reads or derives are the fields of a record; \<^verbatim>\<open>RubyConfig::init\<close> checks them and
  fills in the derived ones. The calls that seed the random number generator and the printing of
  the parameters are left out.
\<close>

subsection \<open>Logarithms\<close>

fun log_loop :: "nat \<Rightarrow> nat \<Rightarrow> nat" where
  "log_loop n counter = (if 2 \<le> n then log_loop (n div 2) (counter + 1) else counter)"

declare log_loop.simps [simp del]

definition log_int :: "nat \<Rightarrow> nat option" where
  "log_int n = do { check (0 < n); Some (log_loop n 0) }"

definition is_power_of_2 :: "nat \<Rightarrow> bool option" where
  "is_power_of_2 n = do { k \<leftarrow> log_int n; Some (n = 2 ^ k) }"

lemma log_loop_bounds:
  "0 < n \<Longrightarrow> \<exists>k. log_loop n c = c + k \<and> 2 ^ k \<le> n \<and> n < 2 ^ (k + 1)"
proof (induction n c rule: log_loop.induct)
  case (1 n c)
  show ?case
  proof (cases "2 \<le> n")
    case True
    with 1 obtain k where k: "log_loop (n div 2) (c + 1) = (c + 1) + k" "2 ^ k \<le> n div 2" "n div 2 < 2 ^ (k + 1)"
      by fastforce
    then show ?thesis using True by (intro exI [of _ "k + 1"]) (auto simp: log_loop.simps [of n c])
  qed (use "1.prems" in \<open>auto simp: log_loop.simps [of n] intro: exI [of _ 0]\<close>)
qed

lemma log_int_Some: "log_int n = Some k \<longleftrightarrow> 0 < n \<and> 2 ^ k \<le> n \<and> n < 2 ^ (k + 1)"
proof -
  have u: "j = k" if "(2::nat) ^ j \<le> n" "n < 2 ^ (j + 1)" "2 ^ k \<le> n" "n < 2 ^ (k + 1)" for j k
  proof (rule ccontr)
    assume "j \<noteq> k"
    then consider "j + 1 \<le> k" | "k + 1 \<le> j" by linarith
    then show False
    proof cases
      case 1
      then have "(2::nat) ^ (j + 1) \<le> 2 ^ k" by (rule power_increasing) simp
      with that show False by simp
    next
      case 2
      then have "(2::nat) ^ (k + 1) \<le> 2 ^ j" by (rule power_increasing) simp
      with that show False by simp
    qed
  qed
  show ?thesis
  proof (cases "0 < n")
    case True
    with log_loop_bounds [of n 0] show ?thesis
      by (auto simp: log_int_def check_bind) (metis Suc_eq_plus1 power_Suc u)
  qed (simp add: log_int_def)
qed

lemma log_int_power [simp]: "log_int (2 ^ k) = Some k"
  by (simp add: log_int_Some)

lemma is_power_of_2_True: "is_power_of_2 n = Some True \<longleftrightarrow> (\<exists>k. n = 2 ^ k)"
  by (auto simp: is_power_of_2_def bind_Some_iff)

subsection \<open>Parameters\<close>

record ruby_config =
  g_MEMORY_SIZE_BYTES :: nat
  g_DATA_BLOCK_BYTES :: nat
  g_PAGE_SIZE_BYTES :: nat
  g_NUM_PROCESSORS :: nat
  g_PROCS_PER_CHIP :: nat
  g_NUM_SMT_THREADS :: nat
  g_NUM_L2_BANKS :: nat
  g_NUM_MEMORIES :: nat
  L2_CACHE_NUM_SETS_BITS :: nat
  MAP_L2BANKS_TO_LOWEST_BITS :: bool
  MEM_BUS_CYCLE_MULTIPLIER :: nat
  BANKS_PER_RANK :: nat
  RANKS_PER_DIMM :: nat
  DIMMS_PER_CHANNEL :: nat
  BANK_QUEUE_SIZE :: nat
  BANK_BUSY_TIME :: nat
  MEM_CTL_LATENCY :: nat
  REFRESH_PERIOD :: nat
  BASIC_BUS_BUSY_TIME :: nat
  g_MEMORY_SIZE_BITS :: nat
  g_DATA_BLOCK_BITS :: nat
  g_PAGE_SIZE_BITS :: nat
  g_NUM_PROCESSORS_BITS :: nat
  g_NUM_CHIP_BITS :: nat
  g_NUM_L2_BANKS_BITS :: nat
  g_NUM_MEMORIES_BITS :: nat
  g_PROCS_PER_CHIP_BITS :: nat
  g_NUM_L2_BANKS_PER_CHIP :: nat
  g_NUM_L2_BANKS_PER_CHIP_BITS :: nat
  g_NUM_MEMORIES_PER_CHIP :: nat
  g_MEMORY_MODULE_BITS :: int
  g_MEMORY_MODULE_BLOCKS :: int
  g_NUM_CHIPS :: nat

definition CHECK_POWER_OF_2 :: "nat \<Rightarrow> unit option" where
  "CHECK_POWER_OF_2 n = do { b \<leftarrow> is_power_of_2 n; check b }"

text \<open>The three groups of checks of \<^verbatim>\<open>RubyConfig::init\<close>, with the defaults in between.\<close>

definition init_memory_control :: "ruby_config \<Rightarrow> unit option" where
  "init_memory_control c = do {
     check (MEM_BUS_CYCLE_MULTIPLIER c \<noteq> 0);
     check (BANKS_PER_RANK c \<noteq> 0);
     check (RANKS_PER_DIMM c \<noteq> 0);
     check (DIMMS_PER_CHANNEL c \<noteq> 0);
     check (BANK_QUEUE_SIZE c \<noteq> 0);
     check (BANK_BUSY_TIME c \<noteq> 0);
     check (MEM_CTL_LATENCY c \<noteq> 0);
     check (REFRESH_PERIOD c \<noteq> 0);
     check (BASIC_BUS_BUSY_TIME c \<noteq> 0);
     CHECK_POWER_OF_2 (BANKS_PER_RANK c);
     CHECK_POWER_OF_2 (RANKS_PER_DIMM c);
     CHECK_POWER_OF_2 (DIMMS_PER_CHANNEL c) }"

definition init_defaults :: "ruby_config \<Rightarrow> ruby_config option" where
  "init_defaults c = do {
     check (g_MEMORY_SIZE_BYTES c \<noteq> 0);
     check (g_DATA_BLOCK_BYTES c \<noteq> 0);
     check (g_PAGE_SIZE_BYTES c \<noteq> 0);
     check (g_NUM_PROCESSORS c \<noteq> 0);
     check (g_PROCS_PER_CHIP c \<noteq> 0);
     let c1 = (if g_NUM_SMT_THREADS c = 0 then c\<lparr>g_NUM_SMT_THREADS := 1\<rparr> else c);
     let c2 = (if g_NUM_L2_BANKS c1 = 0 then c1\<lparr>g_NUM_L2_BANKS := g_NUM_PROCESSORS c1\<rparr> else c1);
     Some (if g_NUM_MEMORIES c2 = 0 then c2\<lparr>g_NUM_MEMORIES := g_NUM_PROCESSORS c2\<rparr> else c2) }"

definition init_zero_and_powers :: "ruby_config \<Rightarrow> unit option" where
  "init_zero_and_powers c = do {
     check (g_MEMORY_SIZE_BITS c = 0 \<and> g_DATA_BLOCK_BITS c = 0 \<and> g_PAGE_SIZE_BITS c = 0 \<and>
            g_NUM_PROCESSORS_BITS c = 0 \<and> g_NUM_CHIP_BITS c = 0 \<and> g_NUM_L2_BANKS_BITS c = 0 \<and>
            g_NUM_MEMORIES_BITS c = 0 \<and> g_PROCS_PER_CHIP_BITS c = 0 \<and>
            g_NUM_L2_BANKS_PER_CHIP c = 0 \<and> g_NUM_L2_BANKS_PER_CHIP_BITS c = 0 \<and>
            g_MEMORY_MODULE_BLOCKS c = 0 \<and> g_MEMORY_MODULE_BITS c = 0 \<and>
            g_NUM_MEMORIES_PER_CHIP c = 0);
     CHECK_POWER_OF_2 (g_MEMORY_SIZE_BYTES c);
     CHECK_POWER_OF_2 (g_DATA_BLOCK_BYTES c);
     CHECK_POWER_OF_2 (g_NUM_PROCESSORS c);
     CHECK_POWER_OF_2 (g_NUM_L2_BANKS c);
     CHECK_POWER_OF_2 (g_NUM_MEMORIES c);
     CHECK_POWER_OF_2 (g_PROCS_PER_CHIP c) }"

text \<open>The derived parameters. A negative shift count, undefined in C++, aborts.\<close>

definition init_derived :: "ruby_config \<Rightarrow> ruby_config option" where
  "init_derived c = do {
     check (g_PROCS_PER_CHIP c \<le> g_NUM_PROCESSORS c);
     let chips = g_NUM_PROCESSORS c div g_PROCS_PER_CHIP c;
     check (chips \<le> g_NUM_L2_BANKS c);
     let per_chip = g_NUM_L2_BANKS c div chips;
     per_chip_bits \<leftarrow> log_int per_chip;
     check (per_chip_bits < L2_CACHE_NUM_SETS_BITS c);
     let mem_per_chip = (if g_NUM_MEMORIES c < chips then 1 else g_NUM_MEMORIES c div chips);
     chip_bits \<leftarrow> log_int chips;
     mem_bits \<leftarrow> log_int (g_MEMORY_SIZE_BYTES c);
     block_bits \<leftarrow> log_int (g_DATA_BLOCK_BYTES c);
     page_bits \<leftarrow> log_int (g_PAGE_SIZE_BYTES c);
     proc_bits \<leftarrow> log_int (g_NUM_PROCESSORS c);
     l2_bits \<leftarrow> log_int (g_NUM_L2_BANKS c);
     memories_bits \<leftarrow> log_int (g_NUM_MEMORIES c);
     ppc_bits \<leftarrow> log_int (g_PROCS_PER_CHIP c);
     let module_bits = int mem_bits - int block_bits - int memories_bits;
     check (0 \<le> module_bits);
     Some (c\<lparr>g_NUM_CHIPS := chips, g_NUM_L2_BANKS_PER_CHIP := per_chip,
       L2_CACHE_NUM_SETS_BITS := L2_CACHE_NUM_SETS_BITS c - per_chip_bits,
       g_NUM_MEMORIES_PER_CHIP := mem_per_chip, g_NUM_CHIP_BITS := chip_bits,
       g_MEMORY_SIZE_BITS := mem_bits, g_DATA_BLOCK_BITS := block_bits, g_PAGE_SIZE_BITS := page_bits,
       g_NUM_PROCESSORS_BITS := proc_bits, g_NUM_L2_BANKS_BITS := l2_bits,
       g_NUM_L2_BANKS_PER_CHIP_BITS := per_chip_bits, g_NUM_MEMORIES_BITS := memories_bits,
       g_PROCS_PER_CHIP_BITS := ppc_bits, g_MEMORY_MODULE_BITS := module_bits,
       g_MEMORY_MODULE_BLOCKS := 2 ^ nat module_bits\<rparr>) }"

definition config_init :: "bool \<Rightarrow> ruby_config \<Rightarrow> ruby_config option" where
  "config_init m_CMP c = do {
     init_memory_control c;
     c1 \<leftarrow> init_defaults c;
     init_zero_and_powers c1;
     c2 \<leftarrow> init_derived c1;
     check (m_CMP \<or> g_PROCS_PER_CHIP c2 \<le> 1);
     Some c2 }"

definition L1CacheNumToL2Base :: "ruby_config \<Rightarrow> nat \<Rightarrow> nat" where
  "L1CacheNumToL2Base c L1CacheNum = L1CacheNum div g_PROCS_PER_CHIP c"

subsection \<open>Consistency\<close>

definition config_ok :: "ruby_config \<Rightarrow> bool" where
  "config_ok c \<longleftrightarrow>
     g_MEMORY_SIZE_BYTES c = 2 ^ g_MEMORY_SIZE_BITS c \<and>
     g_DATA_BLOCK_BYTES c = 2 ^ g_DATA_BLOCK_BITS c \<and>
     g_NUM_PROCESSORS c = 2 ^ g_NUM_PROCESSORS_BITS c \<and>
     g_PROCS_PER_CHIP c = 2 ^ g_PROCS_PER_CHIP_BITS c \<and>
     g_NUM_L2_BANKS c = 2 ^ g_NUM_L2_BANKS_BITS c \<and>
     g_NUM_MEMORIES c = 2 ^ g_NUM_MEMORIES_BITS c \<and>
     g_NUM_CHIPS c = 2 ^ g_NUM_CHIP_BITS c \<and>
     g_NUM_L2_BANKS_PER_CHIP c = 2 ^ g_NUM_L2_BANKS_PER_CHIP_BITS c \<and>
     g_NUM_PROCESSORS c = g_NUM_CHIPS c * g_PROCS_PER_CHIP c \<and>
     g_NUM_L2_BANKS c = g_NUM_CHIPS c * g_NUM_L2_BANKS_PER_CHIP c \<and>
     0 < L2_CACHE_NUM_SETS_BITS c \<and> 0 < g_NUM_MEMORIES_PER_CHIP c \<and>
     g_DATA_BLOCK_BITS c + g_NUM_MEMORIES_BITS c \<le> g_MEMORY_SIZE_BITS c \<and>
     g_MEMORY_MODULE_BLOCKS c = 2 ^ (g_MEMORY_SIZE_BITS c - g_DATA_BLOCK_BITS c - g_NUM_MEMORIES_BITS c)"

lemma div_power_2:
  "(2::nat) ^ b \<le> 2 ^ a \<Longrightarrow> (2::nat) ^ a div 2 ^ b = 2 ^ (a - b) \<and> (2::nat) ^ a = 2 ^ (a - b) * 2 ^ b"
proof -
  assume "(2::nat) ^ b \<le> 2 ^ a"
  then have "(2::nat) ^ a = 2 ^ (a - b) * 2 ^ b" by (simp flip: power_add)
  then show ?thesis by simp
qed

lemma nested_if_Some:
  assumes "(if A then if B then if C then if D then Some x else None else None else None else None) = Some y"
  shows "D" "C" "y = x"
  using assms by (auto split: if_splits)

lemma init_derived_ok:
  assumes "init_zero_and_powers c = Some ()" "init_derived c = Some c'"
  shows "config_ok c'"
proof -
  obtain m b p l r q where pw: "g_MEMORY_SIZE_BYTES c = 2 ^ m" "g_DATA_BLOCK_BYTES c = 2 ^ b"
    "g_NUM_PROCESSORS c = 2 ^ p" "g_NUM_L2_BANKS c = 2 ^ l" "g_NUM_MEMORIES c = 2 ^ r" "g_PROCS_PER_CHIP c = 2 ^ q"
    using assms(1)
    by (auto simp: init_zero_and_powers_def CHECK_POWER_OF_2_def bind_Some_iff is_power_of_2_True)
  from assms(2) have le: "(2::nat) ^ q \<le> 2 ^ p" "2 ^ p div 2 ^ q \<le> (2::nat) ^ l"
    by (auto simp: init_derived_def bind_Some_iff pw Let_def)
  note d1 = div_power_2 [OF le(1)]
  from le(2) d1 have le2: "(2::nat) ^ (p - q) \<le> 2 ^ l" by simp
  note d2 = div_power_2 [OF le2]
  have pos: "(0::nat) < (if (2::nat) ^ r < 2 ^ (p - q) then 1 else 2 ^ r div 2 ^ (p - q))"
    by (simp add: div_greater_zero_iff not_less)
  have e: "2 ^ p div 2 ^ q = (2::nat) ^ (p - q)" "2 ^ l div 2 ^ (p - q) = (2::nat) ^ (l - (p - q))"
    using d1 d2 by blast+
  obtain page where pg: "log_int (g_PAGE_SIZE_BYTES c) = Some page"
    using assms(2) by (cases "log_int (g_PAGE_SIZE_BYTES c)") (simp_all add: init_derived_def bind_Some_iff Let_def)
  let ?d = "c\<lparr>g_NUM_CHIPS := 2 ^ (p - q), g_NUM_L2_BANKS_PER_CHIP := 2 ^ (l - (p - q)),
       L2_CACHE_NUM_SETS_BITS := L2_CACHE_NUM_SETS_BITS c - (l - (p - q)),
       g_NUM_MEMORIES_PER_CHIP := (if (2::nat) ^ r < 2 ^ (p - q) then 1 else 2 ^ r div 2 ^ (p - q)),
       g_NUM_CHIP_BITS := p - q,
       g_MEMORY_SIZE_BITS := m, g_DATA_BLOCK_BITS := b, g_PAGE_SIZE_BITS := page,
       g_NUM_PROCESSORS_BITS := p, g_NUM_L2_BANKS_BITS := l,
       g_NUM_L2_BANKS_PER_CHIP_BITS := l - (p - q), g_NUM_MEMORIES_BITS := r,
       g_PROCS_PER_CHIP_BITS := q, g_MEMORY_MODULE_BITS := int m - int b - int r,
       g_MEMORY_MODULE_BLOCKS := 2 ^ nat (int m - int b - int r)\<rparr>"
  have i: "init_derived c = (if (2::nat) ^ q \<le> 2 ^ p then if (2::nat) ^ (p - q) \<le> 2 ^ l
     then if l - (p - q) < L2_CACHE_NUM_SETS_BITS c then
     if 0 \<le> int m - int b - int r then Some ?d else None else None else None else None)"
    unfolding init_derived_def Let_def pw e log_int_power pg bind.bind_lunit check_bind by (rule refl)
  have c': "0 \<le> int m - int b - int r" "l - (p - q) < L2_CACHE_NUM_SETS_BITS c" "c' = ?d"
    by (rule nested_if_Some [OF assms(2) [unfolded i]])+
  have n: "nat (int m - int b - int r) = m - b - r" using c'(1) by simp
  show ?thesis
    unfolding config_ok_def c'(3) n
    using pw d1 d2 pos c'(1,2) by (simp add: mult.commute)
qed

text \<open>C37. A configuration that \<^verbatim>\<open>RubyConfig::init\<close> accepts is consistent: every count is the
  power of two of its bit width, processors and L2 banks divide evenly over the chips, every L2
  bank keeps at least one set bit, and the blocks of one memory module, the memories and the
  block size multiply to the memory size.\<close>

theorem config_init_consistent:
  assumes "config_init m_CMP c = Some c'"
  shows "config_ok c' \<and> (g_PROCS_PER_CHIP c' \<le> 1 \<or> m_CMP) \<and>
    g_MEMORY_MODULE_BLOCKS c' * int (g_NUM_MEMORIES c') * int (g_DATA_BLOCK_BYTES c')
      = int (g_MEMORY_SIZE_BYTES c')"
proof -
  from assms obtain c1 where "init_zero_and_powers c1 = Some ()" "init_derived c1 = Some c'"
    "m_CMP \<or> g_PROCS_PER_CHIP c' \<le> 1"
    by (auto simp: config_init_def bind_Some_iff)
  moreover from init_derived_ok [OF this(1,2)] have ok: "config_ok c'" .
  then have "(2::int) ^ (g_MEMORY_SIZE_BITS c' - g_DATA_BLOCK_BITS c' - g_NUM_MEMORIES_BITS c') *
     2 ^ g_NUM_MEMORIES_BITS c' * 2 ^ g_DATA_BLOCK_BITS c' = 2 ^ g_MEMORY_SIZE_BITS c'"
    by (auto simp: config_ok_def simp flip: power_add)
  with ok have "g_MEMORY_MODULE_BLOCKS c' * int (g_NUM_MEMORIES c') * int (g_DATA_BLOCK_BYTES c')
      = int (g_MEMORY_SIZE_BYTES c')"
    unfolding config_ok_def by (elim conjE) (simp only: of_nat_power of_nat_numeral)
  ultimately show ?thesis using ok by blast
qed

definition sample_config :: ruby_config where
  "sample_config = \<lparr>g_MEMORY_SIZE_BYTES = 2 ^ 48, g_DATA_BLOCK_BYTES = 64, g_PAGE_SIZE_BYTES = 4096,
     g_NUM_PROCESSORS = 2, g_PROCS_PER_CHIP = 2, g_NUM_SMT_THREADS = 1, g_NUM_L2_BANKS = 4,
     g_NUM_MEMORIES = 4, L2_CACHE_NUM_SETS_BITS = 12, MAP_L2BANKS_TO_LOWEST_BITS = True,
     MEM_BUS_CYCLE_MULTIPLIER = 10, BANKS_PER_RANK = 8, RANKS_PER_DIMM = 2, DIMMS_PER_CHANNEL = 2,
     BANK_QUEUE_SIZE = 12, BANK_BUSY_TIME = 11, MEM_CTL_LATENCY = 12, REFRESH_PERIOD = 1560,
     BASIC_BUS_BUSY_TIME = 2, g_MEMORY_SIZE_BITS = 0, g_DATA_BLOCK_BITS = 0, g_PAGE_SIZE_BITS = 0,
     g_NUM_PROCESSORS_BITS = 0, g_NUM_CHIP_BITS = 0, g_NUM_L2_BANKS_BITS = 0, g_NUM_MEMORIES_BITS = 0,
     g_PROCS_PER_CHIP_BITS = 0, g_NUM_L2_BANKS_PER_CHIP = 0, g_NUM_L2_BANKS_PER_CHIP_BITS = 0,
     g_NUM_MEMORIES_PER_CHIP = 0, g_MEMORY_MODULE_BITS = 0, g_MEMORY_MODULE_BLOCKS = 0, g_NUM_CHIPS = 0\<rparr>"

lemma sample_config_init:
  "\<exists>c. config_init True sample_config = Some c \<and> g_DATA_BLOCK_BITS c = 6 \<and> g_MEMORY_SIZE_BITS c = 48 \<and>
     g_NUM_MEMORIES_BITS c = 2 \<and> g_NUM_L2_BANKS_PER_CHIP_BITS c = 2 \<and> L2_CACHE_NUM_SETS_BITS c = 10 \<and>
     g_NUM_CHIPS c = 1 \<and> g_NUM_L2_BANKS c = 4"
proof -
  have lg: "log_int 1 = Some 0" "log_int (Suc 0) = Some 0" "log_int 2 = Some 1" "log_int 4 = Some 2"
    "log_int 8 = Some 3" "log_int 64 = Some 6" "log_int 4096 = Some 12" "log_int (2 ^ 48) = Some 48"
    "log_int 281474976710656 = Some 48"
    by (simp_all add: log_int_Some)
  note defs = sample_config_def is_power_of_2_def CHECK_POWER_OF_2_def
  have "init_memory_control sample_config = Some ()"
    by (simp add: init_memory_control_def defs lg)
  moreover have "init_defaults sample_config = Some sample_config"
    by (simp add: init_defaults_def sample_config_def)
  moreover have "init_zero_and_powers sample_config = Some ()"
    by (simp add: init_zero_and_powers_def defs lg)
  ultimately show ?thesis
    by (simp add: config_init_def init_derived_def sample_config_def lg Let_def)
qed

theorem config_init_consistent_witness:
  "\<exists>c. config_init True sample_config = Some c \<and> config_ok c"
  using sample_config_init config_init_consistent by blast

end
