(* ===== verification/Ruby_Address.thy ===== *)
theory Ruby_Address
  imports Ruby_Config
begin

text \<open>
  Physical addresses and the functions that take bits out of them: \<^verbatim>\<open>ruby_clean/common/Address.h\<close>.
  An address is a 64-bit word. The bit positions are C++ \<^verbatim>\<open>int\<close>s; shifting by a negative count or
  by 64 and more is undefined and aborts. The functions of \<^verbatim>\<open>RubyConfig\<close> they call read the
  configuration record.
\<close>

unbundle bit_operations_syntax

type_synonym address = "64 word"

definition ADDRESS_WIDTH :: int where "ADDRESS_WIDTH = 64"

definition shift_ok :: "int \<Rightarrow> bool" where "shift_ok n \<longleftrightarrow> 0 \<le> n \<and> n < 64"

definition bitSelect :: "int \<Rightarrow> int \<Rightarrow> address \<Rightarrow> address option" where
  "bitSelect small big a = do {
     check (small \<le> big);
     check (shift_ok small);
     if ADDRESS_WIDTH - 1 \<le> big then Some (drop_bit (nat small) a)
     else (let mask = NOT (push_bit (nat (big + 1)) (NOT 0))
           in Some (drop_bit (nat small) (a AND mask))) }"

definition maskLowOrderBits :: "int \<Rightarrow> address \<Rightarrow> address option" where
  "maskLowOrderBits number a =
     (if ADDRESS_WIDTH - 1 \<le> number then Some (a AND NOT 0)
      else do { check (0 \<le> number); Some (a AND push_bit (nat number) (NOT 0)) })"

definition maskHighOrderBits :: "int \<Rightarrow> address \<Rightarrow> address option" where
  "maskHighOrderBits number a =
     (if ADDRESS_WIDTH - 1 \<le> number then Some (a AND NOT 0)
      else do { check (0 \<le> number); Some (a AND drop_bit (nat number) (NOT 0)) })"

definition shiftLowOrderBits :: "int \<Rightarrow> address \<Rightarrow> address option" where
  "shiftLowOrderBits number a = do { check (shift_ok number); Some (drop_bit (nat number) a) }"

definition getLineAddress :: "ruby_config \<Rightarrow> address \<Rightarrow> address option" where
  "getLineAddress c a = bitSelect (int (g_DATA_BLOCK_BITS c)) ADDRESS_WIDTH a"

definition getOffset :: "ruby_config \<Rightarrow> address \<Rightarrow> address option" where
  "getOffset c a = bitSelect 0 (int (g_DATA_BLOCK_BITS c) - 1) a"

definition makeLineAddress :: "ruby_config \<Rightarrow> address \<Rightarrow> address option" where
  "makeLineAddress c a = maskLowOrderBits (int (g_DATA_BLOCK_BITS c)) a"

definition makeNextStrideAddress :: "ruby_config \<Rightarrow> int \<Rightarrow> address \<Rightarrow> address option" where
  "makeNextStrideAddress c stride a = do {
     l \<leftarrow> maskLowOrderBits (int (g_DATA_BLOCK_BITS c)) a;
     Some (l + word_of_int (int (g_DATA_BLOCK_BYTES c) * stride)) }"

definition makePageAddress :: "ruby_config \<Rightarrow> address \<Rightarrow> address option" where
  "makePageAddress c a = maskLowOrderBits (int (g_PAGE_SIZE_BITS c)) a"

definition setOffset :: "ruby_config \<Rightarrow> int \<Rightarrow> address \<Rightarrow> address option" where
  "setOffset c offset a = do { l \<leftarrow> makeLineAddress c a; Some (l OR word_of_int offset) }"

definition line_address :: "ruby_config \<Rightarrow> address \<Rightarrow> address option" where
  "line_address c a = makeLineAddress c a"

definition next_stride_address :: "ruby_config \<Rightarrow> int \<Rightarrow> address \<Rightarrow> address option" where
  "next_stride_address c stride a = do {
     n \<leftarrow> makeNextStrideAddress c stride a;
     maskHighOrderBits (ADDRESS_WIDTH - int (g_MEMORY_SIZE_BITS c)) n }"

definition page_address :: "ruby_config \<Rightarrow> address \<Rightarrow> address option" where
  "page_address c a = makePageAddress c a"

definition memoryModuleIndex :: "ruby_config \<Rightarrow> address \<Rightarrow> int option" where
  "memoryModuleIndex c a = do {
     i \<leftarrow> bitSelect (int (g_DATA_BLOCK_BITS c) + int (g_NUM_MEMORIES_BITS c)) ADDRESS_WIDTH a;
     let index = sint i;
     check (0 \<le> index);
     check (index < g_MEMORY_MODULE_BLOCKS c);
     Some index }"

subsection \<open>Arithmetic meaning\<close>

lemma and_low_mask: "n < 64 \<Longrightarrow> (a :: address) AND NOT (push_bit n (NOT 0)) = take_bit n a"
  by (intro bit_word_eqI) (auto simp: bit_simps)

lemma and_high_mask: "n < 64 \<Longrightarrow> (a :: address) AND push_bit n (NOT 0) = push_bit n (drop_bit n a)"
  by (intro bit_word_eqI) (auto simp: bit_simps)

lemma unat_drop_div: "unat (drop_bit n (a :: address)) = unat a div 2 ^ n"
  unfolding unat_drop_bit_eq by (rule drop_bit_eq_div)

lemma unat_take_mod: "unat (take_bit n (a :: address)) = unat a mod 2 ^ n"
  unfolding unsigned_take_bit_eq by (rule take_bit_eq_mod)

lemma address_bound: "unat (a :: address) < 2 ^ 64"
proof -
  have "unat a < 2 ^ LENGTH(64)" by (rule unsigned_less)
  then show ?thesis by simp
qed

lemma bitSelect_Some:
  assumes "s \<le> b" "b < 64"
  shows "\<exists>r. bitSelect (int s) (int b) a = Some r \<and> unat r = (unat a div 2 ^ s) mod 2 ^ (b + 1 - s)"
proof (cases "b = 63")
  case True
  have "unat a div 2 ^ s < 2 ^ (64 - s)"
  proof (rule less_mult_imp_div_less)
    have "(2::nat) ^ (64 - s) * 2 ^ s = 2 ^ 64" using assms by (simp flip: power_add)
    then show "unat a < 2 ^ (64 - s) * 2 ^ s" using address_bound [of a] by simp
  qed
  with True assms show ?thesis
    by (simp add: bitSelect_def check_bind shift_ok_def ADDRESS_WIDTH_def unat_drop_div)
next
  case False
  then have "b + 1 < 64" using assms by simp
  then have m: "a AND NOT (push_bit (b + 1) (NOT 0)) = take_bit (b + 1) a" by (rule and_low_mask)
  have n: "nat (int b + 1) = b + 1" "int s \<le> int b" "shift_ok (int s)" "\<not> ADDRESS_WIDTH - 1 \<le> int b"
    using False assms by (simp_all add: shift_ok_def ADDRESS_WIDTH_def)
  have "bitSelect (int s) (int b) a = Some (drop_bit s (take_bit (b + 1) a))"
    unfolding bitSelect_def Let_def n(1) m check_bind using n(2-4) by simp
  moreover have "unat (drop_bit s (take_bit (b + 1) a)) = (unat a div 2 ^ s) mod 2 ^ (b + 1 - s)"
    using assms
    by (simp add: drop_bit_take_bit unat_take_mod unat_drop_div)
  ultimately show ?thesis by blast
qed

lemma bitSelect_top:
  assumes "s < 64"
  shows "\<exists>r. bitSelect (int s) ADDRESS_WIDTH a = Some r \<and> unat r = unat a div 2 ^ s"
  using assms
  by (simp add: bitSelect_def check_bind shift_ok_def ADDRESS_WIDTH_def unat_drop_div)

lemma maskLow_Some:
  assumes "n < 63"
  shows "\<exists>r. maskLowOrderBits (int n) a = Some r \<and> unat r = 2 ^ n * (unat a div 2 ^ n)"
proof -
  have "unat (push_bit n (drop_bit n a)) = 2 ^ n * (unat a div 2 ^ n)"
  proof -
    have "push_bit n (drop_bit n a) + take_bit n a = a" by (rule bits_ident)
    then have "push_bit n (drop_bit n a) = a - take_bit n a" by (simp add: eq_diff_eq)
    moreover have t: "unat (take_bit n a) = unat a mod 2 ^ n" by (rule unat_take_mod)
    moreover have "take_bit n a \<le> a" by (simp add: word_le_nat_alt t)
    ultimately show ?thesis by (simp add: unat_sub minus_mod_eq_mult_div)
  qed
  then show ?thesis
    using assms and_high_mask [of n a] by (simp add: maskLowOrderBits_def check_bind ADDRESS_WIDTH_def)
qed

subsection \<open>Lines\<close>

lemma line_address_Some:
  assumes "g_DATA_BLOCK_BITS c < 63"
  shows "\<exists>l. line_address c a = Some l \<and>
    unat l = 2 ^ g_DATA_BLOCK_BITS c * (unat a div 2 ^ g_DATA_BLOCK_BITS c)"
  using maskLow_Some [OF assms, of a] by (simp add: line_address_def makeLineAddress_def)

lemma line_address_idem:
  assumes "g_DATA_BLOCK_BITS c < 63" "line_address c a = Some l"
  shows "line_address c l = Some l"
proof -
  obtain l' where "line_address c l = Some l'"
    "unat l' = 2 ^ g_DATA_BLOCK_BITS c * (unat l div 2 ^ g_DATA_BLOCK_BITS c)"
    using line_address_Some [OF assms(1)] by blast
  moreover have "unat l = 2 ^ g_DATA_BLOCK_BITS c * (unat a div 2 ^ g_DATA_BLOCK_BITS c)"
    using line_address_Some [OF assms(1), of a] assms(2) by auto
  ultimately show ?thesis by (simp add: word_unat_eq_iff)
qed

lemma line_offset_sum:
  assumes "0 < g_DATA_BLOCK_BITS c" "g_DATA_BLOCK_BITS c < 63"
  shows "\<exists>l f. line_address c a = Some l \<and> getOffset c a = Some f \<and>
    unat l + unat f = unat a \<and> unat f < 2 ^ g_DATA_BLOCK_BITS c"
proof -
  let ?b = "g_DATA_BLOCK_BITS c"
  obtain f where "getOffset c a = Some f" "unat f = unat a mod 2 ^ ?b"
    using bitSelect_Some [of 0 "?b - 1" a] assms by (fastforce simp: getOffset_def of_nat_diff)
  moreover obtain l where "line_address c a = Some l" "unat l = 2 ^ ?b * (unat a div 2 ^ ?b)"
    using line_address_Some [OF assms(2)] by blast
  ultimately show ?thesis by simp
qed

subsection \<open>Home directories\<close>

text \<open>\<^verbatim>\<open>map_Address_to_DirectoryNode\<close> of \<^verbatim>\<open>RubySlicc_ComponentMapping.h\<close>.\<close>

definition map_Address_to_DirectoryNode :: "ruby_config \<Rightarrow> address \<Rightarrow> nat option" where
  "map_Address_to_DirectoryNode c a = do {
     dirNode \<leftarrow> (if 0 < g_NUM_MEMORIES_BITS c
       then do { d \<leftarrow> bitSelect (int (g_DATA_BLOCK_BITS c))
                      (int (g_DATA_BLOCK_BITS c) + int (g_NUM_MEMORIES_BITS c) - 1) a;
                 Some (unat d) }
       else Some 0);
     check (dirNode < g_NUM_MEMORIES c);
     Some dirNode }"

lemma directory_node_ok:
  assumes "config_ok c" "g_MEMORY_SIZE_BITS c < 64"
  shows "map_Address_to_DirectoryNode c a =
    Some (unat a div 2 ^ g_DATA_BLOCK_BITS c mod 2 ^ g_NUM_MEMORIES_BITS c)"
proof (cases "g_NUM_MEMORIES_BITS c")
  case 0
  with assms show ?thesis by (simp add: map_Address_to_DirectoryNode_def config_ok_def check_bind)
next
  case (Suc k)
  let ?b = "g_DATA_BLOCK_BITS c"
  have n: "g_NUM_MEMORIES c = 2 ^ Suc k" "?b + Suc k \<le> g_MEMORY_SIZE_BITS c"
    using assms(1) Suc unfolding config_ok_def by simp_all
  with assms(2) obtain d where "bitSelect (int ?b) (int (?b + k)) a = Some d"
    "unat d = unat a div 2 ^ ?b mod 2 ^ Suc k"
    using bitSelect_Some [of ?b "?b + k" a] by auto
  moreover have "int ?b + int (Suc k) - 1 = int (?b + k)" by simp
  ultimately show ?thesis
    using n(1) by (simp only: map_Address_to_DirectoryNode_def Suc) (simp add: check_bind)
qed

lemma module_index_ok:
  assumes "config_ok c" "g_MEMORY_SIZE_BITS c < 64" "0 < g_DATA_BLOCK_BITS c" "unat a < g_MEMORY_SIZE_BYTES c"
  shows "memoryModuleIndex c a = Some (int (unat a div 2 ^ (g_DATA_BLOCK_BITS c + g_NUM_MEMORIES_BITS c)))"
proof -
  let ?s = "g_DATA_BLOCK_BITS c + g_NUM_MEMORIES_BITS c" and ?m = "g_MEMORY_SIZE_BITS c"
  have le: "?s \<le> ?m" and blocks: "g_MEMORY_MODULE_BLOCKS c = 2 ^ (?m - ?s)" and sz: "g_MEMORY_SIZE_BYTES c = 2 ^ ?m"
    using assms(1) by (simp_all add: config_ok_def)
  obtain r where r: "bitSelect (int ?s) ADDRESS_WIDTH a = Some r" "unat r = unat a div 2 ^ ?s"
    using bitSelect_top [of ?s a] le assms(2) by auto
  have "(2::nat) ^ (?m - ?s) * 2 ^ ?s = 2 ^ ?m" using le by (simp flip: power_add)
  then have lt: "unat r < 2 ^ (?m - ?s)"
    using assms(4) sz r(2) by (simp add: less_mult_imp_div_less)
  moreover have "(2::nat) ^ (?m - ?s) \<le> 2 ^ 63" using assms(2,3) by (intro power_increasing) auto
  ultimately have lt63: "unat r < 2 ^ 63" by linarith
  have si: "sint r = int (unat r)"
  proof -
    have "sint r = signed_take_bit 63 (int (unat r))" by (simp add: sint_uint)
    also have "\<dots> = int (unat r)"
    proof (rule signed_take_bit_int_eq_self)
      have "int (unat r) < int (2 ^ 63)" using lt63 by (simp only: of_nat_less_iff)
      then show "int (unat r) < 2 ^ 63" by (simp only: of_nat_power of_nat_numeral)
      have "- (2 ^ 63) \<le> (0::int)" by simp
      also have "0 \<le> int (unat r)" by (rule of_nat_0_le_iff)
      finally show "- (2 ^ 63) \<le> int (unat r)" .
    qed
    finally show ?thesis .
  qed
  have "int (unat r) < 2 ^ (?m - ?s)" using lt by (metis of_nat_less_iff of_nat_numeral of_nat_power)
  with r si blocks show ?thesis
    by (simp add: memoryModuleIndex_def check_bind Let_def flip: of_nat_add)
qed

text \<open>C32. Addresses are distributed over the memories without loss: for a configuration accepted by
  \<^verbatim>\<open>RubyConfig::init\<close> (block size above 1, memory below \<open>2 ^ 64\<close>) every address of the memory has a
  home directory and an index in it, both in range, and together with the offset in the block they
  give the address back.\<close>

theorem address_home_roundtrip:
  assumes "config_init m_CMP c0 = Some c" "0 < g_DATA_BLOCK_BITS c" "g_MEMORY_SIZE_BITS c < 63"
    "unat a < g_MEMORY_SIZE_BYTES c"
  shows "\<exists>d i f. map_Address_to_DirectoryNode c a = Some d \<and> memoryModuleIndex c a = Some (int i) \<and>
     getOffset c a = Some f \<and> d < g_NUM_MEMORIES c \<and> int i < g_MEMORY_MODULE_BLOCKS c \<and>
     unat f < g_DATA_BLOCK_BYTES c \<and>
     unat a = (i * g_NUM_MEMORIES c + d) * g_DATA_BLOCK_BYTES c + unat f"
proof -
  let ?b = "g_DATA_BLOCK_BITS c" and ?k = "g_NUM_MEMORIES_BITS c"
  have ok: "config_ok c" using assms(1)
    by (auto simp: config_init_def bind_Some_iff intro: init_derived_ok)
  then have p: "g_NUM_MEMORIES c = 2 ^ ?k" "g_DATA_BLOCK_BYTES c = 2 ^ ?b" "?b < 63"
    using assms(3) by (auto simp: config_ok_def)
  note d = directory_node_ok [OF ok, of a] and i = module_index_ok [OF ok _ assms(2,4)]
  obtain l f where f: "line_address c a = Some l" "getOffset c a = Some f" "unat l + unat f = unat a"
    "unat f < 2 ^ ?b"
    using line_offset_sum [OF assms(2) p(3), of a] by blast
  have l: "unat l = 2 ^ ?b * (unat a div 2 ^ ?b)"
    using line_address_Some [OF p(3), of a] f(1) by auto
  let ?x = "unat a div 2 ^ ?b"
  have "unat a div 2 ^ (?b + ?k) = ?x div 2 ^ ?k" by (simp add: power_add div_mult2_eq)
  moreover have "unat a = (?x div 2 ^ ?k * 2 ^ ?k + ?x mod 2 ^ ?k) * 2 ^ ?b + unat f"
    using f(3) l by (simp only: div_mult_mod_eq mult.commute [of ?x])
  moreover have "int (unat a div 2 ^ (?b + ?k)) < g_MEMORY_MODULE_BLOCKS c"
    using i assms(3) by (auto simp: memoryModuleIndex_def bind_Some_iff Let_def)
  ultimately show ?thesis
    using d i f p assms(3)
    by (intro exI [of _ "?x mod 2 ^ ?k"] exI [of _ "?x div 2 ^ ?k"] exI [of _ f]) simp
qed

theorem address_home_roundtrip_witness:
  "\<exists>c d i f. config_init True sample_config = Some c \<and> map_Address_to_DirectoryNode c 8776 = Some d \<and>
     memoryModuleIndex c 8776 = Some (int i) \<and> getOffset c 8776 = Some f"
proof -
  obtain c where c: "config_init True sample_config = Some c" "g_DATA_BLOCK_BITS c = 6" "g_MEMORY_SIZE_BITS c = 48"
    using sample_config_init by blast
  moreover have "config_ok c" using c(1) by (auto simp: config_init_def bind_Some_iff intro: init_derived_ok)
  then have "g_MEMORY_SIZE_BYTES c = 2 ^ 48" using c(3) by (simp add: config_ok_def)
  ultimately show ?thesis using address_home_roundtrip [OF c(1), of 8776] by auto
qed

end
