(* ===== verification/Node_Set.thy ===== *)
theory Node_Set
  imports Ruby_Prelude
begin

text \<open>
  Sets of nodes as bit vectors: \<^verbatim>\<open>ruby_clean/common/OptBigSet.C\<close> and \<^verbatim>\<open>.h\<close>, the implementation
  of class \<^verbatim>\<open>Set\<close> that \<^verbatim>\<open>Set.h\<close> selects, in its 64-bit variant. The array \<^verbatim>\<open>m_p_nArray\<close> is a list of
  64-bit words, whether it is allocated statically or dynamically; access outside it is undefined
  and aborts. Values of the C library's \<^verbatim>\<open>random()\<close> are an argument of \<^verbatim>\<open>addRandom\<close>.
\<close>

unbundle bit_operations_syntax

record bset =
  m_nSize :: nat
  m_nArray :: "64 word list"

definition array_len :: "nat \<Rightarrow> nat" where
  "array_len n = n div 64 + (if n mod 64 = 0 then 0 else 1)"

definition set_clear :: "bset \<Rightarrow> bset" where
  "set_clear s = s\<lparr>m_nArray := map (\<lambda>_. 0) (m_nArray s)\<rparr>"

definition set_setSize :: "nat \<Rightarrow> bset \<Rightarrow> bset" where
  "set_setSize n s = set_clear (s\<lparr>m_nSize := n, m_nArray := replicate (array_len n) 0\<rparr>)"

definition set_null :: bset where
  "set_null = \<lparr>m_nSize = 0, m_nArray = []\<rparr>"

definition set_new_default :: "nat \<Rightarrow> bset" where
  "set_new_default numberOfProcessors = set_setSize numberOfProcessors set_null"

definition set_new :: "nat \<Rightarrow> bset option" where
  "set_new n = do { check (0 < n); Some (set_setSize n set_null) }"

definition set_copy :: "bset \<Rightarrow> bset" where
  "set_copy obj = (let s = set_setSize (m_nSize obj) set_null in s\<lparr>m_nArray := m_nArray obj\<rparr>)"

definition set_assign :: "bset \<Rightarrow> bset \<Rightarrow> bset" where
  "set_assign s obj = (let s' = set_setSize (m_nSize obj) s in s'\<lparr>m_nArray := m_nArray obj\<rparr>)"

definition set_add :: "nat \<Rightarrow> bset \<Rightarrow> bset option" where
  "set_add index s = do {
     check (drop_bit 6 index < length (m_nArray s));
     Some (s\<lparr>m_nArray := (m_nArray s)[drop_bit 6 index :=
       m_nArray s ! drop_bit 6 index OR push_bit (index AND 63) 1]\<rparr>) }"

definition set_remove :: "nat \<Rightarrow> bset \<Rightarrow> bset option" where
  "set_remove index s = do {
     check (drop_bit 6 index < length (m_nArray s));
     Some (s\<lparr>m_nArray := (m_nArray s)[drop_bit 6 index :=
       m_nArray s ! drop_bit 6 index AND NOT (push_bit (index AND 63) 1)]\<rparr>) }"

definition set_isElement :: "nat \<Rightarrow> bset \<Rightarrow> bool option" where
  "set_isElement element s = do {
     check (drop_bit 6 element < length (m_nArray s));
     Some (m_nArray s ! drop_bit 6 element AND push_bit (element AND 63) 1 \<noteq> 0) }"

definition set_elementAt :: "nat \<Rightarrow> bset \<Rightarrow> nat option" where
  "set_elementAt index s = do { b \<leftarrow> set_isElement index s; Some (if b then 1 else 0) }"

definition set_addSet :: "bset \<Rightarrow> bset \<Rightarrow> bset option" where
  "set_addSet other s = do {
     check (m_nSize s = m_nSize other);
     Some (s\<lparr>m_nArray := map2 (OR) (m_nArray s) (m_nArray other)\<rparr>) }"

definition set_removeSet :: "bset \<Rightarrow> bset \<Rightarrow> bset option" where
  "set_removeSet other s = do {
     check (m_nSize s = m_nSize other);
     Some (s\<lparr>m_nArray := map2 (\<lambda>a b. a AND NOT b) (m_nArray s) (m_nArray other)\<rparr>) }"

definition set_OR :: "bset \<Rightarrow> bset \<Rightarrow> bset option" where
  "set_OR orSet s = do {
     result \<leftarrow> set_new (m_nSize s);
     check (m_nSize s = m_nSize orSet);
     Some (result\<lparr>m_nArray := map2 (OR) (m_nArray s) (m_nArray orSet)\<rparr>) }"

definition set_AND :: "bset \<Rightarrow> bset \<Rightarrow> bset option" where
  "set_AND andSet s = do {
     result \<leftarrow> set_new (m_nSize s);
     check (m_nSize s = m_nSize andSet);
     Some (result\<lparr>m_nArray := map2 (AND) (m_nArray s) (m_nArray andSet)\<rparr>) }"

text \<open>The loop that \<^verbatim>\<open>addRandom\<close> and \<^verbatim>\<open>broadcast\<close> share: clear the bits of the last word above the
  set size, one mask per iteration.\<close>

fun clear_top :: "nat \<Rightarrow> 64 word \<Rightarrow> 64 word \<Rightarrow> 64 word" where
  "clear_top 0 msk w = w"
| "clear_top (Suc k) msk w = clear_top k (signed_drop_bit 1 msk) (w AND msk)"

definition trim_last :: "bset \<Rightarrow> bset" where
  "trim_last s =
     (if m_nSize s mod 64 \<noteq> 0
      then s\<lparr>m_nArray := (m_nArray s)[length (m_nArray s) - 1 :=
             clear_top (64 - (m_nSize s AND 63)) 0x7FFFFFFFFFFFFFFF (m_nArray s ! (length (m_nArray s) - 1))]\<rparr>
      else s)"

definition set_addRandom :: "(64 word \<times> 64 word) list \<Rightarrow> bset \<Rightarrow> bset option" where
  "set_addRandom rnd s = do {
     check (length rnd = length (m_nArray s));
     Some (trim_last (s\<lparr>m_nArray := map2 (\<lambda>w (r1, r2). w OR (r1 XOR push_bit 4 r2)) (m_nArray s) rnd\<rparr>)) }"

definition set_broadcast :: "bset \<Rightarrow> bset" where
  "set_broadcast s = trim_last (s\<lparr>m_nArray := map (\<lambda>_. -1) (m_nArray s)\<rparr>)"

fun count_word :: "nat \<Rightarrow> 64 word \<Rightarrow> 64 word \<Rightarrow> nat" where
  "count_word 0 msk w = 0"
| "count_word (Suc k) msk w = (if w AND msk \<noteq> 0 then 1 else 0) + count_word k (push_bit 1 msk) w"

definition set_count :: "bset \<Rightarrow> nat" where
  "set_count s = sum_list (map (count_word 64 1) (m_nArray s))"

definition set_isEqual :: "bset \<Rightarrow> bset \<Rightarrow> bool option" where
  "set_isEqual other s = do {
     check (m_nSize s = m_nSize other);
     Some (list_all2 (=) (m_nArray s) (m_nArray other)) }"

fun low_bit :: "nat \<Rightarrow> nat \<Rightarrow> 64 word \<Rightarrow> nat option" where
  "low_bit 0 j x = None"
| "low_bit (Suc k) j x = (if x AND 1 \<noteq> 0 then Some j else low_bit k (j + 1) (signed_drop_bit 1 x))"

fun smallest_from :: "nat \<Rightarrow> 64 word list \<Rightarrow> nat option" where
  "smallest_from i [] = None"
| "smallest_from i (w # ws) =
     (if w \<noteq> 0 then do { j \<leftarrow> low_bit 64 0 w; Some (64 * i + j) } else smallest_from (i + 1) ws)"

definition set_smallestElement :: "bset \<Rightarrow> nat option" where
  "set_smallestElement s = do {
     check (0 < set_count s);
     smallest_from 0 (m_nArray s) }"

fun low_bits_set :: "nat \<Rightarrow> 64 word \<Rightarrow> 64 word \<Rightarrow> bool" where
  "low_bits_set 0 msk w = True"
| "low_bits_set (Suc k) msk w = (if msk AND w = 0 then False else low_bits_set k (push_bit 1 msk) w)"

definition set_isBroadcast :: "bset \<Rightarrow> bool" where
  "set_isBroadcast s \<longleftrightarrow>
     list_all (\<lambda>w. w = -1) (take (if m_nSize s mod 64 = 0 then length (m_nArray s) else length (m_nArray s) - 1) (m_nArray s)) \<and>
     low_bits_set (m_nSize s mod 64) 1 (m_nArray s ! (length (m_nArray s) - 1))"

definition set_isEmpty :: "bset \<Rightarrow> bool" where
  "set_isEmpty s \<longleftrightarrow> list_all (\<lambda>w. w = 0) (m_nArray s)"

definition set_intersectionIsNotEmpty :: "bset \<Rightarrow> bset \<Rightarrow> bool option" where
  "set_intersectionIsNotEmpty other s = do {
     check (length (m_nArray s) \<le> length (m_nArray other));
     Some (\<not> list_all (\<lambda>(a, b). a AND b = 0) (zip (m_nArray s) (m_nArray other))) }"

definition set_intersectionIsEmpty :: "bset \<Rightarrow> bset \<Rightarrow> bool option" where
  "set_intersectionIsEmpty other s = do {
     check (length (m_nArray s) \<le> length (m_nArray other));
     Some (list_all (\<lambda>(a, b). a AND b = 0) (zip (m_nArray s) (m_nArray other))) }"

definition set_isSuperset :: "bset \<Rightarrow> bset \<Rightarrow> bool option" where
  "set_isSuperset test s = do {
     check (m_nSize s = m_nSize test);
     Some (list_all (\<lambda>(t, m). (t AND m) OR NOT t = -1) (zip (m_nArray test) (m_nArray s))) }"

definition set_isSubset :: "bset \<Rightarrow> bset \<Rightarrow> bool option" where
  "set_isSubset test s = set_isSuperset s test"

subsection \<open>Abstraction to sets of numbers\<close>

definition set_of :: "bset \<Rightarrow> nat set" where
  "set_of s = {i. i div 64 < length (m_nArray s) \<and> bit (m_nArray s ! (i div 64)) (i mod 64)}"

definition bset_inv :: "bset \<Rightarrow> bool" where
  "bset_inv s \<longleftrightarrow> length (m_nArray s) = array_len (m_nSize s) \<and> set_of s \<subseteq> {..< m_nSize s}"

lemma index_shift: "drop_bit 6 (i::nat) = i div 64" "(i::nat) AND 63 = i mod 64"
proof -
  show "drop_bit 6 (i::nat) = i div 64" by (simp add: drop_bit_eq_div)
  have "(i::nat) AND mask 6 = i mod 64" by (simp only: take_bit_eq_mask [symmetric] take_bit_eq_mod) simp
  then show "(i::nat) AND 63 = i mod 64" by (simp add: mask_eq_exp_minus_1)
qed

lemma array_len_bound: "i < n \<Longrightarrow> i div 64 < array_len n"
proof -
  assume i: "i < n"
  have "n = n div 64 * 64 + n mod 64" by simp
  with i show ?thesis
    unfolding array_len_def by (intro less_mult_imp_div_less) (auto simp: algebra_simps)
qed

lemma push_bit_1_neq_0: "j < 64 \<Longrightarrow> push_bit j (1 :: 64 word) \<noteq> 0"
  by (auto simp: bit_eq_iff bit_simps)

lemma bit_test: "j < 64 \<Longrightarrow> (w AND push_bit j 1 \<noteq> 0) = bit w j" for w :: "64 word"
proof -
  assume j: "j < 64"
  have "w AND push_bit j 1 = (if bit w j then push_bit j 1 else 0)"
    by (intro bit_word_eqI) (auto simp: bit_simps)
  with push_bit_1_neq_0 [OF j] show ?thesis by simp
qed

lemma set_of_iff: "i \<in> set_of s \<longleftrightarrow> i div 64 < length (m_nArray s) \<and> bit (m_nArray s ! (i div 64)) (i mod 64)"
  by (simp add: set_of_def)

lemma index_eq: "(i::nat) div 64 = j div 64 \<Longrightarrow> i mod 64 = j mod 64 \<Longrightarrow> i = j"
  by (metis div_mult_mod_eq)

lemma set_setSize_ok: "bset_inv (set_setSize n s)" "set_of (set_setSize n s) = {}" "m_nSize (set_setSize n s) = n"
  by (auto simp: bset_inv_def set_setSize_def set_clear_def set_of_def)

lemma set_clear_ok: "bset_inv s \<Longrightarrow> bset_inv (set_clear s) \<and> set_of (set_clear s) = {}"
  by (auto simp: bset_inv_def set_clear_def set_of_def)

lemma set_copy_ok: "bset_inv s \<Longrightarrow> set_copy s = s"
  by (simp add: set_copy_def set_setSize_def set_clear_def set_null_def)

lemma set_assign_ok: "set_assign s t = t"
  by (simp add: set_assign_def set_setSize_def set_clear_def)

lemma set_add_ok:
  assumes "bset_inv s" "i < m_nSize s"
  shows "\<exists>s'. set_add i s = Some s' \<and> bset_inv s' \<and> m_nSize s' = m_nSize s \<and> set_of s' = insert i (set_of s)"
proof -
  have l: "i div 64 < length (m_nArray s)" using assms array_len_bound by (simp add: bset_inv_def)
  let ?s = "s\<lparr>m_nArray := (m_nArray s)[i div 64 := m_nArray s ! (i div 64) OR push_bit (i mod 64) 1]\<rparr>"
  have "x \<in> set_of ?s \<longleftrightarrow> x \<in> insert i (set_of s)" for x
    using l index_eq [of x i]
    by (cases "x div 64 = i div 64"; cases "x mod 64 = i mod 64")
      (auto simp: set_of_iff nth_list_update bit_simps)
  then have "set_of ?s = insert i (set_of s)" by blast
  then show ?thesis
    using l assms by (simp add: set_add_def index_shift check_bind bset_inv_def)
qed

lemma set_remove_ok:
  assumes "bset_inv s" "i < m_nSize s"
  shows "\<exists>s'. set_remove i s = Some s' \<and> bset_inv s' \<and> m_nSize s' = m_nSize s \<and> set_of s' = set_of s - {i}"
proof -
  have l: "i div 64 < length (m_nArray s)" using assms array_len_bound by (simp add: bset_inv_def)
  let ?s = "s\<lparr>m_nArray := (m_nArray s)[i div 64 := m_nArray s ! (i div 64) AND NOT (push_bit (i mod 64) 1)]\<rparr>"
  have "x \<in> set_of ?s \<longleftrightarrow> x \<in> set_of s - {i}" for x
    using l index_eq [of x i]
    by (cases "x div 64 = i div 64"; cases "x mod 64 = i mod 64")
      (auto simp: set_of_iff nth_list_update bit_simps)
  then have "set_of ?s = set_of s - {i}" by blast
  then show ?thesis
    using l assms by (auto simp: set_remove_def index_shift check_bind bset_inv_def)
qed

lemma set_isElement_ok:
  assumes "bset_inv s" "i < m_nSize s"
  shows "set_isElement i s = Some (i \<in> set_of s)"
  using assms array_len_bound [OF assms(2)] bit_test [of "i mod 64"]
  unfolding set_isElement_def index_shift check_bind bset_inv_def set_of_iff by simp

lemma set_binop_ok:
  assumes "bset_inv s" "bset_inv t" "m_nSize s = m_nSize t"
    and "\<And>a b j. bit (f a b) j = (j < 64 \<and> g (bit a j) (bit b j))" "\<not> g False False"
  shows "bset_inv (s\<lparr>m_nArray := map2 f (m_nArray s) (m_nArray t)\<rparr>) \<and>
    set_of (s\<lparr>m_nArray := map2 f (m_nArray s) (m_nArray t)\<rparr>) = {i. g (i \<in> set_of s) (i \<in> set_of t)}"
proof -
  have l: "length (m_nArray s) = length (m_nArray t)" using assms(1-3) by (simp add: bset_inv_def)
  have e: "set_of (s\<lparr>m_nArray := map2 f (m_nArray s) (m_nArray t)\<rparr>) = {i. g (i \<in> set_of s) (i \<in> set_of t)}"
  proof (rule set_eqI)
    fix i
    show "i \<in> set_of (s\<lparr>m_nArray := map2 f (m_nArray s) (m_nArray t)\<rparr>) \<longleftrightarrow>
        i \<in> {i. g (i \<in> set_of s) (i \<in> set_of t)}"
      using l assms(4,5) by (cases "i div 64 < length (m_nArray s)") (simp_all add: set_of_iff)
  qed
  moreover have "{i. g (i \<in> set_of s) (i \<in> set_of t)} \<subseteq> set_of s \<union> set_of t"
  proof
    fix i assume "i \<in> {i. g (i \<in> set_of s) (i \<in> set_of t)}"
    with assms(5) show "i \<in> set_of s \<union> set_of t"
      by (cases "i \<in> set_of s"; cases "i \<in> set_of t") simp_all
  qed
  moreover have "set_of s \<union> set_of t \<subseteq> {..< m_nSize s}" "length (m_nArray s) = array_len (m_nSize s)"
    using assms(1-3) by (simp_all add: bset_inv_def)
  ultimately show ?thesis unfolding bset_inv_def using l by simp blast
qed

lemma set_addSet_ok:
  assumes "bset_inv s" "bset_inv t" "m_nSize s = m_nSize t"
  shows "\<exists>s'. set_addSet t s = Some s' \<and> bset_inv s' \<and> m_nSize s' = m_nSize s \<and> set_of s' = set_of s \<union> set_of t"
proof -
  have "bset_inv (s\<lparr>m_nArray := map2 (OR) (m_nArray s) (m_nArray t)\<rparr>) \<and>
    set_of (s\<lparr>m_nArray := map2 (OR) (m_nArray s) (m_nArray t)\<rparr>) = {i. i \<in> set_of s \<or> i \<in> set_of t}"
    by (rule set_binop_ok [OF assms]) (auto simp: bit_simps dest: bit_imp_le_length)
  with assms(3) show ?thesis by (auto simp: set_addSet_def check_bind)
qed

lemma set_removeSet_ok:
  assumes "bset_inv s" "bset_inv t" "m_nSize s = m_nSize t"
  shows "\<exists>s'. set_removeSet t s = Some s' \<and> bset_inv s' \<and> m_nSize s' = m_nSize s \<and> set_of s' = set_of s - set_of t"
proof -
  let ?f = "\<lambda>a b. a AND NOT b"
  have "bset_inv (s\<lparr>m_nArray := map2 ?f (m_nArray s) (m_nArray t)\<rparr>) \<and>
    set_of (s\<lparr>m_nArray := map2 ?f (m_nArray s) (m_nArray t)\<rparr>) = {i. i \<in> set_of s \<and> \<not> i \<in> set_of t}"
    by (rule set_binop_ok [OF assms]) (auto simp: bit_simps dest: bit_imp_le_length)
  with assms(3) show ?thesis by (auto simp: set_removeSet_def check_bind)
qed

lemma set_new_ok: "0 < n \<Longrightarrow> \<exists>s. set_new n = Some s \<and> bset_inv s \<and> m_nSize s = n \<and> set_of s = {}"
  by (simp add: set_new_def check_bind set_setSize_ok)

lemma set_new_update:
  "set_new (m_nSize s) = Some r \<Longrightarrow> r\<lparr>m_nArray := x\<rparr> = s\<lparr>m_nArray := x\<rparr>"
  by (auto simp: set_new_def check_bind set_setSize_def set_clear_def set_null_def split: if_splits)

lemma set_OR_ok:
  assumes "bset_inv s" "bset_inv t" "m_nSize s = m_nSize t" "0 < m_nSize s"
  shows "\<exists>s'. set_OR t s = Some s' \<and> bset_inv s' \<and> m_nSize s' = m_nSize s \<and> set_of s' = set_of s \<union> set_of t"
proof -
  obtain r where r: "set_new (m_nSize s) = Some r" using set_new_ok [OF assms(4)] by blast
  with set_addSet_ok [OF assms(1-3)] assms(3) set_new_update [OF r] show ?thesis
    by (simp add: set_OR_def set_addSet_def check_bind)
qed

lemma set_AND_ok:
  assumes "bset_inv s" "bset_inv t" "m_nSize s = m_nSize t" "0 < m_nSize s"
  shows "\<exists>s'. set_AND t s = Some s' \<and> bset_inv s' \<and> m_nSize s' = m_nSize s \<and> set_of s' = set_of s \<inter> set_of t"
proof -
  obtain r where r: "set_new (m_nSize s) = Some r" using set_new_ok [OF assms(4)] by blast
  have "bset_inv (s\<lparr>m_nArray := map2 (AND) (m_nArray s) (m_nArray t)\<rparr>) \<and>
    set_of (s\<lparr>m_nArray := map2 (AND) (m_nArray s) (m_nArray t)\<rparr>) = {i. i \<in> set_of s \<and> i \<in> set_of t}"
    by (rule set_binop_ok [OF assms(1-3)]) (auto simp: bit_simps dest: bit_imp_le_length)
  with r assms(3) set_new_update [OF r] show ?thesis
    by (auto simp: set_AND_def check_bind)
qed

subsection \<open>Clearing the unused bits\<close>

lemma signed_drop_mask: "p < 64 \<Longrightarrow> signed_drop_bit 1 (mask p :: 64 word) = mask (p - 1)"
  by (intro bit_word_eqI) (auto simp: bit_simps)

lemma clear_top_mask:
  assumes "k \<le> p" "p < 64"
  shows "clear_top (Suc k) (mask p) w = take_bit (p - k) w"
  using assms
proof (induction k arbitrary: p w)
  case 0
  then show ?case by (simp add: take_bit_eq_mask)
next
  case (Suc k)
  have "clear_top (Suc (Suc k)) (mask p) w = clear_top (Suc k) (mask (p - 1)) (w AND mask p)"
    using signed_drop_mask [OF Suc.prems(2)] by simp
  also have "\<dots> = take_bit (p - 1 - k) (w AND mask p)" using Suc.prems by (intro Suc.IH) auto
  also have "\<dots> = take_bit (p - Suc k) w"
    using Suc.prems by (simp add: min_def flip: take_bit_eq_mask)
  finally show ?case .
qed

lemma less_div_mod:
  "(i::nat) < n \<longleftrightarrow> i div 64 < n div 64 \<or> i div 64 = n div 64 \<and> i mod 64 < n mod 64"
proof -
  have aux: "64 * a + b < 64 * c + d \<longleftrightarrow> a < c \<or> a = c \<and> b < d" if "b < 64" "d < 64" for a b c d :: nat
    using that by auto
  show ?thesis
    using aux [of "i mod 64" "n mod 64" "i div 64" "n div 64"] by simp
qed

lemma trim_last_ok:
  assumes "length (m_nArray s) = array_len (m_nSize s)"
  shows "bset_inv (trim_last s)" "m_nSize (trim_last s) = m_nSize s"
    "set_of (trim_last s) = set_of s \<inter> {..< m_nSize s}"
proof -
  let ?n = "m_nSize s" and ?a = "m_nArray s"
  have "set_of (trim_last s) = set_of s \<inter> {..< ?n}"
  proof (cases "?n mod 64 = 0")
    case True
    then have "i < ?n" if "i div 64 < array_len ?n" for i
      using that by (auto simp: array_len_def)
    with True assms show ?thesis by (auto simp: trim_last_def set_of_iff)
  next
    case False
    then have len: "length ?a = ?n div 64 + 1" using assms by (simp add: array_len_def)
    have m: "(0x7FFFFFFFFFFFFFFF :: 64 word) = mask 63" by (simp add: mask_eq_exp_minus_1)
    have r: "?n mod 64 < 64" "0 < ?n mod 64" using False by auto
    then have k: "64 - ?n mod 64 = Suc (63 - ?n mod 64)" by linarith
    have "clear_top (64 - (?n AND 63)) 0x7FFFFFFFFFFFFFFF (?a ! (?n div 64)) = take_bit (?n mod 64) (?a ! (?n div 64))"
      unfolding index_shift m k using clear_top_mask [of "63 - ?n mod 64" 63] r by simp
    then have t: "trim_last s = s\<lparr>m_nArray := ?a[?n div 64 := take_bit (?n mod 64) (?a ! (?n div 64))]\<rparr>"
      using False len by (simp add: trim_last_def)
    have "i \<in> set_of (trim_last s) \<longleftrightarrow> i \<in> set_of s \<and> i < ?n" for i
      unfolding t less_div_mod [of i ?n] set_of_iff
      using len by (cases "i div 64 = ?n div 64") (auto simp: bit_take_bit_iff)
    then show ?thesis by blast
  qed
  then show "set_of (trim_last s) = set_of s \<inter> {..< ?n}" .
  then show "bset_inv (trim_last s)" using assms by (auto simp: bset_inv_def trim_last_def)
  show "m_nSize (trim_last s) = ?n" by (simp add: trim_last_def)
qed

lemma set_broadcast_ok:
  assumes "bset_inv s"
  shows "bset_inv (set_broadcast s)" "m_nSize (set_broadcast s) = m_nSize s"
    "set_of (set_broadcast s) = {..< m_nSize s}"
proof -
  let ?s = "s\<lparr>m_nArray := map (\<lambda>_. -1) (m_nArray s)\<rparr>"
  have l: "length (m_nArray ?s) = array_len (m_nSize ?s)" using assms by (simp add: bset_inv_def)
  note t = trim_last_ok [OF l]
  have "{..< m_nSize s} \<subseteq> set_of ?s"
    using assms by (auto simp: set_of_iff bset_inv_def array_len_bound)
  with t show "bset_inv (set_broadcast s)" "m_nSize (set_broadcast s) = m_nSize s"
    "set_of (set_broadcast s) = {..< m_nSize s}"
    by (auto simp: set_broadcast_def)
qed

lemma set_addRandom_ok:
  assumes "bset_inv s" "length rnd = length (m_nArray s)"
  shows "\<exists>s'. set_addRandom rnd s = Some s' \<and> bset_inv s' \<and> m_nSize s' = m_nSize s \<and> set_of s \<subseteq> set_of s'"
proof -
  let ?s = "s\<lparr>m_nArray := map2 (\<lambda>w (r1, r2). w OR (r1 XOR push_bit 4 r2)) (m_nArray s) rnd\<rparr>"
  have l: "length (m_nArray ?s) = array_len (m_nSize ?s)" using assms by (simp add: bset_inv_def)
  have "set_of s \<subseteq> set_of ?s" using assms(2) by (auto simp: set_of_iff bit_simps split: prod.splits)
  with trim_last_ok [OF l] assms show ?thesis by (auto simp: set_addRandom_def check_bind bset_inv_def)
qed

subsection \<open>Counting and searching\<close>

lemma count_word_card:
  assumes "j + k \<le> 64"
  shows "count_word k (push_bit j 1) w = card {i. j \<le> i \<and> i < j + k \<and> bit w i}"
  using assms
proof (induction k arbitrary: j)
  case (Suc k)
  have "{i. j \<le> i \<and> i < j + Suc k \<and> bit w i} =
      (if bit w j then {j} else {}) \<union> {i. j + 1 \<le> i \<and> i < j + 1 + k \<and> bit w i}"
    by (auto simp: le_less Suc_le_eq)
  moreover have "finite {i. j + 1 \<le> i \<and> i < j + 1 + k \<and> bit w i}" by simp
  moreover have "count_word k (push_bit (j + 1) 1) w = card {i. j + 1 \<le> i \<and> i < j + 1 + k \<and> bit w i}"
    using Suc.prems by (intro Suc.IH) simp
  moreover have "count_word (Suc k) (push_bit j 1) w = (if bit w j then 1 else 0) + count_word k (push_bit (j + 1) 1) w"
    using Suc.prems bit_test [of j w] by (simp only: count_word.simps push_bit_push_bit add.commute [of j])
  ultimately show ?case by simp
qed simp

definition bits_of :: "64 word list \<Rightarrow> nat set" where
  "bits_of ws = {i. i div 64 < length ws \<and> bit (ws ! (i div 64)) (i mod 64)}"

lemma set_of_bits: "set_of s = bits_of (m_nArray s)"
  by (simp add: set_of_def bits_of_def)

lemma bits_of_Cons: "bits_of (w # ws) = {j. j < 64 \<and> bit w j} \<union> (\<lambda>i. i + 64) ` bits_of ws"
proof (rule set_eqI)
  fix i :: nat
  show "i \<in> bits_of (w # ws) \<longleftrightarrow> i \<in> {j. j < 64 \<and> bit w j} \<union> (\<lambda>i. i + 64) ` bits_of ws"
  proof (cases "i < 64")
    case True
    then show ?thesis by (auto simp: bits_of_def)
  next
    case False
    then obtain k where "i = k + 64" by (metis add.commute le_Suc_ex linorder_not_less)
    moreover have "(k + 64) div 64 = Suc (k div 64)" by simp
    ultimately show ?thesis by (auto simp: bits_of_def image_iff)
  qed
qed

lemma bits_of_Nil [simp]: "bits_of [] = {}"
  by (simp add: bits_of_def)

lemma finite_bits_of [simp]: "finite (bits_of ws)"
  by (induction ws) (simp_all add: bits_of_Cons)

lemma card_bits_of: "card (bits_of ws) = sum_list (map (count_word 64 1) ws)"
proof (induction ws)
  case (Cons w ws)
  have "count_word 64 1 w = card {j. j < 64 \<and> bit w j}"
    using count_word_card [of 0 64 w] by simp
  moreover have "card (bits_of (w # ws)) = card {j. j < 64 \<and> bit w j} + card ((\<lambda>i. i + 64) ` bits_of ws)"
    unfolding bits_of_Cons by (rule card_Un_disjoint) auto
  moreover have "card ((\<lambda>i. i + 64) ` bits_of ws) = card (bits_of ws)"
    by (rule card_image) (simp add: inj_on_def)
  ultimately show ?case using Cons.IH by simp
qed simp

lemma set_count_ok: "set_count s = card (set_of s)"
  by (simp add: set_count_def set_of_bits card_bits_of)

lemma finite_set_of [simp]: "finite (set_of s)"
  by (simp add: set_of_bits)

lemma word_zero_bits: "(w :: 64 word) = 0 \<longleftrightarrow> {j. j < 64 \<and> bit w j} = {}"
  by (auto simp: bit_eq_iff dest: bit_imp_le_length)

lemma set_isEmpty_ok: "set_isEmpty s \<longleftrightarrow> set_of s = {}"
proof -
  have "list_all (\<lambda>w. w = 0) ws \<longleftrightarrow> bits_of ws = {}" for ws
    by (induction ws) (simp_all add: bits_of_Cons word_zero_bits)
  then show ?thesis by (simp add: set_isEmpty_def set_of_bits)
qed

lemma bit_signed_shift: "bit (signed_drop_bit j (w :: 64 word)) 0 = bit w j" if "j < 64"
  using that by (simp add: bit_simps min_def)

lemma low_bit_ok:
  assumes "j + k = 64" "bit w m" "j \<le> m" "m < 64" "\<forall>i < m. \<not> bit w i"
  shows "low_bit k j (signed_drop_bit j w) = Some m"
  using assms
proof (induction k arbitrary: j)
  case (Suc k)
  have t: "signed_drop_bit j w AND 1 \<noteq> 0 \<longleftrightarrow> bit w j"
    using bit_test [of 0 "signed_drop_bit j w"] bit_signed_shift [of j w] Suc.prems by simp
  show ?case
  proof (cases "m = j")
    case True
    with t Suc.prems show ?thesis by simp
  next
    case False
    moreover have "signed_drop_bit 1 (signed_drop_bit j w) = signed_drop_bit (j + 1) w"
      by (simp add: signed_drop_bit_signed_drop_bit add.commute)
    ultimately show ?thesis using t Suc.prems Suc.IH [of "j + 1"] by simp
  qed
qed simp

lemma low_bit_min:
  assumes "bit w m" "m < 64" "\<forall>i < m. \<not> bit w i"
  shows "low_bit 64 0 w = Some m"
proof -
  have "low_bit 64 0 (signed_drop_bit 0 w) = Some m"
    using assms by (intro low_bit_ok) simp_all
  then show ?thesis by (simp only: signed_drop_bit_0)
qed

lemma smallest_from_ok:
  assumes "bits_of ws \<noteq> {}"
  shows "smallest_from i ws = Some (64 * i + Min (bits_of ws))"
  using assms
proof (induction ws arbitrary: i)
  case (Cons w ws)
  show ?case
  proof (cases "w = 0")
    case True
    then have e: "bits_of (w # ws) = (\<lambda>i. i + 64) ` bits_of ws" by (simp add: bits_of_Cons)
    then have "Min (bits_of (w # ws)) = Min (bits_of ws) + 64"
      using Cons.prems mono_Min_commute [of "\<lambda>i::nat. i + 64" "bits_of ws"] by (simp add: mono_def)
    with True e Cons show ?thesis by simp
  next
    case False
    let ?b = "{j. j < 64 \<and> bit w j}"
    have ne: "?b \<noteq> {}" "finite ?b" using False by (simp_all add: word_zero_bits)
    then have m: "Min ?b < 64" "bit w (Min ?b)" using Min_in [of ?b] by auto
    have "\<forall>i < Min ?b. \<not> bit w i"
    proof (intro allI impI notI)
      fix i assume "i < Min ?b" "bit w i"
      then have "i \<in> ?b" using m(1) by simp
      from Min_le [OF ne(2) this] \<open>i < Min ?b\<close> show False by simp
    qed
    with m have "low_bit 64 0 w = Some (Min ?b)" by (intro low_bit_min)
    moreover have "Min (bits_of (w # ws)) = Min ?b"
    proof (rule Min_eqI)
      fix y assume "y \<in> bits_of (w # ws)"
      then consider "y \<in> ?b" | "64 \<le> y" by (auto simp: bits_of_Cons)
      then show "Min ?b \<le> y" using Min_le [OF ne(2)] m(1) by cases auto
    next
      show "Min ?b \<in> bits_of (w # ws)" unfolding bits_of_Cons using m by blast
    qed simp
    ultimately show ?thesis using False by (simp only: smallest_from.simps not_False_eq_True if_True Option.bind.simps)
  qed
qed simp

lemma set_smallestElement_ok:
  "set_of s \<noteq> {} \<Longrightarrow> set_smallestElement s = Some (Min (set_of s))"
  using smallest_from_ok [of "m_nArray s" 0]
  by (simp add: set_smallestElement_def check_bind set_count_ok set_of_bits card_gt_0_iff)

subsection \<open>Predicates\<close>

lemma bits_of_all2:
  assumes "length ws = length vs" and "\<And>w v. P w v \<longleftrightarrow> (\<forall>j < 64. R (bit w j) (bit v j))"
  shows "list_all (\<lambda>(w, v). P w v) (zip ws vs) \<longleftrightarrow> (\<forall>i < 64 * length ws. R (i \<in> bits_of ws) (i \<in> bits_of vs))"
proof -
  have "list_all (\<lambda>(w, v). P w v) (zip ws vs) \<longleftrightarrow> (\<forall>k < length ws. \<forall>j < 64. R (bit (ws ! k) j) (bit (vs ! k) j))"
    using assms by (auto simp: list_all_length)
  also have "\<dots> \<longleftrightarrow> (\<forall>i < 64 * length ws. R (bit (ws ! (i div 64)) (i mod 64)) (bit (vs ! (i div 64)) (i mod 64)))"
  proof safe
    fix k j :: nat
    assume a: "\<forall>i < 64 * length ws. R (bit (ws ! (i div 64)) (i mod 64)) (bit (vs ! (i div 64)) (i mod 64))"
      and k: "k < length ws" "j < 64"
    have e: "(64 * k + j) div 64 = k" "(64 * k + j) mod 64 = j" "64 * k + j < 64 * length ws"
      using k by simp_all
    show "R (bit (ws ! k) j) (bit (vs ! k) j)" using a [rule_format, OF e(3)] by (simp only: e)
  qed (simp add: less_mult_imp_div_less mult.commute)
  also have "\<dots> \<longleftrightarrow> (\<forall>i < 64 * length ws. R (i \<in> bits_of ws) (i \<in> bits_of vs))"
    using assms(1) by (auto simp: bits_of_def less_mult_imp_div_less mult.commute)
  finally show ?thesis .
qed

lemma bset_len: "bset_inv s \<Longrightarrow> bset_inv t \<Longrightarrow> m_nSize s = m_nSize t \<Longrightarrow> length (m_nArray s) = length (m_nArray t)"
  by (simp add: bset_inv_def)

lemma bits_of_bound: "i \<in> bits_of ws \<Longrightarrow> i < 64 * length ws"
  by (auto simp: bits_of_def)

lemma set_isSuperset_ok:
  assumes "bset_inv s" "bset_inv t" "m_nSize s = m_nSize t"
  shows "set_isSuperset t s = Some (set_of t \<subseteq> set_of s)"
proof -
  have "(w AND v) OR NOT w = -1 \<longleftrightarrow> (\<forall>j < 64. bit w j \<longrightarrow> bit v j)" for w v :: "64 word"
    by (auto simp: bit_eq_iff bit_simps)
  then have "list_all (\<lambda>(w, v). (w AND v) OR NOT w = -1) (zip (m_nArray t) (m_nArray s)) \<longleftrightarrow>
      (\<forall>i < 64 * length (m_nArray t). i \<in> bits_of (m_nArray t) \<longrightarrow> i \<in> bits_of (m_nArray s))"
    using bset_len [OF assms] by (intro bits_of_all2) simp_all
  also have "\<dots> \<longleftrightarrow> set_of t \<subseteq> set_of s" using bits_of_bound by (auto simp: set_of_bits)
  finally show ?thesis using assms(3) by (simp add: set_isSuperset_def check_bind)
qed

lemma set_isEqual_ok:
  assumes "bset_inv s" "bset_inv t" "m_nSize s = m_nSize t"
  shows "set_isEqual t s = Some (set_of s = set_of t)"
proof -
  have l: "length (m_nArray s) = length (m_nArray t)" by (rule bset_len [OF assms])
  have "list_all (\<lambda>(w, v). w = v) (zip (m_nArray s) (m_nArray t)) \<longleftrightarrow>
      (\<forall>i < 64 * length (m_nArray s). i \<in> bits_of (m_nArray s) \<longleftrightarrow> i \<in> bits_of (m_nArray t))"
    using l by (intro bits_of_all2) (auto simp: bit_eq_iff)
  also have "\<dots> \<longleftrightarrow> set_of s = set_of t" using bits_of_bound l by (fastforce simp: set_of_bits)
  finally show ?thesis
    using assms(3) l by (simp add: set_isEqual_def check_bind list_all2_iff list_all_iff)
qed

lemma set_intersection_ok:
  assumes "bset_inv s" "bset_inv t" "m_nSize s = m_nSize t"
  shows "set_intersectionIsEmpty t s = Some (set_of s \<inter> set_of t = {})"
    "set_intersectionIsNotEmpty t s = Some (set_of s \<inter> set_of t \<noteq> {})"
proof -
  have l: "length (m_nArray s) = length (m_nArray t)" by (rule bset_len [OF assms])
  have "w AND v = 0 \<longleftrightarrow> (\<forall>j < 64. \<not> (bit w j \<and> bit v j))" for w v :: "64 word"
    by (auto simp: bit_eq_iff bit_simps dest: bit_imp_le_length)
  then have "list_all (\<lambda>(w, v). w AND v = 0) (zip (m_nArray s) (m_nArray t)) \<longleftrightarrow>
      (\<forall>i < 64 * length (m_nArray s). \<not> (i \<in> bits_of (m_nArray s) \<and> i \<in> bits_of (m_nArray t)))"
    using l by (intro bits_of_all2) auto
  also have "\<dots> \<longleftrightarrow> set_of s \<inter> set_of t = {}" using bits_of_bound by (auto simp: set_of_bits)
  finally show "set_intersectionIsEmpty t s = Some (set_of s \<inter> set_of t = {})"
    "set_intersectionIsNotEmpty t s = Some (set_of s \<inter> set_of t \<noteq> {})"
    using l by (simp_all add: set_intersectionIsEmpty_def set_intersectionIsNotEmpty_def check_bind)
qed

lemma low_bits_set_ok:
  assumes "j + k \<le> 64"
  shows "low_bits_set k (push_bit j 1) w \<longleftrightarrow> (\<forall>i. j \<le> i \<and> i < j + k \<longrightarrow> bit w i)"
  using assms
proof (induction k arbitrary: j)
  case (Suc k)
  have t: "push_bit j 1 AND w = 0 \<longleftrightarrow> \<not> bit w j"
    using bit_test [of j w] Suc.prems by (metis and.commute add_Suc_right less_add_Suc1 less_le_trans)
  have "low_bits_set (Suc k) (push_bit j 1) w \<longleftrightarrow> bit w j \<and> low_bits_set k (push_bit (j + 1) 1) w"
    unfolding low_bits_set.simps t push_bit_push_bit add.commute [of 1 j] by simp
  also have "\<dots> \<longleftrightarrow> bit w j \<and> (\<forall>i. j + 1 \<le> i \<and> i < j + 1 + k \<longrightarrow> bit w i)"
    using Suc.IH [of "j + 1"] Suc.prems by simp
  also have "\<dots> \<longleftrightarrow> (\<forall>i. j \<le> i \<and> i < j + Suc k \<longrightarrow> bit w i)"
    by (metis Suc_eq_plus1 add_Suc add_Suc_right le_neq_implies_less le_refl less_add_same_cancel1 less_eq_Suc_le zero_less_Suc less_imp_le_nat)
  finally show ?case .
qed auto

lemma all_ones: "(w :: 64 word) = -1 \<longleftrightarrow> (\<forall>j < 64. bit w j)"
  by (auto simp: bit_eq_iff)

lemma set_isBroadcast_ok:
  assumes "bset_inv s"
  shows "set_isBroadcast s \<longleftrightarrow> set_of s = {..< m_nSize s}"
proof -
  let ?n = "m_nSize s" and ?a = "m_nArray s"
  have len: "length ?a = ?n div 64 + (if ?n mod 64 = 0 then 0 else 1)"
    using assms by (simp add: bset_inv_def array_len_def)
  then have tk: "(if ?n mod 64 = 0 then length ?a else length ?a - 1) = ?n div 64" by simp
  have full: "list_all (\<lambda>w. w = -1) (take (?n div 64) ?a) \<longleftrightarrow> (\<forall>k < ?n div 64. \<forall>j < 64. bit (?a ! k) j)"
    using len by (auto simp: list_all_length all_ones split: if_splits)
  have last: "low_bits_set (?n mod 64) 1 (?a ! (length ?a - 1)) \<longleftrightarrow> (\<forall>j < ?n mod 64. bit (?a ! (?n div 64)) j)"
    using low_bits_set_ok [of 0 "?n mod 64" "?a ! (length ?a - 1)"] len
    by (cases "?n mod 64 = 0") simp_all
  have "(\<forall>k < ?n div 64. \<forall>j < 64. bit (?a ! k) j) \<and> (\<forall>j < ?n mod 64. bit (?a ! (?n div 64)) j) \<longleftrightarrow>
      (\<forall>i < ?n. bit (?a ! (i div 64)) (i mod 64))"
  proof (intro iffI conjI allI impI; (elim conjE)?)
    fix i assume "\<forall>k < ?n div 64. \<forall>j < 64. bit (?a ! k) j" "\<forall>j < ?n mod 64. bit (?a ! (?n div 64)) j" "i < ?n"
    then show "bit (?a ! (i div 64)) (i mod 64)" unfolding less_div_mod [of i] by auto
  next
    fix k j assume a: "\<forall>i < ?n. bit (?a ! (i div 64)) (i mod 64)" and k: "k < ?n div 64" "j < (64::nat)"
    have e: "(64 * k + j) div 64 = k" "(64 * k + j) mod 64 = j" using k by simp_all
    have "64 * k + j < ?n" unfolding less_div_mod [of _ ?n] e using k by simp
    from a [rule_format, OF this] show "bit (?a ! k) j" by (simp only: e)
  next
    fix j assume a: "\<forall>i < ?n. bit (?a ! (i div 64)) (i mod 64)" and j: "j < ?n mod 64"
    then have "j < 64" by (meson mod_less_divisor order_less_trans zero_less_numeral)
    then have e: "(64 * (?n div 64) + j) div 64 = ?n div 64" "(64 * (?n div 64) + j) mod 64 = j" by simp_all
    have "64 * (?n div 64) + j < ?n" unfolding less_div_mod [of _ ?n] e using j by simp
    from a [rule_format, OF this] show "bit (?a ! (?n div 64)) j" by (simp only: e)
  qed
  also have "\<dots> \<longleftrightarrow> (\<forall>i < ?n. i \<in> set_of s)"
    using assms array_len_bound by (auto simp: set_of_iff bset_inv_def)
  also have "\<dots> \<longleftrightarrow> set_of s = {..< ?n}" using assms by (auto simp: bset_inv_def)
  finally show ?thesis unfolding set_isBroadcast_def tk full last .
qed

subsection \<open>The interface of a set of elements\<close>

text \<open>What the clients of \<^verbatim>\<open>Set\<close> and \<^verbatim>\<open>NetDest\<close> rely on: the three element operations act on an
  abstract set of elements of a universe that never changes.\<close>

locale element_set =
  fixes inv :: "'s \<Rightarrow> bool" and univ :: "'s \<Rightarrow> 'k set" and elems :: "'s \<Rightarrow> 'k set"
    and add :: "'k \<Rightarrow> 's \<Rightarrow> 's option" and remove :: "'k \<Rightarrow> 's \<Rightarrow> 's option"
    and isElement :: "'k \<Rightarrow> 's \<Rightarrow> bool option"
  assumes add_ok: "inv s \<Longrightarrow> k \<in> univ s \<Longrightarrow>
      \<exists>s'. add k s = Some s' \<and> inv s' \<and> univ s' = univ s \<and> elems s' = insert k (elems s)"
    and remove_ok: "inv s \<Longrightarrow> k \<in> univ s \<Longrightarrow>
      \<exists>s'. remove k s = Some s' \<and> inv s' \<and> univ s' = univ s \<and> elems s' = elems s - {k}"
    and isElement_ok: "inv s \<Longrightarrow> k \<in> univ s \<Longrightarrow> isElement k s = Some (k \<in> elems s)"
begin

primrec add_all :: "'k list \<Rightarrow> 's \<Rightarrow> 's option" where
  "add_all [] s = Some s"
| "add_all (k # ks) s = add k s \<bind> add_all ks"

lemma add_all_ok:
  assumes "inv s" "set ks \<subseteq> univ s"
  shows "\<exists>s'. add_all ks s = Some s' \<and> inv s' \<and> univ s' = univ s \<and> elems s' = set ks \<union> elems s"
  using assms
proof (induction ks arbitrary: s)
  case (Cons k ks)
  then obtain s1 where "add k s = Some s1" "inv s1" "univ s1 = univ s" "elems s1 = insert k (elems s)"
    using add_ok [of s k] by auto
  with Cons.IH [of s1] Cons.prems show ?case by auto
qed simp

lemma add_then_member:
  assumes "inv s" "k \<in> univ s" "l \<in> univ s"
  shows "(add k s \<bind> isElement l) = Some (l = k \<or> l \<in> elems s)"
proof -
  obtain s' where "add k s = Some s'" "inv s'" "univ s' = univ s" "elems s' = insert k (elems s)"
    using add_ok [OF assms(1,2)] by blast
  then show ?thesis using isElement_ok [of s' l] assms(3) by simp
qed

lemma remove_then_member:
  assumes "inv s" "k \<in> univ s" "l \<in> univ s"
  shows "(remove k s \<bind> isElement l) = Some (l \<noteq> k \<and> l \<in> elems s)"
proof -
  obtain s' where "remove k s = Some s'" "inv s'" "univ s' = univ s" "elems s' = elems s - {k}"
    using remove_ok [OF assms(1,2)] by blast
  then show ?thesis using isElement_ok [of s' l] assms(3) by auto
qed

end

interpretation nset: element_set bset_inv "\<lambda>s. {..< m_nSize s}" set_of set_add set_remove set_isElement
  using set_add_ok set_remove_ok set_isElement_ok by unfold_locales simp_all

subsection \<open>Properties\<close>

text \<open>Sets of nodes behave like finite sets: on a well-formed set, adding or removing an
  element in range and asking for any element in range give the membership of the updated set,
  and the representation stays well formed.\<close>

lemma node_set_element_ops:
  assumes "bset_inv s" "i < m_nSize s" "j < m_nSize s"
  shows "(set_add i s \<bind> set_isElement j) = Some (j = i \<or> j \<in> set_of s) \<and>
    (set_remove i s \<bind> set_isElement j) = Some (j \<noteq> i \<and> j \<in> set_of s) \<and>
    (\<exists>s'. set_add i s = Some s' \<and> bset_inv s' \<and> set_of s' = insert i (set_of s)) \<and>
    (\<exists>s'. set_remove i s = Some s' \<and> bset_inv s' \<and> set_of s' = set_of s - {i})"
  using nset.add_then_member [of s i j] nset.remove_then_member [of s i j]
    nset.add_ok [of s i] nset.remove_ok [of s i] assms
  by auto

definition sample_set :: bset where
  "sample_set = set_setSize 70 set_null"

lemma sample_set_ok: "bset_inv sample_set" "m_nSize sample_set = 70" "set_of sample_set = {}"
  by (simp_all add: sample_set_def set_setSize_ok)

text \<open>C33. The bulk operations of \<^verbatim>\<open>Set\<close> compute what their names say on two well-formed sets of the
  same size: union, difference, intersection, inclusion, equality and disjointness; the number of
  elements, emptiness and the least element; and \<^verbatim>\<open>broadcast\<close> makes the set full, which is exactly
  what \<^verbatim>\<open>isBroadcast\<close> tests.\<close>

theorem node_set_bulk_ops:
  assumes "bset_inv s" "bset_inv t" "m_nSize s = m_nSize t" "0 < m_nSize s"
  shows "map_option set_of (set_addSet t s) = Some (set_of s \<union> set_of t) \<and>
    map_option set_of (set_removeSet t s) = Some (set_of s - set_of t) \<and>
    map_option set_of (set_OR t s) = Some (set_of s \<union> set_of t) \<and>
    map_option set_of (set_AND t s) = Some (set_of s \<inter> set_of t) \<and>
    set_isSuperset t s = Some (set_of t \<subseteq> set_of s) \<and>
    set_isEqual t s = Some (set_of s = set_of t) \<and>
    set_intersectionIsEmpty t s = Some (set_of s \<inter> set_of t = {}) \<and>
    set_count s = card (set_of s) \<and> (set_isEmpty s \<longleftrightarrow> set_of s = {}) \<and>
    (set_of s \<noteq> {} \<longrightarrow> set_smallestElement s = Some (Min (set_of s))) \<and>
    set_of (set_broadcast s) = {..< m_nSize s} \<and> (set_isBroadcast s \<longleftrightarrow> set_of s = {..< m_nSize s})"
proof -
  have "map_option set_of (set_addSet t s) = Some (set_of s \<union> set_of t)"
    using set_addSet_ok [OF assms(1-3)] by auto
  moreover have "map_option set_of (set_removeSet t s) = Some (set_of s - set_of t)"
    using set_removeSet_ok [OF assms(1-3)] by auto
  moreover have "map_option set_of (set_OR t s) = Some (set_of s \<union> set_of t)"
    using set_OR_ok [OF assms] by auto
  moreover have "map_option set_of (set_AND t s) = Some (set_of s \<inter> set_of t)"
    using set_AND_ok [OF assms] by auto
  ultimately show ?thesis
    using set_isSuperset_ok [OF assms(1-3)] set_isEqual_ok [OF assms(1-3)] set_intersection_ok [OF assms(1-3)]
      set_count_ok [of s] set_isEmpty_ok [of s] set_smallestElement_ok [of s] set_broadcast_ok [OF assms(1)]
      set_isBroadcast_ok [OF assms(1)]
    by blast
qed

theorem node_set_bulk_ops_witness:
  "set_of (set_broadcast sample_set) = {..< 70} \<and> set_count sample_set = 0"
  using node_set_bulk_ops [of sample_set sample_set] sample_set_ok by simp

end
