(* ===== verification/Net_Dest.thy ===== *)
theory Net_Dest
  imports Node_Set
begin

text \<open>
  Destinations of network messages: \<^verbatim>\<open>ruby_clean/common/NetDest.C\<close> and \<^verbatim>\<open>.h\<close>, one \<^verbatim>\<open>Set\<close> of
  component numbers per machine type. The enumeration \<^verbatim>\<open>MachineType\<close> and its three functions are
  generated from the coherence protocol: they are the parameter \<open>machine_types\<close>, a machine type
  is its number in the enumeration.
\<close>

record machine_types =
  MachineType_NUM :: nat
  MachineType_base_level :: "nat \<Rightarrow> nat"
  MachineType_base_count :: "nat \<Rightarrow> nat"
  MachineType_base_number :: "nat \<Rightarrow> nat"

record machine_id =
  mach_type :: nat
  mach_num :: nat

definition machine_id_eq :: "machine_id \<Rightarrow> machine_id \<Rightarrow> bool" where
  "machine_id_eq a b \<longleftrightarrow> mach_type a = mach_type b \<and> mach_num a = mach_num b"

text \<open>What the generated functions promise: levels follow the enumeration, and the base numbers
  count the components of the types before.\<close>

definition machine_types_ok :: "machine_types \<Rightarrow> bool" where
  "machine_types_ok mt \<longleftrightarrow>
     (\<forall>t \<le> MachineType_NUM mt. MachineType_base_level mt t = t) \<and>
     (\<forall>t < MachineType_NUM mt. 0 < MachineType_base_count mt t) \<and>
     (\<forall>t < MachineType_NUM mt. MachineType_base_number mt t = sum_list (map (MachineType_base_count mt) [0..<t]))"

type_synonym net_dest = "bset list"

definition nd_setSize :: "machine_types \<Rightarrow> net_dest option" where
  "nd_setSize mt = do {
     let n = MachineType_base_level mt (MachineType_NUM mt);
     check (n = MachineType_NUM mt);
     Some (map (\<lambda>i. set_setSize (MachineType_base_count mt i) set_null) [0..<n]) }"

definition nd_new :: "machine_types \<Rightarrow> net_dest option" where
  "nd_new mt = nd_setSize mt"

definition nd_at :: "net_dest \<Rightarrow> nat \<Rightarrow> bset option" where
  "nd_at n i = do { check (i < length n); Some (n ! i) }"

definition vecIndex :: "machine_types \<Rightarrow> machine_id \<Rightarrow> net_dest \<Rightarrow> nat option" where
  "vecIndex mt m n = do {
     let vec_index = MachineType_base_level mt (mach_type m);
     check (vec_index < length n);
     Some vec_index }"

definition bitIndex :: "nat \<Rightarrow> nat" where "bitIndex index = index"

definition nd_add :: "machine_types \<Rightarrow> machine_id \<Rightarrow> net_dest \<Rightarrow> net_dest option" where
  "nd_add mt m n = do {
     v \<leftarrow> vecIndex mt m n;
     s \<leftarrow> set_add (bitIndex (mach_num m)) (n ! v);
     Some (n[v := s]) }"

definition nd_remove :: "machine_types \<Rightarrow> machine_id \<Rightarrow> net_dest \<Rightarrow> net_dest option" where
  "nd_remove mt m n = do {
     v \<leftarrow> vecIndex mt m n;
     s \<leftarrow> set_remove (bitIndex (mach_num m)) (n ! v);
     Some (n[v := s]) }"

definition nd_isElement :: "machine_types \<Rightarrow> machine_id \<Rightarrow> net_dest \<Rightarrow> bool option" where
  "nd_isElement mt m n = do {
     v \<leftarrow> vecIndex mt m n;
     set_isElement (bitIndex (mach_num m)) (n ! v) }"

definition nd_elementAt :: "machine_types \<Rightarrow> machine_id \<Rightarrow> net_dest \<Rightarrow> nat option" where
  "nd_elementAt mt m n = do {
     v \<leftarrow> vecIndex mt m n;
     set_elementAt (bitIndex (mach_num m)) (n ! v) }"

definition nd_zip :: "(bset \<Rightarrow> bset \<Rightarrow> 'a option) \<Rightarrow> net_dest \<Rightarrow> net_dest \<Rightarrow> 'a list option" where
  "nd_zip f other n = do {
     check (length n = length other);
     those (map2 f other n) }"

definition nd_addNetDest :: "net_dest \<Rightarrow> net_dest \<Rightarrow> net_dest option" where
  "nd_addNetDest other n = nd_zip set_addSet other n"

definition nd_removeNetDest :: "net_dest \<Rightarrow> net_dest \<Rightarrow> net_dest option" where
  "nd_removeNetDest other n = nd_zip set_removeSet other n"

definition nd_OR :: "net_dest \<Rightarrow> net_dest \<Rightarrow> net_dest option" where
  "nd_OR other n = nd_zip set_OR other n"

definition nd_AND :: "net_dest \<Rightarrow> net_dest \<Rightarrow> net_dest option" where
  "nd_AND other n = nd_zip set_AND other n"

definition nd_intersectionIsNotEmpty :: "net_dest \<Rightarrow> net_dest \<Rightarrow> bool option" where
  "nd_intersectionIsNotEmpty other n = do {
     bs \<leftarrow> nd_zip set_intersectionIsNotEmpty other n;
     Some (list_ex id bs) }"

definition nd_isSuperset :: "net_dest \<Rightarrow> net_dest \<Rightarrow> bool option" where
  "nd_isSuperset test n = do {
     bs \<leftarrow> nd_zip set_isSuperset test n;
     Some (list_all id bs) }"

definition nd_isSubset :: "net_dest \<Rightarrow> net_dest \<Rightarrow> bool option" where
  "nd_isSubset test n = nd_isSuperset n test"

definition nd_setNetDest :: "machine_types \<Rightarrow> nat \<Rightarrow> bset \<Rightarrow> net_dest \<Rightarrow> net_dest option" where
  "nd_setNetDest mt machine s n = do {
     check (MachineType_base_level mt (machine + 1) = MachineType_base_level mt machine + 1);
     check (MachineType_base_level mt machine < length n);
     Some (n[MachineType_base_level mt machine := s]) }"

definition nd_addRandom :: "nat \<Rightarrow> (64 word \<times> 64 word) list \<Rightarrow> net_dest \<Rightarrow> net_dest option" where
  "nd_addRandom r rnd n = do {
     check (n \<noteq> []);
     s \<leftarrow> set_addRandom rnd (n ! (r mod length n));
     Some (n[r mod length n := s]) }"

definition nd_clear :: "net_dest \<Rightarrow> net_dest" where
  "nd_clear n = map set_clear n"

fun nd_add_machines :: "machine_types \<Rightarrow> nat \<Rightarrow> nat list \<Rightarrow> net_dest \<Rightarrow> net_dest option" where
  "nd_add_machines mt t [] n = Some n"
| "nd_add_machines mt t (i # is) n =
     nd_add mt \<lparr>mach_type = t, mach_num = i\<rparr> n \<bind> nd_add_machines mt t is"

definition nd_broadcast_type :: "machine_types \<Rightarrow> nat \<Rightarrow> net_dest \<Rightarrow> net_dest option" where
  "nd_broadcast_type mt machineType n = nd_add_machines mt machineType [0..<MachineType_base_count mt machineType] n"

fun nd_broadcast_types :: "machine_types \<Rightarrow> nat list \<Rightarrow> net_dest \<Rightarrow> net_dest option" where
  "nd_broadcast_types mt [] n = Some n"
| "nd_broadcast_types mt (t # ts) n = nd_broadcast_type mt t n \<bind> nd_broadcast_types mt ts"

definition nd_broadcast :: "machine_types \<Rightarrow> net_dest \<Rightarrow> net_dest option" where
  "nd_broadcast mt n = nd_broadcast_types mt [0..<MachineType_NUM mt] n"

definition set_members :: "bset \<Rightarrow> nat list" where
  "set_members s = filter (\<lambda>j. set_isElement j s = Some True) [0..<m_nSize s]"

definition nd_getAllDest :: "machine_types \<Rightarrow> net_dest \<Rightarrow> nat list" where
  "nd_getAllDest mt n =
     concat (map (\<lambda>i. map (\<lambda>j. MachineType_base_number mt i + j) (set_members (n ! i))) [0..<length n])"

definition nd_count :: "net_dest \<Rightarrow> nat" where
  "nd_count n = sum_list (map set_count n)"

definition nd_smallestElement :: "net_dest \<Rightarrow> nat option" where
  "nd_smallestElement n = do {
     check (0 < nd_count n);
     (case concat (map set_members n) of [] \<Rightarrow> None | j # _ \<Rightarrow> Some j) }"

definition nd_smallestElement_type :: "machine_types \<Rightarrow> nat \<Rightarrow> net_dest \<Rightarrow> machine_id option" where
  "nd_smallestElement_type mt machine n = do {
     s \<leftarrow> nd_at n (MachineType_base_level mt machine);
     (case set_members s of [] \<Rightarrow> None | j # _ \<Rightarrow> Some \<lparr>mach_type = machine, mach_num = j\<rparr>) }"

definition nd_isBroadcast :: "net_dest \<Rightarrow> bool" where
  "nd_isBroadcast n \<longleftrightarrow> list_all set_isBroadcast n"

definition nd_isEmpty :: "net_dest \<Rightarrow> bool" where
  "nd_isEmpty n \<longleftrightarrow> list_all set_isEmpty n"

subsection \<open>Abstraction\<close>

definition nd_machines :: "machine_types \<Rightarrow> machine_id set" where
  "nd_machines mt = {m. mach_type m < MachineType_NUM mt \<and> mach_num m < MachineType_base_count mt (mach_type m)}"

definition nd_elems :: "net_dest \<Rightarrow> machine_id set" where
  "nd_elems n = {m. mach_type m < length n \<and> mach_num m \<in> set_of (n ! mach_type m)}"

definition nd_inv :: "machine_types \<Rightarrow> net_dest \<Rightarrow> bool" where
  "nd_inv mt n \<longleftrightarrow> machine_types_ok mt \<and> length n = MachineType_NUM mt \<and>
     (\<forall>i < length n. bset_inv (n ! i) \<and> m_nSize (n ! i) = MachineType_base_count mt i)"

lemma nd_vecIndex: "nd_inv mt n \<Longrightarrow> m \<in> nd_machines mt \<Longrightarrow> vecIndex mt m n = Some (mach_type m)"
  by (simp add: vecIndex_def nd_inv_def nd_machines_def machine_types_ok_def check_bind Let_def)

lemma machine_eq: "m = m' \<longleftrightarrow> mach_type m = mach_type m' \<and> mach_num m = mach_num (m' :: machine_id)"
  by (cases m; cases m') simp

lemma nd_new_ok: "machine_types_ok mt \<Longrightarrow> \<exists>n. nd_new mt = Some n \<and> nd_inv mt n \<and> nd_elems n = {}"
  by (auto simp: nd_new_def nd_setSize_def nd_inv_def nd_elems_def machine_types_ok_def check_bind Let_def set_setSize_ok)

lemma nd_update_ok:
  assumes "nd_inv mt n" "m \<in> nd_machines mt" "bset_inv s" "m_nSize s = m_nSize (n ! mach_type m)"
  shows "nd_inv mt (n[mach_type m := s])"
  using assms by (auto simp: nd_inv_def nd_machines_def nth_list_update)

lemma nd_elem_range:
  assumes "nd_inv mt n" "m \<in> nd_machines mt"
  shows "mach_type m < length n" "bset_inv (n ! mach_type m)" "mach_num m < m_nSize (n ! mach_type m)"
  using assms by (auto simp: nd_inv_def nd_machines_def)

lemma nd_add_ok:
  assumes "nd_inv mt n" "m \<in> nd_machines mt"
  shows "\<exists>n'. nd_add mt m n = Some n' \<and> nd_inv mt n' \<and> nd_elems n' = insert m (nd_elems n)"
proof -
  note r = nd_elem_range [OF assms]
  obtain s where s: "set_add (mach_num m) (n ! mach_type m) = Some s" "bset_inv s"
    "m_nSize s = m_nSize (n ! mach_type m)" "set_of s = insert (mach_num m) (set_of (n ! mach_type m))"
    using set_add_ok [OF r(2,3)] by blast
  have "x \<in> nd_elems (n[mach_type m := s]) \<longleftrightarrow> x \<in> insert m (nd_elems n)" for x
    using r(1) s(4) machine_eq [of x m] by (cases "mach_type x = mach_type m") (auto simp: nd_elems_def)
  then have "nd_elems (n[mach_type m := s]) = insert m (nd_elems n)" by blast
  then show ?thesis
    using s nd_update_ok [OF assms s(2,3)] nd_vecIndex [OF assms] by (simp add: nd_add_def bitIndex_def)
qed

lemma nd_remove_ok:
  assumes "nd_inv mt n" "m \<in> nd_machines mt"
  shows "\<exists>n'. nd_remove mt m n = Some n' \<and> nd_inv mt n' \<and> nd_elems n' = nd_elems n - {m}"
proof -
  note r = nd_elem_range [OF assms]
  obtain s where s: "set_remove (mach_num m) (n ! mach_type m) = Some s" "bset_inv s"
    "m_nSize s = m_nSize (n ! mach_type m)" "set_of s = set_of (n ! mach_type m) - {mach_num m}"
    using set_remove_ok [OF r(2,3)] by blast
  have "x \<in> nd_elems (n[mach_type m := s]) \<longleftrightarrow> x \<in> nd_elems n - {m}" for x
    using r(1) s(4) machine_eq [of x m] by (cases "mach_type x = mach_type m") (auto simp: nd_elems_def)
  then have "nd_elems (n[mach_type m := s]) = nd_elems n - {m}" by blast
  then show ?thesis
    using s nd_update_ok [OF assms s(2,3)] nd_vecIndex [OF assms] by (simp add: nd_remove_def bitIndex_def)
qed

lemma nd_isElement_ok:
  assumes "nd_inv mt n" "m \<in> nd_machines mt"
  shows "nd_isElement mt m n = Some (m \<in> nd_elems n)"
  using nd_elem_range [OF assms] nd_vecIndex [OF assms] set_isElement_ok
  by (simp add: nd_isElement_def bitIndex_def nd_elems_def)

interpretation ndest: element_set "nd_inv mt" "\<lambda>_. nd_machines mt" nd_elems "nd_add mt" "nd_remove mt" "nd_isElement mt"
  for mt
  using nd_add_ok nd_remove_ok nd_isElement_ok by unfold_locales simp_all


subsection \<open>Bulk operations\<close>

lemma those_map2:
  assumes "length xs = length ys" "\<And>i. i < length xs \<Longrightarrow> \<exists>z. f (xs ! i) (ys ! i) = Some z"
  shows "\<exists>zs. those (map2 f xs ys) = Some zs \<and> length zs = length xs \<and>
    (\<forall>i < length xs. f (xs ! i) (ys ! i) = Some (zs ! i))"
  using assms
proof (induction xs ys rule: list_induct2)
  case (Cons x xs y ys)
  have "\<exists>z. f (xs ! i) (ys ! i) = Some z" if "i < length xs" for i
    using Cons.prems [of "Suc i"] that by simp
  from Cons.IH [OF this] obtain zs where zs: "those (map2 f xs ys) = Some zs" "length zs = length xs"
    "\<forall>i < length xs. f (xs ! i) (ys ! i) = Some (zs ! i)" by blast
  moreover obtain z where "f x y = Some z" using Cons.prems [of 0] by auto
  ultimately show ?case
    by (intro exI [of _ "z # zs"]) (auto simp: nth_Cons split: nat.splits)
qed simp

lemma nd_same:
  assumes "nd_inv mt n" "nd_inv mt t" "i < length n"
  shows "bset_inv (n ! i)" "bset_inv (t ! i)" "m_nSize (n ! i) = m_nSize (t ! i)" "0 < m_nSize (n ! i)" "length n = length t"
  using assms by (auto simp: nd_inv_def machine_types_ok_def)

lemma nd_zip_ok:
  assumes "nd_inv mt n" "nd_inv mt t"
    and f: "\<And>s u. bset_inv s \<Longrightarrow> bset_inv u \<Longrightarrow> m_nSize s = m_nSize u \<Longrightarrow> 0 < m_nSize s \<Longrightarrow>
      \<exists>s'. f u s = Some s' \<and> bset_inv s' \<and> m_nSize s' = m_nSize s \<and> set_of s' = g (set_of s) (set_of u)"
  shows "\<exists>n'. nd_zip f t n = Some n' \<and> nd_inv mt n' \<and> length n' = length n \<and>
    (\<forall>i < length n. set_of (n' ! i) = g (set_of (n ! i)) (set_of (t ! i)))"
proof -
  have len: "length t = length n" using assms(1,2) by (simp add: nd_inv_def)
  have ex: "\<exists>s'. f (t ! i) (n ! i) = Some s' \<and> bset_inv s' \<and> m_nSize s' = m_nSize (n ! i) \<and>
      set_of s' = g (set_of (n ! i)) (set_of (t ! i))" if "i < length t" for i
    using nd_same [OF assms(1,2)] that len by (intro f) auto
  then have "\<exists>z. f (t ! i) (n ! i) = Some z" if "i < length t" for i using that by blast
  from those_map2 [of t n f, OF len this] obtain zs where zs: "those (map2 f t n) = Some zs" "length zs = length t"
    "\<forall>i < length t. f (t ! i) (n ! i) = Some (zs ! i)" by blast
  have each: "bset_inv (zs ! i) \<and> m_nSize (zs ! i) = m_nSize (n ! i) \<and>
      set_of (zs ! i) = g (set_of (n ! i)) (set_of (t ! i))" if "i < length t" for i
    using ex [OF that] zs(3) that by auto
  then have "nd_inv mt zs" using assms(1) zs(2) len by (simp add: nd_inv_def)
  then show ?thesis using zs each len by (auto simp: nd_zip_def check_bind)
qed

lemma nd_addNetDest_ok:
  assumes "nd_inv mt n" "nd_inv mt t"
  shows "\<exists>n'. nd_addNetDest t n = Some n' \<and> nd_inv mt n' \<and> nd_elems n' = nd_elems n \<union> nd_elems t"
proof -
  obtain n' where n': "nd_zip set_addSet t n = Some n'" "nd_inv mt n'" "length n' = length n"
    "\<forall>i < length n. set_of (n' ! i) = set_of (n ! i) \<union> set_of (t ! i)"
    using nd_zip_ok [OF assms, of set_addSet "(\<union>)"] set_addSet_ok by blast
  moreover have "length t = length n" using assms by (simp add: nd_inv_def)
  ultimately show ?thesis by (auto simp: nd_addNetDest_def nd_elems_def)
qed

lemma nd_removeNetDest_ok:
  assumes "nd_inv mt n" "nd_inv mt t"
  shows "\<exists>n'. nd_removeNetDest t n = Some n' \<and> nd_inv mt n' \<and> nd_elems n' = nd_elems n - nd_elems t"
proof -
  obtain n' where n': "nd_zip set_removeSet t n = Some n'" "nd_inv mt n'" "length n' = length n"
    "\<forall>i < length n. set_of (n' ! i) = set_of (n ! i) - set_of (t ! i)"
    using nd_zip_ok [OF assms, of set_removeSet "(-)"] set_removeSet_ok by blast
  moreover have "length t = length n" using assms by (simp add: nd_inv_def)
  ultimately show ?thesis by (auto simp: nd_removeNetDest_def nd_elems_def)
qed

lemma nd_AND_ok:
  assumes "nd_inv mt n" "nd_inv mt t"
  shows "\<exists>n'. nd_AND t n = Some n' \<and> nd_inv mt n' \<and> nd_elems n' = nd_elems n \<inter> nd_elems t"
proof -
  obtain n' where n': "nd_zip set_AND t n = Some n'" "nd_inv mt n'" "length n' = length n"
    "\<forall>i < length n. set_of (n' ! i) = set_of (n ! i) \<inter> set_of (t ! i)"
    using nd_zip_ok [OF assms, of set_AND "(\<inter>)"] set_AND_ok by blast
  moreover have "length t = length n" using assms by (simp add: nd_inv_def)
  ultimately show ?thesis by (auto simp: nd_AND_def nd_elems_def)
qed

lemma nd_OR_ok:
  assumes "nd_inv mt n" "nd_inv mt t"
  shows "\<exists>n'. nd_OR t n = Some n' \<and> nd_inv mt n' \<and> nd_elems n' = nd_elems n \<union> nd_elems t"
proof -
  obtain n' where n': "nd_zip set_OR t n = Some n'" "nd_inv mt n'" "length n' = length n"
    "\<forall>i < length n. set_of (n' ! i) = set_of (n ! i) \<union> set_of (t ! i)"
    using nd_zip_ok [OF assms, of set_OR "(\<union>)"] set_OR_ok by blast
  moreover have "length t = length n" using assms by (simp add: nd_inv_def)
  ultimately show ?thesis by (auto simp: nd_OR_def nd_elems_def)
qed

lemma all_machines: "(\<forall>m :: machine_id. P (mach_type m) (mach_num m)) \<longleftrightarrow> (\<forall>i k. P i k)"
proof
  assume a: "\<forall>m :: machine_id. P (mach_type m) (mach_num m)"
  show "\<forall>i k. P i k"
  proof (intro allI)
    fix i k
    show "P i k" using a [rule_format, of "\<lparr>mach_type = i, mach_num = k\<rparr>"] by simp
  qed
qed simp

lemma nd_subset_iff:
  "(\<forall>m. P (mach_type m) (mach_num m) \<longrightarrow> m \<in> nd_elems n) \<longleftrightarrow>
    (\<forall>i k. P i k \<longrightarrow> i < length n \<and> k \<in> set_of (n ! i))"
  using all_machines [of "\<lambda>i k. P i k \<longrightarrow> i < length n \<and> k \<in> set_of (n ! i)"] by (simp add: nd_elems_def)

lemma nd_disjoint_iff:
  "(\<forall>m. \<not> (P (mach_type m) (mach_num m) \<and> m \<in> nd_elems n)) \<longleftrightarrow>
    (\<forall>i k. \<not> (P i k \<and> i < length n \<and> k \<in> set_of (n ! i)))"
  using all_machines [of "\<lambda>i k. \<not> (P i k \<and> i < length n \<and> k \<in> set_of (n ! i))"] by (simp add: nd_elems_def)

lemma nd_elems_sub: "nd_inv mt n \<Longrightarrow> nd_elems n \<subseteq> nd_machines mt"
  by (fastforce simp: nd_elems_def nd_inv_def nd_machines_def bset_inv_def)

lemma nd_isBroadcast_ok:
  assumes "nd_inv mt n"
  shows "nd_isBroadcast n \<longleftrightarrow> nd_elems n = nd_machines mt"
proof -
  have "nd_isBroadcast n \<longleftrightarrow> (\<forall>i < length n. {..< m_nSize (n ! i)} \<subseteq> set_of (n ! i))"
  proof -
    have "set_isBroadcast (n ! i) \<longleftrightarrow> {..< m_nSize (n ! i)} \<subseteq> set_of (n ! i)" if "i < length n" for i
    proof -
      have "bset_inv (n ! i)" using assms that by (simp add: nd_inv_def)
      then show ?thesis using set_isBroadcast_ok [of "n ! i"] by (auto simp: bset_inv_def)
    qed
    then show ?thesis by (simp add: nd_isBroadcast_def list_all_length)
  qed
  also have "\<dots> \<longleftrightarrow> (\<forall>i k. i < MachineType_NUM mt \<and> k < MachineType_base_count mt i \<longrightarrow>
      i < length n \<and> k \<in> set_of (n ! i))"
    using assms by (auto simp: nd_inv_def subset_iff)
  also have "\<dots> \<longleftrightarrow> nd_machines mt \<subseteq> nd_elems n"
    using nd_subset_iff [of "\<lambda>i k. i < MachineType_NUM mt \<and> k < MachineType_base_count mt i" n]
    by (simp add: nd_machines_def subset_iff)
  finally show ?thesis using nd_elems_sub [OF assms] by blast
qed

lemma nd_isEmpty_ok: "nd_isEmpty n \<longleftrightarrow> nd_elems n = {}"
proof -
  have "nd_isEmpty n \<longleftrightarrow> (\<forall>i < length n. \<forall>k. k \<notin> set_of (n ! i))"
    by (auto simp: nd_isEmpty_def list_all_length set_isEmpty_ok)
  also have "\<dots> \<longleftrightarrow> nd_elems n = {}"
    using nd_disjoint_iff [of "\<lambda>_ _. True" n] by auto
  finally show ?thesis .
qed

lemma set_members_ok:
  assumes "bset_inv s"
  shows "set (set_members s) = set_of s" "sorted_wrt (<) (set_members s)"
proof -
  have "set_members s = filter (\<lambda>j. j \<in> set_of s) [0..<m_nSize s]"
    unfolding set_members_def using assms by (intro filter_cong) (auto simp: set_isElement_ok)
  then show "set (set_members s) = set_of s" "sorted_wrt (<) (set_members s)"
    using assms by (auto simp: bset_inv_def intro: sorted_wrt_filter)
qed

lemma nd_elems_union: "nd_elems n = (\<Union>i < length n. (\<lambda>k. \<lparr>mach_type = i, mach_num = k\<rparr>) ` set_of (n ! i))"
proof -
  have "\<lparr>mach_type = mach_type x, mach_num = mach_num x\<rparr> = x" for x :: machine_id by simp
  then show ?thesis unfolding nd_elems_def by (force simp: image_iff)
qed

lemma nd_count_ok: "nd_count n = card (nd_elems n) \<and> finite (nd_elems n)"
proof -
  have inj: "inj_on (\<lambda>k. \<lparr>mach_type = i, mach_num = k\<rparr>) A" for i A by (simp add: inj_on_def)
  have "card (nd_elems n) = (\<Sum>i < length n. card ((\<lambda>k. \<lparr>mach_type = i, mach_num = k\<rparr>) ` set_of (n ! i)))"
    unfolding nd_elems_union by (rule card_UN_disjoint) auto
  also have "\<dots> = nd_count n"
    by (simp add: card_image [OF inj] nd_count_def set_count_ok sum_list_sum_nth atLeast0LessThan)
  finally show ?thesis unfolding nd_elems_union by simp
qed

lemma set_intersect_len:
  "bset_inv s \<Longrightarrow> bset_inv u \<Longrightarrow> m_nSize s = m_nSize u \<Longrightarrow> length (m_nArray s) = length (m_nArray u)"
  by (simp add: bset_inv_def)

lemma nd_pred_ok:
  assumes "nd_inv mt n" "nd_inv mt t"
    and f: "\<And>s u. bset_inv s \<Longrightarrow> bset_inv u \<Longrightarrow> m_nSize s = m_nSize u \<Longrightarrow> f u s = Some (q (set_of s) (set_of u))"
  shows "nd_zip f t n = Some (map (\<lambda>i. q (set_of (n ! i)) (set_of (t ! i))) [0..<length n])"
proof -
  have len: "length t = length n" using assms(1,2) by (simp add: nd_inv_def)
  have e: "f (t ! i) (n ! i) = Some (q (set_of (n ! i)) (set_of (t ! i)))" if "i < length t" for i
    using nd_same [OF assms(1,2)] that len by (intro f) auto
  then have "\<exists>z. f (t ! i) (n ! i) = Some z" if "i < length t" for i using that by blast
  from those_map2 [of t n f, OF len this] obtain zs where zs: "those (map2 f t n) = Some zs" "length zs = length t"
    "\<forall>i < length t. f (t ! i) (n ! i) = Some (zs ! i)" by blast
  have "zs = map (\<lambda>i. q (set_of (n ! i)) (set_of (t ! i))) [0..<length n]"
    using zs(2,3) e len by (intro nth_equalityI) auto
  with zs(1) len show ?thesis by (simp add: nd_zip_def check_bind)
qed

lemma nd_isSuperset_ok:
  assumes "nd_inv mt n" "nd_inv mt t"
  shows "nd_isSuperset t n = Some (nd_elems t \<subseteq> nd_elems n)"
proof -
  have len: "length t = length n" using assms by (simp add: nd_inv_def)
  have "nd_zip set_isSuperset t n = Some (map (\<lambda>i. set_of (t ! i) \<subseteq> set_of (n ! i)) [0..<length n])"
    using set_isSuperset_ok by (intro nd_pred_ok [OF assms]) simp
  moreover have "list_all id (map (\<lambda>i. set_of (t ! i) \<subseteq> set_of (n ! i)) [0..<length n]) \<longleftrightarrow>
      (\<forall>i < length n. \<forall>k \<in> set_of (t ! i). k \<in> set_of (n ! i))"
    by (auto simp: list_all_iff)
  moreover have "\<dots> \<longleftrightarrow> nd_elems t \<subseteq> nd_elems n"
    using nd_subset_iff [of "\<lambda>i k. i < length t \<and> k \<in> set_of (t ! i)" n] len
    by (auto simp: nd_elems_def [of t] subset_iff)
  ultimately show ?thesis by (simp add: nd_isSuperset_def)
qed

lemma nd_intersection_ok:
  assumes "nd_inv mt n" "nd_inv mt t"
  shows "nd_intersectionIsNotEmpty t n = Some (nd_elems n \<inter> nd_elems t \<noteq> {})"
proof -
  have len: "length t = length n" using assms by (simp add: nd_inv_def)
  have "nd_zip set_intersectionIsNotEmpty t n =
      Some (map (\<lambda>i. set_of (n ! i) \<inter> set_of (t ! i) \<noteq> {}) [0..<length n])"
    using set_intersection_ok(2) by (intro nd_pred_ok [OF assms]) simp
  moreover have "list_ex id (map (\<lambda>i. set_of (n ! i) \<inter> set_of (t ! i) \<noteq> {}) [0..<length n]) \<longleftrightarrow>
      (\<exists>i < length n. \<exists>k. k \<in> set_of (n ! i) \<and> k \<in> set_of (t ! i))"
    by (auto simp: list_ex_iff)
  moreover have "\<dots> \<longleftrightarrow> nd_elems n \<inter> nd_elems t \<noteq> {}"
    using nd_disjoint_iff [of "\<lambda>i k. i < length t \<and> k \<in> set_of (t ! i)" n] len
    by (auto simp: nd_elems_def [of t])
  ultimately show ?thesis by (simp add: nd_intersectionIsNotEmpty_def)
qed

lemma nd_getAllDest_prefix:
  assumes "nd_inv mt n" "k \<le> length n"
  shows "sorted_wrt (<) (concat (map (\<lambda>i. map (\<lambda>j. MachineType_base_number mt i + j) (set_members (n ! i))) [0..<k])) \<and>
    (\<forall>d \<in> set (concat (map (\<lambda>i. map (\<lambda>j. MachineType_base_number mt i + j) (set_members (n ! i))) [0..<k])).
       d < sum_list (map (MachineType_base_count mt) [0..<k]))"
  using assms(2)
proof (induction k)
  case (Suc k)
  let ?c = "MachineType_base_count mt" and ?b = "MachineType_base_number mt k"
  have ok: "bset_inv (n ! k)" "m_nSize (n ! k) = ?c k" "?b = sum_list (map ?c [0..<k])"
    using assms(1) Suc.prems by (auto simp: nd_inv_def machine_types_ok_def)
  note mem = set_members_ok [OF ok(1)]
  have rng: "j < ?c k" if "j \<in> set (set_members (n ! k))" for j
    using that mem(1) ok(1,2) by (auto simp: bset_inv_def)
  define xs where "xs = concat (map (\<lambda>i. map (\<lambda>j. MachineType_base_number mt i + j) (set_members (n ! i))) [0..<k])"
  define ys where "ys = map (\<lambda>j. ?b + j) (set_members (n ! k))"
  have xs: "sorted_wrt (<) xs" "\<And>d. d \<in> set xs \<Longrightarrow> d < ?b"
    using Suc.IH Suc.prems ok(3) unfolding xs_def by (simp, metis Suc_leD)
  have ys: "sorted_wrt (<) ys" "\<And>d. d \<in> set ys \<Longrightarrow> ?b \<le> d \<and> d < ?b + ?c k"
    using mem(2) rng by (auto simp: ys_def sorted_wrt_map)
  have "sorted_wrt (<) (xs @ ys)"
    unfolding sorted_wrt_append using xs ys by (meson order_less_le_trans)
  moreover have "\<forall>d \<in> set (xs @ ys). d < ?b + ?c k"
    using xs(2) ys(2) by (auto intro: trans_less_add1)
  ultimately show ?case using ok(3) by (simp add: xs_def ys_def)
qed simp

text \<open>\<^verbatim>\<open>NetDest\<close> is a set of machines: adding and removing one machine and asking for another act
  as on the abstract set, for any protocol whose generated machine-type functions keep their
  promises.\<close>

lemma net_dest_element_ops:
  assumes "nd_inv mt n" "m \<in> nd_machines mt" "k \<in> nd_machines mt"
  shows "(nd_add mt m n \<bind> nd_isElement mt k) = Some (k = m \<or> k \<in> nd_elems n) \<and>
    (nd_remove mt m n \<bind> nd_isElement mt k) = Some (k \<noteq> m \<and> k \<in> nd_elems n)"
  using ndest.add_then_member [OF assms] ndest.remove_then_member [OF assms] by simp

definition sample_machines :: machine_types where
  "sample_machines = \<lparr>MachineType_NUM = 3, MachineType_base_level = (\<lambda>t. t),
     MachineType_base_count = (\<lambda>t. if t = 1 then 4 else 2),
     MachineType_base_number = (\<lambda>t. sum_list (map (\<lambda>t. if t = 1 then 4 else 2) [0..<t]))\<rparr>"

lemma sample_machines_ok: "machine_types_ok sample_machines"
  by (simp add: sample_machines_def machine_types_ok_def)

text \<open>C34. Set algebra of \<^verbatim>\<open>NetDest\<close>: union, difference, intersection, inclusion, overlap, emptiness
  and fullness of two destination sets of the same protocol are computed exactly, and
  \<^verbatim>\<open>getAllDest\<close> lists, in increasing order and without repetition, the network number of every
  machine of the set and nothing else.\<close>

theorem net_dest_algebra:
  assumes "nd_inv mt n" "nd_inv mt t"
  shows "map_option nd_elems (nd_addNetDest t n) = Some (nd_elems n \<union> nd_elems t) \<and>
    map_option nd_elems (nd_OR t n) = Some (nd_elems n \<union> nd_elems t) \<and>
    map_option nd_elems (nd_removeNetDest t n) = Some (nd_elems n - nd_elems t) \<and>
    map_option nd_elems (nd_AND t n) = Some (nd_elems n \<inter> nd_elems t) \<and>
    nd_isSuperset t n = Some (nd_elems t \<subseteq> nd_elems n) \<and>
    nd_intersectionIsNotEmpty t n = Some (nd_elems n \<inter> nd_elems t \<noteq> {}) \<and>
    (nd_isEmpty n \<longleftrightarrow> nd_elems n = {}) \<and> (nd_isBroadcast n \<longleftrightarrow> nd_elems n = nd_machines mt) \<and>
    sorted_wrt (<) (nd_getAllDest mt n) \<and>
    set (nd_getAllDest mt n) = (\<lambda>m. MachineType_base_number mt (mach_type m) + mach_num m) ` nd_elems n"
proof -
  have "set (nd_getAllDest mt n) = (\<Union>i < length n. (\<lambda>k. MachineType_base_number mt i + k) ` set_of (n ! i))"
    using assms(1) set_members_ok(1) by (auto simp: nd_getAllDest_def nd_inv_def atLeast0LessThan)
  also have "\<dots> = (\<lambda>m. MachineType_base_number mt (mach_type m) + mach_num m) ` nd_elems n"
  proof (intro equalityI subsetI)
    fix d assume "d \<in> (\<Union>i < length n. (\<lambda>k. MachineType_base_number mt i + k) ` set_of (n ! i))"
    then obtain i k where "i < length n" "k \<in> set_of (n ! i)" "d = MachineType_base_number mt i + k" by blast
    then show "d \<in> (\<lambda>m. MachineType_base_number mt (mach_type m) + mach_num m) ` nd_elems n"
      by (intro image_eqI [of _ _ "\<lparr>mach_type = i, mach_num = k\<rparr>"]) (simp_all add: nd_elems_def)
  qed (auto simp: nd_elems_def)
  finally have all: "set (nd_getAllDest mt n) = (\<lambda>m. MachineType_base_number mt (mach_type m) + mach_num m) ` nd_elems n" .
  have srt: "sorted_wrt (<) (nd_getAllDest mt n)"
    unfolding nd_getAllDest_def using nd_getAllDest_prefix [OF assms(1) order.refl] by blast
  have "map_option nd_elems (nd_addNetDest t n) = Some (nd_elems n \<union> nd_elems t)"
    "map_option nd_elems (nd_OR t n) = Some (nd_elems n \<union> nd_elems t)"
    "map_option nd_elems (nd_removeNetDest t n) = Some (nd_elems n - nd_elems t)"
    "map_option nd_elems (nd_AND t n) = Some (nd_elems n \<inter> nd_elems t)"
    using nd_addNetDest_ok [OF assms] nd_OR_ok [OF assms] nd_removeNetDest_ok [OF assms] nd_AND_ok [OF assms]
    by auto
  then show ?thesis
    using nd_isSuperset_ok [OF assms] nd_intersection_ok [OF assms] nd_isEmpty_ok [of n]
      nd_isBroadcast_ok [OF assms(1)] all srt
    by blast
qed

theorem net_dest_algebra_witness:
  "\<exists>n. nd_new sample_machines = Some n \<and> nd_isSuperset n n = Some True"
  using nd_new_ok [OF sample_machines_ok] net_dest_algebra by auto

end
