(* ===== verification/Component_Mapping.thy ===== *)
theory Component_Mapping
  imports Ruby_Address Net_Dest
begin

text \<open>
  The mapping of addresses and machines to components:
  \<^verbatim>\<open>ruby_clean/slicc_interface/RubySlicc_ComponentMapping.h\<close>. The machine types a protocol defines
  are the fields of \<open>component_types\<close>; a type the protocol lacks has the value
  \<^verbatim>\<open>MachineType_NUM\<close>, as the macros of the header arrange.
\<close>

record component_types =
  MACHINETYPE_L1CACHE_ENUM :: nat
  MACHINETYPE_L2CACHE_ENUM :: nat
  MACHINETYPE_L3CACHE_ENUM :: nat
  MACHINETYPE_PERSISTENTARBITER_ENUM :: nat
  MACHINETYPE_COLLECTOR_ENUM :: nat
  MachineType_Directory :: nat

datatype generic_machine_type =
  Generic_L1Cache | Generic_L2Cache | Generic_L3Cache | Generic_Directory | Generic_Collector

abbreviation machine :: "nat \<Rightarrow> nat \<Rightarrow> machine_id" where
  "machine t n \<equiv> \<lparr>mach_type = t, mach_num = n\<rparr>"

definition map_address_to_L1CacheSet :: "ruby_config \<Rightarrow> address \<Rightarrow> nat \<Rightarrow> nat option" where
  "map_address_to_L1CacheSet c a cache_num_set_bits = do {
     r \<leftarrow> bitSelect (int (g_DATA_BLOCK_BITS c)) (int (g_DATA_BLOCK_BITS c) + int cache_num_set_bits - 1) a;
     Some (unat r) }"

definition map_address_to_L2CacheSet :: "ruby_config \<Rightarrow> address \<Rightarrow> nat \<Rightarrow> nat option" where
  "map_address_to_L2CacheSet c a cache_num_set_bits = do {
     check (cache_num_set_bits = L2_CACHE_NUM_SETS_BITS c);
     r \<leftarrow> (if MAP_L2BANKS_TO_LOWEST_BITS c
       then bitSelect (int (g_DATA_BLOCK_BITS c) + int (g_NUM_L2_BANKS_PER_CHIP_BITS c))
              (int (g_DATA_BLOCK_BITS c) + int (g_NUM_L2_BANKS_PER_CHIP_BITS c) + int cache_num_set_bits - 1) a
       else bitSelect (int (g_DATA_BLOCK_BITS c)) (int (g_DATA_BLOCK_BITS c) + int cache_num_set_bits - 1) a);
     Some (unat r) }"

text \<open>The bank selection that \<^verbatim>\<open>map_L1CacheMachId_to_L2Cache\<close> and \<^verbatim>\<open>map_L2ChipId_to_L2Cache\<close> share.\<close>

definition L2bank_of :: "ruby_config \<Rightarrow> address \<Rightarrow> nat option" where
  "L2bank_of c a = do {
     L2bank \<leftarrow> (if 0 < g_NUM_L2_BANKS_PER_CHIP_BITS c
       then do {
         r \<leftarrow> (if MAP_L2BANKS_TO_LOWEST_BITS c
           then bitSelect (int (g_DATA_BLOCK_BITS c))
                  (int (g_DATA_BLOCK_BITS c) + int (g_NUM_L2_BANKS_PER_CHIP_BITS c) - 1) a
           else bitSelect (int (g_DATA_BLOCK_BITS c) + int (L2_CACHE_NUM_SETS_BITS c))
                  (int (g_DATA_BLOCK_BITS c) + int (L2_CACHE_NUM_SETS_BITS c) +
                   int (g_NUM_L2_BANKS_PER_CHIP_BITS c) - 1) a);
         Some (unat r) }
       else Some 0);
     check (L2bank < g_NUM_L2_BANKS_PER_CHIP c);
     Some L2bank }"

definition map_L1CacheMachId_to_L2Cache ::
  "ruby_config \<Rightarrow> component_types \<Rightarrow> address \<Rightarrow> machine_id \<Rightarrow> machine_id option" where
  "map_L1CacheMachId_to_L2Cache c ct a L1CacheMachId = do {
     L2bank \<leftarrow> L2bank_of c a;
     let num = L1CacheNumToL2Base c (mach_num L1CacheMachId) * g_NUM_L2_BANKS_PER_CHIP c + L2bank;
     check (num < g_NUM_L2_BANKS c);
     Some (machine (MACHINETYPE_L2CACHE_ENUM ct) num) }"

definition map_L2ChipId_to_L2Cache ::
  "ruby_config \<Rightarrow> component_types \<Rightarrow> address \<Rightarrow> nat \<Rightarrow> machine_id option" where
  "map_L2ChipId_to_L2Cache c ct a L2ChipId = do {
     check (L2ChipId < g_NUM_CHIPS c);
     L2bank \<leftarrow> L2bank_of c a;
     let num = L2ChipId * g_NUM_L2_BANKS_PER_CHIP c + L2bank;
     check (num < g_NUM_L2_BANKS c);
     Some (machine (MACHINETYPE_L2CACHE_ENUM ct) num) }"

definition map_Address_to_Directory :: "ruby_config \<Rightarrow> component_types \<Rightarrow> address \<Rightarrow> machine_id option" where
  "map_Address_to_Directory c ct a = do {
     d \<leftarrow> map_Address_to_DirectoryNode c a;
     Some (machine (MachineType_Directory ct) d) }"

definition map_Address_to_CentralArbiterNode ::
  "ruby_config \<Rightarrow> component_types \<Rightarrow> address \<Rightarrow> machine_id option" where
  "map_Address_to_CentralArbiterNode c ct a = do {
     d \<leftarrow> map_Address_to_DirectoryNode c a;
     check (d < g_NUM_MEMORIES c);
     Some (machine (MACHINETYPE_PERSISTENTARBITER_ENUM ct) d) }"

fun add_banks ::
  "ruby_config \<Rightarrow> component_types \<Rightarrow> machine_types \<Rightarrow> address \<Rightarrow> nat list \<Rightarrow> net_dest \<Rightarrow> net_dest option" where
  "add_banks c ct mt a [] dest = Some dest"
| "add_banks c ct mt a (i # is) dest = do {
     m \<leftarrow> map_L2ChipId_to_L2Cache c ct a i;
     d \<leftarrow> nd_add mt m dest;
     add_banks c ct mt a is d }"

definition getMultiStaticL2BankNetDest ::
  "ruby_config \<Rightarrow> component_types \<Rightarrow> machine_types \<Rightarrow> address \<Rightarrow> bset \<Rightarrow> net_dest option" where
  "getMultiStaticL2BankNetDest c ct mt a sharers = do {
     dest \<leftarrow> nd_new mt;
     add_banks c ct mt a (set_members sharers) dest }"

definition getAllPertinentL2Banks ::
  "ruby_config \<Rightarrow> component_types \<Rightarrow> machine_types \<Rightarrow> address \<Rightarrow> net_dest option" where
  "getAllPertinentL2Banks c ct mt a = do {
     dest \<leftarrow> nd_new mt;
     add_banks c ct mt a [0..<g_NUM_CHIPS c] dest }"

definition getOtherLocalL1IDs ::
  "ruby_config \<Rightarrow> component_types \<Rightarrow> machine_types \<Rightarrow> machine_id \<Rightarrow> net_dest option" where
  "getOtherLocalL1IDs c ct mt L1 = do {
     let start = mach_num L1 div g_PROCS_PER_CHIP c * g_PROCS_PER_CHIP c;
     ret \<leftarrow> nd_new mt;
     check (MACHINETYPE_L1CACHE_ENUM ct \<noteq> MachineType_NUM mt);
     nd_add_machines mt (MACHINETYPE_L1CACHE_ENUM ct)
       (filter (\<lambda>i. i \<noteq> mach_num L1) [start..<start + g_PROCS_PER_CHIP c]) ret }"

definition getLocalL1IDs ::
  "ruby_config \<Rightarrow> component_types \<Rightarrow> machine_types \<Rightarrow> machine_id \<Rightarrow> net_dest option" where
  "getLocalL1IDs c ct mt mach = do {
     check (MACHINETYPE_L1CACHE_ENUM ct \<noteq> MachineType_NUM mt);
     ret \<leftarrow> nd_new mt;
     if mach_type mach = MACHINETYPE_L1CACHE_ENUM ct
     then (let start = mach_num mach div g_PROCS_PER_CHIP c * g_PROCS_PER_CHIP c
           in nd_add_machines mt (MACHINETYPE_L1CACHE_ENUM ct) [start..<start + g_PROCS_PER_CHIP c] ret)
     else if mach_type mach = MACHINETYPE_L2CACHE_ENUM ct
     then (let chip = mach_num mach div g_NUM_L2_BANKS_PER_CHIP c; start = chip * g_PROCS_PER_CHIP c
           in nd_add_machines mt (MACHINETYPE_L1CACHE_ENUM ct) [start..<start + g_PROCS_PER_CHIP c] ret)
     else Some ret }"

definition getExternalL1IDs ::
  "ruby_config \<Rightarrow> component_types \<Rightarrow> machine_types \<Rightarrow> machine_id \<Rightarrow> net_dest option" where
  "getExternalL1IDs c ct mt L1 = do {
     ret \<leftarrow> nd_new mt;
     check (MACHINETYPE_L1CACHE_ENUM ct \<noteq> MachineType_NUM mt);
     ret1 \<leftarrow> nd_add_machines mt (MACHINETYPE_L1CACHE_ENUM ct) [0..<g_NUM_PROCESSORS c] ret;
     local \<leftarrow> getLocalL1IDs c ct mt L1;
     nd_removeNetDest local ret1 }"

definition isLocalProcessor :: "ruby_config \<Rightarrow> machine_id \<Rightarrow> machine_id \<Rightarrow> bool" where
  "isLocalProcessor c thisId tarID =
     (let start = mach_num thisId div g_PROCS_PER_CHIP c * g_PROCS_PER_CHIP c
      in list_ex (\<lambda>i. i = mach_num tarID) [start..<start + g_PROCS_PER_CHIP c])"

definition isL1OnChip :: "component_types \<Rightarrow> machine_id \<Rightarrow> nat \<Rightarrow> bool" where
  "isL1OnChip ct L1machID L2NodeID =
     (if mach_type L1machID = MACHINETYPE_L1CACHE_ENUM ct then mach_num L1machID = L2NodeID else False)"

definition isL2OnChip :: "component_types \<Rightarrow> machine_id \<Rightarrow> nat \<Rightarrow> bool" where
  "isL2OnChip ct L2machID L2NodeID =
     (if mach_type L2machID = MACHINETYPE_L2CACHE_ENUM ct then mach_num L2machID = L2NodeID else False)"

definition closest_clockwise_distance :: "ruby_config \<Rightarrow> int \<Rightarrow> int \<Rightarrow> int" where
  "closest_clockwise_distance c this_node next_node =
     (if this_node \<le> next_node then next_node - this_node
      else next_node - this_node + int (g_NUM_CHIPS c))"

definition closer_clockwise_processor :: "ruby_config \<Rightarrow> int \<Rightarrow> int \<Rightarrow> int \<Rightarrow> bool" where
  "closer_clockwise_processor c this_node newer older \<longleftrightarrow>
     closest_clockwise_distance c this_node newer < closest_clockwise_distance c this_node older"

definition getChipID :: "ruby_config \<Rightarrow> machine_id \<Rightarrow> nat" where
  "getChipID c L2machID = mach_num L2machID mod g_NUM_CHIPS c div g_PROCS_PER_CHIP c"

definition machineIDToNodeID :: "machine_id \<Rightarrow> nat" where
  "machineIDToNodeID machID = mach_num machID"

definition machineIDToVersion :: "ruby_config \<Rightarrow> machine_id \<Rightarrow> nat" where
  "machineIDToVersion c machID = mach_num machID div g_NUM_CHIPS c"

definition machineIDToMachineType :: "machine_id \<Rightarrow> nat" where
  "machineIDToMachineType machID = mach_type machID"

definition L1CacheMachIDToProcessorNum :: "component_types \<Rightarrow> machine_id \<Rightarrow> nat option" where
  "L1CacheMachIDToProcessorNum ct machID = do {
     check (mach_type machID = MACHINETYPE_L1CACHE_ENUM ct);
     Some (mach_num machID) }"

definition L2CacheMachIDToChipID :: "ruby_config \<Rightarrow> component_types \<Rightarrow> machine_id \<Rightarrow> nat option" where
  "L2CacheMachIDToChipID c ct machID = do {
     check (mach_type machID = MACHINETYPE_L2CACHE_ENUM ct);
     Some (mach_num machID div g_NUM_L2_BANKS_PER_CHIP c) }"

definition getCollectorDest :: "component_types \<Rightarrow> machine_id \<Rightarrow> machine_id" where
  "getCollectorDest ct L1MachID = machine (MACHINETYPE_COLLECTOR_ENUM ct) (mach_num L1MachID)"

definition getCollectorL1Cache :: "component_types \<Rightarrow> machine_id \<Rightarrow> machine_id" where
  "getCollectorL1Cache ct colID = machine (MACHINETYPE_L1CACHE_ENUM ct) (mach_num colID)"

definition getL1MachineID :: "component_types \<Rightarrow> nat \<Rightarrow> machine_id" where
  "getL1MachineID ct L1RubyNode = machine (MACHINETYPE_L1CACHE_ENUM ct) L1RubyNode"

definition ConvertMachToGenericMach :: "component_types \<Rightarrow> nat \<Rightarrow> generic_machine_type option" where
  "ConvertMachToGenericMach ct machType =
     (if machType = MACHINETYPE_L1CACHE_ENUM ct then Some Generic_L1Cache
      else if machType = MACHINETYPE_L2CACHE_ENUM ct then Some Generic_L2Cache
      else if machType = MACHINETYPE_L3CACHE_ENUM ct then Some Generic_L3Cache
      else if machType = MachineType_Directory ct then Some Generic_Directory
      else if machType = MACHINETYPE_COLLECTOR_ENUM ct then Some Generic_Collector
      else None)"

subsection \<open>Cache sets and banks\<close>

lemma bitSelect_field:
  assumes "0 < k" "s + k \<le> 64"
  shows "\<exists>r. bitSelect (int s) (int s + int k - 1) a = Some r \<and> unat r = unat a div 2 ^ s mod 2 ^ k"
proof -
  have "int s + int k - 1 = int (s + k - 1)" using assms(1) by simp
  moreover have "s + k - 1 + 1 - s = k" using assms(1) by simp
  ultimately show ?thesis using bitSelect_Some [of s "s + k - 1" a] assms by simp
qed

lemma L2bank_of_ok:
  assumes "config_ok c" "g_DATA_BLOCK_BITS c + L2_CACHE_NUM_SETS_BITS c + g_NUM_L2_BANKS_PER_CHIP_BITS c \<le> 64"
  shows "\<exists>b < g_NUM_L2_BANKS_PER_CHIP c. L2bank_of c a = Some b \<and>
    b = unat a div 2 ^ (g_DATA_BLOCK_BITS c + (if MAP_L2BANKS_TO_LOWEST_BITS c then 0 else L2_CACHE_NUM_SETS_BITS c))
          mod 2 ^ g_NUM_L2_BANKS_PER_CHIP_BITS c"
proof -
  let ?k = "g_NUM_L2_BANKS_PER_CHIP_BITS c"
  have n: "g_NUM_L2_BANKS_PER_CHIP c = 2 ^ ?k" using assms(1) by (simp add: config_ok_def)
  show ?thesis
  proof (cases "?k = 0")
    case True
    then show ?thesis using n by (simp add: L2bank_of_def check_bind)
  next
    case False
    then have k: "0 < ?k" by simp
    let ?s = "g_DATA_BLOCK_BITS c" and ?t = "g_DATA_BLOCK_BITS c + L2_CACHE_NUM_SETS_BITS c"
    obtain r1 where "bitSelect (int ?s) (int ?s + int ?k - 1) a = Some r1" "unat r1 = unat a div 2 ^ ?s mod 2 ^ ?k"
      using bitSelect_field [OF k, of ?s a] assms(2) by auto
    moreover obtain r2 where "bitSelect (int ?t) (int ?t + int ?k - 1) a = Some r2" "unat r2 = unat a div 2 ^ ?t mod 2 ^ ?k"
      using bitSelect_field [OF k, of ?t a] assms(2) by auto
    ultimately show ?thesis using n k by (auto simp: L2bank_of_def check_bind add.assoc)
  qed
qed

text \<open>Cache indexing stays in range: for a consistent configuration whose index fields fit in
  the address, the L1 and L2 set functions return a set number below \<open>2 ^\<close> (set bits), the bank
  selection a bank of the chip, and L2 sets and L2 banks together use exactly the address bits
  above the block offset, so two addresses with the same bank and set agree in all those bits.\<close>

lemma cache_index_in_range:
  assumes "config_ok c" "g_DATA_BLOCK_BITS c + L2_CACHE_NUM_SETS_BITS c + g_NUM_L2_BANKS_PER_CHIP_BITS c \<le> 64"
    and "0 < n" "g_DATA_BLOCK_BITS c + n \<le> 64"
  shows "\<exists>l1 l2 b. map_address_to_L1CacheSet c a n = Some l1 \<and> l1 < 2 ^ n \<and>
    map_address_to_L2CacheSet c a (L2_CACHE_NUM_SETS_BITS c) = Some l2 \<and> l2 < 2 ^ L2_CACHE_NUM_SETS_BITS c \<and>
    L2bank_of c a = Some b \<and> b < g_NUM_L2_BANKS_PER_CHIP c \<and>
    unat a div 2 ^ g_DATA_BLOCK_BITS c mod 2 ^ (L2_CACHE_NUM_SETS_BITS c + g_NUM_L2_BANKS_PER_CHIP_BITS c) =
      (if MAP_L2BANKS_TO_LOWEST_BITS c then l2 * 2 ^ g_NUM_L2_BANKS_PER_CHIP_BITS c + b
       else b * 2 ^ L2_CACHE_NUM_SETS_BITS c + l2)"
proof -
  let ?s = "g_DATA_BLOCK_BITS c" and ?k = "g_NUM_L2_BANKS_PER_CHIP_BITS c" and ?m = "L2_CACHE_NUM_SETS_BITS c"
  let ?x = "unat a div 2 ^ ?s"
  have m: "0 < ?m" using assms(1) by (simp add: config_ok_def)
  obtain b where b: "b < g_NUM_L2_BANKS_PER_CHIP c" "L2bank_of c a = Some b"
    "b = unat a div 2 ^ (?s + (if MAP_L2BANKS_TO_LOWEST_BITS c then 0 else ?m)) mod 2 ^ ?k"
    using L2bank_of_ok [OF assms(1,2), of a] by blast
  obtain r1 where r1: "bitSelect (int ?s) (int ?s + int n - 1) a = Some r1" "unat r1 = ?x mod 2 ^ n"
    using bitSelect_field [OF assms(3,4), of a] by blast
  let ?t = "?s + (if MAP_L2BANKS_TO_LOWEST_BITS c then ?k else 0)"
  obtain r2 where r2: "bitSelect (int ?t) (int ?t + int ?m - 1) a = Some r2" "unat r2 = unat a div 2 ^ ?t mod 2 ^ ?m"
  proof -
    have "?t + ?m \<le> 64" using assms(2) by simp
    with bitSelect_field [OF m, of ?t a] that show thesis by blast
  qed
  have split: "?x mod 2 ^ (i + j) = ?x div 2 ^ i mod 2 ^ j * 2 ^ i + ?x mod 2 ^ i" for i j
    by (simp add: power_add mod_mult2_eq mult.commute)
  have shift: "unat a div 2 ^ (?s + i) = ?x div 2 ^ i" for i by (simp add: power_add div_mult2_eq)
  have "?x mod 2 ^ (?m + ?k) = (if MAP_L2BANKS_TO_LOWEST_BITS c then unat r2 * 2 ^ ?k + b else b * 2 ^ ?m + unat r2)"
    using split [of ?k ?m] split [of ?m ?k] b(3) r2(2) shift [of ?k] shift [of ?m]
    by (simp add: add.commute [of ?k ?m])
  moreover have "map_address_to_L2CacheSet c a ?m = Some (unat r2)"
    using r2(1) by (cases "MAP_L2BANKS_TO_LOWEST_BITS c") (simp_all add: map_address_to_L2CacheSet_def check_bind)
  moreover have "map_address_to_L1CacheSet c a n = Some (unat r1)"
    using r1(1) by (simp add: map_address_to_L1CacheSet_def)
  moreover have "unat r1 < 2 ^ n" "unat r2 < 2 ^ ?m" using r1(2) r2(2) by simp_all
  ultimately show ?thesis using b(1,2) by blast
qed

text \<open>An L1 cache talks to an L2 bank of its own chip: the bank
  \<^verbatim>\<open>map_L1CacheMachId_to_L2Cache\<close> picks exists, \<^verbatim>\<open>L2CacheMachIDToChipID\<close> of it is the chip of the L1
  cache, and it is the bank \<^verbatim>\<open>map_L2ChipId_to_L2Cache\<close> picks for that chip.\<close>

lemma L1_to_L2_same_chip:
  assumes "config_ok c" "g_DATA_BLOCK_BITS c + L2_CACHE_NUM_SETS_BITS c + g_NUM_L2_BANKS_PER_CHIP_BITS c \<le> 64"
    and "mach_num l1 < g_NUM_PROCESSORS c"
  shows "\<exists>m. map_L1CacheMachId_to_L2Cache c ct a l1 = Some m \<and>
    mach_num m < g_NUM_L2_BANKS c \<and>
    L2CacheMachIDToChipID c ct m = Some (L1CacheNumToL2Base c (mach_num l1)) \<and>
    map_L2ChipId_to_L2Cache c ct a (L1CacheNumToL2Base c (mach_num l1)) = Some m"
proof -
  let ?p = "g_PROCS_PER_CHIP c" and ?b = "g_NUM_L2_BANKS_PER_CHIP c" and ?chip = "L1CacheNumToL2Base c (mach_num l1)"
  have k: "g_NUM_PROCESSORS c = g_NUM_CHIPS c * ?p" "g_NUM_L2_BANKS c = g_NUM_CHIPS c * ?b"
    using assms(1) unfolding config_ok_def by blast+
  obtain b where b: "L2bank_of c a = Some b" "b < ?b" using L2bank_of_ok [OF assms(1,2), of a] by blast
  have chip: "?chip < g_NUM_CHIPS c"
    unfolding L1CacheNumToL2Base_def using assms(3) k(1) by (intro less_mult_imp_div_less) simp
  then have "(?chip + 1) * ?b \<le> g_NUM_CHIPS c * ?b" by (intro mult_right_mono) auto
  then have lt: "?chip * ?b + b < g_NUM_L2_BANKS c" using b(2) k(2) by simp
  moreover have "(?chip * ?b + b) div ?b = ?chip" using b(2) by simp
  ultimately show ?thesis
    using b chip
    by (simp add: map_L1CacheMachId_to_L2Cache_def map_L2ChipId_to_L2Cache_def L2CacheMachIDToChipID_def
        check_bind Let_def)
qed

subsection \<open>Local and external L1 caches\<close>

definition topology_ok :: "ruby_config \<Rightarrow> component_types \<Rightarrow> machine_types \<Rightarrow> bool" where
  "topology_ok c ct mt \<longleftrightarrow> config_ok c \<and> machine_types_ok mt \<and>
     MACHINETYPE_L1CACHE_ENUM ct < MachineType_NUM mt \<and>
     MachineType_base_count mt (MACHINETYPE_L1CACHE_ENUM ct) = g_NUM_PROCESSORS c"

lemma nd_add_machines_ok:
  assumes "nd_inv mt n" "t < MachineType_NUM mt" "\<forall>i \<in> set is. i < MachineType_base_count mt t"
  shows "\<exists>n'. nd_add_machines mt t is n = Some n' \<and> nd_inv mt n' \<and> nd_elems n' = machine t ` set is \<union> nd_elems n"
  using assms
proof (induction "is" arbitrary: n)
  case (Cons i "is")
  have "machine t i \<in> nd_machines mt" using Cons.prems by (simp add: nd_machines_def)
  then obtain n1 where n1: "nd_add mt (machine t i) n = Some n1" "nd_inv mt n1"
    "nd_elems n1 = insert (machine t i) (nd_elems n)"
    using nd_add_ok [OF Cons.prems(1)] by blast
  with Cons.IH [OF n1(2)] Cons.prems show ?case by auto
qed simp

lemma chip_range:
  assumes "config_ok c" "i < g_NUM_PROCESSORS c"
  shows "i div g_PROCS_PER_CHIP c * g_PROCS_PER_CHIP c + g_PROCS_PER_CHIP c \<le> g_NUM_PROCESSORS c"
    "i \<in> {i div g_PROCS_PER_CHIP c * g_PROCS_PER_CHIP c..< i div g_PROCS_PER_CHIP c * g_PROCS_PER_CHIP c + g_PROCS_PER_CHIP c}"
proof -
  let ?p = "g_PROCS_PER_CHIP c"
  have n: "g_NUM_PROCESSORS c = g_NUM_CHIPS c * ?p" "0 < ?p" using assms(1) by (auto simp: config_ok_def)
  have "i div ?p < g_NUM_CHIPS c" using assms(2) n by (intro less_mult_imp_div_less) simp
  then have "(i div ?p + 1) * ?p \<le> g_NUM_CHIPS c * ?p" by (intro mult_right_mono) auto
  then show "i div ?p * ?p + ?p \<le> g_NUM_PROCESSORS c" using n(1) by simp
  have "i = i div ?p * ?p + i mod ?p" "i mod ?p < ?p" using n(2) by simp_all
  then show "i \<in> {i div ?p * ?p..< i div ?p * ?p + ?p}" by (metis atLeastLessThan_iff le_add1 nat_add_left_cancel_less)
qed

lemma getLocalL1IDs_ok:
  assumes "topology_ok c ct mt" "mach_type l1 = MACHINETYPE_L1CACHE_ENUM ct" "mach_num l1 < g_NUM_PROCESSORS c"
  shows "\<exists>n. getLocalL1IDs c ct mt l1 = Some n \<and> nd_inv mt n \<and>
    nd_elems n = machine (MACHINETYPE_L1CACHE_ENUM ct) `
      {mach_num l1 div g_PROCS_PER_CHIP c * g_PROCS_PER_CHIP c..<
       mach_num l1 div g_PROCS_PER_CHIP c * g_PROCS_PER_CHIP c + g_PROCS_PER_CHIP c}"
proof -
  let ?t = "MACHINETYPE_L1CACHE_ENUM ct" and ?s = "mach_num l1 div g_PROCS_PER_CHIP c * g_PROCS_PER_CHIP c"
  have t: "config_ok c" "machine_types_ok mt" "?t < MachineType_NUM mt" "MachineType_base_count mt ?t = g_NUM_PROCESSORS c"
    using assms(1) by (simp_all add: topology_ok_def)
  obtain r where r: "nd_new mt = Some r" "nd_inv mt r" "nd_elems r = {}" using nd_new_ok [OF t(2)] by blast
  have "\<forall>i \<in> set [?s..<?s + g_PROCS_PER_CHIP c]. i < MachineType_base_count mt ?t"
    using chip_range(1) [OF t(1) assms(3)] t(4) by auto
  from nd_add_machines_ok [OF r(2) t(3) this] obtain n where
    "nd_add_machines mt ?t [?s..<?s + g_PROCS_PER_CHIP c] r = Some n" "nd_inv mt n"
    "nd_elems n = machine ?t ` {?s..<?s + g_PROCS_PER_CHIP c}" using r(3) by auto
  then show ?thesis using r(1) t(3) assms(2) by (simp add: getLocalL1IDs_def check_bind Let_def)
qed

text \<open>Local and external L1 caches partition the L1 caches of the system: for every L1 cache the
  two destination sets are disjoint, together they are all L1 caches, the cache itself is local,
  and a cache is local exactly when \<^verbatim>\<open>isLocalProcessor\<close> says so.\<close>

lemma L1_local_external_partition:
  assumes "topology_ok c ct mt" "mach_type l1 = MACHINETYPE_L1CACHE_ENUM ct" "mach_num l1 < g_NUM_PROCESSORS c"
  shows "\<exists>lo ex. getLocalL1IDs c ct mt l1 = Some lo \<and> getExternalL1IDs c ct mt l1 = Some ex \<and>
    nd_elems lo \<inter> nd_elems ex = {} \<and>
    nd_elems lo \<union> nd_elems ex = machine (MACHINETYPE_L1CACHE_ENUM ct) ` {..< g_NUM_PROCESSORS c} \<and>
    machine (MACHINETYPE_L1CACHE_ENUM ct) (mach_num l1) \<in> nd_elems lo \<and>
    (\<forall>i. machine (MACHINETYPE_L1CACHE_ENUM ct) i \<in> nd_elems lo \<longleftrightarrow>
       isLocalProcessor c l1 (machine (MACHINETYPE_L1CACHE_ENUM ct) i))"
proof -
  let ?t = "MACHINETYPE_L1CACHE_ENUM ct" and ?s = "mach_num l1 div g_PROCS_PER_CHIP c * g_PROCS_PER_CHIP c"
  have t: "config_ok c" "machine_types_ok mt" "?t < MachineType_NUM mt" "MachineType_base_count mt ?t = g_NUM_PROCESSORS c"
    using assms(1) by (simp_all add: topology_ok_def)
  obtain lo where lo: "getLocalL1IDs c ct mt l1 = Some lo" "nd_inv mt lo"
    "nd_elems lo = machine ?t ` {?s..<?s + g_PROCS_PER_CHIP c}"
    using getLocalL1IDs_ok [OF assms] by blast
  obtain r where r: "nd_new mt = Some r" "nd_inv mt r" "nd_elems r = {}" using nd_new_ok [OF t(2)] by blast
  have "\<forall>i \<in> set [0..<g_NUM_PROCESSORS c]. i < MachineType_base_count mt ?t" using t(4) by simp
  from nd_add_machines_ok [OF r(2) t(3) this] obtain al where
    al: "nd_add_machines mt ?t [0..<g_NUM_PROCESSORS c] r = Some al" "nd_inv mt al"
    "nd_elems al = machine ?t ` {..< g_NUM_PROCESSORS c}" using r(3) by (auto simp: atLeast0LessThan)
  from nd_removeNetDest_ok [OF al(2) lo(2)] obtain ex where
    ex: "nd_removeNetDest lo al = Some ex" "nd_elems ex = nd_elems al - nd_elems lo" by blast
  have "getExternalL1IDs c ct mt l1 = Some ex"
    using r(1) t(3) al(1) lo(1) ex(1) by (simp add: getExternalL1IDs_def check_bind)
  moreover have "nd_elems lo \<subseteq> nd_elems al"
    using lo(3) al(3) chip_range(1) [OF t(1) assms(3)] by auto
  moreover have "machine ?t i \<in> nd_elems lo \<longleftrightarrow> isLocalProcessor c l1 (machine ?t i)" for i
    using lo(3) by (auto simp: isLocalProcessor_def list_ex_iff Let_def)
  moreover have "machine ?t (mach_num l1) \<in> nd_elems lo"
    unfolding lo(3) using chip_range(2) [OF t(1) assms(3)] by (rule imageI)
  ultimately show ?thesis using lo(1) ex(2) al(3) by (intro exI [of _ lo] exI [of _ ex]) auto
qed

end
