(* ===== verification/Data_Blocks.thy ===== *)
theory Data_Blocks
  imports Ruby_Address
begin

text \<open>
  Blocks of data and the parts of them a request reads or writes:
  \<^verbatim>\<open>ruby_clean/common/DataBlock.C\<close>, \<^verbatim>\<open>SubBlock.C\<close> and their headers. Bytes are 8-bit words; indexing
  outside a block aborts (the assertion of \<^verbatim>\<open>Vector\<close>). The build-time switches \<^verbatim>\<open>DATA_BLOCK\<close> and
  \<^verbatim>\<open>XACT_MEMORY\<close> are arguments.
\<close>

record data_flags =
  DATA_BLOCK :: bool
  XACT_MEMORY :: bool

type_synonym data_block = "8 word list"

definition db_clear :: "data_block \<Rightarrow> data_block" where
  "db_clear d = map (\<lambda>_. 0) d"

definition db_new :: "data_flags \<Rightarrow> ruby_config \<Rightarrow> data_block" where
  "db_new fl c = db_clear (if DATA_BLOCK fl \<or> XACT_MEMORY fl then replicate (g_DATA_BLOCK_BYTES c) 0 else [])"

fun db_equal_from :: "nat \<Rightarrow> data_block \<Rightarrow> data_block \<Rightarrow> bool \<Rightarrow> bool option" where
  "db_equal_from 0 d e v = Some v"
| "db_equal_from (Suc k) d e v = do {
     check (length d - Suc k < length d);
     (if v then do { check (length d - Suc k < length e);
                     db_equal_from k d e (d ! (length d - Suc k) = e ! (length d - Suc k)) }
      else db_equal_from k d e False) }"

definition db_equal :: "data_block \<Rightarrow> data_block \<Rightarrow> bool option" where
  "db_equal d obj = db_equal_from (length d) d obj True"

definition db_getByte :: "data_flags \<Rightarrow> nat \<Rightarrow> data_block \<Rightarrow> 8 word option" where
  "db_getByte fl whichByte d =
     (if DATA_BLOCK fl \<or> XACT_MEMORY fl then do { check (whichByte < length d); Some (d ! whichByte) }
      else Some 0)"

definition db_setByte :: "data_flags \<Rightarrow> nat \<Rightarrow> 8 word \<Rightarrow> data_block \<Rightarrow> data_block option" where
  "db_setByte fl whichByte v d =
     (if DATA_BLOCK fl \<or> XACT_MEMORY fl then do { check (whichByte < length d); Some (d[whichByte := v]) }
      else Some d)"

record sub_block =
  sb_address :: address
  sb_logicalAddress :: address
  sb_data :: "8 word list"

definition sb_new :: "address \<Rightarrow> address \<Rightarrow> nat \<Rightarrow> sub_block" where
  "sb_new addr logicalAddress n =
     \<lparr>sb_address = addr, sb_logicalAddress = logicalAddress, sb_data = replicate n 0\<rparr>"

definition sb_getSize :: "sub_block \<Rightarrow> nat" where
  "sb_getSize s = length (sb_data s)"

definition sb_getByte :: "nat \<Rightarrow> sub_block \<Rightarrow> 8 word option" where
  "sb_getByte offset s = do { check (offset < length (sb_data s)); Some (sb_data s ! offset) }"

definition sb_setByte :: "nat \<Rightarrow> 8 word \<Rightarrow> sub_block \<Rightarrow> sub_block option" where
  "sb_setByte offset v s = do {
     check (offset < length (sb_data s));
     Some (s\<lparr>sb_data := (sb_data s)[offset := v]\<rparr>) }"

definition sb_readByte :: "sub_block \<Rightarrow> 8 word option" where
  "sb_readByte s = sb_getByte 0 s"

definition sb_writeByte :: "8 word \<Rightarrow> sub_block \<Rightarrow> sub_block option" where
  "sb_writeByte v s = sb_setByte 0 v s"

fun merge_from_loop :: "data_flags \<Rightarrow> nat \<Rightarrow> nat list \<Rightarrow> data_block \<Rightarrow> sub_block \<Rightarrow> sub_block option" where
  "merge_from_loop fl offset [] d s = Some s"
| "merge_from_loop fl offset (i # is) d s = do {
     v \<leftarrow> db_getByte fl (offset + i) d;
     s' \<leftarrow> sb_setByte i v s;
     merge_from_loop fl offset is d s' }"

definition internalMergeFrom :: "data_flags \<Rightarrow> ruby_config \<Rightarrow> data_block \<Rightarrow> sub_block \<Rightarrow> sub_block option" where
  "internalMergeFrom fl c d s = do {
     check (0 < sb_getSize s);
     f \<leftarrow> getOffset c (sb_address s);
     merge_from_loop fl (unat f) [0..<sb_getSize s] d s }"

fun merge_to_loop :: "data_flags \<Rightarrow> nat \<Rightarrow> nat list \<Rightarrow> sub_block \<Rightarrow> data_block \<Rightarrow> data_block option" where
  "merge_to_loop fl offset [] s d = Some d"
| "merge_to_loop fl offset (i # is) s d = do {
     v \<leftarrow> sb_getByte i s;
     d' \<leftarrow> db_setByte fl (offset + i) v d;
     merge_to_loop fl offset is s d' }"

definition internalMergeTo :: "data_flags \<Rightarrow> ruby_config \<Rightarrow> sub_block \<Rightarrow> data_block \<Rightarrow> data_block option" where
  "internalMergeTo fl c s d = do {
     check (0 < sb_getSize s);
     f \<leftarrow> getOffset c (sb_address s);
     merge_to_loop fl (unat f) [0..<sb_getSize s] s d }"

definition mergeTo :: "data_flags \<Rightarrow> ruby_config \<Rightarrow> sub_block \<Rightarrow> data_block \<Rightarrow> data_block option" where
  "mergeTo fl c s d = (if DATA_BLOCK fl then internalMergeTo fl c s d else Some d)"

definition mergeFrom :: "data_flags \<Rightarrow> ruby_config \<Rightarrow> data_block \<Rightarrow> sub_block \<Rightarrow> sub_block option" where
  "mergeFrom fl c d s = (if DATA_BLOCK fl then internalMergeFrom fl c d s else Some s)"

subsection \<open>Equality of blocks\<close>

lemma db_equal_from_ok:
  assumes "k \<le> length d" "length e = length d"
  shows "db_equal_from k d e v = Some (v \<and> (\<forall>i < k. d ! (length d - Suc i) = e ! (length d - Suc i)))"
  using assms
proof (induction k arbitrary: v)
  case (Suc k)
  then show ?case by (auto simp: check_bind less_Suc_eq)
qed simp

lemma db_equal_ok:
  assumes "length e = length d"
  shows "db_equal d e = Some (d = e)"
proof -
  have "(\<forall>i < length d. d ! (length d - Suc i) = e ! (length d - Suc i)) \<longleftrightarrow> d = e"
  proof
    assume a: "\<forall>i < length d. d ! (length d - Suc i) = e ! (length d - Suc i)"
    show "d = e"
    proof (rule nth_equalityI)
      fix i assume "i < length d"
      with a [rule_format, of "length d - Suc i"] show "d ! i = e ! i" by simp
    qed (use assms in simp)
  qed simp
  then show ?thesis by (simp add: db_equal_def db_equal_from_ok assms)
qed

subsection \<open>Merging\<close>

lemma merge_to_loop_ok:
  assumes "DATA_BLOCK fl" "k \<le> length (sb_data s)" "f + length (sb_data s) \<le> length d"
  shows "merge_to_loop fl f [k..<length (sb_data s)] s d =
    Some (take (f + k) d @ drop k (sb_data s) @ drop (f + length (sb_data s)) d)"
  using assms(2,3)
proof (induction "length (sb_data s) - k" arbitrary: k d)
  case 0
  then have "k = length (sb_data s)" by simp
  then show ?case by simp
next
  case (Suc n)
  then have k: "k < length (sb_data s)" by linarith
  then have u: "[k..<length (sb_data s)] = k # [Suc k..<length (sb_data s)]" by (simp add: upt_conv_Cons)
  let ?d = "d[f + k := sb_data s ! k]"
  have "merge_to_loop fl f [Suc k..<length (sb_data s)] s ?d =
      Some (take (f + Suc k) ?d @ drop (Suc k) (sb_data s) @ drop (f + length (sb_data s)) ?d)"
    using Suc k by (intro Suc.hyps) simp_all
  moreover have "take (f + Suc k) ?d = take (f + k) d @ [sb_data s ! k]"
    using Suc.prems k by (simp add: take_Suc_conv_app_nth)
  ultimately show ?case
    using assms(1) Suc.prems k u by (simp add: sb_getByte_def db_setByte_def check_bind Cons_nth_drop_Suc)
qed

lemma merge_from_loop_ok:
  assumes "DATA_BLOCK fl" "k \<le> length (sb_data s)" "f + length (sb_data s) \<le> length d"
  shows "merge_from_loop fl f [k..<length (sb_data s)] d s =
    Some (s\<lparr>sb_data := take k (sb_data s) @ take (length (sb_data s) - k) (drop (f + k) d)\<rparr>)"
  using assms(2,3)
proof (induction "length (sb_data s) - k" arbitrary: k s)
  case 0
  then have "k = length (sb_data s)" by simp
  then show ?case by simp
next
  case (Suc n)
  then have k: "k < length (sb_data s)" by linarith
  then have u: "[k..<length (sb_data s)] = k # [Suc k..<length (sb_data s)]" by (simp add: upt_conv_Cons)
  let ?s = "s\<lparr>sb_data := (sb_data s)[k := d ! (f + k)]\<rparr>"
  have "merge_from_loop fl f [Suc k..<length (sb_data ?s)] d ?s =
      Some (?s\<lparr>sb_data := take (Suc k) (sb_data ?s) @ take (length (sb_data ?s) - Suc k) (drop (f + Suc k) d)\<rparr>)"
    using Suc k by (intro Suc.hyps) simp_all
  moreover have "take (Suc k) (sb_data ?s) = take k (sb_data s) @ [d ! (f + k)]"
    using k by (simp add: take_Suc_conv_app_nth)
  moreover have "take (length (sb_data s) - k) (drop (f + k) d) =
      d ! (f + k) # take (length (sb_data s) - Suc k) (drop (f + Suc k) d)"
  proof -
    have "drop (f + k) d = d ! (f + k) # drop (f + Suc k) d"
      using Suc.prems k by (simp add: Cons_nth_drop_Suc)
    moreover have "length (sb_data s) - k = Suc (length (sb_data s) - Suc k)" using k by simp
    ultimately show ?thesis by simp
  qed
  ultimately show ?case
    using assms(1) Suc.prems k u by (simp add: sb_setByte_def db_getByte_def check_bind)
qed

text \<open>Writing a sub-block into its data block and reading it back: when the access stays in the
  block, \<^verbatim>\<open>mergeTo\<close> replaces exactly the bytes from the offset of its address on, and
  \<^verbatim>\<open>mergeFrom\<close> for the same address and size returns the bytes written.\<close>

lemma sub_block_merge_roundtrip:
  assumes "DATA_BLOCK fl" "getOffset c (sb_address s) = Some f" "0 < length (sb_data s)"
    "unat f + length (sb_data s) \<le> length d"
  shows "\<exists>d'. mergeTo fl c s d = Some d' \<and>
    d' = take (unat f) d @ sb_data s @ drop (unat f + length (sb_data s)) d \<and>
    mergeFrom fl c d' (sb_new (sb_address s) (sb_logicalAddress s) (length (sb_data s))) =
      Some (s :: sub_block)"
proof -
  let ?d = "take (unat f) d @ sb_data s @ drop (unat f + length (sb_data s)) d"
  let ?n = "sb_new (sb_address s) (sb_logicalAddress s) (length (sb_data s))"
  have "mergeTo fl c s d = Some ?d"
    using merge_to_loop_ok [OF assms(1) le0 assms(4)] assms
    by (simp add: mergeTo_def internalMergeTo_def check_bind sb_getSize_def)
  moreover have "mergeFrom fl c ?d ?n = Some s"
    using merge_from_loop_ok [OF assms(1) le0, of "unat f" ?n ?d] assms
    by (simp add: mergeFrom_def internalMergeFrom_def check_bind sb_getSize_def sb_new_def)
  ultimately show ?thesis by blast
qed

text \<open>An access that crosses the end of its block is caught: \<^verbatim>\<open>mergeTo\<close> aborts.\<close>

lemma sub_block_crossing_aborts:
  assumes "DATA_BLOCK fl" "getOffset c (sb_address s) = Some f" "unat f + length (sb_data s) > length d"
    "unat f \<le> length d"
  shows "mergeTo fl c s d = None"
proof -
  have "merge_to_loop fl p [k..<n] s e = None"
    if "k \<le> n" "n = length (sb_data s)" "p + n > length e" "p + k \<le> length e" for p k n and e :: data_block
    using that
  proof (induction "n - k" arbitrary: k e)
    case (Suc m)
    then have u: "[k..<n] = k # [Suc k..<n]" by (simp add: upt_conv_Cons)
    show ?case
    proof (cases "p + k = length e")
      case True
      then show ?thesis using Suc.prems u assms(1) by (simp add: db_setByte_def bind_eq_None_conv)
    next
      case False
      have "merge_to_loop fl p [Suc k..<n] s (e[p + k := v]) = None" for v
        using Suc False by (intro Suc.hyps) simp_all
      then show ?thesis using u by (auto simp: db_setByte_def bind_eq_None_conv assms(1))
    qed
  qed simp
  then show ?thesis
    using assms by (simp add: mergeTo_def internalMergeTo_def check_bind sb_getSize_def)
qed

end
