(* ===== verification/Replacement.thy ===== *)
theory Replacement
  imports Ruby_Prelude
begin

text \<open>
  Cache replacement policies: \<^verbatim>\<open>AbstractReplacementPolicy.h\<close>, \<^verbatim>\<open>LRUPolicy.h\<close> and
  \<^verbatim>\<open>PseudoLRUPolicy.h\<close> of \<^verbatim>\<open>ruby_clean/system\<close>. The two policies provide the interface
  \<open>replacement_policy\<close> that the caches use. Indexing the arrays out of range is undefined and
  aborts. The trees of the pseudo-LRU policy are 64-bit words; the constructor bounds the
  associativity so that all shifts stay below the width of an \<^verbatim>\<open>int\<close>.
\<close>

unbundle bit_operations_syntax

record abstract_policy =
  m_num_sets :: nat
  m_assoc :: nat
  m_last_ref :: "time list list"

definition policy_new :: "nat \<Rightarrow> nat \<Rightarrow> abstract_policy" where
  "policy_new num_sets assoc =
     \<lparr>m_num_sets = num_sets, m_assoc = assoc, m_last_ref = replicate num_sets (replicate assoc 0)\<rparr>"

definition getLastAccess :: "nat \<Rightarrow> nat \<Rightarrow> 'a abstract_policy_scheme \<Rightarrow> time option" where
  "getLastAccess s way p = do {
     check (s < length (m_last_ref p) \<and> way < length (m_last_ref p ! s));
     Some (m_last_ref p ! s ! way) }"

definition lru_touch :: "nat \<Rightarrow> nat \<Rightarrow> time \<Rightarrow> abstract_policy \<Rightarrow> abstract_policy option" where
  "lru_touch s index t p = do {
     check (index < m_assoc p);
     check (s < m_num_sets p);
     Some (p\<lparr>m_last_ref := (m_last_ref p)[s := (m_last_ref p ! s)[index := t]]\<rparr>) }"

fun lru_scan :: "time list \<Rightarrow> nat \<Rightarrow> nat \<Rightarrow> nat \<Rightarrow> time \<Rightarrow> nat" where
  "lru_scan row i 0 smallest_index smallest_time = smallest_index"
| "lru_scan row i (Suc k) smallest_index smallest_time =
     (if row ! i < smallest_time then lru_scan row (i + 1) k i (row ! i)
      else lru_scan row (i + 1) k smallest_index smallest_time)"

definition lru_getVictim :: "nat \<Rightarrow> abstract_policy \<Rightarrow> nat option" where
  "lru_getVictim s p = do {
     check (s < length (m_last_ref p) \<and> 0 < length (m_last_ref p ! s) \<and> m_assoc p \<le> length (m_last_ref p ! s));
     Some (lru_scan (m_last_ref p ! s) 0 (m_assoc p) 0 (m_last_ref p ! s ! 0)) }"

record plru_policy = abstract_policy +
  m_effective_assoc :: nat
  m_num_levels :: nat
  m_trees :: "64 word list"

function effective_loop :: "nat \<Rightarrow> nat \<Rightarrow> nat" where
  "effective_loop eff assoc = (if 0 < eff \<and> eff < assoc then effective_loop (2 * eff) assoc else eff)"
  by pat_completeness auto
termination
  by (relation "measure (\<lambda>(eff, assoc). assoc - eff)") auto

fun levels_loop :: "nat \<Rightarrow> nat \<Rightarrow> nat" where
  "levels_loop assoc levels = (if assoc div 2 = 0 then levels else levels_loop (assoc div 2) (levels + 1))"

declare effective_loop.simps [simp del] levels_loop.simps [simp del]

definition plru_new :: "nat \<Rightarrow> nat \<Rightarrow> plru_policy option" where
  "plru_new num_sets assoc = do {
     check (0 < num_sets \<and> 1 < assoc \<and> assoc \<le> 32);
     let eff = effective_loop 1 assoc;
     let levels = levels_loop eff 0;
     check (levels < 16);
     Some \<lparr>m_num_sets = num_sets, m_assoc = assoc, m_last_ref = replicate num_sets (replicate assoc 0),
           m_effective_assoc = eff, m_num_levels = levels, m_trees = replicate num_sets 0\<rparr> }"

text \<open>The loop of \<^verbatim>\<open>touch\<close> from level \<open>i - 1\<close> down to 0.\<close>

fun plru_mark :: "nat \<Rightarrow> nat \<Rightarrow> nat \<Rightarrow> 64 word \<Rightarrow> 64 word" where
  "plru_mark 0 index tree_index tree = tree"
| "plru_mark (Suc i) index tree_index tree =
     (if bit index i
      then plru_mark i index (2 * tree_index + 2) (tree OR push_bit tree_index 1)
      else plru_mark i index (2 * tree_index + 1) (tree AND NOT (push_bit tree_index 1)))"

definition plru_touch :: "nat \<Rightarrow> nat \<Rightarrow> time \<Rightarrow> plru_policy \<Rightarrow> plru_policy option" where
  "plru_touch s index t p = do {
     check (index < m_assoc p);
     check (s < m_num_sets p);
     Some (p\<lparr>m_trees := (m_trees p)[s := plru_mark (m_num_levels p) index 0 (m_trees p ! s)],
             m_last_ref := (m_last_ref p)[s := (m_last_ref p ! s)[index := t]]\<rparr>) }"

fun plru_walk :: "64 word \<Rightarrow> nat \<Rightarrow> nat \<Rightarrow> nat \<Rightarrow> nat \<Rightarrow> nat \<Rightarrow> nat" where
  "plru_walk tree eff i 0 tree_index index = index"
| "plru_walk tree eff i (Suc k) tree_index index =
     (if bit tree tree_index
      then plru_walk tree eff (i + 1) k (2 * tree_index + 1) index
      else plru_walk tree eff (i + 1) k (2 * tree_index + 2) (index + drop_bit (i + 1) eff))"

definition plru_getVictim :: "nat \<Rightarrow> plru_policy \<Rightarrow> nat option" where
  "plru_getVictim s p = do {
     check (s < length (m_trees p));
     let index = plru_walk (m_trees p ! s) (m_effective_assoc p) 0 (m_num_levels p) 0 0;
     check (index < m_effective_assoc p);
     Some (if m_assoc p - 1 < index then m_assoc p - 1 else index) }"

subsection \<open>The interface\<close>

locale replacement_policy =
  fixes pol_inv :: "'p \<Rightarrow> bool" and sets :: "'p \<Rightarrow> nat" and assoc :: "'p \<Rightarrow> nat"
    and newer :: "time \<Rightarrow> nat \<Rightarrow> 'p \<Rightarrow> bool"
    and touch :: "nat \<Rightarrow> nat \<Rightarrow> time \<Rightarrow> 'p \<Rightarrow> 'p option"
    and getVictim :: "nat \<Rightarrow> 'p \<Rightarrow> nat option"
  assumes touch_ok: "pol_inv p \<Longrightarrow> s < sets p \<Longrightarrow> w < assoc p \<Longrightarrow>
      \<exists>p'. touch s w t p = Some p' \<and> pol_inv p' \<and> sets p' = sets p \<and> assoc p' = assoc p"
    and victim_ok: "pol_inv p \<Longrightarrow> s < sets p \<Longrightarrow> \<exists>w. getVictim s p = Some w \<and> w < assoc p"
    and victim_recent: "pol_inv p \<Longrightarrow> s < sets p \<Longrightarrow> w < assoc p \<Longrightarrow> 1 < assoc p \<Longrightarrow> newer t s p \<Longrightarrow>
      touch s w t p = Some p' \<Longrightarrow> getVictim s p' \<noteq> Some w"
begin

primrec touches :: "(nat \<times> nat \<times> time) list \<Rightarrow> 'p \<Rightarrow> 'p option" where
  "touches [] p = Some p"
| "touches (x # xs) p = (case x of (s, w, t) \<Rightarrow> touch s w t p \<bind> touches xs)"

lemma touches_ok:
  assumes "pol_inv p" "\<forall>(s, w, t) \<in> set xs. s < sets p \<and> w < assoc p"
  shows "\<exists>p'. touches xs p = Some p' \<and> pol_inv p' \<and> sets p' = sets p \<and> assoc p' = assoc p"
  using assms
proof (induction xs arbitrary: p)
  case (Cons x xs)
  obtain s w t where x: "x = (s, w, t)" by (cases x)
  then have "s < sets p" "w < assoc p" using Cons.prems(2) by auto
  then obtain p1 where p1: "touch s w t p = Some p1" "pol_inv p1" "sets p1 = sets p" "assoc p1 = assoc p"
    using touch_ok [OF Cons.prems(1)] by blast
  have "\<forall>(s, w, t) \<in> set xs. s < sets p1 \<and> w < assoc p1" using Cons.prems(2) p1(3,4) by auto
  with Cons.IH [OF p1(2)] p1 x show ?case by auto
qed simp

lemma victim_after_touches:
  assumes "pol_inv p" "\<forall>(s, w, t) \<in> set xs. s < sets p \<and> w < assoc p" "s < sets p"
  shows "\<exists>p' w. touches xs p = Some p' \<and> getVictim s p' = Some w \<and> w < assoc p"
proof -
  obtain p' where p': "touches xs p = Some p'" "pol_inv p'" "sets p' = sets p" "assoc p' = assoc p"
    using touches_ok [OF assms(1,2)] by blast
  with victim_ok [OF p'(2)] assms(3) show ?thesis by auto
qed

end

subsection \<open>True LRU\<close>

definition lru_inv :: "abstract_policy \<Rightarrow> bool" where
  "lru_inv p \<longleftrightarrow> 0 < m_assoc p \<and> length (m_last_ref p) = m_num_sets p \<and>
     (\<forall>row \<in> set (m_last_ref p). length row = m_assoc p)"

definition lru_newer :: "time \<Rightarrow> nat \<Rightarrow> 'a abstract_policy_scheme \<Rightarrow> bool" where
  "lru_newer t s p \<longleftrightarrow> (\<forall>u \<in> set (m_last_ref p ! s). u < t)"

lemma lru_inv_new: "0 < assoc \<Longrightarrow> lru_inv (policy_new n assoc)"
  by (auto simp: lru_inv_def policy_new_def)

lemma lru_scan_ok:
  assumes "i + k = length row" "sm < i \<or> sm = 0 \<and> 0 < length row" "st = row ! sm"
    "\<forall>j < i. row ! sm \<le> row ! j" "\<forall>j < sm. row ! sm < row ! j"
  shows "lru_scan row i k sm st < length row \<and> (\<forall>j < length row. row ! lru_scan row i k sm st \<le> row ! j) \<and>
    (\<forall>j < lru_scan row i k sm st. row ! lru_scan row i k sm st < row ! j)"
  using assms
proof (induction k arbitrary: i sm st)
  case (Suc k)
  show ?case
  proof (cases "row ! i < st")
    case True
    then have "\<forall>j < i + 1. row ! i \<le> row ! j" "\<forall>j < i. row ! i < row ! j"
      using Suc.prems(3,4) by (force simp: less_Suc_eq)+
    with Suc.IH [of "i + 1" i "row ! i"] Suc.prems(1) True show ?thesis by simp
  next
    case False
    then have "\<forall>j < i + 1. row ! sm \<le> row ! j"
      using Suc.prems(3,4) by (auto simp: less_Suc_eq)
    moreover have "sm < i + 1" using Suc.prems(2) by auto
    ultimately show ?thesis using Suc.IH [of "i + 1" sm st] Suc.prems False by simp
  qed
qed auto

lemma lru_victim_ok:
  assumes "lru_inv p" "s < m_num_sets p"
  shows "\<exists>w. lru_getVictim s p = Some w \<and> w < m_assoc p \<and>
    (\<forall>j < m_assoc p. m_last_ref p ! s ! w \<le> m_last_ref p ! s ! j) \<and>
    (\<forall>j < w. m_last_ref p ! s ! w < m_last_ref p ! s ! j)"
proof -
  let ?row = "m_last_ref p ! s"
  have len: "length ?row = m_assoc p" "0 < m_assoc p" "s < length (m_last_ref p)"
    using assms by (auto simp: lru_inv_def)
  then show ?thesis
    using lru_scan_ok [of 0 "m_assoc p" ?row 0 "?row ! 0"] by (simp add: lru_getVictim_def check_bind)
qed

lemma lru_touch_ok:
  assumes "lru_inv p" "s < m_num_sets p" "w < m_assoc p"
  shows "\<exists>p'. lru_touch s w t p = Some p' \<and> lru_inv p' \<and> m_num_sets p' = m_num_sets p \<and> m_assoc p' = m_assoc p"
  using assms by (auto simp: lru_touch_def check_bind lru_inv_def dest!: set_update_subset_insert [THEN subsetD])

lemma lru_victim_recent:
  assumes "lru_inv p" "s < m_num_sets p" "w < m_assoc p" "1 < m_assoc p" "lru_newer t s p"
    "lru_touch s w t p = Some p'"
  shows "lru_getVictim s p' \<noteq> Some w"
proof
  assume v: "lru_getVictim s p' = Some w"
  have p': "p' = p\<lparr>m_last_ref := (m_last_ref p)[s := (m_last_ref p ! s)[w := t]]\<rparr>"
    using assms(6) by (auto simp: lru_touch_def check_bind split: if_splits)
  have i': "lru_inv p'" "s < m_num_sets p'" using lru_touch_ok [OF assms(1-3), of t] assms(2,6) by auto
  have len: "length (m_last_ref p ! s) = m_assoc p" "s < length (m_last_ref p)"
    using assms(1,2) by (auto simp: lru_inv_def)
  obtain j where j: "j < m_assoc p" "j \<noteq> w" using assms(4) by (metis less_trans zero_less_one zero_neq_one)
  have "m_last_ref p' ! s ! w \<le> m_last_ref p' ! s ! j"
    using lru_victim_ok [OF i'] v j(1) p' by auto
  moreover have "m_last_ref p' ! s ! w = t" "m_last_ref p' ! s ! j = m_last_ref p ! s ! j"
    using p' len assms(3) j by simp_all
  moreover have "m_last_ref p ! s ! j < t"
    using assms(5) j(1) len(1) unfolding lru_newer_def by (metis nth_mem)
  ultimately show False by simp
qed

interpretation lru: replacement_policy lru_inv m_num_sets m_assoc lru_newer lru_touch lru_getVictim
proof unfold_locales
  fix p :: abstract_policy and s w t p'
  show "\<exists>p'. lru_touch s w t p = Some p' \<and> lru_inv p' \<and> m_num_sets p' = m_num_sets p \<and> m_assoc p' = m_assoc p"
    if "lru_inv p" "s < m_num_sets p" "w < m_assoc p"
    using that by (rule lru_touch_ok)
  show "\<exists>w. lru_getVictim s p = Some w \<and> w < m_assoc p" if "lru_inv p" "s < m_num_sets p"
    using lru_victim_ok [OF that] by blast
  show "lru_getVictim s p' \<noteq> Some w"
    if "lru_inv p" "s < m_num_sets p" "w < m_assoc p" "1 < m_assoc p" "lru_newer t s p" "lru_touch s w t p = Some p'"
    using that by (rule lru_victim_recent)
qed

subsection \<open>Tree pseudo-LRU\<close>

definition plru_inv :: "plru_policy \<Rightarrow> bool" where
  "plru_inv p \<longleftrightarrow> 1 < m_assoc p \<and> m_assoc p \<le> m_effective_assoc p \<and> m_effective_assoc p < 2 * m_assoc p \<and>
     m_effective_assoc p = 2 ^ m_num_levels p \<and> 0 < m_num_levels p \<and> m_num_levels p \<le> 5 \<and>
     length (m_trees p) = m_num_sets p \<and> length (m_last_ref p) = m_num_sets p \<and>
     (\<forall>row \<in> set (m_last_ref p). length row = m_assoc p)"

lemma effective_loop_ok:
  assumes "(2::nat) ^ k < 2 * assoc"
  shows "\<exists>m \<ge> k. effective_loop (2 ^ k) assoc = 2 ^ m \<and> assoc \<le> 2 ^ m \<and> (2::nat) ^ m < 2 * assoc"
  using assms
proof (induction "assoc - 2 ^ k" arbitrary: k rule: less_induct)
  case less
  show ?case
  proof (cases "2 ^ k < assoc")
    case True
    have "(2::nat) ^ k < 2 ^ Suc k" by simp
    then have "assoc - 2 ^ Suc k < assoc - 2 ^ k" using True by linarith
    moreover have "(2::nat) ^ Suc k < 2 * assoc" using True by simp
    ultimately obtain m where "m \<ge> Suc k" "effective_loop (2 ^ Suc k) assoc = 2 ^ m" "assoc \<le> 2 ^ m" "(2::nat) ^ m < 2 * assoc"
      using less.hyps by blast
    then show ?thesis using True by (intro exI [of _ m]) (simp add: effective_loop.simps [of "2 ^ k"])
  next
    case False
    then show ?thesis using less.prems by (intro exI [of _ k]) (simp add: effective_loop.simps [of "2 ^ k"])
  qed
qed

lemma levels_loop_power: "levels_loop (2 ^ m) l = l + m"
  by (induction m arbitrary: l) (simp_all add: levels_loop.simps [of "2 ^ _"] levels_loop.simps [of "2 * 2 ^ _"] levels_loop.simps [of "Suc 0"])

lemma plru_new_ok:
  assumes "0 < n" "1 < a" "a \<le> 32"
  shows "\<exists>p. plru_new n a = Some p \<and> plru_inv p \<and> m_num_sets p = n \<and> m_assoc p = a"
proof -
  obtain m where m: "effective_loop (2 ^ 0) a = 2 ^ m" "a \<le> 2 ^ m" "(2::nat) ^ m < 2 * a"
    using effective_loop_ok [of 0 a] assms(2) by auto
  have "(2::nat) ^ m < 2 ^ 6" using m(3) assms(3) by simp
  then have "m < 6" by (rule power_less_imp_less_exp [rotated]) simp
  then have m5: "m \<le> 5" by simp
  have m0: "0 < m" using m(2) assms(2) by (cases m) auto
  have "levels_loop (2 ^ m) 0 = m" using levels_loop_power [of m 0] by simp
  with m m5 m0 assms show ?thesis
    by (auto simp: plru_new_def check_bind Let_def plru_inv_def)
qed

lemma plru_mark_frame: "j < ti \<Longrightarrow> bit (plru_mark i index ti tree) j = bit tree j"
  by (induction i index ti tree rule: plru_mark.induct) (auto simp: bit_simps dest: bit_imp_le_length)

lemma plru_mark_root:
  "bit (plru_mark (Suc n) index 0 tree) 0 = bit index n"
  by (simp add: plru_mark_frame bit_simps)

lemma plru_walk_bounds:
  "i + k = m \<Longrightarrow> index \<le> plru_walk tree (2 ^ m) i k ti index \<and> plru_walk tree (2 ^ m) i k ti index < index + 2 ^ k"
proof (induction k arbitrary: i ti index)
  case (Suc k)
  have d: "drop_bit (i + 1) ((2::nat) ^ m) = 2 ^ k"
    using Suc.prems by (simp add: drop_bit_eq_div power_add flip: Suc.prems)
  show ?case
    using Suc.IH [of "i + 1" index "2 * ti + 1"] Suc.IH [of "i + 1" "index + 2 ^ k" "2 * ti + 2"] Suc.prems d
    by (auto simp: add.commute)
qed simp

lemma plru_walk_root:
  "plru_walk tree (2 ^ Suc n) 0 (Suc n) 0 0 < 2 ^ n \<longleftrightarrow> bit tree 0"
proof -
  have d: "drop_bit 1 ((2::nat) ^ Suc n) = 2 ^ n" by (simp add: drop_bit_eq_div)
  show ?thesis
    using plru_walk_bounds [of 1 n "Suc n" 0 tree 1] plru_walk_bounds [of 1 n "Suc n" "2 ^ n" tree 2] d
    by (cases "bit tree 0") (auto simp: numeral_2_eq_2)
qed

lemma plru_touch_ok:
  assumes "plru_inv p" "s < m_num_sets p" "w < m_assoc p"
  shows "\<exists>p'. plru_touch s w t p = Some p' \<and> plru_inv p' \<and> m_num_sets p' = m_num_sets p \<and> m_assoc p' = m_assoc p"
  using assms by (auto simp: plru_touch_def check_bind plru_inv_def dest!: set_update_subset_insert [THEN subsetD])

lemma plru_victim_ok:
  assumes "plru_inv p" "s < m_num_sets p"
  shows "\<exists>w. plru_getVictim s p = Some w \<and> w < m_assoc p \<and>
    (w < 2 ^ (m_num_levels p - 1) \<longleftrightarrow> bit (m_trees p ! s) 0)"
proof -
  obtain n where n: "m_num_levels p = Suc n" using assms(1) by (cases "m_num_levels p") (auto simp: plru_inv_def)
  have e: "m_effective_assoc p = 2 ^ Suc n" "2 ^ n < m_assoc p" "s < length (m_trees p)"
    using assms n by (auto simp: plru_inv_def)
  let ?i = "plru_walk (m_trees p ! s) (2 ^ Suc n) 0 (Suc n) 0 0"
  have lt: "?i < 2 ^ Suc n" using plru_walk_bounds [of 0 "Suc n" "Suc n" 0 "m_trees p ! s" 0] by simp
  have rt: "?i < 2 ^ n \<longleftrightarrow> bit (m_trees p ! s) 0" by (rule plru_walk_root)
  have "plru_getVictim s p = Some (if m_assoc p - 1 < ?i then m_assoc p - 1 else ?i)"
    using e(1,3) n lt by (simp add: plru_getVictim_def check_bind Let_def del: plru_walk.simps)
  moreover have "(if m_assoc p - 1 < ?i then m_assoc p - 1 else ?i) < m_assoc p" using e(2) by auto
  moreover have "(if m_assoc p - 1 < ?i then m_assoc p - 1 else ?i) < 2 ^ n \<longleftrightarrow> ?i < 2 ^ n" using e(2) by auto
  ultimately show ?thesis using rt n by auto
qed

lemma bit_top: "w < 2 ^ Suc n \<Longrightarrow> bit w n \<longleftrightarrow> \<not> w < (2::nat) ^ n"
proof -
  assume w: "w < 2 ^ Suc n"
  have "bit w n \<longleftrightarrow> odd (w div 2 ^ n)" by (simp add: bit_iff_odd)
  moreover have "w div 2 ^ n < 2" using w by (intro less_mult_imp_div_less) simp
  then have "odd (w div 2 ^ n) \<longleftrightarrow> w div 2 ^ n \<noteq> 0" by (cases "w div 2 ^ n") (auto simp: less_Suc_eq numeral_2_eq_2)
  ultimately show ?thesis by (simp add: div_eq_0_iff)
qed

lemma plru_victim_recent:
  assumes "plru_inv p" "s < m_num_sets p" "w < m_assoc p" "plru_touch s w t p = Some p'"
  shows "plru_getVictim s p' \<noteq> Some w"
proof -
  obtain n where n: "m_num_levels p = Suc n" using assms(1) by (cases "m_num_levels p") (auto simp: plru_inv_def)
  have len: "s < length (m_trees p)" "w < 2 ^ Suc n" using assms(1-3) n by (auto simp: plru_inv_def)
  have p': "m_trees p' ! s = plru_mark (Suc n) w 0 (m_trees p ! s)" "m_num_levels p' = Suc n"
    using assms(4) len n by (auto simp: plru_touch_def check_bind split: if_splits)
  have i': "plru_inv p'" "s < m_num_sets p'" using plru_touch_ok [OF assms(1-3), of t] assms(2,4) by auto
  obtain v where v: "plru_getVictim s p' = Some v" "v < 2 ^ n \<longleftrightarrow> bit (m_trees p' ! s) 0"
    using plru_victim_ok [OF i'] p'(2) by auto
  have "bit (m_trees p' ! s) 0 \<longleftrightarrow> \<not> w < 2 ^ n" unfolding p'(1) plru_mark_root using bit_top [OF len(2)] .
  with v show ?thesis by auto
qed

interpretation plru: replacement_policy plru_inv m_num_sets m_assoc "\<lambda>_ _ _. True" plru_touch plru_getVictim
proof unfold_locales
  fix p :: plru_policy and s w t p'
  show "\<exists>p'. plru_touch s w t p = Some p' \<and> plru_inv p' \<and> m_num_sets p' = m_num_sets p \<and> m_assoc p' = m_assoc p"
    if "plru_inv p" "s < m_num_sets p" "w < m_assoc p"
    using that by (rule plru_touch_ok)
  show "\<exists>w. plru_getVictim s p = Some w \<and> w < m_assoc p" if "plru_inv p" "s < m_num_sets p"
    using plru_victim_ok [OF that] by blast
  show "plru_getVictim s p' \<noteq> Some w"
    if "plru_inv p" "s < m_num_sets p" "w < m_assoc p" "1 < m_assoc p" "True" "plru_touch s w t p = Some p'"
    using that by (intro plru_victim_recent)
qed

subsection \<open>Properties\<close>

text \<open>True LRU: the victim is the first way whose last access is the oldest of the set, and the
  way accessed last is never the victim in a set of at least two ways.\<close>

lemma lru_victim_is_oldest:
  assumes "lru_inv p" "s < m_num_sets p"
  shows "\<exists>w. lru_getVictim s p = Some w \<and> w < m_assoc p \<and>
    (\<forall>j < m_assoc p. m_last_ref p ! s ! w \<le> m_last_ref p ! s ! j) \<and>
    (\<forall>j < w. m_last_ref p ! s ! w < m_last_ref p ! s ! j) \<and>
    (\<forall>v t p'. v < m_assoc p \<and> 1 < m_assoc p \<and> lru_newer t s p \<and> lru_touch s v t p = Some p' \<longrightarrow>
       lru_getVictim s p' \<noteq> Some v)"
  using lru_victim_ok [OF assms] lru.victim_recent [OF assms] by blast

text \<open>Pseudo-LRU: for every associativity from 2 to 32, after any sequence of accesses to a new
  policy the victim is a way of the set, and it is not the way accessed last.\<close>

lemma plru_victim_valid:
  assumes "0 < n" "1 < a" "a \<le> 32" "\<forall>(s, w, t) \<in> set xs. s < n \<and> w < a" "s < n" "w < a"
  shows "\<exists>p p1 p2 v. plru_new n a = Some p \<and> plru.touches xs p = Some p1 \<and>
    plru_touch s w t p1 = Some p2 \<and> plru_getVictim s p2 = Some v \<and> v < a \<and> v \<noteq> w"
proof -
  obtain p where p: "plru_new n a = Some p" "plru_inv p" "m_num_sets p = n" "m_assoc p = a"
    using plru_new_ok [OF assms(1-3)] by blast
  obtain p1 where p1: "plru.touches xs p = Some p1" "plru_inv p1" "m_num_sets p1 = n" "m_assoc p1 = a"
    using plru.touches_ok [OF p(2), of xs] assms(4) p(3,4) by auto
  obtain p2 where p2: "plru_touch s w t p1 = Some p2" "plru_inv p2" "m_num_sets p2 = n" "m_assoc p2 = a"
    using plru.touch_ok [OF p1(2), of s w t] assms(5,6) p1(3,4) by auto
  obtain v where "plru_getVictim s p2 = Some v" "v < a"
    using plru.victim_ok [OF p2(2), of s] assms(5) p2(3,4) by auto
  moreover have "plru_getVictim s p2 \<noteq> Some w"
    using plru_victim_recent [OF p1(2) _ _ p2(1)] assms(5,6) p1(3,4) by simp
  ultimately show ?thesis using p(1) p1(1) p2(1) by auto
qed

end
