(* ===== verification/Tag_Store.thy ===== *)
theory Tag_Store
  imports Ruby_Prelude
begin

text \<open>
  The interface that caches, transaction-buffer tables and perfect caches share: entries are
  allocated, looked up and deallocated by address. The abstract state is a partial map; a store
  may refuse some keys and may have no room for a new one.
\<close>

locale tag_store =
  fixes inv :: "'s \<Rightarrow> bool" and key_ok :: "'s \<Rightarrow> 'k \<Rightarrow> bool" and abs :: "'s \<Rightarrow> 'k \<Rightarrow> 'v option"
    and room :: "'s \<Rightarrow> 'k \<Rightarrow> bool" and fresh :: "'k \<Rightarrow> 'v"
    and allocate :: "'k \<Rightarrow> 's \<Rightarrow> 's option" and deallocate :: "'k \<Rightarrow> 's \<Rightarrow> 's option"
    and isTagPresent :: "'k \<Rightarrow> 's \<Rightarrow> bool option" and lookup :: "'k \<Rightarrow> 's \<Rightarrow> 'v option"
  assumes present_ok: "inv s \<Longrightarrow> key_ok s k \<Longrightarrow> isTagPresent k s = Some (abs s k \<noteq> None)"
    and lookup_ok: "inv s \<Longrightarrow> key_ok s k \<Longrightarrow> abs s k \<noteq> None \<Longrightarrow> lookup k s = abs s k"
    and allocate_ok: "inv s \<Longrightarrow> key_ok s k \<Longrightarrow> abs s k = None \<Longrightarrow> room s k \<Longrightarrow>
      \<exists>s'. allocate k s = Some s' \<and> inv s' \<and> abs s' = (abs s)(k \<mapsto> fresh k) \<and> key_ok s' = key_ok s"
    and deallocate_ok: "inv s \<Longrightarrow> key_ok s k \<Longrightarrow> abs s k \<noteq> None \<Longrightarrow>
      \<exists>s'. deallocate k s = Some s' \<and> inv s' \<and> abs s' = (abs s)(k := None) \<and> key_ok s' = key_ok s"
begin

lemma allocate_lookup:
  assumes "inv s" "key_ok s k" "abs s k = None" "room s k"
  shows "(allocate k s \<bind> lookup k) = Some (fresh k)"
proof -
  obtain s' where "allocate k s = Some s'" "inv s'" "abs s' = (abs s)(k \<mapsto> fresh k)" "key_ok s' = key_ok s"
    using allocate_ok [OF assms] by blast
  then show ?thesis using lookup_ok [of s' k] assms(2) by simp
qed

lemma allocate_other:
  assumes "inv s" "key_ok s k" "abs s k = None" "room s k" "l \<noteq> k" "key_ok s l"
  shows "(allocate k s \<bind> isTagPresent l) = isTagPresent l s"
proof -
  obtain s' where "allocate k s = Some s'" "inv s'" "abs s' = (abs s)(k \<mapsto> fresh k)" "key_ok s' = key_ok s"
    using allocate_ok [OF assms(1-4)] by blast
  then show ?thesis using present_ok [of s' l] present_ok [of s l] assms by simp
qed

lemma allocate_deallocate:
  assumes "inv s" "key_ok s k" "abs s k = None" "room s k"
  shows "\<exists>s'. (allocate k s \<bind> deallocate k) = Some s' \<and> inv s' \<and> abs s' = abs s"
proof -
  obtain s1 where s1: "allocate k s = Some s1" "inv s1" "abs s1 = (abs s)(k \<mapsto> fresh k)" "key_ok s1 = key_ok s"
    using allocate_ok [OF assms] by blast
  then obtain s2 where "deallocate k s1 = Some s2" "inv s2" "abs s2 = (abs s1)(k := None)"
    using deallocate_ok [of s1 k] assms(2) by auto
  then show ?thesis using s1 assms(3) by (auto simp: fun_eq_iff)
qed

lemma deallocate_gone:
  assumes "inv s" "key_ok s k" "abs s k \<noteq> None"
  shows "(deallocate k s \<bind> isTagPresent k) = Some False"
proof -
  obtain s' where "deallocate k s = Some s'" "inv s'" "abs s' = (abs s)(k := None)" "key_ok s' = key_ok s"
    using deallocate_ok [OF assms] by blast
  then show ?thesis using present_ok [of s' k] assms(2) by simp
qed

end

end
