(* ===== verification/Cache_Memory.thy ===== *)
theory Cache_Memory
  imports Component_Mapping Data_Blocks Replacement Tag_Store
begin

text \<open>
  Set-associative caches: \<^verbatim>\<open>ruby_clean/system/CacheMemory.h\<close>. The entry type is generated from the
  protocol: besides address, permission and data block it has further fields, the type
  parameter, and its default constructor is the argument \<open>entry_new\<close>. The replacement policy is
  \<^verbatim>\<open>LRUPolicy\<close>, as the constructor has it; the current time of the event queue is an argument.
  Printing and the trace recorder's file output are left out.
\<close>

record 'e cache_entry =
  ce_Address :: address
  ce_Permission :: access_permission
  ce_DataBlk :: data_block
  ce_fields :: 'e

datatype cache_level = Level_L1 | Level_L2 | Level_other

record 'e cache_memory =
  cm_machType :: cache_level
  cm_is_instruction_cache :: bool
  cm_cache :: "'e cache_entry list list"
  cm_policy :: abstract_policy
  cm_num_set_bits :: nat
  cm_assoc :: nat

definition cm_num_sets :: "'e cache_memory \<Rightarrow> nat" where
  "cm_num_sets m = 2 ^ cm_num_set_bits m"

definition cache_new :: "'e cache_entry \<Rightarrow> nat \<Rightarrow> nat \<Rightarrow> cache_level \<Rightarrow> 'e cache_memory" where
  "cache_new entry_new numSetBits cacheAssoc machType =
     \<lparr>cm_machType = machType, cm_is_instruction_cache = False,
      cm_cache = replicate (2 ^ numSetBits) (replicate cacheAssoc
        (entry_new\<lparr>ce_Address := 0, ce_Permission := Perm_NotPresent\<rparr>)),
      cm_policy = policy_new (2 ^ numSetBits) cacheAssoc,
      cm_num_set_bits = numSetBits, cm_assoc = cacheAssoc\<rparr>"

definition addressToCacheSet :: "ruby_config \<Rightarrow> 'e cache_memory \<Rightarrow> address \<Rightarrow> nat option" where
  "addressToCacheSet c m a = do {
     l \<leftarrow> line_address c a;
     check (a = l);
     temp \<leftarrow> (case cm_machType m of
        Level_L1 \<Rightarrow> map_address_to_L1CacheSet c a (cm_num_set_bits m)
      | Level_L2 \<Rightarrow> map_address_to_L2CacheSet c a (cm_num_set_bits m)
      | Level_other \<Rightarrow> None);
     check (temp < cm_num_sets m);
     Some temp }"

text \<open>The search loops over the ways of a set: \<open>Some None\<close> is the result \<^verbatim>\<open>-1\<close>.\<close>

definition cell :: "'e cache_memory \<Rightarrow> nat \<Rightarrow> nat \<Rightarrow> 'e cache_entry option" where
  "cell m s i = do {
     check (s < length (cm_cache m) \<and> i < length (cm_cache m ! s));
     Some (cm_cache m ! s ! i) }"

fun find_way :: "('e cache_entry \<Rightarrow> bool) \<Rightarrow> 'e cache_memory \<Rightarrow> nat \<Rightarrow> nat \<Rightarrow> nat \<Rightarrow> nat option option" where
  "find_way P m s i 0 = Some None"
| "find_way P m s i (Suc k) = do {
     e \<leftarrow> cell m s i;
     if P e then Some (Some i) else find_way P m s (i + 1) k }"

definition line_check :: "ruby_config \<Rightarrow> address \<Rightarrow> unit option" where
  "line_check c a = do { l \<leftarrow> line_address c a; check (a = l) }"

definition tag_match :: "address \<Rightarrow> 'e cache_entry \<Rightarrow> bool" where
  "tag_match a e \<longleftrightarrow> ce_Address e = a \<and> ce_Permission e \<noteq> Perm_NotPresent"

definition findTagInSet :: "ruby_config \<Rightarrow> nat \<Rightarrow> address \<Rightarrow> 'e cache_memory \<Rightarrow> nat option option" where
  "findTagInSet c cacheSet tag m = do {
     line_check c tag;
     find_way (tag_match tag) m cacheSet 0 (cm_assoc m) }"

definition findTagInSetIgnorePermissions ::
  "ruby_config \<Rightarrow> nat \<Rightarrow> address \<Rightarrow> 'e cache_memory \<Rightarrow> nat option option" where
  "findTagInSetIgnorePermissions c cacheSet tag m = do {
     line_check c tag;
     find_way (\<lambda>e. ce_Address e = tag) m cacheSet 0 (cm_assoc m) }"

definition cm_touch :: "nat \<Rightarrow> nat \<Rightarrow> time \<Rightarrow> 'e cache_memory \<Rightarrow> 'e cache_memory option" where
  "cm_touch s w t m = do { p \<leftarrow> lru_touch s w t (cm_policy m); Some (m\<lparr>cm_policy := p\<rparr>) }"

text \<open>\<^verbatim>\<open>tryCacheAccess\<close> returns whether the access hits and the data block of the line, if any.\<close>

definition tryCacheAccess :: "ruby_config \<Rightarrow> time \<Rightarrow> address \<Rightarrow> cache_request_type \<Rightarrow> 'e cache_memory \<Rightarrow>
  (bool \<times> data_block option \<times> 'e cache_memory) option" where
  "tryCacheAccess c t a rtype m = do {
     line_check c a;
     cacheSet \<leftarrow> addressToCacheSet c m a;
     loc \<leftarrow> findTagInSet c cacheSet a m;
     case loc of None \<Rightarrow> Some (False, None, m)
     | Some i \<Rightarrow> do {
         e \<leftarrow> cell m cacheSet i;
         m' \<leftarrow> cm_touch cacheSet i t m;
         if ce_Permission e = Perm_Read_Write then Some (True, Some (ce_DataBlk e), m')
         else if ce_Permission e = Perm_Read_Only \<and> (rtype = RT_LD \<or> rtype = RT_IFETCH)
         then Some (True, Some (ce_DataBlk e), m')
         else Some (False, None, m') } }"

definition tryAccCacheAccess :: "ruby_config \<Rightarrow> address \<Rightarrow> 'e cache_memory \<Rightarrow> bool option" where
  "tryAccCacheAccess c a m = do {
     line_check c a;
     cacheSet \<leftarrow> addressToCacheSet c m a;
     loc \<leftarrow> findTagInSet c cacheSet a m;
     case loc of None \<Rightarrow> Some False
     | Some i \<Rightarrow> do {
         e \<leftarrow> cell m cacheSet i;
         Some (ce_Permission e = Perm_Read_Only \<or> ce_Permission e = Perm_Read_Write \<or>
               ce_Permission e = Perm_Stale) } }"

definition testCacheAccess :: "ruby_config \<Rightarrow> time \<Rightarrow> address \<Rightarrow> 'e cache_memory \<Rightarrow>
  (bool \<times> data_block option \<times> 'e cache_memory) option" where
  "testCacheAccess c t a m = do {
     line_check c a;
     cacheSet \<leftarrow> addressToCacheSet c m a;
     loc \<leftarrow> findTagInSet c cacheSet a m;
     case loc of None \<Rightarrow> Some (False, None, m)
     | Some i \<Rightarrow> do {
         e \<leftarrow> cell m cacheSet i;
         m' \<leftarrow> cm_touch cacheSet i t m;
         Some (ce_Permission e \<noteq> Perm_NotPresent, Some (ce_DataBlk e), m') } }"

definition isTagPresent :: "ruby_config \<Rightarrow> address \<Rightarrow> 'e cache_memory \<Rightarrow> bool option" where
  "isTagPresent c a m = do {
     line_check c a;
     cacheSet \<leftarrow> addressToCacheSet c m a;
     location \<leftarrow> findTagInSet c cacheSet a m;
     Some (location \<noteq> None) }"

definition cacheAvail :: "ruby_config \<Rightarrow> address \<Rightarrow> 'e cache_memory \<Rightarrow> bool option" where
  "cacheAvail c a m = do {
     line_check c a;
     cacheSet \<leftarrow> addressToCacheSet c m a;
     r \<leftarrow> find_way (\<lambda>e. ce_Address e = a \<or> ce_Permission e = Perm_NotPresent) m cacheSet 0 (cm_assoc m);
     Some (r \<noteq> None) }"

definition cm_write :: "nat \<Rightarrow> nat \<Rightarrow> 'e cache_entry \<Rightarrow> 'e cache_memory \<Rightarrow> 'e cache_memory" where
  "cm_write s i e m = m\<lparr>cm_cache := (cm_cache m)[s := (cm_cache m ! s)[i := e]]\<rparr>"

definition allocate :: "ruby_config \<Rightarrow> 'e cache_entry \<Rightarrow> time \<Rightarrow> address \<Rightarrow> 'e cache_memory \<Rightarrow> 'e cache_memory option"
where
  "allocate c entry_new t a m = do {
     line_check c a;
     present \<leftarrow> isTagPresent c a m;
     check (\<not> present);
     avail \<leftarrow> cacheAvail c a m;
     check avail;
     cacheSet \<leftarrow> addressToCacheSet c m a;
     r \<leftarrow> find_way (\<lambda>e. ce_Permission e = Perm_NotPresent) m cacheSet 0 (cm_assoc m);
     case r of None \<Rightarrow> None
     | Some i \<Rightarrow> cm_touch cacheSet i t
         (cm_write cacheSet i (entry_new\<lparr>ce_Address := a, ce_Permission := Perm_Invalid\<rparr>) m) }"

definition lookup_loc :: "ruby_config \<Rightarrow> address \<Rightarrow> 'e cache_memory \<Rightarrow> (nat \<times> nat) option" where
  "lookup_loc c a m = do {
     line_check c a;
     cacheSet \<leftarrow> addressToCacheSet c m a;
     loc \<leftarrow> findTagInSet c cacheSet a m;
     i \<leftarrow> loc;
     Some (cacheSet, i) }"

definition lookup :: "ruby_config \<Rightarrow> address \<Rightarrow> 'e cache_memory \<Rightarrow> 'e cache_entry option" where
  "lookup c a m = do { (s, i) \<leftarrow> lookup_loc c a m; cell m s i }"

definition deallocate :: "ruby_config \<Rightarrow> address \<Rightarrow> 'e cache_memory \<Rightarrow> 'e cache_memory option" where
  "deallocate c a m = do {
     line_check c a;
     present \<leftarrow> isTagPresent c a m;
     check present;
     (s, i) \<leftarrow> lookup_loc c a m;
     e \<leftarrow> cell m s i;
     Some (cm_write s i (e\<lparr>ce_Permission := Perm_NotPresent\<rparr>) m) }"

definition cacheProbe :: "ruby_config \<Rightarrow> address \<Rightarrow> 'e cache_memory \<Rightarrow> address option" where
  "cacheProbe c a m = do {
     line_check c a;
     avail \<leftarrow> cacheAvail c a m;
     check (\<not> avail);
     cacheSet \<leftarrow> addressToCacheSet c m a;
     w \<leftarrow> lru_getVictim cacheSet (cm_policy m);
     e \<leftarrow> cell m cacheSet w;
     Some (ce_Address e) }"

definition getPermission :: "ruby_config \<Rightarrow> address \<Rightarrow> 'e cache_memory \<Rightarrow> access_permission option" where
  "getPermission c a m = do { line_check c a; e \<leftarrow> lookup c a m; Some (ce_Permission e) }"

definition changePermission ::
  "ruby_config \<Rightarrow> address \<Rightarrow> access_permission \<Rightarrow> 'e cache_memory \<Rightarrow> 'e cache_memory option" where
  "changePermission c a new_perm m = do {
     line_check c a;
     (s, i) \<leftarrow> lookup_loc c a m;
     e \<leftarrow> cell m s i;
     let m' = cm_write s i (e\<lparr>ce_Permission := new_perm\<rparr>) m;
     p \<leftarrow> getPermission c a m';
     check (p = new_perm);
     Some m' }"

definition setMRU :: "ruby_config \<Rightarrow> time \<Rightarrow> address \<Rightarrow> 'e cache_memory \<Rightarrow> 'e cache_memory option" where
  "setMRU c t a m = do {
     cacheSet \<leftarrow> addressToCacheSet c m a;
     loc \<leftarrow> findTagInSet c cacheSet a m;
     i \<leftarrow> loc;
     cm_touch cacheSet i t m }"

definition setAsInstructionCache :: "bool \<Rightarrow> 'e cache_memory \<Rightarrow> 'e cache_memory" where
  "setAsInstructionCache is_icache m = m\<lparr>cm_is_instruction_cache := is_icache\<rparr>"

text \<open>\<^verbatim>\<open>recordCacheContents\<close>: the records it hands to the trace recorder, in order.\<close>

definition record_of :: "'e cache_memory \<Rightarrow> nat \<Rightarrow> nat \<Rightarrow> (address \<times> cache_request_type \<times> time) option list" where
  "record_of m i j =
     (let perm = ce_Permission (cm_cache m ! i ! j);
          request_type = (if perm = Perm_Read_Only
                          then (if cm_is_instruction_cache m then RT_IFETCH else RT_LD)
                          else if perm = Perm_Read_Write then RT_ST else RT_NULL)
      in if request_type \<noteq> RT_NULL
         then [do { t \<leftarrow> getLastAccess i j (cm_policy m); Some (ce_Address (cm_cache m ! i ! j), request_type, t) }]
         else [])"

definition recordCacheContents :: "'e cache_memory \<Rightarrow> (address \<times> cache_request_type \<times> time) list option" where
  "recordCacheContents m =
     those (concat (map (\<lambda>i. concat (map (record_of m i) [0..<cm_assoc m])) [0..<cm_num_sets m]))"

fun get_bytes :: "data_flags \<Rightarrow> data_block \<Rightarrow> nat \<Rightarrow> nat list \<Rightarrow> 8 word list option" where
  "get_bytes fl d startByte [] = Some []"
| "get_bytes fl d startByte (i # is) = do {
     v \<leftarrow> db_getByte fl (i + startByte) d;
     vs \<leftarrow> get_bytes fl d startByte is;
     Some (v # vs) }"

definition getMemoryValue :: "data_flags \<Rightarrow> ruby_config \<Rightarrow> address \<Rightarrow> nat \<Rightarrow> 'e cache_memory \<Rightarrow> 8 word list option" where
  "getMemoryValue fl c a size_in_bytes m = do {
     l \<leftarrow> line_address c a;
     e \<leftarrow> lookup c l m;
     get_bytes fl (ce_DataBlk e) (unat (a - l)) [0..<size_in_bytes] }"

fun set_bytes :: "data_flags \<Rightarrow> nat \<Rightarrow> nat \<Rightarrow> 8 word list \<Rightarrow> data_block \<Rightarrow> data_block option" where
  "set_bytes fl startByte i [] d = Some d"
| "set_bytes fl startByte i (v # vs) d = do {
     d' \<leftarrow> db_setByte fl (i + startByte) v d;
     set_bytes fl startByte (i + 1) vs d' }"

definition setMemoryValue :: "data_flags \<Rightarrow> ruby_config \<Rightarrow> address \<Rightarrow> 8 word list \<Rightarrow> 'e cache_memory \<Rightarrow> 'e cache_memory option"
where
  "setMemoryValue fl c a value m = do {
     l \<leftarrow> line_address c a;
     (s, i) \<leftarrow> lookup_loc c l m;
     e \<leftarrow> cell m s i;
     check (0 < length value);
     d \<leftarrow> set_bytes fl (unat (a - l)) 0 value (ce_DataBlk e);
     Some (cm_write s i (e\<lparr>ce_DataBlk := d\<rparr>) m) }"

subsection \<open>Well-formed caches\<close>

definition cm_inv :: "ruby_config \<Rightarrow> 'e cache_memory \<Rightarrow> bool" where
  "cm_inv c m \<longleftrightarrow> 0 < cm_assoc m \<and> length (cm_cache m) = cm_num_sets m \<and>
     (\<forall>s < cm_num_sets m. length (cm_cache m ! s) = cm_assoc m) \<and>
     lru_inv (cm_policy m) \<and> m_num_sets (cm_policy m) = cm_num_sets m \<and> m_assoc (cm_policy m) = cm_assoc m \<and>
     (\<forall>s < cm_num_sets m. \<forall>i < cm_assoc m. ce_Permission (cm_cache m ! s ! i) \<noteq> Perm_NotPresent \<longrightarrow>
        addressToCacheSet c m (ce_Address (cm_cache m ! s ! i)) = Some s) \<and>
     (\<forall>s < cm_num_sets m. \<forall>i < cm_assoc m. \<forall>j < cm_assoc m. \<forall>a.
        tag_match a (cm_cache m ! s ! i) \<and> tag_match a (cm_cache m ! s ! j) \<longrightarrow> i = j)"

definition cm_abs :: "ruby_config \<Rightarrow> 'e cache_memory \<Rightarrow> address \<Rightarrow> 'e cache_entry option" where
  "cm_abs c m a =
     (case addressToCacheSet c m a of None \<Rightarrow> None | Some s \<Rightarrow> find (tag_match a) (cm_cache m ! s))"

lemma cm_inv_new: "0 < n \<Longrightarrow> cm_inv c (cache_new e b n lev)"
  by (auto simp: cm_inv_def cache_new_def cm_num_sets_def lru_inv_new tag_match_def policy_new_def)
    (auto simp: lru_inv_def)

lemma address_set_frame [simp]:
  "addressToCacheSet c (m\<lparr>cm_cache := x\<rparr>) a = addressToCacheSet c m a"
  "addressToCacheSet c (m\<lparr>cm_policy := p\<rparr>) a = addressToCacheSet c m a"
  "cm_num_sets (m\<lparr>cm_cache := x\<rparr>) = cm_num_sets m" "cm_num_sets (m\<lparr>cm_policy := p\<rparr>) = cm_num_sets m"
  by (simp_all add: addressToCacheSet_def cm_num_sets_def split: cache_level.split)

lemma address_set_line: "addressToCacheSet c m a = Some s \<Longrightarrow> line_check c a = Some () \<and> s < cm_num_sets m"
  by (auto simp: addressToCacheSet_def line_check_def bind_Some_iff)

lemma cm_inv_dim:
  assumes "cm_inv c m" "addressToCacheSet c m a = Some s"
  shows "s < length (cm_cache m)" "length (cm_cache m ! s) = cm_assoc m" "s < cm_num_sets m"
  using assms address_set_line [OF assms(2)] by (auto simp: cm_inv_def)

lemma find_way_ok:
  assumes "s < length (cm_cache m)" "i + k = length (cm_cache m ! s)"
  shows "\<exists>r. find_way P m s i k = Some r \<and>
    (case r of None \<Rightarrow> \<forall>j. i \<le> j \<and> j < i + k \<longrightarrow> \<not> P (cm_cache m ! s ! j)
     | Some j \<Rightarrow> i \<le> j \<and> j < i + k \<and> P (cm_cache m ! s ! j) \<and> (\<forall>l. i \<le> l \<and> l < j \<longrightarrow> \<not> P (cm_cache m ! s ! l)))"
  using assms(2)
proof (induction k arbitrary: i)
  case (Suc k)
  have c: "cell m s i = Some (cm_cache m ! s ! i)"
    using Suc.prems assms(1) by (simp add: cell_def check_bind)
  obtain r where r: "find_way P m s (i + 1) k = Some r"
    "case r of None \<Rightarrow> \<forall>j. i + 1 \<le> j \<and> j < i + 1 + k \<longrightarrow> \<not> P (cm_cache m ! s ! j)
     | Some j \<Rightarrow> i + 1 \<le> j \<and> j < i + 1 + k \<and> P (cm_cache m ! s ! j) \<and>
         (\<forall>l. i + 1 \<le> l \<and> l < j \<longrightarrow> \<not> P (cm_cache m ! s ! l))"
    using Suc.IH [of "i + 1"] Suc.prems by auto
  show ?case
  proof (cases "P (cm_cache m ! s ! i)")
    case False
    have "i = l \<or> i + 1 \<le> l" if "i \<le> l" for l using that by linarith
    with False r c show ?thesis by (auto split: option.splits)
  qed (use c in auto)
qed auto

lemma find_way_full:
  assumes "cm_inv c m" "addressToCacheSet c m a = Some s"
  shows "\<exists>r. find_way P m s 0 (cm_assoc m) = Some r \<and>
    (case r of None \<Rightarrow> \<forall>j < cm_assoc m. \<not> P (cm_cache m ! s ! j)
     | Some j \<Rightarrow> j < cm_assoc m \<and> P (cm_cache m ! s ! j))"
  using find_way_ok [of s m 0 "cm_assoc m" P] cm_inv_dim [OF assms] by (auto split: option.splits)

lemma cm_abs_Some:
  assumes "cm_inv c m" "addressToCacheSet c m a = Some s"
  shows "cm_abs c m a = Some e \<longleftrightarrow> (\<exists>i < cm_assoc m. cm_cache m ! s ! i = e \<and> tag_match a e)"
proof -
  note d = cm_inv_dim [OF assms]
  have "find (tag_match a) (cm_cache m ! s) = Some e \<longleftrightarrow> (\<exists>i < cm_assoc m. cm_cache m ! s ! i = e \<and> tag_match a e)"
  proof
    assume "\<exists>i < cm_assoc m. cm_cache m ! s ! i = e \<and> tag_match a e"
    then obtain i where i: "i < cm_assoc m" "cm_cache m ! s ! i = e" "tag_match a e" by blast
    have "\<not> tag_match a (cm_cache m ! s ! j)" if "j < i" for j
    proof
      assume "tag_match a (cm_cache m ! s ! j)"
      then have "j = i" using assms(1) d(3) i that unfolding cm_inv_def by (meson order_less_trans)
      with that show False by simp
    qed
    then show "find (tag_match a) (cm_cache m ! s) = Some e"
      unfolding find_Some_iff using i d(2) by (intro exI [of _ i]) auto
  qed (use d(2) in \<open>auto simp: find_Some_iff\<close>)
  then show ?thesis using assms(2) by (simp add: cm_abs_def)
qed

lemma findTag_ok:
  assumes "cm_inv c m" "addressToCacheSet c m a = Some s"
  shows "\<exists>r. findTagInSet c s a m = Some r \<and>
    (case r of None \<Rightarrow> cm_abs c m a = None
     | Some i \<Rightarrow> i < cm_assoc m \<and> cell m s i = Some (cm_cache m ! s ! i) \<and> cm_abs c m a = Some (cm_cache m ! s ! i))"
proof -
  obtain r where r: "find_way (tag_match a) m s 0 (cm_assoc m) = Some r"
    "case r of None \<Rightarrow> \<forall>j < cm_assoc m. \<not> tag_match a (cm_cache m ! s ! j)
     | Some j \<Rightarrow> j < cm_assoc m \<and> tag_match a (cm_cache m ! s ! j)"
    using find_way_full [OF assms] by blast
  then show ?thesis
    using cm_abs_Some [OF assms] cm_inv_dim [OF assms] address_set_line [OF assms(2)]
    by (auto simp: findTagInSet_def cell_def check_bind not_Some_eq [symmetric] simp del: not_Some_eq split: option.splits)
qed

lemma isTagPresent_ok:
  assumes "cm_inv c m" "addressToCacheSet c m a = Some s"
  shows "isTagPresent c a m = Some (cm_abs c m a \<noteq> None)"
  using findTag_ok [OF assms] address_set_line [OF assms(2)] assms(2)
  by (auto simp: isTagPresent_def split: option.splits)

lemma cm_lookup_ok:
  assumes "cm_inv c m" "addressToCacheSet c m a = Some s"
  shows "lookup c a m = cm_abs c m a"
  using findTag_ok [OF assms] address_set_line [OF assms(2)] assms(2)
  by (auto simp: lookup_def lookup_loc_def split: option.splits)

lemma lookup_loc_ok:
  assumes "cm_inv c m" "addressToCacheSet c m a = Some s" "cm_abs c m a = Some e"
  shows "\<exists>i < cm_assoc m. lookup_loc c a m = Some (s, i) \<and> cell m s i = Some e \<and> cm_cache m ! s ! i = e \<and> tag_match a e"
proof -
  obtain r where r: "findTagInSet c s a m = Some r"
    "case r of None \<Rightarrow> cm_abs c m a = None
     | Some i \<Rightarrow> i < cm_assoc m \<and> cell m s i = Some (cm_cache m ! s ! i) \<and> cm_abs c m a = Some (cm_cache m ! s ! i)"
    using findTag_ok [OF assms(1,2)] by blast
  with assms(3) obtain i where i: "r = Some i" "i < cm_assoc m" "cell m s i = Some e" "cm_cache m ! s ! i = e"
    by (auto split: option.splits)
  moreover have "tag_match a e" using cm_abs_Some [OF assms(1,2)] assms(3) by blast
  ultimately show ?thesis
    using r(1) address_set_line [OF assms(2)] assms(2) by (auto simp: lookup_loc_def)
qed

lemma cacheAvail_ok:
  assumes "cm_inv c m" "addressToCacheSet c m a = Some s"
  shows "cacheAvail c a m = Some (cm_abs c m a \<noteq> None \<or>
    (\<exists>i < cm_assoc m. ce_Permission (cm_cache m ! s ! i) = Perm_NotPresent))"
proof -
  let ?P = "\<lambda>e. ce_Address e = a \<or> ce_Permission e = Perm_NotPresent"
  obtain r where r: "find_way ?P m s 0 (cm_assoc m) = Some r"
    "case r of None \<Rightarrow> \<forall>j < cm_assoc m. \<not> ?P (cm_cache m ! s ! j) | Some j \<Rightarrow> j < cm_assoc m \<and> ?P (cm_cache m ! s ! j)"
    using find_way_full [OF assms] by blast
  have "(r \<noteq> None) = (cm_abs c m a \<noteq> None \<or> (\<exists>i < cm_assoc m. ce_Permission (cm_cache m ! s ! i) = Perm_NotPresent))"
  proof -
    have ex: "cm_abs c m a \<noteq> None \<longleftrightarrow> (\<exists>i < cm_assoc m. tag_match a (cm_cache m ! s ! i))"
      using cm_abs_Some [OF assms] by (auto simp: not_None_eq)
    show ?thesis unfolding ex using r(2) by (cases r) (auto simp: tag_match_def)
  qed
  then show ?thesis
    using r(1) address_set_line [OF assms(2)] assms(2) by (simp add: cacheAvail_def)
qed

lemma cm_write_frame [simp]:
  "addressToCacheSet c (cm_write s i e m) a = addressToCacheSet c m a"
  "cm_num_sets (cm_write s i e m) = cm_num_sets m" "cm_assoc (cm_write s i e m) = cm_assoc m"
  "cm_policy (cm_write s i e m) = cm_policy m"
  "cm_cache (cm_write s i e m) = (cm_cache m)[s := (cm_cache m ! s)[i := e]]"
  by (simp_all add: cm_write_def)

text \<open>Overwriting one way of a set, with an entry that is invisible or carries a tag that no other
  way of the set has, keeps the invariant and changes the map in one place.\<close>

lemma cm_write_inv:
  assumes "cm_inv c m" "addressToCacheSet c m a = Some s" "i < cm_assoc m"
    and "ce_Permission e = Perm_NotPresent \<or>
      ce_Address e = a \<and> (\<forall>j < cm_assoc m. j \<noteq> i \<longrightarrow> \<not> tag_match a (cm_cache m ! s ! j))"
  shows "cm_inv c (cm_write s i e m)"
proof -
  note d = cm_inv_dim [OF assms(1,2)]
  let ?w = "(cm_cache m)[s := (cm_cache m ! s)[i := e]]"
  have cell: "?w ! t ! j = (if t = s \<and> j = i then e else cm_cache m ! t ! j)" if "t < cm_num_sets m" "j < cm_assoc m" for t j
    using that d assms(3) by (cases "t = s") auto
  have I: "\<And>t j. t < cm_num_sets m \<Longrightarrow> j < cm_assoc m \<Longrightarrow> ce_Permission (cm_cache m ! t ! j) \<noteq> Perm_NotPresent \<Longrightarrow>
      addressToCacheSet c m (ce_Address (cm_cache m ! t ! j)) = Some t"
    "\<And>t j k x. t < cm_num_sets m \<Longrightarrow> j < cm_assoc m \<Longrightarrow> k < cm_assoc m \<Longrightarrow>
      tag_match x (cm_cache m ! t ! j) \<Longrightarrow> tag_match x (cm_cache m ! t ! k) \<Longrightarrow> j = k"
    using assms(1) unfolding cm_inv_def by blast+
  have "j = k" if "t < cm_num_sets m" "j < cm_assoc m" "k < cm_assoc m" "tag_match x (?w ! t ! j)" "tag_match x (?w ! t ! k)" for t j k x
    using that I(2) [of t j k x] assms(4) cell by (auto simp: tag_match_def split: if_splits)
  moreover have "addressToCacheSet c m (ce_Address (?w ! t ! j)) = Some t"
    if "t < cm_num_sets m" "j < cm_assoc m" "ce_Permission (?w ! t ! j) \<noteq> Perm_NotPresent" for t j
    using that I(1) assms(2,4) cell by (auto split: if_splits)
  moreover have "length (?w ! t) = cm_assoc m" if "t < cm_num_sets m" for t
    using that assms(1) d by (cases "t = s") (auto simp: cm_inv_def)
  ultimately show ?thesis
    using assms(1) unfolding cm_inv_def cm_write_frame length_list_update by blast
qed

lemma cm_write_abs_other:
  assumes "cm_inv c m" "addressToCacheSet c m a = Some s" "i < cm_assoc m" "b \<noteq> a"
    "\<not> tag_match b e" "\<not> tag_match b (cm_cache m ! s ! i)" "cm_inv c (cm_write s i e m)"
  shows "cm_abs c (cm_write s i e m) b = cm_abs c m b"
proof (cases "addressToCacheSet c m b")
  case None
  then show ?thesis by (simp add: cm_abs_def)
next
  case (Some t)
  have b': "addressToCacheSet c (cm_write s i e m) b = Some t" using Some by simp
  note d = cm_inv_dim [OF assms(1,2)]
  have "cm_abs c (cm_write s i e m) b = Some x \<longleftrightarrow> cm_abs c m b = Some x" for x
    unfolding cm_abs_Some [OF assms(1) Some] cm_abs_Some [OF assms(7) b'] cm_write_frame
    using d assms(3,5,6) by (cases "t = s") (auto simp: nth_list_update)
  then show ?thesis by (metis option.exhaust)
qed

lemma cm_touch_ok:
  assumes "cm_inv c m" "s < cm_num_sets m" "i < cm_assoc m"
  shows "\<exists>m'. cm_touch s i t m = Some m' \<and> cm_inv c m' \<and> cm_abs c m' = cm_abs c m \<and> cm_cache m' = cm_cache m"
proof -
  have p: "lru_inv (cm_policy m)" "m_num_sets (cm_policy m) = cm_num_sets m" "m_assoc (cm_policy m) = cm_assoc m"
    using assms(1) by (simp_all add: cm_inv_def)
  obtain q where "lru_touch s i t (cm_policy m) = Some q" "lru_inv q" "m_num_sets q = cm_num_sets m" "m_assoc q = cm_assoc m"
    using lru.touch_ok [OF p(1), of s i t] assms(2,3) p(2,3) by auto
  then show ?thesis
    using assms(1) by (auto simp: cm_touch_def cm_inv_def cm_abs_def fun_eq_iff split: option.split)
qed

subsection \<open>A cache is a finite map\<close>

lemma cm_allocate_ok:
  assumes "cm_inv c m" "addressToCacheSet c m a = Some s" "isTagPresent c a m = Some False" "cacheAvail c a m = Some True"
  shows "\<exists>m'. allocate c entry_new t a m = Some m' \<and> cm_inv c m' \<and>
    cm_abs c m' = (cm_abs c m)(a \<mapsto> entry_new\<lparr>ce_Address := a, ce_Permission := Perm_Invalid\<rparr>) \<and>
    lookup c a m' = Some (entry_new\<lparr>ce_Address := a, ce_Permission := Perm_Invalid\<rparr>)"
proof -
  let ?e = "entry_new\<lparr>ce_Address := a, ce_Permission := Perm_Invalid\<rparr>"
  note d = cm_inv_dim [OF assms(1,2)]
  have abs: "cm_abs c m a = None" using isTagPresent_ok [OF assms(1,2)] assms(3) by simp
  have no: "\<not> tag_match a (cm_cache m ! s ! j)" if "j < cm_assoc m" for j
    using abs cm_abs_Some [OF assms(1,2)] that by (metis option.distinct(1))
  obtain r where r: "find_way (\<lambda>e. ce_Permission e = Perm_NotPresent) m s 0 (cm_assoc m) = Some r"
    "case r of None \<Rightarrow> \<forall>j < cm_assoc m. ce_Permission (cm_cache m ! s ! j) \<noteq> Perm_NotPresent
     | Some j \<Rightarrow> j < cm_assoc m \<and> ce_Permission (cm_cache m ! s ! j) = Perm_NotPresent"
    using find_way_full [OF assms(1,2)] by blast
  moreover have "\<exists>i < cm_assoc m. ce_Permission (cm_cache m ! s ! i) = Perm_NotPresent"
    using cacheAvail_ok [OF assms(1,2)] assms(4) abs by simp
  ultimately obtain i where i: "r = Some i" "i < cm_assoc m" "ce_Permission (cm_cache m ! s ! i) = Perm_NotPresent"
    by (auto split: option.splits)
  let ?m = "cm_write s i ?e m"
  have inv: "cm_inv c ?m" using no by (intro cm_write_inv [OF assms(1,2) i(2)]) auto
  have a: "cm_abs c ?m a = Some ?e"
    using cm_abs_Some [OF inv, of a s ?e] assms(2) d i(2) by (auto simp: tag_match_def intro!: exI [of _ i])
  have other: "cm_abs c ?m b = cm_abs c m b" if "b \<noteq> a" for b
    using that i(3) by (intro cm_write_abs_other [OF assms(1,2) i(2)] inv) (auto simp: tag_match_def)
  obtain m' where m': "cm_touch s i t ?m = Some m'" "cm_inv c m'" "cm_abs c m' = cm_abs c ?m" "cm_cache m' = cm_cache ?m"
    using cm_touch_ok [OF inv, of s i t] d(3) i(2) by auto
  have "allocate c entry_new t a m = Some m'"
    using address_set_line [OF assms(2)] assms(2-4) r(1) i(1) m'(1) by (simp add: allocate_def check_bind)
  moreover have "cm_abs c m' = (cm_abs c m)(a \<mapsto> ?e)" using m'(3) a other by (auto simp: fun_eq_iff)
  moreover have "addressToCacheSet c m' a = Some s"
    using m'(1) assms(2) by (auto simp: cm_touch_def bind_Some_iff)
  ultimately show ?thesis using m'(2) cm_lookup_ok [OF m'(2)] by auto
qed

definition sample_entry :: "unit cache_entry" where
  "sample_entry = \<lparr>ce_Address = 0, ce_Permission = Perm_NotPresent, ce_DataBlk = [], ce_fields = ()\<rparr>"

abbreviation sample_cache :: "unit cache_memory" where
  "sample_cache \<equiv> cache_new sample_entry 2 2 Level_L1"

lemma sample_cache_set:
  "\<exists>c. config_init True sample_config = Some c \<and> addressToCacheSet c sample_cache 64 = Some 1"
proof -
  obtain c where c: "config_init True sample_config = Some c" "g_DATA_BLOCK_BITS c = 6"
    using sample_config_init by blast
  obtain l where "line_address c 64 = Some l" "unat l = 64"
    using line_address_Some [of c 64] c(2) by auto
  then have l: "line_address c 64 = Some 64" by (simp add: word_unat_eq_iff)
  obtain r where "bitSelect (int 6) (int 6 + int 2 - 1) 64 = Some r" "unat r = 1"
    using bitSelect_field [of 2 6 64] by auto
  then have "addressToCacheSet c sample_cache 64 = Some 1"
    using l c(2) by (simp add: addressToCacheSet_def cache_new_def map_address_to_L1CacheSet_def cm_num_sets_def check_bind)
  with c show ?thesis by blast
qed

lemma cm_deallocate_ok:
  assumes "cm_inv c m" "addressToCacheSet c m a = Some s" "cm_abs c m a = Some e"
  shows "\<exists>m'. deallocate c a m = Some m' \<and> cm_inv c m' \<and> cm_abs c m' = (cm_abs c m)(a := None) \<and>
    cm_assoc m' = cm_assoc m \<and> addressToCacheSet c m' = addressToCacheSet c m \<and>
    (\<exists>i < cm_assoc m. ce_Permission (cm_cache m' ! s ! i) = Perm_NotPresent)"
proof -
  note d = cm_inv_dim [OF assms(1,2)]
  obtain i where i: "i < cm_assoc m" "lookup_loc c a m = Some (s, i)" "cell m s i = Some e"
    "cm_cache m ! s ! i = e" "tag_match a e"
    using lookup_loc_ok [OF assms] by blast
  let ?e = "e\<lparr>ce_Permission := Perm_NotPresent\<rparr>"
  let ?m = "cm_write s i ?e m"
  have inv: "cm_inv c ?m" by (rule cm_write_inv [OF assms(1,2) i(1)]) simp
  have "cm_abs c ?m a = None"
  proof (rule ccontr)
    assume "cm_abs c ?m a \<noteq> None"
    then obtain x where "cm_abs c ?m a = Some x" by auto
    then obtain j where j: "j < cm_assoc m" "tag_match a (cm_cache ?m ! s ! j)"
      using cm_abs_Some [OF inv, of a s x] assms(2) by auto
    then have "j \<noteq> i" "tag_match a (cm_cache m ! s ! j)"
      using d i(1) by (auto simp: tag_match_def nth_list_update split: if_splits)
    moreover have "tag_match a (cm_cache m ! s ! i)" using i(4,5) by simp
    ultimately show False using assms(1) d(3) i(1) j(1) unfolding cm_inv_def by blast
  qed
  moreover have "cm_abs c ?m b = cm_abs c m b" if "b \<noteq> a" for b
    using that i(4,5) by (intro cm_write_abs_other [OF assms(1,2) i(1)] inv) (auto simp: tag_match_def)
  ultimately have abs: "cm_abs c ?m = (cm_abs c m)(a := None)" by (auto simp: fun_eq_iff)
  have "deallocate c a m = Some ?m"
    using address_set_line [OF assms(2)] isTagPresent_ok [OF assms(1,2)] assms(3) i
    by (simp add: deallocate_def check_bind)
  moreover have "ce_Permission (cm_cache ?m ! s ! i) = Perm_NotPresent" using d i(1) by simp
  ultimately show ?thesis using inv abs i(1) by (intro exI [of _ ?m]) auto
qed

lemma allocate_frame:
  "allocate c entry_new t a m = Some m' \<Longrightarrow> cm_assoc m' = cm_assoc m \<and> addressToCacheSet c m' = addressToCacheSet c m"
  by (auto simp: allocate_def cm_touch_def bind_Some_iff fun_eq_iff split: option.splits)

interpretation cache: tag_store "cm_inv c" "\<lambda>m a. addressToCacheSet c m a \<noteq> None" "cm_abs c"
  "\<lambda>m a. cacheAvail c a m = Some True" "\<lambda>a. entry_new\<lparr>ce_Address := a, ce_Permission := Perm_Invalid\<rparr>"
  "allocate c entry_new t" "deallocate c" "isTagPresent c" "lookup c" for c entry_new t
proof unfold_locales
  fix m :: "'a cache_memory" and a
  assume inv: "cm_inv c m" and "addressToCacheSet c m a \<noteq> None"
  then obtain s where s: "addressToCacheSet c m a = Some s" by auto
  show "isTagPresent c a m = Some (cm_abs c m a \<noteq> None)" by (rule isTagPresent_ok [OF inv s])
  show "lookup c a m = cm_abs c m a" by (rule cm_lookup_ok [OF inv s])
  {
    assume "cm_abs c m a = None" "cacheAvail c a m = Some True"
    then obtain m' where m': "allocate c entry_new t a m = Some m'" "cm_inv c m'"
      "cm_abs c m' = (cm_abs c m)(a \<mapsto> entry_new\<lparr>ce_Address := a, ce_Permission := Perm_Invalid\<rparr>)"
      using cm_allocate_ok [OF inv s, of entry_new t] isTagPresent_ok [OF inv s] by auto
    moreover have "addressToCacheSet c m' = addressToCacheSet c m"
      using allocate_frame [OF m'(1)] by blast
    ultimately show "\<exists>m'. allocate c entry_new t a m = Some m' \<and> cm_inv c m' \<and>
        cm_abs c m' = (cm_abs c m)(a \<mapsto> entry_new\<lparr>ce_Address := a, ce_Permission := Perm_Invalid\<rparr>) \<and>
        (\<lambda>a. addressToCacheSet c m' a \<noteq> None) = (\<lambda>a. addressToCacheSet c m a \<noteq> None)"
      by auto
  }
  {
    assume "cm_abs c m a \<noteq> None"
    then show "\<exists>m'. deallocate c a m = Some m' \<and> cm_inv c m' \<and> cm_abs c m' = (cm_abs c m)(a := None) \<and>
        (\<lambda>a. addressToCacheSet c m' a \<noteq> None) = (\<lambda>a. addressToCacheSet c m a \<noteq> None)"
      using cm_deallocate_ok [OF inv s] by fastforce
  }
qed

lemma cm_abs_new: "cm_abs c (cache_new e b n lev) = Map.empty"
proof
  fix a
  show "cm_abs c (cache_new e b n lev) a = None"
    using address_set_line [of c "cache_new e b n lev" a]
    by (auto simp: cm_abs_def cache_new_def cm_num_sets_def find_None_iff tag_match_def split: option.split)
qed

lemma cache_new_room:
  assumes "0 < n" "addressToCacheSet c (cache_new e b n lev) a = Some s"
  shows "isTagPresent c a (cache_new e b n lev) = Some False" "cacheAvail c a (cache_new e b n lev) = Some True"
proof -
  have inv: "cm_inv c (cache_new e b n lev)" using assms(1) by (rule cm_inv_new)
  show "isTagPresent c a (cache_new e b n lev) = Some False"
    using isTagPresent_ok [OF inv assms(2)] cm_abs_new [of c e b n lev] by simp
  have "ce_Permission (cm_cache (cache_new e b n lev) ! s ! 0) = Perm_NotPresent"
    using address_set_line [OF assms(2)] assms(1) by (simp add: cache_new_def cm_num_sets_def)
  then show "cacheAvail c a (cache_new e b n lev) = Some True"
    using cacheAvail_ok [OF inv assms(2)] assms(1) by (auto simp: cache_new_def)
qed

lemma sample_cache_empty:
  "\<exists>c. cm_inv c sample_cache \<and> addressToCacheSet c sample_cache 64 = Some 1 \<and>
    isTagPresent c 64 sample_cache = Some False \<and> cacheAvail c 64 sample_cache = Some True"
  using sample_cache_set cache_new_room [of 2] cm_inv_new [of 2] by (metis zero_less_numeral)

lemma cacheProbe_ok:
  assumes "cm_inv c m" "addressToCacheSet c m a = Some s" "cacheAvail c a m = Some False"
  shows "\<exists>v e w. cacheProbe c a m = Some v \<and> v \<noteq> a \<and> cm_abs c m v = Some e \<and> addressToCacheSet c m v = Some s \<and>
    w < cm_assoc m \<and> cm_cache m ! s ! w = e \<and>
    (\<forall>j < cm_assoc m. m_last_ref (cm_policy m) ! s ! w \<le> m_last_ref (cm_policy m) ! s ! j)"
proof -
  note d = cm_inv_dim [OF assms(1,2)]
  have p: "lru_inv (cm_policy m)" "s < m_num_sets (cm_policy m)" "m_assoc (cm_policy m) = cm_assoc m"
    using assms(1) d(3) by (auto simp: cm_inv_def)
  obtain w where w: "lru_getVictim s (cm_policy m) = Some w" "w < cm_assoc m"
    "\<forall>j < cm_assoc m. m_last_ref (cm_policy m) ! s ! w \<le> m_last_ref (cm_policy m) ! s ! j"
    using lru_victim_ok [OF p(1,2)] p(3) by auto
  let ?e = "cm_cache m ! s ! w" and ?v = "ce_Address (cm_cache m ! s ! w)"
  have no: "cm_abs c m a = None" "ce_Permission ?e \<noteq> Perm_NotPresent"
    using cacheAvail_ok [OF assms(1,2)] assms(3) w(2) by auto
  then have vs: "addressToCacheSet c m ?v = Some s" using assms(1) d(3) w(2) by (auto simp: cm_inv_def)
  then have ve: "cm_abs c m ?v = Some ?e"
    using cm_abs_Some [OF assms(1) vs] w(2) no(2) by (auto simp: tag_match_def)
  moreover have "?v \<noteq> a" using ve no(1) by auto
  moreover have "cacheProbe c a m = Some ?v"
    using address_set_line [OF assms(2)] assms(2,3) w(1,2) d by (simp add: cacheProbe_def cell_def check_bind)
  ultimately show ?thesis using vs w(2,3) by blast
qed

lemma full_sample_cache:
  "\<exists>c m. cm_inv c m \<and> addressToCacheSet c m 320 = Some 1 \<and> cacheAvail c (320 :: address) (m :: unit cache_memory) = Some False"
proof -
  let ?m = "cache_new sample_entry 2 1 Level_L1"
  obtain c where c: "config_init True sample_config = Some c" "addressToCacheSet c sample_cache 64 = Some 1"
    using sample_cache_set by blast
  then have s: "addressToCacheSet c ?m 64 = Some 1"
    by (simp add: addressToCacheSet_def cache_new_def cm_num_sets_def)
  obtain m where m: "allocate c sample_entry 5 64 ?m = Some m" "cm_inv c m" "addressToCacheSet c m = addressToCacheSet c ?m"
    "cm_abs c m = (cm_abs c ?m)(64 \<mapsto> sample_entry\<lparr>ce_Address := 64, ce_Permission := Perm_Invalid\<rparr>)" "cm_assoc m = 1"
    using cm_allocate_ok [OF cm_inv_new s, of sample_entry 5] cache_new_room [OF _ s] allocate_frame [of c sample_entry 5 64 ?m]
    by (auto simp: cache_new_def)
  have b: "g_DATA_BLOCK_BITS c = 6" using sample_config_init c(1) by auto
  obtain l where "line_address c 320 = Some l" "unat l = 320" using line_address_Some [of c 320] b by auto
  then have l: "line_address c 320 = Some 320" by (simp add: word_unat_eq_iff)
  obtain r where "bitSelect (int 6) (int 6 + int 2 - 1) 320 = Some r" "unat r = 1"
    using bitSelect_field [of 2 6 320] by auto
  then have s3: "addressToCacheSet c m 320 = Some 1"
    using l b m(3) by (simp add: addressToCacheSet_def cache_new_def map_address_to_L1CacheSet_def cm_num_sets_def check_bind)
  have s1: "addressToCacheSet c m 64 = Some 1" using m(3) s by simp
  have "cm_abs c m 64 = Some (sample_entry\<lparr>ce_Address := 64, ce_Permission := Perm_Invalid\<rparr>)" using m(4) by simp
  then obtain e where "cm_cache m ! 1 ! 0 = e" "tag_match 64 e"
    unfolding cm_abs_Some [OF m(2) s1] m(5) less_one by (elim exE conjE) simp
  then have "ce_Permission (cm_cache m ! 1 ! 0) \<noteq> Perm_NotPresent" by (simp add: tag_match_def)
  then have "cacheAvail c 320 m = Some False"
    using cacheAvail_ok [OF m(2) s3] m(4,5) by (simp add: cm_abs_new)
  with m(2) s3 show ?thesis by blast
qed

subsection \<open>Properties\<close>

text \<open>C31. On a well-formed cache, allocating an absent line for which there is room succeeds,
  keeps the cache well formed and adds exactly that line, invalid and with default contents, to
  the map from addresses to entries; the line is then found under its address and every other
  address finds what it found before.\<close>

theorem cache_allocate_refines:
  assumes "cm_inv c m" "addressToCacheSet c m a \<noteq> None" "isTagPresent c a m = Some False" "cacheAvail c a m = Some True"
  shows "\<exists>m'. allocate c entry_new t a m = Some m' \<and> cm_inv c m' \<and>
    cm_abs c m' = (cm_abs c m)(a \<mapsto> entry_new\<lparr>ce_Address := a, ce_Permission := Perm_Invalid\<rparr>) \<and>
    lookup c a m' = Some (entry_new\<lparr>ce_Address := a, ce_Permission := Perm_Invalid\<rparr>) \<and>
    (\<forall>b. b \<noteq> a \<and> addressToCacheSet c m b \<noteq> None \<longrightarrow> lookup c b m' = lookup c b m)"
proof -
  have "cm_abs c m a = None" using cache.present_ok [OF assms(1,2)] assms(3) by simp
  then obtain m' where m': "allocate c entry_new t a m = Some m'" "cm_inv c m'"
    "cm_abs c m' = (cm_abs c m)(a \<mapsto> entry_new\<lparr>ce_Address := a, ce_Permission := Perm_Invalid\<rparr>)"
    "(\<lambda>a. addressToCacheSet c m' a \<noteq> None) = (\<lambda>a. addressToCacheSet c m a \<noteq> None)"
    using cache.allocate_ok [OF assms(1,2) _ assms(4)] by blast
  have l: "lookup c b m' = cm_abs c m' b" if "addressToCacheSet c m b \<noteq> None" for b
    using that cm_lookup_ok [OF m'(2)] fun_cong [OF m'(4), of b] by auto
  moreover have "lookup c b m = cm_abs c m b" if "addressToCacheSet c m b \<noteq> None" for b
    using that cm_lookup_ok [OF assms(1)] by auto
  ultimately show ?thesis using m' assms(2) by auto
qed

theorem cache_allocate_refines_witness:
  "\<exists>c m'. allocate c sample_entry 5 64 sample_cache = Some m' \<and>
    lookup c 64 m' = Some (sample_entry\<lparr>ce_Address := 64, ce_Permission := Perm_Invalid\<rparr>)"
proof -
  obtain c where "cm_inv c sample_cache" "addressToCacheSet c sample_cache 64 = Some 1"
    "isTagPresent c 64 sample_cache = Some False" "cacheAvail c 64 sample_cache = Some True"
    using sample_cache_empty by blast
  then show ?thesis using cache_allocate_refines [of c sample_cache 64 sample_entry 5] by auto
qed

text \<open>Allocating a line and deallocating it again restores the map of the cache, and a
  deallocated line is no longer present.\<close>

lemma cache_deallocate_roundtrip:
  assumes "cm_inv c m" "addressToCacheSet c m a \<noteq> None" "isTagPresent c a m = Some False" "cacheAvail c a m = Some True"
  shows "\<exists>m'. (allocate c entry_new t a m \<bind> deallocate c a) = Some m' \<and> cm_inv c m' \<and>
    cm_abs c m' = cm_abs c m \<and> isTagPresent c a m' = Some False"
proof -
  have no: "cm_abs c m a = None" using cache.present_ok [OF assms(1,2)] assms(3) by simp
  obtain m1 where m1: "allocate c entry_new t a m = Some m1" "cm_inv c m1" "cm_abs c m1 a \<noteq> None"
    "addressToCacheSet c m1 a \<noteq> None"
    using cache.allocate_ok [OF assms(1,2) no assms(4)] assms(2) by (metis fun_upd_same option.distinct(1))
  then show ?thesis
    using cache.allocate_deallocate [OF assms(1,2) no assms(4), of entry_new t]
      cache.deallocate_gone [OF m1(2,4,3)] by auto
qed

text \<open>C10. Replacement makes progress: when a set has no room for a line, \<open>cacheProbe\<close> names another
  line of the same set, one whose last access is the oldest of the set; deallocating it makes
  room, and the allocation of the line then succeeds and replaces the victim in the map.\<close>

theorem cacheProbe_makes_room:
  assumes "cm_inv c m" "addressToCacheSet c m a = Some s" "cacheAvail c a m = Some False"
  shows "\<exists>v w m' m''. cacheProbe c a m = Some v \<and> v \<noteq> a \<and> addressToCacheSet c m v = Some s \<and>
    w < cm_assoc m \<and> tag_match v (cm_cache m ! s ! w) \<and>
    (\<forall>j < cm_assoc m. m_last_ref (cm_policy m) ! s ! w \<le> m_last_ref (cm_policy m) ! s ! j) \<and>
    deallocate c v m = Some m' \<and> cacheAvail c a m' = Some True \<and>
    allocate c entry_new t a m' = Some m'' \<and> cm_inv c m'' \<and>
    cm_abs c m'' = (cm_abs c m)(v := None, a \<mapsto> entry_new\<lparr>ce_Address := a, ce_Permission := Perm_Invalid\<rparr>)"
proof -
  obtain v e w where v: "cacheProbe c a m = Some v" "v \<noteq> a" "cm_abs c m v = Some e" "addressToCacheSet c m v = Some s"
    "w < cm_assoc m" "cm_cache m ! s ! w = e"
    "\<forall>j < cm_assoc m. m_last_ref (cm_policy m) ! s ! w \<le> m_last_ref (cm_policy m) ! s ! j"
    using cacheProbe_ok [OF assms] by blast
  have tm: "tag_match v e" using cm_abs_Some [OF assms(1) v(4)] v(3) by blast
  obtain m' where m': "deallocate c v m = Some m'" "cm_inv c m'" "cm_abs c m' = (cm_abs c m)(v := None)"
    "cm_assoc m' = cm_assoc m" "addressToCacheSet c m' = addressToCacheSet c m"
    "\<exists>i < cm_assoc m. ce_Permission (cm_cache m' ! s ! i) = Perm_NotPresent"
    using cm_deallocate_ok [OF assms(1) v(4,3)] by blast
  have s': "addressToCacheSet c m' a = Some s" using m'(5) assms(2) by simp
  have avail: "cacheAvail c a m' = Some True" using cacheAvail_ok [OF m'(2) s'] m'(4,6) by auto
  have "cm_abs c m a = None" using cacheAvail_ok [OF assms(1,2)] assms(3) by simp
  then have "isTagPresent c a m' = Some False" using isTagPresent_ok [OF m'(2) s'] m'(3) v(2) by simp
  then obtain m'' where "allocate c entry_new t a m' = Some m''" "cm_inv c m''"
    "cm_abs c m'' = (cm_abs c m')(a \<mapsto> entry_new\<lparr>ce_Address := a, ce_Permission := Perm_Invalid\<rparr>)"
    using cm_allocate_ok [OF m'(2) s' _ avail] by blast
  with v tm m'(1,3) avail show ?thesis by metis
qed

theorem cacheProbe_makes_room_witness:
  "\<exists>c (m :: unit cache_memory) v m'. cacheAvail c 320 m = Some False \<and> cacheProbe c 320 m = Some v \<and>
    deallocate c v m = Some m' \<and> cacheAvail c 320 m' = Some True"
proof -
  obtain c and m :: "unit cache_memory" where "cm_inv c m" "addressToCacheSet c m 320 = Some 1" "cacheAvail c 320 m = Some False"
    using full_sample_cache by blast
  then show ?thesis using cacheProbe_makes_room [of c m 320 1 sample_entry 5] by auto
qed

text \<open>A processor access hits exactly when the line is present with read-write permission, or with
  read-only permission and the access is a load or an instruction fetch; a hit delivers the
  line's data block, and no access changes which lines the cache holds.\<close>

lemma tryCacheAccess_hit:
  assumes "cm_inv c m" "addressToCacheSet c m a \<noteq> None"
  shows "\<exists>hit d m'. tryCacheAccess c t a rtype m = Some (hit, d, m') \<and> cm_inv c m' \<and> cm_abs c m' = cm_abs c m \<and>
    hit = (\<exists>e. cm_abs c m a = Some e \<and> (ce_Permission e = Perm_Read_Write \<or>
             ce_Permission e = Perm_Read_Only \<and> (rtype = RT_LD \<or> rtype = RT_IFETCH))) \<and>
    d = (if hit then map_option ce_DataBlk (cm_abs c m a) else None)"
proof -
  obtain s where s: "addressToCacheSet c m a = Some s" using assms(2) by auto
  note l = address_set_line [OF s] and ns = cm_inv_dim(3) [OF assms(1) s]
  obtain r where r: "findTagInSet c s a m = Some r"
    "case r of None \<Rightarrow> cm_abs c m a = None
     | Some i \<Rightarrow> i < cm_assoc m \<and> cell m s i = Some (cm_cache m ! s ! i) \<and> cm_abs c m a = Some (cm_cache m ! s ! i)"
    using findTag_ok [OF assms(1) s] by blast
  show ?thesis
  proof (cases r)
    case None
    then have "tryCacheAccess c t a rtype m = Some (False, None, m)" "cm_abs c m a = None"
      using r s l by (simp_all add: tryCacheAccess_def)
    with assms(1) show ?thesis by auto
  next
    case (Some i)
    with r(2) have i: "i < cm_assoc m" "cell m s i = Some (cm_cache m ! s ! i)" "cm_abs c m a = Some (cm_cache m ! s ! i)" by auto
    obtain m' where "cm_touch s i t m = Some m'" "cm_inv c m'" "cm_abs c m' = cm_abs c m"
      using cm_touch_ok [OF assms(1) ns i(1), of t] by blast
    with r(1) s l i Some show ?thesis by (auto simp: tryCacheAccess_def)
  qed
qed

end
