(* ===== verification/Memory_Control.thy ===== *)
theory Memory_Control
  imports Event_Queue
begin

text \<open>
  The DDR memory controller: \<^verbatim>\<open>ruby_clean/system/MemoryControl.C\<close>, \<^verbatim>\<open>MemoryControl.h\<close> and
  \<^verbatim>\<open>MemoryNode.h\<close>. Requests wait in an input queue, move one per memory cycle into the queue of their bank,
  are issued when bank, bus and four-activate window allow it, and come back through a response
  queue. The configuration constants are a record, \<^verbatim>\<open>random()\<close> is the parameter \<open>rnd\<close>, giving the
  result of the n-th call; profiling and debug output are left out. Messages are abstract; the null
  message pointer, an L3 writeback, is \<open>None\<close>.
\<close>

unbundle bit_operations_syntax

record mem_config =
  mem_bus_cycle_multiplier :: int
  banks_per_rank :: nat
  ranks_per_dimm :: nat
  dimms_per_channel :: nat
  bank_bit_0 :: nat
  rank_bit_0 :: nat
  dimm_bit_0 :: nat
  bank_queue_size :: nat
  bank_busy_time :: int
  rank_rank_delay :: int
  read_write_delay :: int
  basic_bus_busy_time :: int
  mem_ctl_latency :: int
  refresh_period :: int
  memRandomArbitrate :: int
  tFaw :: nat
  memFixedDelay :: int

record 'm memory_node =
  mn_time :: time
  mn_msg_counter :: int
  mn_msgptr :: "'m option"
  mn_addr :: "64 word"
  mn_is_mem_read :: bool
  mn_is_dirty_wb :: bool

definition memory_node_new :: "time \<Rightarrow> 'm option \<Rightarrow> 64 word \<Rightarrow> bool \<Rightarrow> bool \<Rightarrow> 'm memory_node" where
  "memory_node_new t m a is_mem_read is_dirty_wb =
     \<lparr>mn_time = t, mn_msg_counter = 0, mn_msgptr = m, mn_addr = a, mn_is_mem_read = is_mem_read, mn_is_dirty_wb = is_dirty_wb\<rparr>"

record 'm memory_control =
  mc_config :: mem_config
  mc_this :: nat
  mc_consumer_ptr :: "nat option"
  mc_msg_counter :: int
  mc_awakened :: bool
  total_banks :: nat
  total_ranks :: nat
  refresh_period_system :: int
  response_queue :: "'m memory_node list"
  input_queue :: "'m memory_node list"
  bankQueues :: "'m memory_node list list"
  bankBusyCounter :: "int list"
  oldRequest :: "bool list"
  tfaw_shift :: "64 word list"
  tfaw_count :: "int list"
  busBusyCounter_Write :: int
  busBusyCounter_ReadNewRank :: int
  busBusyCounter_Basic :: int
  busBusy_WhichRank :: nat
  roundRobin :: nat
  refresh_count :: int
  need_refresh :: int
  refresh_bank :: nat
  ageCounter :: int
  idleCount :: int
  random_calls :: nat

definition ACTIVATE_PER_TFAW :: int where "ACTIVATE_PER_TFAW = 4"
definition IDLECOUNT_MAX_VALUE :: int where "IDLECOUNT_MAX_VALUE = 1000"

definition memory_control_new :: "nat \<Rightarrow> mem_config \<Rightarrow> 'm memory_control option" where
  "memory_control_new this C = do {
     check (tFaw C \<le> 62);
     let banks = banks_per_rank C * ranks_per_dimm C * dimms_per_channel C;
     let ranks = ranks_per_dimm C * dimms_per_channel C;
     check (banks \<noteq> 0);
     Some \<lparr>mc_config = C, mc_this = this, mc_consumer_ptr = None, mc_msg_counter = 0, mc_awakened = False,
       total_banks = banks, total_ranks = ranks, refresh_period_system = refresh_period C div int banks,
       response_queue = [], input_queue = [], bankQueues = replicate banks [], bankBusyCounter = replicate banks 0,
       oldRequest = replicate banks False, tfaw_shift = replicate ranks 0, tfaw_count = replicate ranks 0,
       busBusyCounter_Write = 0, busBusyCounter_ReadNewRank = 0, busBusyCounter_Basic = 0, busBusy_WhichRank = 0,
       roundRobin = 0, refresh_count = 1, need_refresh = 0, refresh_bank = 0, ageCounter = 0, idleCount = 0,
       random_calls = 0\<rparr> }"

definition setConsumer :: "nat \<Rightarrow> 'm memory_control \<Rightarrow> 'm memory_control" where
  "setConsumer c s = s\<lparr>mc_consumer_ptr := Some c\<rparr>"

text \<open>A shift by the width of the type or more is undefined.\<close>

definition addr_field :: "64 word \<Rightarrow> nat \<Rightarrow> nat \<Rightarrow> nat option" where
  "addr_field a bit0 n = do { check (bit0 < 64); Some (unat (drop_bit bit0 a AND of_nat (n - 1))) }"

definition getBank :: "mem_config \<Rightarrow> 64 word \<Rightarrow> nat option" where
  "getBank C a = do {
     dimm \<leftarrow> addr_field a (dimm_bit_0 C) (dimms_per_channel C);
     rank \<leftarrow> addr_field a (rank_bit_0 C) (ranks_per_dimm C);
     bank \<leftarrow> addr_field a (bank_bit_0 C) (banks_per_rank C);
     Some (dimm * ranks_per_dimm C * banks_per_rank C + rank * banks_per_rank C + bank) }"

definition getRank :: "mem_config \<Rightarrow> nat \<Rightarrow> nat option" where
  "getRank C bank = do {
     let rank = bank div banks_per_rank C;
     check (rank < ranks_per_dimm C * dimms_per_channel C);
     Some rank }"

definition enqueueMemRef ::
  "'m memory_node \<Rightarrow> event_queue \<times> 'm memory_control \<Rightarrow> (event_queue \<times> 'm memory_control) option" where
  "enqueueMemRef memRef = (\<lambda>(q, s). do {
     let n = mc_msg_counter s + 1;
     getBank (mc_config s) (mn_addr memRef);
     let s1 = s\<lparr>mc_msg_counter := n, input_queue := input_queue s @ [memRef\<lparr>mn_msg_counter := n\<rparr>]\<rparr>;
     if mc_awakened s then Some (q, s1)
     else do {
       q' \<leftarrow> scheduleEvent (Some (mc_this s)) 1 q;
       Some (q', s1\<lparr>mc_awakened := True\<rparr>) } })"

definition mc_enqueue ::
  "'m \<Rightarrow> 64 word \<Rightarrow> bool \<Rightarrow> time \<Rightarrow> event_queue \<times> 'm memory_control \<Rightarrow> (event_queue \<times> 'm memory_control) option" where
  "mc_enqueue message a is_mem_read latency = (\<lambda>(q, s).
     enqueueMemRef (memory_node_new (m_globalTime q + latency) (Some message) a is_mem_read (\<not> is_mem_read)) (q, s))"

definition mc_isReady :: "time \<Rightarrow> 'm memory_control \<Rightarrow> bool" where
  "mc_isReady now s \<longleftrightarrow> response_queue s \<noteq> [] \<and> mn_time (hd (response_queue s)) \<le> now"

definition mc_dequeue :: "time \<Rightarrow> 'm memory_control \<Rightarrow> 'm memory_control option" where
  "mc_dequeue now s = do { check (mc_isReady now s); Some (s\<lparr>response_queue := tl (response_queue s)\<rparr>) }"

definition mc_peekNode :: "time \<Rightarrow> 'm memory_control \<Rightarrow> 'm memory_node option" where
  "mc_peekNode now s = do { check (mc_isReady now s); Some (hd (response_queue s)) }"

definition mc_peek :: "time \<Rightarrow> 'm memory_control \<Rightarrow> 'm option" where
  "mc_peek now s = do { n \<leftarrow> mc_peekNode now s; mn_msgptr n }"

definition mc_areNSlotsAvailable :: "int \<Rightarrow> 'm memory_control \<Rightarrow> bool" where
  "mc_areNSlotsAvailable n s = True"

definition enqueueToDirectory ::
  "'m memory_node \<Rightarrow> int \<Rightarrow> event_queue \<times> 'm memory_control \<Rightarrow> (event_queue \<times> 'm memory_control) option" where
  "enqueueToDirectory req latency = (\<lambda>(q, s). do {
     let arrival_time = m_globalTime q + latency * mem_bus_cycle_multiplier (mc_config s);
     q' \<leftarrow> scheduleEventAbsolute (mc_consumer_ptr s) arrival_time q;
     Some (q', s\<lparr>response_queue := response_queue s @ [req\<lparr>mn_time := arrival_time\<rparr>]\<rparr>) })"

text \<open>\<^verbatim>\<open>1 << (m_tFaw-1)\<close> is computed in 32-bit \<^verbatim>\<open>int\<close> and sign-extended when it is or-ed into the 64-bit
  register.\<close>

definition tfaw_mask :: "mem_config \<Rightarrow> 64 word" where
  "tfaw_mask C = signed (push_bit (tFaw C - 1) 1 :: 32 word)"

definition markTfaw :: "nat \<Rightarrow> 'm memory_control \<Rightarrow> 'm memory_control option" where
  "markTfaw rank s =
     (if tFaw (mc_config s) = 0 then Some s
      else do {
        check (tFaw (mc_config s) - 1 < 32);
        Some (s\<lparr>tfaw_shift := (tfaw_shift s)[rank := tfaw_shift s ! rank OR tfaw_mask (mc_config s)],
                tfaw_count := (tfaw_count s)[rank := tfaw_count s ! rank + 1]\<rparr>) })"

definition mc_random :: "(nat \<Rightarrow> nat) \<Rightarrow> 'm memory_control \<Rightarrow> nat \<times> 'm memory_control" where
  "mc_random rnd s = (rnd (random_calls s), s\<lparr>random_calls := random_calls s + 1\<rparr>)"

text \<open>The checks of \<^verbatim>\<open>queueReady\<close> after the random one.\<close>

definition queue_ready_fixed :: "nat \<Rightarrow> 'm memory_control \<Rightarrow> bool option" where
  "queue_ready_fixed bank s =
     (if memFixedDelay (mc_config s) \<noteq> 0 then Some True
      else if 2 * bank_busy_time (mc_config s) < ageCounter s \<and> \<not> oldRequest s ! bank then Some False
      else if busBusyCounter_Basic s = basic_bus_busy_time (mc_config s) then Some False
      else if 0 < busBusyCounter_Basic s then Some False
      else do {
        rank \<leftarrow> getRank (mc_config s) bank;
        if ACTIVATE_PER_TFAW \<le> tfaw_count s ! rank then Some False
        else do {
          check (bankQueues s ! bank \<noteq> []);
          let write = (\<not> mn_is_mem_read (hd (bankQueues s ! bank)));
          if write \<and> 0 < busBusyCounter_Write s then Some False
          else if \<not> write \<and> rank \<noteq> busBusy_WhichRank s \<and> 0 < busBusyCounter_ReadNewRank s then Some False
          else Some True } })"

definition queueReady :: "(nat \<Rightarrow> nat) \<Rightarrow> nat \<Rightarrow> 'm memory_control \<Rightarrow> (bool \<times> 'm memory_control) option" where
  "queueReady rnd bank s =
     (if 0 < bankBusyCounter s ! bank \<and> memFixedDelay (mc_config s) = 0 then Some (False, s)
      else if 2 \<le> memRandomArbitrate (mc_config s) then
        (case mc_random rnd s of (r, s') \<Rightarrow>
           if int (r mod 100) < memRandomArbitrate (mc_config s) then Some (False, s')
           else map_option (\<lambda>b. (b, s')) (queue_ready_fixed bank s'))
      else map_option (\<lambda>b. (b, s)) (queue_ready_fixed bank s))"

definition issueRefresh :: "nat \<Rightarrow> 'm memory_control \<Rightarrow> 'm memory_control option" where
  "issueRefresh bank s =
     (if need_refresh s = 0 \<or> refresh_bank s \<noteq> bank then Some s
      else if 0 < bankBusyCounter s ! bank then Some s
      else if 0 < busBusyCounter_Basic s then Some s
      else do {
        rank \<leftarrow> getRank (mc_config s) bank;
        if ACTIVATE_PER_TFAW \<le> tfaw_count s ! rank then Some s
        else markTfaw rank
          (s\<lparr>need_refresh := need_refresh s - 1,
             refresh_bank := (if total_banks s \<le> refresh_bank s + 1 then 0 else refresh_bank s + 1),
             bankBusyCounter := (bankBusyCounter s)[bank := bank_busy_time (mc_config s)],
             busBusyCounter_Basic := basic_bus_busy_time (mc_config s),
             busBusyCounter_Write := basic_bus_busy_time (mc_config s),
             busBusyCounter_ReadNewRank := basic_bus_busy_time (mc_config s)\<rparr>) })"

definition issueRequest ::
  "nat \<Rightarrow> event_queue \<times> 'm memory_control \<Rightarrow> (event_queue \<times> 'm memory_control) option" where
  "issueRequest bank = (\<lambda>(q, s). do {
     let C = mc_config s;
     rank \<leftarrow> getRank C bank;
     check (bankQueues s ! bank \<noteq> []);
     let req = hd (bankQueues s ! bank);
     let s1 = s\<lparr>bankQueues := (bankQueues s)[bank := tl (bankQueues s ! bank)]\<rparr>;
     (q2, s2) \<leftarrow> (if mn_msgptr req = None then Some (q, s1)
                  else enqueueToDirectory req (mem_ctl_latency C + memFixedDelay C) (q, s1));
     s3 \<leftarrow> markTfaw rank (s2\<lparr>oldRequest := (oldRequest s2)[bank := False]\<rparr>);
     let w = (if mn_is_mem_read req then basic_bus_busy_time C + read_write_delay C else basic_bus_busy_time C);
     let r = (if mn_is_mem_read req then basic_bus_busy_time C + rank_rank_delay C else basic_bus_busy_time C);
     Some (q2, s3\<lparr>bankBusyCounter := (bankBusyCounter s3)[bank := bank_busy_time C], busBusy_WhichRank := rank,
        busBusyCounter_Basic := basic_bus_busy_time C, busBusyCounter_Write := w, busBusyCounter_ReadNewRank := r\<rparr>) })"

subsection \<open>One memory cycle\<close>

abbreviation count_down :: "int \<Rightarrow> int" where
  "count_down n \<equiv> (if 0 < n then n - 1 else n)"

definition cycle_counters :: "'m memory_control \<Rightarrow> 'm memory_control" where
  "cycle_counters s = s\<lparr>bankBusyCounter := map count_down (bankBusyCounter s),
     busBusyCounter_Write := count_down (busBusyCounter_Write s),
     busBusyCounter_ReadNewRank := count_down (busBusyCounter_ReadNewRank s),
     busBusyCounter_Basic := count_down (busBusyCounter_Basic s),
     tfaw_count := map2 (\<lambda>c w. if bit w 0 then c - 1 else c) (tfaw_count s) (tfaw_shift s),
     tfaw_shift := map (drop_bit 1) (tfaw_shift s)\<rparr>"

definition cycle_refresh :: "'m memory_control \<Rightarrow> 'm memory_control option" where
  "cycle_refresh s = do {
     let n = (if memFixedDelay (mc_config s) = 0 then refresh_count s - 1 else refresh_count s);
     if n = 0 then do {
       check (need_refresh s < 10);
       Some (s\<lparr>refresh_count := refresh_period_system s, need_refresh := need_refresh s + 1\<rparr>) }
     else Some (s\<lparr>refresh_count := n\<rparr>) }"

definition cycle_batch :: "'m memory_control \<Rightarrow> 'm memory_control" where
  "cycle_batch s =
     (if list_ex id (oldRequest s) then s\<lparr>ageCounter := ageCounter s + 1\<rparr>
      else s\<lparr>oldRequest := map2 (\<lambda>old bq. old \<or> bq \<noteq> []) (oldRequest s) (bankQueues s), ageCounter := 0\<rparr>)"

definition cycle_random :: "(nat \<Rightarrow> nat) \<Rightarrow> 'm memory_control \<Rightarrow> 'm memory_control" where
  "cycle_random rnd s =
     (if memRandomArbitrate (mc_config s) = 0 then s
      else case mc_random rnd s of (r, s') \<Rightarrow> s'\<lparr>roundRobin := r mod total_banks s\<rparr>)"

definition next_bank :: "'m memory_control \<Rightarrow> nat" where
  "next_bank s = (if total_banks s \<le> roundRobin s + 1 then 0 else roundRobin s + 1)"

definition scan_bank ::
  "(nat \<Rightarrow> nat) \<Rightarrow> event_queue \<times> 'm memory_control \<Rightarrow> (event_queue \<times> 'm memory_control) option" where
  "scan_bank rnd = (\<lambda>(q, s). do {
     let bank = next_bank s;
     s1 \<leftarrow> issueRefresh bank (s\<lparr>roundRobin := bank\<rparr>);
     if bankQueues s1 ! bank = [] then Some (q, s1)
     else do {
       (ready, s2) \<leftarrow> queueReady rnd bank (s1\<lparr>idleCount := IDLECOUNT_MAX_VALUE\<rparr>);
       if ready then issueRequest bank (q, s2) else Some (q, s2) } })"

definition cycle_input :: "'m memory_control \<Rightarrow> 'm memory_control option" where
  "cycle_input s =
     (case input_queue s of [] \<Rightarrow> Some s
      | req # rest \<Rightarrow> do {
          bank \<leftarrow> getBank (mc_config s) (mn_addr req);
          let s1 = s\<lparr>idleCount := IDLECOUNT_MAX_VALUE\<rparr>;
          Some (if length (bankQueues s ! bank) < bank_queue_size (mc_config s)
                then s1\<lparr>input_queue := rest, bankQueues := (bankQueues s)[bank := bankQueues s ! bank @ [req]]\<rparr>
                else s1) })"

definition executeCycle ::
  "(nat \<Rightarrow> nat) \<Rightarrow> event_queue \<times> 'm memory_control \<Rightarrow> (event_queue \<times> 'm memory_control) option" where
  "executeCycle rnd = (\<lambda>(q, s). do {
     s1 \<leftarrow> cycle_refresh (cycle_counters s);
     let s2 = cycle_random rnd (cycle_batch s1);
     (q', s3) \<leftarrow> fold_opt (\<lambda>_. scan_bank rnd) [0..<total_banks s2] (q, s2);
     s4 \<leftarrow> cycle_input s3;
     Some (q', s4) })"

definition mc_wakeup ::
  "(nat \<Rightarrow> nat) \<Rightarrow> event_queue \<times> 'm memory_control \<Rightarrow> (event_queue \<times> 'm memory_control) option" where
  "mc_wakeup rnd st = do {
     (q, s) \<leftarrow> executeCycle rnd st;
     let s1 = s\<lparr>idleCount := idleCount s - 1\<rparr>;
     if idleCount s1 \<le> 0 then Some (q, s1\<lparr>mc_awakened := False\<rparr>)
     else do {
       q' \<leftarrow> scheduleEvent (Some (mc_this s)) (mem_bus_cycle_multiplier (mc_config s)) q;
       Some (q', s1) } }"

subsection \<open>Timing\<close>

text \<open>A history of activations: for every memory cycle, the latest first, the banks that were activated.
  \<open>timing_ok\<close> is the contract with the DRAM: at most one activation per cycle, any two at least
  \<^verbatim>\<open>m_basic_bus_busy_time\<close> cycles apart, two of the same bank at least \<^verbatim>\<open>m_bank_busy_time\<close>, and in
  any window of \<^verbatim>\<open>m_tFaw\<close> cycles at most four in the same rank.\<close>

abbreviation bank_rank :: "mem_config \<Rightarrow> nat \<Rightarrow> nat" where
  "bank_rank C b \<equiv> b div banks_per_rank C"

definition rank_acts :: "mem_config \<Rightarrow> nat \<Rightarrow> nat list list \<Rightarrow> nat" where
  "rank_acts C r L = length (filter (\<lambda>b. bank_rank C b = r) (concat L))"

definition timing_ok :: "mem_config \<Rightarrow> nat list list \<Rightarrow> bool" where
  "timing_ok C L \<longleftrightarrow>
     (\<forall>A \<in> set L. length A \<le> 1) \<and>
     (\<forall>i j. i < j \<and> j < length L \<longrightarrow> (\<forall>b \<in> set (L ! i). \<forall>b' \<in> set (L ! j).
        basic_bus_busy_time C \<le> int (j - i) \<and> (b = b' \<longrightarrow> bank_busy_time C \<le> int (j - i)))) \<and>
     (\<forall>i r. rank_acts C r (take (tFaw C) (drop i L)) \<le> 4)"

definition timing :: "mem_config \<Rightarrow> nat list list \<Rightarrow> int list \<Rightarrow> int \<Rightarrow> 64 word list \<Rightarrow> int list \<Rightarrow> bool" where
  "timing C L busy basic shift cnt \<longleftrightarrow>
     timing_ok C L \<and> 0 \<le> basic \<and> length cnt = length shift \<and>
     (\<forall>j < length L. L ! j \<noteq> [] \<longrightarrow> basic_bus_busy_time C - int j \<le> basic) \<and>
     (\<forall>j < length L. \<forall>b \<in> set (L ! j). b < length busy \<and> bank_busy_time C - int j \<le> busy ! b) \<and>
     (\<forall>b < length busy. busy ! b \<le> bank_busy_time C) \<and>
     (L \<noteq> [] \<longrightarrow> (\<forall>b < length busy. busy ! b = bank_busy_time C \<longleftrightarrow> b \<in> set (hd L))) \<and>
     (\<forall>r < length shift. (\<forall>i. bit (shift ! r) i \<longleftrightarrow> (\<exists>j < length L. i + j + 1 = tFaw C \<and> r \<in> bank_rank C ` set (L ! j))) \<and>
        cnt ! r = int (rank_acts C r (take (tFaw C) L)))"

lemma rank_acts_simps [simp]: "rank_acts C r [] = 0" "rank_acts C r (A # L) = length (filter (\<lambda>b. bank_rank C b = r) A) + rank_acts C r L"
  by (simp_all add: rank_acts_def)

lemma rank_acts_append [simp]: "rank_acts C r (L @ M) = rank_acts C r L + rank_acts C r M"
  by (simp add: rank_acts_def)

lemma rank_acts_take: "m \<le> n \<Longrightarrow> rank_acts C r (take m L) \<le> rank_acts C r (take n L)"
proof (induction L arbitrary: m n)
  case (Cons A L)
  then show ?case by (cases m; cases n) auto
qed simp

lemma timing_ok_quiet:
  assumes "timing_ok C L"
  shows "timing_ok C ([] # L)"
proof -
  have "rank_acts C r (take (tFaw C) (drop i ([] # L))) \<le> 4" for i r
  proof (cases i)
    case 0
    have "rank_acts C r (take (tFaw C) ([] # L)) \<le> rank_acts C r (take (tFaw C) (drop 0 L))"
      using rank_acts_take [of "tFaw C - 1" "tFaw C" C r L] by (cases "tFaw C") simp_all
    also have "\<dots> \<le> 4" using assms unfolding timing_ok_def by blast
    finally show ?thesis using 0 by simp
  qed (use assms in \<open>simp add: timing_ok_def\<close>)
  moreover have "basic_bus_busy_time C \<le> int (j - i) \<and> (b = b' \<longrightarrow> bank_busy_time C \<le> int (j - i))"
    if p: "i < j" "j < length ([] # L)" "b \<in> set (([] # L) ! i)" "b' \<in> set (([] # L) ! j)" for i j b b'
  proof -
    obtain i' j' where "i = Suc i'" "j = Suc j'" using p by (cases i; cases j) auto
    with p assms show ?thesis by (auto simp: timing_ok_def)
  qed
  ultimately show ?thesis using assms unfolding timing_ok_def by auto
qed

lemma timing_ok_act:
  assumes "timing_ok C H" "rank_acts C (bank_rank C b) (take (tFaw C - 1) H) < 4"
    and "\<forall>j < length H. H ! j \<noteq> [] \<longrightarrow> basic_bus_busy_time C \<le> int (Suc j)"
    and "\<forall>j < length H. b \<in> set (H ! j) \<longrightarrow> bank_busy_time C \<le> int (Suc j)"
  shows "timing_ok C ([b] # H)"
proof -
  have "rank_acts C r (take (tFaw C) (drop i ([b] # H))) \<le> 4" for i r
  proof (cases i)
    case 0
    have "rank_acts C r (take (tFaw C - 1) H) \<le> rank_acts C r (take (tFaw C) (drop 0 H))"
      using rank_acts_take [of "tFaw C - 1" "tFaw C" C r H] by simp
    also have "\<dots> \<le> 4" using assms(1) unfolding timing_ok_def by blast
    finally show ?thesis using 0 assms(2) by (cases "tFaw C") auto
  qed (use assms(1) in \<open>simp add: timing_ok_def\<close>)
  moreover have "basic_bus_busy_time C \<le> int (j - i) \<and> (x = y \<longrightarrow> bank_busy_time C \<le> int (j - i))"
    if p: "i < j" "j < length ([b] # H)" "x \<in> set (([b] # H) ! i)" "y \<in> set (([b] # H) ! j)" for i j x y
  proof (cases i)
    case 0
    obtain j' where j': "j = Suc j'" using p by (cases j) auto
    with 0 p have "x = b" "y \<in> set (H ! j')" "j' < length H" by auto
    moreover from this(2) have "H ! j' \<noteq> []" by auto
    ultimately show ?thesis using 0 j' assms(3,4) by auto
  next
    case (Suc i')
    obtain j' where "j = Suc j'" using p by (cases j) auto
    with Suc p assms(1) show ?thesis by (auto simp: timing_ok_def)
  qed
  ultimately show ?thesis using assms(1) unfolding timing_ok_def by auto
qed

lemma tfaw_mask_bit:
  assumes "tFaw C \<le> 31" "tFaw C \<noteq> 0"
  shows "bit (tfaw_mask C) i \<longleftrightarrow> i + 1 = tFaw C"
  using assms by (auto simp: tfaw_mask_def bit_signed_iff bit_simps min_def)

definition mark_shift :: "mem_config \<Rightarrow> nat \<Rightarrow> 64 word list \<Rightarrow> 64 word list" where
  "mark_shift C r shift = (if tFaw C = 0 then shift else shift[r := shift ! r OR tfaw_mask C])"

definition mark_count :: "mem_config \<Rightarrow> nat \<Rightarrow> int list \<Rightarrow> int list" where
  "mark_count C r cnt = (if tFaw C = 0 then cnt else cnt[r := cnt ! r + 1])"

lemma mark_length [simp]: "length (mark_shift C r shift) = length shift" "length (mark_count C r cnt) = length cnt"
  by (simp_all add: mark_shift_def mark_count_def)

lemma timing_tick:
  assumes T: "timing C L busy basic shift cnt" and pos: "1 \<le> bank_busy_time C"
  shows "timing C ([] # L) (map count_down busy) (count_down basic) (map (drop_bit 1) shift)
    (map2 (\<lambda>c w. if bit w 0 then c - 1 else c) cnt shift)"
proof -
  have len: "length cnt = length shift" using T by (simp add: timing_def)
  have bits: "\<forall>i. bit (shift ! r) i \<longleftrightarrow> (\<exists>j < length L. i + j + 1 = tFaw C \<and> r \<in> bank_rank C ` set (L ! j))"
    and cnt: "cnt ! r = int (rank_acts C r (take (tFaw C) L))" if "r < length shift" for r
    using T that by (auto simp: timing_def)
  have one: "\<forall>A \<in> set L. length A \<le> 1" using T by (simp add: timing_def timing_ok_def)
  have tf: "(if bit (shift ! r) 0 then cnt ! r - 1 else cnt ! r) = int (rank_acts C r (take (tFaw C) ([] # L)))"
    if "r < length shift" for r
  proof (cases "tFaw C")
    case 0
    then show ?thesis using bits [OF that] cnt [OF that] by simp
  next
    case (Suc n)
    show ?thesis
    proof (cases "n < length L")
      case True
      have "length (L ! n) \<le> 1" using one nth_mem [OF True] by blast
      then have b: "L ! n = [] \<or> (\<exists>b. L ! n = [b])" by (simp add: le_Suc_eq length_Suc_conv)
      have "bit (shift ! r) 0 \<longleftrightarrow> (\<exists>j < length L. 0 + j + 1 = tFaw C \<and> r \<in> bank_rank C ` set (L ! j))"
        using bits [OF that] by blast
      also have "\<dots> \<longleftrightarrow> r \<in> bank_rank C ` set (L ! n)" using True Suc by auto
      finally have bit0: "bit (shift ! r) 0 \<longleftrightarrow> r \<in> bank_rank C ` set (L ! n)" .
      have acts: "rank_acts C r (take (Suc n) L) = rank_acts C r (take n L) + length (filter (\<lambda>b. bank_rank C b = r) (L ! n))"
        by (simp add: take_Suc_conv_app_nth True)
      show ?thesis using b
      proof (elim disjE exE)
        assume "L ! n = []"
        with bit0 acts cnt [OF that] Suc show ?thesis by simp
      next
        fix b assume "L ! n = [b]"
        with bit0 acts cnt [OF that] Suc show ?thesis by (cases "bank_rank C b = r") simp_all
      qed
    next
      case False
      then have "\<not> bit (shift ! r) 0" using bits [OF that] Suc by auto
      then show ?thesis using cnt [OF that] Suc False by simp
    qed
  qed
  have bt: "bit (drop_bit 1 (shift ! r)) i \<longleftrightarrow> (\<exists>j < length ([] # L). i + j + 1 = tFaw C \<and> r \<in> bank_rank C ` set (([] # L) ! j))"
    if r: "r < length shift" for r i
  proof -
    have "bit (drop_bit 1 (shift ! r)) i \<longleftrightarrow> (\<exists>j < length L. (i + 1) + j + 1 = tFaw C \<and> r \<in> bank_rank C ` set (L ! j))"
      using bits [OF r] by (simp add: bit_drop_bit_eq)
    also have "\<dots> \<longleftrightarrow> (\<exists>j < length ([] # L). i + j + 1 = tFaw C \<and> r \<in> bank_rank C ` set (([] # L) ! j))" (is "?P \<longleftrightarrow> ?Q")
    proof
      assume ?P
      then obtain j where "j < length L" "i + 1 + j + 1 = tFaw C" "r \<in> bank_rank C ` set (L ! j)" by blast
      then show ?Q by (intro exI [of _ "Suc j"]) simp
    next
      assume ?Q
      then obtain j where j: "j < length ([] # L)" "i + j + 1 = tFaw C" "r \<in> bank_rank C ` set (([] # L) ! j)" by blast
      then show ?P by (cases j) auto
    qed
    finally show ?thesis .
  qed
  have basic: "basic_bus_busy_time C - int j \<le> count_down basic" if j: "j < length ([] # L)" "([] # L) ! j \<noteq> []" for j
  proof -
    obtain j' where "j = Suc j'" using j(2) by (cases j) auto
    with j T have "basic_bus_busy_time C - int j' \<le> basic" by (auto simp: timing_def)
    then show ?thesis using \<open>j = Suc j'\<close> by auto
  qed
  have bank: "b < length (map count_down busy) \<and> bank_busy_time C - int j \<le> map count_down busy ! b"
    if j: "j < length ([] # L)" "b \<in> set (([] # L) ! j)" for j b
  proof -
    obtain j' where "j = Suc j'" using j(2) by (cases j) auto
    with j T have "b < length busy" "bank_busy_time C - int j' \<le> busy ! b" by (auto simp: timing_def)
    then show ?thesis using \<open>j = Suc j'\<close> by auto
  qed
  have top: "map count_down busy ! b < bank_busy_time C" if "b < length busy" for b
  proof -
    have "busy ! b \<le> bank_busy_time C" using T that unfolding timing_def by blast
    then show ?thesis using that pos by auto
  qed
  show ?thesis
    unfolding timing_def
  proof (intro conjI)
    show "timing_ok C ([] # L)" using timing_ok_quiet T by (simp add: timing_def)
    show "0 \<le> count_down basic" using T by (simp add: timing_def)
    show "\<forall>j < length ([] # L). \<forall>b \<in> set (([] # L) ! j). b < length (map count_down busy) \<and>
        bank_busy_time C - int j \<le> map count_down busy ! b" using bank by blast
    show "\<forall>b < length (map count_down busy). map count_down busy ! b \<le> bank_busy_time C"
      using top by (simp only: length_map) (auto simp del: nth_map dest: less_imp_le)
    have "map count_down busy ! b \<noteq> bank_busy_time C" if "b < length busy" for b using top [OF that] by simp
    then show "[] # L \<noteq> [] \<longrightarrow> (\<forall>b < length (map count_down busy). (map count_down busy ! b = bank_busy_time C) = (b \<in> set (hd ([] # L))))"
      by (simp only: length_map list.sel list.set) simp
    show "\<forall>j < length ([] # L). ([] # L) ! j \<noteq> [] \<longrightarrow> basic_bus_busy_time C - int j \<le> count_down basic" using basic by blast
    show "\<forall>r < length (map (drop_bit 1) shift). (\<forall>i. bit (map (drop_bit 1) shift ! r) i \<longleftrightarrow>
        (\<exists>j < length ([] # L). i + j + 1 = tFaw C \<and> r \<in> bank_rank C ` set (([] # L) ! j))) \<and>
        map2 (\<lambda>c w. if bit w 0 then c - 1 else c) cnt shift ! r = int (rank_acts C r (take (tFaw C) ([] # L)))"
    proof (intro allI impI conjI)
      fix r i assume "r < length (map (drop_bit 1) shift)"
      then have r: "r < length shift" by simp
      from bt [OF r, of i] r show "bit (map (drop_bit 1) shift ! r) i \<longleftrightarrow>
        (\<exists>j < length ([] # L). i + j + 1 = tFaw C \<and> r \<in> bank_rank C ` set (([] # L) ! j))" by (simp only: nth_map)
      from tf [OF r] r len show "map2 (\<lambda>c w. if bit w 0 then c - 1 else c) cnt shift ! r = int (rank_acts C r (take (tFaw C) ([] # L)))"
        by simp
    qed
  qed (simp_all add: len)
qed

lemma timing_ok_tl:
  assumes "timing_ok C (A # H)"
  shows "timing_ok C H"
proof -
  have "rank_acts C r (take (tFaw C) (drop i H)) \<le> 4" for i r
  proof -
    have "rank_acts C r (take (tFaw C) (drop (Suc i) (A # H))) \<le> 4" using assms unfolding timing_ok_def by blast
    then show ?thesis by simp
  qed
  moreover have "basic_bus_busy_time C \<le> int (j - i) \<and> (x = y \<longrightarrow> bank_busy_time C \<le> int (j - i))"
    if "i < j" "j < length H" "x \<in> set (H ! i)" "y \<in> set (H ! j)" for i j x y
  proof -
    have "Suc i < Suc j" "Suc j < length (A # H)" "x \<in> set ((A # H) ! Suc i)" "y \<in> set ((A # H) ! Suc j)" using that by auto
    then have "basic_bus_busy_time C \<le> int (Suc j - Suc i) \<and> (x = y \<longrightarrow> bank_busy_time C \<le> int (Suc j - Suc i))"
      using assms unfolding timing_ok_def by blast
    then show ?thesis by simp
  qed
  ultimately show ?thesis using assms unfolding timing_ok_def by auto
qed

lemma timing_act:
  assumes T: "timing C ([] # H) busy basic shift cnt" and ok: "1 \<le> bank_busy_time C" "0 \<le> basic_bus_busy_time C" "tFaw C \<le> 31"
    and b: "b < length busy" "bank_rank C b < length shift" "busy ! b \<le> 0" "basic \<le> 0" "cnt ! bank_rank C b < 4"
  shows "timing C ([b] # H) (busy[b := bank_busy_time C]) (basic_bus_busy_time C)
    (mark_shift C (bank_rank C b) shift) (mark_count C (bank_rank C b) cnt)"
proof -
  let ?r = "bank_rank C b"
  have len: "length cnt = length shift" using T by (simp add: timing_def)
  have tl: "timing_ok C H" using T by (auto simp: timing_def intro: timing_ok_tl)
  have H1: "basic_bus_busy_time C \<le> int (Suc j)" if "j < length H" "H ! j \<noteq> []" for j
  proof -
    have "Suc j < length ([] # H)" "([] # H) ! Suc j \<noteq> []" using that by auto
    then have "basic_bus_busy_time C - int (Suc j) \<le> basic" using T unfolding timing_def by blast
    then show ?thesis using b(4) by simp
  qed
  have H2: "x < length busy" "bank_busy_time C - int (Suc j) \<le> busy ! x" if "j < length H" "x \<in> set (H ! j)" for j x
  proof -
    have "Suc j < length ([] # H)" "x \<in> set (([] # H) ! Suc j)" using that by auto
    then show "x < length busy" "bank_busy_time C - int (Suc j) \<le> busy ! x" using T unfolding timing_def by blast+
  qed
  have H3: "bank_busy_time C \<le> int (Suc j)" if "j < length H" "b \<in> set (H ! j)" for j
    using H2 [OF that] b(3) by simp
  have acts: "rank_acts C r (take (tFaw C) ([] # H)) = rank_acts C r (take (tFaw C - 1) H)" for r by (cases "tFaw C") simp_all
  have cnt: "cnt ! r = int (rank_acts C r (take (tFaw C - 1) H))" if "r < length shift" for r
    using T that acts by (simp add: timing_def)
  have tok: "timing_ok C ([b] # H)"
    using timing_ok_act [OF tl] cnt [OF b(2)] b(5) H1 H3 by auto
  let ?shift = "mark_shift C ?r shift" and ?cnt = "mark_count C ?r cnt"
  have c: "?cnt ! r = int (rank_acts C r (take (tFaw C) ([b] # H)))" if "r < length shift" for r
    using cnt [OF that] that len b(2) by (cases "tFaw C"; cases "r = ?r") (auto simp: mark_count_def)
  have bt: "bit (?shift ! r) i \<longleftrightarrow> (\<exists>j < length ([b] # H). i + j + 1 = tFaw C \<and> r \<in> bank_rank C ` set (([b] # H) ! j))"
    if r: "r < length shift" for r i
  proof -
    have old: "bit (shift ! r) i \<longleftrightarrow> (\<exists>j < length ([] # H). i + j + 1 = tFaw C \<and> r \<in> bank_rank C ` set (([] # H) ! j))"
      using T r unfolding timing_def by blast
    have new: "(\<exists>j < length (A # H). i + j + 1 = tFaw C \<and> r \<in> bank_rank C ` set ((A # H) ! j)) \<longleftrightarrow>
        i + 1 = tFaw C \<and> r \<in> bank_rank C ` set A \<or> (\<exists>j < length H. i + Suc j + 1 = tFaw C \<and> r \<in> bank_rank C ` set (H ! j))" for A
      by (auto simp: less_Suc_eq_0_disj)
    show ?thesis
    proof (cases "tFaw C = 0 \<or> r \<noteq> ?r")
      case True
      then have "?shift ! r = shift ! r" by (auto simp: mark_shift_def)
      then have "bit (?shift ! r) i \<longleftrightarrow> bit (shift ! r) i" by simp
      with old show ?thesis unfolding new using True by auto
    next
      case False
      then have "bit (?shift ! r) i \<longleftrightarrow> bit (shift ! r) i \<or> i + 1 = tFaw C"
        using r tfaw_mask_bit [OF ok(3), of i] by (auto simp: mark_shift_def bit_or_iff)
      with old show ?thesis unfolding new using False by auto
    qed
  qed
  have basic: "basic_bus_busy_time C - int j \<le> basic_bus_busy_time C" for j by simp
  have bank: "x < length busy \<and> bank_busy_time C - int j \<le> busy[b := bank_busy_time C] ! x"
    if j: "j < length ([b] # H)" "x \<in> set (([b] # H) ! j)" for j x
  proof (cases j)
    case 0
    then show ?thesis using j b(1) by simp
  next
    case (Suc j')
    then have "x < length busy" "bank_busy_time C - int j \<le> busy ! x" using H2 [of j' x] j by auto
    then show ?thesis by (cases "x = b") auto
  qed
  have old: "busy ! x < bank_busy_time C" if "x < length busy" for x
  proof -
    have "busy ! x \<le> bank_busy_time C" "busy ! x \<noteq> bank_busy_time C" using T that unfolding timing_def by force+
    then show ?thesis by simp
  qed
  show ?thesis
    unfolding timing_def mark_length len
  proof (intro conjI)
    show "\<forall>j < length ([b] # H). \<forall>x \<in> set (([b] # H) ! j). x < length (busy[b := bank_busy_time C]) \<and>
        bank_busy_time C - int j \<le> busy[b := bank_busy_time C] ! x" using bank by simp
    show "\<forall>x < length (busy[b := bank_busy_time C]). busy[b := bank_busy_time C] ! x \<le> bank_busy_time C"
      using less_imp_le [OF old] b(1) by (simp add: nth_list_update)
    show "[b] # H \<noteq> [] \<longrightarrow> (\<forall>x < length (busy[b := bank_busy_time C]).
        (busy[b := bank_busy_time C] ! x = bank_busy_time C) = (x \<in> set (hd ([b] # H))))"
      using old b(1) by (auto simp: nth_list_update dest: less_imp_neq)
    show "\<forall>r < length shift. (\<forall>i. bit (?shift ! r) i \<longleftrightarrow>
        (\<exists>j < length ([b] # H). i + j + 1 = tFaw C \<and> r \<in> bank_rank C ` set (([b] # H) ! j))) \<and>
        ?cnt ! r = int (rank_acts C r (take (tFaw C) ([b] # H)))" using bt c by blast
  qed (use tok ok(2) in simp_all)
qed

subsection \<open>The controller keeps the timing\<close>

text \<open>Well-formed states: the arrays have the lengths the configuration gives them.\<close>

definition mem_config_ok :: "mem_config \<Rightarrow> bool" where
  "mem_config_ok C \<longleftrightarrow> 0 < banks_per_rank C \<and> 0 < ranks_per_dimm C \<and> 0 < dimms_per_channel C \<and>
     bank_bit_0 C < 64 \<and> rank_bit_0 C < 64 \<and> dimm_bit_0 C < 64 \<and> tFaw C \<le> 31 \<and> memFixedDelay C = 0 \<and>
     1 \<le> bank_busy_time C \<and> 1 \<le> basic_bus_busy_time C"

definition mc_wf :: "mem_config \<Rightarrow> 'm memory_control \<Rightarrow> bool" where
  "mc_wf C s \<longleftrightarrow> mc_config s = C \<and> total_banks s = banks_per_rank C * ranks_per_dimm C * dimms_per_channel C \<and>
     total_ranks s = ranks_per_dimm C * dimms_per_channel C \<and> length (bankQueues s) = total_banks s \<and>
     length (bankBusyCounter s) = total_banks s \<and> length (oldRequest s) = total_banks s \<and>
     length (tfaw_shift s) = total_ranks s \<and> length (tfaw_count s) = total_ranks s \<and> refresh_bank s < total_banks s"

abbreviation mc_timing :: "mem_config \<Rightarrow> nat list list \<Rightarrow> 'm memory_control \<Rightarrow> bool" where
  "mc_timing C L s \<equiv> mc_wf C s \<and> timing C L (bankBusyCounter s) (busBusyCounter_Basic s) (tfaw_shift s) (tfaw_count s)"

lemma banks_pos: "mem_config_ok C \<Longrightarrow> mc_wf C s \<Longrightarrow> 0 < total_banks s"
  by (simp add: mem_config_ok_def mc_wf_def)

lemma getRank_ok:
  assumes "mem_config_ok C" "mc_wf C s" "bank < total_banks s"
  shows "getRank C bank = Some (bank_rank C bank)" "bank_rank C bank < total_ranks s"
proof -
  have "bank < (ranks_per_dimm C * dimms_per_channel C) * banks_per_rank C" using assms(2,3) by (simp add: mc_wf_def ac_simps)
  then have "bank_rank C bank < ranks_per_dimm C * dimms_per_channel C" by (rule less_mult_imp_div_less)
  then show "getRank C bank = Some (bank_rank C bank)" "bank_rank C bank < total_ranks s"
    using assms(2) by (simp_all add: getRank_def mc_wf_def check_def)
qed

lemma addr_field_bound: "bit0 < 64 \<Longrightarrow> 0 < n \<Longrightarrow> \<exists>v. addr_field a bit0 n = Some v \<and> v < n"
proof -
  assume "bit0 < 64" "0 < n"
  have "unat (drop_bit bit0 a AND (of_nat (n - 1) :: 64 word)) \<le> unat (of_nat (n - 1) :: 64 word)"
    by (simp add: word_and_le1 flip: word_le_nat_alt)
  also have "\<dots> \<le> n - 1" by (simp add: unat_of_nat)
  finally show ?thesis using \<open>bit0 < 64\<close> \<open>0 < n\<close> by (simp add: addr_field_def check_def)
qed

lemma mixed_radix:
  assumes "(d :: nat) < D" "r < R"
  shows "d * R + r < D * R"
proof -
  have "d * R + r < Suc d * R" using assms(2) by simp
  also have "\<dots> \<le> D * R" using assms(1) by (intro mult_le_mono) auto
  finally show ?thesis .
qed

lemma getBank_ok:
  assumes "mem_config_ok C"
  shows "\<exists>b. getBank C a = Some b \<and> b < banks_per_rank C * ranks_per_dimm C * dimms_per_channel C"
proof -
  obtain d r k where f: "addr_field a (dimm_bit_0 C) (dimms_per_channel C) = Some d" "d < dimms_per_channel C"
    "addr_field a (rank_bit_0 C) (ranks_per_dimm C) = Some r" "r < ranks_per_dimm C"
    "addr_field a (bank_bit_0 C) (banks_per_rank C) = Some k" "k < banks_per_rank C"
    using assms addr_field_bound unfolding mem_config_ok_def by metis
  have "d * ranks_per_dimm C + r < dimms_per_channel C * ranks_per_dimm C"
    using f(2,4) by (rule mixed_radix)
  then have "(d * ranks_per_dimm C + r) * banks_per_rank C + k < (dimms_per_channel C * ranks_per_dimm C) * banks_per_rank C"
    using f(6) by (rule mixed_radix)
  with f show ?thesis by (simp add: getBank_def algebra_simps)
qed

text \<open>The step both kinds of activation share: after it the bank is the one activated in this cycle.\<close>

lemma markTfaw_ok:
  assumes "mem_config_ok C" "mc_wf C s" "r < total_ranks s"
  shows "markTfaw r s = Some (s\<lparr>tfaw_shift := mark_shift C r (tfaw_shift s), tfaw_count := mark_count C r (tfaw_count s)\<rparr>)"
  using assms by (auto simp: markTfaw_def mark_shift_def mark_count_def check_def mem_config_ok_def mc_wf_def)

lemma no_act_yet:
  assumes "mem_config_ok C" "timing C (A # H) busy basic shift cnt" "basic \<le> 0"
  shows "A = []"
proof (rule ccontr)
  assume "A \<noteq> []"
  then have "basic_bus_busy_time C - int 0 \<le> basic"
    using assms(2) unfolding timing_def by (metis length_greater_0_conv list.distinct(1) nth_Cons_0)
  then show False using assms(1,3) by (simp add: mem_config_ok_def)
qed

lemma activate_timing:
  assumes cfg: "mem_config_ok C" and T: "mc_timing C (A # H) s" and b: "bank < total_banks s" "bankBusyCounter s ! bank \<le> 0"
    and bus: "busBusyCounter_Basic s \<le> 0" and faw: "tfaw_count s ! bank_rank C bank < 4"
  shows "timing C ([bank] # H) ((bankBusyCounter s)[bank := bank_busy_time C]) (basic_bus_busy_time C)
    (mark_shift C (bank_rank C bank) (tfaw_shift s)) (mark_count C (bank_rank C bank) (tfaw_count s))"
proof -
  have A: "A = []" using no_act_yet [OF cfg conjunct2 [OF T] bus] .
  have len: "bank < length (bankBusyCounter s)" "bank_rank C bank < length (tfaw_shift s)"
    using T b(1) getRank_ok(2) [OF cfg conjunct1 [OF T] b(1)] by (auto simp: mc_wf_def)
  show ?thesis
    using timing_act [OF conjunct2 [OF T [unfolded A]] _ _ _ len b(2) bus faw] cfg by (simp add: mem_config_ok_def)
qed

lemma issueRefresh_timing:
  assumes cfg: "mem_config_ok C" and T: "mc_timing C (A # H) s" and b: "bank < total_banks s"
  shows "\<exists>A' s'. issueRefresh bank s = Some s' \<and> mc_timing C (A' # H) s' \<and> bankQueues s' = bankQueues s \<and>
    response_queue s' = response_queue s \<and> input_queue s' = input_queue s \<and> mc_consumer_ptr s' = mc_consumer_ptr s \<and>
    (A' = A \<or> A = [])"
proof (cases "need_refresh s = 0 \<or> refresh_bank s \<noteq> bank \<or> 0 < bankBusyCounter s ! bank \<or> 0 < busBusyCounter_Basic s
    \<or> 4 \<le> tfaw_count s ! bank_rank C bank")
  case True
  have C: "mc_config s = C" using T by (simp add: mc_wf_def)
  have "issueRefresh bank s = Some s"
    using True getRank_ok(1) [OF cfg conjunct1 [OF T] b] by (auto simp: issueRefresh_def C ACTIVATE_PER_TFAW_def)
  with T show ?thesis by blast
next
  case False
  let ?s = "s\<lparr>need_refresh := need_refresh s - 1,
     refresh_bank := (if total_banks s \<le> refresh_bank s + 1 then 0 else refresh_bank s + 1),
     bankBusyCounter := (bankBusyCounter s)[bank := bank_busy_time C],
     busBusyCounter_Basic := basic_bus_busy_time C,
     busBusyCounter_Write := basic_bus_busy_time C,
     busBusyCounter_ReadNewRank := basic_bus_busy_time C\<rparr>"
  have C: "mc_config s = C" using T by (simp add: mc_wf_def)
  have wf: "mc_wf C ?s" using T cfg by (auto simp: mc_wf_def mem_config_ok_def)
  have r: "getRank C bank = Some (bank_rank C bank)" "bank_rank C bank < total_ranks ?s"
    using getRank_ok [OF cfg conjunct1 [OF T] b] by simp_all
  have "issueRefresh bank s = markTfaw (bank_rank C bank) ?s"
    using False r(1) by (simp add: issueRefresh_def C ACTIVATE_PER_TFAW_def)
  also note markTfaw_ok [OF cfg wf r(2)]
  finally have "issueRefresh bank s = Some (?s\<lparr>tfaw_shift := mark_shift C (bank_rank C bank) (tfaw_shift ?s),
     tfaw_count := mark_count C (bank_rank C bank) (tfaw_count ?s)\<rparr>)"
    (is "_ = Some ?t") .
  moreover have "mc_wf C ?t" using wf by (auto simp: mc_wf_def)
  moreover have "timing C ([bank] # H) (bankBusyCounter ?t) (busBusyCounter_Basic ?t) (tfaw_shift ?t) (tfaw_count ?t)"
    using activate_timing [OF cfg T b] False by simp
  moreover have "A = []" using no_act_yet [OF cfg conjunct2 [OF T]] False by simp
  ultimately show ?thesis by (intro exI [of _ "[bank]"] exI [of _ ?t]) simp
qed

text \<open>What \<^verbatim>\<open>issueRequest\<close> does to the queues: the head of the bank's queue goes to the response queue,
  unless it is an L3 writeback, with the time of its return.\<close>

definition responded :: "time \<Rightarrow> 'm memory_control \<Rightarrow> 'm memory_node \<Rightarrow> 'm memory_node list" where
  "responded now s req = (if mn_msgptr req = None then []
     else [req\<lparr>mn_time := now + (mem_ctl_latency (mc_config s) + memFixedDelay (mc_config s)) * mem_bus_cycle_multiplier (mc_config s)\<rparr>])"

lemma enqueueToDirectory_eq:
  "enqueueToDirectory req lat (q, s) = Some (q', s') \<Longrightarrow>
     s' = s\<lparr>response_queue := response_queue s @ [req\<lparr>mn_time := m_globalTime q + lat * mem_bus_cycle_multiplier (mc_config s)\<rparr>]\<rparr> \<and>
     m_globalTime q' = m_globalTime q"
  by (auto simp: enqueueToDirectory_def Let_def bind_Some_iff scheduleEventAbsolute_def split: option.splits if_splits)

lemma issueRequest_timing:
  assumes cfg: "mem_config_ok C" and T: "mc_timing C (A # H) s" and b: "bank < total_banks s" "bankBusyCounter s ! bank \<le> 0"
    and bus: "busBusyCounter_Basic s \<le> 0" and faw: "tfaw_count s ! bank_rank C bank < 4"
    and run: "issueRequest bank (q, s) = Some (q', s')"
  shows "mc_timing C ([bank] # H) s' \<and> bankQueues s ! bank \<noteq> [] \<and>
    bankQueues s' = (bankQueues s)[bank := tl (bankQueues s ! bank)] \<and>
    response_queue s' = response_queue s @ responded (m_globalTime q) s (hd (bankQueues s ! bank)) \<and>
    input_queue s' = input_queue s \<and> mc_consumer_ptr s' = mc_consumer_ptr s \<and> m_globalTime q' = m_globalTime q"
proof -
  let ?req = "hd (bankQueues s ! bank)" and ?s1 = "s\<lparr>bankQueues := (bankQueues s)[bank := tl (bankQueues s ! bank)]\<rparr>"
  have C: "mc_config s = C" using T by (simp add: mc_wf_def)
  note r = getRank_ok [OF cfg conjunct1 [OF T] b(1)]
  obtain q2 s2 s3 w rr where st: "bankQueues s ! bank \<noteq> []"
      "(if mn_msgptr ?req = None then Some (q, ?s1)
        else enqueueToDirectory ?req (mem_ctl_latency (mc_config s) + memFixedDelay (mc_config s)) (q, ?s1)) = Some (q2, s2)"
      "markTfaw (bank_rank C bank) (s2\<lparr>oldRequest := (oldRequest s2)[bank := False]\<rparr>) = Some s3"
      "q' = q2" "s' = s3\<lparr>bankBusyCounter := (bankBusyCounter s3)[bank := bank_busy_time C], busBusy_WhichRank := bank_rank C bank,
        busBusyCounter_Basic := basic_bus_busy_time C, busBusyCounter_Write := w, busBusyCounter_ReadNewRank := rr\<rparr>"
    using run r(1) by (auto simp: issueRequest_def C Let_def bind_Some_iff)
  have s2: "s2 = ?s1\<lparr>response_queue := response_queue s @ responded (m_globalTime q) s ?req\<rparr>" and q2: "m_globalTime q2 = m_globalTime q"
    using st(2) enqueueToDirectory_eq [of ?req "mem_ctl_latency (mc_config s) + memFixedDelay (mc_config s)" q ?s1 q2 s2]
    by (auto simp: responded_def split: if_splits)
  let ?s2 = "s2\<lparr>oldRequest := (oldRequest s2)[bank := False]\<rparr>"
  have wf: "mc_wf C ?s2" using T by (simp add: s2 mc_wf_def)
  have s3: "s3 = ?s2\<lparr>tfaw_shift := mark_shift C (bank_rank C bank) (tfaw_shift ?s2),
     tfaw_count := mark_count C (bank_rank C bank) (tfaw_count ?s2)\<rparr>"
    using st(3) markTfaw_ok [OF cfg wf, of "bank_rank C bank"] r(2) by (simp add: s2)
  have "mc_wf C s'" using wf by (simp add: st(5) s3 mc_wf_def)
  moreover have "timing C ([bank] # H) (bankBusyCounter s') (busBusyCounter_Basic s') (tfaw_shift s') (tfaw_count s')"
    using activate_timing [OF cfg T b bus faw] by (simp add: st(5) s3 s2)
  ultimately show ?thesis using st(1,4) q2 by (simp add: st(5) s3 s2)
qed

lemma queue_ready_facts:
  assumes cfg: "mem_config_ok C" and "mc_wf C s" "bank < total_banks s" "queue_ready_fixed bank s = Some True"
  shows "busBusyCounter_Basic s \<le> 0 \<and> tfaw_count s ! bank_rank C bank < 4"
  using assms(2,4) cfg getRank_ok(1) [OF assms(1-3)]
  by (auto simp: queue_ready_fixed_def mc_wf_def mem_config_ok_def ACTIVATE_PER_TFAW_def Let_def bind_Some_iff split: if_splits)

lemma queueReady_facts:
  assumes cfg: "mem_config_ok C" and wf: "mc_wf C s" and b: "bank < total_banks s" and run: "queueReady rnd bank s = Some (ready, s')"
  shows "(\<exists>n. s' = s\<lparr>random_calls := n\<rparr>) \<and>
    (ready \<longrightarrow> bankBusyCounter s ! bank \<le> 0 \<and> busBusyCounter_Basic s \<le> 0 \<and> tfaw_count s ! bank_rank C bank < 4)"
proof -
  have C: "mc_config s = C" "memFixedDelay C = 0" using wf cfg by (simp_all add: mc_wf_def mem_config_ok_def)
  have wf': "mc_wf C (s\<lparr>random_calls := n\<rparr>)" for n using wf by (simp add: mc_wf_def)
  have s: "\<exists>n. t = t\<lparr>random_calls := n\<rparr>" for t :: "'a memory_control" by (rule exI [of _ "random_calls t"]) simp
  show ?thesis
    using run queue_ready_facts [OF cfg wf b] queue_ready_facts [OF cfg wf', of bank] b
    by (auto simp: queueReady_def C mc_random_def split: if_splits intro: s)
qed

definition unmoved :: "'m memory_control \<Rightarrow> 'm memory_control \<Rightarrow> bool" where
  "unmoved s s' \<longleftrightarrow> bankQueues s' = bankQueues s \<and> response_queue s' = response_queue s"

definition issued :: "time \<Rightarrow> nat \<Rightarrow> 'm memory_control \<Rightarrow> 'm memory_control \<Rightarrow> bool" where
  "issued now bank s s' \<longleftrightarrow> bank < length (bankQueues s) \<and> bankQueues s ! bank \<noteq> [] \<and>
     bankQueues s' = (bankQueues s)[bank := tl (bankQueues s ! bank)] \<and>
     response_queue s' = response_queue s @ responded now s (hd (bankQueues s ! bank))"

lemma scan_bank_timing:
  assumes cfg: "mem_config_ok C" and T: "mc_timing C (A # H) s" and run: "scan_bank rnd (q, s) = Some (q', s')"
  shows "\<exists>A'. mc_timing C (A' # H) s' \<and> input_queue s' = input_queue s \<and> mc_consumer_ptr s' = mc_consumer_ptr s \<and>
    m_globalTime q' = m_globalTime q \<and>
    ((A' = A \<or> A = []) \<and> unmoved s s' \<or> A = [] \<and> (\<exists>bank. A' = [bank] \<and> issued (m_globalTime q) bank s s'))"
proof -
  define bank where "bank = next_bank s"
  note run' = run [unfolded scan_bank_def prod.case Let_def, folded bank_def]
  have b: "bank < total_banks s" using banks_pos [OF cfg conjunct1 [OF T]] by (simp add: bank_def next_bank_def)
  have T0: "mc_timing C (A # H) (s\<lparr>roundRobin := bank\<rparr>)" using T by (simp add: mc_wf_def)
  obtain A1 s1 where r: "issueRefresh bank (s\<lparr>roundRobin := bank\<rparr>) = Some s1" "mc_timing C (A1 # H) s1"
      "bankQueues s1 = bankQueues s" "response_queue s1 = response_queue s" "input_queue s1 = input_queue s"
      "mc_consumer_ptr s1 = mc_consumer_ptr s" "A1 = A \<or> A = []"
    using issueRefresh_timing [OF cfg T0, of bank] b by auto
  have total: "total_banks s1 = total_banks s" "mc_config s1 = mc_config s" "length (bankQueues s) = total_banks s"
    using r(2) T by (simp_all add: mc_wf_def)
  show ?thesis
  proof (cases "bankQueues s1 ! bank = []")
    case True
    then have "q' = q" "s' = s1" using run' r(1) by simp_all
    with r show ?thesis by (intro exI [of _ A1]) (auto simp: unmoved_def)
  next
    case False
    obtain ready s2 where s2: "queueReady rnd bank (s1\<lparr>idleCount := IDLECOUNT_MAX_VALUE\<rparr>) = Some (ready, s2)"
        "(if ready then issueRequest bank (q, s2) else Some (q, s2)) = Some (q', s')"
      using run' r(1) False by (auto simp: bind_Some_iff)
    have wf: "mc_wf C (s1\<lparr>idleCount := IDLECOUNT_MAX_VALUE\<rparr>)" "bank < total_banks (s1\<lparr>idleCount := IDLECOUNT_MAX_VALUE\<rparr>)"
      using r(2) b total by (simp_all add: mc_wf_def)
    from queueReady_facts [OF cfg wf s2(1)] obtain n where n: "s2 = s1\<lparr>idleCount := IDLECOUNT_MAX_VALUE, random_calls := n\<rparr>"
        "ready \<longrightarrow> bankBusyCounter s1 ! bank \<le> 0 \<and> busBusyCounter_Basic s1 \<le> 0 \<and> tfaw_count s1 ! bank_rank C bank < 4"
      by auto
    have T2: "mc_timing C (A1 # H) s2" using r(2) by (simp add: n(1) mc_wf_def)
    show ?thesis
    proof (cases ready)
      case True
      then have i: "issueRequest bank (q, s2) = Some (q', s')" using s2(2) by simp
      have "A1 = []" using no_act_yet [OF cfg conjunct2 [OF r(2)]] n(2) True by simp
      moreover have "responded t s2 req = responded t s req" for t req by (simp add: responded_def n(1) total)
      ultimately show ?thesis
        using issueRequest_timing [OF cfg T2 _ _ _ _ i] n True b total r(3-7)
        by (intro exI [of _ "[bank]"]) (auto simp: issued_def)
    next
      case False
      then have "q' = q" "s' = s2" using s2(2) by simp_all
      with T2 r(3-7) show ?thesis by (intro exI [of _ A1]) (auto simp: n(1) unmoved_def)
    qed
  qed
qed

lemma issued_unmoved: "issued t b s s' \<Longrightarrow> unmoved s' s'' \<Longrightarrow> issued t b s s''"
  by (simp add: issued_def unmoved_def)

lemma unmoved_issued: "mc_config s' = mc_config s \<Longrightarrow> unmoved s s' \<Longrightarrow> issued t b s' s'' \<Longrightarrow> issued t b s s''"
  by (simp add: issued_def unmoved_def responded_def)

lemma scan_timing:
  assumes cfg: "mem_config_ok C" and "mc_timing C (A # H) s" "fold_opt (\<lambda>_. scan_bank rnd) xs (q, s) = Some (q', s')"
  shows "\<exists>A'. mc_timing C (A' # H) s' \<and> input_queue s' = input_queue s \<and> mc_consumer_ptr s' = mc_consumer_ptr s \<and>
    m_globalTime q' = m_globalTime q \<and>
    ((A' = A \<or> A = []) \<and> unmoved s s' \<or> A = [] \<and> (\<exists>bank. A' = [bank] \<and> issued (m_globalTime q) bank s s'))"
  using assms(2,3)
proof (induction xs arbitrary: A q s)
  case Nil
  then show ?case by (auto simp: unmoved_def)
next
  case (Cons x xs)
  then obtain q1 s1 where s1: "scan_bank rnd (q, s) = Some (q1, s1)" "fold_opt (\<lambda>_. scan_bank rnd) xs (q1, s1) = Some (q', s')"
    by (auto simp: bind_Some_iff)
  from scan_bank_timing [OF cfg Cons.prems(1) s1(1)] obtain A1 where A1: "mc_timing C (A1 # H) s1" "input_queue s1 = input_queue s"
      "mc_consumer_ptr s1 = mc_consumer_ptr s" "m_globalTime q1 = m_globalTime q"
      "(A1 = A \<or> A = []) \<and> unmoved s s1 \<or> A = [] \<and> (\<exists>bank. A1 = [bank] \<and> issued (m_globalTime q) bank s s1)" by auto
  from Cons.IH [OF A1(1) s1(2)] obtain A2 where A2: "mc_timing C (A2 # H) s'" "input_queue s' = input_queue s1"
      "mc_consumer_ptr s' = mc_consumer_ptr s1" "m_globalTime q' = m_globalTime q1"
      "(A2 = A1 \<or> A1 = []) \<and> unmoved s1 s' \<or> A1 = [] \<and> (\<exists>bank. A2 = [bank] \<and> issued (m_globalTime q1) bank s1 s')" by auto
  have c: "mc_config s1 = mc_config s" using Cons.prems(1) A1(1) by (simp add: mc_wf_def)
  have "(A2 = A \<or> A = []) \<and> unmoved s s' \<or> A = [] \<and> (\<exists>bank. A2 = [bank] \<and> issued (m_globalTime q) bank s s')"
  proof (rule disjE [OF A1(5)])
    assume A: "(A1 = A \<or> A = []) \<and> unmoved s s1"
    show ?thesis
    proof (rule disjE [OF A2(5)])
      assume B: "(A2 = A1 \<or> A1 = []) \<and> unmoved s1 s'"
      then have "unmoved s s'" using A by (simp add: unmoved_def)
      with A B show ?thesis by blast
    next
      assume B: "A1 = [] \<and> (\<exists>bank. A2 = [bank] \<and> issued (m_globalTime q1) bank s1 s')"
      then obtain bank where "A2 = [bank]" "issued (m_globalTime q) bank s s'"
        using unmoved_issued [OF c conjunct2 [OF A]] A1(4) by auto
      with A B show ?thesis by blast
    qed
  next
    assume A: "A = [] \<and> (\<exists>bank. A1 = [bank] \<and> issued (m_globalTime q) bank s s1)"
    then have "A2 = A1" "unmoved s1 s'" using A2(5) by auto
    with A issued_unmoved show ?thesis by blast
  qed
  with A1(2-4) A2(1-4) show ?case by auto
qed

subsection \<open>One cycle\<close>

text \<open>The effect of a cycle on the requests: at most one leaves its bank queue for the response queue,
  then at most one moves from the input queue to the end of its bank's queue.\<close>

definition accepted :: "'m memory_control \<Rightarrow> 'm memory_control \<Rightarrow> bool" where
  "accepted s s' \<longleftrightarrow> response_queue s' = response_queue s \<and>
     (input_queue s' = input_queue s \<and> bankQueues s' = bankQueues s \<or>
      (\<exists>req bank. input_queue s = req # input_queue s' \<and> getBank (mc_config s) (mn_addr req) = Some bank \<and>
         bankQueues s' = (bankQueues s)[bank := bankQueues s ! bank @ [req]]))"

lemma cycle_input_ok:
  assumes cfg: "mem_config_ok C" and T: "mc_timing C L s"
  shows "\<exists>s'. cycle_input s = Some s' \<and> mc_timing C L s' \<and> accepted s s' \<and> mc_consumer_ptr s' = mc_consumer_ptr s"
proof (cases "input_queue s")
  case Nil
  with T show ?thesis by (simp add: cycle_input_def accepted_def)
next
  case (Cons req rest)
  have C: "mc_config s = C" using T by (simp add: mc_wf_def)
  obtain bank where "getBank C (mn_addr req) = Some bank" using getBank_ok [OF cfg] by blast
  with Cons T show ?thesis by (auto simp: cycle_input_def accepted_def C mc_wf_def Let_def)
qed

lemma cycle_counters_timing:
  assumes "mem_config_ok C" "mc_timing C L s"
  shows "mc_timing C ([] # L) (cycle_counters s)"
proof -
  have "timing C ([] # L) (bankBusyCounter (cycle_counters s)) (busBusyCounter_Basic (cycle_counters s))
      (tfaw_shift (cycle_counters s)) (tfaw_count (cycle_counters s))"
    using timing_tick [of C L "bankBusyCounter s"] assms by (simp add: cycle_counters_def mem_config_ok_def)
  then show ?thesis using assms(2) by (auto simp: cycle_counters_def mc_wf_def)
qed

lemma cycle_refresh_timing:
  "cycle_refresh s = Some s' \<Longrightarrow> mc_timing C L s \<Longrightarrow> mc_timing C L s' \<and> unmoved s s' \<and> input_queue s' = input_queue s \<and>
     mc_consumer_ptr s' = mc_consumer_ptr s"
  by (auto simp: cycle_refresh_def Let_def bind_Some_iff mc_wf_def unmoved_def split: if_splits)

lemma cycle_batch_timing:
  "mc_timing C L s \<Longrightarrow> mc_timing C L (cycle_random rnd (cycle_batch s)) \<and> unmoved s (cycle_random rnd (cycle_batch s)) \<and>
     input_queue (cycle_random rnd (cycle_batch s)) = input_queue s \<and>
     mc_consumer_ptr (cycle_random rnd (cycle_batch s)) = mc_consumer_ptr s"
  by (auto simp: cycle_batch_def cycle_random_def mc_random_def mc_wf_def unmoved_def)

lemma executeCycle_timing:
  assumes cfg: "mem_config_ok C" and T: "mc_timing C L s" and run: "executeCycle rnd (q, s) = Some (q', s')"
  shows "\<exists>A s1. mc_timing C (A # L) s' \<and> m_globalTime q' = m_globalTime q \<and> mc_consumer_ptr s' = mc_consumer_ptr s \<and>
    input_queue s1 = input_queue s \<and> mc_config s1 = mc_config s \<and>
    (unmoved s s1 \<or> (\<exists>bank. A = [bank] \<and> issued (m_globalTime q) bank s s1)) \<and> accepted s1 s'"
proof -
  obtain s1 s2 s3 where st: "cycle_refresh (cycle_counters s) = Some s1" "s2 = cycle_random rnd (cycle_batch s1)"
      "fold_opt (\<lambda>_. scan_bank rnd) [0..<total_banks s2] (q, s2) = Some (q', s3)" "cycle_input s3 = Some s'"
    using run by (auto simp: executeCycle_def Let_def bind_Some_iff)
  have 0: "unmoved s (cycle_counters s)" "input_queue (cycle_counters s) = input_queue s"
      "mc_consumer_ptr (cycle_counters s) = mc_consumer_ptr s" by (simp_all add: cycle_counters_def unmoved_def)
  note 1 = cycle_refresh_timing [OF st(1) cycle_counters_timing [OF cfg T]]
  have 2: "mc_timing C ([] # L) s2" "unmoved s1 s2" "input_queue s2 = input_queue s1" "mc_consumer_ptr s2 = mc_consumer_ptr s1"
    using cycle_batch_timing [OF conjunct1 [OF 1]] by (simp_all add: st(2))
  obtain A where A: "mc_timing C (A # L) s3" "input_queue s3 = input_queue s2" "mc_consumer_ptr s3 = mc_consumer_ptr s2"
      "m_globalTime q' = m_globalTime q" "unmoved s2 s3 \<or> (\<exists>bank. A = [bank] \<and> issued (m_globalTime q) bank s2 s3)"
    using scan_timing [OF cfg 2(1) st(3)] by auto
  have 4: "mc_timing C (A # L) s'" "accepted s3 s'" "mc_consumer_ptr s' = mc_consumer_ptr s3"
    using cycle_input_ok [OF cfg A(1)] st(4) by auto
  have c: "mc_config s2 = mc_config s" "mc_config s3 = mc_config s" using T 2(1) A(1) by (simp_all add: mc_wf_def)
  have u: "unmoved s s2" using 0(1) 1 2(2) by (simp add: unmoved_def)
  then have "unmoved s s3 \<or> (\<exists>bank. A = [bank] \<and> issued (m_globalTime q) bank s s3)"
    using A(5) unmoved_issued [OF c(1) u] by (auto simp: unmoved_def)
  with A 4 0 1 2 c show ?thesis by (intro exI [of _ A] exI [of _ s3]) simp
qed

end
