(* ===== verification/Memory_Runs.thy ===== *)
theory Memory_Runs
  imports Memory_Control
begin

text \<open>
  Runs of the memory controller: any sequence of requests, wakeups and dequeued responses, with the
  history of activations (the latest cycle first), the requests in the order of their arrival and the
  responses in the order in which they were taken. The timing contract of the DRAM and the order of
  requests within a bank are invariants of all runs.
\<close>

text \<open>The banks activated in the last cycle: those whose busy counter is full.\<close>

definition acts :: "'m memory_control \<Rightarrow> nat list" where
  "acts s = filter (\<lambda>b. bankBusyCounter s ! b = bank_busy_time (mc_config s)) [0..<length (bankBusyCounter s)]"

inductive mc_run ::
  "(nat \<Rightarrow> nat) \<Rightarrow> mem_config \<Rightarrow> nat list list \<Rightarrow> 'm memory_node list \<Rightarrow> 'm memory_node list \<Rightarrow> 'm memory_control \<Rightarrow> bool"
  for rnd C where
  start: "memory_control_new this C = Some s \<Longrightarrow> mc_run rnd C [] [] [] s"
| consumer: "mc_run rnd C L ins outs s \<Longrightarrow> mc_run rnd C L ins outs (setConsumer c s)"
| enqueue: "mc_run rnd C L ins outs s \<Longrightarrow> enqueueMemRef n (q, s) = Some (q', s') \<Longrightarrow>
    mc_run rnd C L (ins @ [last (input_queue s')]) outs s'"
| dequeue: "mc_run rnd C L ins outs s \<Longrightarrow> mc_dequeue now s = Some s' \<Longrightarrow>
    mc_run rnd C L ins (outs @ [hd (response_queue s)]) s'"
| wakeup: "mc_run rnd C L ins outs s \<Longrightarrow> mc_wakeup rnd (q, s) = Some (q', s') \<Longrightarrow> mc_run rnd C (acts s' # L) ins outs s'"

abbreviation at_bank :: "mem_config \<Rightarrow> nat \<Rightarrow> 'm memory_node \<Rightarrow> bool" where
  "at_bank C b n \<equiv> getBank C (mn_addr n) = Some b"

definition untimed :: "'m memory_node \<Rightarrow> 'm memory_node" where
  "untimed n = n\<lparr>mn_time := 0\<rparr>"

text \<open>Every bank serves its requests in the order of arrival: the first \<open>k\<close> have been issued and all but
  the writebacks among them answered, in this order; the others wait, in this order.\<close>

definition bank_fifo ::
  "mem_config \<Rightarrow> nat \<Rightarrow> 'm memory_node list \<Rightarrow> 'm memory_node list \<Rightarrow> 'm memory_control \<Rightarrow> bool" where
  "bank_fifo C b ins resps s \<longleftrightarrow> (\<exists>k \<le> length (filter (at_bank C b) ins).
     drop k (filter (at_bank C b) ins) = bankQueues s ! b @ filter (at_bank C b) (input_queue s) \<and>
     map untimed (filter (at_bank C b) resps) =
       map untimed (filter (\<lambda>n. mn_msgptr n \<noteq> None) (take k (filter (at_bank C b) ins))))"

definition run_inv :: "mem_config \<Rightarrow> nat list list \<Rightarrow> 'm memory_node list \<Rightarrow> 'm memory_node list \<Rightarrow> 'm memory_control \<Rightarrow> bool" where
  "run_inv C L ins outs s \<longleftrightarrow> mc_timing C L s \<and>
     (\<forall>b < total_banks s. (\<forall>n \<in> set (bankQueues s ! b). at_bank C b n) \<and> bank_fifo C b ins (outs @ response_queue s) s)"

lemma acts_hd:
  assumes "timing C (A # L) (bankBusyCounter s) basic shift cnt" "mc_config s = C"
  shows "acts s = A"
proof -
  have A: "\<forall>b < length (bankBusyCounter s). bankBusyCounter s ! b = bank_busy_time C \<longleftrightarrow> b \<in> set A" "length A \<le> 1"
    "\<forall>b \<in> set A. b < length (bankBusyCounter s)"
    using assms(1) unfolding timing_def timing_ok_def by force+
  then have "acts s = filter (\<lambda>b. b \<in> set A) [0..<length (bankBusyCounter s)]"
    unfolding acts_def assms(2) by (intro filter_cong) auto
  also have "\<dots> = A"
  proof (cases A)
    case (Cons b B)
    then have "A = [b]" "b < length (bankBusyCounter s)" using A(2,3) by auto
    moreover have "filter (\<lambda>x. x = b) [0..<n] = (if b < n then [b] else [])" for n by (induction n) auto
    ultimately show ?thesis by simp
  qed simp
  finally show ?thesis .
qed

lemma bank_fifo_issue:
  assumes F: "bank_fifo C b ins resps s" and own: "\<forall>n \<in> set (bankQueues s ! bank). at_bank C bank n"
    and "issued t bank s s'" "input_queue s' = input_queue s" "b < length (bankQueues s)" "mc_config s = C"
  shows "bank_fifo C b ins (resps @ responded t s (hd (bankQueues s ! bank))) s'"
proof -
  let ?req = "hd (bankQueues s ! bank)" and ?f = "filter (at_bank C b)"
  have i: "bankQueues s ! bank = ?req # tl (bankQueues s ! bank)" "bankQueues s' = (bankQueues s)[bank := tl (bankQueues s ! bank)]"
    using assms(3) by (auto simp: issued_def)
  then have at: "at_bank C bank ?req" using own by (metis list.set_intros(1))
  obtain k where k0: "k \<le> length (?f ins)" and k: "drop k (?f ins) = bankQueues s ! b @ ?f (input_queue s)"
    "map untimed (?f resps) = map untimed (filter (\<lambda>n. mn_msgptr n \<noteq> None) (take k (?f ins)))"
    using F by (auto simp: bank_fifo_def)
  show ?thesis
  proof (cases "b = bank")
    case False
    then have "?f (responded t s ?req) = []" using at by (simp add: responded_def)
    then show ?thesis using k0 k False assms(4) by (auto simp: bank_fifo_def i(2))
  next
    case True
    have d: "drop k (?f ins) = ?req # (tl (bankQueues s ! b) @ ?f (input_queue s))"
      using k(1) i(1) True by (metis append_Cons)
    then have len: "k < length (?f ins)" by (metis drop_all leI list.distinct(1))
    then have "drop (Suc k) (?f ins) = tl (bankQueues s ! b) @ ?f (input_queue s)" "?f ins ! k = ?req"
      using d by (metis Cons_nth_drop_Suc list.inject)+
    moreover have "map untimed (?f (responded t s ?req)) = map untimed (filter (\<lambda>n. mn_msgptr n \<noteq> None) [?req])"
      using at True by (auto simp: responded_def untimed_def)
    ultimately show ?thesis
      using k(2) len True assms(4,5)
      by (intro exI [of _ "Suc k"] iffD2 [OF bank_fifo_def]) (simp add: i(2) take_Suc_conv_app_nth)
  qed
qed

lemma bank_fifo_accept:
  assumes "bank_fifo C b ins resps s" "accepted s s'" "mc_config s = C" "b < length (bankQueues s)"
    and "\<forall>b < length (bankQueues s). \<forall>n \<in> set (bankQueues s ! b). at_bank C b n"
  shows "bank_fifo C b ins resps s' \<and> (\<forall>n \<in> set (bankQueues s' ! b). at_bank C b n)"
proof -
  have "bankQueues s' ! b @ filter (at_bank C b) (input_queue s') = bankQueues s ! b @ filter (at_bank C b) (input_queue s) \<and>
      (\<forall>n \<in> set (bankQueues s' ! b). at_bank C b n)"
    using assms(2-5) unfolding accepted_def
    by (elim conjE disjE exE) (auto simp: nth_list_update)
  then show ?thesis using assms(1) by (auto simp: bank_fifo_def)
qed

lemma bank_fifo_arrive:
  assumes "bank_fifo C b ins resps s" "bankQueues s' = bankQueues s" "input_queue s' = input_queue s @ [m]"
  shows "bank_fifo C b (ins @ [m]) resps s'"
proof -
  obtain k where "k \<le> length (filter (at_bank C b) ins)"
      "drop k (filter (at_bank C b) ins) = bankQueues s ! b @ filter (at_bank C b) (input_queue s)"
      "map untimed (filter (at_bank C b) resps) =
       map untimed (filter (\<lambda>n. mn_msgptr n \<noteq> None) (take k (filter (at_bank C b) ins)))"
    using assms(1) by (auto simp: bank_fifo_def)
  then show ?thesis unfolding bank_fifo_def assms(2,3) by (intro exI [of _ k]) auto
qed

lemma run_inv_cycle:
  assumes cfg: "mem_config_ok C" and I: "run_inv C L ins outs s" and run: "executeCycle rnd (q, s) = Some (q', s')"
  shows "run_inv C (acts s' # L) ins outs s'"
proof -
  have T: "mc_timing C L s" and own: "\<forall>b < total_banks s. \<forall>n \<in> set (bankQueues s ! b). at_bank C b n"
    and F: "\<forall>b < total_banks s. bank_fifo C b ins (outs @ response_queue s) s"
    using I by (auto simp: run_inv_def)
  obtain A s1 where A: "mc_timing C (A # L) s'" "input_queue s1 = input_queue s" "mc_config s1 = mc_config s"
      "unmoved s s1 \<or> (\<exists>bank. A = [bank] \<and> issued (m_globalTime q) bank s s1)" "accepted s1 s'"
    using executeCycle_timing [OF cfg T run] by blast
  have C: "mc_config s = C" "length (bankQueues s) = total_banks s" "total_banks s' = total_banks s"
    using T A(1) by (simp_all add: mc_wf_def)
  have S1: "length (bankQueues s1) = total_banks s \<and> (\<forall>b < total_banks s. bank_fifo C b ins (outs @ response_queue s1) s1 \<and>
      (\<forall>n \<in> set (bankQueues s1 ! b). at_bank C b n))"
    using A(4)
  proof
    assume "unmoved s s1"
    then show ?thesis using F own A(2) C by (simp add: unmoved_def bank_fifo_def)
  next
    assume "\<exists>bank. A = [bank] \<and> issued (m_globalTime q) bank s s1"
    then obtain bank where b: "issued (m_globalTime q) bank s s1" "bank < total_banks s" using C by (auto simp: issued_def)
    then have r: "response_queue s1 = response_queue s @ responded (m_globalTime q) s (hd (bankQueues s ! bank))"
      "bankQueues s1 = (bankQueues s)[bank := tl (bankQueues s ! bank)]" by (simp_all add: issued_def)
    have "bank_fifo C b ins ((outs @ response_queue s) @ responded (m_globalTime q) s (hd (bankQueues s ! bank))) s1"
      if "b < total_banks s" for b
      using bank_fifo_issue [of C b ins "outs @ response_queue s" s bank "m_globalTime q" s1] F own b A(2) C that by simp
    moreover have "\<forall>n \<in> set (bankQueues s1 ! b). at_bank C b n" if "b < total_banks s" for b
    proof (cases "b = bank")
      case True
      then show ?thesis using own b C r(2) by (cases "bankQueues s ! bank") auto
    qed (use own that r(2) in simp)
    ultimately show ?thesis using C r by simp
  qed
  have "bank_fifo C b ins (outs @ response_queue s') s' \<and> (\<forall>n \<in> set (bankQueues s' ! b). at_bank C b n)" if "b < total_banks s" for b
    using bank_fifo_accept [of C b ins "outs @ response_queue s1" s1 s'] S1 A(3,5) C that by (simp add: accepted_def)
  moreover have "acts s' = A" using acts_hd [OF conjunct2 [OF A(1)]] A(1) by (simp add: mc_wf_def)
  ultimately show ?thesis using A(1) C by (simp add: run_inv_def)
qed

lemma run_inv_cong:
  assumes "run_inv C L ins outs s" "mc_wf C s'" "bankBusyCounter s' = bankBusyCounter s" "busBusyCounter_Basic s' = busBusyCounter_Basic s"
    "tfaw_shift s' = tfaw_shift s" "tfaw_count s' = tfaw_count s" "bankQueues s' = bankQueues s" "input_queue s' = input_queue s"
    "response_queue s' = response_queue s"
  shows "run_inv C L ins outs s'"
proof -
  have "total_banks s' = total_banks s" using assms(1,2) by (auto simp: run_inv_def mc_wf_def)
  then show ?thesis using assms(1,2) unfolding run_inv_def bank_fifo_def assms(3-9) by simp
qed

lemma new_timing:
  assumes "mem_config_ok C" "memory_control_new this C = Some s"
  shows "run_inv C [] [] [] s"
proof -
  have "timing C [] (replicate n 0) 0 (replicate m 0) (replicate m 0)" for n m
    using assms(1) by (simp add: timing_def timing_ok_def mem_config_ok_def)
  then show ?thesis using assms
    by (auto simp: run_inv_def memory_control_new_def check_def Let_def mc_wf_def mem_config_ok_def bank_fifo_def split: if_splits)
qed

lemma mc_run_inv:
  assumes "mc_run rnd C L ins outs s" "mem_config_ok C"
  shows "run_inv C L ins outs s"
  using assms
proof (induction rule: mc_run.induct)
  case (start this s)
  then show ?case by (intro new_timing)
next
  case (consumer L ins outs s c)
  then have "run_inv C L ins outs s" by blast
  then show ?case by (rule run_inv_cong) (use \<open>run_inv C L ins outs s\<close> in \<open>simp_all add: setConsumer_def run_inv_def mc_wf_def\<close>)
next
  case (enqueue L ins outs s n q q' s')
  then have I: "run_inv C L ins outs s" by blast
  obtain m where s': "input_queue s' = input_queue s @ [m]" "mc_wf C s'" "bankBusyCounter s' = bankBusyCounter s"
      "busBusyCounter_Basic s' = busBusyCounter_Basic s" "tfaw_shift s' = tfaw_shift s" "tfaw_count s' = tfaw_count s"
      "bankQueues s' = bankQueues s" "response_queue s' = response_queue s" "total_banks s' = total_banks s"
    using enqueue.hyps I by (auto simp: enqueueMemRef_def Let_def bind_Some_iff run_inv_def mc_wf_def split: if_splits)
  have "bank_fifo C b (ins @ [m]) (outs @ response_queue s) s'" if "b < total_banks s" for b
    using I that bank_fifo_arrive [of C b ins "outs @ response_queue s" s s' m] s' by (simp add: run_inv_def)
  then show ?case using I s' by (simp add: run_inv_def)
next
  case (dequeue L ins outs s now s')
  then have I: "run_inv C L ins outs s" by blast
  have "response_queue s = hd (response_queue s) # response_queue s'" "s' = s\<lparr>response_queue := tl (response_queue s)\<rparr>"
    using dequeue.hyps by (auto simp: mc_dequeue_def mc_isReady_def bind_Some_iff)
  then show ?case using I by (auto simp: run_inv_def bank_fifo_def mc_wf_def)
next
  case (wakeup L ins outs s q q' s')
  then have I: "run_inv C L ins outs s" by blast
  obtain q1 s1 n where "executeCycle rnd (q, s) = Some (q1, s1)"
      "s' = s1\<lparr>idleCount := n\<rparr> \<or> s' = s1\<lparr>idleCount := n, mc_awakened := False\<rparr>"
    using wakeup.hyps by (auto simp: mc_wakeup_def Let_def bind_Some_iff split: if_splits)
  note st = this
  have "acts s' = acts s1" using st(2) by (auto simp: acts_def)
  moreover have "run_inv C (acts s1 # L) ins outs s1" by (rule run_inv_cycle [OF wakeup.prems I st(1)])
  moreover have "mc_wf C s'" using calculation(2) st(2) by (auto simp: run_inv_def mc_wf_def)
  ultimately show ?case using run_inv_cong [of C "acts s1 # L" ins outs s1 s'] st(2) by auto
qed


subsection \<open>The contract with the memory\<close>


definition ddr_example :: mem_config where
  "ddr_example = \<lparr>mem_bus_cycle_multiplier = 10, banks_per_rank = 2, ranks_per_dimm = 1, dimms_per_channel = 1,
     bank_bit_0 = 6, rank_bit_0 = 7, dimm_bit_0 = 7, bank_queue_size = 2, bank_busy_time = 5, rank_rank_delay = 1,
     read_write_delay = 2, basic_bus_busy_time = 2, mem_ctl_latency = 3, refresh_period = 100, memRandomArbitrate = 0,
     tFaw = 4, memFixedDelay = 0\<rparr>"

definition ddr_start :: "nat memory_control" where
  "ddr_start = setConsumer 1 (the (memory_control_new 0 ddr_example))"

definition ddr_request :: "nat memory_control" where
  "ddr_request = snd (the (enqueueMemRef (memory_node_new 0 (Some 9) 64 True False) (event_queue_init, ddr_start)))"

definition ddr_accepted :: "nat memory_control" where
  "ddr_accepted = snd (the (mc_wakeup (\<lambda>_. 0) (event_queue_init, ddr_request)))"

definition ddr_waiting :: "nat memory_control" where
  "ddr_waiting = snd (the (mc_wakeup (\<lambda>_. 0) (event_queue_init, ddr_accepted)))"

definition ddr_issued :: "nat memory_control" where
  "ddr_issued = snd (the (mc_wakeup (\<lambda>_. 0) (event_queue_init, ddr_waiting)))"

lemma the_step: "\<not> Option.is_none x \<Longrightarrow> y = snd (the x) \<Longrightarrow> x = Some (fst (the x), y)"
  by (cases x) auto

lemma ddr_run: "mc_run (\<lambda>_. 0) ddr_example [acts ddr_issued, acts ddr_waiting, acts ddr_accepted] [last (input_queue ddr_request)] [] ddr_issued"
proof -
  have "memory_control_new 0 ddr_example = Some (the (memory_control_new 0 ddr_example) :: nat memory_control)" by code_simp
  then have "mc_run (\<lambda>_. 0) ddr_example [] [] [] ddr_start"
    unfolding ddr_start_def by (intro mc_run.consumer mc_run.start)
  moreover have "enqueueMemRef (memory_node_new 0 (Some 9) 64 True False) (event_queue_init, ddr_start) = Some (fst (the
      (enqueueMemRef (memory_node_new 0 (Some 9) 64 True False) (event_queue_init, ddr_start))), ddr_request)"
    by (rule the_step [OF _ ddr_request_def]) code_simp
  ultimately have "mc_run (\<lambda>_. 0) ddr_example [] [last (input_queue ddr_request)] [] ddr_request"
    using mc_run.enqueue by fastforce
  moreover have "mc_wakeup (\<lambda>_. 0) (event_queue_init, ddr_request) =
      Some (fst (the (mc_wakeup (\<lambda>_. 0) (event_queue_init, ddr_request))), ddr_accepted)"
    by (rule the_step [OF _ ddr_accepted_def]) code_simp
  ultimately have "mc_run (\<lambda>_. 0) ddr_example [acts ddr_accepted] [last (input_queue ddr_request)] [] ddr_accepted"
    by (rule mc_run.wakeup)
  moreover have "mc_wakeup (\<lambda>_. 0) (event_queue_init, ddr_accepted) =
      Some (fst (the (mc_wakeup (\<lambda>_. 0) (event_queue_init, ddr_accepted))), ddr_waiting)"
    by (rule the_step [OF _ ddr_waiting_def]) code_simp
  ultimately have "mc_run (\<lambda>_. 0) ddr_example [acts ddr_waiting, acts ddr_accepted] [last (input_queue ddr_request)] [] ddr_waiting"
    by (rule mc_run.wakeup)
  moreover have "mc_wakeup (\<lambda>_. 0) (event_queue_init, ddr_waiting) =
      Some (fst (the (mc_wakeup (\<lambda>_. 0) (event_queue_init, ddr_waiting))), ddr_issued)"
    by (rule the_step [OF _ ddr_issued_def]) code_simp
  ultimately show ?thesis by (rule mc_run.wakeup)
qed

lemma ddr_facts: "mem_config_ok ddr_example" "acts ddr_issued = [1]" "acts ddr_waiting = []" "acts ddr_accepted = [0]"
  by code_simp+




subsection \<open>The controller never stops\<close>

lemma issueRequest_total:
  assumes cfg: "mem_config_ok C" and wf: "mc_wf C s" and b: "bank < total_banks s" "bankQueues s ! bank \<noteq> []"
    and q: "eq_inv q" and c: "mc_consumer_ptr s = Some c" and lat: "0 < mem_ctl_latency C * mem_bus_cycle_multiplier C"
  shows "\<exists>q' s'. issueRequest bank (q, s) = Some (q', s') \<and> eq_inv q'"
proof -
  let ?req = "hd (bankQueues s ! bank)" and ?s1 = "s\<lparr>bankQueues := (bankQueues s)[bank := tl (bankQueues s ! bank)]\<rparr>"
  have C: "mc_config s = C" "memFixedDelay C = 0" using wf cfg by (simp_all add: mc_wf_def mem_config_ok_def)
  note r = getRank_ok [OF cfg wf b(1)]
  obtain q2 s2 where s2: "(if mn_msgptr ?req = None then Some (q, ?s1)
        else enqueueToDirectory ?req (mem_ctl_latency C + memFixedDelay C) (q, ?s1)) = Some (q2, s2)" "eq_inv q2"
      "mc_wf C s2" "total_ranks s2 = total_ranks s"
  proof (cases "mn_msgptr ?req = None")
    case True
    then show thesis using that [of q ?s1] q wf by (simp add: mc_wf_def)
  next
    case False
    obtain q2 where "scheduleEventAbsolute (Some c) (m_globalTime q + mem_ctl_latency C * mem_bus_cycle_multiplier C) q = Some q2"
        "eq_inv q2"
      using scheduleEventAbsolute_ok [OF q, of "m_globalTime q + mem_ctl_latency C * mem_bus_cycle_multiplier C" c] lat by auto
    then show thesis using that wf False c C by (simp add: enqueueToDirectory_def mc_wf_def Let_def)
  qed
  have "mc_wf C (s2\<lparr>oldRequest := (oldRequest s2)[bank := False]\<rparr>)" using s2(3) by (simp add: mc_wf_def)
  note m = markTfaw_ok [OF cfg this, of "bank_rank C bank"]
  show ?thesis
    unfolding issueRequest_def prod.case Let_def C(1) r(1) Option.bind.bind_lunit s2(1)
    using m s2(2,4) r(2) b(2) by (simp add: check_def)
qed

lemma queueReady_total:
  assumes "\<And>n. queue_ready_fixed bank (s\<lparr>random_calls := n\<rparr>) \<noteq> None"
  shows "\<exists>ready n. queueReady rnd bank s = Some (ready, s\<lparr>random_calls := n\<rparr>)"
proof -
  obtain r1 r2 where r: "queue_ready_fixed bank s = Some r1" "queue_ready_fixed bank (s\<lparr>random_calls := random_calls s + 1\<rparr>) = Some r2"
    using assms [of "random_calls s"] assms [of "random_calls s + 1"] by auto
  have s: "s = s\<lparr>random_calls := random_calls s\<rparr>" by simp
  have "(\<exists>ready. queueReady rnd bank s = Some (ready, s)) \<or>
      (\<exists>ready. queueReady rnd bank s = Some (ready, s\<lparr>random_calls := random_calls s + 1\<rparr>))"
    using r by (auto simp add: queueReady_def mc_random_def split: if_split)
  then show ?thesis using s by metis
qed

lemma scan_bank_total:
  assumes cfg: "mem_config_ok C" and T: "mc_timing C (A # H) s" and q: "eq_inv q" and c: "mc_consumer_ptr s = Some c"
    and lat: "0 < mem_ctl_latency C * mem_bus_cycle_multiplier C"
  shows "\<exists>q' s'. scan_bank rnd (q, s) = Some (q', s') \<and> eq_inv q'"
proof -
  define bank where "bank = next_bank s"
  have b: "bank < total_banks s" using banks_pos [OF cfg conjunct1 [OF T]] by (simp add: bank_def next_bank_def)
  have T0: "mc_timing C (A # H) (s\<lparr>roundRobin := bank\<rparr>)" using T by (simp add: mc_wf_def)
  obtain A1 s1 where r: "issueRefresh bank (s\<lparr>roundRobin := bank\<rparr>) = Some s1" "mc_timing C (A1 # H) s1"
      "bankQueues s1 = bankQueues s" "mc_consumer_ptr s1 = mc_consumer_ptr s"
    using issueRefresh_timing [OF cfg T0, of bank] b by auto
  have total: "total_banks s1 = total_banks s" using r(2) T by (simp add: mc_wf_def)
  show ?thesis
  proof (cases "bankQueues s1 ! bank = []")
    case True
    then show ?thesis using r(1) q by (simp add: scan_bank_def Let_def flip: bank_def)
  next
    case False
    let ?s = "s1\<lparr>idleCount := IDLECOUNT_MAX_VALUE\<rparr>"
    have wf: "mc_wf C (?s\<lparr>random_calls := n\<rparr>)" for n using r(2) by (simp add: mc_wf_def)
    have "queue_ready_fixed bank (?s\<lparr>random_calls := n\<rparr>) \<noteq> None" for n
      using getRank_ok(1) [OF cfg wf [of n]] b total False wf [of n]
      by (auto simp: queue_ready_fixed_def mc_wf_def check_def Let_def)
    from queueReady_total [OF this] obtain ready n where
      rd: "queueReady rnd bank ?s = Some (ready, ?s\<lparr>random_calls := n\<rparr>)" by blast
    obtain q' s' where "issueRequest bank (q, ?s\<lparr>random_calls := n\<rparr>) = Some (q', s')" "eq_inv q'"
      using issueRequest_total [OF cfg wf [of n], of bank q c] b total False q c r(4) lat by auto
    then show ?thesis using r(1) False rd q by (auto simp: scan_bank_def Let_def simp flip: bank_def)
  qed
qed

lemma scan_total:
  assumes cfg: "mem_config_ok C" and lat: "0 < mem_ctl_latency C * mem_bus_cycle_multiplier C"
  shows "mc_timing C (A # H) s \<Longrightarrow> eq_inv q \<Longrightarrow> mc_consumer_ptr s = Some c \<Longrightarrow>
    \<exists>q' s'. fold_opt (\<lambda>_. scan_bank rnd) xs (q, s) = Some (q', s') \<and> eq_inv q'"
proof (induction xs arbitrary: A q s)
  case (Cons x xs)
  obtain q1 s1 where 1: "scan_bank rnd (q, s) = Some (q1, s1)" "eq_inv q1"
    using scan_bank_total [OF cfg Cons.prems lat] by blast
  from scan_bank_timing [OF cfg Cons.prems(1) 1(1)] obtain A1 where "mc_timing C (A1 # H) s1" "mc_consumer_ptr s1 = Some c"
    using Cons.prems(3) by auto
  from Cons.IH [OF this(1) 1(2) this(2)] 1(1) show ?case by simp
qed simp

lemma executeCycle_total:
  assumes cfg: "mem_config_ok C" and lat: "0 < mem_ctl_latency C * mem_bus_cycle_multiplier C"
    and T: "mc_timing C L s" and q: "eq_inv q" and c: "mc_consumer_ptr s = Some c" and ref: "need_refresh s < 10"
  shows "\<exists>q' s'. executeCycle rnd (q, s) = Some (q', s') \<and> eq_inv q'"
proof -
  have "cycle_refresh (cycle_counters s) \<noteq> None"
    using ref by (simp add: cycle_refresh_def cycle_counters_def Let_def check_def split: if_split)
  then obtain s1 where 1: "cycle_refresh (cycle_counters s) = Some s1" by blast
  define s2 where "s2 = cycle_random rnd (cycle_batch s1)"
  note r = cycle_refresh_timing [OF 1 cycle_counters_timing [OF cfg T]]
  have 2: "mc_timing C ([] # L) s2" "mc_consumer_ptr s2 = Some c"
    using cycle_batch_timing [OF conjunct1 [OF r], of rnd] r c unfolding s2_def by (simp_all add: cycle_counters_def)
  obtain q3 s3 where 3: "fold_opt (\<lambda>_. scan_bank rnd) [0..<total_banks s2] (q, s2) = Some (q3, s3)" "eq_inv q3"
    using scan_total [OF cfg lat 2(1) q 2(2)] by blast
  obtain A where "mc_timing C (A # L) s3" using scan_timing [OF cfg 2(1) 3(1)] by blast
  then obtain s4 where "cycle_input s3 = Some s4" using cycle_input_ok [OF cfg] by blast
  with 1 3 show ?thesis by (simp add: executeCycle_def s2_def Let_def)
qed



end
