(* ===== verification/Address_Tables.thy ===== *)
theory Address_Tables
  imports Cache_Memory Event_Queue "HOL-Library.AList"
begin

text \<open>
  Tables from addresses to entries: the hash map wrapper \<^verbatim>\<open>common/Map.h\<close>, the transaction buffer
  \<^verbatim>\<open>system/TBETable.h\<close>, the unbounded \<^verbatim>\<open>system/PerfectCacheMemory.h\<close> and the timers
  \<^verbatim>\<open>system/TimerTable.C\<close>. A map is an association list with distinct keys; the order in which the
  hash table of the library iterates is the parameter \<open>iter\<close>, a permutation of the keys. The first
  two tables implement the interface \<open>tag_store\<close> of the cache memory.
\<close>

subsection \<open>\<^verbatim>\<open>Map\<close>\<close>

type_synonym ('k, 'v) rmap = "('k \<times> 'v) list"

definition rmap_add :: "'k \<Rightarrow> 'v \<Rightarrow> ('k, 'v) rmap \<Rightarrow> ('k, 'v) rmap" where
  "rmap_add key v m = AList.update key v m"

definition rmap_exist :: "'k \<Rightarrow> ('k, 'v) rmap \<Rightarrow> bool" where
  "rmap_exist key m \<longleftrightarrow> list_ex (\<lambda>p. fst p = key) m"

definition rmap_size :: "('k, 'v) rmap \<Rightarrow> int" where
  "rmap_size m = int (length m)"

definition rmap_erase :: "'k \<Rightarrow> ('k, 'v) rmap \<Rightarrow> ('k, 'v) rmap option" where
  "rmap_erase key m = do { check (rmap_exist key m); Some (AList.delete key m) }"

definition rmap_lookup :: "'k \<Rightarrow> ('k, 'v) rmap \<Rightarrow> 'v option" where
  "rmap_lookup key m = do { check (rmap_exist key m); map_of m key }"

definition rmap_keys :: "('k list \<Rightarrow> 'k list) \<Rightarrow> ('k, 'v) rmap \<Rightarrow> 'k list" where
  "rmap_keys iter m = iter (map fst m)"

definition rmap_values :: "('k list \<Rightarrow> 'k list) \<Rightarrow> ('k, 'v) rmap \<Rightarrow> 'v list option" where
  "rmap_values iter m = those (map (map_of m) (iter (map fst m)))"

definition rmap_clear :: "('k, 'v) rmap \<Rightarrow> ('k, 'v) rmap" where
  "rmap_clear m = []"

definition rmap_ok :: "('k, 'v) rmap \<Rightarrow> bool" where
  "rmap_ok m \<longleftrightarrow> distinct (map fst m)"

lemma rmap_exist_iff [simp]: "rmap_exist k m \<longleftrightarrow> map_of m k \<noteq> None"
proof -
  have "rmap_exist k m \<longleftrightarrow> k \<in> fst ` set m" by (auto simp: rmap_exist_def list_ex_iff)
  then show ?thesis by (simp add: map_of_eq_None_iff)
qed

lemma rmap_lookup_eq [simp]: "rmap_lookup k m = map_of m k"
  by (cases "map_of m k") (simp_all add: rmap_lookup_def check_bind)

lemma rmap_add_of [simp]: "map_of (rmap_add k v m) = (map_of m)(k \<mapsto> v)"
  by (simp add: rmap_add_def update_conv')

lemma rmap_add_ok [simp]: "rmap_ok m \<Longrightarrow> rmap_ok (rmap_add k v m)"
  by (simp add: rmap_ok_def rmap_add_def distinct_update)

lemma rmap_erase_iff: "rmap_erase k m = (if map_of m k = None then None else Some (AList.delete k m))"
  by (simp add: rmap_erase_def check_bind)

lemma rmap_delete_of [simp]: "map_of (AList.delete k m) = (map_of m)(k := None)"
  by (simp add: delete_conv')

lemma rmap_delete_ok [simp]: "rmap_ok m \<Longrightarrow> rmap_ok (AList.delete k m)"
  by (simp add: rmap_ok_def distinct_delete)

lemma rmap_size_card: "rmap_ok m \<Longrightarrow> rmap_size m = int (card (dom (map_of m)))"
  by (metis rmap_ok_def rmap_size_def dom_map_of_conv_image_fst distinct_card length_map list.set_map)

lemma rmap_ok_in_set: "rmap_ok m \<Longrightarrow> map_of m k = Some v \<longleftrightarrow> (k, v) \<in> set m"
  by (auto simp: rmap_ok_def dest: map_of_SomeD)

subsection \<open>\<^verbatim>\<open>TBETable\<close>\<close>

record 'e tbe_table =
  tbe_map :: "(address, 'e) rmap"
  NUMBER_OF_TBES :: int

definition tbe_new :: "int \<Rightarrow> 'e tbe_table" where
  "tbe_new n = \<lparr>tbe_map = [], NUMBER_OF_TBES = n\<rparr>"

definition tbe_isPresent :: "ruby_config \<Rightarrow> address \<Rightarrow> 'e tbe_table \<Rightarrow> bool option" where
  "tbe_isPresent c a t = do {
     line_check c a;
     check (rmap_size (tbe_map t) \<le> NUMBER_OF_TBES t);
     Some (rmap_exist a (tbe_map t)) }"

definition tbe_allocate :: "ruby_config \<Rightarrow> 'e \<Rightarrow> address \<Rightarrow> 'e tbe_table \<Rightarrow> 'e tbe_table option" where
  "tbe_allocate c entry_new a t = do {
     b \<leftarrow> tbe_isPresent c a t;
     check (b = False);
     check (rmap_size (tbe_map t) < NUMBER_OF_TBES t);
     Some (t\<lparr>tbe_map := rmap_add a entry_new (tbe_map t)\<rparr>) }"

definition tbe_deallocate :: "ruby_config \<Rightarrow> address \<Rightarrow> 'e tbe_table \<Rightarrow> 'e tbe_table option" where
  "tbe_deallocate c a t = do {
     b \<leftarrow> tbe_isPresent c a t;
     check (b = True);
     check (0 < rmap_size (tbe_map t));
     m \<leftarrow> rmap_erase a (tbe_map t);
     Some (t\<lparr>tbe_map := m\<rparr>) }"

definition tbe_lookup :: "ruby_config \<Rightarrow> address \<Rightarrow> 'e tbe_table \<Rightarrow> 'e option" where
  "tbe_lookup c a t = do {
     b \<leftarrow> tbe_isPresent c a t;
     check (b = True);
     rmap_lookup a (tbe_map t) }"

definition tbe_areNSlotsAvailable :: "int \<Rightarrow> 'e tbe_table \<Rightarrow> bool" where
  "tbe_areNSlotsAvailable n t \<longleftrightarrow> n \<le> NUMBER_OF_TBES t - rmap_size (tbe_map t)"

definition tbe_inv :: "'e tbe_table \<Rightarrow> bool" where
  "tbe_inv t \<longleftrightarrow> rmap_ok (tbe_map t) \<and> rmap_size (tbe_map t) \<le> NUMBER_OF_TBES t"

definition line_aligned :: "ruby_config \<Rightarrow> address \<Rightarrow> bool" where
  "line_aligned c a \<longleftrightarrow> line_address c a = Some a"

lemma line_aligned_iff: "g_DATA_BLOCK_BITS c < 63 \<Longrightarrow> line_aligned c a \<longleftrightarrow> 2 ^ g_DATA_BLOCK_BITS c dvd unat a"
  using line_address_Some [of c a] by (auto simp: line_aligned_def word_unat_eq_iff intro: dvdI)

lemma line_check_eq: "line_check c a = check (line_aligned c a)"
  by (cases "line_address c a") (auto simp: line_check_def line_aligned_def check_def)

lemma tbe_isPresent_eq: "tbe_inv t \<Longrightarrow> line_aligned c a \<Longrightarrow> tbe_isPresent c a t = Some (map_of (tbe_map t) a \<noteq> None)"
  by (simp add: tbe_isPresent_def line_check_eq tbe_inv_def check_bind)

lemma rmap_add_size: "rmap_ok m \<Longrightarrow> map_of m k = None \<Longrightarrow> rmap_size (rmap_add k v m) = rmap_size m + 1"
  by (auto simp: rmap_size_card card_insert_if domIff finite_dom_map_of)

lemma rmap_delete_size: "rmap_ok m \<Longrightarrow> map_of m k \<noteq> None \<Longrightarrow> rmap_size (AList.delete k m) = rmap_size m - 1"
proof -
  assume m: "rmap_ok m" "map_of m k \<noteq> None"
  then have "0 < card (dom (map_of m))" by (auto simp: card_gt_0_iff finite_dom_map_of)
  with m show ?thesis by (auto simp: rmap_size_card card_Diff_singleton domIff)
qed

lemma tbe_allocate_eq:
  assumes "tbe_inv t" "line_aligned c a" "map_of (tbe_map t) a = None" "rmap_size (tbe_map t) < NUMBER_OF_TBES t"
  shows "tbe_allocate c e a t = Some (t\<lparr>tbe_map := rmap_add a e (tbe_map t)\<rparr>) \<and> tbe_inv (t\<lparr>tbe_map := rmap_add a e (tbe_map t)\<rparr>)"
  using assms tbe_isPresent_eq [OF assms(1,2)] rmap_add_size [of "tbe_map t" a e]
  by (simp add: tbe_allocate_def tbe_inv_def check_bind)

lemma tbe_deallocate_eq:
  assumes "tbe_inv t" "line_aligned c a" "map_of (tbe_map t) a \<noteq> None"
  shows "tbe_deallocate c a t = Some (t\<lparr>tbe_map := AList.delete a (tbe_map t)\<rparr>) \<and> tbe_inv (t\<lparr>tbe_map := AList.delete a (tbe_map t)\<rparr>)"
proof -
  have "tbe_map t \<noteq> []" using assms(3) by auto
  then show ?thesis
    using assms tbe_isPresent_eq [OF assms(1,2)] rmap_delete_size [of "tbe_map t" a]
    by (auto simp: tbe_deallocate_def tbe_inv_def check_bind rmap_erase_iff rmap_size_def)
qed

interpretation tbe: tag_store tbe_inv "\<lambda>t. line_aligned c" "\<lambda>t. map_of (tbe_map t)"
  "\<lambda>t a. rmap_size (tbe_map t) < NUMBER_OF_TBES t" "\<lambda>a. entry_new" "tbe_allocate c entry_new" "tbe_deallocate c"
  "tbe_isPresent c" "tbe_lookup c" for c entry_new
proof unfold_locales
  fix t :: "'a tbe_table" and a
  assume t: "tbe_inv t" "line_aligned c a"
  show "tbe_isPresent c a t = Some (map_of (tbe_map t) a \<noteq> None)" by (rule tbe_isPresent_eq [OF t])
  show "map_of (tbe_map t) a \<noteq> None \<Longrightarrow> tbe_lookup c a t = map_of (tbe_map t) a"
    using tbe_isPresent_eq [OF t] by (simp add: tbe_lookup_def check_bind)
qed (use tbe_allocate_eq tbe_deallocate_eq in fastforce)+

subsection \<open>\<^verbatim>\<open>PerfectCacheMemory\<close>\<close>

record 'e perfect_line =
  pl_permission :: access_permission
  pl_entry :: 'e

type_synonym 'e perfect_cache = "(address, 'e perfect_line) rmap"

definition pc_new :: "'e perfect_cache" where
  "pc_new = []"

definition pc_tryCacheAccess :: "address \<Rightarrow> 'e perfect_cache \<Rightarrow> bool option" where
  "pc_tryCacheAccess a m = None"

definition pc_isTagPresent :: "ruby_config \<Rightarrow> address \<Rightarrow> 'e perfect_cache \<Rightarrow> bool option" where
  "pc_isTagPresent c a m = do { l \<leftarrow> line_address c a; Some (rmap_exist l m) }"

definition pc_cacheAvail :: "address \<Rightarrow> 'e perfect_cache \<Rightarrow> bool" where
  "pc_cacheAvail a m = True"

definition pc_allocate :: "ruby_config \<Rightarrow> 'e \<Rightarrow> address \<Rightarrow> 'e perfect_cache \<Rightarrow> 'e perfect_cache option" where
  "pc_allocate c entry_new a m = do {
     l \<leftarrow> line_address c a;
     Some (rmap_add l \<lparr>pl_permission = Perm_Busy, pl_entry = entry_new\<rparr> m) }"

definition pc_deallocate :: "ruby_config \<Rightarrow> address \<Rightarrow> 'e perfect_cache \<Rightarrow> 'e perfect_cache option" where
  "pc_deallocate c a m = do { l \<leftarrow> line_address c a; rmap_erase l m }"

definition pc_cacheProbe :: "address \<Rightarrow> 'e perfect_cache \<Rightarrow> address option" where
  "pc_cacheProbe a m = None"

definition pc_line :: "ruby_config \<Rightarrow> address \<Rightarrow> 'e perfect_cache \<Rightarrow> 'e perfect_line option" where
  "pc_line c a m = do { l \<leftarrow> line_address c a; rmap_lookup l m }"

definition pc_lookup :: "ruby_config \<Rightarrow> address \<Rightarrow> 'e perfect_cache \<Rightarrow> 'e option" where
  "pc_lookup c a m = map_option pl_entry (pc_line c a m)"

definition pc_getPermission :: "ruby_config \<Rightarrow> address \<Rightarrow> 'e perfect_cache \<Rightarrow> access_permission option" where
  "pc_getPermission c a m = map_option pl_permission (pc_line c a m)"

definition pc_changePermission :: "ruby_config \<Rightarrow> address \<Rightarrow> access_permission \<Rightarrow> 'e perfect_cache \<Rightarrow> 'e perfect_cache option" where
  "pc_changePermission c a new_perm m = do {
     l \<leftarrow> makeLineAddress c a;
     line_state \<leftarrow> rmap_lookup l m;
     Some (rmap_add l (line_state\<lparr>pl_permission := new_perm\<rparr>) m) }"

interpretation pcache: tag_store rmap_ok "\<lambda>m. line_aligned c" "map_of" "\<lambda>m a. pc_cacheAvail a m"
  "\<lambda>a. \<lparr>pl_permission = Perm_Busy, pl_entry = entry_new\<rparr>" "pc_allocate c entry_new" "pc_deallocate c"
  "pc_isTagPresent c" "pc_line c" for c entry_new
  by unfold_locales
    (auto simp: pc_isTagPresent_def pc_line_def pc_allocate_def pc_deallocate_def line_aligned_def rmap_erase_iff)

lemma pc_changePermission_ok:
  assumes "rmap_ok m" "line_address c a = Some l" "map_of m l = Some s"
  shows "\<exists>m'. pc_changePermission c a p m = Some m' \<and> rmap_ok m' \<and> pc_getPermission c a m' = Some p \<and>
    pc_lookup c a m' = pc_lookup c a m \<and> (\<forall>k. k \<noteq> l \<longrightarrow> map_of m' k = map_of m k)"
  using assms by (auto simp: pc_changePermission_def pc_getPermission_def pc_lookup_def pc_line_def line_address_def)

subsection \<open>\<^verbatim>\<open>TimerTable\<close>\<close>

record timer_table =
  tt_map :: "(address, time) rmap"
  tt_next_valid :: bool
  tt_next_time :: time
  tt_next_address :: address
  tt_consumer_ptr :: "nat option"

definition timer_table_new :: "nat option \<Rightarrow> timer_table option" where
  "timer_table_new chip_ptr = do {
     check (chip_ptr \<noteq> None);
     Some \<lparr>tt_map = [], tt_next_valid = False, tt_next_time = 0, tt_next_address = 0, tt_consumer_ptr = None\<rparr> }"

definition tt_setConsumer :: "nat option \<Rightarrow> timer_table \<Rightarrow> timer_table option" where
  "tt_setConsumer c t = do { check (tt_consumer_ptr t = None); Some (t\<lparr>tt_consumer_ptr := c\<rparr>) }"

definition tt_next_of :: "(address, time) rmap \<Rightarrow> address \<Rightarrow> address \<times> time \<Rightarrow> (address \<times> time) option" where
  "tt_next_of m a best = do {
     t \<leftarrow> rmap_lookup a m;
     Some (if t < snd best then (a, t) else best) }"

definition tt_updateNext :: "(address list \<Rightarrow> address list) \<Rightarrow> timer_table \<Rightarrow> timer_table option" where
  "tt_updateNext iter t =
     (if rmap_size (tt_map t) = 0 then do { check (\<not> tt_next_valid t); Some t }
      else do {
        let addresses = rmap_keys iter (tt_map t);
        check (addresses \<noteq> []);
        next_time \<leftarrow> rmap_lookup (hd addresses) (tt_map t);
        (a, s) \<leftarrow> fold_opt (tt_next_of (tt_map t)) (tl addresses) (hd addresses, next_time);
        Some (t\<lparr>tt_next_address := a, tt_next_time := s, tt_next_valid := True\<rparr>) })"

definition tt_isReady :: "(address list \<Rightarrow> address list) \<Rightarrow> time \<Rightarrow> timer_table \<Rightarrow> (bool \<times> timer_table) option" where
  "tt_isReady iter now t =
     (if rmap_size (tt_map t) = 0 then Some (False, t)
      else do {
        t1 \<leftarrow> (if tt_next_valid t then Some t else tt_updateNext iter t);
        check (tt_next_valid t1);
        Some (tt_next_time t1 \<le> now, t1) })"

definition tt_readyAddress :: "(address list \<Rightarrow> address list) \<Rightarrow> time \<Rightarrow> timer_table \<Rightarrow> (address \<times> timer_table) option" where
  "tt_readyAddress iter now t = do {
     (ready, t1) \<leftarrow> tt_isReady iter now t;
     check ready;
     t2 \<leftarrow> (if tt_next_valid t1 then Some t1 else tt_updateNext iter t1);
     check (tt_next_valid t2);
     Some (tt_next_address t2, t2) }"

definition tt_isSet :: "address \<Rightarrow> timer_table \<Rightarrow> bool" where
  "tt_isSet a t \<longleftrightarrow> rmap_exist a (tt_map t)"

definition tt_set :: "ruby_config \<Rightarrow> address \<Rightarrow> time \<Rightarrow> event_queue \<times> timer_table \<Rightarrow> (event_queue \<times> timer_table) option" where
  "tt_set c a relative_latency = (\<lambda>(q, t). do {
     line_check c a;
     check (0 < relative_latency);
     check (\<not> rmap_exist a (tt_map t));
     let ready_time = m_globalTime q + relative_latency;
     let t1 = t\<lparr>tt_map := rmap_add a ready_time (tt_map t)\<rparr>;
     check (tt_consumer_ptr t1 \<noteq> None);
     q' \<leftarrow> scheduleEventAbsolute (tt_consumer_ptr t1) ready_time q;
     let t2 = t1\<lparr>tt_next_valid := False\<rparr>;
     Some (q', if ready_time \<le> tt_next_time t2 then t2\<lparr>tt_next_valid := False\<rparr> else t2) })"

definition tt_unset :: "ruby_config \<Rightarrow> address \<Rightarrow> timer_table \<Rightarrow> timer_table option" where
  "tt_unset c a t = do {
     line_check c a;
     check (rmap_exist a (tt_map t));
     m \<leftarrow> rmap_erase a (tt_map t);
     let t1 = t\<lparr>tt_map := m\<rparr>;
     Some (if a = tt_next_address t1 then t1\<lparr>tt_next_valid := False\<rparr> else t1) }"

text \<open>The cached next timer, when valid, is one of the least time.\<close>

definition tt_inv :: "timer_table \<Rightarrow> bool" where
  "tt_inv t \<longleftrightarrow> rmap_ok (tt_map t) \<and>
     (tt_next_valid t \<longrightarrow> map_of (tt_map t) (tt_next_address t) = Some (tt_next_time t) \<and>
        (\<forall>s \<in> ran (map_of (tt_map t)). tt_next_time t \<le> s))"

lemma tt_next_fold:
  assumes "\<forall>a \<in> set xs. map_of m a \<noteq> None" "map_of m (fst best) = Some (snd best)"
  shows "\<exists>b. fold_opt (tt_next_of m) xs best = Some b \<and> map_of m (fst b) = Some (snd b) \<and> snd b \<le> snd best \<and>
    (\<forall>a \<in> set xs. \<forall>s. map_of m a = Some s \<longrightarrow> snd b \<le> s)"
  using assms
proof (induction xs arbitrary: best)
  case (Cons a xs)
  then obtain s where s: "map_of m a = Some s" by auto
  let ?b = "if s < snd best then (a, s) else best"
  have "map_of m (fst ?b) = Some (snd ?b)" using s Cons.prems(2) by simp
  with Cons obtain b where b: "fold_opt (tt_next_of m) xs ?b = Some b" "map_of m (fst b) = Some (snd b)" "snd b \<le> snd ?b"
      "\<forall>a \<in> set xs. \<forall>s. map_of m a = Some s \<longrightarrow> snd b \<le> s" by (metis list.set_intros(2))
  moreover have "tt_next_of m a best = Some ?b" using s by (simp add: tt_next_of_def)
  moreover have "snd b \<le> snd best" "snd b \<le> s" using b(3) by (auto split: if_splits)
  ultimately show ?case using s by (intro exI [of _ b]) auto
qed simp

lemma tt_updateNext_ok:
  assumes inv: "tt_inv t" and iter: "\<And>ks. set (iter ks) = set ks" and ne: "tt_map t \<noteq> []"
  shows "\<exists>a s. tt_updateNext iter t = Some (t\<lparr>tt_next_address := a, tt_next_time := s, tt_next_valid := True\<rparr>) \<and>
    tt_inv (t\<lparr>tt_next_address := a, tt_next_time := s, tt_next_valid := True\<rparr>)"
proof -
  let ?m = "tt_map t" and ?ks = "iter (map fst (tt_map t))"
  have ks: "set ?ks = dom (map_of ?m)" by (simp add: iter dom_map_of_conv_image_fst)
  then obtain k ks where k: "?ks = k # ks" using ne iter by (cases ?ks) (auto simp: dom_map_of_conv_image_fst)
  then have all: "\<forall>a \<in> set ks. map_of ?m a \<noteq> None" and "map_of ?m k \<noteq> None" using ks by (auto simp: domIff)
  then obtain t0 where t0: "map_of ?m k = Some t0" by auto
  from tt_next_fold [of ks ?m "(k, t0)", OF all] t0 obtain a s where b: "fold_opt (tt_next_of ?m) ks (k, t0) = Some (a, s)"
      "map_of ?m a = Some s" "s \<le> t0" "\<forall>a \<in> set ks. \<forall>s'. map_of ?m a = Some s' \<longrightarrow> s \<le> s'" by auto
  have "\<forall>s' \<in> ran (map_of ?m). s \<le> s'"
  proof
    fix s' assume "s' \<in> ran (map_of ?m)"
    then obtain a' where "map_of ?m a' = Some s'" by (auto simp: ran_def)
    moreover from this have "a' = k \<or> a' \<in> set ks" using ks k by (metis domI set_ConsD)
    ultimately show "s \<le> s'" using b(3,4) t0 by auto
  qed
  then have "tt_inv (t\<lparr>tt_next_address := a, tt_next_time := s, tt_next_valid := True\<rparr>)"
    using inv b(2) by (simp add: tt_inv_def)
  then show ?thesis
    using b k t0 ne by (auto simp: tt_updateNext_def rmap_size_def rmap_keys_def check_bind Let_def)
qed

lemma tt_isReady_ok:
  assumes inv: "tt_inv t" and iter: "\<And>ks. set (iter ks) = set ks"
  shows "\<exists>t'. tt_isReady iter now t = Some (\<exists>s \<in> ran (map_of (tt_map t)). s \<le> now, t') \<and> tt_inv t' \<and>
    tt_map t' = tt_map t \<and> tt_consumer_ptr t' = tt_consumer_ptr t \<and> (tt_map t \<noteq> [] \<longrightarrow> tt_next_valid t')"
proof (cases "tt_map t = []")
  case True
  then show ?thesis using inv by (simp add: tt_isReady_def rmap_size_def)
next
  case False
  obtain t1 where t1: "(if tt_next_valid t then Some t else tt_updateNext iter t) = Some t1" "tt_inv t1" "tt_next_valid t1"
      "tt_map t1 = tt_map t" "tt_consumer_ptr t1 = tt_consumer_ptr t"
  proof (cases "tt_next_valid t")
    case True
    then show thesis using that [of t] inv by simp
  next
    case invalid: False
    obtain a s where "tt_updateNext iter t = Some (t\<lparr>tt_next_address := a, tt_next_time := s, tt_next_valid := True\<rparr>)"
        "tt_inv (t\<lparr>tt_next_address := a, tt_next_time := s, tt_next_valid := True\<rparr>)"
      using tt_updateNext_ok [OF inv iter False] by blast
    then show thesis using that invalid by simp
  qed
  have "tt_next_time t1 \<le> now \<longleftrightarrow> (\<exists>s \<in> ran (map_of (tt_map t)). s \<le> now)"
    using t1(2-4) by (auto simp: tt_inv_def ran_def intro: order_trans)
  then show ?thesis using t1 False by (auto simp: tt_isReady_def rmap_size_def check_bind)
qed

lemma tt_readyAddress_ok:
  assumes inv: "tt_inv t" and iter: "\<And>ks. set (iter ks) = set ks" and due: "\<exists>s \<in> ran (map_of (tt_map t)). s \<le> now"
  shows "\<exists>a s t'. tt_readyAddress iter now t = Some (a, t') \<and> tt_inv t' \<and> tt_map t' = tt_map t \<and>
    tt_consumer_ptr t' = tt_consumer_ptr t \<and> map_of (tt_map t) a = Some s \<and> s \<le> now \<and> (\<forall>s' \<in> ran (map_of (tt_map t)). s \<le> s')"
proof -
  have ne: "tt_map t \<noteq> []" using due by (auto simp: ran_def)
  obtain t1 where t1: "tt_isReady iter now t = Some (True, t1)" "tt_inv t1" "tt_map t1 = tt_map t" "tt_next_valid t1"
      "tt_consumer_ptr t1 = tt_consumer_ptr t"
    using tt_isReady_ok [OF inv iter, of now] due ne by auto
  then have m: "map_of (tt_map t) (tt_next_address t1) = Some (tt_next_time t1)" "\<forall>s \<in> ran (map_of (tt_map t)). tt_next_time t1 \<le> s"
    by (simp_all add: tt_inv_def)
  moreover have "tt_next_time t1 \<le> now" using due m(2) by force
  ultimately show ?thesis using t1 by (auto simp: tt_readyAddress_def check_bind)
qed

text \<open>C14. A \<^verbatim>\<open>TimerTable\<close> is a map from line addresses to due times, whatever the iteration order of its hash
  map: \<^verbatim>\<open>set\<close> adds a timer and schedules the consumer for its time, \<^verbatim>\<open>unset\<close> removes one, \<^verbatim>\<open>isReady\<close>
  tells whether some timer is due, \<^verbatim>\<open>readyAddress\<close> returns a due address of the least time, and the
  cached next timer stays correct under all of them.\<close>

theorem timer_table_refines_map:
  assumes "tt_inv t" "\<And>ks. set (iter ks) = set ks" "eq_inv q" "tt_consumer_ptr t = Some co" "line_aligned c a"
  shows "(\<exists>t'. tt_isReady iter now t = Some (\<exists>s \<in> ran (map_of (tt_map t)). s \<le> now, t') \<and> tt_inv t' \<and> tt_map t' = tt_map t) \<and>
    ((\<exists>s \<in> ran (map_of (tt_map t)). s \<le> now) \<longrightarrow> (\<exists>b s t'. tt_readyAddress iter now t = Some (b, t') \<and> tt_inv t' \<and>
       tt_map t' = tt_map t \<and> map_of (tt_map t) b = Some s \<and> s \<le> now \<and> (\<forall>s' \<in> ran (map_of (tt_map t)). s \<le> s'))) \<and>
    (map_of (tt_map t) a = None \<and> 0 < lat \<longrightarrow> (\<exists>q' t'. tt_set c a lat (q, t) = Some (q', t') \<and> tt_inv t' \<and> eq_inv q' \<and>
       map_of (tt_map t') = (map_of (tt_map t))(a \<mapsto> m_globalTime q + lat) \<and>
       \<lparr>eq_time = m_globalTime q + lat, eq_consumer = Some co\<rparr> \<in># events q')) \<and>
    (map_of (tt_map t) a \<noteq> None \<longrightarrow> (\<exists>t'. tt_unset c a t = Some t' \<and> tt_inv t' \<and>
       map_of (tt_map t') = (map_of (tt_map t))(a := None)))"
proof (intro conjI impI)
  show "\<exists>t'. tt_isReady iter now t = Some (\<exists>s \<in> ran (map_of (tt_map t)). s \<le> now, t') \<and> tt_inv t' \<and> tt_map t' = tt_map t"
    using tt_isReady_ok [OF assms(1,2), of now] by blast
  show "\<exists>b s t'. tt_readyAddress iter now t = Some (b, t') \<and> tt_inv t' \<and> tt_map t' = tt_map t \<and>
      map_of (tt_map t) b = Some s \<and> s \<le> now \<and> (\<forall>s' \<in> ran (map_of (tt_map t)). s \<le> s')"
    if "\<exists>s \<in> ran (map_of (tt_map t)). s \<le> now"
    using tt_readyAddress_ok [OF assms(1,2) that] by blast
next
  assume *: "map_of (tt_map t) a = None \<and> 0 < lat"
  then obtain q' where "scheduleEventAbsolute (Some co) (m_globalTime q + lat) q = Some q'" "eq_inv q'"
      "\<lparr>eq_time = m_globalTime q + lat, eq_consumer = Some co\<rparr> \<in># events q'"
    using scheduleEventAbsolute_ok [OF assms(3), of "m_globalTime q + lat" co] by auto
  then show "\<exists>q' t'. tt_set c a lat (q, t) = Some (q', t') \<and> tt_inv t' \<and> eq_inv q' \<and>
       map_of (tt_map t') = (map_of (tt_map t))(a \<mapsto> m_globalTime q + lat) \<and>
       \<lparr>eq_time = m_globalTime q + lat, eq_consumer = Some co\<rparr> \<in># events q'"
    using * assms by (auto simp: tt_set_def tt_inv_def line_check_eq check_bind Let_def)
next
  assume *: "map_of (tt_map t) a \<noteq> None"
  have "ran ((map_of (tt_map t))(a := None)) \<subseteq> ran (map_of (tt_map t))" by (auto simp: ran_def)
  with * assms show "\<exists>t'. tt_unset c a t = Some t' \<and> tt_inv t' \<and> map_of (tt_map t') = (map_of (tt_map t))(a := None)"
    by (auto simp: tt_unset_def tt_inv_def line_check_eq check_bind rmap_erase_iff Let_def)
qed

theorem timer_table_refines_map_witness:
  "\<exists>b s t'. tt_readyAddress rev 9 \<lparr>tt_map = [(0, 7), (64, 5)], tt_next_valid = False, tt_next_time = 0,
      tt_next_address = 0, tt_consumer_ptr = Some 1\<rparr> = Some (b, t') \<and>
    map_of [(0, 7), (64, 5)] b = Some (s :: time) \<and> s \<le> 9 \<and> (\<forall>s' \<in> ran (map_of [(0 :: address, 7), (64, 5)]). s \<le> s')"
proof -
  let ?t = "\<lparr>tt_map = [(0, 7), (64, 5)], tt_next_valid = False, tt_next_time = 0, tt_next_address = 0, tt_consumer_ptr = Some 1\<rparr>"
  have t: "tt_inv ?t" by (simp add: tt_inv_def rmap_ok_def)
  obtain c :: ruby_config where "g_DATA_BLOCK_BITS c = 6" using sample_config_init by blast
  then have a: "line_aligned c 64" by (simp add: line_aligned_iff)
  have r: "set (rev ks) = set ks" for ks :: "address list" by simp
  have "\<exists>s \<in> ran (map_of (tt_map ?t)). s \<le> 9" by (auto simp: ran_def)
  from mp [OF conjunct1 [OF conjunct2 [OF timer_table_refines_map [of ?t rev event_queue_init 1 c 64 9, OF t r eq_inv_init _ a]]] this]
  show ?thesis unfolding timer_table.simps by blast
qed

lemma tbe_allocate_None:
  "tbe_inv t \<Longrightarrow> line_aligned c a \<Longrightarrow> NUMBER_OF_TBES t \<le> rmap_size (tbe_map t) \<Longrightarrow> tbe_allocate c e a t = None"
  by (auto simp: tbe_allocate_def tbe_isPresent_eq check_bind)

text \<open>C36. \<^verbatim>\<open>TBETable::areNSlotsAvailable(n)\<close> is the exact condition under which \<open>n\<close> further transactions can start:
  \<open>n\<close> allocations of distinct absent lines succeed if and only if it holds, and then the table maps
  each of these lines to a new entry and every other line as before.\<close>

theorem tbe_slots_exact:
  assumes "tbe_inv t" "distinct as" "\<forall>a \<in> set as. line_aligned c a \<and> map_of (tbe_map t) a = None"
  shows "if tbe_areNSlotsAvailable (int (length as)) t
    then \<exists>t'. fold_opt (tbe_allocate c e) as t = Some t' \<and> tbe_inv t' \<and>
      (\<forall>a. map_of (tbe_map t') a = (if a \<in> set as then Some e else map_of (tbe_map t) a))
    else fold_opt (tbe_allocate c e) as t = None"
  using assms
proof (induction as arbitrary: t)
  case Nil
  then show ?case by (auto simp: tbe_areNSlotsAvailable_def tbe_inv_def)
next
  case (Cons a as)
  let ?t = "t\<lparr>tbe_map := rmap_add a e (tbe_map t)\<rparr>"
  show ?case
  proof (cases "rmap_size (tbe_map t) < NUMBER_OF_TBES t")
    case True
    then have al: "tbe_allocate c e a t = Some ?t" "tbe_inv ?t" using tbe_allocate_eq [of t c a e] Cons.prems by auto
    have "rmap_size (tbe_map ?t) = rmap_size (tbe_map t) + 1"
      using Cons.prems by (simp add: rmap_add_size tbe_inv_def)
    then have sl: "tbe_areNSlotsAvailable (int (length as)) ?t \<longleftrightarrow> tbe_areNSlotsAvailable (int (length (a # as))) t"
      by (auto simp: tbe_areNSlotsAvailable_def)
    have "\<forall>a \<in> set as. line_aligned c a \<and> map_of (tbe_map ?t) a = None" using Cons.prems by auto
    from Cons.IH [OF al(2) _ this] Cons.prems(2) sl al(1) show ?thesis by (auto split: if_splits)
  next
    case False
    then show ?thesis using tbe_allocate_None [of t c a e] Cons.prems by (auto simp: tbe_areNSlotsAvailable_def)
  qed
qed

theorem tbe_slots_exact_witness:
  "\<exists>c. config_init True sample_config = Some c \<and> fold_opt (tbe_allocate c ()) [0, 64, 128] (tbe_new 2) = None \<and>
   (\<exists>t'. fold_opt (tbe_allocate c ()) [0, 64] (tbe_new 2) = Some t' \<and> tbe_inv t')"
proof -
  obtain c where c: "config_init True sample_config = Some c" "g_DATA_BLOCK_BITS c = 6" using sample_config_init by blast
  then have "\<forall>a \<in> set [0, 64, 128]. line_aligned c a" by (simp add: line_aligned_iff)
  then have a: "\<forall>a \<in> set [0, 64, 128]. line_aligned c a \<and> map_of (tbe_map (tbe_new 2 :: unit tbe_table)) a = None"
    "\<forall>a \<in> set [0, 64]. line_aligned c a \<and> map_of (tbe_map (tbe_new 2 :: unit tbe_table)) a = None"
    by (simp_all add: tbe_new_def)
  have d: "distinct [0, 64, 128 :: address]" "distinct [0, 64 :: address]" by simp_all
  have n: "tbe_inv (tbe_new 2 :: unit tbe_table)" by (simp add: tbe_inv_def tbe_new_def rmap_ok_def rmap_size_def)
  have "\<not> tbe_areNSlotsAvailable (int (length [0, 64, 128 :: address])) (tbe_new 2 :: unit tbe_table)"
    "tbe_areNSlotsAvailable (int (length [0, 64 :: address])) (tbe_new 2 :: unit tbe_table)"
    by (simp_all add: tbe_areNSlotsAvailable_def tbe_new_def rmap_size_def)
  with tbe_slots_exact [OF n d(1) a(1), of "()"] tbe_slots_exact [OF n d(2) a(2), of "()"] c(1) show ?thesis by metis
qed

end
