(* ===== verification/Persistent_Requests.thy ===== *)
theory Persistent_Requests
  imports Address_Tables Net_Dest
begin

text \<open>
  The tables of persistent requests of the token coherence protocols: \<^verbatim>\<open>system/PersistentTable.C\<close>, whose
  entries hold sets of machines, and \<^verbatim>\<open>system/NodePersistentTable.C\<close>, the same code over sets of nodes.
  The operations are written once over the record \<open>set_ops\<close> of the set operations that the entries use,
  and both classes are instances. Locale \<open>starving_sets\<close> holds the laws of the sets; the table is then an
  abstract lock table: for every line the requesters that starve, those marked, and the writers.
\<close>

datatype access_type = AccessType_Read | AccessType_Write

record ('k, 's) set_ops =
  so_new :: "'s option"
  so_add :: "'k \<Rightarrow> 's \<Rightarrow> 's option"
  so_remove :: "'k \<Rightarrow> 's \<Rightarrow> 's option"
  so_isElement :: "'k \<Rightarrow> 's \<Rightarrow> bool option"
  so_isSubset :: "'s \<Rightarrow> 's \<Rightarrow> bool option"
  so_isEmpty :: "'s \<Rightarrow> bool"
  so_count :: "'s \<Rightarrow> nat"

record 's persistent_entry =
  m_starving :: 's
  m_marked :: 's
  m_request_to_write :: 's

type_synonym 's persistent_map = "(address, 's persistent_entry) rmap"

definition entry_new :: "('k, 's) set_ops \<Rightarrow> 's persistent_entry option" where
  "entry_new ops = do {
     s \<leftarrow> so_new ops; m \<leftarrow> so_new ops; w \<leftarrow> so_new ops;
     Some \<lparr>m_starving = s, m_marked = m, m_request_to_write = w\<rparr> }"

definition entry_lock :: "('k, 's) set_ops \<Rightarrow> 'k \<Rightarrow> access_type \<Rightarrow> 's persistent_entry \<Rightarrow> 's persistent_entry option" where
  "entry_lock ops locker ty e = do {
     s \<leftarrow> so_add ops locker (m_starving e);
     w \<leftarrow> (if ty = AccessType_Write then so_add ops locker (m_request_to_write e) else Some (m_request_to_write e));
     Some (e\<lparr>m_starving := s, m_request_to_write := w\<rparr>) }"

definition pt_lock ::
  "('k, 's) set_ops \<Rightarrow> ruby_config \<Rightarrow> address \<Rightarrow> 'k \<Rightarrow> access_type \<Rightarrow> 's persistent_map \<Rightarrow> 's persistent_map option" where
  "pt_lock ops c a locker ty m = do {
     line_check c a;
     if \<not> rmap_exist a m then do {
       e \<leftarrow> entry_new ops;
       e' \<leftarrow> entry_lock ops locker ty e;
       Some (rmap_add a e' m) }
     else do {
       e \<leftarrow> rmap_lookup a m;
       present \<leftarrow> so_isElement ops locker (m_starving e);
       check (\<not> present);
       e' \<leftarrow> entry_lock ops locker ty e;
       sub \<leftarrow> so_isSubset ops (m_starving e') (m_marked e');
       check sub;
       Some (rmap_add a e' m) } }"

definition pt_unlock :: "('k, 's) set_ops \<Rightarrow> ruby_config \<Rightarrow> address \<Rightarrow> 'k \<Rightarrow> 's persistent_map \<Rightarrow> 's persistent_map option" where
  "pt_unlock ops c a unlocker m = do {
     line_check c a;
     check (rmap_exist a m);
     e \<leftarrow> rmap_lookup a m;
     present \<leftarrow> so_isElement ops unlocker (m_starving e);
     check present;
     sub \<leftarrow> so_isSubset ops (m_starving e) (m_marked e);
     check sub;
     st \<leftarrow> so_remove ops unlocker (m_starving e);
     mk \<leftarrow> so_remove ops unlocker (m_marked e);
     wr \<leftarrow> so_remove ops unlocker (m_request_to_write e);
     sub' \<leftarrow> so_isSubset ops st mk;
     check sub';
     if so_isEmpty ops st then do {
       check (so_isEmpty ops mk);
       rmap_erase a m }
     else Some (rmap_add a \<lparr>m_starving = st, m_marked = mk, m_request_to_write = wr\<rparr> m) }"

definition pt_okToIssueStarving :: "('k, 's) set_ops \<Rightarrow> ruby_config \<Rightarrow> 'k \<Rightarrow> address \<Rightarrow> 's persistent_map \<Rightarrow> bool option" where
  "pt_okToIssueStarving ops c self a m = do {
     line_check c a;
     if \<not> rmap_exist a m then Some True
     else do {
       e \<leftarrow> rmap_lookup a m;
       present \<leftarrow> so_isElement ops self (m_starving e);
       Some (if present then False else so_isEmpty ops (m_marked e)) } }"

definition pt_markEntries :: "('k, 's) set_ops \<Rightarrow> ruby_config \<Rightarrow> address \<Rightarrow> 's persistent_map \<Rightarrow> 's persistent_map option" where
  "pt_markEntries ops c a m = do {
     line_check c a;
     if rmap_exist a m then do {
       e \<leftarrow> rmap_lookup a m;
       check (so_isEmpty ops (m_marked e));
       Some (rmap_add a (e\<lparr>m_marked := m_starving e\<rparr>) m) }
     else Some m }"

definition pt_isLocked :: "ruby_config \<Rightarrow> address \<Rightarrow> 's persistent_map \<Rightarrow> bool option" where
  "pt_isLocked c a m = do { line_check c a; Some (rmap_exist a m) }"

definition pt_countStarvingForAddress :: "('k, 's) set_ops \<Rightarrow> address \<Rightarrow> 's persistent_map \<Rightarrow> int" where
  "pt_countStarvingForAddress ops a m =
     (case rmap_lookup a m of None \<Rightarrow> 0 | Some e \<Rightarrow> int (so_count ops (m_starving e)))"

definition pt_countReadStarvingForAddress :: "('k, 's) set_ops \<Rightarrow> address \<Rightarrow> 's persistent_map \<Rightarrow> int" where
  "pt_countReadStarvingForAddress ops a m =
     (case rmap_lookup a m of None \<Rightarrow> 0
      | Some e \<Rightarrow> int (so_count ops (m_starving e)) - int (so_count ops (m_request_to_write e)))"

subsection \<open>\<^verbatim>\<open>PersistentTable\<close>\<close>

definition net_dest_ops :: "machine_types \<Rightarrow> (machine_id, net_dest) set_ops" where
  "net_dest_ops mt = \<lparr>so_new = nd_new mt, so_add = nd_add mt, so_remove = nd_remove mt, so_isElement = nd_isElement mt,
     so_isSubset = nd_isSubset, so_isEmpty = nd_isEmpty, so_count = nd_count\<rparr>"

record persistent_table =
  pt_map :: "net_dest persistent_map"
  pt_version :: nat

definition persistent_table_new :: "nat \<Rightarrow> persistent_table" where
  "persistent_table_new version = \<lparr>pt_map = [], pt_version = version\<rparr>"

abbreviation with_map :: "persistent_table \<Rightarrow> net_dest persistent_map option \<Rightarrow> persistent_table option" where
  "with_map t r \<equiv> map_option (\<lambda>m. t\<lparr>pt_map := m\<rparr>) r"

definition persistentRequestLock ::
  "machine_types \<Rightarrow> ruby_config \<Rightarrow> address \<Rightarrow> machine_id \<Rightarrow> access_type \<Rightarrow> persistent_table \<Rightarrow> persistent_table option" where
  "persistentRequestLock mt c a locker ty t = with_map t (pt_lock (net_dest_ops mt) c a locker ty (pt_map t))"

definition persistentRequestUnlock ::
  "machine_types \<Rightarrow> ruby_config \<Rightarrow> address \<Rightarrow> machine_id \<Rightarrow> persistent_table \<Rightarrow> persistent_table option" where
  "persistentRequestUnlock mt c a unlocker t = with_map t (pt_unlock (net_dest_ops mt) c a unlocker (pt_map t))"

definition okToIssueStarving :: "machine_types \<Rightarrow> nat \<Rightarrow> ruby_config \<Rightarrow> address \<Rightarrow> persistent_table \<Rightarrow> bool option" where
  "okToIssueStarving mt L1Cache c a t =
     pt_okToIssueStarving (net_dest_ops mt) c \<lparr>mach_type = L1Cache, mach_num = pt_version t\<rparr> a (pt_map t)"

definition findSmallest :: "nat \<Rightarrow> ruby_config \<Rightarrow> address \<Rightarrow> persistent_table \<Rightarrow> machine_id option" where
  "findSmallest L1Cache c a t = do {
     line_check c a;
     check (rmap_exist a (pt_map t));
     e \<leftarrow> rmap_lookup a (pt_map t);
     n \<leftarrow> nd_smallestElement (m_starving e);
     Some \<lparr>mach_type = L1Cache, mach_num = n\<rparr> }"

definition typeOfSmallest :: "machine_types \<Rightarrow> nat \<Rightarrow> ruby_config \<Rightarrow> address \<Rightarrow> persistent_table \<Rightarrow> access_type option" where
  "typeOfSmallest mt L1Cache c a t = do {
     line_check c a;
     check (rmap_exist a (pt_map t));
     e \<leftarrow> rmap_lookup a (pt_map t);
     n \<leftarrow> nd_smallestElement (m_starving e);
     w \<leftarrow> nd_isElement mt \<lparr>mach_type = L1Cache, mach_num = n\<rparr> (m_request_to_write e);
     Some (if w then AccessType_Write else AccessType_Read) }"

definition markEntries :: "machine_types \<Rightarrow> ruby_config \<Rightarrow> address \<Rightarrow> persistent_table \<Rightarrow> persistent_table option" where
  "markEntries mt c a t = with_map t (pt_markEntries (net_dest_ops mt) c a (pt_map t))"

definition isLocked :: "ruby_config \<Rightarrow> address \<Rightarrow> persistent_table \<Rightarrow> bool option" where
  "isLocked c a t = pt_isLocked c a (pt_map t)"

definition countStarvingForAddress :: "machine_types \<Rightarrow> address \<Rightarrow> persistent_table \<Rightarrow> int" where
  "countStarvingForAddress mt a t = pt_countStarvingForAddress (net_dest_ops mt) a (pt_map t)"

definition countReadStarvingForAddress :: "machine_types \<Rightarrow> address \<Rightarrow> persistent_table \<Rightarrow> int" where
  "countReadStarvingForAddress mt a t = pt_countReadStarvingForAddress (net_dest_ops mt) a (pt_map t)"

subsection \<open>\<^verbatim>\<open>NodePersistentTable\<close>\<close>

definition persistent_randomize :: "nat list" where
  "persistent_randomize = [0, 1, 2, 3, 4, 5, 6, 7, 8, 9, 10, 11, 12, 13, 14, 15]"

definition randomized :: "nat \<Rightarrow> nat option" where
  "randomized n = do { check (n < length persistent_randomize); Some (persistent_randomize ! n) }"

definition bset_ops :: "nat \<Rightarrow> (nat, bset) set_ops" where
  "bset_ops numberOfProcessors = \<lparr>so_new = Some (set_new_default numberOfProcessors), so_add = set_add,
     so_remove = set_remove, so_isElement = set_isElement, so_isSubset = set_isSubset, so_isEmpty = set_isEmpty,
     so_count = set_count\<rparr>"

record node_persistent_table =
  npt_map :: "bset persistent_map"
  npt_chip_id :: nat
  npt_version :: nat

definition node_persistent_table_new :: "nat \<Rightarrow> nat \<Rightarrow> node_persistent_table" where
  "node_persistent_table_new chip_id version = \<lparr>npt_map = [], npt_chip_id = chip_id, npt_version = version\<rparr>"

abbreviation with_node_map :: "node_persistent_table \<Rightarrow> bset persistent_map option \<Rightarrow> node_persistent_table option" where
  "with_node_map t r \<equiv> map_option (\<lambda>m. t\<lparr>npt_map := m\<rparr>) r"

definition npt_persistentRequestLock ::
  "nat \<Rightarrow> ruby_config \<Rightarrow> address \<Rightarrow> nat \<Rightarrow> access_type \<Rightarrow> node_persistent_table \<Rightarrow> node_persistent_table option" where
  "npt_persistentRequestLock np c a llocker ty t = do {
     locker \<leftarrow> randomized llocker;
     with_node_map t (pt_lock (bset_ops np) c a locker ty (npt_map t)) }"

definition npt_persistentRequestUnlock ::
  "nat \<Rightarrow> ruby_config \<Rightarrow> address \<Rightarrow> nat \<Rightarrow> node_persistent_table \<Rightarrow> node_persistent_table option" where
  "npt_persistentRequestUnlock np c a uunlocker t = do {
     unlocker \<leftarrow> randomized uunlocker;
     with_node_map t (pt_unlock (bset_ops np) c a unlocker (npt_map t)) }"

definition npt_okToIssueStarving :: "nat \<Rightarrow> ruby_config \<Rightarrow> address \<Rightarrow> node_persistent_table \<Rightarrow> bool option" where
  "npt_okToIssueStarving np c a t = pt_okToIssueStarving (bset_ops np) c (npt_chip_id t) a (npt_map t)"

definition npt_findSmallest :: "ruby_config \<Rightarrow> address \<Rightarrow> node_persistent_table \<Rightarrow> nat option" where
  "npt_findSmallest c a t = do {
     line_check c a;
     check (rmap_exist a (npt_map t));
     e \<leftarrow> rmap_lookup a (npt_map t);
     n \<leftarrow> set_smallestElement (m_starving e);
     randomized n }"

definition npt_typeOfSmallest :: "ruby_config \<Rightarrow> address \<Rightarrow> node_persistent_table \<Rightarrow> access_type option" where
  "npt_typeOfSmallest c a t = do {
     line_check c a;
     check (rmap_exist a (npt_map t));
     e \<leftarrow> rmap_lookup a (npt_map t);
     n \<leftarrow> set_smallestElement (m_starving e);
     w \<leftarrow> set_isElement n (m_request_to_write e);
     Some (if w then AccessType_Write else AccessType_Read) }"

definition npt_markEntries :: "nat \<Rightarrow> ruby_config \<Rightarrow> address \<Rightarrow> node_persistent_table \<Rightarrow> node_persistent_table option" where
  "npt_markEntries np c a t = with_node_map t (pt_markEntries (bset_ops np) c a (npt_map t))"

definition npt_isLocked :: "ruby_config \<Rightarrow> address \<Rightarrow> node_persistent_table \<Rightarrow> bool option" where
  "npt_isLocked c a t = pt_isLocked c a (npt_map t)"

definition npt_countStarvingForAddress :: "nat \<Rightarrow> address \<Rightarrow> node_persistent_table \<Rightarrow> int" where
  "npt_countStarvingForAddress np a t = pt_countStarvingForAddress (bset_ops np) a (npt_map t)"

definition npt_countReadStarvingForAddress :: "nat \<Rightarrow> address \<Rightarrow> node_persistent_table \<Rightarrow> int" where
  "npt_countReadStarvingForAddress np a t = pt_countReadStarvingForAddress (bset_ops np) a (npt_map t)"

subsection \<open>The table as a set of lock requests per line\<close>

definition pt_starving :: "('s \<Rightarrow> 'k set) \<Rightarrow> 's persistent_map \<Rightarrow> address \<Rightarrow> 'k set" where
  "pt_starving elems m a = (case map_of m a of None \<Rightarrow> {} | Some e \<Rightarrow> elems (m_starving e))"

definition pt_marked :: "('s \<Rightarrow> 'k set) \<Rightarrow> 's persistent_map \<Rightarrow> address \<Rightarrow> 'k set" where
  "pt_marked elems m a = (case map_of m a of None \<Rightarrow> {} | Some e \<Rightarrow> elems (m_marked e))"

definition pt_writers :: "('s \<Rightarrow> 'k set) \<Rightarrow> 's persistent_map \<Rightarrow> address \<Rightarrow> 'k set" where
  "pt_writers elems m a = (case map_of m a of None \<Rightarrow> {} | Some e \<Rightarrow> elems (m_request_to_write e))"

definition pt_ok :: "('s \<Rightarrow> bool) \<Rightarrow> ('s \<Rightarrow> 'k set) \<Rightarrow> 's persistent_map \<Rightarrow> bool" where
  "pt_ok ok elems m \<longleftrightarrow> rmap_ok m \<and> (\<forall>e \<in> ran (map_of m). ok (m_starving e) \<and> ok (m_marked e) \<and> ok (m_request_to_write e) \<and>
     elems (m_starving e) \<noteq> {} \<and> elems (m_marked e) \<subseteq> elems (m_starving e) \<and> elems (m_request_to_write e) \<subseteq> elems (m_starving e))"

lemmas pt_view_defs = pt_starving_def pt_marked_def pt_writers_def

datatype 'k persistent_event = Lock_Request 'k access_type | Unlock_Request 'k

primrec pt_event :: "('k, 's) set_ops \<Rightarrow> ruby_config \<Rightarrow> address \<Rightarrow> 'k persistent_event \<Rightarrow> 's persistent_map \<Rightarrow> 's persistent_map option" where
  "pt_event ops c a (Lock_Request k ty) m = pt_lock ops c a k ty m"
| "pt_event ops c a (Unlock_Request k) m = pt_unlock ops c a k m"

primrec requester :: "'k persistent_event \<Rightarrow> 'k" where
  "requester (Lock_Request k ty) = k"
| "requester (Unlock_Request k) = k"

locale starving_sets = element_set inv "\<lambda>_. U" elems "so_add ops" "so_remove ops" "so_isElement ops"
  for inv :: "'s \<Rightarrow> bool" and U :: "'k set" and elems :: "'s \<Rightarrow> 'k set" and ops :: "('k, 's) set_ops" +
  assumes new_ok: "k \<in> U \<Longrightarrow> \<exists>s. so_new ops = Some s \<and> inv s \<and> elems s = {}"
    and isSubset_ok: "inv s \<Longrightarrow> inv t \<Longrightarrow> so_isSubset ops t s = Some (elems s \<subseteq> elems t)"
    and isEmpty_ok: "inv s \<Longrightarrow> so_isEmpty ops s \<longleftrightarrow> elems s = {}"
    and count_ok: "inv s \<Longrightarrow> so_count ops s = card (elems s) \<and> finite (elems s)"
begin

abbreviation starving :: "'s persistent_map \<Rightarrow> address \<Rightarrow> 'k set" where "starving \<equiv> pt_starving elems"
abbreviation marked :: "'s persistent_map \<Rightarrow> address \<Rightarrow> 'k set" where "marked \<equiv> pt_marked elems"
abbreviation writers :: "'s persistent_map \<Rightarrow> address \<Rightarrow> 'k set" where "writers \<equiv> pt_writers elems"
abbreviation table_ok :: "'s persistent_map \<Rightarrow> bool" where "table_ok \<equiv> pt_ok inv elems"

lemma entryD:
  assumes "table_ok m" "map_of m a = Some e"
  shows "inv (m_starving e)" "inv (m_marked e)" "inv (m_request_to_write e)" "elems (m_starving e) \<noteq> {}"
    "elems (m_marked e) \<subseteq> elems (m_starving e)" "elems (m_request_to_write e) \<subseteq> elems (m_starving e)" "rmap_ok m"
  using assms by (auto simp: pt_ok_def ran_def)

lemma table_update:
  assumes "table_ok m" "inv (m_starving e)" "inv (m_marked e)" "inv (m_request_to_write e)" "elems (m_starving e) \<noteq> {}"
    "elems (m_marked e) \<subseteq> elems (m_starving e)" "elems (m_request_to_write e) \<subseteq> elems (m_starving e)"
  shows "table_ok (rmap_add a e m)"
  using assms by (auto simp: pt_ok_def ran_def)

lemma view_update:
  "starving (rmap_add a e m) = (starving m)(a := elems (m_starving e))"
  "marked (rmap_add a e m) = (marked m)(a := elems (m_marked e))"
  "writers (rmap_add a e m) = (writers m)(a := elems (m_request_to_write e))"
  by (auto simp: pt_view_defs fun_eq_iff)

lemma entry_lock_ok:
  assumes "inv (m_starving e)" "inv (m_request_to_write e)" "k \<in> U"
  shows "\<exists>e'. entry_lock ops k ty e = Some e' \<and> inv (m_starving e') \<and> inv (m_request_to_write e') \<and> m_marked e' = m_marked e \<and>
    elems (m_starving e') = insert k (elems (m_starving e)) \<and>
    elems (m_request_to_write e') = (if ty = AccessType_Write then insert k (elems (m_request_to_write e)) else elems (m_request_to_write e))"
proof -
  obtain s where "so_add ops k (m_starving e) = Some s" "inv s" "elems s = insert k (elems (m_starving e))"
    using add_ok [OF assms(1,3)] by blast
  moreover obtain w where "so_add ops k (m_request_to_write e) = Some w" "inv w" "elems w = insert k (elems (m_request_to_write e))"
    using add_ok [OF assms(2,3)] by blast
  ultimately show ?thesis using assms(2) by (simp add: entry_lock_def)
qed

lemma lock_ok:
  assumes m: "table_ok m" and a: "line_aligned c a" and k: "k \<in> U" "k \<notin> starving m a"
  shows "\<exists>m'. pt_lock ops c a k ty m = Some m' \<and> table_ok m' \<and> starving m' = (starving m)(a := insert k (starving m a)) \<and>
    marked m' = marked m \<and> writers m' = (if ty = AccessType_Write then (writers m)(a := insert k (writers m a)) else writers m)"
proof (cases "map_of m a")
  case None
  obtain s where s: "so_new ops = Some s" "inv s" "elems s = {}" using new_ok [OF k(1)] by blast
  let ?e = "\<lparr>m_starving = s, m_marked = s, m_request_to_write = s\<rparr>"
  have new: "entry_new ops = Some ?e" using s by (simp add: entry_new_def)
  obtain e' where e': "entry_lock ops k ty ?e = Some e'" "inv (m_starving e')" "inv (m_request_to_write e')" "m_marked e' = s"
      "elems (m_starving e') = {k}" "elems (m_request_to_write e') = (if ty = AccessType_Write then {k} else {})"
    using entry_lock_ok [of ?e k ty] s k(1) by auto
  have v: "starving m a = {}" "marked m a = {}" "writers m a = {}" using None by (simp_all add: pt_view_defs)
  have "pt_lock ops c a k ty m = Some (rmap_add a e' m)"
    using None a new e'(1) by (simp add: pt_lock_def line_check_eq check_bind)
  moreover have "table_ok (rmap_add a e' m)" using m s e' by (intro table_update) auto
  ultimately show ?thesis using e' s v by (auto simp: view_update fun_eq_iff)
next
  case (Some e)
  note e = entryD [OF m Some]
  have v: "starving m a = elems (m_starving e)" "marked m a = elems (m_marked e)" "writers m a = elems (m_request_to_write e)"
    using Some by (simp_all add: pt_view_defs)
  obtain e' where e': "entry_lock ops k ty e = Some e'" "inv (m_starving e')" "inv (m_request_to_write e')" "m_marked e' = m_marked e"
      "elems (m_starving e') = insert k (elems (m_starving e))"
      "elems (m_request_to_write e') = (if ty = AccessType_Write then insert k (elems (m_request_to_write e)) else elems (m_request_to_write e))"
    using entry_lock_ok [OF e(1,3) k(1)] by metis
  have "pt_lock ops c a k ty m = Some (rmap_add a e' m)"
    using Some a e'(1,4,5) isElement_ok [OF e(1) k(1)] k(2) v isSubset_ok [OF e(2) e'(2)] e(5)
    by (auto simp: pt_lock_def line_check_eq check_bind)
  moreover have "table_ok (rmap_add a e' m)" using m e e' by (intro table_update) (auto split: if_splits)
  ultimately show ?thesis using e' v by (auto simp: view_update fun_eq_iff)
qed

lemma unlock_ok:
  assumes m: "table_ok m" and a: "line_aligned c a" and k: "k \<in> U" "k \<in> starving m a"
  shows "\<exists>m'. pt_unlock ops c a k m = Some m' \<and> table_ok m' \<and> starving m' = (starving m)(a := starving m a - {k}) \<and>
    marked m' = (marked m)(a := marked m a - {k}) \<and> writers m' = (writers m)(a := writers m a - {k})"
proof -
  obtain e where Some: "map_of m a = Some e" using k(2) by (auto simp: pt_view_defs split: option.splits)
  note e = entryD [OF m Some]
  have v: "starving m a = elems (m_starving e)" "marked m a = elems (m_marked e)" "writers m a = elems (m_request_to_write e)"
    using Some by (simp_all add: pt_view_defs)
  obtain st where st: "so_remove ops k (m_starving e) = Some st" "inv st" "elems st = elems (m_starving e) - {k}"
    using remove_ok [OF e(1) k(1)] by blast
  obtain mk where mk: "so_remove ops k (m_marked e) = Some mk" "inv mk" "elems mk = elems (m_marked e) - {k}"
    using remove_ok [OF e(2) k(1)] by blast
  obtain wr where wr: "so_remove ops k (m_request_to_write e) = Some wr" "inv wr" "elems wr = elems (m_request_to_write e) - {k}"
    using remove_ok [OF e(3) k(1)] by blast
  note r = st mk wr
  let ?m = "if elems st = {} then AList.delete a m else rmap_add a \<lparr>m_starving = st, m_marked = mk, m_request_to_write = wr\<rparr> m"
  have q: "so_isElement ops k (m_starving e) = Some True" "so_isSubset ops (m_starving e) (m_marked e) = Some True"
      "so_isSubset ops st mk = Some True" "so_isEmpty ops st \<longleftrightarrow> elems st = {}" "elems st = {} \<Longrightarrow> so_isEmpty ops mk"
    using isElement_ok [OF e(1) k(1)] k(2) v(1) isSubset_ok [OF e(2,1)] isSubset_ok [OF r(5,2)] isEmpty_ok [OF r(2)] isEmpty_ok [OF r(5)]
      e(5) r(3,6) by auto
  have "pt_unlock ops c a k m = Some ?m"
  proof (cases "elems st = {}")
    case True
    then show ?thesis using Some a r(1,4,7) q by (simp add: pt_unlock_def line_check_eq rmap_erase_iff)
  next
    case False
    then show ?thesis using Some a r(1,4,7) q by (simp add: pt_unlock_def line_check_eq)
  qed
  moreover have "table_ok ?m"
  proof (cases "elems st = {}")
    case True
    have "ran ((map_of m)(a := None)) \<subseteq> ran (map_of m)" by (auto simp: ran_def)
    with m True show ?thesis by (auto simp: pt_ok_def)
  next
    case False
    have "table_ok (rmap_add a \<lparr>m_starving = st, m_marked = mk, m_request_to_write = wr\<rparr> m)"
      using r e(5,6) False by (intro table_update [OF m]) auto
    then show ?thesis using False by simp
  qed
  moreover have "starving ?m = (starving m)(a := starving m a - {k}) \<and> marked ?m = (marked m)(a := marked m a - {k}) \<and>
      writers ?m = (writers m)(a := writers m a - {k})"
  proof (cases "elems st = {}")
    case True
    then have "elems mk = {}" "elems wr = {}" using r e(5,6) by auto
    then show ?thesis using True r v by (auto simp: pt_view_defs fun_eq_iff split: option.splits)
  next
    case False
    then show ?thesis using r v by (simp add: view_update)
  qed
  ultimately show ?thesis by blast
qed

lemma mark_ok:
  assumes "table_ok m" "line_aligned c a" "marked m a = {}"
  shows "\<exists>m'. pt_markEntries ops c a m = Some m' \<and> table_ok m' \<and> starving m' = starving m \<and>
    marked m' = (marked m)(a := starving m a) \<and> writers m' = writers m"
proof (cases "map_of m a")
  case None
  then show ?thesis using assms by (auto simp: pt_markEntries_def line_check_eq check_bind pt_view_defs fun_eq_iff)
next
  case (Some e)
  note e = entryD [OF assms(1) Some]
  have v: "starving m a = elems (m_starving e)" "elems (m_marked e) = {}" "writers m a = elems (m_request_to_write e)"
    using Some assms(3) by (simp_all add: pt_view_defs)
  have "pt_markEntries ops c a m = Some (rmap_add a (e\<lparr>m_marked := m_starving e\<rparr>) m)"
    using Some assms(2) isEmpty_ok [OF e(2)] v by (simp add: pt_markEntries_def line_check_eq check_bind)
  moreover have "table_ok (rmap_add a (e\<lparr>m_marked := m_starving e\<rparr>) m)" using e by (intro table_update [OF assms(1)]) auto
  ultimately show ?thesis using v by (auto simp: view_update fun_eq_iff)
qed

lemma queries_ok:
  assumes "table_ok m" "line_aligned c a" "k \<in> U"
  shows "pt_okToIssueStarving ops c k a m = Some (k \<notin> starving m a \<and> marked m a = {})"
    "pt_isLocked c a m = Some (starving m a \<noteq> {})"
    "pt_countStarvingForAddress ops a m = int (card (starving m a))"
    "pt_countReadStarvingForAddress ops a m = int (card (starving m a - writers m a))"
proof -
  show "pt_okToIssueStarving ops c k a m = Some (k \<notin> starving m a \<and> marked m a = {})"
    using assms entryD [OF assms(1)] isElement_ok isEmpty_ok
    by (cases "map_of m a") (auto simp: pt_okToIssueStarving_def line_check_eq check_bind pt_view_defs)
  show "pt_isLocked c a m = Some (starving m a \<noteq> {})"
    using assms entryD(4) [OF assms(1)] by (cases "map_of m a") (auto simp: pt_isLocked_def line_check_eq check_bind pt_view_defs)
  show "pt_countStarvingForAddress ops a m = int (card (starving m a))"
    using entryD(1) [OF assms(1)] count_ok by (cases "map_of m a") (auto simp: pt_countStarvingForAddress_def pt_view_defs)
  show "pt_countReadStarvingForAddress ops a m = int (card (starving m a - writers m a))"
  proof (cases "map_of m a")
    case (Some e)
    note e = entryD [OF assms(1) Some]
    have "card (elems (m_starving e) - elems (m_request_to_write e)) + card (elems (m_request_to_write e)) = card (elems (m_starving e))"
      using count_ok [OF e(1)] count_ok [OF e(3)] e(6) by (metis card_Diff_subset card_mono le_add_diff_inverse2)
    then show ?thesis using Some count_ok [OF e(1)] count_ok [OF e(3)]
      by (auto simp: pt_countReadStarvingForAddress_def pt_view_defs)
  qed (simp add: pt_countReadStarvingForAddress_def pt_view_defs)
qed

text \<open>After a node has marked the requests of a line, it may issue again only when each of them has
  been withdrawn.\<close>

lemma event_marked:
  assumes "table_ok m" "line_aligned c a" "requester ev \<in> U" "pt_event ops c a ev m = Some m'"
  shows "table_ok m' \<and> marked m' a = marked m a - {k. ev = Unlock_Request k}"
proof (cases ev)
  case (Lock_Request k ty)
  have "k \<notin> starving m a"
  proof
    assume "k \<in> starving m a"
    then obtain e where "map_of m a = Some e" "k \<in> elems (m_starving e)" by (auto simp: pt_starving_def split: option.splits)
    then show False using assms Lock_Request entryD(1) isElement_ok by (auto simp: pt_lock_def line_check_eq check_bind)
  qed
  then show ?thesis using lock_ok [OF assms(1,2), of k ty] assms(3,4) Lock_Request by auto
next
  case (Unlock_Request k)
  have "k \<in> starving m a"
  proof (rule ccontr)
    assume "k \<notin> starving m a"
    then show False using assms Unlock_Request entryD(1) isElement_ok
      by (cases "map_of m a") (auto simp: pt_unlock_def line_check_eq check_bind pt_starving_def)
  qed
  then show ?thesis using unlock_ok [OF assms(1,2), of k] assms(3,4) Unlock_Request by auto
qed

lemma events_marked:
  assumes "table_ok m" "line_aligned c a" "\<forall>ev \<in> set evs. requester ev \<in> U" "fold_opt (pt_event ops c a) evs m = Some m'"
  shows "table_ok m' \<and> marked m' a = marked m a - {k. Unlock_Request k \<in> set evs}"
  using assms
proof (induction evs arbitrary: m)
  case (Cons ev evs)
  then obtain m1 where m1: "pt_event ops c a ev m = Some m1" "fold_opt (pt_event ops c a) evs m1 = Some m'"
    by (auto simp: bind_Some_iff)
  from event_marked [OF Cons.prems(1,2) _ m1(1)] Cons.prems(3)
  have "table_ok m1" "marked m1 a = marked m a - {k. ev = Unlock_Request k}" by auto
  with Cons.IH [OF this(1) Cons.prems(2) _ m1(2)] Cons.prems(3) show ?case by auto
qed simp

lemma no_overtaking:
  assumes "table_ok m" "line_aligned c a" "marked m a = {}" "\<forall>ev \<in> set evs. requester ev \<in> U" "k \<in> U"
    and "pt_markEntries ops c a m = Some m1" "fold_opt (pt_event ops c a) evs m1 = Some m2"
  shows "pt_okToIssueStarving ops c k a m2 = Some (k \<notin> starving m2 a \<and> starving m a \<subseteq> {k. Unlock_Request k \<in> set evs})"
proof -
  have m1: "table_ok m1" "marked m1 a = starving m a" using mark_ok [OF assms(1-3)] assms(6) by auto
  from events_marked [OF m1(1) assms(2,4,7)] have "table_ok m2" "marked m2 a = starving m a - {k. Unlock_Request k \<in> set evs}"
    using m1(2) by auto
  then show ?thesis using queries_ok(1) [OF _ assms(2,5), of m2] by auto
qed

end

subsection \<open>Both classes\<close>

interpretation machines: starving_sets "nd_inv mt" "{k \<in> nd_machines mt. machine_types_ok mt}" nd_elems "net_dest_ops mt" for mt
  using nd_add_ok nd_remove_ok nd_isElement_ok nd_new_ok [of mt] nd_isSuperset_ok nd_isEmpty_ok nd_count_ok
  by unfold_locales (simp_all add: net_dest_ops_def nd_isSubset_def)

interpretation nodes: starving_sets "\<lambda>s. bset_inv s \<and> m_nSize s = np" "{..< np}" set_of "bset_ops np" for np
proof unfold_locales
  fix k s
  assume s: "bset_inv s \<and> m_nSize s = np" "k \<in> {..< np}"
  show "\<exists>s'. so_add (bset_ops np) k s = Some s' \<and> (bset_inv s' \<and> m_nSize s' = np) \<and> {..< np} = {..< np} \<and> set_of s' = insert k (set_of s)"
    using set_add_ok [of s k] s by (auto simp: bset_ops_def)
  show "\<exists>s'. so_remove (bset_ops np) k s = Some s' \<and> (bset_inv s' \<and> m_nSize s' = np) \<and> {..< np} = {..< np} \<and> set_of s' = set_of s - {k}"
    using set_remove_ok [of s k] s by (auto simp: bset_ops_def)
  show "so_isElement (bset_ops np) k s = Some (k \<in> set_of s)"
    using set_isElement_ok [of s k] s by (simp add: bset_ops_def)
qed (simp_all add: bset_ops_def set_new_default_def set_setSize_ok set_isSubset_def set_isSuperset_ok set_isEmpty_ok set_count_ok)

text \<open>The first of the starving machines: \<^verbatim>\<open>smallestElement\<close> of a set of machines of a single type.\<close>

lemma nd_smallest_one_type:
  assumes n: "nd_inv mt n" and ne: "nd_elems n \<noteq> {}" and ty: "\<forall>x \<in> nd_elems n. mach_type x = ty"
  shows "nd_smallestElement n = Some (Min (mach_num ` nd_elems n))"
proof -
  have inv: "bset_inv (n ! i)" if "i < length n" for i using n that by (simp add: nd_inv_def)
  have empty: "set_of (n ! i) = {}" if "i < length n" "i \<noteq> ty" for i
  proof (rule ccontr)
    assume "set_of (n ! i) \<noteq> {}"
    then obtain k where "k \<in> set_of (n ! i)" by blast
    then have "\<lparr>mach_type = i, mach_num = k\<rparr> \<in> nd_elems n" using that(1) by (simp add: nd_elems_def)
    then show False using ty that(2) by fastforce
  qed
  obtain x where x: "x \<in> nd_elems n" using ne by blast
  then have "mach_type x < length n" by (simp add: nd_elems_def)
  with x ty have ty_len: "ty < length n" by metis
  have el: "mach_num ` nd_elems n = set_of (n ! ty)"
  proof -
    have "mach_num ` nd_elems n = (\<Union>i < length n. set_of (n ! i))" unfolding nd_elems_union by (simp add: image_UN image_image)
    also have "\<dots> = set_of (n ! ty)" using empty ty_len by fastforce
    finally show ?thesis .
  qed
  have mem: "set_members (n ! i) = []" if "i < length n" "i \<noteq> ty" for i
    using set_members_ok(1) [OF inv [OF that(1)]] empty [OF that] by simp
  have "n = take ty n @ n ! ty # drop (Suc ty) n" using ty_len by (simp add: id_take_nth_drop)
  moreover have "concat (map set_members (take ty n)) = []" "concat (map set_members (drop (Suc ty) n)) = []"
    using mem by (auto simp: in_set_conv_nth)
  ultimately have c: "concat (map set_members n) = set_members (n ! ty)"
    by (metis append.left_neutral append.right_neutral concat.simps(2) concat_append list.simps(9) map_append)
  obtain j js where j: "set_members (n ! ty) = j # js"
    using ne el set_members_ok(1) [OF inv [OF ty_len]] by (cases "set_members (n ! ty)") auto
  have js: "set_of (n ! ty) = insert j (set js)" "\<forall>x \<in> set js. j < x"
    using set_members_ok [OF inv [OF ty_len]] j by auto
  then have "j = Min (set_of (n ! ty))" unfolding js(1) by (intro Min_eqI [symmetric]) (auto intro: less_imp_le)
  moreover have "0 < nd_count n" using nd_count_ok [of n] ne by (simp add: card_gt_0_iff)
  ultimately show ?thesis using c j el by (simp add: nd_smallestElement_def check_bind)
qed



text \<open>C35. A node that marks the requests for a line (as it does when its own request completes) may not issue another
  one before every request marked has been withdrawn: after any sequence of locks and unlocks that
  follows, \<^verbatim>\<open>okToIssueStarving\<close> holds exactly if the node itself does not starve and each machine that
  was starving at the marking has unlocked since.\<close>

theorem persistent_no_overtaking:
  assumes "pt_ok (nd_inv mt) nd_elems (pt_map t)" "machine_types_ok mt" "line_aligned c a" "pt_marked nd_elems (pt_map t) a = {}"
    and "\<forall>ev \<in> set evs. requester ev \<in> nd_machines mt" "\<lparr>mach_type = L1, mach_num = pt_version t\<rparr> \<in> nd_machines mt"
    and "markEntries mt c a t = Some t1" "fold_opt (pt_event (net_dest_ops mt) c a) evs (pt_map t1) = Some m2"
  shows "okToIssueStarving mt L1 c a (t1\<lparr>pt_map := m2\<rparr>) =
    Some (\<lparr>mach_type = L1, mach_num = pt_version t\<rparr> \<notin> pt_starving nd_elems m2 a \<and>
      (\<forall>k \<in> pt_starving nd_elems (pt_map t) a. Unlock_Request k \<in> set evs))"
proof -
  obtain m1 where m1: "pt_markEntries (net_dest_ops mt) c a (pt_map t) = Some m1" "t1 = t\<lparr>pt_map := m1\<rparr>"
    using assms(7) by (auto simp: markEntries_def)
  have U: "\<lparr>mach_type = L1, mach_num = pt_version t\<rparr> \<in> {k \<in> nd_machines mt. machine_types_ok mt}" using assms by simp
  have ev: "\<forall>ev \<in> set evs. requester ev \<in> {k \<in> nd_machines mt. machine_types_ok mt}" using assms by simp
  have f: "fold_opt (pt_event (net_dest_ops mt) c a) evs m1 = Some m2" using assms(8) m1(2) by simp
  from machines.no_overtaking [OF assms(1,3,4) ev U m1(1) f] m1(2) show ?thesis
    by (simp add: okToIssueStarving_def subset_iff Ball_def)
qed

definition persistent_example :: "ruby_config \<Rightarrow> persistent_table option" where
  "persistent_example c = persistentRequestLock sample_machines c 64 \<lparr>mach_type = 1, mach_num = 3\<rparr> AccessType_Read (persistent_table_new 0)"

theorem persistent_no_overtaking_witness:
  "\<exists>c t t1. config_init True sample_config = Some c \<and> persistent_example c = Some t \<and> markEntries sample_machines c 64 t = Some t1 \<and>
    okToIssueStarving sample_machines 1 c 64 (t1\<lparr>pt_map := pt_map t1\<rparr>) = Some False"
proof -
  obtain c where c: "config_init True sample_config = Some c" "g_DATA_BLOCK_BITS c = 6" using sample_config_init by blast
  then have a: "line_aligned c 64" by (simp add: line_aligned_iff)
  let ?k = "\<lparr>mach_type = 1, mach_num = 3\<rparr> :: machine_id"
  have k: "?k \<in> {k \<in> nd_machines sample_machines. machine_types_ok sample_machines}"
    "\<lparr>mach_type = 1, mach_num = 0\<rparr> \<in> nd_machines sample_machines"
    using sample_machines_ok by (simp_all add: nd_machines_def sample_machines_def)
  have n: "pt_ok (nd_inv sample_machines) nd_elems []" "?k \<notin> pt_starving nd_elems [] 64" "pt_marked nd_elems [] 64 = {}"
    by (simp_all add: pt_ok_def rmap_ok_def pt_view_defs)
  obtain m where m: "pt_lock (net_dest_ops sample_machines) c 64 ?k AccessType_Read [] = Some m"
      "pt_ok (nd_inv sample_machines) nd_elems m" "?k \<in> pt_starving nd_elems m 64" "pt_marked nd_elems m 64 = {}"
    using machines.lock_ok [OF n(1) a k(1) n(2), of AccessType_Read] n(3) by auto
  let ?t = "\<lparr>pt_map = m, pt_version = 0\<rparr>"
  obtain m1 where m1: "pt_markEntries (net_dest_ops sample_machines) c 64 m = Some m1"
    using machines.mark_ok [OF m(2) a m(4)] by blast
  have t1: "markEntries sample_machines c 64 ?t = Some (?t\<lparr>pt_map := m1\<rparr>)" using m1 by (simp add: markEntries_def)
  have "okToIssueStarving sample_machines 1 c 64 (?t\<lparr>pt_map := m1, pt_map := m1\<rparr>) = Some False"
    using persistent_no_overtaking [OF _ sample_machines_ok a _ _ _ t1, of "[]" 1 m1] m k(2) by auto
  then show ?thesis using c(1) m(1) t1 by (auto simp: persistent_example_def persistentRequestLock_def persistent_table_new_def)
qed

end
