(* ===== verification/Persistent_Arbiter.thy ===== *)
theory Persistent_Arbiter
  imports Persistent_Requests
begin

text \<open>
  The arbiter of the hierarchical persistent request scheme: \<^verbatim>\<open>system/PersistentArbiter.C\<close>. One entry per
  processor, a current locker, and a round-robin step to the next one. The fields of an entry that the
  constructor leaves uninitialised come from the argument \<open>garbage\<close>; an index outside the vector aborts.
\<close>

record arbiter_entry =
  ae_valid :: bool
  ae_address :: address
  ae_type :: access_type
  ae_localId :: nat

record persistent_arbiter =
  pa_issued_address :: address
  pa_chip_id :: nat
  pa_locker :: int
  pa_busy :: bool
  pa_entries :: "arbiter_entry list"

definition persistent_arbiter_new :: "arbiter_entry \<Rightarrow> nat \<Rightarrow> nat \<Rightarrow> persistent_arbiter" where
  "persistent_arbiter_new garbage numberOfProcessors chip_id =
     \<lparr>pa_issued_address = 0, pa_chip_id = chip_id, pa_locker = -1, pa_busy = False,
      pa_entries = map (\<lambda>e. e\<lparr>ae_valid := False\<rparr>) (replicate numberOfProcessors garbage)\<rparr>"

definition addLocker :: "nat \<Rightarrow> address \<Rightarrow> access_type \<Rightarrow> persistent_arbiter \<Rightarrow> persistent_arbiter option" where
  "addLocker ident addr ty p = do {
     check (ident < length (pa_entries p));
     check (\<not> ae_valid (pa_entries p ! ident));
     Some (p\<lparr>pa_entries := (pa_entries p)[ident := \<lparr>ae_valid = True, ae_address = addr, ae_type = ty, ae_localId = ident\<rparr>]\<rparr>) }"

definition lockersExist :: "persistent_arbiter \<Rightarrow> bool" where
  "lockersExist p = list_ex ae_valid (pa_entries p)"

definition removeLocker :: "nat \<Rightarrow> persistent_arbiter \<Rightarrow> persistent_arbiter option" where
  "removeLocker ident p = do {
     check (ident < length (pa_entries p));
     check (ae_valid (pa_entries p ! ident));
     let p1 = p\<lparr>pa_entries := (pa_entries p)[ident := (pa_entries p ! ident)\<lparr>ae_valid := False\<rparr>]\<rparr>;
     Some (if lockersExist p1 then p1 else p1\<lparr>pa_busy := False\<rparr>) }"

definition successorRequestPresent :: "address \<Rightarrow> nat \<Rightarrow> persistent_arbiter \<Rightarrow> bool" where
  "successorRequestPresent addr ident p = list_ex (\<lambda>e. ae_address e = addr \<and> ae_valid e) (drop (ident + 1) (pa_entries p))"

definition first_valid :: "persistent_arbiter \<Rightarrow> nat \<Rightarrow> nat option" where
  "first_valid p i = List.find (\<lambda>j. ae_valid (pa_entries p ! j)) [i..<length (pa_entries p)]"

definition advanceActiveLock :: "persistent_arbiter \<Rightarrow> persistent_arbiter option" where
  "advanceActiveLock p = do {
     check (lockersExist p);
     let p1 = p\<lparr>pa_busy := False\<rparr>;
     case (if pa_locker p1 < int (length (pa_entries p1)) - 1 then first_valid p1 (nat (pa_locker p1 + 1)) else None) of
       Some i \<Rightarrow> Some (p1\<lparr>pa_locker := int i, pa_busy := True\<rparr>)
     | None \<Rightarrow> (case first_valid p1 0 of
         Some i \<Rightarrow> Some (p1\<lparr>pa_locker := int i, pa_busy := True\<rparr>)
       | None \<Rightarrow> None) }"

text \<open>The assertions of the next two functions are assignments: \<^verbatim>\<open>assert(m_entries[m_locker].valid = true)\<close>.\<close>

definition set_active_valid :: "persistent_arbiter \<Rightarrow> (arbiter_entry \<times> persistent_arbiter) option" where
  "set_active_valid p = do {
     check (0 \<le> pa_locker p \<and> pa_locker p < int (length (pa_entries p)));
     let e = (pa_entries p ! nat (pa_locker p))\<lparr>ae_valid := True\<rparr>;
     Some (e, p\<lparr>pa_entries := (pa_entries p)[nat (pa_locker p) := e]\<rparr>) }"

definition getActiveLockAddress :: "persistent_arbiter \<Rightarrow> (address \<times> persistent_arbiter) option" where
  "getActiveLockAddress p = do { (e, p') \<leftarrow> set_active_valid p; Some (ae_address e, p') }"

definition getActiveLocalId :: "persistent_arbiter \<Rightarrow> (nat \<times> persistent_arbiter) option" where
  "getActiveLocalId p = do { (e, p') \<leftarrow> set_active_valid p; Some (ae_localId e, p') }"

definition getArbiterId :: "ruby_config \<Rightarrow> persistent_arbiter \<Rightarrow> nat" where
  "getArbiterId c p = pa_chip_id p * g_PROCS_PER_CHIP c"

definition isBusy :: "persistent_arbiter \<Rightarrow> bool" where
  "isBusy p = pa_busy p"

definition setIssuedAddress :: "address \<Rightarrow> persistent_arbiter \<Rightarrow> persistent_arbiter" where
  "setIssuedAddress addr p = p\<lparr>pa_issued_address := addr\<rparr>"

definition isIssuedAddress :: "address \<Rightarrow> persistent_arbiter \<Rightarrow> bool" where
  "isIssuedAddress addr p \<longleftrightarrow> pa_issued_address p = addr"

subsection \<open>Round robin\<close>

text \<open>The number of entries that the search passes before it reaches entry \<open>i\<close>.\<close>

definition turn_distance :: "persistent_arbiter \<Rightarrow> nat \<Rightarrow> int" where
  "turn_distance p i = (int i - pa_locker p - 1) mod int (length (pa_entries p))"

definition waiting :: "persistent_arbiter \<Rightarrow> nat \<Rightarrow> bool" where
  "waiting p i \<longleftrightarrow> i < length (pa_entries p) \<and> ae_valid (pa_entries p ! i)"

definition arbiter_ok :: "persistent_arbiter \<Rightarrow> bool" where
  "arbiter_ok p \<longleftrightarrow> -1 \<le> pa_locker p \<and> pa_locker p < int (length (pa_entries p)) \<and> (pa_busy p \<longrightarrow> lockersExist p)"

lemma lockersExist_iff: "lockersExist p \<longleftrightarrow> (\<exists>i. waiting p i)"
  by (simp add: lockersExist_def waiting_def list_ex_length)

lemma first_valid_Some:
  assumes "first_valid p i = Some j"
  shows "waiting p j \<and> i \<le> j \<and> (\<forall>k. waiting p k \<and> i \<le> k \<longrightarrow> j \<le> k)"
proof -
  obtain d where d: "d < length (pa_entries p) - i" "ae_valid (pa_entries p ! (i + d))" "j = i + d"
      "\<forall>e < d. \<not> ae_valid (pa_entries p ! (i + e))"
    using assms by (auto simp: first_valid_def find_Some_iff)
  have "j \<le> k" if "waiting p k" "i \<le> k" for k
  proof (rule ccontr)
    assume "\<not> j \<le> k"
    with d(3) that(2) have "k - i < d" "i + (k - i) = k" by auto
    with d(4) that(1) show False by (metis waiting_def)
  qed
  with d(1-3) show ?thesis by (simp add: waiting_def)
qed

lemma first_valid_None: "first_valid p i = None \<longleftrightarrow> (\<forall>k. waiting p k \<longrightarrow> k < i)"
  by (simp add: first_valid_def find_None_iff waiting_def) (meson not_le)

lemma turn_distance_cases:
  assumes "arbiter_ok p" "waiting p i"
  shows "turn_distance p i = (if pa_locker p < int i then int i - pa_locker p - 1 else int i - pa_locker p - 1 + int (length (pa_entries p)))"
proof (cases "pa_locker p < int i")
  case True
  then show ?thesis using assms by (auto simp: turn_distance_def arbiter_ok_def waiting_def intro: mod_pos_pos_trivial)
next
  case False
  let ?n = "int (length (pa_entries p))"
  have "(int i - pa_locker p - 1) mod ?n = (int i - pa_locker p - 1 + ?n) mod ?n" by simp
  also have "\<dots> = int i - pa_locker p - 1 + ?n" using False assms by (intro mod_pos_pos_trivial) (auto simp: arbiter_ok_def waiting_def)
  finally show ?thesis using False by (simp add: turn_distance_def)
qed

lemma turn_distance_range: "waiting p i \<Longrightarrow> 0 \<le> turn_distance p i \<and> turn_distance p i < int (length (pa_entries p))"
  unfolding turn_distance_def waiting_def by (intro conjI pos_mod_sign pos_mod_bound) auto

lemma advance_nearest:
  assumes ok: "arbiter_ok p" and w: "waiting p i"
  shows "\<exists>l. advanceActiveLock p = Some (p\<lparr>pa_locker := int l, pa_busy := True\<rparr>) \<and> waiting p l \<and>
    (\<forall>k. waiting p k \<longrightarrow> turn_distance p l \<le> turn_distance p k)"
proof -
  let ?p = "p\<lparr>pa_busy := False\<rparr>" and ?n = "int (length (pa_entries p))"
  have v: "waiting ?p = waiting p" by (simp add: waiting_def fun_eq_iff)
  have ex: "lockersExist p" using w by (auto simp: lockersExist_iff)
  define f where "f = (if pa_locker p < ?n - 1 then first_valid ?p (nat (pa_locker p + 1)) else None)"
  have adv: "advanceActiveLock p = (case f of Some i \<Rightarrow> Some (p\<lparr>pa_locker := int i, pa_busy := True\<rparr>)
      | None \<Rightarrow> map_option (\<lambda>i. p\<lparr>pa_locker := int i, pa_busy := True\<rparr>) (first_valid ?p 0))"
    using ex by (simp add: advanceActiveLock_def check_bind f_def Let_def map_option_case cong: option.case_cong)
  have range: "-1 \<le> pa_locker p" "pa_locker p < ?n" using ok by (simp_all add: arbiter_ok_def)
  show ?thesis
  proof (cases f)
    case (Some l)
    then have "first_valid ?p (nat (pa_locker p + 1)) = Some l" by (auto simp: f_def split: if_splits)
    from first_valid_Some [OF this] have l: "waiting p l" "pa_locker p < int l" "\<forall>k. waiting p k \<and> pa_locker p < int k \<longrightarrow> l \<le> k"
      using range v by auto
    have "advanceActiveLock p = Some (p\<lparr>pa_locker := int l, pa_busy := True\<rparr>)"
      using Some adv by simp
    moreover have "turn_distance p l \<le> turn_distance p k" if "waiting p k" for k
      using turn_distance_cases [OF ok l(1)] turn_distance_cases [OF ok that] l that range by (auto simp: waiting_def)
    ultimately show ?thesis using l(1) by blast
  next
    case None
    have none: "int k \<le> pa_locker p" if "waiting p k" for k
    proof (cases "pa_locker p < ?n - 1")
      case True
      then have "first_valid ?p (nat (pa_locker p + 1)) = None" using None by (simp add: f_def)
      then show ?thesis using that range v by (auto simp: first_valid_None)
    qed (use that range in \<open>auto simp: waiting_def\<close>)
    have "first_valid ?p 0 \<noteq> None" using w v by (auto simp: first_valid_None)
    then obtain l where l0: "first_valid ?p 0 = Some l" by blast
    from first_valid_Some [OF this] v have l: "waiting p l" "\<forall>k. waiting p k \<longrightarrow> l \<le> k" by auto
    have "advanceActiveLock p = Some (p\<lparr>pa_locker := int l, pa_busy := True\<rparr>)"
      using None l0 adv by simp
    moreover have "turn_distance p l \<le> turn_distance p k" if "waiting p k" for k
      using turn_distance_cases [OF ok l(1)] turn_distance_cases [OF ok that] l that none by force
    ultimately show ?thesis using l(1) by blast
  qed
qed

lemma advance_closer:
  assumes ok: "arbiter_ok p" and "waiting p i" "waiting p l" "turn_distance p l \<le> turn_distance p i" "l \<noteq> i"
  shows "turn_distance (p\<lparr>pa_locker := int l, pa_busy := b\<rparr>) i < turn_distance p i"
proof -
  let ?n = "int (length (pa_entries p))" and ?d = "turn_distance p i - turn_distance p l - 1"
  note c = turn_distance_cases [OF ok assms(2)] turn_distance_cases [OF ok assms(3)]
  have "turn_distance p l \<noteq> turn_distance p i" using c assms(2,3,5) by (auto simp: waiting_def split: if_splits)
  then have d: "0 \<le> ?d" "?d < turn_distance p i" "turn_distance p i < ?n"
    using assms(4) c ok assms(2) by (auto simp: turn_distance_def arbiter_ok_def waiting_def)
  have "turn_distance (p\<lparr>pa_locker := int l, pa_busy := b\<rparr>) i = ?d mod ?n"
  proof -
    have "(x mod ?n - y mod ?n - 1) mod ?n = (x - y - 1) mod ?n" for x y :: int
      by (metis mod_diff_eq mod_diff_left_eq)
    then show ?thesis by (simp add: turn_distance_def)
  qed
  also have "\<dots> = ?d" using d by (intro mod_pos_pos_trivial) auto
  finally show ?thesis using d by simp
qed


subsection \<open>Runs of the arbiter\<close>

datatype arbiter_op = Add_Locker nat address access_type | Remove_Locker nat | Advance_Lock | Set_Issued address
  | Read_Lock_Address | Read_Local_Id

primrec arbiter_step :: "arbiter_op \<Rightarrow> persistent_arbiter \<Rightarrow> persistent_arbiter option" where
  "arbiter_step (Add_Locker i a ty) p = addLocker i a ty p"
| "arbiter_step (Remove_Locker i) p = removeLocker i p"
| "arbiter_step Advance_Lock p = advanceActiveLock p"
| "arbiter_step (Set_Issued a) p = Some (setIssuedAddress a p)"
| "arbiter_step Read_Lock_Address p = map_option snd (getActiveLockAddress p)"
| "arbiter_step Read_Local_Id p = map_option snd (getActiveLocalId p)"

lemma lockers_update: "i < length es \<Longrightarrow> ae_valid e \<Longrightarrow> list_ex ae_valid (es[i := e])"
  by (auto simp: list_ex_length intro: exI [of _ i])

lemma step_frame:
  assumes "arbiter_step x p = Some p'" "x \<noteq> Advance_Lock" "arbiter_ok p"
  shows "arbiter_ok p' \<and> pa_locker p' = pa_locker p \<and> length (pa_entries p') = length (pa_entries p) \<and>
    (waiting p i \<and> x \<noteq> Remove_Locker i \<longrightarrow> waiting p' i)"
  using assms
  by (cases x) (auto simp: addLocker_def removeLocker_def setIssuedAddress_def getActiveLockAddress_def getActiveLocalId_def
      set_active_valid_def bind_Some_iff arbiter_ok_def lockersExist_def waiting_def nth_list_update lockers_update Let_def split: if_splits)

lemma advance_ok:
  assumes "advanceActiveLock p = Some p'" "arbiter_ok p"
  shows "arbiter_ok p' \<and> pa_entries p' = pa_entries p"
proof -
  obtain i where "waiting p i" using assms(1) by (auto simp: advanceActiveLock_def bind_Some_iff lockersExist_iff)
  from advance_nearest [OF assms(2) this] assms(1) show ?thesis
    by (auto simp: arbiter_ok_def waiting_def lockersExist_def list_ex_length)
qed

lemma bounded_wait:
  assumes "fold_opt arbiter_step xs p = Some p'" "arbiter_ok p" "waiting p i" "Remove_Locker i \<notin> set xs"
    and "turn_distance p i < int (count_list xs Advance_Lock)"
  shows "\<exists>k < length xs. \<exists>q. xs ! k = Advance_Lock \<and> fold_opt arbiter_step (take (Suc k) xs) p = Some q \<and> pa_locker q = int i"
  using assms
proof (induction xs arbitrary: p)
  case Nil
  then have "turn_distance p i < 0" by simp
  then show ?case using turn_distance_range [OF Nil(3)] by simp
next
  case (Cons x xs)
  obtain p1 where p1: "arbiter_step x p = Some p1" "fold_opt arbiter_step xs p1 = Some p'"
    using Cons.prems(1) by (auto simp: bind_Some_iff)
  have later: ?case if "\<exists>k < length xs. \<exists>q. xs ! k = Advance_Lock \<and> fold_opt arbiter_step (take (Suc k) xs) p1 = Some q \<and> pa_locker q = int i"
  proof -
    from that obtain k q where "k < length xs" "xs ! k = Advance_Lock" "fold_opt arbiter_step (take (Suc k) xs) p1 = Some q" "pa_locker q = int i" by blast
    then show ?thesis using p1(1) by (intro exI [of _ "Suc k"]) auto
  qed
  show ?case
  proof (cases "x = Advance_Lock")
    case False
    from step_frame [OF p1(1) False Cons.prems(2), of i] Cons.prems(3,4)
    have f: "arbiter_ok p1" "pa_locker p1 = pa_locker p" "length (pa_entries p1) = length (pa_entries p)" "waiting p1 i" by auto
    then have "turn_distance p1 i < int (count_list xs Advance_Lock)" using Cons.prems(5) False by (simp add: turn_distance_def)
    with f Cons.IH [OF p1(2)] Cons.prems(4) show ?thesis by (intro later) simp
  next
    case True
    from advance_nearest [OF Cons.prems(2,3)] obtain l where l: "advanceActiveLock p = Some (p\<lparr>pa_locker := int l, pa_busy := True\<rparr>)"
        "waiting p l" "\<forall>k. waiting p k \<longrightarrow> turn_distance p l \<le> turn_distance p k" by blast
    then have p1': "p1 = p\<lparr>pa_locker := int l, pa_busy := True\<rparr>" using p1(1) True by simp
    show ?thesis
    proof (cases "l = i")
      case True
      then show ?thesis using p1' p1(1) \<open>x = Advance_Lock\<close> by (intro exI [of _ 0]) auto
    next
      case False
      have "turn_distance p1 i < turn_distance p i"
        unfolding p1' using advance_closer [OF Cons.prems(2,3) l(2) _ False] l(3) Cons.prems(3) by blast
      then have "turn_distance p1 i < int (count_list xs Advance_Lock)" using Cons.prems(5) True by simp
      moreover have "arbiter_ok p1" using advance_ok [OF _ Cons.prems(2)] p1(1) True by simp
      moreover have "waiting p1 i" using Cons.prems(3) by (simp add: p1' waiting_def)
      ultimately show ?thesis using Cons.IH [OF p1(2)] Cons.prems(4) by (intro later) simp
    qed
  qed
qed

text \<open>C11. The arbiter serves in round-robin order with a bounded wait: in any run of its operations, whatever lockers
  come and go meanwhile, a locker that is not removed becomes the active one at the latest when the lock
  has been advanced as many times as there are processors; and every advance makes a waiting locker
  active.\<close>

theorem arbiter_bounded_wait:
  assumes "arbiter_ok p" "waiting p i" "fold_opt arbiter_step xs p = Some p'" "Remove_Locker i \<notin> set xs"
  shows "(length (pa_entries p) \<le> count_list xs Advance_Lock \<longrightarrow>
      (\<exists>k < length xs. \<exists>q. xs ! k = Advance_Lock \<and> fold_opt arbiter_step (take (Suc k) xs) p = Some q \<and> pa_locker q = int i)) \<and>
    (\<exists>q l. advanceActiveLock p = Some q \<and> waiting q l \<and> pa_locker q = int l \<and> isBusy q)"
proof
  have "turn_distance p i < int (length (pa_entries p))" using turn_distance_range [OF assms(2)] by simp
  then show "length (pa_entries p) \<le> count_list xs Advance_Lock \<longrightarrow>
      (\<exists>k < length xs. \<exists>q. xs ! k = Advance_Lock \<and> fold_opt arbiter_step (take (Suc k) xs) p = Some q \<and> pa_locker q = int i)"
    by (intro impI bounded_wait [OF assms(3,1,2,4)]) simp
  show "\<exists>q l. advanceActiveLock p = Some q \<and> waiting q l \<and> pa_locker q = int l \<and> isBusy q"
    using advance_nearest [OF assms(1,2)] by (auto simp: waiting_def isBusy_def)
qed

definition sample_arbiter :: persistent_arbiter where
  "sample_arbiter = the (addLocker 2 128 AccessType_Write (the (addLocker 0 64 AccessType_Read
     (persistent_arbiter_new \<lparr>ae_valid = False, ae_address = 0, ae_type = AccessType_Read, ae_localId = 0\<rparr> 3 0))))"

theorem arbiter_bounded_wait_witness:
  "\<exists>k < 3. \<exists>q. fold_opt arbiter_step (take (Suc k) [Advance_Lock, Advance_Lock, Advance_Lock]) sample_arbiter = Some q \<and> pa_locker q = 2"
proof -
  have f: "arbiter_ok sample_arbiter" "waiting sample_arbiter 2" "length (pa_entries sample_arbiter) = 3" by code_simp+
  have "fold_opt arbiter_step [Advance_Lock, Advance_Lock, Advance_Lock] sample_arbiter \<noteq> None" by code_simp
  then obtain p' where "fold_opt arbiter_step [Advance_Lock, Advance_Lock, Advance_Lock] sample_arbiter = Some p'" by blast
  from conjunct1 [OF arbiter_bounded_wait [OF f(1,2) this]] f(3) show ?thesis by (simp add: numeral_3_eq_3) blast
qed

text \<open>C40. The assertions of \<^verbatim>\<open>getActiveLockAddress\<close> and \<^verbatim>\<open>getActiveLocalId\<close> assign instead of compare: called when the active
  locker has been removed they do not fail but make its entry valid again, so the arbiter believes that
  a locker exists and the next request of that processor aborts.\<close>

theorem arbiter_query_revives_locker:
  assumes "pa_locker p = int i" "removeLocker i p = Some p1"
  shows "\<exists>a p2. getActiveLockAddress p1 = Some (a, p2) \<and> lockersExist p2 \<and> waiting p2 i \<and> addLocker i addr ty p2 = None \<and>
    (\<exists>j p3. getActiveLocalId p1 = Some (j, p3) \<and> lockersExist p3 \<and> addLocker i addr ty p3 = None)"
  using assms
  by (auto simp: removeLocker_def getActiveLockAddress_def getActiveLocalId_def set_active_valid_def addLocker_def lockersExist_def
      waiting_def bind_Some_iff lockers_update Let_def check_bind split: if_splits)

theorem arbiter_query_revives_locker_witness:
  "\<exists>p1 a p2. (advanceActiveLock sample_arbiter \<bind> removeLocker 0) = Some p1 \<and> getActiveLockAddress p1 = Some (a, p2) \<and>
    addLocker 0 64 AccessType_Read p2 = None"
proof -
  have "(advanceActiveLock sample_arbiter \<bind> removeLocker 0) \<noteq> None" by code_simp
  then obtain p p1 where p: "advanceActiveLock sample_arbiter = Some p" "removeLocker 0 p = Some p1" by (auto simp: bind_eq_None_conv)
  moreover have "map_option pa_locker (advanceActiveLock sample_arbiter) = Some (int 0)" by code_simp
  ultimately show ?thesis using arbiter_query_revives_locker [of p 0 p1 64 AccessType_Read] by auto
qed

end
