(* ===== verification/Bloom_Filters.thy ===== *)
theory Bloom_Filters
  imports Ruby_Address Std_String
begin

text \<open>
  The address signatures of transactional memory: \<^verbatim>\<open>system/GenericBloomFilter.C\<close> and the seven filters it
  selects by a configuration string. A filter is a record with the array of cells and the parameters
  its constructor derives; an index outside the array fails the assertion of \<^verbatim>\<open>Vector\<close>. The locale
  \<open>signature\<close> states what a transaction relies on, that an address that was added is reported.
\<close>

unbundle bit_operations_syntax

record bit_filter =
  m_filter :: "int list"
  m_filter_size :: nat
  m_filter_size_bits :: nat

text \<open>The conversion of an address field to \<^verbatim>\<open>int\<close>.\<close>

definition to_int :: "64 word \<Rightarrow> int" where
  "to_int w = sint (ucast w :: 32 word)"

definition bf_get :: "int \<Rightarrow> 'x bit_filter_scheme \<Rightarrow> int option" where
  "bf_get i f = do { check (0 \<le> i \<and> i < int (length (m_filter f))); Some (m_filter f ! nat i) }"

definition bf_put :: "int \<Rightarrow> int \<Rightarrow> 'x bit_filter_scheme \<Rightarrow> 'x bit_filter_scheme option" where
  "bf_put i v f = do { check (0 \<le> i \<and> i < int (length (m_filter f))); Some (f\<lparr>m_filter := (m_filter f)[nat i := v]\<rparr>) }"

definition bf_clear :: "'x bit_filter_scheme \<Rightarrow> 'x bit_filter_scheme" where
  "bf_clear f = f\<lparr>m_filter := replicate (m_filter_size f) 0\<rparr>"

definition bf_sum :: "'x bit_filter_scheme \<Rightarrow> int" where
  "bf_sum f = sum_list (take (m_filter_size f) (m_filter f))"

definition bf_nonzero :: "'x bit_filter_scheme \<Rightarrow> int" where
  "bf_nonzero f = int (length (filter (\<lambda>v. v \<noteq> 0) (take (m_filter_size f) (m_filter f))))"

definition bf_merge :: "'x bit_filter_scheme \<Rightarrow> 'x bit_filter_scheme \<Rightarrow> 'x bit_filter_scheme option" where
  "bf_merge temp f = do {
     check (m_filter_size f \<le> length (m_filter temp));
     Some (f\<lparr>m_filter := map2 (OR) (m_filter f) (take (m_filter_size f) (m_filter temp))\<rparr>) }"

text \<open>\<^verbatim>\<open>log_int\<close> of an \<^verbatim>\<open>int\<close> and the size it checks.\<close>

definition filter_size :: "int \<Rightarrow> (nat \<times> nat) option" where
  "filter_size n = do { check (0 < n); b \<leftarrow> log_int (nat n); Some (nat n, b) }"

definition block_bits :: "ruby_config \<Rightarrow> int" where
  "block_bits c = int (g_DATA_BLOCK_BITS c)"

subsection \<open>\<^verbatim>\<open>LSB_CountingBloomFilter\<close>\<close>

record lsb_filter = bit_filter +
  lsb_count :: int
  lsb_count_bits :: nat

definition lsb_new :: "string \<Rightarrow> lsb_filter option" where
  "lsb_new str = do {
     let (head, tail) = string_split CHR '':'' str;
     n \<leftarrow> atoi head;
     (size, bits) \<leftarrow> filter_size n;
     cnt \<leftarrow> atoi tail;
     (_, cbits) \<leftarrow> filter_size cnt;
     Some \<lparr>m_filter = replicate size 0, m_filter_size = size, m_filter_size_bits = bits, lsb_count = cnt, lsb_count_bits = cbits\<rparr> }"

definition lsb_get_index :: "ruby_config \<Rightarrow> address \<Rightarrow> lsb_filter \<Rightarrow> int option" where
  "lsb_get_index c a f = do {
     w \<leftarrow> bitSelect (block_bits c) (block_bits c + int (m_filter_size_bits f) - 1) a;
     Some (to_int w) }"

text \<open>The condition of \<^verbatim>\<open>increment\<close> ends in a semicolon: the cell is incremented whatever its value.\<close>

definition lsb_increment :: "ruby_config \<Rightarrow> address \<Rightarrow> lsb_filter \<Rightarrow> lsb_filter option" where
  "lsb_increment c a f = do {
     i \<leftarrow> lsb_get_index c a f;
     v \<leftarrow> bf_get i f;
     bf_put i (v + 1) f }"

definition lsb_decrement :: "ruby_config \<Rightarrow> address \<Rightarrow> lsb_filter \<Rightarrow> lsb_filter option" where
  "lsb_decrement c a f = do {
     i \<leftarrow> lsb_get_index c a f;
     v \<leftarrow> bf_get i f;
     if 0 < v then bf_put i (v - 1) f else Some f }"

definition lsb_getCount :: "ruby_config \<Rightarrow> address \<Rightarrow> lsb_filter \<Rightarrow> int option" where
  "lsb_getCount c a f = do { i \<leftarrow> lsb_get_index c a f; bf_get i f }"

subsection \<open>\<^verbatim>\<open>NonCountingBloomFilter\<close>\<close>

record non_counting_filter = bit_filter +
  nc_offset :: int

definition nc_new :: "string \<Rightarrow> non_counting_filter option" where
  "nc_new str = do {
     let (head, tail) = string_split CHR ''_'' str;
     n \<leftarrow> atoi head;
     off \<leftarrow> atoi tail;
     (size, bits) \<leftarrow> filter_size n;
     Some \<lparr>m_filter = replicate size 0, m_filter_size = size, m_filter_size_bits = bits, nc_offset = off\<rparr> }"

definition nc_get_index :: "ruby_config \<Rightarrow> address \<Rightarrow> non_counting_filter \<Rightarrow> int option" where
  "nc_get_index c a f = do {
     w \<leftarrow> bitSelect (block_bits c + nc_offset f) (block_bits c + nc_offset f + int (m_filter_size_bits f) - 1) a;
     Some (to_int w) }"

definition nc_set :: "ruby_config \<Rightarrow> address \<Rightarrow> non_counting_filter \<Rightarrow> non_counting_filter option" where
  "nc_set c a f = do { i \<leftarrow> nc_get_index c a f; bf_put i 1 f }"

definition nc_unset :: "ruby_config \<Rightarrow> address \<Rightarrow> non_counting_filter \<Rightarrow> non_counting_filter option" where
  "nc_unset c a f = do { i \<leftarrow> nc_get_index c a f; bf_put i 0 f }"

definition nc_isSet :: "ruby_config \<Rightarrow> address \<Rightarrow> non_counting_filter \<Rightarrow> bool option" where
  "nc_isSet c a f = do { i \<leftarrow> nc_get_index c a f; v \<leftarrow> bf_get i f; Some (v \<noteq> 0) }"

definition nc_getCount :: "ruby_config \<Rightarrow> address \<Rightarrow> non_counting_filter \<Rightarrow> int option" where
  "nc_getCount c a f = do { i \<leftarrow> nc_get_index c a f; bf_get i f }"

subsection \<open>\<^verbatim>\<open>BlockBloomFilter\<close>\<close>

type_synonym block_filter = bit_filter

definition block_new :: "string \<Rightarrow> block_filter option" where
  "block_new str = do {
     let (head, tail) = string_split CHR ''_'' str;
     n \<leftarrow> atoi head;
     (size, bits) \<leftarrow> filter_size n;
     Some \<lparr>m_filter = replicate size 0, m_filter_size = size, m_filter_size_bits = bits\<rparr> }"

definition block_get_index :: "ruby_config \<Rightarrow> address \<Rightarrow> block_filter \<Rightarrow> int option" where
  "block_get_index c a f = do {
     block \<leftarrow> bitSelect (block_bits c) (2 * block_bits c - 1) a;
     let offset = 5;
     other \<leftarrow> bitSelect (2 * block_bits c + offset) (2 * block_bits c + offset + int (m_filter_size_bits f) - 1) a;
     let index = to_int (block XOR other);
     check (index < int (m_filter_size f));
     Some index }"

definition block_set :: "ruby_config \<Rightarrow> address \<Rightarrow> block_filter \<Rightarrow> block_filter option" where
  "block_set c a f = do { i \<leftarrow> block_get_index c a f; bf_put i 1 f }"

definition block_unset :: "ruby_config \<Rightarrow> address \<Rightarrow> block_filter \<Rightarrow> block_filter option" where
  "block_unset c a f = do { i \<leftarrow> block_get_index c a f; bf_put i 0 f }"

definition block_isSet :: "ruby_config \<Rightarrow> address \<Rightarrow> block_filter \<Rightarrow> bool option" where
  "block_isSet c a f = do { i \<leftarrow> block_get_index c a f; v \<leftarrow> bf_get i f; Some (v \<noteq> 0) }"

definition block_getCount :: "ruby_config \<Rightarrow> address \<Rightarrow> block_filter \<Rightarrow> int option" where
  "block_getCount c a f = do { i \<leftarrow> block_get_index c a f; bf_get i f }"

subsection \<open>\<^verbatim>\<open>BulkBloomFilter\<close>\<close>

record bulk_filter = bit_filter +
  bk_temp :: "int list"
  bk_sector_bits :: int

definition bulk_new :: "string \<Rightarrow> bulk_filter option" where
  "bulk_new str = do {
     let (head, tail) = string_split CHR ''_'' str;
     n \<leftarrow> atoi head;
     (size, bits) \<leftarrow> filter_size n;
     Some \<lparr>m_filter = replicate size 0, m_filter_size = size, m_filter_size_bits = bits, bk_temp = replicate size 0,
       bk_sector_bits = int bits - 1\<rparr> }"

definition bulk_parts :: "ruby_config \<Rightarrow> address \<Rightarrow> bulk_filter \<Rightarrow> (int \<times> int) option" where
  "bulk_parts c a f = do {
     let set_bits = bk_sector_bits f;
     c0 \<leftarrow> bitSelect (block_bits c) (block_bits c + set_bits - 1) a;
     c1 \<leftarrow> bitSelect (block_bits c + set_bits) (block_bits c + 2 * set_bits - 1) a;
     Some (to_int c0, to_int c1) }"

definition bulk_set :: "ruby_config \<Rightarrow> address \<Rightarrow> bulk_filter \<Rightarrow> bulk_filter option" where
  "bulk_set c a f = do {
     (c0, c1) \<leftarrow> bulk_parts c a f;
     f1 \<leftarrow> bf_put (c0 + int (m_filter_size f div 2)) 1 f;
     bf_put c1 1 f1 }"

definition temp_put :: "int \<Rightarrow> int \<Rightarrow> bulk_filter \<Rightarrow> bulk_filter option" where
  "temp_put i v f = do { check (0 \<le> i \<and> i < int (length (bk_temp f))); Some (f\<lparr>bk_temp := (bk_temp f)[nat i := v]\<rparr>) }"

definition bulk_meet :: "nat \<Rightarrow> nat \<Rightarrow> bulk_filter \<Rightarrow> bulk_filter" where
  "bulk_meet lo hi f = f\<lparr>bk_temp := map (\<lambda>i. if lo \<le> i \<and> i < hi then (if bk_temp f ! i \<noteq> 0 \<and> m_filter f ! i \<noteq> 0 then 1 else 0)
     else bk_temp f ! i) [0..<length (bk_temp f)]\<rparr>"

definition bulk_isSet :: "ruby_config \<Rightarrow> address \<Rightarrow> bulk_filter \<Rightarrow> (bool \<times> bulk_filter) option" where
  "bulk_isSet c a f = do {
     (c0, c1) \<leftarrow> bulk_parts c a f;
     let half = m_filter_size f div 2;
     f1 \<leftarrow> temp_put (c0 + int half) 1 f;
     f2 \<leftarrow> temp_put c1 1 f1;
     let f3 = bulk_meet 0 half f2;
     if \<not> list_ex (\<lambda>i. bk_temp f3 ! i \<noteq> 0) [0..<half] then do {
       f4 \<leftarrow> temp_put (c0 + int half) 0 f3;
       f5 \<leftarrow> temp_put c1 0 f4;
       Some (False, f5) }
     else do {
       let f4 = bulk_meet half (m_filter_size f) f3;
       let found = list_ex (\<lambda>i. bk_temp f4 ! i \<noteq> 0) [half..<m_filter_size f];
       f5 \<leftarrow> temp_put (c0 + int half) 0 f4;
       f6 \<leftarrow> temp_put c1 0 f5;
       Some (found, f6) } }"

definition bulk_get_index :: "ruby_config \<Rightarrow> address \<Rightarrow> bulk_filter \<Rightarrow> int option" where
  "bulk_get_index c a f = do {
     w \<leftarrow> bitSelect (block_bits c) (block_bits c + int (m_filter_size_bits f) - 1) a;
     Some (to_int w) }"

definition bulk_permute :: "ruby_config \<Rightarrow> address \<Rightarrow> address option" where
  "bulk_permute c a = do {
     let b = block_bits c;
     part1 \<leftarrow> bitSelect b (b + 6) a;
     part2 \<leftarrow> bitSelect (b + 9) (b + 9) a;
     part3 \<leftarrow> bitSelect (b + 11) (b + 11) a;
     part4 \<leftarrow> bitSelect (b + 17) (b + 17) a;
     part5 \<leftarrow> bitSelect (b + 7) (b + 8) a;
     part6 \<leftarrow> bitSelect (b + 10) (b + 10) a;
     part7 \<leftarrow> bitSelect (b + 12) (b + 12) a;
     part8 \<leftarrow> bitSelect (b + 13) (b + 13) a;
     part9 \<leftarrow> bitSelect (b + 15) (b + 16) a;
     part10 \<leftarrow> bitSelect (b + 18) (b + 20) a;
     part11 \<leftarrow> bitSelect (b + 14) (b + 14) a;
     let result = push_bit 14 part1 OR push_bit 13 part2 OR push_bit 12 part3 OR push_bit 11 part4 OR push_bit 9 part5
       OR push_bit 8 part6 OR push_bit 7 part7 OR push_bit 6 part8 OR push_bit 4 part9 OR push_bit 1 part10 OR part11;
     remaining \<leftarrow> bitSelect (b + 21) 31 a;
     Some (result OR push_bit 21 remaining) }"

subsection \<open>\<^verbatim>\<open>MultiGrainBloomFilter\<close>\<close>

record multi_grain_filter = bit_filter +
  mg_page_filter :: "int list"
  mg_page_filter_size :: nat
  mg_page_filter_size_bits :: nat

definition mg_new :: "string \<Rightarrow> multi_grain_filter option" where
  "mg_new str = do {
     let (head, tail) = string_split CHR ''_'' str;
     n \<leftarrow> atoi head;
     (size, bits) \<leftarrow> filter_size n;
     p \<leftarrow> atoi tail;
     (psize, pbits) \<leftarrow> filter_size p;
     Some \<lparr>m_filter = replicate size 0, m_filter_size = size, m_filter_size_bits = bits, mg_page_filter = replicate psize 0,
       mg_page_filter_size = psize, mg_page_filter_size_bits = pbits\<rparr> }"

definition mg_clear :: "multi_grain_filter \<Rightarrow> multi_grain_filter" where
  "mg_clear f = (bf_clear f)\<lparr>mg_page_filter := replicate (mg_page_filter_size f) 0\<rparr>"

definition mg_get_block_index :: "ruby_config \<Rightarrow> address \<Rightarrow> multi_grain_filter \<Rightarrow> int option" where
  "mg_get_block_index c a f = do {
     w \<leftarrow> bitSelect (block_bits c) (block_bits c + int (m_filter_size_bits f) - 1) a;
     Some (to_int w) }"

definition mg_get_page_index :: "ruby_config \<Rightarrow> address \<Rightarrow> multi_grain_filter \<Rightarrow> int option" where
  "mg_get_page_index c a f = do {
     let low = block_bits c + int (m_filter_size_bits f) - 1;
     w \<leftarrow> bitSelect low (low + int (mg_page_filter_size_bits f) - 1) a;
     Some (to_int w) }"

definition mg_indices :: "ruby_config \<Rightarrow> address \<Rightarrow> multi_grain_filter \<Rightarrow> (int \<times> int) option" where
  "mg_indices c a f = do {
     i \<leftarrow> mg_get_block_index c a f;
     j \<leftarrow> mg_get_page_index c a f;
     check (i < int (m_filter_size f));
     check (j < int (mg_page_filter_size f));
     Some (i, j) }"

text \<open>Both operations use the block index for the page filter, too.\<close>

definition mg_set :: "ruby_config \<Rightarrow> address \<Rightarrow> multi_grain_filter \<Rightarrow> multi_grain_filter option" where
  "mg_set c a f = do {
     (i, j) \<leftarrow> mg_indices c a f;
     f1 \<leftarrow> bf_put i 1 f;
     check (0 \<le> i \<and> i < int (length (mg_page_filter f1)));
     Some (f1\<lparr>mg_page_filter := (mg_page_filter f1)[nat i := 1]\<rparr>) }"

definition mg_isSet :: "ruby_config \<Rightarrow> address \<Rightarrow> multi_grain_filter \<Rightarrow> bool option" where
  "mg_isSet c a f = do {
     (i, j) \<leftarrow> mg_indices c a f;
     v \<leftarrow> bf_get i f;
     if v = 0 then Some False
     else do {
       check (0 \<le> i \<and> i < int (length (mg_page_filter f)));
       Some (mg_page_filter f ! nat i \<noteq> 0) } }"

text \<open>The second loop of \<^verbatim>\<open>getTotalCount\<close> is \<^verbatim>\<open>count += m_page_filter[i] = 0\<close>.\<close>

definition mg_getTotalCount :: "multi_grain_filter \<Rightarrow> int \<times> multi_grain_filter" where
  "mg_getTotalCount f = (bf_sum f, f\<lparr>mg_page_filter := replicate (mg_page_filter_size f) 0\<rparr>)"

subsection \<open>\<^verbatim>\<open>MultiBitSelBloomFilter\<close>\<close>

record multi_hash_filter = bit_filter +
  mh_num_hashes :: nat
  mh_skip_bits :: int
  mh_par_filter_size :: nat
  mh_par_filter_size_bits :: nat
  mh_isParallel :: bool

definition multi_hash_new :: "int \<Rightarrow> int \<Rightarrow> int \<Rightarrow> string \<Rightarrow> multi_hash_filter option" where
  "multi_hash_new n hashes skip tail = do {
     par \<leftarrow> (if tail = ''Regular'' then Some False else if tail = ''Parallel'' then Some True else None);
     (size, bits) \<leftarrow> filter_size n;
     check (0 < hashes);
     (psize, pbits) \<leftarrow> filter_size (n div hashes);
     Some \<lparr>m_filter = replicate size 0, m_filter_size = size, m_filter_size_bits = bits, mh_num_hashes = nat hashes,
       mh_skip_bits = skip, mh_par_filter_size = psize, mh_par_filter_size_bits = pbits, mh_isParallel = par\<rparr> }"

definition mbs_new :: "string \<Rightarrow> multi_hash_filter option" where
  "mbs_new str = do {
     let (head, tail) = string_split CHR ''_'' str;
     n \<leftarrow> atoi head;
     let (head, tail) = string_split CHR ''_'' tail;
     hashes \<leftarrow> atoi head;
     let (head, tail) = string_split CHR ''_'' tail;
     skip \<leftarrow> atoi head;
     multi_hash_new n hashes skip tail }"

definition hash_bitsel :: "64 word \<Rightarrow> nat \<Rightarrow> nat \<Rightarrow> nat \<Rightarrow> nat \<Rightarrow> int" where
  "hash_bitsel v index jump maxBits numBits =
     foldl (\<lambda>result i. if bit v ((index + jump * i) mod maxBits) then result + 2 ^ i else result) 0 [0..<numBits]"

definition hash_cell :: "int \<Rightarrow> nat \<Rightarrow> multi_hash_filter \<Rightarrow> int" where
  "hash_cell y i f =
     (if mh_isParallel f then y mod int (mh_par_filter_size f) + int i * int (mh_par_filter_size f)
      else y mod int (m_filter_size f))"

definition mbs_get_index :: "ruby_config \<Rightarrow> address \<Rightarrow> nat \<Rightarrow> multi_hash_filter \<Rightarrow> int option" where
  "mbs_get_index c a i f = do {
     l \<leftarrow> getLineAddress c a;
     check (shift_ok (mh_skip_bits f));
     let x = drop_bit (nat (mh_skip_bits f)) l;
     Some (hash_cell (hash_bitsel x i (mh_num_hashes f) 30 (m_filter_size_bits f)) i f) }"

subsection \<open>\<^verbatim>\<open>H3BloomFilter\<close>\<close>

definition H3 :: "int list list" where
  "H3 = [
     [33268410, 395488709, 311024285, 456111753, 181495008, 119997521, 220697869, 433891432, 755927921, 515226970, 719448198, 349842774, 269183649, 463275672, 429800228, 521598937],
     [628677802, 820947732, 809435975, 1024657192, 887631270, 412050215, 391365090, 324227279, 318338329, 1038393087, 489807930, 387366128, 518096428, 324184340, 429376066, 447109279],
     [599747653, 404960623, 103933604, 946416030, 656460913, 925957005, 1047665689, 163552053, 88359290, 841315415, 899833584, 1067336680, 348549994, 464045876, 270252128, 829897652],
     [215495230, 966696438, 82589012, 750102795, 909780866, 920285789, 769759214, 331966823, 939936006, 439950703, 883794828, 1009277508, 61634610, 741444350, 98689608, 524144422],
     [93868534, 196958667, 774076619, 327921978, 122538783, 879785030, 690748527, 3498564, 83163077, 1027963025, 582088444, 466152216, 312424878, 550064499, 646612667, 561099434],
     [1002047931, 395477707, 821317480, 890482112, 697094476, 263813044, 840275189, 469664185, 795625845, 211504898, 99204277, 1004491153, 725930417, 1064479221, 893834767, 839719181],
     [278507126, 985111995, 706462983, 1042178726, 123281719, 963778122, 500881056, 726291104, 134293026, 568379664, 317050609, 533470307, 1022365922, 197645211, 315125721, 634827678],
     [219227366, 553960647, 870169525, 322232839, 508322497, 648672696, 249405795, 883596102, 476433133, 541372919, 646647793, 1042679515, 43242483, 600187508, 499866821, 135713210],
     [52837162, 96966684, 401840460, 1071661176, 733560065, 150035417, 341319946, 811582750, 636173904, 519054065, 196321433, 1028294565, 882204070, 522965093, 48884074, 117810166],
     [650860353, 789534698, 328813544, 473250022, 143128306, 173196006, 846958825, 174632187, 683273509, 405459497, 787235556, 773873501, 240110267, 426797736, 92043842, 711789240],
     [586637493, 5059646, 398035664, 6686087, 498300175, 948278148, 681227731, 592751744, 572019677, 558044722, 589368271, 695745538, 1073416749, 529192035, 550984939, 1070620580],
     [102904663, 647598516, 758863940, 313426443, 76504114, 1050747783, 708436441, 563815069, 224107668, 875925186, 167675944, 926209739, 279737287, 1040288182, 768184312, 371708956],
     [683968868, 1027427757, 180781926, 742898864, 624078545, 645659833, 577225838, 987150210, 723410002, 224013421, 993286634, 33188488, 247264323, 888018697, 38048664, 189037096],
     [475612146, 426739285, 873726278, 529192871, 607715202, 388486246, 987001312, 474493980, 259747270, 417465536, 217062395, 392858482, 563810075, 137852805, 1051814153, 72895217],
     [71277086, 785496675, 500608842, 89633426, 274085706, 248467935, 838061983, 48106147, 773662506, 49545328, 9071573, 100739031, 602018002, 904371654, 534132064, 332211304],
     [401893602, 735125342, 775548339, 210224843, 256081130, 482894412, 350801633, 1035713633, 429458128, 327281409, 739927752, 359327650, 886942880, 847691759, 752417993, 359445596],
     [267472014, 1050659620, 1068232362, 1049684368, 17130239, 690524969, 793224378, 14455158, 423092885, 873853424, 430535778, 7867877, 309731959, 370260786, 862353083, 403906850],
     [993077283, 218812656, 389234651, 393202875, 413116501, 263300295, 470013158, 592730725, 441847172, 732392823, 407574059, 875664777, 271347307, 792954404, 554774761, 1022424300],
     [675919719, 637054073, 784720745, 149714381, 813144874, 502525801, 635436670, 1003196587, 160786091, 947509775, 969788637, 26854073, 257964369, 63898568, 539767732, 772364518],
     [943076868, 1021732472, 697575075, 15843624, 617573396, 534113303, 122953324, 964873912, 942995378, 87830944, 1012914818, 455484661, 592160054, 599844284, 810394353, 836812568],
     [688992674, 279465370, 731582262, 687883235, 438178468, 80493001, 342701501, 663561405, 23360106, 531315007, 508931618, 36294623, 231216223, 840438413, 255665680, 663205938],
     [857265418, 552630887, 8173237, 792122963, 210140052, 823124938, 667709953, 751538219, 991957789, 462064153, 19070176, 726604748, 714567823, 151147895, 1012619677, 697114353],
     [467105652, 683256174, 702387467, 28730434, 549942998, 48712701, 960519696, 1008345587, 679267717, 370932249, 880419471, 352141567, 331640403, 598772468, 95160685, 812053015],
     [1053491323, 430526562, 1014938507, 109685515, 765949103, 177288303, 1034642653, 485421658, 71850281, 981034542, 61620389, 601367920, 504420930, 220599168, 583051998, 158735752],
     [103033901, 522494916, 658494760, 959206022, 931348143, 834510661, 21542994, 189699884, 679327018, 171983002, 96774168, 456133168, 543103352, 923945936, 970074188, 643658485],
     [566379913, 805798263, 840662512, 820206124, 796507494, 223712542, 118811519, 662246595, 809326534, 416471323, 748027186, 161169753, 739149488, 276330378, 924837051, 964873733],
     [585882743, 135502711, 3386031, 625631285, 1068193307, 270342640, 432739484, 556606453, 826419155, 1038540977, 158000202, 69109538, 207087256, 298111218, 678046259, 184611498],
     [305310710, 46237988, 855726974, 735975153, 930663798, 425764232, 104362407, 391371443, 867622101, 71645091, 61824734, 661902640, 293738633, 309416189, 281710675, 879317360],
     [398146324, 398293087, 689145387, 1038451703, 521637478, 516134620, 314658937, 830334981, 583400300, 340083705, 68029852, 675389876, 994635780, 788959180, 406967042, 74403607],
     [69463153, 744427484, 191639960, 590927798, 969916795, 546846769, 728756758, 889355646, 520855076, 136068426, 776132410, 189663815, 252051082, 533662856, 362198652, 1026161384],
     [584984279, 1004834381, 568439705, 834508761, 21812513, 670870173, 1052043300, 341868768, 473755574, 124339439, 36193947, 437997647, 137419489, 58705193, 337793711, 340738909],
     [898051466, 512792906, 234874060, 655358775, 683745319, 671676404, 428888546, 639928192, 672697722, 176477579, 747020991, 758211282, 443045009, 205395173, 1016944273, 5584717],
     [156038300, 138620174, 588466825, 1061494056, 1013672100, 1064257198, 881417791, 839470738, 83519030, 100875683, 237486447, 461483733, 681527127, 777996147, 574635362, 815974538],
     [184168473, 519509808, 62531892, 51821173, 43787358, 385711644, 141325169, 36069511, 584183031, 571372909, 671503175, 226486781, 194932686, 1045460970, 753718579, 331442433],
     [73065106, 1015327221, 630916840, 1058053470, 306737587, 296343219, 907194989, 920172546, 224516225, 818625553, 551143849, 634570650, 432966225, 756438259, 939564853, 767999933],
     [884775648, 394862257, 446787794, 219833788, 727195727, 728122304, 249888353, 732947974, 289908868, 448282580, 618161877, 898939716, 739554163, 860631799, 1058977530, 86916736],
     [143850006, 352708694, 200194048, 979764914, 629404175, 546279766, 72106714, 860980514, 313190585, 897143111, 308425797, 953791785, 349924906, 221457005, 950588925, 908254505],
     [950032043, 829868728, 68623614, 714624605, 69760597, 297275854, 355894016, 985369737, 882852618, 864071289, 958512902, 950910111, 991368991, 829645051, 434698210, 771350575],
     [552695074, 319195551, 80297396, 496413831, 944046531, 621525571, 617653363, 416729825, 441842808, 9847464, 99420657, 1033914550, 812966458, 937053011, 673390195, 934577365],
     [1034695843, 190969665, 332900185, 51897434, 523888639, 883512843, 146908572, 506785674, 565814307, 692255649, 314052926, 826386588, 430691325, 866927620, 413880214, 936474339],
     [129380164, 741739952, 1013703462, 494392795, 957214600, 1010879043, 931790677, 94551922, 988065869, 120637871, 882506912, 395075379, 210570485, 812422692, 910383687, 817722285],
     [51850866, 283408630, 1053047202, 858940389, 818507731, 477082181, 353546901, 993324368, 407093779, 231608253, 1067319867, 73159811, 429792535, 971320614, 565699344, 718823399],
     [408185106, 491493570, 596050720, 310776444, 703628192, 454438809, 523988035, 728512200, 686012353, 976339656, 72816924, 116926720, 165866591, 452043792, 866943072, 968545481],
     [443231195, 905907843, 1061421320, 746360489, 1043120338, 1069659155, 463359031, 688303227, 186550710, 155347339, 1044842421, 1005904570, 69332909, 706951903, 422513657, 882038450],
     [430990623, 946501980, 742556791, 278398643, 183759217, 659404315, 279754382, 1069347846, 843746517, 222777670, 990835599, 548741637, 129220580, 1392170, 1032654091, 894058935],
     [452042227, 751640705, 259481376, 765824585, 145991469, 1013683228, 1055491225, 536379588, 392593350, 913368594, 1029429776, 226857786, 31505342, 1054416381, 32341741, 687106649],
     [404750944, 811417027, 869530820, 773491060, 810901282, 979340397, 1036910290, 461764404, 834235095, 765695033, 604692390, 452158120, 928988098, 442719218, 1024059719, 167723114],
     [974245177, 1046377300, 1003424287, 787349855, 336314155, 875074696, 1018462718, 890313003, 367376809, 86355556, 1020618772, 890710345, 444741481, 373230261, 767064947, 840920177],
     [719581124, 431808156, 138301690, 668222575, 497413494, 740492013, 485033226, 125301442, 831265111, 879071459, 341690480, 152975256, 850330086, 717444507, 694225877, 785340566],
     [1032766252, 140959364, 737474726, 1062767538, 364464647, 331414723, 356152634, 642832379, 158733632, 374691640, 285504811, 345349905, 876599880, 476392727, 479589210, 606376325],
     [174997730, 778177086, 319164313, 163614456, 10331364, 599358958, 8331663, 237538058, 159173957, 174533880, 65588684, 878222844, 424467599, 901803515, 187504218, 776690353],
     [803856182, 965850321, 694948067, 218315960, 358416571, 683713254, 178069303, 428076035, 686176454, 579553217, 357306738, 315018080, 886852373, 568563910, 896839725, 257416821],
     [401650013, 183289141, 497957228, 879734476, 265024455, 825794561, 889237440, 323359863, 100258491, 991414783, 313986632, 85847250, 362520248, 276103512, 1041630342, 525981595],
     [487732740, 46201705, 990837834, 62744493, 1067364756, 58015363, 690846283, 680262648, 997278956, 469357861, 432164624, 996763915, 211907847, 167824295, 144928194, 454839915],
     [41404232, 514493300, 259546924, 578217256, 972345130, 123299213, 346040332, 1014668104, 520910639, 579955198, 36627803, 179072921, 547684341, 598950511, 269497394, 854352266],
     [603906768, 100863318, 708837659, 204175569, 375560904, 908375384, 28314106, 6303733, 175283124, 749851198, 308667367, 415293931, 225365403, 1032188331, 977112710, 819705229],
     [399767123, 697985692, 356790426, 643687584, 298624218, 185095167, 381653926, 876816342, 296720023, 2205879, 235816616, 521850105, 622753786, 1021421218, 726349744, 256504902],
     [851245024, 1022500222, 511909628, 313809625, 99776025, 39710175, 798739932, 741832408, 140631966, 898295927, 607660421, 870669312, 1051422478, 789055529, 669113756, 681943450],
     [853872755, 491465269, 503341472, 98019440, 258267420, 335602837, 320687824, 1053324395, 24932389, 955011453, 934255131, 435625663, 501568768, 238967025, 549987406, 248619780],
     [411151284, 576471205, 757985419, 544137226, 968135693, 877548443, 194586894, 74882373, 248353663, 21207540, 273789651, 853653916, 861267970, 533253322, 3739570, 661358586],
     [271430986, 71390029, 257643671, 949329860, 348156406, 251939238, 445808698, 48269799, 907589462, 105677619, 635451508, 20805932, 464874661, 7542147, 243619464, 288304568],
     [368215982, 530288964, 770090421, 660961164, 614935537, 630760399, 931299233, 794519275, 779918979, 401746493, 561237006, 1027202224, 258968003, 339508073, 1050610516, 1064307013],
     [1039172162, 448331205, 928997884, 49813151, 198712120, 992335354, 671024050, 879525220, 745915336, 1038822580, 138669665, 917958819, 681422342, 792868818, 924762727, 816386174],
     [515190336, 313808618, 441296783, 1022120897, 792325033, 354387581, 59273006, 280075434, 411357221, 665274694, 4054464, 1059046246, 394261773, 848616745, 15446017, 517723271]]"

definition h3_new :: "string \<Rightarrow> multi_hash_filter option" where
  "h3_new str = do {
     let (head, tail) = string_split CHR ''_'' str;
     n \<leftarrow> atoi head;
     let (head, tail) = string_split CHR ''_'' tail;
     hashes \<leftarrow> atoi head;
     multi_hash_new n hashes 0 tail }"

definition hash_H3 :: "64 word \<Rightarrow> nat \<Rightarrow> int option" where
  "hash_H3 v index = fold_opt (\<lambda>i result.
     if bit v i then do { check (index < 16); Some (result XOR (H3 ! i ! index)) } else Some result) [0..<64] 0"

definition h3_get_index :: "ruby_config \<Rightarrow> address \<Rightarrow> nat \<Rightarrow> multi_hash_filter \<Rightarrow> int option" where
  "h3_get_index c a i f = do {
     x \<leftarrow> getLineAddress c a;
     y \<leftarrow> hash_H3 x i;
     Some (hash_cell y i f) }"

text \<open>The loops of \<^verbatim>\<open>set\<close> and \<^verbatim>\<open>isSet\<close> over the hash functions, the same in both classes.\<close>

definition hash_set :: "(nat \<Rightarrow> multi_hash_filter \<Rightarrow> int option) \<Rightarrow> multi_hash_filter \<Rightarrow> multi_hash_filter option" where
  "hash_set get_index f = fold_opt (\<lambda>i f. do { idx \<leftarrow> get_index i f; bf_put idx 1 f }) [0..<mh_num_hashes f] f"

definition hash_isSet :: "(nat \<Rightarrow> multi_hash_filter \<Rightarrow> int option) \<Rightarrow> multi_hash_filter \<Rightarrow> bool option" where
  "hash_isSet get_index f = fold_opt (\<lambda>i res. do {
       idx \<leftarrow> get_index i f;
       if res then do { v \<leftarrow> bf_get idx f; Some (v \<noteq> 0) } else Some False }) [0..<mh_num_hashes f] True"

definition mbs_set :: "ruby_config \<Rightarrow> address \<Rightarrow> multi_hash_filter \<Rightarrow> multi_hash_filter option" where
  "mbs_set c a f = hash_set (mbs_get_index c a) f"

definition mbs_isSet :: "ruby_config \<Rightarrow> address \<Rightarrow> multi_hash_filter \<Rightarrow> bool option" where
  "mbs_isSet c a f = hash_isSet (mbs_get_index c a) f"

definition h3_set :: "ruby_config \<Rightarrow> address \<Rightarrow> multi_hash_filter \<Rightarrow> multi_hash_filter option" where
  "h3_set c a f = hash_set (h3_get_index c a) f"

definition h3_isSet :: "ruby_config \<Rightarrow> address \<Rightarrow> multi_hash_filter \<Rightarrow> bool option" where
  "h3_isSet c a f = hash_isSet (h3_get_index c a) f"

subsection \<open>\<^verbatim>\<open>GenericBloomFilter\<close>\<close>

datatype generic_filter = F_LSB lsb_filter | F_NonCounting non_counting_filter | F_Bulk bulk_filter | F_Block block_filter
  | F_MultiGrain multi_grain_filter | F_MultiBitSel multi_hash_filter | F_H3 multi_hash_filter

definition generic_new :: "string \<Rightarrow> generic_filter option" where
  "generic_new config =
     (case string_split CHR ''_'' config of (head, tail) \<Rightarrow>
        if head = ''LSB_Counting'' then map_option F_LSB (lsb_new tail)
        else if head = ''NonCounting'' then map_option F_NonCounting (nc_new tail)
        else if head = ''Bulk'' then map_option F_Bulk (bulk_new tail)
        else if head = ''Block'' then map_option F_Block (block_new tail)
        else if head = ''Multigrain'' then map_option F_MultiGrain (mg_new tail)
        else if head = ''MultiBitSel'' then map_option F_MultiBitSel (mbs_new tail)
        else if head = ''H3'' then map_option F_H3 (h3_new tail)
        else None)"

primrec generic_clear :: "generic_filter \<Rightarrow> generic_filter" where
  "generic_clear (F_LSB f) = F_LSB (bf_clear f)"
| "generic_clear (F_NonCounting f) = F_NonCounting (bf_clear f)"
| "generic_clear (F_Bulk f) = F_Bulk (bf_clear f)"
| "generic_clear (F_Block f) = F_Block (bf_clear f)"
| "generic_clear (F_MultiGrain f) = F_MultiGrain (mg_clear f)"
| "generic_clear (F_MultiBitSel f) = F_MultiBitSel (bf_clear f)"
| "generic_clear (F_H3 f) = F_H3 (bf_clear f)"

definition generic_increment :: "ruby_config \<Rightarrow> address \<Rightarrow> generic_filter \<Rightarrow> generic_filter option" where
  "generic_increment c a g = (case g of F_LSB f \<Rightarrow> map_option F_LSB (lsb_increment c a f) | _ \<Rightarrow> Some g)"

definition generic_decrement :: "ruby_config \<Rightarrow> address \<Rightarrow> generic_filter \<Rightarrow> generic_filter option" where
  "generic_decrement c a g = (case g of F_LSB f \<Rightarrow> map_option F_LSB (lsb_decrement c a f) | _ \<Rightarrow> Some g)"

text \<open>\<^verbatim>\<open>merge\<close> casts the other filter to its own class, which is undefined for another one.\<close>

definition generic_merge :: "generic_filter \<Rightarrow> generic_filter \<Rightarrow> generic_filter option" where
  "generic_merge other g =
     (case (g, other) of
        (F_NonCounting f, F_NonCounting t) \<Rightarrow> map_option F_NonCounting (bf_merge t f)
      | (F_MultiBitSel f, F_MultiBitSel t) \<Rightarrow> map_option F_MultiBitSel (bf_merge t f)
      | (F_H3 f, F_H3 t) \<Rightarrow> map_option F_H3 (bf_merge t f)
      | (F_NonCounting f, _) \<Rightarrow> None | (F_MultiBitSel f, _) \<Rightarrow> None | (F_H3 f, _) \<Rightarrow> None
      | _ \<Rightarrow> Some g)"

primrec generic_set :: "ruby_config \<Rightarrow> address \<Rightarrow> generic_filter \<Rightarrow> generic_filter option" where
  "generic_set c a (F_LSB f) = Some (F_LSB f)"
| "generic_set c a (F_NonCounting f) = map_option F_NonCounting (nc_set c a f)"
| "generic_set c a (F_Bulk f) = map_option F_Bulk (bulk_set c a f)"
| "generic_set c a (F_Block f) = map_option F_Block (block_set c a f)"
| "generic_set c a (F_MultiGrain f) = map_option F_MultiGrain (mg_set c a f)"
| "generic_set c a (F_MultiBitSel f) = map_option F_MultiBitSel (mbs_set c a f)"
| "generic_set c a (F_H3 f) = map_option F_H3 (h3_set c a f)"

primrec generic_unset :: "ruby_config \<Rightarrow> address \<Rightarrow> generic_filter \<Rightarrow> generic_filter option" where
  "generic_unset c a (F_LSB f) = Some (F_LSB f)"
| "generic_unset c a (F_NonCounting f) = map_option F_NonCounting (nc_unset c a f)"
| "generic_unset c a (F_Bulk f) = Some (F_Bulk f)"
| "generic_unset c a (F_Block f) = map_option F_Block (block_unset c a f)"
| "generic_unset c a (F_MultiGrain f) = Some (F_MultiGrain f)"
| "generic_unset c a (F_MultiBitSel f) = None"
| "generic_unset c a (F_H3 f) = None"

primrec generic_isSet :: "ruby_config \<Rightarrow> address \<Rightarrow> generic_filter \<Rightarrow> (bool \<times> generic_filter) option" where
  "generic_isSet c a (F_LSB f) = None"
| "generic_isSet c a (F_NonCounting f) = map_option (\<lambda>b. (b, F_NonCounting f)) (nc_isSet c a f)"
| "generic_isSet c a (F_Bulk f) = map_option (map_prod id F_Bulk) (bulk_isSet c a f)"
| "generic_isSet c a (F_Block f) = map_option (\<lambda>b. (b, F_Block f)) (block_isSet c a f)"
| "generic_isSet c a (F_MultiGrain f) = map_option (\<lambda>b. (b, F_MultiGrain f)) (mg_isSet c a f)"
| "generic_isSet c a (F_MultiBitSel f) = map_option (\<lambda>b. (b, F_MultiBitSel f)) (mbs_isSet c a f)"
| "generic_isSet c a (F_H3 f) = map_option (\<lambda>b. (b, F_H3 f)) (h3_isSet c a f)"

primrec generic_getCount :: "ruby_config \<Rightarrow> address \<Rightarrow> generic_filter \<Rightarrow> int option" where
  "generic_getCount c a (F_LSB f) = lsb_getCount c a f"
| "generic_getCount c a (F_NonCounting f) = nc_getCount c a f"
| "generic_getCount c a (F_Bulk f) = Some 0"
| "generic_getCount c a (F_Block f) = block_getCount c a f"
| "generic_getCount c a (F_MultiGrain f) = Some 0"
| "generic_getCount c a (F_MultiBitSel f) = map_option of_bool (mbs_isSet c a f)"
| "generic_getCount c a (F_H3 f) = map_option of_bool (h3_isSet c a f)"

primrec generic_getTotalCount :: "generic_filter \<Rightarrow> int \<times> generic_filter" where
  "generic_getTotalCount (F_LSB f) = (bf_sum f, F_LSB f)"
| "generic_getTotalCount (F_NonCounting f) = (bf_sum f, F_NonCounting f)"
| "generic_getTotalCount (F_Bulk f) = (bf_nonzero f, F_Bulk f)"
| "generic_getTotalCount (F_Block f) = (bf_nonzero f, F_Block f)"
| "generic_getTotalCount (F_MultiGrain f) = map_prod id F_MultiGrain (mg_getTotalCount f)"
| "generic_getTotalCount (F_MultiBitSel f) = (bf_sum f, F_MultiBitSel f)"
| "generic_getTotalCount (F_H3 f) = (bf_sum f, F_H3 f)"

primrec generic_getIndex :: "ruby_config \<Rightarrow> address \<Rightarrow> generic_filter \<Rightarrow> int option" where
  "generic_getIndex c a (F_LSB f) = lsb_get_index c a f"
| "generic_getIndex c a (F_NonCounting f) = nc_get_index c a f"
| "generic_getIndex c a (F_Bulk f) = bulk_get_index c a f"
| "generic_getIndex c a (F_Block f) = block_get_index c a f"
| "generic_getIndex c a (F_MultiGrain f) = Some 0"
| "generic_getIndex c a (F_MultiBitSel f) = Some 0"
| "generic_getIndex c a (F_H3 f) = Some 0"

definition generic_readBit :: "int \<Rightarrow> generic_filter \<Rightarrow> int option" where
  "generic_readBit index g = (case g of F_NonCounting f \<Rightarrow> bf_get index f | F_Block f \<Rightarrow> bf_get index f | _ \<Rightarrow> Some 0)"

definition generic_writeBit :: "int \<Rightarrow> int \<Rightarrow> generic_filter \<Rightarrow> generic_filter option" where
  "generic_writeBit index v g =
     (case g of F_NonCounting f \<Rightarrow> map_option F_NonCounting (bf_put index v f)
      | F_Block f \<Rightarrow> map_option F_Block (bf_put index v f) | _ \<Rightarrow> Some g)"

end
