(* ===== verification/Bloom_Signatures.thy ===== *)
theory Bloom_Signatures
  imports Bloom_Filters
begin

text \<open>
  Correctness of the address signatures. Locale \<open>signature\<close> is the contract of \<^verbatim>\<open>AbstractBloomFilter\<close> as
  conflict detection uses it: an address that was added is always reported. Five of the filter classes
  and their common front end keep it; two do not.
\<close>

locale signature =
  fixes ok :: "'f \<Rightarrow> bool" and covers :: "'f \<Rightarrow> address \<Rightarrow> bool" and add :: "address \<Rightarrow> 'f \<Rightarrow> 'f option"
    and isSet :: "address \<Rightarrow> 'f \<Rightarrow> (bool \<times> 'f) option" and clear :: "'f \<Rightarrow> 'f"
  assumes add_ok: "ok f \<Longrightarrow> \<exists>f'. add a f = Some f' \<and> ok f' \<and> covers f' a \<and> (\<forall>b. covers f b \<longrightarrow> covers f' b)"
    and isSet_ok: "ok f \<Longrightarrow> \<exists>f'. isSet a f = Some (covers f a, f') \<and> ok f' \<and> covers f' = covers f"
    and clear_ok: "ok f \<Longrightarrow> ok (clear f) \<and> \<not> covers (clear f) a"
begin

lemma add_all_ok:
  "ok f \<Longrightarrow> \<exists>f'. fold_opt add as f = Some f' \<and> ok f' \<and> (\<forall>a. covers f a \<or> a \<in> set as \<longrightarrow> covers f' a)"
proof (induction as arbitrary: f)
  case (Cons a as)
  obtain f1 where f1: "add a f = Some f1" "ok f1" "covers f1 a" "\<forall>b. covers f b \<longrightarrow> covers f1 b" using add_ok [OF Cons.prems] by blast
  with Cons.IH [OF f1(2)] show ?case by auto
qed simp

lemma no_false_negative:
  assumes "ok f"
  shows "\<exists>f'. fold_opt add as f = Some f' \<and> ok f' \<and> (\<forall>a \<in> set as. \<exists>f''. isSet a f' = Some (True, f''))"
  using add_all_ok [OF assms, of as] isSet_ok by (metis (full_types))

lemma cleared:
  assumes "ok f"
  shows "\<exists>f'. isSet a (clear f) = Some (False, f')"
  using clear_ok [OF assms, of a] isSet_ok [of "clear f" a] by auto

end

subsection \<open>Cells\<close>

definition cells_ok :: "'x bit_filter_scheme \<Rightarrow> bool" where
  "cells_ok f \<longleftrightarrow> length (m_filter f) = m_filter_size f \<and> 2 ^ m_filter_size_bits f \<le> m_filter_size f \<and> m_filter_size f < 2 ^ 31"

lemma cells_bits: "cells_ok f \<Longrightarrow> m_filter_size_bits f \<le> 30"
proof -
  assume "cells_ok f"
  then have "(2::nat) ^ m_filter_size_bits f < 2 ^ 31" by (simp add: cells_ok_def)
  then have "m_filter_size_bits f < 31" by (rule power_less_imp_less_exp [rotated]) simp
  then show ?thesis by simp
qed

lemma to_int_small:
  assumes "unat w < 2 ^ 31"
  shows "to_int w = int (unat w)"
proof -
  define k where "k = unat w"
  have k: "k < 2 ^ 31" using assms by (simp add: k_def)
  have "unat (ucast w :: 32 word) = k" using assms by (simp add: k_def unsigned_ucast_eq take_bit_eq_mod)
  then have u: "uint (ucast w :: 32 word) = int k" by (metis uint_nat)
  have "signed_take_bit 31 (int k) = int k" using k by (intro signed_take_bit_int_eq_self) auto
  then have "sint (ucast w :: 32 word) = int k" unfolding sint_uint u by simp
  then show ?thesis unfolding to_int_def k_def .
qed

lemma field_index:
  assumes "0 \<le> small" "0 < n" "n \<le> 30" "small + int n \<le> 64"
  shows "\<exists>w. bitSelect small (small + int n - 1) a = Some w \<and> to_int w = int (unat w) \<and> unat w < 2 ^ n"
proof -
  obtain s where s: "small = int s" using assms(1) nonneg_int_cases by blast
  have e: "small + int n - 1 = int (s + n - 1)" using s assms(2) by simp
  obtain w where w: "bitSelect (int s) (int (s + n - 1)) a = Some w" "unat w = (unat a div 2 ^ s) mod 2 ^ (s + n - 1 + 1 - s)"
  proof -
    have "s \<le> s + n - 1" "s + n - 1 < 64" using assms(2,4) s by simp_all
    then show thesis using bitSelect_Some [of s "s + n - 1" a] that by blast
  qed
  then have lt: "unat w < 2 ^ n" using assms(2) by simp
  moreover have "(2::nat) ^ n \<le> 2 ^ 31" using assms(3) by (intro power_increasing) auto
  ultimately have "to_int w = int (unat w)" by (intro to_int_small) simp
  then show ?thesis using w(1) lt unfolding e by (simp only: s) blast
qed

lemma bf_get_ok: "i < length (m_filter f) \<Longrightarrow> bf_get (int i) f = Some (m_filter f ! i)"
  by (simp add: bf_get_def check_bind)

lemma bf_put_ok: "i < length (m_filter f) \<Longrightarrow> bf_put (int i) v f = Some (f\<lparr>m_filter := (m_filter f)[i := v]\<rparr>)"
  by (simp add: bf_put_def check_bind)

lemma cells_ok_put [simp]: "cells_ok (f\<lparr>m_filter := (m_filter f)[i := v]\<rparr>) = cells_ok f"
  by (simp add: cells_ok_def)

lemma cells_ok_clear [simp]: "cells_ok f \<Longrightarrow> cells_ok (bf_clear f)"
  by (simp add: cells_ok_def bf_clear_def)

subsection \<open>Single-cell filters\<close>

definition nc_ok :: "ruby_config \<Rightarrow> non_counting_filter \<Rightarrow> bool" where
  "nc_ok c f \<longleftrightarrow> cells_ok f \<and> 0 < m_filter_size_bits f \<and> 0 \<le> block_bits c + nc_offset f \<and>
     block_bits c + nc_offset f + int (m_filter_size_bits f) \<le> 64"

lemma nc_index_ok:
  assumes "nc_ok c f"
  shows "\<exists>i < length (m_filter f). \<forall>m. nc_get_index c a (f\<lparr>m_filter := m\<rparr>) = Some (int i)"
proof -
  obtain w where w: "bitSelect (block_bits c + nc_offset f) (block_bits c + nc_offset f + int (m_filter_size_bits f) - 1) a = Some w"
      "to_int w = int (unat w)" "unat w < 2 ^ m_filter_size_bits f"
    using field_index [of "block_bits c + nc_offset f" "m_filter_size_bits f" a] assms cells_bits [of f] by (auto simp: nc_ok_def)
  then have "unat w < length (m_filter f)" using assms by (auto simp: nc_ok_def cells_ok_def)
  then show ?thesis using w by (auto simp: nc_get_index_def)
qed

definition block_ok :: "ruby_config \<Rightarrow> block_filter \<Rightarrow> bool" where
  "block_ok c f \<longleftrightarrow> cells_ok f \<and> 0 < g_DATA_BLOCK_BITS c \<and> g_DATA_BLOCK_BITS c \<le> m_filter_size_bits f \<and>
     2 * block_bits c + 5 + int (m_filter_size_bits f) \<le> 64"

lemma unat_xor_less: "unat (v :: 64 word) < 2 ^ n \<Longrightarrow> unat w < 2 ^ n \<Longrightarrow> unat (v XOR w) < 2 ^ n"
  unfolding take_bit_nat_eq_self_iff [symmetric] by (simp add: unsigned_xor_eq)

lemma block_index_ok:
  assumes "block_ok c f"
  shows "\<exists>i < length (m_filter f). \<forall>m. block_get_index c a (f\<lparr>m_filter := m\<rparr>) = Some (int i)"
proof -
  let ?n = "m_filter_size_bits f"
  have n: "?n \<le> 30" "length (m_filter f) = m_filter_size f" "2 ^ ?n \<le> m_filter_size f" "m_filter_size f < 2 ^ 31"
    using assms cells_bits [of f] by (auto simp: block_ok_def cells_ok_def)
  have e: "block_bits c + int (g_DATA_BLOCK_BITS c) - 1 = 2 * block_bits c - 1" by (simp add: block_bits_def)
  obtain v where v: "bitSelect (block_bits c) (2 * block_bits c - 1) a = Some v" "unat v < 2 ^ g_DATA_BLOCK_BITS c"
    using field_index [of "block_bits c" "g_DATA_BLOCK_BITS c" a] assms n(1) unfolding e by (auto simp: block_ok_def block_bits_def)
  obtain w where w: "bitSelect (2 * block_bits c + 5) (2 * block_bits c + 5 + int ?n - 1) a = Some w" "unat w < 2 ^ ?n"
    using field_index [of "2 * block_bits c + 5" ?n a] assms n(1) by (auto simp: block_ok_def block_bits_def)
  have "(2::nat) ^ g_DATA_BLOCK_BITS c \<le> 2 ^ ?n" using assms by (intro power_increasing) (auto simp: block_ok_def)
  then have lt: "unat (v XOR w) < 2 ^ ?n" using unat_xor_less [of v ?n w] v(2) w(2) by (meson order_less_le_trans)
  define k where "k = unat (v XOR w)"
  have k: "k < m_filter_size f" using lt n unfolding k_def by simp
  have k': "to_int (v XOR w) = int k" unfolding k_def using k n(4) by (intro to_int_small) (simp add: k_def)
  show ?thesis using v(1) w(1) n(2) k k' by (intro exI [of _ k]) (simp add: block_get_index_def Let_def check_bind)
qed

text \<open>A filter with one cell per address.\<close>

lemma single_set:
  assumes "i < length (m_filter f)" "cells_ok f"
  shows "bf_put (int i) 1 f = Some (f\<lparr>m_filter := (m_filter f)[i := 1]\<rparr>)" "bf_get (int i) f = Some (m_filter f ! i)"
  using assms by (simp_all add: bf_put_ok bf_get_ok)

definition cell_of :: "int option \<Rightarrow> nat" where
  "cell_of r = nat (the r)"

definition nc_covers :: "ruby_config \<Rightarrow> non_counting_filter \<Rightarrow> address \<Rightarrow> bool" where
  "nc_covers c f a \<longleftrightarrow> m_filter f ! cell_of (nc_get_index c a f) \<noteq> 0"

definition block_covers :: "ruby_config \<Rightarrow> block_filter \<Rightarrow> address \<Rightarrow> bool" where
  "block_covers c f a \<longleftrightarrow> m_filter f ! cell_of (block_get_index c a f) \<noteq> 0"

lemma put_covers: "i < length m \<Longrightarrow> (m :: int list)[i := 1] ! j \<noteq> 0 \<longleftrightarrow> i = j \<or> m ! j \<noteq> 0"
  by (cases "j < length m") (auto simp: nth_list_update)

interpretation nc: signature "nc_ok c" "nc_covers c" "nc_set c" "\<lambda>a f. map_option (\<lambda>b. (b, f)) (nc_isSet c a f)" bf_clear for c
proof unfold_locales
  fix f a
  assume f: "nc_ok c f"
  have same: "nc_get_index c b (f\<lparr>m_filter := m\<rparr>) = nc_get_index c b f" for b m by (simp add: nc_get_index_def)
  obtain i where i: "i < length (m_filter f)" "nc_get_index c a f = Some (int i)" using nc_index_ok [OF f, of a] same by auto
  show "\<exists>f'. nc_set c a f = Some f' \<and> nc_ok c f' \<and> nc_covers c f' a \<and> (\<forall>b. nc_covers c f b \<longrightarrow> nc_covers c f' b)"
    using f i by (auto simp: nc_set_def bf_put_ok nc_ok_def nc_covers_def same put_covers cell_of_def)
  show "\<exists>f'. map_option (\<lambda>b. (b, f)) (nc_isSet c a f) = Some (nc_covers c f a, f') \<and> nc_ok c f' \<and> nc_covers c f' = nc_covers c f"
    using f i by (simp add: nc_isSet_def bf_get_ok nc_covers_def cell_of_def)
  have "length (m_filter f) = m_filter_size f" using f by (simp add: nc_ok_def cells_ok_def)
  then show "nc_ok c (bf_clear f) \<and> \<not> nc_covers c (bf_clear f) a"
    using f i same by (simp add: nc_ok_def nc_covers_def bf_clear_def cell_of_def cells_ok_def)
qed

interpretation blk: signature "block_ok c" "block_covers c" "block_set c" "\<lambda>a f. map_option (\<lambda>b. (b, f)) (block_isSet c a f)" bf_clear for c
proof unfold_locales
  fix f a
  assume f: "block_ok c f"
  have same: "block_get_index c b (f\<lparr>m_filter := m\<rparr>) = block_get_index c b f" for b m by (simp add: block_get_index_def)
  obtain i where i: "i < length (m_filter f)" "block_get_index c a f = Some (int i)" using block_index_ok [OF f, of a] same by auto
  show "\<exists>f'. block_set c a f = Some f' \<and> block_ok c f' \<and> block_covers c f' a \<and> (\<forall>b. block_covers c f b \<longrightarrow> block_covers c f' b)"
    using f i by (auto simp: block_set_def bf_put_ok block_ok_def block_covers_def same put_covers cell_of_def)
  show "\<exists>f'. map_option (\<lambda>b. (b, f)) (block_isSet c a f) = Some (block_covers c f a, f') \<and> block_ok c f' \<and> block_covers c f' = block_covers c f"
    using f i by (simp add: block_isSet_def bf_get_ok block_covers_def cell_of_def)
  have "length (m_filter f) = m_filter_size f" using f by (simp add: block_ok_def cells_ok_def)
  then show "block_ok c (bf_clear f) \<and> \<not> block_covers c (bf_clear f) a"
    using f i same by (simp add: block_ok_def block_covers_def bf_clear_def cell_of_def cells_ok_def)
qed

subsection \<open>\<^verbatim>\<open>BulkBloomFilter\<close>\<close>

text \<open>Between operations the temporary filter is zero.\<close>

definition bulk_ok :: "ruby_config \<Rightarrow> bulk_filter \<Rightarrow> bool" where
  "bulk_ok c f \<longleftrightarrow> cells_ok f \<and> 2 \<le> m_filter_size_bits f \<and> bk_sector_bits f = int (m_filter_size_bits f) - 1 \<and>
     block_bits c + 2 * bk_sector_bits f \<le> 64 \<and> bk_temp f = replicate (m_filter_size f) 0"

definition bulk_cells :: "ruby_config \<Rightarrow> bulk_filter \<Rightarrow> address \<Rightarrow> nat \<times> nat" where
  "bulk_cells c f a = (case the (bulk_parts c a f) of (c0, c1) \<Rightarrow> (nat c0 + m_filter_size f div 2, nat c1))"

definition bulk_covers :: "ruby_config \<Rightarrow> bulk_filter \<Rightarrow> address \<Rightarrow> bool" where
  "bulk_covers c f a \<longleftrightarrow> m_filter f ! fst (bulk_cells c f a) \<noteq> 0 \<and> m_filter f ! snd (bulk_cells c f a) \<noteq> 0"

lemma bulk_parts_ok:
  assumes "bulk_ok c f"
  shows "\<exists>c0 c1. bulk_parts c a f = Some (int c0, int c1) \<and> c0 + m_filter_size f div 2 < length (m_filter f) \<and>
    c1 < m_filter_size f div 2 \<and> bulk_cells c f a = (c0 + m_filter_size f div 2, c1)"
proof -
  let ?n = "m_filter_size_bits f - 1"
  have n: "0 < ?n" "?n \<le> 30" "bk_sector_bits f = int ?n" "length (m_filter f) = m_filter_size f" "2 ^ m_filter_size_bits f \<le> m_filter_size f"
    using assms cells_bits [of f] by (auto simp: bulk_ok_def cells_ok_def)
  have "(2::nat) ^ m_filter_size_bits f = 2 * 2 ^ ?n" 
  proof -
    have "m_filter_size_bits f = Suc ?n" using n(1) by simp
    then show ?thesis by (metis power_Suc)
  qed
  then have half: "2 ^ ?n \<le> m_filter_size f div 2" using n(5) by linarith
  have e: "block_bits c + int ?n + int ?n - 1 = block_bits c + 2 * int ?n - 1" by simp
  obtain v where v: "bitSelect (block_bits c) (block_bits c + int ?n - 1) a = Some v" "to_int v = int (unat v)" "unat v < 2 ^ ?n"
    using field_index [of "block_bits c" ?n a] assms n by (auto simp: bulk_ok_def block_bits_def)
  obtain w where w: "bitSelect (block_bits c + int ?n) (block_bits c + 2 * int ?n - 1) a = Some w" "to_int w = int (unat w)" "unat w < 2 ^ ?n"
    using field_index [of "block_bits c + int ?n" ?n a] assms n unfolding e by (auto simp: bulk_ok_def block_bits_def)
  define c0 c1 where "c0 = unat v" "c1 = unat w"
  have "bulk_parts c a f = Some (to_int v, to_int w)" using v(1) w(1) n(3) by (simp add: bulk_parts_def Let_def)
  then have p: "bulk_parts c a f = Some (int c0, int c1)" using v(2) w(2) by (simp only: c0_c1_def)
  have "c0 < 2 ^ ?n" "c1 < 2 ^ ?n" using v(3) w(3) by (simp_all add: c0_c1_def)
  then show ?thesis using half n(4) p by (intro exI [of _ c0] exI [of _ c1]) (auto simp: bulk_cells_def)
qed

lemma bulk_parts_same: "bulk_parts c a (f\<lparr>m_filter := m\<rparr>) = bulk_parts c a f" "bulk_parts c a (f\<lparr>bk_temp := t\<rparr>) = bulk_parts c a f"
  by (simp_all add: bulk_parts_def)

lemma bulk_cells_same: "bulk_cells c (f\<lparr>m_filter := m\<rparr>) = bulk_cells c f"
  by (simp add: bulk_cells_def bulk_parts_same fun_eq_iff)

text \<open>The intersection of the two-bit signature of one address with the filter leaves the bits that
  the filter has, one per half.\<close>

lemma bulk_isSet_ok:
  assumes f: "bulk_ok c f"
  shows "bulk_isSet c a f = Some (bulk_covers c f a, f)"
proof -
  obtain c0 c1 where p: "bulk_parts c a f = Some (int c0, int c1)" "c0 + m_filter_size f div 2 < length (m_filter f)"
      "c1 < m_filter_size f div 2" "bulk_cells c f a = (c0 + m_filter_size f div 2, c1)"
    using bulk_parts_ok [OF f, of a] by blast
  let ?h = "m_filter_size f div 2" and ?n = "m_filter_size f"
  have len: "length (m_filter f) = ?n" "bk_temp f = replicate ?n 0" using f by (auto simp: bulk_ok_def cells_ok_def)
  define t where "t = (replicate ?n 0)[c0 + ?h := 1, c1 := 1 :: int]"
  have t: "t ! i \<noteq> 0 \<longleftrightarrow> i = c0 + ?h \<or> i = c1" if "i < ?n" for i
    using that p(2,3) len by (auto simp: t_def nth_list_update)
  have lt: "length t = ?n" by (simp add: t_def)
  define meet where "meet lo hi s = map (\<lambda>i. if lo \<le> i \<and> i < hi then (if s ! i \<noteq> 0 \<and> m_filter f ! i \<noteq> 0 then 1 else 0) else s ! i) [0..<length s]"
    for lo hi and s :: "int list"
  have m_len: "length (meet lo hi s) = length s" for lo hi s by (simp add: meet_def)
  have m1: "meet 0 ?h t ! i \<noteq> 0 \<longleftrightarrow> i = c0 + ?h \<or> i = c1 \<and> m_filter f ! c1 \<noteq> 0" if "i < ?n" for i
    using that t [OF that] lt p(2,3) len by (auto simp: meet_def)
  have m2: "meet ?h ?n (meet 0 ?h t) ! i \<noteq> 0 \<longleftrightarrow> i = c0 + ?h \<and> m_filter f ! (c0 + ?h) \<noteq> 0 \<or> i = c1 \<and> m_filter f ! c1 \<noteq> 0" if "i < ?n" for i
    using that m1 [OF that] lt p(2,3) len m_len by (auto simp: meet_def [of ?h])
  have reset: "s[c0 + ?h := 0, c1 := 0] = replicate ?n 0" if "length s = ?n" "\<forall>i < ?n. s ! i \<noteq> 0 \<longrightarrow> i = c0 + ?h \<or> i = c1" for s :: "int list"
    using that p(2,3) len by (intro nth_equalityI) (auto simp: nth_list_update)
  have e1: "list_ex (\<lambda>i. meet 0 ?h t ! i \<noteq> 0) [0..<?h] \<longleftrightarrow> m_filter f ! c1 \<noteq> 0"
    using m1 p(2,3) len by (auto simp: list_ex_iff)
  have e2: "list_ex (\<lambda>i. meet ?h ?n (meet 0 ?h t) ! i \<noteq> 0) [?h..<?n] \<longleftrightarrow> m_filter f ! (c0 + ?h) \<noteq> 0"
    using m2 p(2,3) len by (auto simp: list_ex_iff)
  have r1: "(meet 0 ?h t)[c0 + ?h := 0, c1 := 0] = replicate ?n 0" by (rule reset) (use m1 m_len lt in auto)
  have r2: "(meet ?h ?n (meet 0 ?h t))[c0 + ?h := 0, c1 := 0] = replicate ?n 0" by (rule reset) (use m2 m_len lt in auto)
  have i0: "nat (int c0 + int ?h) = c0 + ?h" by simp
  have put: "temp_put (int c0 + int ?h) v g = Some (g\<lparr>bk_temp := (bk_temp g)[c0 + ?h := v]\<rparr>)"
    "temp_put (int c1) v g = Some (g\<lparr>bk_temp := (bk_temp g)[c1 := v]\<rparr>)" if "length (bk_temp g) = ?n" for v g
    using that p(2,3) len by (simp_all add: temp_put_def check_bind i0)
  have bm: "bulk_meet lo hi (f\<lparr>bk_temp := s\<rparr>) = f\<lparr>bk_temp := meet lo hi s\<rparr>" for lo hi s by (simp add: bulk_meet_def meet_def)
  have rest: "f\<lparr>bk_temp := replicate ?n 0\<rparr> = f" using len(2) by (metis bulk_filter.surjective bulk_filter.update_convs(1))
  show ?thesis
  proof (cases "m_filter f ! c1 = 0")
    case True
    then show ?thesis
      using p(1,4) len put e1 r1 rest lt m_len
      by (simp add: bulk_isSet_def Let_def bulk_covers_def bm flip: t_def)
  next
    case False
    then show ?thesis
      using p(1,4) len put e1 e2 r2 rest lt m_len
      by (simp add: bulk_isSet_def Let_def bulk_covers_def bm flip: t_def)
  qed
qed

interpretation bulk: signature "bulk_ok c" "bulk_covers c" "bulk_set c" "bulk_isSet c" bf_clear for c
proof unfold_locales
  fix f a
  assume f: "bulk_ok c f"
  obtain c0 c1 where p: "bulk_parts c a f = Some (int c0, int c1)" "c0 + m_filter_size f div 2 < length (m_filter f)"
      "c1 < m_filter_size f div 2" "bulk_cells c f a = (c0 + m_filter_size f div 2, c1)"
    using bulk_parts_ok [OF f, of a] by blast
  let ?i = "c0 + m_filter_size f div 2"
  let ?f = "f\<lparr>m_filter := (m_filter f)[?i := 1, c1 := 1]\<rparr>"
  have put: "bf_put (int c0 + int (m_filter_size f div 2)) 1 f = Some (f\<lparr>m_filter := (m_filter f)[?i := 1]\<rparr>)"
    using bf_put_ok [of ?i f 1] p(2) by simp
  have "bulk_set c a f = Some ?f"
    using p(1-3) put bf_put_ok [of c1 "f\<lparr>m_filter := (m_filter f)[?i := 1]\<rparr>" 1] by (simp add: bulk_set_def)
  moreover have "bulk_ok c ?f" using f by (simp add: bulk_ok_def cells_ok_def)
  moreover have "bulk_covers c ?f a" using p by (simp add: bulk_covers_def bulk_cells_same nth_list_update)
  moreover have "bulk_covers c f b \<longrightarrow> bulk_covers c ?f b" for b
    using p(2,3) by (auto simp: bulk_covers_def bulk_cells_same put_covers)
  ultimately show "\<exists>f'. bulk_set c a f = Some f' \<and> bulk_ok c f' \<and> bulk_covers c f' a \<and> (\<forall>b. bulk_covers c f b \<longrightarrow> bulk_covers c f' b)"
    by blast
  show "\<exists>f'. bulk_isSet c a f = Some (bulk_covers c f a, f') \<and> bulk_ok c f' \<and> bulk_covers c f' = bulk_covers c f"
    using bulk_isSet_ok [OF f] f by blast
  have "length (m_filter f) = m_filter_size f" using f by (simp add: bulk_ok_def cells_ok_def)
  then show "bulk_ok c (bf_clear f) \<and> \<not> bulk_covers c (bf_clear f) a"
    using f p by (simp add: bulk_ok_def bulk_covers_def bf_clear_def bulk_cells_same cells_ok_def)
qed

subsection \<open>Filters with several hash functions\<close>

definition mh_ok :: "multi_hash_filter \<Rightarrow> bool" where
  "mh_ok f \<longleftrightarrow> cells_ok f \<and> 0 < mh_num_hashes f \<and> 0 < mh_par_filter_size f \<and> mh_num_hashes f * mh_par_filter_size f \<le> m_filter_size f"

definition mh_cells :: "(nat \<Rightarrow> multi_hash_filter \<Rightarrow> int option) \<Rightarrow> multi_hash_filter \<Rightarrow> nat list" where
  "mh_cells g f = map (\<lambda>i. cell_of (g i f)) [0..<mh_num_hashes f]"

definition mh_covers :: "(nat \<Rightarrow> multi_hash_filter \<Rightarrow> int option) \<Rightarrow> multi_hash_filter \<Rightarrow> bool" where
  "mh_covers g f \<longleftrightarrow> (\<forall>j \<in> set (mh_cells g f). m_filter f ! j \<noteq> 0)"

lemma hash_cell_same [simp]: "hash_cell y i (f\<lparr>m_filter := m\<rparr>) = hash_cell y i f"
  by (simp add: hash_cell_def)

lemma hash_cell_range:
  assumes "mh_ok f" "i < mh_num_hashes f"
  shows "0 \<le> hash_cell y i f \<and> hash_cell y i f < int (length (m_filter f))"
proof -
  have l: "length (m_filter f) = m_filter_size f" "2 ^ m_filter_size_bits f \<le> m_filter_size f"
    using assms by (auto simp: mh_ok_def cells_ok_def)
  have pos: "0 < m_filter_size f" by (rule order_less_le_trans [OF _ l(2)]) simp
  have "y mod int (mh_par_filter_size f) + int i * int (mh_par_filter_size f) < int (mh_num_hashes f) * int (mh_par_filter_size f)"
  proof -
    have "y mod int (mh_par_filter_size f) < int (mh_par_filter_size f)" using assms by (simp add: mh_ok_def)
    moreover have "(int i + 1) * int (mh_par_filter_size f) \<le> int (mh_num_hashes f) * int (mh_par_filter_size f)"
      using assms(2) by (intro mult_right_mono) auto
    ultimately show ?thesis by (simp add: algebra_simps)
  qed
  also have "\<dots> \<le> int (m_filter_size f)" using assms(1) by (simp add: mh_ok_def flip: of_nat_mult)
  finally show ?thesis using assms(1) l(1) pos by (auto simp: hash_cell_def mh_ok_def)
qed

text \<open>The hash functions depend on the parameters of the filter only.\<close>

locale hash_family =
  fixes ok :: "multi_hash_filter \<Rightarrow> bool" and g :: "address \<Rightarrow> nat \<Rightarrow> multi_hash_filter \<Rightarrow> int option"
  assumes ok_mh: "ok f \<Longrightarrow> mh_ok f" and ok_cells: "ok f \<Longrightarrow> length m = length (m_filter f) \<Longrightarrow> ok (f\<lparr>m_filter := m\<rparr>)"
    and index: "ok f \<Longrightarrow> i < mh_num_hashes f \<Longrightarrow> \<exists>k < length (m_filter f). g a i f = Some (int k)"
    and same: "g a i (f\<lparr>m_filter := m\<rparr>) = g a i f"
begin

lemma cells_same: "mh_cells (g a) (f\<lparr>m_filter := m\<rparr>) = mh_cells (g a) f"
  by (simp add: mh_cells_def same)

lemma set_fold:
  assumes "ok f" "set is \<subseteq> {..< mh_num_hashes f}"
  shows "\<exists>m. fold_opt (\<lambda>i f. do { idx \<leftarrow> g a i f; bf_put idx 1 f }) is f = Some (f\<lparr>m_filter := m\<rparr>) \<and> length m = length (m_filter f) \<and>
    (\<forall>j. m ! j \<noteq> 0 \<longleftrightarrow> m_filter f ! j \<noteq> 0 \<or> j \<in> (\<lambda>i. cell_of (g a i f)) ` set is)"
  using assms
proof (induction "is" arbitrary: f)
  case Nil
  have "f = f\<lparr>m_filter := m_filter f\<rparr>" by simp
  then show ?case by (intro exI [of _ "m_filter f"]) simp
next
  case (Cons i "is")
  obtain k where k: "k < length (m_filter f)" "g a i f = Some (int k)" using index [OF Cons.prems(1), of i a] Cons.prems(2) by auto
  let ?f = "f\<lparr>m_filter := (m_filter f)[k := 1]\<rparr>"
  have "ok ?f" using ok_cells [OF Cons.prems(1)] by simp
  with Cons.IH [of ?f] Cons.prems(2) obtain m where m: "fold_opt (\<lambda>i f. do { idx \<leftarrow> g a i f; bf_put idx 1 f }) is ?f = Some (?f\<lparr>m_filter := m\<rparr>)"
      "length m = length (m_filter f)" "\<forall>j. m ! j \<noteq> 0 \<longleftrightarrow> m_filter ?f ! j \<noteq> 0 \<or> j \<in> (\<lambda>i. cell_of (g a i ?f)) ` set is" by auto
  have "m ! j \<noteq> 0 \<longleftrightarrow> m_filter f ! j \<noteq> 0 \<or> j \<in> (\<lambda>i. cell_of (g a i f)) ` set (i # is)" for j
    using m(3) [rule_format, of j] put_covers [OF k(1), of j] k(2) by (auto simp: same cell_of_def)
  then show ?case using m(1,2) k by (intro exI [of _ m]) (simp add: bf_put_ok)
qed

lemma hash_set_ok:
  assumes "ok f"
  shows "\<exists>f'. hash_set (g a) f = Some f' \<and> ok f' \<and> mh_covers (g a) f' \<and> (\<forall>b. mh_covers (g b) f \<longrightarrow> mh_covers (g b) f')"
proof -
  obtain m where m: "hash_set (g a) f = Some (f\<lparr>m_filter := m\<rparr>)" "length m = length (m_filter f)"
      "\<forall>j. m ! j \<noteq> 0 \<longleftrightarrow> m_filter f ! j \<noteq> 0 \<or> j \<in> set (mh_cells (g a) f)"
    using set_fold [OF assms, of "[0..<mh_num_hashes f]" a] by (auto simp: hash_set_def mh_cells_def atLeast0LessThan)
  then show ?thesis using ok_cells [OF assms m(2)] by (auto simp: mh_covers_def cells_same)
qed

lemma isSet_fold:
  assumes "ok f" "set is \<subseteq> {..< mh_num_hashes f}"
  shows "fold_opt (\<lambda>i res. do { idx \<leftarrow> g a i f; if res then do { v \<leftarrow> bf_get idx f; Some (v \<noteq> 0) } else Some False }) is res =
    Some (res \<and> (\<forall>i \<in> set is. m_filter f ! cell_of (g a i f) \<noteq> 0))"
  using assms(2)
proof (induction "is" arbitrary: res)
  case (Cons i "is")
  obtain k where k: "k < length (m_filter f)" "g a i f = Some (int k)" using index [OF assms(1), of i a] Cons.prems by auto
  then show ?case using Cons by (cases res) (auto simp: bf_get_ok cell_of_def)
qed simp

lemma hash_isSet_ok: "ok f \<Longrightarrow> hash_isSet (g a) f = Some (mh_covers (g a) f)"
  using isSet_fold [of f "[0..<mh_num_hashes f]" a True]
  by (simp add: hash_isSet_def mh_covers_def mh_cells_def atLeast0LessThan)

lemma hash_clear_ok: "ok f \<Longrightarrow> ok (bf_clear f) \<and> \<not> mh_covers (g a) (bf_clear f)"
proof
  assume f: "ok f"
  have m: "mh_ok f" using ok_mh [OF f] .
  then have l: "length (m_filter f) = m_filter_size f" "0 < mh_num_hashes f" by (simp_all add: mh_ok_def cells_ok_def)
  show "ok (bf_clear f)" unfolding bf_clear_def using l by (intro ok_cells [OF f]) simp
  obtain k where k: "k < length (m_filter f)" "g a 0 f = Some (int k)" using index [OF f, of 0 a] l(2) by auto
  then have "k = cell_of (g a 0 f)" "0 \<in> {0..<mh_num_hashes f}" using l(2) by (simp_all add: cell_of_def)
  then have "k \<in> set (mh_cells (g a) (bf_clear f))" 
    unfolding bf_clear_def cells_same unfolding mh_cells_def set_map set_upt by (rule image_eqI)
  then show "\<not> mh_covers (g a) (bf_clear f)" using k(1) l(1)
    by (auto simp: mh_covers_def bf_clear_def intro!: bexI [of _ k])
qed

end

sublocale hash_family \<subseteq> signature ok "\<lambda>f a. mh_covers (g a) f" "\<lambda>a. hash_set (g a)" "\<lambda>a f. map_option (\<lambda>b. (b, f)) (hash_isSet (g a) f)" bf_clear
  using hash_set_ok hash_isSet_ok hash_clear_ok by unfold_locales auto

definition mbs_ok :: "ruby_config \<Rightarrow> multi_hash_filter \<Rightarrow> bool" where
  "mbs_ok c f \<longleftrightarrow> mh_ok f \<and> g_DATA_BLOCK_BITS c < 64 \<and> shift_ok (mh_skip_bits f)"

definition h3_ok :: "ruby_config \<Rightarrow> multi_hash_filter \<Rightarrow> bool" where
  "h3_ok c f \<longleftrightarrow> mh_ok f \<and> g_DATA_BLOCK_BITS c < 64 \<and> mh_num_hashes f \<le> 16"

lemma mh_ok_cells: "mh_ok f \<Longrightarrow> length m = length (m_filter f) \<Longrightarrow> mh_ok (f\<lparr>m_filter := m\<rparr>)"
  by (simp add: mh_ok_def cells_ok_def)

lemma hash_index:
  assumes "mh_ok f" "i < mh_num_hashes f"
  shows "\<exists>k < length (m_filter f). hash_cell y i f = int k"
  using hash_cell_range [OF assms, of y] by (intro exI [of _ "nat (hash_cell y i f)"]) auto

lemma hash_H3_total: "index < 16 \<Longrightarrow> hash_H3 v index \<noteq> None"
proof -
  assume i: "index < 16"
  have "fold_opt (\<lambda>i r. if bit v i then do { check (index < 16); Some (r XOR (H3 ! i ! index)) } else Some r) is r \<noteq> None" for "is" r
    by (induction "is" arbitrary: r) (auto simp: i check_bind)
  then show ?thesis by (simp add: hash_H3_def)
qed

interpretation mbs: hash_family "mbs_ok c" "mbs_get_index c" for c
proof unfold_locales
  fix f :: multi_hash_filter and i a
  assume f: "mbs_ok c f" "i < mh_num_hashes f"
  obtain l where l: "getLineAddress c a = Some l" using bitSelect_top [of "g_DATA_BLOCK_BITS c" a] f(1) by (auto simp: getLineAddress_def mbs_ok_def)
  have sk: "shift_ok (mh_skip_bits f)" "mh_ok f" using f(1) by (simp_all add: mbs_ok_def)
  then show "\<exists>k < length (m_filter f). mbs_get_index c a i f = Some (int k)"
    using l hash_index [OF sk(2) f(2)] by (simp add: mbs_get_index_def check_bind Let_def)
qed (auto simp: mbs_ok_def mbs_get_index_def mh_ok_cells)

interpretation h3: hash_family "h3_ok c" "h3_get_index c" for c
proof unfold_locales
  fix f :: multi_hash_filter and i a
  assume f: "h3_ok c f" "i < mh_num_hashes f"
  obtain l where l: "getLineAddress c a = Some l" using bitSelect_top [of "g_DATA_BLOCK_BITS c" a] f(1) by (auto simp: getLineAddress_def h3_ok_def)
  have sk: "mh_ok f" "i < 16" using f by (simp_all add: h3_ok_def)
  then obtain y where y: "hash_H3 l i = Some y" using hash_H3_total [of i l] by blast
  show "\<exists>k < length (m_filter f). h3_get_index c a i f = Some (int k)"
    using l y hash_index [OF sk(1) f(2), of y] by (simp add: h3_get_index_def)
qed (auto simp: h3_ok_def h3_get_index_def mh_ok_cells)

subsection \<open>The front end\<close>

text \<open>The conditions on the configuration under which the index functions of a filter are defined for every
  address.\<close>

primrec generic_usable :: "ruby_config \<Rightarrow> generic_filter \<Rightarrow> bool" where
  "generic_usable c (F_LSB f) = False"
| "generic_usable c (F_NonCounting f) \<longleftrightarrow> 0 < m_filter_size_bits f \<and> 0 \<le> block_bits c + nc_offset f \<and>
     block_bits c + nc_offset f + int (m_filter_size_bits f) \<le> 64"
| "generic_usable c (F_Bulk f) \<longleftrightarrow> 2 \<le> m_filter_size_bits f \<and> block_bits c + 2 * bk_sector_bits f \<le> 64"
| "generic_usable c (F_Block f) \<longleftrightarrow> 0 < g_DATA_BLOCK_BITS c \<and> g_DATA_BLOCK_BITS c \<le> m_filter_size_bits f \<and>
     2 * block_bits c + 5 + int (m_filter_size_bits f) \<le> 64"
| "generic_usable c (F_MultiGrain f) = False"
| "generic_usable c (F_MultiBitSel f) \<longleftrightarrow> g_DATA_BLOCK_BITS c < 64 \<and> shift_ok (mh_skip_bits f)"
| "generic_usable c (F_H3 f) \<longleftrightarrow> g_DATA_BLOCK_BITS c < 64 \<and> mh_num_hashes f \<le> 16"

primrec generic_ok :: "ruby_config \<Rightarrow> generic_filter \<Rightarrow> bool" where
  "generic_ok c (F_LSB f) = False"
| "generic_ok c (F_NonCounting f) = nc_ok c f"
| "generic_ok c (F_Bulk f) = bulk_ok c f"
| "generic_ok c (F_Block f) = block_ok c f"
| "generic_ok c (F_MultiGrain f) = False"
| "generic_ok c (F_MultiBitSel f) = mbs_ok c f"
| "generic_ok c (F_H3 f) = h3_ok c f"

primrec generic_covers :: "ruby_config \<Rightarrow> generic_filter \<Rightarrow> address \<Rightarrow> bool" where
  "generic_covers c (F_LSB f) = (\<lambda>a. False)"
| "generic_covers c (F_NonCounting f) = nc_covers c f"
| "generic_covers c (F_Bulk f) = bulk_covers c f"
| "generic_covers c (F_Block f) = block_covers c f"
| "generic_covers c (F_MultiGrain f) = (\<lambda>a. False)"
| "generic_covers c (F_MultiBitSel f) = (\<lambda>a. mh_covers (mbs_get_index c a) f)"
| "generic_covers c (F_H3 f) = (\<lambda>a. mh_covers (h3_get_index c a) f)"

interpretation generic: signature "generic_ok c" "generic_covers c" "generic_set c" "generic_isSet c" generic_clear for c
proof unfold_locales
  fix g a
  assume g: "generic_ok c g"
  show "\<exists>g'. generic_set c a g = Some g' \<and> generic_ok c g' \<and> generic_covers c g' a \<and> (\<forall>b. generic_covers c g b \<longrightarrow> generic_covers c g' b)"
  proof (cases g)
    case (F_NonCounting f)
    then show ?thesis using nc.add_ok [of c f a] g by auto
  next
    case (F_Bulk f)
    then show ?thesis using bulk.add_ok [of c f a] g by auto
  next
    case (F_Block f)
    then show ?thesis using blk.add_ok [of c f a] g by auto
  next
    case (F_MultiBitSel f)
    then show ?thesis using mbs.add_ok [of c f a] g by (auto simp: mbs_set_def)
  next
    case (F_H3 f)
    then show ?thesis using h3.add_ok [of c f a] g by (auto simp: h3_set_def)
  qed (use g in auto)
  show "\<exists>g'. generic_isSet c a g = Some (generic_covers c g a, g') \<and> generic_ok c g' \<and> generic_covers c g' = generic_covers c g"
  proof (cases g)
    case (F_NonCounting f)
    then show ?thesis using nc.isSet_ok [of c f a] g by auto
  next
    case (F_Bulk f)
    then show ?thesis using bulk_isSet_ok [of c f a] g by auto
  next
    case (F_Block f)
    then show ?thesis using blk.isSet_ok [of c f a] g by auto
  next
    case (F_MultiBitSel f)
    then show ?thesis using mbs.hash_isSet_ok [of c f a] g by (auto simp: mbs_isSet_def)
  next
    case (F_H3 f)
    then show ?thesis using h3.hash_isSet_ok [of c f a] g by (auto simp: h3_isSet_def)
  qed (use g in auto)
  show "generic_ok c (generic_clear g) \<and> \<not> generic_covers c (generic_clear g) a"
    using g nc.clear_ok bulk.clear_ok blk.clear_ok mbs.clear_ok h3.clear_ok by (cases g) auto
qed

lemma filter_size_ok: "filter_size n = Some (sz, bits) \<Longrightarrow> sz = nat n \<and> 0 < sz \<and> 2 ^ bits \<le> sz"
  by (auto simp: filter_size_def bind_Some_iff log_int_Some)

lemma atoi_range: "atoi s = Some v \<Longrightarrow> v < 2 ^ 31"
  by (auto simp: atoi_def bind_Some_iff split: option.splits)

lemma cells_ok_new: "atoi s = Some n \<Longrightarrow> filter_size n = Some (sz, bits) \<Longrightarrow> 2 ^ bits \<le> sz \<and> sz < 2 ^ 31 \<and> 0 < sz"
  using filter_size_ok [of n sz bits] atoi_range [of s n] by auto

lemma multi_hash_new_ok:
  assumes "atoi s = Some n" "multi_hash_new n hashes skip tail = Some f"
  shows "mh_ok f \<and> bf_clear f = f"
proof -
  obtain sz bits psize pbits par where f: "filter_size n = Some (sz, bits)" "0 < hashes" "filter_size (n div hashes) = Some (psize, pbits)"
      "f = \<lparr>m_filter = replicate sz 0, m_filter_size = sz, m_filter_size_bits = bits, mh_num_hashes = nat hashes,
       mh_skip_bits = skip, mh_par_filter_size = psize, mh_par_filter_size_bits = pbits, mh_isParallel = par\<rparr>"
    using assms(2) by (auto simp: multi_hash_new_def bind_Some_iff)
  note c = cells_ok_new [OF assms(1) f(1)] and p = filter_size_ok [OF f(3)] and s = filter_size_ok [OF f(1)]
  have "hashes * (n div hashes) \<le> n" using mult_div_mod_eq [of hashes n] pos_mod_sign [OF f(2), of n] by linarith
  then have "int (nat hashes * psize) \<le> int sz" using p s f(2) by (simp add: nat_mult_distrib)
  then have "nat hashes * psize \<le> sz" by (simp only: of_nat_le_iff)
  moreover have "0 < psize" using p by blast
  ultimately show ?thesis using f(2,4) c by (simp add: mh_ok_def cells_ok_def bf_clear_def)
qed

lemma generic_new_ok:
  assumes "generic_new config = Some g" "generic_usable c g"
  shows "generic_ok c g \<and> generic_clear g = g"
proof -
  obtain h t where ht: "string_split CHR ''_'' config = (h, t)" by (cases "string_split CHR ''_'' config")
  consider f where "nc_new t = Some f" "g = F_NonCounting f" | f where "bulk_new t = Some f" "g = F_Bulk f"
    | f where "block_new t = Some f" "g = F_Block f" | f where "mbs_new t = Some f" "g = F_MultiBitSel f"
    | f where "h3_new t = Some f" "g = F_H3 f"
    using assms ht by (auto simp: generic_new_def split: if_splits)
  then show ?thesis
  proof cases
    case (1 f)
    then show ?thesis using assms(2) cells_ok_new
      by (auto simp: nc_new_def nc_ok_def cells_ok_def bf_clear_def bind_Some_iff split: prod.splits)
  next
    case (2 f)
    then show ?thesis using assms(2) cells_ok_new
      by (auto simp: bulk_new_def bulk_ok_def cells_ok_def bf_clear_def bind_Some_iff split: prod.splits)
  next
    case (3 f)
    then show ?thesis using assms(2) cells_ok_new
      by (auto simp: block_new_def block_ok_def cells_ok_def bf_clear_def bind_Some_iff split: prod.splits)
  next
    case (4 f)
    then obtain s n hashes skip tail where "atoi s = Some n" "multi_hash_new n hashes skip tail = Some f"
      unfolding mbs_new_def Let_def case_prod_beta by (auto simp: bind_Some_iff)
    from multi_hash_new_ok [OF this] show ?thesis using 4(2) assms(2) by (simp add: mbs_ok_def)
  next
    case (5 f)
    then obtain s n hashes skip tail where "atoi s = Some n" "multi_hash_new n hashes skip tail = Some f"
      unfolding h3_new_def Let_def case_prod_beta by (auto simp: bind_Some_iff)
    from multi_hash_new_ok [OF this] show ?thesis using 5(2) assms(2) by (simp add: h3_ok_def)
  qed
qed



text \<open>The multi-grain filter is not a signature: asking for its total count clears the page filter (an assignment
  in the loop), so an address that was added is no longer reported.\<close>

lemma multi_grain_count_forgets:
  assumes "generic_set c a (F_MultiGrain f) = Some g" "mg_page_filter_size f = length (mg_page_filter f)"
    "generic_isSet c a g = Some (True, g)"
  shows "generic_isSet c a (snd (generic_getTotalCount g)) = Some (False, snd (generic_getTotalCount g))"
proof -
  obtain f' where g: "g = F_MultiGrain f'" "mg_set c a f = Some f'" using assms(1) by auto
  obtain i j where ij: "mg_indices c a f' = Some (i, j)" "0 \<le> i" "i < int (length (m_filter f'))" "m_filter f' ! nat i \<noteq> 0"
      "i < int (length (mg_page_filter f'))"
    using assms(3) g(1) by (auto simp: mg_isSet_def bf_get_def bind_Some_iff split: if_splits)
  have len: "length (mg_page_filter f') = mg_page_filter_size f'"
    using g(2) assms(2) by (auto simp: mg_set_def bf_put_def bind_Some_iff)
  let ?f = "f'\<lparr>mg_page_filter := replicate (mg_page_filter_size f') 0\<rparr>"
  have "mg_indices c a ?f = mg_indices c a f'" by (simp add: mg_indices_def mg_get_block_index_def mg_get_page_index_def)
  then have "mg_isSet c a ?f = Some False" using ij len by (simp add: mg_isSet_def bf_get_def check_bind nat_less_iff)
  then show ?thesis using g(1) by (simp add: mg_getTotalCount_def)
qed

definition sample_grain :: multi_grain_filter where
  "sample_grain = \<lparr>m_filter = replicate 8 0, m_filter_size = 8, m_filter_size_bits = 3, mg_page_filter = replicate 8 0,
     mg_page_filter_size = 8, mg_page_filter_size_bits = 3\<rparr>"

text \<open>No configuration string selects the counting filter: \<^verbatim>\<open>GenericBloomFilter\<close> splits at the first underscore, so the
  name it compares with \<^verbatim>\<open>LSB_Counting\<close> never contains one; and the guard that should bound the
  counters of that filter does not, every increment adds one.\<close>

lemma counting_filter_unreachable:
  "generic_new config \<noteq> Some (F_LSB f) \<and>
   (lsb_get_index c a f = Some i \<and> bf_get i f = Some v \<longrightarrow> (\<exists>f'. lsb_increment c a f = Some f' \<and> bf_get i f' = Some (v + 1)))"
proof
  have "CHR ''_'' \<notin> set (fst (string_split CHR ''_'' s))" for s by (induction s) (auto split: prod.splits)
  from this [of config] have "fst (string_split CHR ''_'' config) \<noteq> ''LSB_Counting''" by auto
  then show "generic_new config \<noteq> Some (F_LSB f)" by (auto simp: generic_new_def split: prod.splits if_splits)
  show "lsb_get_index c a f = Some i \<and> bf_get i f = Some v \<longrightarrow> (\<exists>f'. lsb_increment c a f = Some f' \<and> bf_get i f' = Some (v + 1))"
    by (auto simp: lsb_increment_def bf_get_def bf_put_def bind_Some_iff check_bind)
qed

end
