(* ===== verification/Net_Throttle.thy ===== *)
theory Net_Throttle
  imports Net_Dest Message_Buffer
begin

text \<open>
  The links of the simple network: \<^verbatim>\<open>network/simple/Throttle.C\<close> and \<^verbatim>\<open>.h\<close>, with \<^verbatim>\<open>MessageSizeType_to_int\<close> of
  \<^verbatim>\<open>network/Network.h\<close> and the message class of \<^verbatim>\<open>slicc_interface/NetworkMessage.h\<close>. Buffers are shared
  between switches and throttles by pointer, so they live in a store, a list indexed by pointers, which the
  operations take and return with the event queue. The floating-point comparison of the link utilisation is
  the parameter \<open>above_threshold\<close>; the sum of utilisation ratios, which is only printed, is left out. The random
  delays that \<^verbatim>\<open>enqueue\<close> draws are a function of the buffer and its message counter.
\<close>

subsection \<open>Messages and buffers\<close>

datatype MessageSizeType =
  MS_Undefined | MS_Control | MS_Data | MS_Request_Control | MS_Reissue_Control | MS_Response_Data | MS_ResponseL2hit_Data
  | MS_ResponseLocal_Data | MS_Response_Control | MS_Writeback_Data | MS_Writeback_Control | MS_Forwarded_Control
  | MS_Invalidate_Control | MS_Unblock_Control | MS_Persistent_Control | MS_Completion_Control

definition MessageSizeTypes :: "MessageSizeType list" where
  "MessageSizeTypes = [MS_Undefined, MS_Control, MS_Data, MS_Request_Control, MS_Reissue_Control, MS_Response_Data, MS_ResponseL2hit_Data,
     MS_ResponseLocal_Data, MS_Response_Control, MS_Writeback_Data, MS_Writeback_Control, MS_Forwarded_Control,
     MS_Invalidate_Control, MS_Unblock_Control, MS_Persistent_Control, MS_Completion_Control]"

definition MessageSizeType_index :: "MessageSizeType \<Rightarrow> nat" where
  "MessageSizeType_index s = length (takeWhile (\<lambda>x. x \<noteq> s) MessageSizeTypes)"

definition CONTROL_MESSAGE_SIZE :: int where "CONTROL_MESSAGE_SIZE = 8"

definition DATA_MESSAGE_SIZE :: int where "DATA_MESSAGE_SIZE = 64 + 8"

definition MessageSizeType_to_int :: "MessageSizeType \<Rightarrow> int option" where
  "MessageSizeType_to_int s =
     (if s = MS_Undefined then None
      else if s \<in> {MS_Data, MS_Response_Data, MS_ResponseLocal_Data, MS_ResponseL2hit_Data, MS_Writeback_Data}
           then Some DATA_MESSAGE_SIZE
      else Some CONTROL_MESSAGE_SIZE)"

record 'a net_msg =
  nm_destination :: net_dest
  nm_internal_dest :: net_dest
  nm_internal_dest_valid :: bool
  nm_size :: MessageSizeType
  nm_content :: 'a

text \<open>The reading and the writing version of \<^verbatim>\<open>getInternalDestination\<close>.\<close>

definition getInternalDestination :: "'a net_msg \<Rightarrow> net_dest" where
  "getInternalDestination m = (if nm_internal_dest_valid m then nm_internal_dest m else nm_destination m)"

definition setInternalDestination :: "net_dest \<Rightarrow> 'a net_msg \<Rightarrow> 'a net_msg" where
  "setInternalDestination d m = m\<lparr>nm_internal_dest := d, nm_internal_dest_valid := True\<rparr>"

type_synonym 'a net_buffer = "'a net_msg message_buffer"

type_synonym 'a net_store = "event_queue \<times> 'a net_buffer list"

record net_env =
  env_RANDOMIZATION :: bool
  env_random :: "nat \<Rightarrow> int \<Rightarrow> nat \<times> nat \<times> nat"
  above_threshold :: "int \<Rightarrow> int \<Rightarrow> bool"

definition buf_at :: "'a net_buffer list \<Rightarrow> nat \<Rightarrow> 'a net_buffer option" where
  "buf_at bs i = do { check (i < length bs); Some (bs ! i) }"

definition ptr_at :: "nat list \<Rightarrow> nat \<Rightarrow> nat option" where
  "ptr_at ps v = do { check (v < length ps); Some (ps ! v) }"

definition buf_enqueue :: "net_env \<Rightarrow> nat \<Rightarrow> 'a net_msg message \<Rightarrow> time \<Rightarrow> 'a net_store \<Rightarrow> 'a net_store option" where
  "buf_enqueue env i msg delta = (\<lambda>(q, bs). do {
     b \<leftarrow> buf_at bs i;
     (q', b') \<leftarrow> mb_enqueue (env_RANDOMIZATION env) (env_random env i (mb_msg_counter b)) (Some msg) delta (q, b);
     Some (q', bs[i := b']) })"

definition buf_pop :: "nat \<Rightarrow> 'a net_store \<Rightarrow> 'a net_store option" where
  "buf_pop i = (\<lambda>(q, bs). do {
     b \<leftarrow> buf_at bs i;
     b' \<leftarrow> mb_pop (m_globalTime q) b;
     Some (q, bs[i := b']) })"

definition buf_ready :: "nat \<Rightarrow> 'a net_store \<Rightarrow> bool option" where
  "buf_ready i = (\<lambda>(q, bs). do { b \<leftarrow> buf_at bs i; Some (mb_isReady (m_globalTime q) b) })"

definition buf_peek :: "nat \<Rightarrow> 'a net_store \<Rightarrow> 'a net_msg message option" where
  "buf_peek i = (\<lambda>(q, bs). do { b \<leftarrow> buf_at bs i; mb_peekAtHeadOfQueue (m_globalTime q) b })"

definition buf_slots :: "nat \<Rightarrow> 'a net_store \<Rightarrow> (bool \<times> 'a net_store) option" where
  "buf_slots i = (\<lambda>(q, bs). do {
     b \<leftarrow> buf_at bs i;
     let (avail, b') = mb_areNSlotsAvailable (m_globalTime q) 1 b;
     Some (avail, q, bs[i := b']) })"

definition buf_setConsumer :: "nat \<Rightarrow> nat \<Rightarrow> 'a net_buffer list \<Rightarrow> 'a net_buffer list option" where
  "buf_setConsumer i c bs = do { b \<leftarrow> buf_at bs i; b' \<leftarrow> mb_setConsumer (Some c) b; Some (bs[i := b']) }"

definition buf_clear :: "nat \<Rightarrow> 'a net_buffer list \<Rightarrow> 'a net_buffer list option" where
  "buf_clear i bs = do { b \<leftarrow> buf_at bs i; b' \<leftarrow> mb_clear b; Some (bs[i := b']) }"

subsection \<open>The throttle\<close>

definition HIGH_RANGE :: int where "HIGH_RANGE = 256"

definition ADJUST_INTERVAL :: int where "ADJUST_INTERVAL = 50000"

definition MESSAGE_SIZE_MULTIPLIER :: int where "MESSAGE_SIZE_MULTIPLIER = 1000"

definition BROADCAST_SCALING :: int where "BROADCAST_SCALING = 1"

definition PRIORITY_SWITCH_LIMIT :: int where "PRIORITY_SWITCH_LIMIT = 128"

record throttle =
  th_consumer :: nat
  th_in :: "nat list"
  th_out :: "nat list"
  th_message_counters :: "int list list"
  th_units_remaining :: "int list"
  th_sID :: nat
  th_node :: nat
  th_bash_counter :: int
  th_bandwidth_since_sample :: int
  th_last_bandwidth_sample :: time
  th_link_bandwidth_multiplier :: int
  th_link_latency :: int
  th_wakeups_wo_switch :: int
  th_ruby_start :: time

abbreviation th_vnets :: "throttle \<Rightarrow> nat" where
  "th_vnets th \<equiv> length (th_in th)"

definition throttle_clearStats :: "time \<Rightarrow> throttle \<Rightarrow> throttle" where
  "throttle_clearStats now th = th\<lparr>th_ruby_start := now, th_message_counters := map (map (\<lambda>_. 0)) (th_message_counters th)\<rparr>"

definition throttle_new :: "time \<Rightarrow> nat \<Rightarrow> nat \<Rightarrow> nat \<Rightarrow> int \<Rightarrow> int \<Rightarrow> throttle option" where
  "throttle_new now this sID node link_latency link_bandwidth_multiplier = do {
     check (0 < link_bandwidth_multiplier);
     Some (throttle_clearStats now \<lparr>th_consumer = this, th_in = [], th_out = [], th_message_counters = [], th_units_remaining = [],
       th_sID = sID, th_node = node, th_bash_counter = HIGH_RANGE, th_bandwidth_since_sample = 0, th_last_bandwidth_sample = 0,
       th_link_bandwidth_multiplier = link_bandwidth_multiplier, th_link_latency = link_latency, th_wakeups_wo_switch = 0, th_ruby_start = 0\<rparr>) }"

definition addVirtualNetwork :: "nat \<times> nat \<Rightarrow> 'a net_buffer list \<times> throttle \<Rightarrow> ('a net_buffer list \<times> throttle) option" where
  "addVirtualNetwork = (\<lambda>(in_ptr, out_ptr) (bs, th). do {
     bs' \<leftarrow> buf_setConsumer in_ptr (th_consumer th) bs;
     Some (bs', th\<lparr>th_units_remaining := th_units_remaining th @ [0], th_in := th_in th @ [in_ptr], th_out := th_out th @ [out_ptr]\<rparr>) })"

definition addLinks :: "nat list \<Rightarrow> nat list \<Rightarrow> 'a net_buffer list \<times> throttle \<Rightarrow> ('a net_buffer list \<times> throttle) option" where
  "addLinks in_vec out_vec s = do {
     check (length in_vec = length out_vec);
     (bs, th) \<leftarrow> fold_opt addVirtualNetwork (zip in_vec out_vec) s;
     Some (bs, th\<lparr>th_message_counters := replicate (length MessageSizeTypes) (replicate (length in_vec) 0)\<rparr>) }"

definition throttle_clear :: "throttle \<Rightarrow> 'a net_buffer list \<Rightarrow> 'a net_buffer list option" where
  "throttle_clear th = fold_opt (\<lambda>v bs. do { o' \<leftarrow> ptr_at (th_out th) v; bs1 \<leftarrow> buf_clear (th_in th ! v) bs; buf_clear o' bs1 }) [0..<th_vnets th]"

definition getLinkBandwidth :: "int \<Rightarrow> throttle \<Rightarrow> int" where
  "getLinkBandwidth endpoint_bandwidth th = endpoint_bandwidth * th_link_bandwidth_multiplier th"

definition network_message_to_size :: "'a net_msg \<Rightarrow> int option" where
  "network_message_to_size m = do {
     s \<leftarrow> MessageSizeType_to_int (nm_size m);
     Some (if 1 < BROADCAST_SCALING \<and> nd_isBroadcast (nm_destination m) then s * MESSAGE_SIZE_MULTIPLIER * BROADCAST_SCALING
           else s * MESSAGE_SIZE_MULTIPLIER) }"

definition broadcastBandwidthAvailable :: "nat \<Rightarrow> throttle \<Rightarrow> bool" where
  "broadcastBandwidthAvailable rand th \<longleftrightarrow> \<not> (HIGH_RANGE div 4 + int rand mod (HIGH_RANGE div 2) < th_bash_counter th)"

subsection \<open>The wakeup\<close>

text \<open>Virtual networks are served from the highest number down, except after more than 128 wakeups.\<close>

definition vnet_order :: "nat \<Rightarrow> bool \<Rightarrow> nat list" where
  "vnet_order n inverted = (if inverted then [0..<n] else rev [0..<n])"

definition count_message :: "MessageSizeType \<Rightarrow> nat \<Rightarrow> int list list \<Rightarrow> int list list option" where
  "count_message s v cs = do {
     let i = MessageSizeType_index s;
     check (i < length cs \<and> v < length (cs ! i));
     Some (cs[i := (cs ! i)[v := cs ! i ! v + 1]]) }"

text \<open>The message at the head moves to the output as a whole; its size is the number of units still to be sent.\<close>

definition throttle_move :: "net_env \<Rightarrow> nat \<Rightarrow> nat \<Rightarrow> nat \<Rightarrow> 'a net_store \<times> throttle \<Rightarrow> ('a net_store \<times> throttle) option" where
  "throttle_move env v i j = (\<lambda>(s, th). do {
     msg \<leftarrow> buf_peek i s;
     u \<leftarrow> network_message_to_size (msg_payload msg);
     s1 \<leftarrow> buf_enqueue env j msg (th_link_latency th) s;
     s2 \<leftarrow> buf_pop i s1;
     cs \<leftarrow> count_message (nm_size (msg_payload msg)) v (th_message_counters th);
     Some (s2, th\<lparr>th_units_remaining := (th_units_remaining th)[v := th_units_remaining th ! v + u], th_message_counters := cs\<rparr>) })"

text \<open>One round of the loop of a virtual network; the flag tells whether it goes on.\<close>

definition throttle_round :: "net_env \<Rightarrow> nat \<Rightarrow> nat \<Rightarrow> nat \<Rightarrow> ('a net_store \<times> throttle) \<times> int \<Rightarrow> (bool \<times> ('a net_store \<times> throttle) \<times> int) option" where
  "throttle_round env v i j = (\<lambda>((s, th), bw_remaining). do {
     ready \<leftarrow> buf_ready i s;
     if 0 < bw_remaining \<and> (ready \<or> 0 < th_units_remaining th ! v) then do {
       (avail, s1) \<leftarrow> buf_slots j s;
       if avail then do {
         (s2, th2) \<leftarrow> (if th_units_remaining th ! v = 0 \<and> ready then throttle_move env v i j (s1, th) else Some (s1, th));
         let diff = th_units_remaining th2 ! v - bw_remaining;
         Some (True, (s2, th2\<lparr>th_units_remaining := (th_units_remaining th2)[v := max 0 diff]\<rparr>), max 0 (- diff)) }
       else Some (False, (s1, th), bw_remaining) }
     else Some (False, (s, th), bw_remaining) })"

partial_function (option) throttle_loop :: "net_env \<Rightarrow> nat \<Rightarrow> nat \<Rightarrow> nat \<Rightarrow> ('a net_store \<times> throttle) \<times> int \<Rightarrow> (('a net_store \<times> throttle) \<times> int) option" where
  "throttle_loop env v i j s = Option.bind (throttle_round env v i j s) (\<lambda>r. if fst r then throttle_loop env v i j (snd r) else Some (snd r))"

declare throttle_loop.simps [code]

definition throttle_vnet :: "net_env \<Rightarrow> nat \<Rightarrow> (('a net_store \<times> throttle) \<times> int) \<times> bool \<Rightarrow> ((('a net_store \<times> throttle) \<times> int) \<times> bool) option" where
  "throttle_vnet env v = (\<lambda>(s0, schedule_wakeup). do {
     i \<leftarrow> ptr_at (th_in (snd (fst s0))) v;
     j \<leftarrow> ptr_at (th_out (snd (fst s0))) v;
     check (v < length (th_units_remaining (snd (fst s0))) \<and> 0 \<le> th_units_remaining (snd (fst s0)) ! v);
     ((s, th), bw_remaining) \<leftarrow> throttle_loop env v i j s0;
     ready \<leftarrow> buf_ready i s;
     if 0 < bw_remaining \<and> (ready \<or> 0 < th_units_remaining th ! v) then do {
       (avail, s1) \<leftarrow> buf_slots j s;
       Some (((s1, th), bw_remaining), schedule_wakeup \<or> \<not> avail) }
     else Some (((s, th), bw_remaining), schedule_wakeup) })"

text \<open>The predictor. The product of two \<^verbatim>\<open>int\<close> values is undefined from \<open>2 ^ 31\<close> on.\<close>

function bash_adjust :: "net_env \<Rightarrow> int \<Rightarrow> time \<Rightarrow> throttle \<Rightarrow> throttle option" where
  "bash_adjust env bandwidth now th =
     (if ADJUST_INTERVAL < now - th_last_bandwidth_sample th then do {
        check (ADJUST_INTERVAL * bandwidth < 2 ^ 31);
        let c = (if above_threshold env (th_bandwidth_since_sample th) (ADJUST_INTERVAL * bandwidth)
                 then th_bash_counter th + 1 else th_bash_counter th - 1);
        bash_adjust env bandwidth now (th\<lparr>th_bash_counter := max 0 (min HIGH_RANGE c),
          th_last_bandwidth_sample := th_last_bandwidth_sample th + ADJUST_INTERVAL, th_bandwidth_since_sample := 0\<rparr>) }
      else Some th)"
  by pat_completeness auto
termination
  by (relation "measure (\<lambda>(env, bandwidth, now, th). nat (now - th_last_bandwidth_sample th))") (auto simp: ADJUST_INTERVAL_def)

declare bash_adjust.simps [simp del]

definition throttle_wakeup :: "net_env \<Rightarrow> int \<Rightarrow> 'a net_store \<times> throttle \<Rightarrow> ('a net_store \<times> throttle) option" where
  "throttle_wakeup env endpoint_bandwidth = (\<lambda>(s, th). do {
     let bandwidth = getLinkBandwidth endpoint_bandwidth th;
     check (0 < bandwidth);
     let inverted = (PRIORITY_SWITCH_LIMIT < th_wakeups_wo_switch th + 1);
     let th1 = th\<lparr>th_wakeups_wo_switch := (if inverted then 0 else th_wakeups_wo_switch th + 1)\<rparr>;
     ((((q, bs), th2), bw_remaining), schedule_wakeup) \<leftarrow>
       fold_opt (throttle_vnet env) (vnet_order (th_vnets th) inverted) (((s, th1), bandwidth), False);
     let th3 = th2\<lparr>th_bandwidth_since_sample := th_bandwidth_since_sample th2 + (bandwidth - bw_remaining)\<rparr>;
     th4 \<leftarrow> bash_adjust env bandwidth (m_globalTime q) th3;
     if 0 < bw_remaining \<and> \<not> schedule_wakeup then Some ((q, bs), th4)
     else do {
       q' \<leftarrow> scheduleEvent (Some (th_consumer th4)) 1 q;
       Some ((q', bs), th4) } })"

end
