(* ===== verification/Net_Bandwidth.thy ===== *)
theory Net_Bandwidth
  imports Net_Throttle
begin

text \<open>
  What a throttle promises: a wakeup returns, moves messages of every virtual network in order and without loss,
  and spends exactly the bandwidth of the link while there is something to send and room for it.
\<close>

subsection \<open>Buffers of the store\<close>

text \<open>A buffer that is wired up, whose messages carry the time at which they arrived.\<close>

definition buf_ok :: "'a net_buffer \<Rightarrow> bool" where
  "buf_ok b \<longleftrightarrow> mb_inv b \<and> mb_ordering_set b \<and> mb_consumer_ptr b \<noteq> None \<and>
     (\<forall>n \<in># mb_nodes b. msg_LastEnqueueTime (mbn_msgptr n) = mbn_time n)"

text \<open>A message with this delay does not arrive before one that was sent earlier.\<close>

definition paced :: "net_env \<Rightarrow> time \<Rightarrow> time \<Rightarrow> 'a net_buffer \<Rightarrow> bool" where
  "paced env now delta b \<longleftrightarrow> 0 < delta \<and>
     (mb_strict_fifo b \<and> \<not> (env_RANDOMIZATION env \<and> mb_randomization b) \<longrightarrow> mb_last_arrival_time b \<le> now + delta)"

definition payloads :: "'a net_buffer \<Rightarrow> 'a net_msg multiset" where
  "payloads b = image_mset (\<lambda>n. msg_payload (mbn_msgptr n)) (mb_nodes b)"

lemma scheduleEventAbsolute_time: "scheduleEventAbsolute c t q = Some q' \<Longrightarrow> m_globalTime q' = m_globalTime q"
  by (auto simp: scheduleEventAbsolute_def bind_Some_iff split: option.splits if_splits)

lemma mb_enqueue_frame:
  "mb_enqueue R rs m d (q, b) = Some (q', b') \<Longrightarrow> m_globalTime q' = m_globalTime q \<and> mb_ordering_set b' = mb_ordering_set b \<and>
     mb_consumer_ptr b' = mb_consumer_ptr b \<and> mb_randomization b' = mb_randomization b \<and> mb_max_size b' = mb_max_size b"
  by (auto simp: mb_enqueue_def Let_def bind_Some_iff dest!: scheduleEventAbsolute_time split: if_splits)

lemma mb_pop_frame:
  "mb_pop now b = Some b' \<Longrightarrow> mb_ordering_set b' = mb_ordering_set b \<and> mb_consumer_ptr b' = mb_consumer_ptr b \<and>
     mb_randomization b' = mb_randomization b \<and> mb_max_size b' = mb_max_size b"
  by (auto simp: mb_pop_def Let_def bind_Some_iff split: if_splits)

lemma slots_frame:
  "mb_areNSlotsAvailable now n b = (a, b') \<Longrightarrow> b' = b\<lparr>mb_not_avail_count := mb_not_avail_count b'\<rparr>"
  by (auto simp: mb_areNSlotsAvailable_def Let_def split: if_splits)

lemma count_frame [simp]:
  "buf_ok (b\<lparr>mb_not_avail_count := c\<rparr>) = buf_ok b" "paced env now d (b\<lparr>mb_not_avail_count := c\<rparr>) = paced env now d b"
  "payloads (b\<lparr>mb_not_avail_count := c\<rparr>) = payloads b" "fifo_abs (b\<lparr>mb_not_avail_count := c\<rparr>) xs = fifo_abs b xs"
  "mb_isReady now (b\<lparr>mb_not_avail_count := c\<rparr>) = mb_isReady now b"
  "fst (mb_areNSlotsAvailable now n (b\<lparr>mb_not_avail_count := c\<rparr>)) = fst (mb_areNSlotsAvailable now n b)"
  by (simp_all add: buf_ok_def paced_def payloads_def fifo_abs_def mb_inv_def mb_nodes_def mb_isReady_def mb_areNSlotsAvailable_def Let_def)

lemma buf_enqueue_ok:
  assumes q: "eq_inv q" and j: "j < length bs" and b: "buf_ok (bs ! j)" "paced env (m_globalTime q) d (bs ! j)"
    and m: "msg_LastEnqueueTime msg \<le> m_globalTime q"
  shows "\<exists>q' b'. buf_enqueue env j msg d (q, bs) = Some (q', bs[j := b']) \<and> eq_inv q' \<and> m_globalTime q' = m_globalTime q \<and>
    buf_ok b' \<and> paced env (m_globalTime q) d b' \<and> payloads b' = add_mset (msg_payload msg) (payloads (bs ! j)) \<and>
    (\<forall>n \<in># mb_nodes b'. n \<in># mb_nodes (bs ! j) \<or> m_globalTime q < mbn_time n)"
proof -
  let ?b = "bs ! j" and ?R = "env_RANDOMIZATION env"
  obtain r1 r2 r3 where rs: "env_random env j (mb_msg_counter ?b) = (r1, r2, r3)" by (cases "env_random env j (mb_msg_counter ?b)")
  let ?n = "mb_new_node ?R (r1, r2, r3) msg d (m_globalTime q) ?b"
  have ok: "enq_ok ?R (r1, r2, r3) msg d q ?b" using b m by (auto simp: enq_ok_def buf_ok_def paced_def)
  have inv: "mb_inv ?b" using b by (simp add: buf_ok_def)
  obtain q' b' where e: "mb_enqueue ?R (r1, r2, r3) (Some msg) d (q, ?b) = Some (q', b')" "mb_inv b'" "eq_inv q'"
    "mb_nodes b' = add_mset ?n (mb_nodes ?b)" "mb_last_arrival_time b' = mbn_time ?n" "mb_strict_fifo b' = mb_strict_fifo ?b"
    using mb_enqueue_ok [OF inv q ok] by blast
  note fr = mb_enqueue_frame [OF e(1)]
  have n: "msg_payload (mbn_msgptr ?n) = msg_payload msg" "msg_LastEnqueueTime (mbn_msgptr ?n) = mbn_time ?n"
    "m_globalTime q < mbn_time ?n" using arrival_time_facts(1) [OF ok] by (simp_all add: mb_new_node_def Let_def)
  have "\<not> (?R \<and> mb_randomization ?b) \<Longrightarrow> mbn_time ?n = m_globalTime q + d" by (auto simp: mb_new_node_def mb_arrival_time_def Let_def)
  then have "paced env (m_globalTime q) d b'" using b(2) fr e(5) by (auto simp: paced_def)
  moreover have "buf_ok b'" using b(1) e(2,4) fr n by (auto simp: buf_ok_def)
  moreover have "payloads b' = add_mset (msg_payload msg) (payloads ?b)" using e(4) n by (simp add: payloads_def)
  ultimately show ?thesis using e fr n j rs by (intro exI [of _ q'] exI [of _ b']) (auto simp: buf_enqueue_def buf_at_def check_bind)
qed

lemma fifo_pop:
  assumes "fifo_abs b (x # xs)" "mbn_time x \<le> now"
  shows "\<exists>b'. mb_pop now b = Some b' \<and> fifo_abs b' xs \<and> peekMin (mb_prio_heap b) = Some x"
proof -
  from assms(1) have inv: "mb_inv b" by (simp add: fifo_abs_def)
  have rdy: "mb_isReady now b" using fifo_ready_iff [OF assms(1)] assms(2) by simp
  from mb_pop_inv [OF inv rdy] obtain b' n where
    p: "mb_pop now b = Some b'" "mb_inv b'" "peekMin (mb_prio_heap b) = Some n"
    and n: "n \<in># mb_nodes b" "\<forall>m \<in># mb_nodes b. mb_le n m"
    and b': "mb_nodes b' = mb_nodes b - {#n#}" "mb_strict_fifo b' = mb_strict_fifo b"
      "mb_last_arrival_time b' = mb_last_arrival_time b" by blast
  have "n = x" using fifo_head [OF assms(1) n] .
  moreover have "mset xs = mb_nodes b'" using assms(1) b'(1) \<open>n = x\<close> by (auto simp: fifo_abs_def) (metis add_mset_remove_trivial)
  ultimately show ?thesis using assms(1) p b' by (auto simp: fifo_abs_def)
qed

lemma fifo_nodes: "fifo_abs b xs \<Longrightarrow> set_mset (mb_nodes b) = set xs"
  by (metis fifo_abs_def set_mset_mset)

lemma fifo_ready_empty: "fifo_abs b [] \<Longrightarrow> \<not> mb_isReady now b"
  using mb_isReady_head [of b now] by (auto simp: fifo_abs_def)

lemma fifo_payloads: "fifo_abs b xs \<Longrightarrow> payloads b = mset (map (\<lambda>n. msg_payload (mbn_msgptr n)) xs)"
  by (simp add: payloads_def fifo_abs_def)

subsection \<open>One virtual network\<close>

definition units_of :: "'a net_msg mb_node \<Rightarrow> int" where
  "units_of n = the (network_message_to_size (msg_payload (mbn_msgptr n)))"

lemma sized:
  "nm_size m \<noteq> MS_Undefined \<Longrightarrow> \<exists>u. network_message_to_size m = Some u \<and> 0 < u"
  by (auto simp: network_message_to_size_def MessageSizeType_to_int_def DATA_MESSAGE_SIZE_def CONTROL_MESSAGE_SIZE_def
      MESSAGE_SIZE_MULTIPLIER_def BROADCAST_SCALING_def)

lemma MessageSizeType_index_less: "MessageSizeType_index s < length MessageSizeTypes"
  by (cases s) (simp_all add: MessageSizeType_index_def MessageSizeTypes_def)

definition counters_ok :: "nat \<Rightarrow> int list list \<Rightarrow> bool" where
  "counters_ok n cs \<longleftrightarrow> length cs = length MessageSizeTypes \<and> (\<forall>r \<in> set cs. length r = n)"

lemma count_message_ok:
  assumes "counters_ok n cs" "v < n"
  shows "\<exists>cs'. count_message s v cs = Some cs' \<and> counters_ok n cs'"
proof -
  have i: "MessageSizeType_index s < length cs" using assms(1) MessageSizeType_index_less by (simp add: counters_ok_def)
  then have l: "length (cs ! MessageSizeType_index s) = n" using assms(1) by (auto simp: counters_ok_def)
  have "counters_ok n (cs[MessageSizeType_index s := (cs ! MessageSizeType_index s)[v := x]])" for x
    using assms(1) l by (auto simp: counters_ok_def dest!: set_update_subset_insert [THEN subsetD])
  then show ?thesis using i l assms(2) by (simp add: count_message_def check_bind Let_def)
qed

definition vnet_ok :: "net_env \<Rightarrow> time \<Rightarrow> nat \<Rightarrow> nat \<Rightarrow> nat \<Rightarrow> 'a net_store \<Rightarrow> throttle \<Rightarrow> 'a net_msg mb_node list \<Rightarrow> bool" where
  "vnet_ok env now i j v s th xs \<longleftrightarrow> (case s of (q, bs) \<Rightarrow>
     eq_inv q \<and> m_globalTime q = now \<and> i < length bs \<and> j < length bs \<and> i \<noteq> j \<and> fifo_abs (bs ! i) xs \<and>
     buf_ok (bs ! i) \<and> buf_ok (bs ! j) \<and> paced env now (th_link_latency th) (bs ! j) \<and>
     (\<forall>x \<in> set xs. nm_size (msg_payload (mbn_msgptr x)) \<noteq> MS_Undefined) \<and>
     v < length (th_units_remaining th) \<and> 0 \<le> th_units_remaining th ! v \<and>
     counters_ok (length (th_units_remaining th)) (th_message_counters th))"

text \<open>What has happened to a virtual network since it was in state \<open>s\<close>: the first \<open>k\<close> messages of its input have moved
  to its output, and the bandwidth spent is what they need less what is still to be sent.\<close>

definition moved :: "time \<Rightarrow> nat \<Rightarrow> nat \<Rightarrow> nat \<Rightarrow> 'a net_msg mb_node list \<Rightarrow> nat \<Rightarrow> 'a net_store \<Rightarrow> throttle \<Rightarrow> 'a net_store \<Rightarrow> throttle \<Rightarrow> int \<Rightarrow> bool" where
  "moved now i j v xs k s th s' th' spent \<longleftrightarrow> k \<le> length xs \<and> (\<forall>x \<in> set (take k xs). mbn_time x \<le> now) \<and>
     length (snd s') = length (snd s) \<and> (\<forall>m. m \<noteq> i \<and> m \<noteq> j \<longrightarrow> snd s' ! m = snd s ! m) \<and>
     payloads (snd s' ! j) = payloads (snd s ! j) + mset (map (\<lambda>n. msg_payload (mbn_msgptr n)) (take k xs)) \<and>
     (\<exists>u cs. th' = th\<lparr>th_units_remaining := (th_units_remaining th)[v := u], th_message_counters := cs\<rparr> \<and>
        u + spent = th_units_remaining th ! v + sum_list (map units_of (take k xs)))"

lemma moved_refl: "moved now i j v xs 0 (q, bs) th (q, bs) th 0"
  unfolding moved_def by (auto intro!: exI [of _ "th_units_remaining th ! v"] exI [of _ "th_message_counters th"])

lemma moved_trans:
  assumes "moved now i j v xs k s th s1 th1 e1" "moved now i j v (drop k xs) k' s1 th1 s2 th2 e2" "v < length (th_units_remaining th)"
  shows "moved now i j v xs (k + k') s th s2 th2 (e1 + e2)"
proof -
  have t: "take (k + k') xs = take k xs @ take k' (drop k xs)" by (rule take_add)
  obtain u cs where th1: "th1 = th\<lparr>th_units_remaining := (th_units_remaining th)[v := u], th_message_counters := cs\<rparr>"
    "u + e1 = th_units_remaining th ! v + sum_list (map units_of (take k xs))" using assms(1) by (auto simp: moved_def)
  obtain u' cs' where th2: "th2 = th1\<lparr>th_units_remaining := (th_units_remaining th1)[v := u'], th_message_counters := cs'\<rparr>"
    "u' + e2 = th_units_remaining th1 ! v + sum_list (map units_of (take k' (drop k xs)))" using assms(2) by (auto simp: moved_def)
  have "th2 = th\<lparr>th_units_remaining := (th_units_remaining th)[v := u'], th_message_counters := cs'\<rparr>"
    "u' + (e1 + e2) = th_units_remaining th ! v + sum_list (map units_of (take (k + k') xs))"
    using th1 th2 assms(3) unfolding t by simp_all
  moreover have "k + k' \<le> length xs" "\<forall>x \<in> set (take (k + k') xs). mbn_time x \<le> now"
    "length (snd s2) = length (snd s)" "\<forall>m. m \<noteq> i \<and> m \<noteq> j \<longrightarrow> snd s2 ! m = snd s ! m"
    "payloads (snd s2 ! j) = payloads (snd s ! j) + mset (map (\<lambda>n. msg_payload (mbn_msgptr n)) (take (k + k') xs))"
    using assms(1,2) unfolding t moved_def by auto
  ultimately show ?thesis unfolding moved_def by blast
qed

lemma vnet_ok_update:
  assumes "vnet_ok env now i j v s th xs" "0 \<le> u" "counters_ok (length (th_units_remaining th)) cs"
  shows "vnet_ok env now i j v s (th\<lparr>th_units_remaining := (th_units_remaining th)[v := u], th_message_counters := cs\<rparr>) xs"
  using assms by (auto simp: vnet_ok_def)

text \<open>Looking for room in the output only counts the failures.\<close>

lemma buf_slots_ok:
  assumes "vnet_ok env now i j v (q, bs) th xs"
  shows "\<exists>b'. buf_slots j (q, bs) = Some (fst (mb_areNSlotsAvailable now 1 (bs ! j)), q, bs[j := b']) \<and>
    vnet_ok env now i j v (q, bs[j := b']) th xs \<and> moved now i j v xs 0 (q, bs) th (q, bs[j := b']) th 0 \<and>
    fst (mb_areNSlotsAvailable now 1 b') = fst (mb_areNSlotsAvailable now 1 (bs ! j)) \<and>
    buf_ready i (q, bs[j := b']) = buf_ready i (q, bs)"
proof -
  obtain a b' where a: "mb_areNSlotsAvailable now 1 (bs ! j) = (a, b')" by (cases "mb_areNSlotsAvailable now 1 (bs ! j)")
  obtain c where b': "b' = (bs ! j)\<lparr>mb_not_avail_count := c\<rparr>" using slots_frame [OF a] by metis
  have r: "i < length bs" "j < length bs" "i \<noteq> j" "m_globalTime q = now" using assms by (simp_all add: vnet_ok_def)
  have "buf_slots j (q, bs) = Some (a, q, bs[j := b'])" using a r by (simp add: buf_slots_def buf_at_def check_bind)
  moreover have "vnet_ok env now i j v (q, bs[j := b']) th xs" using assms by (auto simp: vnet_ok_def b')
  moreover have "moved now i j v xs 0 (q, bs) th (q, bs[j := b']) th 0"
    using moved_refl [of now i j v xs q bs th] r by (simp add: moved_def b')
  moreover have "buf_ready i (q, bs[j := b']) = buf_ready i (q, bs)" using r by (simp add: buf_ready_def buf_at_def)
  ultimately show ?thesis using a by (auto simp: b')
qed

lemma buf_ready_ok:
  "vnet_ok env now i j v (q, bs) th xs \<Longrightarrow> buf_ready i (q, bs) = Some (mb_isReady now (bs ! i))"
  by (simp add: vnet_ok_def buf_ready_def buf_at_def check_bind)

lemma throttle_move_ok:
  assumes ok: "vnet_ok env now i j v (q, bs) th xs" and rdy: "mb_isReady now (bs ! i)" and u: "th_units_remaining th ! v = 0"
  shows "\<exists>s' th'. throttle_move env v i j ((q, bs), th) = Some (s', th') \<and> vnet_ok env now i j v s' th' (tl xs) \<and> xs \<noteq> [] \<and>
    moved now i j v xs 1 (q, bs) th s' th' 0"
proof -
  have f: "fifo_abs (bs ! i) xs" and lens: "i < length bs" "j < length bs" "i \<noteq> j" and now: "m_globalTime q = now" "eq_inv q"
    and vl: "v < length (th_units_remaining th)" and cnt: "counters_ok (length (th_units_remaining th)) (th_message_counters th)"
    using ok by (simp_all add: vnet_ok_def)
  obtain x ys where xs: "xs = x # ys" using fifo_ready_empty [of "bs ! i" now] f rdy by (cases xs) auto
  have tx: "mbn_time x \<le> now" using fifo_ready_iff f rdy xs by blast
  obtain b1 where pop: "mb_pop now (bs ! i) = Some b1" "fifo_abs b1 ys" "peekMin (mb_prio_heap (bs ! i)) = Some x"
    using fifo_pop [OF f [unfolded xs] tx] by blast
  have x_in: "x \<in># mb_nodes (bs ! i)" using fifo_nodes [OF f] xs by simp
  have stamp: "msg_LastEnqueueTime (mbn_msgptr x) \<le> m_globalTime q" using ok x_in tx now by (auto simp: vnet_ok_def buf_ok_def)
  obtain w where w: "network_message_to_size (msg_payload (mbn_msgptr x)) = Some w" "0 < w"
    using sized ok xs by (fastforce simp: vnet_ok_def)
  have jok: "buf_ok (bs ! j)" "paced env (m_globalTime q) (th_link_latency th) (bs ! j)" using ok by (auto simp: vnet_ok_def)
  obtain q' b2 where enq: "buf_enqueue env j (mbn_msgptr x) (th_link_latency th) (q, bs) = Some (q', bs[j := b2])" "eq_inv q'"
    "m_globalTime q' = m_globalTime q" "buf_ok b2" "paced env (m_globalTime q) (th_link_latency th) b2"
    "payloads b2 = add_mset (msg_payload (mbn_msgptr x)) (payloads (bs ! j))"
    using buf_enqueue_ok [OF now(2) lens(2) jok stamp] by blast
  obtain cs where cs: "count_message (nm_size (msg_payload (mbn_msgptr x))) v (th_message_counters th) = Some cs"
    "counters_ok (length (th_units_remaining th)) cs" using count_message_ok [OF cnt vl] by blast
  let ?s' = "(q', bs[j := b2, i := b1])"
  let ?th = "th\<lparr>th_units_remaining := (th_units_remaining th)[v := w], th_message_counters := cs\<rparr>"
  have mv: "throttle_move env v i j ((q, bs), th) = Some (?s', ?th)"
    using lens pop(1,3) w(1) enq(1,3) cs(1) u now rdy
    by (simp add: throttle_move_def buf_peek_def mb_peekAtHeadOfQueue_def buf_at_def check_bind buf_pop_def)
  have sub: "set_mset (mb_nodes b1) \<subseteq> set_mset (mb_nodes (bs ! i))" using fifo_nodes [OF pop(2)] fifo_nodes [OF f] xs by auto
  have "buf_ok b1" using ok pop(1,2) mb_pop_frame [OF pop(1)] sub by (auto simp: vnet_ok_def buf_ok_def fifo_abs_def)
  then have "vnet_ok env now i j v ?s' ?th ys"
    using ok pop(2) enq(2-5) cs(2) w(2) now xs lens by (auto simp: vnet_ok_def)
  moreover have "moved now i j v xs 1 (q, bs) th ?s' ?th 0"
    using tx enq(6) lens w xs u by (auto simp: moved_def units_of_def intro!: exI [of _ w] exI [of _ cs])
  ultimately show ?thesis using mv xs by auto
qed

text \<open>When the loop of a virtual network stops.\<close>

definition settled :: "time \<Rightarrow> nat \<Rightarrow> nat \<Rightarrow> nat \<Rightarrow> 'a net_store \<Rightarrow> throttle \<Rightarrow> int \<Rightarrow> bool" where
  "settled now i j v s th bw \<longleftrightarrow> bw = 0 \<or> \<not> mb_isReady now (snd s ! i) \<and> th_units_remaining th ! v = 0 \<or>
     \<not> fst (mb_areNSlotsAvailable now 1 (snd s ! j))"

lemma throttle_round_ok:
  assumes ok: "vnet_ok env now i j v (q, bs) th xs" and bw: "0 \<le> bw"
  shows "\<exists>go s' th' bw' k. throttle_round env v i j (((q, bs), th), bw) = Some (go, (s', th'), bw') \<and>
    vnet_ok env now i j v s' th' (drop k xs) \<and> moved now i j v xs k (q, bs) th s' th' (bw - bw') \<and> 0 \<le> bw' \<and> bw' \<le> bw \<and>
    (if go then 2 * (length xs - k) + (if 0 < th_units_remaining th' ! v \<and> 0 < bw' then 1 else 0)
              < 2 * length xs + (if 0 < th_units_remaining th ! v \<and> 0 < bw then 1 else 0)
     else settled now i j v s' th' bw')"
proof -
  let ?u = "th_units_remaining th ! v" and ?r = "mb_isReady now (bs ! i)"
  have vl: "v < length (th_units_remaining th)" and u0: "0 \<le> ?u" and cnt: "counters_ok (length (th_units_remaining th)) (th_message_counters th)"
    using ok by (simp_all add: vnet_ok_def)
  note rd = buf_ready_ok [OF ok]
  show ?thesis
  proof (cases "0 < bw \<and> (?r \<or> 0 < ?u)")
    case False
    then have "throttle_round env v i j (((q, bs), th), bw) = Some (False, ((q, bs), th), bw)"
      using rd by (auto simp: throttle_round_def)
    moreover have "settled now i j v (q, bs) th bw" using False bw u0 by (auto simp: settled_def)
    ultimately show ?thesis using ok bw moved_refl [of now i j v xs q bs th]
      by (intro exI [of _ False] exI [of _ "(q, bs)"] exI [of _ th] exI [of _ bw] exI [of _ 0]) simp
  next
    case True
    obtain b' where sl: "buf_slots j (q, bs) = Some (fst (mb_areNSlotsAvailable now 1 (bs ! j)), q, bs[j := b'])"
      "vnet_ok env now i j v (q, bs[j := b']) th xs" "moved now i j v xs 0 (q, bs) th (q, bs[j := b']) th 0"
      "fst (mb_areNSlotsAvailable now 1 b') = fst (mb_areNSlotsAvailable now 1 (bs ! j))" using buf_slots_ok [OF ok] by blast
    let ?bs = "bs[j := b']"
    have ij: "j < length bs" "i \<noteq> j" using ok by (simp_all add: vnet_ok_def)
    show ?thesis
    proof (cases "fst (mb_areNSlotsAvailable now 1 (bs ! j))")
      case False
      then have "throttle_round env v i j (((q, bs), th), bw) = Some (False, ((q, ?bs), th), bw)"
        using rd True sl(1) by (simp add: throttle_round_def)
      moreover have "settled now i j v (q, ?bs) th bw" using False sl(4) ij by (simp add: settled_def)
      ultimately show ?thesis using sl bw
        by (intro exI [of _ False] exI [of _ "(q, ?bs)"] exI [of _ th] exI [of _ bw] exI [of _ 0]) simp
    next
      case avail: True
      obtain s2 th2 k where mv: "(if ?u = 0 \<and> ?r then throttle_move env v i j ((q, ?bs), th) else Some ((q, ?bs), th)) = Some (s2, th2)"
        "vnet_ok env now i j v s2 th2 (drop k xs)" "moved now i j v xs k (q, ?bs) th s2 th2 0"
        "if ?u = 0 then xs \<noteq> [] \<and> k = 1 else k = 0 \<and> th2 = th"
      proof (cases "?u = 0")
        case z: True
        then have "?r" using True by auto
        then have "mb_isReady now (?bs ! i)" using ij by simp
        from throttle_move_ok [OF sl(2) this z] \<open>?r\<close> z show thesis
          using that [of _ _ 1] by (auto simp: drop_Suc)
      qed (use sl(2) that [of "(q, ?bs)" th 0] moved_refl [of now i j v xs q ?bs th] in simp)
      let ?d = "th_units_remaining th2 ! v - bw"
      let ?th3 = "th2\<lparr>th_units_remaining := (th_units_remaining th2)[v := max 0 ?d]\<rparr>"
      have step: "throttle_round env v i j (((q, bs), th), bw) = Some (True, (s2, ?th3), max 0 (- ?d))"
        using rd True sl(1) avail mv(1) by (simp add: throttle_round_def Let_def)
      have v2: "v < length (th_units_remaining th2)" "0 \<le> th_units_remaining th2 ! v"
        "counters_ok (length (th_units_remaining th2)) (th_message_counters th2)"
        using mv(2) by (auto simp: vnet_ok_def split: prod.splits)
      have "vnet_ok env now i j v s2 ?th3 (drop k xs)"
        using vnet_ok_update [OF mv(2), of "max 0 ?d" "th_message_counters th2"] v2 by simp
      moreover have "moved now i j v xs k (q, bs) th s2 ?th3 (bw - max 0 (- ?d))"
      proof -
        have "moved now i j v (drop k xs) 0 s2 th2 s2 ?th3 (bw - max 0 (- ?d))"
          using v2 by (auto simp: moved_def max_def intro!: exI [of _ "max 0 ?d"] exI [of _ "th_message_counters th2"])
        moreover have "moved now i j v xs k (q, bs) th s2 th2 0" using moved_trans [OF sl(3), of k s2 th2 0] mv(3) vl by simp
        ultimately have "moved now i j v xs (k + 0) (q, bs) th s2 ?th3 (0 + (bw - max 0 (- ?d)))"
          by (rule moved_trans [OF _ _ vl, rotated])
        then show ?thesis by simp
      qed
      moreover have "2 * (length xs - k) + (if 0 < th_units_remaining ?th3 ! v \<and> 0 < max 0 (- ?d) then 1 else 0)
          < 2 * length xs + (if 0 < ?u \<and> 0 < bw then 1 else (0::nat))"
        using mv(4) u0 True v2(1) by (cases "?u = 0"; cases xs) auto
      moreover have "0 \<le> max 0 (- ?d)" "max 0 (- ?d) \<le> bw" using v2(2) bw by auto
      ultimately show ?thesis using step
        by (intro exI [of _ True] exI [of _ s2] exI [of _ ?th3] exI [of _ "max 0 (- ?d)"] exI [of _ k]) simp
    qed
  qed
qed

lemma throttle_loop_ok:
  assumes "vnet_ok env now i j v s th xs" "0 \<le> bw"
  shows "\<exists>s' th' bw' k. throttle_loop env v i j ((s, th), bw) = Some ((s', th'), bw') \<and> vnet_ok env now i j v s' th' (drop k xs) \<and>
    moved now i j v xs k s th s' th' (bw - bw') \<and> 0 \<le> bw' \<and> bw' \<le> bw \<and> settled now i j v s' th' bw'"
  using assms
proof (induction "2 * length xs + (if 0 < th_units_remaining th ! v \<and> 0 < bw then 1 else 0 :: nat)" arbitrary: s th xs bw rule: less_induct)
  case less
  obtain q bs where s: "s = (q, bs)" by (cases s)
  obtain go s1 th1 bw1 k where r: "throttle_round env v i j ((s, th), bw) = Some (go, (s1, th1), bw1)"
    "vnet_ok env now i j v s1 th1 (drop k xs)" "moved now i j v xs k s th s1 th1 (bw - bw1)" "0 \<le> bw1" "bw1 \<le> bw"
    "if go then 2 * (length xs - k) + (if 0 < th_units_remaining th1 ! v \<and> 0 < bw1 then 1 else 0)
              < 2 * length xs + (if 0 < th_units_remaining th ! v \<and> 0 < bw then 1 else 0)
     else settled now i j v s1 th1 bw1"
    using throttle_round_ok [OF less.prems(1) [unfolded s] less.prems(2)] unfolding s by blast
  have vl: "v < length (th_units_remaining th)" using less.prems(1) by (simp add: vnet_ok_def s)
  show ?case
  proof (cases go)
    case True
    then obtain s2 th2 bw2 k' where r2: "throttle_loop env v i j ((s1, th1), bw1) = Some ((s2, th2), bw2)"
      "vnet_ok env now i j v s2 th2 (drop k' (drop k xs))" "moved now i j v (drop k xs) k' s1 th1 s2 th2 (bw1 - bw2)"
      "0 \<le> bw2" "bw2 \<le> bw1" "settled now i j v s2 th2 bw2"
      using less.hyps [OF _ r(2,4)] r(6) by auto
    have "moved now i j v xs (k + k') s th s2 th2 (bw - bw1 + (bw1 - bw2))" by (rule moved_trans [OF r(3) r2(3) vl])
    then have m: "moved now i j v xs (k' + k) s th s2 th2 (bw - bw2)" by (simp add: add.commute)
    show ?thesis using r2 r True m
      by (intro exI [of _ s2] exI [of _ th2] exI [of _ bw2] exI [of _ "k' + k"]) (simp add: throttle_loop.simps [of _ _ _ _ "((s, th), bw)"])
  next
    case False
    then show ?thesis using r by (intro exI [of _ s1] exI [of _ th1] exI [of _ bw1] exI [of _ k]) (simp add: throttle_loop.simps)
  qed
qed

text \<open>Work that is left in a virtual network.\<close>

definition work_left :: "time \<Rightarrow> nat \<Rightarrow> nat \<Rightarrow> 'a net_store \<Rightarrow> throttle \<Rightarrow> bool" where
  "work_left now i v s th \<longleftrightarrow> mb_isReady now (snd s ! i) \<or> 0 < th_units_remaining th ! v"

lemma throttle_vnet_ok:
  assumes ok: "vnet_ok env now i j v s th xs" and bw: "0 \<le> bw"
    and ptr: "v < length (th_in th)" "v < length (th_out th)" "th_in th ! v = i" "th_out th ! v = j"
  shows "\<exists>s' th' bw' sched' k. throttle_vnet env v (((s, th), bw), sched) = Some (((s', th'), bw'), sched') \<and>
    vnet_ok env now i j v s' th' (drop k xs) \<and> moved now i j v xs k s th s' th' (bw - bw') \<and> 0 \<le> bw' \<and> bw' \<le> bw \<and>
    settled now i j v s' th' bw' \<and> (sched \<longrightarrow> sched') \<and> (0 < bw' \<and> work_left now i v s' th' \<longrightarrow> sched')"
proof -
  obtain s1 th1 bw1 k where l: "throttle_loop env v i j ((s, th), bw) = Some ((s1, th1), bw1)" "vnet_ok env now i j v s1 th1 (drop k xs)"
    "moved now i j v xs k s th s1 th1 (bw - bw1)" "0 \<le> bw1" "bw1 \<le> bw" "settled now i j v s1 th1 bw1"
    using throttle_loop_ok [OF ok bw] by blast
  obtain q bs where s1: "s1 = (q, bs)" by (cases s1)
  have vl: "v < length (th_units_remaining th)" "0 \<le> th_units_remaining th ! v" using ok by (auto simp: vnet_ok_def split: prod.splits)
  note rd = buf_ready_ok [OF l(2) [unfolded s1]]
  have u1: "0 \<le> th_units_remaining th1 ! v" using l(2) by (auto simp: vnet_ok_def split: prod.splits)
  show ?thesis
  proof (cases "0 < bw1 \<and> work_left now i v s1 th1")
    case False
    then have "throttle_vnet env v (((s, th), bw), sched) = Some (((s1, th1), bw1), sched)"
      using l(1) rd ptr vl by (auto simp: throttle_vnet_def ptr_at_def check_bind work_left_def s1)
    then show ?thesis using l False by blast
  next
    case True
    obtain b' where sl: "buf_slots j (q, bs) = Some (fst (mb_areNSlotsAvailable now 1 (bs ! j)), q, bs[j := b'])"
      "vnet_ok env now i j v (q, bs[j := b']) th1 (drop k xs)" "moved now i j v (drop k xs) 0 (q, bs) th1 (q, bs[j := b']) th1 0"
      "fst (mb_areNSlotsAvailable now 1 b') = fst (mb_areNSlotsAvailable now 1 (bs ! j))"
      using buf_slots_ok [OF l(2) [unfolded s1]] by blast
    have ij: "j < length bs" "i \<noteq> j" using l(2) by (simp_all add: vnet_ok_def s1)
    have no: "\<not> fst (mb_areNSlotsAvailable now 1 (bs ! j))" using l(6) True u1 by (auto simp: settled_def work_left_def s1)
    have "throttle_vnet env v (((s, th), bw), sched) = Some ((((q, bs[j := b']), th1), bw1), True)"
      using l(1) rd ptr vl True sl(1) no by (auto simp: throttle_vnet_def ptr_at_def check_bind work_left_def s1)
    moreover have "moved now i j v xs (k + 0) s th (q, bs[j := b']) th1 (bw - bw1 + 0)"
      by (rule moved_trans [OF l(3) [unfolded s1] sl(3) vl(1)])
    moreover have "settled now i j v (q, bs[j := b']) th1 bw1" using sl(4) no ij by (simp add: settled_def)
    ultimately show ?thesis using sl(2) l(4,5)
      by (intro exI [of _ "(q, bs[j := b'])"] exI [of _ th1] exI [of _ bw1] exI [of _ True] exI [of _ k]) simp
  qed
qed

subsection \<open>All virtual networks\<close>

definition throttle_ok :: "net_env \<Rightarrow> time \<Rightarrow> 'a net_store \<Rightarrow> throttle \<Rightarrow> (nat \<Rightarrow> 'a net_msg mb_node list) \<Rightarrow> bool" where
  "throttle_ok env now s th xs \<longleftrightarrow> eq_inv (fst s) \<and> m_globalTime (fst s) = now \<and> distinct (th_in th @ th_out th) \<and>
     length (th_out th) = th_vnets th \<and> length (th_units_remaining th) = th_vnets th \<and>
     (\<forall>v < th_vnets th. vnet_ok env now (th_in th ! v) (th_out th ! v) v s th (xs v))"

lemma vnet_ok_other:
  assumes ok: "vnet_ok env now i j v s th xs" "vnet_ok env now i' j' v' s th xs'"
    and mv: "moved now i j v xs k s th s' th' e" "vnet_ok env now i j v s' th' ys" and ne: "v' \<noteq> v" "i' \<notin> {i, j}" "j' \<notin> {i, j}"
  shows "vnet_ok env now i' j' v' s' th' xs' \<and> snd s' ! i' = snd s ! i' \<and> snd s' ! j' = snd s ! j' \<and>
    th_units_remaining th' ! v' = th_units_remaining th ! v'"
proof -
  obtain u cs where th': "th' = th\<lparr>th_units_remaining := (th_units_remaining th)[v := u], th_message_counters := cs\<rparr>"
    using mv(1) by (auto simp: moved_def)
  have "length (snd s') = length (snd s)" "\<forall>m. m \<noteq> i \<and> m \<noteq> j \<longrightarrow> snd s' ! m = snd s ! m" using mv(1) by (simp_all add: moved_def)
  then show ?thesis using ok mv(2) ne th' by (auto simp: vnet_ok_def split: prod.splits)
qed

text \<open>The state of the wakeup when the virtual networks in \<open>done\<close> have been served.\<close>

definition served :: "net_env \<Rightarrow> time \<Rightarrow> 'a net_store \<Rightarrow> throttle \<Rightarrow> (nat \<Rightarrow> 'a net_msg mb_node list) \<Rightarrow> int \<Rightarrow> nat set \<Rightarrow> (nat \<Rightarrow> nat) \<Rightarrow>
    (('a net_store \<times> throttle) \<times> int) \<times> bool \<Rightarrow> bool" where
  "served env now s0 th0 xs bw0 dn k r \<longleftrightarrow> (case r of (((s, th), bw), sched) \<Rightarrow>
     throttle_ok env now s th (\<lambda>v. drop (k v) (xs v)) \<and>
     (\<exists>us cs. th = th0\<lparr>th_units_remaining := us, th_message_counters := cs\<rparr>) \<and> 0 \<le> bw \<and> bw \<le> bw0 \<and>
     (\<forall>v < th_vnets th0. (v \<notin> dn \<longrightarrow> k v = 0) \<and> k v \<le> length (xs v) \<and> (\<forall>x \<in> set (take (k v) (xs v)). mbn_time x \<le> now) \<and>
        payloads (snd s ! (th_out th0 ! v)) = payloads (snd s0 ! (th_out th0 ! v)) +
          mset (map (\<lambda>n. msg_payload (mbn_msgptr n)) (take (k v) (xs v)))) \<and>
     (\<Sum>v < th_vnets th0. th_units_remaining th ! v) + (bw0 - bw) =
       (\<Sum>v < th_vnets th0. th_units_remaining th0 ! v + sum_list (map units_of (take (k v) (xs v)))) \<and>
     (\<forall>v \<in> dn. settled now (th_in th0 ! v) (th_out th0 ! v) v s th bw \<and>
        (0 < bw \<and> work_left now (th_in th0 ! v) v s th \<longrightarrow> sched)))"

lemma distinct_pointers:
  assumes "throttle_ok env now s th xs" "v < th_vnets th" "v' < th_vnets th" "v' \<noteq> v"
  shows "th_in th ! v' \<notin> {th_in th ! v, th_out th ! v}" "th_out th ! v' \<notin> {th_in th ! v, th_out th ! v}"
  using assms unfolding throttle_ok_def by (auto simp: nth_eq_iff_index_eq) (metis disjoint_iff nth_mem)+

lemma served_step:
  assumes sv: "served env now s0 th0 xs bw0 dn k r" and v: "v < th_vnets th0" "v \<notin> dn" and sub: "dn \<subseteq> {..<th_vnets th0}"
  shows "\<exists>r' k'. throttle_vnet env v r = Some r' \<and> served env now s0 th0 xs bw0 (insert v dn) k' r'"
proof -
  obtain s th bw sched where r: "r = (((s, th), bw), sched)" by (metis prod.collapse)
  obtain us cs where th: "th = th0\<lparr>th_units_remaining := us, th_message_counters := cs\<rparr>" using sv by (auto simp: served_def r)
  let ?i = "\<lambda>v. th_in th0 ! v" and ?j = "\<lambda>v. th_out th0 ! v" and ?n = "th_vnets th0"
  have tok: "throttle_ok env now s th (\<lambda>v. drop (k v) (xs v))" and bw: "0 \<le> bw" "bw \<le> bw0"
    and per: "\<forall>v < ?n. (v \<notin> dn \<longrightarrow> k v = 0) \<and> k v \<le> length (xs v) \<and> (\<forall>x \<in> set (take (k v) (xs v)). mbn_time x \<le> now) \<and>
        payloads (snd s ! ?j v) = payloads (snd s0 ! ?j v) + mset (map (\<lambda>n. msg_payload (mbn_msgptr n)) (take (k v) (xs v)))"
    and sum: "(\<Sum>v < ?n. th_units_remaining th ! v) + (bw0 - bw) =
       (\<Sum>v < ?n. th_units_remaining th0 ! v + sum_list (map units_of (take (k v) (xs v))))"
    and dn: "\<forall>v \<in> dn. settled now (?i v) (?j v) v s th bw \<and> (0 < bw \<and> work_left now (?i v) v s th \<longrightarrow> sched)"
    using sv unfolding served_def r prod.case by blast+
  have len: "length us = ?n" "length (th_out th0) = ?n" using tok th by (simp_all add: throttle_ok_def)
  have vok: "vnet_ok env now (?i v') (?j v') v' s th (drop (k v') (xs v'))" if "v' < ?n" for v'
    using tok th that by (simp add: throttle_ok_def)
  have kv: "k v = 0" using per v by blast
  have v0: "vnet_ok env now (?i v) (?j v) v s th (xs v)" using vok [OF v(1)] kv by simp
  have ptr: "v < length (th_in th)" "v < length (th_out th)" "th_in th ! v = ?i v" "th_out th ! v = ?j v" using v(1) len th by simp_all
  obtain s' th' bw' sched' kk where st: "throttle_vnet env v (((s, th), bw), sched) = Some (((s', th'), bw'), sched')"
    "vnet_ok env now (?i v) (?j v) v s' th' (drop kk (xs v))" "moved now (?i v) (?j v) v (xs v) kk s th s' th' (bw - bw')"
    "0 \<le> bw'" "bw' \<le> bw" "settled now (?i v) (?j v) v s' th' bw'" "sched \<longrightarrow> sched'"
    "0 < bw' \<and> work_left now (?i v) v s' th' \<longrightarrow> sched'"
    using throttle_vnet_ok [OF v0 bw(1) ptr, of sched] by blast
  obtain u cs' where th': "th' = th\<lparr>th_units_remaining := us[v := u], th_message_counters := cs'\<rparr>"
    "u + (bw - bw') = us ! v + sum_list (map units_of (take kk (xs v)))" using st(3) th by (auto simp: moved_def)
  let ?k = "k(v := kk)"
  have other: "vnet_ok env now (?i v') (?j v') v' s' th' (drop (k v') (xs v')) \<and> snd s' ! ?i v' = snd s ! ?i v' \<and>
      snd s' ! ?j v' = snd s ! ?j v' \<and> th_units_remaining th' ! v' = th_units_remaining th ! v'" if "v' < ?n" "v' \<noteq> v" for v'
    using vnet_ok_other [OF v0 vok [OF that(1)] st(3,2) that(2)] distinct_pointers [OF tok, of v v'] v(1) that th by simp
  have tok': "throttle_ok env now s' th' (\<lambda>v. drop (?k v) (xs v))"
  proof -
    have "eq_inv (fst s')" "m_globalTime (fst s') = now" using st(2) by (auto simp: vnet_ok_def split: prod.splits)
    moreover have "vnet_ok env now (?i v') (?j v') v' s' th' (drop (?k v') (xs v'))" if "v' < ?n" for v'
      using other [OF that] st(2) by (cases "v' = v") auto
    ultimately show ?thesis using tok th th'(1) by (simp add: throttle_ok_def)
  qed
  have per': "\<forall>v' < ?n. (v' \<notin> insert v dn \<longrightarrow> ?k v' = 0) \<and> ?k v' \<le> length (xs v') \<and> (\<forall>x \<in> set (take (?k v') (xs v')). mbn_time x \<le> now) \<and>
        payloads (snd s' ! ?j v') = payloads (snd s0 ! ?j v') + mset (map (\<lambda>n. msg_payload (mbn_msgptr n)) (take (?k v') (xs v')))"
  proof (intro allI impI)
    fix v' assume v': "v' < ?n"
    show "(v' \<notin> insert v dn \<longrightarrow> ?k v' = 0) \<and> ?k v' \<le> length (xs v') \<and> (\<forall>x \<in> set (take (?k v') (xs v')). mbn_time x \<le> now) \<and>
        payloads (snd s' ! ?j v') = payloads (snd s0 ! ?j v') + mset (map (\<lambda>n. msg_payload (mbn_msgptr n)) (take (?k v') (xs v')))"
    proof (cases "v' = v")
      case True
      have "payloads (snd s ! ?j v) = payloads (snd s0 ! ?j v)" using per v(1) kv by auto
      then show ?thesis using st(3) True unfolding moved_def by auto
    qed (use per v' other [OF v'] in auto)
  qed
  have "(\<Sum>v' < ?n. th_units_remaining th' ! v') = (\<Sum>v' < ?n. th_units_remaining th ! v') + (u - us ! v)"
  proof -
    have "(\<Sum>v' < ?n. us[v := u] ! v') = (\<Sum>v' < ?n. us ! v' + (if v' = v then u - us ! v else 0))"
      using v(1) len by (intro sum.cong) (auto simp: nth_list_update)
    then show ?thesis using v(1) th th'(1) by (simp add: sum.distrib)
  qed
  moreover have "(\<Sum>v' < ?n. th_units_remaining th0 ! v' + sum_list (map units_of (take (?k v') (xs v')))) =
      (\<Sum>v' < ?n. th_units_remaining th0 ! v' + sum_list (map units_of (take (k v') (xs v')))) + sum_list (map units_of (take kk (xs v)))"
  proof -
    have "(\<Sum>v' < ?n. th_units_remaining th0 ! v' + sum_list (map units_of (take (?k v') (xs v')))) =
        (\<Sum>v' < ?n. (th_units_remaining th0 ! v' + sum_list (map units_of (take (k v') (xs v')))) +
           (if v' = v then sum_list (map units_of (take kk (xs v))) else 0))"
      using kv by (intro sum.cong) auto
    then show ?thesis using v(1) by (simp add: sum.distrib)
  qed
  ultimately have sum': "(\<Sum>v' < ?n. th_units_remaining th' ! v') + (bw0 - bw') =
       (\<Sum>v' < ?n. th_units_remaining th0 ! v' + sum_list (map units_of (take (?k v') (xs v'))))" using sum th'(2) by linarith
  have dn': "settled now (?i v') (?j v') v' s' th' bw' \<and> (0 < bw' \<and> work_left now (?i v') v' s' th' \<longrightarrow> sched')"
    if "v' \<in> insert v dn" "v' < ?n" for v'
  proof (cases "v' = v")
    case False
    then have "v' \<in> dn" using that by simp
    then show ?thesis using dn other [OF that(2) False] st(4,5,7) by (auto simp: settled_def work_left_def)
  qed (use st(6,8) in auto)
  have "served env now s0 th0 xs bw0 (insert v dn) ?k (((s', th'), bw'), sched')"
    unfolding served_def prod.case using tok' th th'(1) st(4,5) bw(2) per' sum' dn' v(1) sub by auto
  then show ?thesis using st(1) r by blast
qed

lemma served_fold:
  assumes "served env now s0 th0 xs bw0 dn k r" "distinct vs" "set vs \<subseteq> {..<th_vnets th0}" "set vs \<inter> dn = {}" "dn \<subseteq> {..<th_vnets th0}"
  shows "\<exists>r' k'. fold_opt (throttle_vnet env) vs r = Some r' \<and> served env now s0 th0 xs bw0 (dn \<union> set vs) k' r'"
  using assms
proof (induction vs arbitrary: dn k r)
  case (Cons v vs)
  from served_step [OF Cons.prems(1), of v] Cons.prems obtain r1 k1 where
    1: "throttle_vnet env v r = Some r1" "served env now s0 th0 xs bw0 (insert v dn) k1 r1" by auto
  from Cons.IH [OF 1(2)] Cons.prems 1(1) show ?case by auto
qed auto

lemma bash_adjust_total:
  assumes "ADJUST_INTERVAL * bandwidth < 2 ^ 31"
  shows "\<exists>a b c. bash_adjust env bandwidth now th = Some (th\<lparr>th_bash_counter := a, th_bandwidth_since_sample := b, th_last_bandwidth_sample := c\<rparr>)"
proof (induction "nat (now - th_last_bandwidth_sample th)" arbitrary: th rule: less_induct)
  case less
  show ?case
  proof (cases "ADJUST_INTERVAL < now - th_last_bandwidth_sample th")
    case True
    define x where "x = (if above_threshold env (th_bandwidth_since_sample th) (ADJUST_INTERVAL * bandwidth)
      then th_bash_counter th + 1 else th_bash_counter th - 1)"
    let ?th = "th\<lparr>th_bash_counter := max 0 (min HIGH_RANGE x),
      th_last_bandwidth_sample := th_last_bandwidth_sample th + ADJUST_INTERVAL, th_bandwidth_since_sample := 0\<rparr>"
    have "bash_adjust env bandwidth now th = bash_adjust env bandwidth now ?th"
      using True assms by (subst bash_adjust.simps) (simp add: check_bind Let_def x_def)
    moreover have "nat (now - th_last_bandwidth_sample ?th) < nat (now - th_last_bandwidth_sample th)"
      using True by (simp add: ADJUST_INTERVAL_def)
    ultimately show ?thesis using less [of ?th] by force
  next
    case False
    then have "bash_adjust env bandwidth now th = Some th" by (subst bash_adjust.simps) simp
    then show ?thesis by (intro exI [of _ "th_bash_counter th"] exI [of _ "th_bandwidth_since_sample th"] exI [of _ "th_last_bandwidth_sample th"]) simp
  qed
qed


definition sample_net_msg :: "nat net_msg" where
  "sample_net_msg = \<lparr>nm_destination = [], nm_internal_dest = [], nm_internal_dest_valid = False, nm_size = MS_Control, nm_content = 42\<rparr>"

definition sample_net_env :: net_env where
  "sample_net_env = \<lparr>env_RANDOMIZATION = False, env_random = (\<lambda>_ _. (0, 0, 0)), above_threshold = (\<lambda>x y. 3 * y < 4 * x)\<rparr>"

definition sample_net_buffer :: "nat net_buffer" where
  "sample_net_buffer = message_buffer_new\<lparr>mb_ordering_set := True, mb_consumer_ptr := Some 7\<rparr>"

definition sample_throttle :: throttle where
  "sample_throttle = \<lparr>th_consumer = 7, th_in = [0], th_out = [1], th_message_counters = replicate (length MessageSizeTypes) [0],
     th_units_remaining = [0], th_sID = 0, th_node = 0, th_bash_counter = HIGH_RANGE, th_bandwidth_since_sample = 0,
     th_last_bandwidth_sample = 0, th_link_bandwidth_multiplier = 1, th_link_latency = 3, th_wakeups_wo_switch = 0, th_ruby_start = 0\<rparr>"

lemma sample_net_buffer_ok:
  "fifo_abs sample_net_buffer []" "buf_ok sample_net_buffer" "0 \<le> now \<Longrightarrow> 0 < d \<Longrightarrow> paced env now d sample_net_buffer"
  "payloads sample_net_buffer = {#}"
  by (simp_all add: sample_net_buffer_def message_buffer_new_def fifo_abs_def mb_inv_def mb_nodes_def mbo.heap_ok_init mbo.heap_mset_init
      counters_distinct_def buf_ok_def paced_def payloads_def)

lemma eq_inv_at: "0 \<le> t \<Longrightarrow> eq_inv (event_queue_init\<lparr>m_globalTime := t\<rparr>)"
  by (simp add: eq_inv_def event_queue_init_def eqo.heap_ok_init events_def eqo.heap_mset_init)

text \<open>A buffer with one message that has arrived.\<close>

lemma sample_full_buffer:
  fixes m :: "'a net_msg"
  obtains b n where "fifo_abs b [n]" "buf_ok b" "msg_payload (mbn_msgptr n) = m" "0 < mbn_time n"
    "mb_strict_fifo b" "mb_max_size b = -1" "mb_last_arrival_time b = mbn_time n"
proof -
  let ?b = "message_buffer_new\<lparr>mb_ordering_set := True, mb_consumer_ptr := Some 7\<rparr> :: 'a net_buffer"
  let ?m = "\<lparr>msg_LastEnqueueTime = 0, msg_DelayedCycles = 0, msg_payload = m\<rparr>"
  have f: "fifo_abs ?b []" by (simp add: message_buffer_new_def fifo_abs_def mb_inv_def mb_nodes_def mbo.heap_ok_init
      mbo.heap_mset_init counters_distinct_def)
  have ok: "enq_ok False (0, 0, 0) ?m 1 event_queue_init ?b"
    by (simp add: enq_ok_def message_buffer_new_def event_queue_init_def)
  obtain q' b n where e: "mb_enqueue False (0, 0, 0) (Some ?m) 1 (event_queue_init, ?b) = Some (q', b)" "fifo_abs b ([] @ [n])"
    "msg_payload (mbn_msgptr n) = msg_payload ?m" "msg_LastEnqueueTime (mbn_msgptr n) = mbn_time n" "m_globalTime event_queue_init < mbn_time n"
    using fifo_abs_enqueue [OF f eq_inv_init ok] by blast
  have inv: "mb_inv ?b" using f by (simp add: fifo_abs_def)
  have "mb_last_arrival_time b = mbn_time (mb_new_node False (0, 0, 0) ?m 1 (m_globalTime event_queue_init) ?b)"
    and nodes: "mb_nodes b = add_mset (mb_new_node False (0, 0, 0) ?m 1 (m_globalTime event_queue_init) ?b) (mb_nodes ?b)"
    using mb_enqueue_ok [OF inv eq_inv_init ok] e(1) by auto
  moreover have "mb_nodes b = {#n#}" using e(2) by (simp add: fifo_abs_def)
  ultimately have la: "mb_last_arrival_time b = mbn_time n" by (auto dest!: arg_cong [of _ _ "\<lambda>M. n \<in># M"] simp: mb_nodes_def message_buffer_new_def mbo.heap_mset_init)
  have "buf_ok b" using e mb_enqueue_frame [OF e(1)] fifo_nodes [OF e(2)] by (auto simp: buf_ok_def fifo_abs_def)
  moreover have "mb_max_size b = -1" using mb_enqueue_frame [OF e(1)] by (simp add: message_buffer_new_def)
  moreover have "mb_strict_fifo b" using e(2) by (simp add: fifo_abs_def)
  moreover have "0 < mbn_time n" using e(5) by (simp add: event_queue_init_def)
  ultimately show thesis using that [of b n] e(2,3) la by simp
qed


end
