(* ===== verification/Net_Switch.thy ===== *)
theory Net_Switch
  imports Net_Bandwidth
begin

text \<open>
  The switches of the simple network: \<^verbatim>\<open>network/simple/PerfectSwitch.C\<close> and \<^verbatim>\<open>Switch.C\<close>. A switch moves the messages of its
  input ports to its output ports without delay, splitting the set of destinations of each message over the
  links of its routing table; behind each output port there is a throttle. What adaptive routing draws from \<^verbatim>\<open>random()\<close>
  and the sorting of the link order (\<^verbatim>\<open>Vector::sortVector\<close>, which may order equal links either way) are parameters. Reading a
  message stores its destination as the internal one, which no later reader can tell from before, so the model leaves
  the message in the buffer as it is; the copies for several links are the values they are copies of.
\<close>

record switch_env = net_env +
  g_adaptive_routing :: bool
  random_byte :: "nat \<Rightarrow> nat"
  sort_links :: "(nat \<times> int) list \<Rightarrow> (nat \<times> int) list"
  FINITE_BUFFERING :: bool
  FINITE_BUFFER_SIZE :: int
  NUMBER_OF_VIRTUAL_NETWORKS :: nat

record perfect_switch =
  ps_consumer :: nat
  ps_in :: "nat list list"
  ps_out :: "nat list list"
  ps_routing_table :: "net_dest list"
  ps_link_order :: "(nat \<times> int) list"
  ps_virtual_networks :: nat
  ps_round_robin_start :: nat
  ps_wakeups_wo_switch :: int
  ps_random_calls :: nat
  \<comment> \<open>how many random bytes have been drawn\<close>

definition pswitch_new :: "nat \<Rightarrow> nat \<Rightarrow> perfect_switch" where
  "pswitch_new this vnets = \<lparr>ps_consumer = this, ps_in = [], ps_out = [], ps_routing_table = [], ps_link_order = [],
     ps_virtual_networks = vnets, ps_round_robin_start = 0, ps_wakeups_wo_switch = 0, ps_random_calls = 0\<rparr>"

definition pswitch_addInPort :: "nat list \<Rightarrow> 'a net_buffer list \<times> perfect_switch \<Rightarrow> ('a net_buffer list \<times> perfect_switch) option" where
  "pswitch_addInPort inp = (\<lambda>(bs, ps). do {
     check (length inp = ps_virtual_networks ps);
     bs' \<leftarrow> fold_opt (\<lambda>i. buf_setConsumer i (ps_consumer ps)) inp bs;
     Some (bs', ps\<lparr>ps_in := ps_in ps @ [inp]\<rparr>) })"

definition pswitch_addOutPort :: "nat list \<Rightarrow> net_dest \<Rightarrow> perfect_switch \<Rightarrow> perfect_switch option" where
  "pswitch_addOutPort out routing_table_entry ps = do {
     check (length out = ps_virtual_networks ps);
     Some (ps\<lparr>ps_link_order := ps_link_order ps @ [(length (ps_out ps), 0)], ps_out := ps_out ps @ [out],
             ps_routing_table := ps_routing_table ps @ [routing_table_entry]\<rparr>) }"

definition pswitch_clearRoutingTables :: "perfect_switch \<Rightarrow> perfect_switch" where
  "pswitch_clearRoutingTables ps = ps\<lparr>ps_routing_table := []\<rparr>"

definition pswitch_reconfigureOutPort :: "net_dest \<Rightarrow> perfect_switch \<Rightarrow> perfect_switch" where
  "pswitch_reconfigureOutPort routing_table_entry ps = ps\<lparr>ps_routing_table := ps_routing_table ps @ [routing_table_entry]\<rparr>"

definition pswitch_clearBuffers :: "perfect_switch \<Rightarrow> 'a net_buffer list \<Rightarrow> 'a net_buffer list option" where
  "pswitch_clearBuffers ps bs = do {
     bs1 \<leftarrow> fold_opt (\<lambda>port. fold_opt (\<lambda>vnet bs. do { i \<leftarrow> ptr_at port vnet; buf_clear i bs }) [0..<ps_virtual_networks ps]) (ps_in ps) bs;
     fold_opt (\<lambda>port. fold_opt (\<lambda>vnet bs. do { i \<leftarrow> ptr_at port vnet; buf_clear i bs }) [0..<ps_virtual_networks ps]) (ps_out ps) bs1 }"

subsection \<open>Routing a message\<close>

text \<open>Which links a message takes, and which of its destinations go over each.\<close>

definition route_link :: "net_dest list \<Rightarrow> nat \<Rightarrow> (nat \<times> net_dest) list \<times> net_dest \<Rightarrow> ((nat \<times> net_dest) list \<times> net_dest) option" where
  "route_link routing_table link = (\<lambda>(outputs, msg_destinations). do {
     check (link < length routing_table);
     b \<leftarrow> nd_intersectionIsNotEmpty (routing_table ! link) msg_destinations;
     if b then do {
       d \<leftarrow> nd_AND (routing_table ! link) msg_destinations;
       rest \<leftarrow> nd_removeNetDest (routing_table ! link) msg_destinations;
       Some (outputs @ [(link, d)], rest) }
     else Some (outputs, msg_destinations) })"

definition route_message :: "net_dest list \<Rightarrow> nat list \<Rightarrow> net_dest \<Rightarrow> (nat \<times> net_dest) list option" where
  "route_message routing_table order msg_destinations = do {
     (outputs, rest) \<leftarrow> fold_opt (route_link routing_table) order ([], msg_destinations);
     check (nd_count rest = 0);
     Some outputs }"

text \<open>How full a link is. The shifted length and the random byte have no bit in common, so their \<^verbatim>\<open>or\<close> is the sum.\<close>

definition vnet_size :: "nat list \<Rightarrow> nat \<Rightarrow> int \<times> 'a net_store \<Rightarrow> (int \<times> 'a net_store) option" where
  "vnet_size out v = (\<lambda>(sum, q, bs). do {
     i \<leftarrow> ptr_at out v;
     b \<leftarrow> buf_at bs i;
     let (n, b') = mb_getSize (m_globalTime q) b;
     Some (sum + n, q, bs[i := b']) })"

definition link_load :: "switch_env \<Rightarrow> nat \<Rightarrow> 'a net_store \<times> perfect_switch \<Rightarrow> ('a net_store \<times> perfect_switch) option" where
  "link_load env outlink = (\<lambda>(s, ps). do {
     check (outlink < length (ps_out ps) \<and> outlink < length (ps_link_order ps));
     (out_queue_length, s') \<leftarrow> fold_opt (vnet_size (ps_out ps ! outlink)) [0..<ps_virtual_networks ps] (0, s);
     Some (s', ps\<lparr>ps_link_order := (ps_link_order ps)[outlink := (outlink, out_queue_length * 256 + int (random_byte env (ps_random_calls ps) mod 256))],
                  ps_random_calls := ps_random_calls ps + 1\<rparr>) })"

definition adaptive_order :: "switch_env \<Rightarrow> bool \<Rightarrow> 'a net_store \<times> perfect_switch \<Rightarrow> ('a net_store \<times> perfect_switch) option" where
  "adaptive_order env ordered = (\<lambda>(s, ps).
     if g_adaptive_routing env then
       (if ordered then Some (s, ps\<lparr>ps_link_order := map (\<lambda>outlink. (outlink, 0)) [0..<length (ps_out ps)]\<rparr>)
        else do {
          (s', ps') \<leftarrow> fold_opt (link_load env) [0..<length (ps_out ps)] (s, ps);
          Some (s', ps'\<lparr>ps_link_order := sort_links env (ps_link_order ps')\<rparr>) })
     else Some (s, ps))"

definition out_pointer :: "perfect_switch \<Rightarrow> nat \<Rightarrow> nat \<Rightarrow> nat option" where
  "out_pointer ps vnet link = do { check (link < length (ps_out ps)); ptr_at (ps_out ps ! link) vnet }"

definition check_room :: "perfect_switch \<Rightarrow> nat \<Rightarrow> nat \<times> net_dest \<Rightarrow> bool \<times> 'a net_store \<Rightarrow> (bool \<times> 'a net_store) option" where
  "check_room ps vnet out = (\<lambda>(enough, s). if enough then do { i \<leftarrow> out_pointer ps vnet (fst out); buf_slots i s } else Some (enough, s))"

definition send_copy :: "switch_env \<Rightarrow> perfect_switch \<Rightarrow> nat \<Rightarrow> 'a net_msg message \<Rightarrow> nat \<times> net_dest \<Rightarrow> 'a net_store \<Rightarrow> 'a net_store option" where
  "send_copy env ps vnet msg out s = do {
     i \<leftarrow> out_pointer ps vnet (fst out);
     buf_enqueue (net_env.truncate env) i (msg\<lparr>msg_payload := setInternalDestination (snd out) (msg_payload msg)\<rparr>) 1 s }"

subsection \<open>The wakeup\<close>

text \<open>One message of an input queue; the flag tells whether the loop over the queue goes on.\<close>

definition switch_message :: "switch_env \<Rightarrow> (nat \<Rightarrow> bool) \<Rightarrow> nat \<Rightarrow> nat \<Rightarrow> 'a net_store \<times> perfect_switch \<Rightarrow>
    (bool \<times> 'a net_store \<times> perfect_switch) option" where
  "switch_message env isVNetOrdered vnet i = (\<lambda>(s, ps). do {
     ready \<leftarrow> buf_ready i s;
     if \<not> ready then Some (False, s, ps)
     else do {
       msg \<leftarrow> buf_peek i s;
       check (length (ps_link_order ps) = length (ps_routing_table ps));
       check (length (ps_link_order ps) = length (ps_out ps));
       (s1, ps1) \<leftarrow> adaptive_order env (isVNetOrdered vnet) (s, ps);
       outputs \<leftarrow> route_message (ps_routing_table ps1) (map fst (ps_link_order ps1)) (getInternalDestination (msg_payload msg));
       (enough, s2) \<leftarrow> fold_opt (check_room ps1 vnet) outputs (True, s1);
       if \<not> enough then do {
         q \<leftarrow> scheduleEvent (Some (ps_consumer ps1)) 1 (fst s2);
         Some (False, (q, snd s2), ps1) }
       else do {
         s3 \<leftarrow> fold_opt (send_copy env ps1 vnet msg) outputs s2;
         s4 \<leftarrow> buf_pop i s3;
         Some (True, s4, ps1) } } })"

partial_function (option) switch_queue :: "switch_env \<Rightarrow> (nat \<Rightarrow> bool) \<Rightarrow> nat \<Rightarrow> nat \<Rightarrow> 'a net_store \<times> perfect_switch \<Rightarrow> ('a net_store \<times> perfect_switch) option" where
  "switch_queue env isVNetOrdered vnet i s =
     Option.bind (switch_message env isVNetOrdered vnet i s) (\<lambda>r. if fst r then switch_queue env isVNetOrdered vnet i (snd r) else Some (snd r))"

declare switch_queue.simps [code]

text \<open>The next port in turn.\<close>

definition round_robin :: "nat \<Rightarrow> nat \<Rightarrow> nat" where
  "round_robin n i = (if n \<le> i + 1 then 0 else i + 1)"

definition switch_port :: "switch_env \<Rightarrow> (nat \<Rightarrow> bool) \<Rightarrow> nat \<Rightarrow> nat \<Rightarrow> nat \<times> 'a net_store \<times> perfect_switch \<Rightarrow> (nat \<times> 'a net_store \<times> perfect_switch) option" where
  "switch_port env isVNetOrdered vnet _ = (\<lambda>(incoming, s, ps). do {
     let incoming' = round_robin (length (ps_in ps)) incoming;
     check (incoming' < length (ps_in ps));
     i \<leftarrow> ptr_at (ps_in ps ! incoming') vnet;
     (s', ps') \<leftarrow> switch_queue env isVNetOrdered vnet i (s, ps);
     Some (incoming', s', ps') })"

definition switch_vnet :: "switch_env \<Rightarrow> (nat \<Rightarrow> bool) \<Rightarrow> nat \<Rightarrow> 'a net_store \<times> perfect_switch \<Rightarrow> ('a net_store \<times> perfect_switch) option" where
  "switch_vnet env isVNetOrdered vnet = (\<lambda>(s, ps). do {
     let start = round_robin (length (ps_in ps)) (ps_round_robin_start ps);
     (_, s', ps') \<leftarrow> fold_opt (switch_port env isVNetOrdered vnet) [0..<length (ps_in ps)]
       (ps_round_robin_start ps, s, ps\<lparr>ps_round_robin_start := start\<rparr>);
     Some (s', ps') })"

definition pswitch_wakeup :: "switch_env \<Rightarrow> (nat \<Rightarrow> bool) \<Rightarrow> 'a net_store \<times> perfect_switch \<Rightarrow> ('a net_store \<times> perfect_switch) option" where
  "pswitch_wakeup env isVNetOrdered = (\<lambda>(s, ps). do {
     let inverted = (PRIORITY_SWITCH_LIMIT < ps_wakeups_wo_switch ps + 1);
     let ps1 = ps\<lparr>ps_wakeups_wo_switch := (if inverted then 0 else ps_wakeups_wo_switch ps + 1)\<rparr>;
     fold_opt (switch_vnet env isVNetOrdered) (vnet_order (ps_virtual_networks ps1) inverted) (s, ps1) })"

end
