(* ===== verification/Net_Switching.thy ===== *)
theory Net_Switching
  imports Net_Switch
begin

text \<open>
  What a switch promises: it sends every destination of a message over exactly one link whose routing table entry holds
  it, and a wakeup returns and neither loses nor duplicates a delivery.
\<close>

subsection \<open>Splitting the destinations\<close>

lemma nd_finite [simp]: "finite (nd_elems n)"
  using nd_count_ok by blast

lemma mset_set_split: "finite A \<Longrightarrow> mset_set A = mset_set (A \<inter> B) + mset_set (A - B)"
  by (metis Diff_disjoint Int_Diff_Un finite_Diff finite_Int inf_assoc inf_bot_right inf_commute mset_set_Union)

definition split_ok :: "machine_types \<Rightarrow> net_dest list \<Rightarrow> nat set \<Rightarrow> (nat \<times> net_dest) list \<Rightarrow> bool" where
  "split_ok mt routing_table links outs \<longleftrightarrow> (\<forall>(l, d) \<in> set outs. l \<in> links \<and> nd_inv mt d \<and> nd_elems d \<noteq> {} \<and> nd_elems d \<subseteq> nd_elems (routing_table ! l))"

lemma route_links_ok:
  assumes "\<And>l. l \<in> set ls \<Longrightarrow> l < length rt \<and> nd_inv mt (rt ! l)" "nd_inv mt D" "split_ok mt rt L outs"
  shows "\<exists>outs' rest. fold_opt (route_link rt) ls (outs, D) = Some (outs', rest) \<and> nd_inv mt rest \<and>
    nd_elems rest = nd_elems D - (\<Union>l \<in> set ls. nd_elems (rt ! l)) \<and> split_ok mt rt (L \<union> set ls) outs' \<and>
    sum_list (map (\<lambda>(l, d). mset_set (nd_elems d)) outs') + mset_set (nd_elems rest) =
      sum_list (map (\<lambda>(l, d). mset_set (nd_elems d)) outs) + mset_set (nd_elems D)"
  using assms
proof (induction ls arbitrary: outs D L)
  case (Cons l ls)
  have l: "l < length rt" "nd_inv mt (rt ! l)" using Cons.prems(1) by simp_all
  let ?T = "nd_elems (rt ! l)"
  obtain d where d: "nd_AND (rt ! l) D = Some d" "nd_inv mt d" "nd_elems d = nd_elems D \<inter> ?T" using nd_AND_ok [OF Cons.prems(2) l(2)] by blast
  obtain r where r: "nd_removeNetDest (rt ! l) D = Some r" "nd_inv mt r" "nd_elems r = nd_elems D - ?T"
    using nd_removeNetDest_ok [OF Cons.prems(2) l(2)] by blast
  note ix = nd_intersection_ok [OF Cons.prems(2) l(2)]
  show ?case
  proof (cases "nd_elems D \<inter> ?T = {}")
    case True
    then have "route_link rt l (outs, D) = Some (outs, D)" using ix l by (simp add: route_link_def check_bind)
    moreover have "split_ok mt rt (insert l L) outs" using Cons.prems(3) by (auto simp: split_ok_def)
    ultimately show ?thesis using Cons.IH [OF _ Cons.prems(2), of "insert l L" outs] Cons.prems(1) True by auto
  next
    case False
    then have step: "route_link rt l (outs, D) = Some (outs @ [(l, d)], r)" using ix l d r by (simp add: route_link_def check_bind)
    have "split_ok mt rt (insert l L) (outs @ [(l, d)])" using Cons.prems(3) d False by (auto simp: split_ok_def)
    from Cons.IH [OF _ r(2) this] Cons.prems(1) obtain outs' rest where
      "fold_opt (route_link rt) ls (outs @ [(l, d)], r) = Some (outs', rest)" "nd_inv mt rest"
      "nd_elems rest = nd_elems r - (\<Union>l \<in> set ls. nd_elems (rt ! l))" "split_ok mt rt (insert l L \<union> set ls) outs'"
      "sum_list (map (\<lambda>(l, d). mset_set (nd_elems d)) outs') + mset_set (nd_elems rest) =
        sum_list (map (\<lambda>(l, d). mset_set (nd_elems d)) (outs @ [(l, d)])) + mset_set (nd_elems r)" by auto
    moreover have "mset_set (nd_elems d) + mset_set (nd_elems r) = mset_set (nd_elems D)"
      using mset_set_split [of "nd_elems D" ?T] d(3) r(3) by simp
    ultimately show ?thesis using step r(3) by (auto simp: ac_simps)
  qed
qed (auto simp: split_ok_def)

lemma route_message_ok:
  assumes "\<And>l. l \<in> set ls \<Longrightarrow> l < length rt \<and> nd_inv mt (rt ! l)" "nd_inv mt D"
    and "nd_elems D \<subseteq> (\<Union>l \<in> set ls. nd_elems (rt ! l))"
  shows "\<exists>outs. route_message rt ls D = Some outs \<and> split_ok mt rt (set ls) outs \<and>
    sum_list (map (\<lambda>(l, d). mset_set (nd_elems d)) outs) = mset_set (nd_elems D)"
proof -
  have "split_ok mt rt {} []" by (simp add: split_ok_def)
  note split = route_links_ok [of ls rt mt D "{}" "[]", OF assms(1,2) this]
  from split obtain outs rest where
    r: "fold_opt (route_link rt) ls ([], D) = Some (outs, rest)" "nd_elems rest = nd_elems D - (\<Union>l \<in> set ls. nd_elems (rt ! l))"
    "split_ok mt rt (set ls) outs" "sum_list (map (\<lambda>(l, d). mset_set (nd_elems d)) outs) + mset_set (nd_elems rest) = mset_set (nd_elems D)" by auto
  have e: "nd_elems rest = {}" using r(2) assms(3) by blast
  have "nd_count rest = 0" using nd_count_ok [of rest] e by simp
  moreover have "sum_list (map (\<lambda>(l, d). mset_set (nd_elems d)) outs) = mset_set (nd_elems D)" using r(4) e by simp
  ultimately show ?thesis using r(1,3) by (simp add: route_message_def check_bind)
qed

subsection \<open>Deliveries\<close>

text \<open>What is still to be delivered: one pair of content and machine for each destination of each message.\<close>

definition deliveries :: "'a net_msg \<Rightarrow> ('a \<times> machine_id) multiset" where
  "deliveries m = image_mset (Pair (nm_content m)) (mset_set (nd_elems (getInternalDestination m)))"

definition to_deliver :: "'a net_buffer \<Rightarrow> ('a \<times> machine_id) multiset" where
  "to_deliver b = sum_mset (image_mset deliveries (payloads b))"

definition undelivered :: "'a net_buffer list \<Rightarrow> ('a \<times> machine_id) multiset" where
  "undelivered bs = sum_list (map to_deliver bs)"

lemma undelivered_update:
  "i < length bs \<Longrightarrow> undelivered (bs[i := b]) + to_deliver (bs ! i) = undelivered bs + to_deliver b"
proof (induction bs arbitrary: i)
  case (Cons x bs)
  show ?case
  proof (cases i)
    case (Suc j)
    with Cons.IH [of j] Cons.prems show ?thesis by (simp add: undelivered_def ac_simps)
  qed (simp add: undelivered_def ac_simps)
qed simp

subsection \<open>Buffers that differ in bookkeeping only\<close>

definition buf_same :: "'a net_buffer \<Rightarrow> 'a net_buffer \<Rightarrow> bool" where
  "buf_same b b' \<longleftrightarrow> mb_prio_heap b' = mb_prio_heap b \<and> mb_ordering_set b' = mb_ordering_set b \<and> mb_consumer_ptr b' = mb_consumer_ptr b \<and>
     mb_strict_fifo b' = mb_strict_fifo b \<and> mb_randomization b' = mb_randomization b \<and> mb_last_arrival_time b' = mb_last_arrival_time b \<and>
     mb_msg_counter b' = mb_msg_counter b \<and> mb_size b' = mb_size b"

lemma buf_sameD:
  assumes "buf_same b b'"
  shows "buf_ok b' = buf_ok b" "paced env now d b' = paced env now d b" "payloads b' = payloads b" "mb_nodes b' = mb_nodes b"
    "mb_isReady now b' = mb_isReady now b" "mb_peekAtHeadOfQueue now b' = mb_peekAtHeadOfQueue now b" "to_deliver b' = to_deliver b"
  using assms by (simp_all add: buf_same_def buf_ok_def paced_def payloads_def mb_inv_def mb_nodes_def mb_isReady_def
      mb_peekAtHeadOfQueue_def to_deliver_def)

definition store_same :: "'a net_buffer list \<Rightarrow> 'a net_buffer list \<Rightarrow> bool" where
  "store_same bs bs' \<longleftrightarrow> list_all2 buf_same bs bs'"

lemma store_same_refl: "store_same bs bs"
  by (simp add: store_same_def buf_same_def list_all2_refl)

lemma store_same_trans: "store_same bs bs' \<Longrightarrow> store_same bs' bs'' \<Longrightarrow> store_same bs bs''"
  by (auto simp: store_same_def list_all2_conv_all_nth buf_same_def)

lemma store_sameD: "store_same bs bs' \<Longrightarrow> length bs' = length bs \<and> (\<forall>i < length bs. buf_same (bs ! i) (bs' ! i))"
  by (simp add: store_same_def list_all2_conv_all_nth)

lemma store_same_undelivered: "store_same bs bs' \<Longrightarrow> undelivered bs' = undelivered bs"
  unfolding store_same_def by (induction rule: list_all2_induct) (simp_all add: undelivered_def buf_sameD(7))

lemma store_same_update: "i < length bs \<Longrightarrow> buf_same (bs ! i) b \<Longrightarrow> store_same bs (bs[i := b])"
  by (simp add: store_same_def list_all2_conv_all_nth nth_list_update buf_same_def)

lemma buf_slots_same:
  assumes "i < length bs"
  shows "\<exists>a bs'. buf_slots i (q, bs) = Some (a, q, bs') \<and> store_same bs bs'"
proof -
  obtain a b' where a: "mb_areNSlotsAvailable (m_globalTime q) 1 (bs ! i) = (a, b')" by (cases "mb_areNSlotsAvailable (m_globalTime q) 1 (bs ! i)")
  then obtain c where "b' = (bs ! i)\<lparr>mb_not_avail_count := c\<rparr>" using slots_frame [OF a] by metis
  then have "store_same bs (bs[i := b'])" using assms by (intro store_same_update) (simp_all add: buf_same_def)
  then show ?thesis using a assms by (simp add: buf_slots_def buf_at_def check_bind)
qed

lemma vnet_size_same:
  assumes "v < length out" "out ! v < length bs"
  shows "\<exists>n bs'. vnet_size out v (n0, q, bs) = Some (n, q, bs') \<and> store_same bs bs'"
proof -
  obtain n b' where a: "mb_getSize (m_globalTime q) (bs ! (out ! v)) = (n, b')" by (cases "mb_getSize (m_globalTime q) (bs ! (out ! v))")
  then have "store_same bs (bs[out ! v := b'])"
    using assms by (intro store_same_update) (auto simp: buf_same_def mb_getSize_def split: if_splits)
  then show ?thesis using a assms by (simp add: vnet_size_def ptr_at_def buf_at_def check_bind)
qed

lemma vnet_sizes_same:
  assumes "\<forall>i \<in> set out. i < length bs" "\<forall>v \<in> set vs. v < length out"
  shows "\<exists>n bs'. fold_opt (vnet_size out) vs (n0, q, bs) = Some (n, q, bs') \<and> store_same bs bs'"
  using assms
proof (induction vs arbitrary: n0 bs)
  case (Cons v vs)
  obtain n bs1 where 1: "vnet_size out v (n0, q, bs) = Some (n, q, bs1)" "store_same bs bs1"
    using vnet_size_same [of v out bs n0 q] Cons.prems by auto
  obtain n2 bs2 where 2: "fold_opt (vnet_size out) vs (n, q, bs1) = Some (n2, q, bs2)" "store_same bs1 bs2"
    using Cons.IH [of bs1 n] Cons.prems store_sameD [OF 1(2)] by auto
  show ?case using 1(1) 2(1) store_same_trans [OF 1(2) 2(2)] by simp
qed (simp add: store_same_refl)


subsection \<open>A switch that is wired up\<close>

definition in_bufs :: "perfect_switch \<Rightarrow> nat set" where "in_bufs ps = (\<Union>p \<in> set (ps_in ps). set p)"

definition out_bufs :: "perfect_switch \<Rightarrow> nat set" where "out_bufs ps = (\<Union>p \<in> set (ps_out ps). set p)"

definition reachable_dests :: "perfect_switch \<Rightarrow> machine_id set" where
  "reachable_dests ps = (\<Union>d \<in> set (ps_routing_table ps). nd_elems d)"

definition wiring_ok :: "machine_types \<Rightarrow> nat \<Rightarrow> perfect_switch \<Rightarrow> bool" where
  "wiring_ok mt n ps \<longleftrightarrow> length (ps_link_order ps) = length (ps_out ps) \<and> length (ps_routing_table ps) = length (ps_out ps) \<and>
     fst ` set (ps_link_order ps) = {..<length (ps_out ps)} \<and> (\<forall>d \<in> set (ps_routing_table ps). nd_inv mt d) \<and>
     (\<forall>p \<in> set (ps_in ps) \<union> set (ps_out ps). length p = ps_virtual_networks ps \<and> (\<forall>i \<in> set p. i < n)) \<and> in_bufs ps \<inter> out_bufs ps = {}"

text \<open>A message that the switch knows how to route.\<close>

definition routable :: "machine_types \<Rightarrow> perfect_switch \<Rightarrow> 'a net_msg \<Rightarrow> bool" where
  "routable mt ps m \<longleftrightarrow> nd_inv mt (getInternalDestination m) \<and> nd_elems (getInternalDestination m) \<subseteq> reachable_dests ps"

definition in_ok :: "machine_types \<Rightarrow> perfect_switch \<Rightarrow> 'a net_buffer \<Rightarrow> bool" where
  "in_ok mt ps b \<longleftrightarrow> buf_ok b \<and> (\<forall>m \<in># payloads b. routable mt ps m)"

definition out_ok :: "switch_env \<Rightarrow> time \<Rightarrow> 'a net_buffer \<Rightarrow> bool" where
  "out_ok env now b \<longleftrightarrow> buf_ok b \<and> paced (net_env.truncate env) now 1 b"

definition switch_ok :: "switch_env \<Rightarrow> machine_types \<Rightarrow> time \<Rightarrow> 'a net_store \<times> perfect_switch \<Rightarrow> bool" where
  "switch_ok env mt now = (\<lambda>((q, bs), ps). eq_inv q \<and> m_globalTime q = now \<and> wiring_ok mt (length bs) ps \<and>
     (\<forall>i \<in> in_bufs ps. in_ok mt ps (bs ! i)) \<and> (\<forall>j \<in> out_bufs ps. out_ok env now (bs ! j)))"

definition ps_same :: "perfect_switch \<Rightarrow> perfect_switch \<Rightarrow> bool" where
  "ps_same ps ps' \<longleftrightarrow> ps_in ps' = ps_in ps \<and> ps_out ps' = ps_out ps \<and> ps_routing_table ps' = ps_routing_table ps \<and>
     ps_virtual_networks ps' = ps_virtual_networks ps \<and> ps_consumer ps' = ps_consumer ps"

lemma ps_same_refl: "ps_same ps ps"
  by (simp add: ps_same_def)

lemma ps_same_trans: "ps_same ps ps' \<Longrightarrow> ps_same ps' ps'' \<Longrightarrow> ps_same ps ps''"
  by (simp add: ps_same_def)

lemma ps_sameD:
  assumes "ps_same ps ps'"
  shows "in_bufs ps' = in_bufs ps" "out_bufs ps' = out_bufs ps" "reachable_dests ps' = reachable_dests ps" "routable mt ps' = routable mt ps"
    "in_ok mt ps' = in_ok mt ps"
  using assms by (simp_all add: fun_eq_iff ps_same_def in_bufs_def out_bufs_def reachable_dests_def routable_def in_ok_def)

lemma bufs_less: "wiring_ok mt n ps \<Longrightarrow> i \<in> in_bufs ps \<union> out_bufs ps \<Longrightarrow> i < n"
  by (auto simp: wiring_ok_def in_bufs_def out_bufs_def)

lemma wiring_same:
  assumes "wiring_ok mt n ps" "ps_same ps ps'" "length (ps_link_order ps') = length (ps_link_order ps)"
    "fst ` set (ps_link_order ps') = {..<length (ps_out ps)}"
  shows "wiring_ok mt n ps'"
proof -
  note a = assms(1) [unfolded wiring_ok_def]
  show ?thesis unfolding wiring_ok_def using a assms(2-4) ps_sameD [OF assms(2)] by (simp add: ps_same_def)
qed

lemma switch_ok_same:
  assumes "switch_ok env mt now ((q, bs), ps)" "store_same bs bs'" "ps_same ps ps'" "length (ps_link_order ps') = length (ps_link_order ps)"
    "fst ` set (ps_link_order ps') = {..<length (ps_out ps)}"
  shows "switch_ok env mt now ((q, bs'), ps')"
proof -
  have l: "length bs' = length bs" and s: "i < length bs \<Longrightarrow> buf_same (bs ! i) (bs' ! i)" for i using store_sameD [OF assms(2)] by auto
  have w: "wiring_ok mt (length bs) ps" using assms(1) by (simp add: switch_ok_def)
  have "in_ok mt ps (bs' ! i)" if "i \<in> in_bufs ps" for i
    using that assms(1) buf_sameD [OF s [of i]] bufs_less [OF w, of i] by (simp add: switch_ok_def in_ok_def)
  moreover have "out_ok env now (bs' ! j)" if "j \<in> out_bufs ps" for j
    using that assms(1) buf_sameD [OF s [of j]] bufs_less [OF w, of j] by (simp add: switch_ok_def out_ok_def)
  moreover have "wiring_ok mt (length bs') ps'" using wiring_same [OF w assms(3-5)] l by simp
  ultimately show ?thesis using assms(1) by (simp add: switch_ok_def ps_sameD [OF assms(3)])
qed

subsection \<open>The order of the links\<close>

lemma link_load_ok:
  assumes "outlink < length (ps_out ps)" "length (ps_link_order ps) = length (ps_out ps)"
    "length (ps_out ps ! outlink) = ps_virtual_networks ps" "\<forall>i \<in> set (ps_out ps ! outlink). i < length bs"
  shows "\<exists>bs' x r. link_load env outlink ((q, bs), ps) = Some ((q, bs'),
    ps\<lparr>ps_link_order := (ps_link_order ps)[outlink := (outlink, x)], ps_random_calls := r\<rparr>) \<and> store_same bs bs'"
proof -
  obtain n bs' where "fold_opt (vnet_size (ps_out ps ! outlink)) [0..<ps_virtual_networks ps] (0, q, bs) = Some (n, q, bs')" "store_same bs bs'"
    using vnet_sizes_same [of "ps_out ps ! outlink" bs "[0..<ps_virtual_networks ps]" 0 q] assms(3,4) by auto
  then show ?thesis using assms(1,2) by (simp add: link_load_def check_bind) blast
qed

lemma link_loads_ok:
  assumes "\<forall>l \<in> set ls. l < length (ps_out ps)" "length (ps_link_order ps) = length (ps_out ps)"
    "\<forall>p \<in> set (ps_out ps). length p = ps_virtual_networks ps \<and> (\<forall>i \<in> set p. i < length bs)"
  shows "\<exists>bs' ps'. fold_opt (link_load env) ls ((q, bs), ps) = Some ((q, bs'), ps') \<and> store_same bs bs' \<and> ps_same ps ps' \<and>
    length (ps_link_order ps') = length (ps_link_order ps) \<and>
    (\<forall>l < length (ps_out ps). fst (ps_link_order ps' ! l) = (if l \<in> set ls then l else fst (ps_link_order ps ! l)))"
  using assms
proof (induction ls arbitrary: bs ps)
  case (Cons l ls)
  have l: "l < length (ps_out ps)" "ps_out ps ! l \<in> set (ps_out ps)" using Cons.prems(1) by auto
  then obtain bs1 x r where 1: "link_load env l ((q, bs), ps) = Some ((q, bs1),
    ps\<lparr>ps_link_order := (ps_link_order ps)[l := (l, x)], ps_random_calls := r\<rparr>)" (is "_ = Some (_, ?ps1)") "store_same bs bs1"
    using link_load_ok [of l ps bs env q] Cons.prems(2,3) by blast
  have s: "ps_same ps ?ps1" by (simp add: ps_same_def)
  obtain bs2 ps2 where 2: "fold_opt (link_load env) ls ((q, bs1), ?ps1) = Some ((q, bs2), ps2)" "store_same bs1 bs2" "ps_same ?ps1 ps2"
    "length (ps_link_order ps2) = length (ps_link_order ps)"
    "\<forall>k < length (ps_out ps). fst (ps_link_order ps2 ! k) = (if k \<in> set ls then k else fst (ps_link_order ?ps1 ! k))"
    using Cons.IH [of ?ps1 bs1] Cons.prems store_sameD [OF 1(2)] by auto
  show ?case
    using 1(1) 2(1,4,5) store_same_trans [OF 1(2) 2(2)] ps_same_trans [OF s 2(3)] l Cons.prems(2)
    by (intro exI [of _ bs2] exI [of _ ps2]) (auto simp: nth_list_update)
qed (simp add: store_same_refl ps_same_refl)

lemma adaptive_order_ok:
  assumes ok: "switch_ok env mt now ((q, bs), ps)" and srt: "\<And>xs. mset (sort_links env xs) = mset xs"
  shows "\<exists>bs' ps'. adaptive_order env ord ((q, bs), ps) = Some ((q, bs'), ps') \<and> store_same bs bs' \<and> ps_same ps ps' \<and>
    switch_ok env mt now ((q, bs'), ps')"
proof -
  have w: "wiring_ok mt (length bs) ps" using ok by (simp add: switch_ok_def)
  let ?n = "length (ps_out ps)"
  have lo: "length (ps_link_order ps) = ?n" "fst ` set (ps_link_order ps) = {..<?n}" using w by (simp_all add: wiring_ok_def)
  consider "\<not> g_adaptive_routing env" | "g_adaptive_routing env" ord | "g_adaptive_routing env" "\<not> ord" by blast
  then show ?thesis
  proof cases
    case 1
    then show ?thesis using ok by (simp add: adaptive_order_def store_same_refl ps_same_refl)
  next
    case 2
    let ?ps = "ps\<lparr>ps_link_order := map (\<lambda>outlink. (outlink, 0)) [0..<?n]\<rparr>"
    have s: "ps_same ps ?ps" by (simp add: ps_same_def)
    have "fst ` set (ps_link_order ?ps) = {..<?n}" by (simp add: image_image lessThan_atLeast0)
    then have "switch_ok env mt now ((q, bs), ?ps)" using switch_ok_same [OF ok store_same_refl s] lo by simp
    then show ?thesis using 2 s by (simp add: adaptive_order_def store_same_refl)
  next
    case 3
    obtain bs' ps' where f: "fold_opt (link_load env) [0..<?n] ((q, bs), ps) = Some ((q, bs'), ps')" "store_same bs bs'" "ps_same ps ps'"
      "length (ps_link_order ps') = ?n" "\<forall>l < ?n. fst (ps_link_order ps' ! l) = l"
      using link_loads_ok [of "[0..<?n]" ps bs env q] w unfolding wiring_ok_def by fastforce
    let ?ps = "ps'\<lparr>ps_link_order := sort_links env (ps_link_order ps')\<rparr>"
    have "map fst (ps_link_order ps') = [0..<?n]" using f(4,5) by (intro nth_equalityI) auto
    then have "set (map fst (ps_link_order ps')) = {..<?n}" by (simp add: lessThan_atLeast0)
    moreover have "set (sort_links env (ps_link_order ps')) = set (ps_link_order ps')" "length (sort_links env (ps_link_order ps')) = ?n"
      using srt [of "ps_link_order ps'"] mset_eq_setD mset_eq_length f(4) by metis+
    moreover have s: "ps_same ps ?ps" using f(3) by (simp add: ps_same_def)
    ultimately have "switch_ok env mt now ((q, bs'), ?ps)" using switch_ok_same [OF ok f(2) s] lo by simp
    then show ?thesis using 3 f s by (simp add: adaptive_order_def)
  qed
qed

end
