(* ===== verification/Net_Switched.thy ===== *)
theory Net_Switched
  imports Net_Switching
begin

text \<open>
  A wakeup of a switch: it returns, keeps the switch in order and conserves the deliveries.
\<close>

subsection \<open>Room and copies\<close>

lemma out_pointer_ok:
  assumes "wiring_ok mt n ps" "l < length (ps_out ps)" "vnet < ps_virtual_networks ps"
  shows "\<exists>i. out_pointer ps vnet l = Some i \<and> i \<in> out_bufs ps \<and> i < n"
proof -
  have p: "ps_out ps ! l \<in> set (ps_out ps)" using assms(2) by simp
  then have "length (ps_out ps ! l) = ps_virtual_networks ps" using assms(1) by (simp add: wiring_ok_def)
  then have "out_pointer ps vnet l = Some (ps_out ps ! l ! vnet)" "ps_out ps ! l ! vnet \<in> set (ps_out ps ! l)"
    using assms(2,3) by (simp_all add: out_pointer_def ptr_at_def check_bind)
  moreover from this(2) have "ps_out ps ! l ! vnet \<in> out_bufs ps" using p by (auto simp: out_bufs_def)
  ultimately show ?thesis using bufs_less [OF assms(1)] by blast
qed

lemma check_rooms_ok:
  assumes "\<forall>out \<in> set outs. fst out < length (ps_out ps)" "wiring_ok mt (length bs) ps" "vnet < ps_virtual_networks ps"
  shows "\<exists>enough' bs'. fold_opt (check_room ps vnet) outs (enough, (q, bs)) = Some (enough', (q, bs')) \<and> store_same bs bs'"
  using assms
proof (induction outs arbitrary: enough bs)
  case (Cons out outs)
  have "\<exists>e1 bs1. check_room ps vnet out (enough, (q, bs)) = Some (e1, (q, bs1)) \<and> store_same bs bs1"
  proof (cases enough)
    case True
    obtain i where i: "out_pointer ps vnet (fst out) = Some i" "i < length bs" using out_pointer_ok [OF Cons.prems(2) _ Cons.prems(3)] Cons.prems(1) by fastforce
    then show ?thesis using True buf_slots_same [OF i(2), of q] by (auto simp: check_room_def)
  qed (auto simp: check_room_def store_same_refl)
  then obtain e1 bs1 where 1: "check_room ps vnet out (enough, (q, bs)) = Some (e1, (q, bs1))" "store_same bs bs1" by blast
  have "length bs1 = length bs" using store_sameD [OF 1(2)] by simp
  then obtain e2 bs2 where 2: "fold_opt (check_room ps vnet) outs (e1, (q, bs1)) = Some (e2, (q, bs2))" "store_same bs1 bs2"
    using Cons.IH [of bs1 e1] Cons.prems by auto
  show ?case using 1(1) 2(1) store_same_trans [OF 1(2) 2(2)] by simp
qed (simp add: store_same_refl)

lemma scheduleEventAbsolute_mono:
  assumes "eq_inv q" "scheduleEventAbsolute c t q = Some q'"
  shows "events q \<subseteq># events q'"
proof (cases "\<exists>c'. c = Some c' \<and> m_last_scheduled_wakeup q c' \<noteq> t")
  case True
  then obtain c' where c: "c = Some c'" "m_last_scheduled_wakeup q c' \<noteq> t" by blast
  then have "m_globalTime q < t" using assms(2) by (auto simp: scheduleEventAbsolute_def bind_Some_iff split: if_splits)
  then show ?thesis using scheduleEventAbsolute_ok [OF assms(1), of t c'] assms(2) c by (auto split: if_splits)
qed (use assms(2) in \<open>auto simp: scheduleEventAbsolute_def split: option.splits\<close>)

lemma buf_enqueue_mono:
  assumes "eq_inv q" "buf_enqueue env j msg d (q, bs) = Some (q', bs')"
  shows "events q \<subseteq># events q'"
  using assms(2) scheduleEventAbsolute_mono [OF assms(1)]
  by (auto simp: buf_enqueue_def mb_enqueue_def Let_def bind_Some_iff split: if_splits)

lemma to_deliver_add: "payloads b' = add_mset m (payloads b) \<Longrightarrow> to_deliver b' = deliveries m + to_deliver b"
  by (simp add: to_deliver_def)

lemma wiring_disjoint: "wiring_ok mt n ps \<Longrightarrow> i \<in> in_bufs ps \<Longrightarrow> i \<notin> out_bufs ps"
  by (auto simp: wiring_ok_def)

lemma send_copy_ok:
  assumes ok: "switch_ok env mt now ((q, bs), ps)" and l: "fst out < length (ps_out ps)" and v: "vnet < ps_virtual_networks ps"
    and m: "msg_LastEnqueueTime msg \<le> now"
  shows "\<exists>q' bs'. send_copy env ps vnet msg out (q, bs) = Some (q', bs') \<and> switch_ok env mt now ((q', bs'), ps) \<and>
    events q \<subseteq># events q' \<and> (\<forall>k \<in> in_bufs ps. bs' ! k = bs ! k) \<and> length bs' = length bs \<and>
    undelivered bs' = undelivered bs + image_mset (Pair (nm_content (msg_payload msg))) (mset_set (nd_elems (snd out)))"
proof -
  let ?m = "msg\<lparr>msg_payload := setInternalDestination (snd out) (msg_payload msg)\<rparr>"
  have w: "wiring_ok mt (length bs) ps" and q: "eq_inv q" "m_globalTime q = now" using ok by (simp_all add: switch_ok_def)
  obtain j where j: "out_pointer ps vnet (fst out) = Some j" "j \<in> out_bufs ps" "j < length bs" using out_pointer_ok [OF w l v] by blast
  have jo: "buf_ok (bs ! j)" "paced (net_env.truncate env) (m_globalTime q) 1 (bs ! j)" using ok j(2) by (simp_all add: switch_ok_def out_ok_def)
  have "msg_LastEnqueueTime ?m \<le> m_globalTime q" using m q by simp
  from buf_enqueue_ok [OF q(1) j(3) jo this] obtain q' b' where
    e: "buf_enqueue (net_env.truncate env) j ?m 1 (q, bs) = Some (q', bs[j := b'])" "eq_inv q'" "m_globalTime q' = m_globalTime q"
    "buf_ok b'" "paced (net_env.truncate env) (m_globalTime q) 1 b'" "payloads b' = add_mset (msg_payload ?m) (payloads (bs ! j))" by blast
  have keep: "\<forall>k \<in> in_bufs ps. bs[j := b'] ! k = bs ! k" using wiring_disjoint [OF w] j(2) by (metis nth_list_update_neq)
  have "out_ok env now (bs[j := b'] ! k)" if "k \<in> out_bufs ps" for k
    using that ok e(4,5) q j(3) by (cases "k = j") (simp_all add: switch_ok_def out_ok_def)
  then have sw: "switch_ok env mt now ((q', bs[j := b']), ps)" using ok e(2,3) keep w by (simp add: switch_ok_def)
  have "to_deliver b' = image_mset (Pair (nm_content (msg_payload msg))) (mset_set (nd_elems (snd out))) + to_deliver (bs ! j)"
    using to_deliver_add [OF e(6)] by (simp add: deliveries_def setInternalDestination_def getInternalDestination_def)
  then have "undelivered (bs[j := b']) = undelivered bs + image_mset (Pair (nm_content (msg_payload msg))) (mset_set (nd_elems (snd out)))"
    using undelivered_update [OF j(3), of b'] by (simp add: ac_simps)
  moreover have "send_copy env ps vnet msg out (q, bs) = Some (q', bs[j := b'])" using e(1) j(1) by (simp add: send_copy_def)
  ultimately show ?thesis using sw keep buf_enqueue_mono [OF q(1) e(1)] by (intro exI [of _ q'] exI [of _ "bs[j := b']"]) simp
qed

lemma send_copies_ok:
  assumes "switch_ok env mt now ((q, bs), ps)" "\<forall>out \<in> set outs. fst out < length (ps_out ps)" "vnet < ps_virtual_networks ps"
    "msg_LastEnqueueTime msg \<le> now"
  shows "\<exists>q' bs'. fold_opt (send_copy env ps vnet msg) outs (q, bs) = Some (q', bs') \<and> switch_ok env mt now ((q', bs'), ps) \<and>
    events q \<subseteq># events q' \<and> (\<forall>k \<in> in_bufs ps. bs' ! k = bs ! k) \<and> length bs' = length bs \<and>
    undelivered bs' = undelivered bs +
      image_mset (Pair (nm_content (msg_payload msg))) (sum_list (map (\<lambda>(l, d). mset_set (nd_elems d)) outs))"
  using assms(1,2)
proof (induction outs arbitrary: q bs)
  case (Cons out outs)
  have "fst out < length (ps_out ps)" using Cons.prems(2) by simp
  from send_copy_ok [OF Cons.prems(1) this assms(3,4)] obtain q1 bs1 where 1: "send_copy env ps vnet msg out (q, bs) = Some (q1, bs1)"
    "switch_ok env mt now ((q1, bs1), ps)" "events q \<subseteq># events q1" "\<forall>k \<in> in_bufs ps. bs1 ! k = bs ! k" "length bs1 = length bs"
    "undelivered bs1 = undelivered bs + image_mset (Pair (nm_content (msg_payload msg))) (mset_set (nd_elems (snd out)))" by blast
  obtain q2 bs2 where 2: "fold_opt (send_copy env ps vnet msg) outs (q1, bs1) = Some (q2, bs2)"
    "switch_ok env mt now ((q2, bs2), ps)" "events q1 \<subseteq># events q2" "\<forall>k \<in> in_bufs ps. bs2 ! k = bs1 ! k" "length bs2 = length bs1"
    "undelivered bs2 = undelivered bs1 + image_mset (Pair (nm_content (msg_payload msg))) (sum_list (map (\<lambda>(l, d). mset_set (nd_elems d)) outs))"
    using Cons.IH [OF 1(2)] Cons.prems(2) by auto
  show ?case using 1 2 by (intro exI [of _ q2] exI [of _ bs2]) (auto simp: case_prod_unfold ac_simps intro: subset_mset.order_trans)
qed simp

subsection \<open>One message\<close>

lemma buf_pop_ok:
  fixes bs :: "'a net_buffer list"
  assumes ok: "switch_ok env mt now ((q, bs), ps)" and i: "i \<in> in_bufs ps" and rdy: "mb_isReady now (bs ! i)"
  shows "\<exists>(n :: 'a net_msg mb_node) b'. buf_peek i (q, bs) = Some (mbn_msgptr n) \<and> buf_pop i (q, bs) = Some (q, bs[i := b']) \<and>
    routable mt ps (msg_payload (mbn_msgptr n)) \<and> msg_LastEnqueueTime (mbn_msgptr n) \<le> now \<and>
    switch_ok env mt now ((q, bs[i := b']), ps) \<and> size (mb_nodes b') < size (mb_nodes (bs ! i)) \<and>
    undelivered (bs[i := b']) + deliveries (msg_payload (mbn_msgptr n)) = undelivered bs"
proof -
  let ?b = "bs ! i"
  have w: "wiring_ok mt (length bs) ps" and q: "eq_inv q" "m_globalTime q = now" and b: "buf_ok ?b" "\<forall>m \<in># payloads ?b. routable mt ps m"
    using ok i by (simp_all add: switch_ok_def in_ok_def)
  have il: "i < length bs" using bufs_less [OF w] i by blast
  have invb: "mb_inv ?b" using b by (simp add: buf_ok_def)
  obtain b' n where p: "mb_pop now ?b = Some b'" "mb_inv b'" "peekMin (mb_prio_heap ?b) = Some n" "n \<in># mb_nodes ?b" "mbn_time n \<le> now"
    "mb_nodes b' = mb_nodes ?b - {#n#}" using mb_pop_inv [OF invb rdy] by blast
  have nodes: "mb_nodes ?b = add_mset n (mb_nodes b')" using p(4,6) by simp
  have stamp: "msg_LastEnqueueTime (mbn_msgptr n) = mbn_time n" using b(1) p(4) by (simp add: buf_ok_def)
  have pay: "payloads ?b = add_mset (msg_payload (mbn_msgptr n)) (payloads b')" by (simp add: payloads_def nodes)
  have "buf_ok b'" using b(1) p(2) mb_pop_frame [OF p(1)] nodes by (auto simp: buf_ok_def)
  then have in': "in_ok mt ps b'" using b(2) pay by (simp add: in_ok_def)
  have "in_ok mt ps (bs[i := b'] ! k)" if "k \<in> in_bufs ps" for k using that ok in' il by (cases "k = i") (simp_all add: switch_ok_def)
  moreover have "bs[i := b'] ! k = bs ! k" if "k \<in> out_bufs ps" for k using that wiring_disjoint [OF w i] by (metis nth_list_update_neq)
  ultimately have "switch_ok env mt now ((q, bs[i := b']), ps)" using ok by (simp add: switch_ok_def)
  moreover have "undelivered (bs[i := b']) + deliveries (msg_payload (mbn_msgptr n)) = undelivered bs"
    using undelivered_update [OF il, of b'] to_deliver_add [OF pay] by (simp add: ac_simps)
  moreover have "buf_peek i (q, bs) = Some (mbn_msgptr n)" "buf_pop i (q, bs) = Some (q, bs[i := b'])"
    using p(1,3) q il rdy by (simp_all add: buf_peek_def buf_pop_def buf_at_def mb_peekAtHeadOfQueue_def check_bind)
  moreover have "routable mt ps (msg_payload (mbn_msgptr n))" using b(2) pay by simp
  ultimately show ?thesis using stamp p(5) nodes by (intro exI [of _ n] exI [of _ b']) simp
qed

end
