(* ===== verification/Net_Wakeup.thy ===== *)
theory Net_Wakeup
  imports Net_Switched
begin

text \<open>
  A wakeup of a switch as a whole: it returns, keeps the switch in order, conserves the deliveries and either serves every
  input or schedules the switch for the next cycle.
\<close>

text \<open>What a part of a wakeup keeps: the switch is in order, scheduled wakeups stay scheduled, every delivery is still
  to be made exactly once, and an input with no arrived message gets none.\<close>

definition switched :: "switch_env \<Rightarrow> machine_types \<Rightarrow> time \<Rightarrow> 'a net_store \<times> perfect_switch \<Rightarrow> 'a net_store \<times> perfect_switch \<Rightarrow> bool" where
  "switched env mt now = (\<lambda>((q, bs), ps) ((q', bs'), ps'). switch_ok env mt now ((q', bs'), ps') \<and> events q \<subseteq># events q' \<and>
     ps_same ps ps' \<and> undelivered bs' = undelivered bs \<and> (\<forall>k \<in> in_bufs ps. mb_isReady now (bs' ! k) \<longrightarrow> mb_isReady now (bs ! k)))"

definition will_wake :: "time \<Rightarrow> 'a net_store \<times> perfect_switch \<Rightarrow> bool" where
  "will_wake now = (\<lambda>((q, bs), ps). \<lparr>eq_time = now + 1, eq_consumer = Some (ps_consumer ps)\<rparr> \<in># events q)"

lemma switched_refl: "switch_ok env mt now st \<Longrightarrow> switched env mt now st st"
  by (auto simp: switched_def ps_same_refl split: prod.splits)

lemma switched_trans: "switched env mt now st st' \<Longrightarrow> switched env mt now st' st'' \<Longrightarrow> switched env mt now st st''"
  by (auto simp: switched_def ps_sameD intro: ps_same_trans subset_mset.order_trans split: prod.splits)

lemma will_wake_switched: "switched env mt now st st' \<Longrightarrow> will_wake now st \<Longrightarrow> will_wake now st'"
  by (auto simp: switched_def will_wake_def ps_same_def split: prod.splits dest: mset_subset_eqD)

lemma route_switch_ok:
  assumes "wiring_ok mt n ps" "routable mt ps m"
  shows "\<exists>outs. route_message (ps_routing_table ps) (map fst (ps_link_order ps)) (getInternalDestination m) = Some outs \<and>
    (\<forall>out \<in> set outs. fst out < length (ps_out ps)) \<and>
    sum_list (map (\<lambda>(l, d). mset_set (nd_elems d)) outs) = mset_set (nd_elems (getInternalDestination m))"
proof -
  let ?rt = "ps_routing_table ps" and ?ls = "map fst (ps_link_order ps)"
  have ls: "set ?ls = {..<length ?rt}" using assms(1) by (simp add: wiring_ok_def)
  have r: "l < length ?rt \<and> nd_inv mt (?rt ! l)" if "l \<in> set ?ls" for l using that ls assms(1) by (auto simp: wiring_ok_def)
  have "reachable_dests ps = (\<Union>l \<in> set ?ls. nd_elems (?rt ! l))" unfolding ls reachable_dests_def by (auto simp: set_conv_nth)
  then have D: "nd_inv mt (getInternalDestination m)" "nd_elems (getInternalDestination m) \<subseteq> (\<Union>l \<in> set ?ls. nd_elems (?rt ! l))"
    using assms(2) by (simp_all add: routable_def)
  obtain outs where o: "route_message ?rt ?ls (getInternalDestination m) = Some outs" "split_ok mt ?rt (set ?ls) outs"
    "sum_list (map (\<lambda>(l, d). mset_set (nd_elems d)) outs) = mset_set (nd_elems (getInternalDestination m))"
    using route_message_ok [of ?ls ?rt mt "getInternalDestination m", OF r D] by blast
  moreover have "\<forall>out \<in> set outs. fst out < length (ps_out ps)" using o(2) assms(1) unfolding split_ok_def ls by (auto simp: wiring_ok_def)
  ultimately show ?thesis by blast
qed

lemma schedule_next_ok:
  assumes "eq_inv q"
  shows "\<exists>q'. scheduleEvent (Some c) 1 q = Some q' \<and> eq_inv q' \<and> m_globalTime q' = m_globalTime q \<and> events q \<subseteq># events q' \<and>
    \<lparr>eq_time = m_globalTime q + 1, eq_consumer = Some c\<rparr> \<in># events q'"
  using scheduleEventAbsolute_ok [OF assms, of "m_globalTime q + 1" c] scheduleEventAbsolute_mono [OF assms]
  by (auto simp: scheduleEvent_def add.commute)

lemma switch_message_ok:
  fixes bs :: "'a net_buffer list"
  assumes ok: "switch_ok env mt now ((q, bs), ps)" and i: "i \<in> in_bufs ps" and v: "vnet < ps_virtual_networks ps"
    and srt: "\<And>xs. mset (sort_links env xs) = mset xs"
  shows "\<exists>go q' bs' ps'. switch_message env isVNetOrdered vnet i ((q, bs), ps) = Some (go, (q', bs'), ps') \<and>
    switched env mt now ((q, bs), ps) ((q', bs'), ps') \<and> (go \<longrightarrow> size (mb_nodes (bs' ! i)) < size (mb_nodes (bs ! i))) \<and>
    (\<not> go \<longrightarrow> \<not> mb_isReady now (bs' ! i) \<or> will_wake now ((q', bs'), ps'))"
proof -
  have w: "wiring_ok mt (length bs) ps" and q: "eq_inv q" "m_globalTime q = now" using ok by (simp_all add: switch_ok_def)
  have il: "i < length bs" using bufs_less [OF w] i by blast
  have rd: "buf_ready i (q, bs) = Some (mb_isReady now (bs ! i))" using il q by (simp add: buf_ready_def buf_at_def check_bind)
  show ?thesis
  proof (cases "mb_isReady now (bs ! i)")
    case False
    then have "switch_message env isVNetOrdered vnet i ((q, bs), ps) = Some (False, (q, bs), ps)" by (simp add: switch_message_def rd)
    then show ?thesis using False switched_refl [OF ok] by blast
  next
    case True
    obtain n :: "'a net_msg mb_node" where n: "buf_peek i (q, bs) = Some (mbn_msgptr n)" "routable mt ps (msg_payload (mbn_msgptr n))"
      "msg_LastEnqueueTime (mbn_msgptr n) \<le> now" using buf_pop_ok [OF ok i True] by blast
    let ?msg = "mbn_msgptr n"
    let ?dest = "getInternalDestination (msg_payload ?msg)"
    obtain bs1 ps1 where a: "adaptive_order env (isVNetOrdered vnet) ((q, bs), ps) = Some ((q, bs1), ps1)" "store_same bs bs1"
      "ps_same ps ps1" "switch_ok env mt now ((q, bs1), ps1)" using adaptive_order_ok [OF ok srt] by blast
    have w1: "wiring_ok mt (length bs1) ps1" using a(4) by (simp add: switch_ok_def)
    have v1: "vnet < ps_virtual_networks ps1" and i1: "i \<in> in_bufs ps1" using a(3) v i ps_sameD(1) [OF a(3)] by (simp_all add: ps_same_def)
    have "routable mt ps1 (msg_payload ?msg)" using n(2) ps_sameD(4) [OF a(3)] by metis
    from route_switch_ok [OF w1 this] obtain outs where
      o: "route_message (ps_routing_table ps1) (map fst (ps_link_order ps1)) ?dest = Some outs" "\<forall>out \<in> set outs. fst out < length (ps_out ps1)"
      "sum_list (map (\<lambda>(l, d). mset_set (nd_elems d)) outs) = mset_set (nd_elems ?dest)" by blast
    obtain enough bs2 where c: "fold_opt (check_room ps1 vnet) outs (True, (q, bs1)) = Some (enough, (q, bs2))" "store_same bs1 bs2"
      using check_rooms_ok [OF o(2) w1 v1] by blast
    have ok2: "switch_ok env mt now ((q, bs2), ps1)" using switch_ok_same [OF a(4) c(2) ps_same_refl] w1 by (simp add: wiring_ok_def)
    note s2 = store_same_trans [OF a(2) c(2)]
    have same: "buf_same (bs ! k) (bs2 ! k)" if "k < length bs" for k using store_sameD [OF s2] that by blast
    have rk: "mb_isReady now (bs2 ! k) = mb_isReady now (bs ! k)" if "k \<in> in_bufs ps" for k
      using buf_sameD(5) [OF same] bufs_less [OF w] that by blast
    have len: "length (ps_link_order ps) = length (ps_routing_table ps)" "length (ps_routing_table ps) = length (ps_out ps)"
      using w by (simp_all add: wiring_ok_def)
    note start = switch_message_def rd True n(1) len check_bind a(1) o(1) c(1)
    show ?thesis
    proof (cases enough)
      case False
      obtain q3 where q3: "scheduleEvent (Some (ps_consumer ps1)) 1 q = Some q3" "eq_inv q3" "m_globalTime q3 = m_globalTime q"
        "events q \<subseteq># events q3" "\<lparr>eq_time = m_globalTime q + 1, eq_consumer = Some (ps_consumer ps1)\<rparr> \<in># events q3"
        using schedule_next_ok [OF q(1)] by blast
      have "switch_message env isVNetOrdered vnet i ((q, bs), ps) = Some (False, (q3, bs2), ps1)" using False q3(1) by (simp add: start)
      moreover have "switched env mt now ((q, bs), ps) ((q3, bs2), ps1)"
        using ok2 q3(2-4) a(3) rk store_same_undelivered [OF s2] by (simp add: switched_def switch_ok_def)
      moreover have "will_wake now ((q3, bs2), ps1)" using q3(5) q by (simp add: will_wake_def)
      ultimately show ?thesis by blast
    next
      case enough: True
      obtain q3 bs3 where s: "fold_opt (send_copy env ps1 vnet ?msg) outs (q, bs2) = Some (q3, bs3)" "switch_ok env mt now ((q3, bs3), ps1)"
        "events q \<subseteq># events q3" "\<forall>k \<in> in_bufs ps1. bs3 ! k = bs2 ! k" "length bs3 = length bs2"
        "undelivered bs3 = undelivered bs2 + image_mset (Pair (nm_content (msg_payload ?msg))) (sum_list (map (\<lambda>(l, d). mset_set (nd_elems d)) outs))"
        using send_copies_ok [OF ok2 o(2) v1 n(3)] by blast
      have e3: "bs3 ! i = bs2 ! i" using s(4) i1 by blast
      have rdy3: "mb_isReady now (bs3 ! i)" using e3 rk [OF i] True by simp
      obtain n' :: "'a net_msg mb_node" and b' where p: "buf_peek i (q3, bs3) = Some (mbn_msgptr n')" "buf_pop i (q3, bs3) = Some (q3, bs3[i := b'])"
        "switch_ok env mt now ((q3, bs3[i := b']), ps1)" "size (mb_nodes b') < size (mb_nodes (bs3 ! i))"
        "undelivered (bs3[i := b']) + deliveries (msg_payload (mbn_msgptr n')) = undelivered bs3"
        using buf_pop_ok [OF s(2) i1 rdy3] by blast
      have l3: "length bs3 = length bs" using s(5) store_sameD [OF s2] by simp
      have t3: "m_globalTime q3 = now" using s(2) by (simp add: switch_ok_def)
      have "buf_peek i (q3, bs3) = buf_peek i (q, bs)"
        using e3 il l3 t3 q buf_sameD(6) [OF same [OF il], of now] by (simp add: buf_peek_def buf_at_def check_bind)
      then have msg: "mbn_msgptr n' = ?msg" using p(1) n(1) by simp
      have "undelivered (bs3[i := b']) + deliveries (msg_payload ?msg) = undelivered bs + deliveries (msg_payload ?msg)"
        using p(5) s(6) o(3) store_same_undelivered [OF s2] msg by (simp add: deliveries_def)
      then have und: "undelivered (bs3[i := b']) = undelivered bs" by simp
      have "mb_isReady now (bs ! k)" if "k \<in> in_bufs ps" "mb_isReady now (bs3[i := b'] ! k)" for k
        using that True rk s(4) ps_sameD(1) [OF a(3)] by (cases "k = i") auto
      then have "switched env mt now ((q, bs), ps) ((q3, bs3[i := b']), ps1)" using p(3) s(3) a(3) und by (simp add: switched_def)
      moreover have "switch_message env isVNetOrdered vnet i ((q, bs), ps) = Some (True, (q3, bs3[i := b']), ps1)"
        using enough s(1) p(2) by (simp add: start)
      moreover have "size (mb_nodes (bs3[i := b'] ! i)) < size (mb_nodes (bs ! i))"
        using p(4) e3 il l3 buf_sameD(4) [OF same [OF il]] by simp
      ultimately show ?thesis by (intro exI [of _ True] exI [of _ q3] exI [of _ "bs3[i := b']"] exI [of _ ps1]) simp
    qed
  qed
qed

subsection \<open>The whole wakeup\<close>

lemma switch_queue_ok:
  fixes bs :: "'a net_buffer list"
  assumes "switch_ok env mt now ((q, bs), ps)" "i \<in> in_bufs ps" "vnet < ps_virtual_networks ps"
    "\<And>xs. mset (sort_links env xs) = mset xs"
  shows "\<exists>q' bs' ps'. switch_queue env isVNetOrdered vnet i ((q, bs), ps) = Some ((q', bs'), ps') \<and>
    switched env mt now ((q, bs), ps) ((q', bs'), ps') \<and> (\<not> mb_isReady now (bs' ! i) \<or> will_wake now ((q', bs'), ps'))"
  using assms(1-3)
proof (induction "size (mb_nodes (bs ! i))" arbitrary: q bs ps rule: less_induct)
  case less
  obtain go q1 bs1 ps1 where m: "switch_message env isVNetOrdered vnet i ((q, bs), ps) = Some (go, (q1, bs1), ps1)"
    "switched env mt now ((q, bs), ps) ((q1, bs1), ps1)" "go \<longrightarrow> size (mb_nodes (bs1 ! i)) < size (mb_nodes (bs ! i))"
    "\<not> go \<longrightarrow> \<not> mb_isReady now (bs1 ! i) \<or> will_wake now ((q1, bs1), ps1)"
    using switch_message_ok [OF less.prems assms(4)] by blast
  note step = switch_queue.simps [of env isVNetOrdered vnet i "((q, bs), ps)", unfolded m(1)]
  show ?case
  proof (cases go)
    case True
    have ps1: "switch_ok env mt now ((q1, bs1), ps1)" "i \<in> in_bufs ps1" "vnet < ps_virtual_networks ps1"
      using m(2) less.prems(2,3) ps_sameD(1) [of ps ps1] by (simp_all add: switched_def ps_same_def)
    obtain q2 bs2 ps2 where "switch_queue env isVNetOrdered vnet i ((q1, bs1), ps1) = Some ((q2, bs2), ps2)"
      "switched env mt now ((q1, bs1), ps1) ((q2, bs2), ps2)" "\<not> mb_isReady now (bs2 ! i) \<or> will_wake now ((q2, bs2), ps2)"
      using less.hyps [OF _ ps1] m(3) True by blast
    then show ?thesis using step True switched_trans [OF m(2)] by simp
  next
    case False
    then show ?thesis using step m by simp
  qed
qed

end
