(* ===== verification/Net_Rounds.thy ===== *)
theory Net_Rounds
  imports Net_Wakeup
begin

lemma round_robin_funpow: "s < n \<Longrightarrow> (round_robin n ^^ j) s = (s + j) mod n"
proof (induction j)
  case (Suc j)
  have "(s + j) mod n < n" using Suc.prems by simp
  then have "round_robin n ((s + j) mod n) = Suc (s + j) mod n" unfolding round_robin_def mod_Suc by auto
  then show ?case using Suc by simp
qed simp

text \<open>As many rounds as there are ports visit every port, wherever they start.\<close>

lemma round_robin_all:
  assumes "p < n"
  shows "\<exists>k. 1 \<le> k \<and> k \<le> n \<and> (round_robin n ^^ k) i = p"
proof -
  let ?s = "round_robin n i"
  let ?j = "(p + n - ?s) mod n"
  have s: "?s < n" using assms by (auto simp: round_robin_def)
  have "(?s + ?j) mod n = (?s + (p + n - ?s)) mod n" by (simp add: mod_add_right_eq)
  also have "?s + (p + n - ?s) = p + n" using s by simp
  finally have "(round_robin n ^^ ?j) ?s = p" using round_robin_funpow [OF s] assms by simp
  then have "(round_robin n ^^ Suc ?j) i = p" by (simp add: funpow_swap1)
  moreover have "?j < n" using assms by simp
  ultimately show ?thesis by (intro exI [of _ "Suc ?j"]) simp
qed

definition input_served :: "time \<Rightarrow> nat \<Rightarrow> 'a net_store \<times> perfect_switch \<Rightarrow> bool" where
  "input_served now i st \<longleftrightarrow> \<not> mb_isReady now (snd (fst st) ! i) \<or> will_wake now st"

lemma served_switched: "input_served now i st \<Longrightarrow> switched env mt now st st' \<Longrightarrow> i \<in> in_bufs (snd st) \<Longrightarrow> input_served now i st'"
  using will_wake_switched by (fastforce simp: input_served_def switched_def split: prod.splits)

lemma in_port:
  assumes "wiring_ok mt n ps" "p < length (ps_in ps)" "vnet < ps_virtual_networks ps"
  shows "ptr_at (ps_in ps ! p) vnet = Some (ps_in ps ! p ! vnet)" "ps_in ps ! p ! vnet \<in> in_bufs ps"
proof -
  have p: "ps_in ps ! p \<in> set (ps_in ps)" using assms(2) by simp
  then have "vnet < length (ps_in ps ! p)" using assms(1,3) by (simp add: wiring_ok_def)
  then show "ptr_at (ps_in ps ! p) vnet = Some (ps_in ps ! p ! vnet)" "ps_in ps ! p ! vnet \<in> in_bufs ps"
    using p nth_mem by (auto simp: ptr_at_def check_bind in_bufs_def)
qed

lemma switchedD:
  "switched env mt now ((q, bs), ps) ((q', bs'), ps') \<Longrightarrow> switch_ok env mt now ((q', bs'), ps') \<and> ps_same ps ps'"
  by (simp add: switched_def)

lemma switch_ports_ok:
  fixes bs :: "'a net_buffer list"
  assumes "switch_ok env mt now ((q, bs), ps)" "vnet < ps_virtual_networks ps" "ps_in ps \<noteq> []"
    and srt: "\<And>xs. mset (sort_links env xs) = mset xs"
  shows "\<exists>inc' q' bs' ps'. fold_opt (switch_port env isVNetOrdered vnet) cs (incoming, (q, bs), ps) = Some (inc', (q', bs'), ps') \<and>
    switched env mt now ((q, bs), ps) ((q', bs'), ps') \<and>
    (\<forall>k. 1 \<le> k \<and> k \<le> length cs \<longrightarrow> input_served now (ps_in ps ! ((round_robin (length (ps_in ps)) ^^ k) incoming) ! vnet) ((q', bs'), ps'))"
  using assms(1-3)
proof (induction cs arbitrary: incoming q bs ps)
  case (Cons c cs)
  let ?n = "length (ps_in ps)"
  let ?p = "round_robin ?n incoming"
  have p: "?p < ?n" using Cons.prems(3) by (auto simp: round_robin_def)
  have w: "wiring_ok mt (length bs) ps" using Cons.prems(1) by (simp add: switch_ok_def)
  note ip = in_port [OF w p Cons.prems(2)]
  obtain q1 bs1 ps1 where 1: "switch_queue env isVNetOrdered vnet (ps_in ps ! ?p ! vnet) ((q, bs), ps) = Some ((q1, bs1), ps1)"
    "switched env mt now ((q, bs), ps) ((q1, bs1), ps1)" "input_served now (ps_in ps ! ?p ! vnet) ((q1, bs1), ps1)"
    using switch_queue_ok [OF Cons.prems(1) ip(2) Cons.prems(2) srt] unfolding input_served_def by fastforce
  have ok1: "switch_ok env mt now ((q1, bs1), ps1)" and same: "ps_same ps ps1" using switchedD [OF 1(2)] by blast+
  have ps1: "ps_in ps1 = ps_in ps" "ps_virtual_networks ps1 = ps_virtual_networks ps" using same by (simp_all add: ps_same_def)
  obtain inc2 q2 bs2 ps2 where 2: "fold_opt (switch_port env isVNetOrdered vnet) cs (?p, (q1, bs1), ps1) = Some (inc2, (q2, bs2), ps2)"
    "switched env mt now ((q1, bs1), ps1) ((q2, bs2), ps2)"
    "\<forall>k. 1 \<le> k \<and> k \<le> length cs \<longrightarrow> input_served now (ps_in ps ! ((round_robin ?n ^^ k) ?p) ! vnet) ((q2, bs2), ps2)"
    using Cons.IH [OF ok1, of ?p] Cons.prems(2,3) ps1 by auto
  have "switch_port env isVNetOrdered vnet c (incoming, (q, bs), ps) = Some (?p, (q1, bs1), ps1)"
    using 1(1) ip(1) p unfolding switch_port_def by (simp add: check_bind Let_def)
  moreover have "ps_in ps ! ?p ! vnet \<in> in_bufs (snd ((q1, bs1), ps1))" using ip(2) ps_sameD(1) [OF same] by simp
  then have "input_served now (ps_in ps ! ?p ! vnet) ((q2, bs2), ps2)" using served_switched [OF 1(3) 2(2)] by blast
  then have "input_served now (ps_in ps ! ((round_robin ?n ^^ k) incoming) ! vnet) ((q2, bs2), ps2)" if "1 \<le> k" "k \<le> length (c # cs)" for k
    using that 2(3) by (cases k; cases "k = 1") (simp_all add: funpow_swap1)
  ultimately show ?case using 2(1) switched_trans [OF 1(2) 2(2)] by (intro exI [of _ inc2] exI [of _ q2] exI [of _ bs2] exI [of _ ps2]) simp
qed (use switched_refl in fastforce)

lemma switch_vnet_ok:
  fixes bs :: "'a net_buffer list"
  assumes ok: "switch_ok env mt now ((q, bs), ps)" and v: "vnet < ps_virtual_networks ps"
    and srt: "\<And>xs. mset (sort_links env xs) = mset xs"
  shows "\<exists>q' bs' ps'. switch_vnet env isVNetOrdered vnet ((q, bs), ps) = Some ((q', bs'), ps') \<and>
    switched env mt now ((q, bs), ps) ((q', bs'), ps') \<and> (\<forall>p < length (ps_in ps). input_served now (ps_in ps ! p ! vnet) ((q', bs'), ps'))"
proof -
  let ?n = "length (ps_in ps)"
  let ?ps = "ps\<lparr>ps_round_robin_start := round_robin ?n (ps_round_robin_start ps)\<rparr>"
  have same: "ps_same ps ?ps" by (simp add: ps_same_def)
  have ok': "switch_ok env mt now ((q, bs), ?ps)"
    using switch_ok_same [OF ok store_same_refl same] ok by (simp add: switch_ok_def wiring_ok_def)
  have sw: "switched env mt now ((q, bs), ps) ((q, bs), ?ps)" using ok' same by (simp add: switched_def)
  show ?thesis
  proof (cases "ps_in ps = []")
    case True
    then show ?thesis using sw by (simp add: switch_vnet_def round_robin_def)
  next
    case False
    obtain inc2 q2 bs2 ps2 where 2: "fold_opt (switch_port env isVNetOrdered vnet) [0..<?n] (ps_round_robin_start ps, (q, bs), ?ps) = Some (inc2, (q2, bs2), ps2)"
      "switched env mt now ((q, bs), ?ps) ((q2, bs2), ps2)"
      "\<forall>k. 1 \<le> k \<and> k \<le> ?n \<longrightarrow> input_served now (ps_in ps ! ((round_robin ?n ^^ k) (ps_round_robin_start ps)) ! vnet) ((q2, bs2), ps2)"
      using switch_ports_ok [where isVNetOrdered = isVNetOrdered and vnet = vnet and cs = "[0..<?n]" and incoming = "ps_round_robin_start ps", OF ok' _ _ srt] v False by auto
    have "switch_vnet env isVNetOrdered vnet ((q, bs), ps) = Some ((q2, bs2), ps2)"
      using 2(1) unfolding switch_vnet_def by (simp add: Let_def)
    moreover have "input_served now (ps_in ps ! p ! vnet) ((q2, bs2), ps2)" if "p < ?n" for p
      using 2(3) round_robin_all [OF that, of "ps_round_robin_start ps"] by blast
    ultimately show ?thesis using switched_trans [OF sw 2(2)] by blast
  qed
qed

lemma switch_vnets_ok:
  fixes bs :: "'a net_buffer list"
  assumes "switch_ok env mt now ((q, bs), ps)" "\<forall>v \<in> set vs. v < ps_virtual_networks ps"
    and srt: "\<And>xs. mset (sort_links env xs) = mset xs"
  shows "\<exists>q' bs' ps'. fold_opt (switch_vnet env isVNetOrdered) vs ((q, bs), ps) = Some ((q', bs'), ps') \<and>
    switched env mt now ((q, bs), ps) ((q', bs'), ps') \<and>
    (\<forall>v \<in> set vs. \<forall>p < length (ps_in ps). input_served now (ps_in ps ! p ! v) ((q', bs'), ps'))"
  using assms(1,2)
proof (induction vs arbitrary: q bs ps)
  case (Cons v vs)
  have v: "v < ps_virtual_networks ps" using Cons.prems(2) by simp
  obtain q1 bs1 ps1 where 1: "switch_vnet env isVNetOrdered v ((q, bs), ps) = Some ((q1, bs1), ps1)"
    "switched env mt now ((q, bs), ps) ((q1, bs1), ps1)" "\<forall>p < length (ps_in ps). input_served now (ps_in ps ! p ! v) ((q1, bs1), ps1)"
    using switch_vnet_ok [OF Cons.prems(1) v srt] by blast
  have ok1: "switch_ok env mt now ((q1, bs1), ps1)" and same: "ps_same ps ps1" using switchedD [OF 1(2)] by blast+
  have ps1: "ps_in ps1 = ps_in ps" "ps_virtual_networks ps1 = ps_virtual_networks ps" using same by (simp_all add: ps_same_def)
  obtain q2 bs2 ps2 where 2: "fold_opt (switch_vnet env isVNetOrdered) vs ((q1, bs1), ps1) = Some ((q2, bs2), ps2)"
    "switched env mt now ((q1, bs1), ps1) ((q2, bs2), ps2)"
    "\<forall>v \<in> set vs. \<forall>p < length (ps_in ps). input_served now (ps_in ps ! p ! v) ((q2, bs2), ps2)"
    using Cons.IH [OF ok1] Cons.prems(2) ps1 by auto
  have w: "wiring_ok mt (length bs) ps" using Cons.prems(1) by (simp add: switch_ok_def)
  have "input_served now (ps_in ps ! p ! v) ((q2, bs2), ps2)" if "p < length (ps_in ps)" for p
    using served_switched [OF 1(3) [rule_format, OF that] 2(2)] in_port(2) [OF w that v] ps_sameD(1) [OF same] by simp
  then show ?case using 1(1) 2(1,3) switched_trans [OF 1(2) 2(2)] by (intro exI [of _ q2] exI [of _ bs2] exI [of _ ps2]) simp
qed (use switched_refl in fastforce)

end
