(* ===== verification/Net_Conservation.thy ===== *)
theory Net_Conservation
  imports Net_Rounds
begin

subsection \<open>What a switch promises\<close>

definition two_machines :: machine_types where
  "two_machines = \<lparr>MachineType_NUM = 1, MachineType_base_level = \<lambda>t. t, MachineType_base_count = \<lambda>_. 2, MachineType_base_number = \<lambda>t. 2 * t\<rparr>"

abbreviation machine0 :: machine_id where "machine0 \<equiv> \<lparr>mach_type = 0, mach_num = 0\<rparr>"

abbreviation machine1 :: machine_id where "machine1 \<equiv> \<lparr>mach_type = 0, mach_num = 1\<rparr>"

lemma two_machines_dests:
  "\<exists>d D. nd_inv two_machines d \<and> nd_inv two_machines D \<and> nd_elems d = {machine0} \<and> nd_elems D = {machine0, machine1}"
proof -
  have "machine_types_ok two_machines" by (simp add: machine_types_ok_def two_machines_def)
  then obtain n where n: "nd_inv two_machines n" "nd_elems n = {}" using nd_new_ok by blast
  have m: "machine0 \<in> nd_machines two_machines" "machine1 \<in> nd_machines two_machines" by (simp_all add: nd_machines_def two_machines_def)
  obtain d where d: "nd_inv two_machines d" "nd_elems d = {machine0}" using nd_add_ok [OF n(1) m(1)] n(2) by auto
  obtain D where "nd_inv two_machines D" "nd_elems D = {machine0, machine1}" using nd_add_ok [OF d(1) m(2)] d(2) by (auto simp: insert_commute)
  then show ?thesis using d by blast
qed

text \<open>C20. Splitting a message over the links of a switch. When the routing table entries of the links that are looked at
  cover the destinations of a message, each destination is sent over exactly one of those links, one whose entry holds
  it, and no link gets a copy without destinations; when they do not cover them, the switch stops with an assertion.\<close>

theorem switch_splits_destinations:
  assumes "\<forall>l \<in> set ls. l < length rt \<and> nd_inv mt (rt ! l)" "nd_inv mt D"
  shows "if nd_elems D \<subseteq> (\<Union>l \<in> set ls. nd_elems (rt ! l))
    then \<exists>outs. route_message rt ls D = Some outs \<and>
      (\<forall>(l, d) \<in> set outs. l \<in> set ls \<and> nd_inv mt d \<and> nd_elems d \<noteq> {} \<and> nd_elems d \<subseteq> nd_elems (rt ! l)) \<and>
      sum_list (map (\<lambda>(l, d). mset_set (nd_elems d)) outs) = mset_set (nd_elems D)
    else route_message rt ls D = None"
proof (cases "nd_elems D \<subseteq> (\<Union>l \<in> set ls. nd_elems (rt ! l))")
  case True
  then show ?thesis using route_message_ok [of ls rt mt D] assms by (simp add: split_ok_def)
next
  case False
  have "split_ok mt rt {} []" by (simp add: split_ok_def)
  then obtain outs rest where r: "fold_opt (route_link rt) ls ([], D) = Some (outs, rest)"
    "nd_elems rest = nd_elems D - (\<Union>l \<in> set ls. nd_elems (rt ! l))"
    using route_links_ok [of ls rt mt D "{}" "[]"] assms by metis
  then have "nd_count rest \<noteq> 0" using False nd_count_ok [of rest] by auto
  then show ?thesis using False r(1) by (simp add: route_message_def check_bind)
qed

theorem switch_splits_destinations_witness:
  "\<exists>d D outs. nd_elems d = {machine0} \<and> nd_elems D = {machine0, machine1} \<and> route_message [d, D] [0, 1] D = Some outs \<and>
     (\<forall>(l, e) \<in> set outs. l < 2 \<and> nd_elems e \<noteq> {}) \<and>
     sum_list (map (\<lambda>(l, e). mset_set (nd_elems e)) outs) = {#machine0, machine1#} \<and> route_message [d, D] [0] D = None"
proof -
  obtain d D where d: "nd_inv two_machines d" "nd_inv two_machines D" "nd_elems d = {machine0}" "nd_elems D = {machine0, machine1}"
    using two_machines_dests by blast
  have "\<forall>l \<in> set [0, 1::nat]. l < length [d, D] \<and> nd_inv two_machines ([d, D] ! l)" using d by simp
  note split = switch_splits_destinations [OF this d(2)]
  have "nd_elems D \<subseteq> (\<Union>l \<in> set [0, 1::nat]. nd_elems ([d, D] ! l))" by simp
  with split obtain outs where o: "route_message [d, D] [0, 1] D = Some outs"
    "\<forall>(l, e) \<in> set outs. l \<in> set [0, 1::nat] \<and> nd_inv two_machines e \<and> nd_elems e \<noteq> {} \<and> nd_elems e \<subseteq> nd_elems ([d, D] ! l)"
    "sum_list (map (\<lambda>(l, e). mset_set (nd_elems e)) outs) = mset_set (nd_elems D)" by (metis (no_types, lifting))
  have "\<forall>(l, e) \<in> set outs. l < 2 \<and> nd_elems e \<noteq> {}" using o(2) by auto
  moreover have "sum_list (map (\<lambda>(l, e). mset_set (nd_elems e)) outs) = {#machine0, machine1#}" using o(3) d(4) by simp
  moreover have "route_message [d, D] [0] D = None" using switch_splits_destinations [of "[0]" "[d, D]" two_machines D] d by simp
  ultimately show ?thesis using d(3,4) o(1) by blast
qed

definition sample_switch_env :: switch_env where
  "sample_switch_env = \<lparr>env_RANDOMIZATION = False, env_random = (\<lambda>_ _. (0, 0, 0)), above_threshold = (\<lambda>_ _. False), g_adaptive_routing = True,
     random_byte = (\<lambda>_. 0), sort_links = rev, FINITE_BUFFERING = True, FINITE_BUFFER_SIZE = 3, NUMBER_OF_VIRTUAL_NETWORKS = 1\<rparr>"

text \<open>C18. A wakeup of a switch. Whatever order the links are sorted in, a switch whose buffers are wired up and whose waiting
  messages have destinations it knows returns from its wakeup in that state again. For every destination of every
  message there is still exactly one delivery to be made, in an input or in an output, with the same content, and
  every input has been served until it held no arrived message, or the switch is scheduled for the next cycle.\<close>

theorem switch_wakeup_conserves:
  assumes "switch_ok env mt now ((q, bs), ps)" "\<forall>xs. mset (sort_links env xs) = mset xs"
  shows "\<exists>q' bs' ps'. pswitch_wakeup env isVNetOrdered ((q, bs), ps) = Some ((q', bs'), ps') \<and>
    switch_ok env mt now ((q', bs'), ps') \<and> undelivered bs' = undelivered bs \<and>
    ((\<forall>i \<in> in_bufs ps. \<not> mb_isReady now (bs' ! i)) \<or>
     \<lparr>eq_time = now + 1, eq_consumer = Some (ps_consumer ps)\<rparr> \<in># events q')"
proof -
  define inverted where "inverted = (PRIORITY_SWITCH_LIMIT < ps_wakeups_wo_switch ps + 1)"
  define ps1 where "ps1 = ps\<lparr>ps_wakeups_wo_switch := (if inverted then 0 else ps_wakeups_wo_switch ps + 1)\<rparr>"
  let ?vs = "vnet_order (ps_virtual_networks ps1) inverted"
  have same: "ps_same ps ps1" by (simp add: ps1_def ps_same_def)
  have ok: "switch_ok env mt now ((q, bs), ps1)"
    using switch_ok_same [OF assms(1) store_same_refl same] assms(1) by (simp add: ps1_def switch_ok_def wiring_ok_def)
  have vs: "set ?vs = {..<ps_virtual_networks ps}" by (auto simp: vnet_order_def ps1_def)
  have "\<forall>v \<in> set ?vs. v < ps_virtual_networks ps1" by (auto simp: vnet_order_def)
  then obtain q' bs' ps' where f: "fold_opt (switch_vnet env isVNetOrdered) ?vs ((q, bs), ps1) = Some ((q', bs'), ps')"
    "switched env mt now ((q, bs), ps1) ((q', bs'), ps')"
    "\<forall>v \<in> set ?vs. \<forall>p < length (ps_in ps1). input_served now (ps_in ps1 ! p ! v) ((q', bs'), ps')"
    using switch_vnets_ok [OF ok] assms(2) by blast
  have "pswitch_wakeup env isVNetOrdered ((q, bs), ps) = Some ((q', bs'), ps')"
    using f(1) unfolding pswitch_wakeup_def ps1_def inverted_def by (simp add: Let_def)
  moreover have "input_served now i ((q', bs'), ps')" if i: "i \<in> in_bufs ps" for i
  proof -
    obtain p where p: "p \<in> set (ps_in ps)" "i \<in> set p" using i by (auto simp: in_bufs_def)
    moreover have "length p = ps_virtual_networks ps" using assms(1) p(1) by (simp add: switch_ok_def wiring_ok_def)
    ultimately obtain k v where "k < length (ps_in ps)" "v < ps_virtual_networks ps" "i = ps_in ps ! k ! v" by (metis in_set_conv_nth)
    then show ?thesis using f(3) vs same by (simp add: ps_same_def)
  qed
  then have "(\<forall>i \<in> in_bufs ps. \<not> mb_isReady now (bs' ! i)) \<or> \<lparr>eq_time = now + 1, eq_consumer = Some (ps_consumer ps)\<rparr> \<in># events q'"
    using f(2) same by (auto simp: input_served_def will_wake_def switched_def ps_same_def)
  ultimately show ?thesis using f(2) by (intro exI [of _ q'] exI [of _ bs'] exI [of _ ps']) (simp add: switched_def)
qed

theorem switch_wakeup_conserves_witness:
  "\<exists>now q bs ps q' bs' ps'. switch_ok sample_switch_env two_machines now ((q, bs), ps) \<and> undelivered bs = {#(42, machine0), (42, machine1)#} \<and>
     pswitch_wakeup sample_switch_env (\<lambda>_. True) ((q, bs), ps) = Some ((q', bs'), ps') \<and> undelivered bs' = {#(42::nat, machine0), (42, machine1)#} \<and>
     (\<not> mb_isReady now (bs' ! 0) \<or> \<lparr>eq_time = now + 1, eq_consumer = Some 9\<rparr> \<in># events q')"
proof -
  obtain D where D: "nd_inv two_machines D" "nd_elems D = {machine0, machine1}" using two_machines_dests by blast
  define m where "m = sample_net_msg\<lparr>nm_destination := D\<rparr>"
  have gd: "getInternalDestination m = D" "nm_content m = 42" by (simp_all add: m_def sample_net_msg_def getInternalDestination_def)
  obtain b n where b: "fifo_abs b [n]" "buf_ok b" "msg_payload (mbn_msgptr n) = m" "0 < mbn_time n" using sample_full_buffer [of m] by blast
  let ?now = "mbn_time n" and ?bs = "[b, sample_net_buffer]"
  let ?q = "event_queue_init\<lparr>m_globalTime := ?now\<rparr>"
  let ?ps = "(pswitch_new 9 1)\<lparr>ps_in := [[0]], ps_out := [[1]], ps_routing_table := [D], ps_link_order := [(0, 0)]\<rparr>"
  have pay: "payloads b = {#m#}" using fifo_payloads [OF b(1)] b(3) by simp
  have sets: "in_bufs ?ps = {0}" "out_bufs ?ps = {1}" "reachable_dests ?ps = nd_elems D" by (simp_all add: in_bufs_def out_bufs_def reachable_dests_def)
  have "wiring_ok two_machines (length ?bs) ?ps" using D(1) sets by (simp add: wiring_ok_def pswitch_new_def lessThan_Suc)
  moreover have "in_ok two_machines ?ps b" using b(2) pay D(1) gd sets by (simp add: in_ok_def routable_def)
  moreover have "out_ok sample_switch_env ?now sample_net_buffer" using sample_net_buffer_ok b(4) by (simp add: out_ok_def)
  ultimately have ok: "switch_ok sample_switch_env two_machines ?now ((?q, ?bs), ?ps)"
    using eq_inv_at [of ?now] b(4) sets by (simp add: switch_ok_def)
  have und: "undelivered ?bs = {#(42, machine0), (42, machine1)#}"
    using pay gd D(2) sample_net_buffer_ok(4) by (simp add: undelivered_def to_deliver_def deliveries_def)
  have srt: "\<forall>xs. mset (sort_links sample_switch_env xs) = mset xs" by (simp add: sample_switch_env_def)
  have "ps_consumer ?ps = 9" by (simp add: pswitch_new_def)
  then show ?thesis using switch_wakeup_conserves [OF ok srt, of "\<lambda>_. True"] ok und sets by simp blast
qed

text \<open>Reconfiguring without clearing the routing tables first stops the switch at its next message.\<close>

lemma reconfigured_switch_stops:
  assumes "length (ps_link_order ps) = length (ps_routing_table ps)" "buf_ready i s = Some True" "buf_peek i s = Some msg"
  shows "switch_message env isVNetOrdered vnet i (s, pswitch_reconfigureOutPort entry ps) = None"
  using assms by (simp add: switch_message_def pswitch_reconfigureOutPort_def check_def)

end
