(* ===== verification/Net_Paths.thy ===== *)
theory Net_Paths
  imports Ruby_Prelude
begin

text \<open>
  The all-pairs distances of \<^verbatim>\<open>network/simple/Topology.C\<close>: \<^verbatim>\<open>extend_shortest_path\<close>, \<^verbatim>\<open>shortest_path\<close> and
  \<^verbatim>\<open>link_is_shortest_path_to_node\<close>. A \<^verbatim>\<open>Matrix\<close> is a list of rows; an index out of range fails the
  assertion of \<^verbatim>\<open>Vector::ref\<close>. The distances are updated in place while they are read, and the loop
  runs until a sweep changes nothing. The theory shows that it ends with the least weights of all
  walks, that the latencies and switch counts it updates on the way belong to one shortest walk, and
  that the links selected for routing lead to the destination.
\<close>

subsection \<open>Model\<close>

type_synonym matrix = "int list list"

definition mat_at :: "matrix \<Rightarrow> nat \<Rightarrow> nat \<Rightarrow> int option" where
  "mat_at m i j = do { check (i < length m \<and> j < length (m ! i)); Some (m ! i ! j) }"

definition mat_put :: "matrix \<Rightarrow> nat \<Rightarrow> nat \<Rightarrow> int \<Rightarrow> matrix option" where
  "mat_put m i j x = do { check (i < length m \<and> j < length (m ! i)); Some (m[i := (m ! i)[j := x]]) }"

record path_state =
  current_dist :: matrix
  path_latencies :: matrix
  inter_switches :: matrix
  path_change :: bool

definition path_via :: "matrix \<Rightarrow> nat \<Rightarrow> nat \<Rightarrow> nat \<Rightarrow> int \<times> nat option \<times> matrix \<Rightarrow> (int \<times> nat option \<times> matrix) option" where
  "path_via dist i j k = (\<lambda>(previous_minimum, intermediate_switch, switches). do {
     a \<leftarrow> mat_at dist i k;
     b \<leftarrow> mat_at dist k j;
     let minimum = min previous_minimum (a + b);
     if previous_minimum \<noteq> minimum then do {
       x \<leftarrow> mat_at switches i k;
       y \<leftarrow> mat_at switches k j;
       switches' \<leftarrow> mat_put switches i j (x + y + 1);
       Some (minimum, Some k, switches') }
     else Some (minimum, intermediate_switch, switches) })"

definition path_pair :: "nat \<Rightarrow> nat \<times> nat \<Rightarrow> path_state \<Rightarrow> path_state option" where
  "path_pair nodes = (\<lambda>(i, j) s. do {
     old \<leftarrow> mat_at (current_dist s) i j;
     (minimum, intermediate_switch, switches) \<leftarrow>
       fold_opt (path_via (current_dist s) i j) [0..<nodes] (old, None, inter_switches s);
     let s1 = s\<lparr>inter_switches := switches\<rparr>;
     if old \<noteq> minimum then do {
       dist \<leftarrow> mat_put (current_dist s1) i j minimum;
       k \<leftarrow> intermediate_switch;
       x \<leftarrow> mat_at (path_latencies s1) i k;
       y \<leftarrow> mat_at (path_latencies s1) k j;
       lat \<leftarrow> mat_put (path_latencies s1) i j (x + y);
       Some (s1\<lparr>current_dist := dist, path_latencies := lat, path_change := True\<rparr>) }
     else Some s1 })"

definition path_sweep :: "path_state \<Rightarrow> path_state option" where
  "path_sweep s = (let nodes = length (current_dist s) in
     fold_opt (path_pair nodes) (List.product [0..<nodes] [0..<nodes]) (s\<lparr>path_change := False\<rparr>))"

partial_function (option) extend_shortest_path :: "path_state \<Rightarrow> path_state option" where
  "extend_shortest_path s = Option.bind (path_sweep s) (\<lambda>s1. if path_change s1 then extend_shortest_path s1 else Some s1)"

declare extend_shortest_path.simps [code]

definition shortest_path :: "matrix \<Rightarrow> matrix \<Rightarrow> matrix \<Rightarrow> (matrix \<times> matrix \<times> matrix) option" where
  "shortest_path weights latencies switches = do {
     s \<leftarrow> extend_shortest_path \<lparr>current_dist = weights, path_latencies = latencies, inter_switches = switches, path_change = True\<rparr>;
     Some (current_dist s, path_latencies s, inter_switches s) }"

definition link_is_shortest_path_to_node :: "nat \<Rightarrow> nat \<Rightarrow> nat \<Rightarrow> matrix \<Rightarrow> matrix \<Rightarrow> bool option" where
  "link_is_shortest_path_to_node src next final weights dist = do {
     a \<leftarrow> mat_at weights src next;
     b \<leftarrow> mat_at dist next final;
     c \<leftarrow> mat_at dist src final;
     Some (a + b = c) }"

subsection \<open>Matrices\<close>

definition square :: "nat \<Rightarrow> matrix \<Rightarrow> bool" where
  "square n m \<longleftrightarrow> length m = n \<and> (\<forall>r \<in> set m. length r = n)"

definition entry :: "matrix \<Rightarrow> nat \<Rightarrow> nat \<Rightarrow> int" where
  "entry m i j = m ! i ! j"

lemma square_row: "square n m \<Longrightarrow> i < n \<Longrightarrow> length (m ! i) = n"
  by (auto simp: square_def)

lemma mat_at_ok: "square n m \<Longrightarrow> i < n \<Longrightarrow> j < n \<Longrightarrow> mat_at m i j = Some (entry m i j)"
  by (simp add: mat_at_def square_row check_bind entry_def) (simp add: square_def)

lemma mat_put_ok:
  assumes "square n m" "i < n" "j < n"
  shows "\<exists>m'. mat_put m i j x = Some m' \<and> square n m' \<and> (\<forall>a < n. \<forall>b < n. entry m' a b = (if a = i \<and> b = j then x else entry m a b))"
proof -
  have "length m = n" using assms(1) by (simp add: square_def)
  then have "square n (m[i := (m ! i)[j := x]])"
    using assms square_row [OF assms(1,2)] by (auto simp: square_def dest!: set_update_subset_insert [THEN subsetD])
  then show ?thesis using assms square_row [OF assms(1,2)] \<open>length m = n\<close>
    by (auto simp: mat_put_def check_bind entry_def nth_list_update)
qed

subsection \<open>Walks\<close>

fun path_weight :: "(nat \<Rightarrow> nat \<Rightarrow> int) \<Rightarrow> nat list \<Rightarrow> int" where
  "path_weight w (x # y # p) = w x y + path_weight w (y # p)"
| "path_weight w p = 0"

text \<open>A walk has at least one step.\<close>

definition walk :: "nat \<Rightarrow> nat \<Rightarrow> nat list \<Rightarrow> nat \<Rightarrow> bool" where
  "walk n i p j \<longleftrightarrow> 2 \<le> length p \<and> hd p = i \<and> last p = j \<and> set p \<subseteq> {..<n}"

lemma path_weight_append:
  "p \<noteq> [] \<Longrightarrow> q \<noteq> [] \<Longrightarrow> last p = hd q \<Longrightarrow> path_weight w (p @ tl q) = path_weight w p + path_weight w q"
proof (induction p)
  case (Cons x p)
  then show ?case by (cases p; cases q) auto
qed simp

lemma walk_append:
  assumes "walk n i p k" "walk n k q j"
  shows "walk n i (p @ tl q) j" "path_weight w (p @ tl q) = path_weight w p + path_weight w q"
    "length (p @ tl q) = length p + length q - 1"
proof -
  obtain a b r where q: "q = a # b # r" using assms(2) unfolding walk_def by (metis Suc_le_length_iff numeral_2_eq_2)
  have "p \<noteq> []" using assms(1) by (auto simp: walk_def)
  then show "path_weight w (p @ tl q) = path_weight w p + path_weight w q"
    using assms q by (intro path_weight_append) (auto simp: walk_def)
  show "walk n i (p @ tl q) j" using assms q \<open>p \<noteq> []\<close> by (auto simp: walk_def)
qed (use assms in \<open>auto simp: walk_def\<close>)

lemma walk_step: "i < n \<Longrightarrow> j < n \<Longrightarrow> walk n i [i, j] j" by (simp add: walk_def)

lemma walk_cases:
  assumes "walk n i p j"
  obtains "p = [i, j]" "i < n" "j < n" | k q where "p = i # q" "walk n k q j" "hd q = k" "i < n" "k < n" "2 \<le> length q"
proof -
  obtain b r where p: "p = i # b # r" using assms unfolding walk_def by (metis Suc_le_length_iff list.sel(1) numeral_2_eq_2)
  show thesis using assms that p by (cases r) (auto simp: walk_def)
qed

lemma walk_bound:
  assumes "walk n i p j"
    and d: "\<And>i j. i < n \<Longrightarrow> j < n \<Longrightarrow> d i j \<le> w i j" "\<And>i j k. i < n \<Longrightarrow> j < n \<Longrightarrow> k < n \<Longrightarrow> d i j \<le> d i k + d k j"
  shows "d i j \<le> path_weight w p"
  using assms(1)
proof (induction p arbitrary: i)
  case (Cons a p)
  from Cons.prems show ?case
  proof (cases rule: walk_cases)
    case (2 k q)
    then obtain r where q: "q = k # r" by (cases q) auto
    have "last q \<in> set q" using q by simp
    then have "j < n" using 2(2) by (auto simp: walk_def)
    then have "d i j \<le> w i k + d k j" using d(1) [of i k] d(2) [of i j k] 2 by linarith
    moreover have "p = q" "a = i" using 2(1) by auto
    ultimately show ?thesis using Cons.IH [of k] 2(2) q by simp
  qed (use d(1) in simp)
qed (simp add: walk_def)

definition least_weight :: "nat \<Rightarrow> (nat \<Rightarrow> nat \<Rightarrow> int) \<Rightarrow> nat \<Rightarrow> nat \<Rightarrow> int \<Rightarrow> bool" where
  "least_weight n w i j x \<longleftrightarrow> (\<exists>p. walk n i p j \<and> path_weight w p = x) \<and> (\<forall>p. walk n i p j \<longrightarrow> x \<le> path_weight w p)"

subsection \<open>The sweep\<close>

text \<open>What the fields hold in terms of the weights and latencies of the links: every distance belongs to a walk, with
  its latency and its number of switches on the way.\<close>

definition realised :: "nat \<Rightarrow> (nat \<Rightarrow> nat \<Rightarrow> int) \<Rightarrow> (nat \<Rightarrow> nat \<Rightarrow> int) \<Rightarrow> nat \<Rightarrow> nat \<Rightarrow> int \<Rightarrow> int \<Rightarrow> int \<Rightarrow> bool" where
  "realised n w l i j d lat sw \<longleftrightarrow>
     (\<exists>p. walk n i p j \<and> path_weight w p = d \<and> path_weight l p = lat \<and> int (length p) = sw + 2)"

lemma realised_join:
  "realised n w l i k d1 l1 s1 \<Longrightarrow> realised n w l k j d2 l2 s2 \<Longrightarrow> realised n w l i j (d1 + d2) (l1 + l2) (s1 + s2 + 1)"
proof -
  assume "realised n w l i k d1 l1 s1" "realised n w l k j d2 l2 s2"
  then obtain p q where pq: "walk n i p k" "path_weight w p = d1" "path_weight l p = l1" "int (length p) = s1 + 2"
    "walk n k q j" "path_weight w q = d2" "path_weight l q = l2" "int (length q) = s2 + 2" unfolding realised_def by metis
  note walk_append [OF pq(1,5)]
  moreover have "2 \<le> length p" "2 \<le> length q" using pq by (auto simp: walk_def)
  ultimately show ?thesis using pq unfolding realised_def by (intro exI [of _ "p @ tl q"]) (auto simp: of_nat_diff)
qed

definition paths_ok :: "nat \<Rightarrow> (nat \<Rightarrow> nat \<Rightarrow> int) \<Rightarrow> (nat \<Rightarrow> nat \<Rightarrow> int) \<Rightarrow> path_state \<Rightarrow> bool" where
  "paths_ok n w l s \<longleftrightarrow> square n (current_dist s) \<and> square n (path_latencies s) \<and> square n (inter_switches s) \<and>
     (\<forall>i < n. \<forall>j < n. 0 \<le> entry (current_dist s) i j \<and> entry (current_dist s) i j \<le> w i j \<and>
        realised n w l i j (entry (current_dist s) i j) (entry (path_latencies s) i j) (entry (inter_switches s) i j))"

lemma paths_okD:
  assumes "paths_ok n w l s"
  shows "square n (current_dist s)" "square n (path_latencies s)" "square n (inter_switches s)"
    "i < n \<Longrightarrow> j < n \<Longrightarrow> 0 \<le> entry (current_dist s) i j"
    "i < n \<Longrightarrow> j < n \<Longrightarrow> entry (current_dist s) i j \<le> w i j"
    "i < n \<Longrightarrow> j < n \<Longrightarrow>
      realised n w l i j (entry (current_dist s) i j) (entry (path_latencies s) i j) (entry (inter_switches s) i j)"
  using assms by (auto simp: paths_ok_def)

text \<open>The state of the innermost loop after the intermediate switches in \<open>K\<close>.\<close>

definition via_ok :: "nat \<Rightarrow> matrix \<Rightarrow> matrix \<Rightarrow> nat \<Rightarrow> nat \<Rightarrow> nat set \<Rightarrow> int \<times> nat option \<times> matrix \<Rightarrow> bool" where
  "via_ok n d sw i j K r \<longleftrightarrow> (case r of (minimum, via, sw') \<Rightarrow>
     (\<forall>k \<in> K. minimum \<le> entry d i k + entry d k j) \<and> square n sw' \<and>
     (minimum = entry d i j \<and> via = None \<and> sw' = sw \<or>
      minimum < entry d i j \<and> (\<exists>k < n. via = Some k \<and> k \<noteq> i \<and> k \<noteq> j \<and> minimum = entry d i k + entry d k j \<and>
        (\<forall>a < n. \<forall>b < n. entry sw' a b = (if a = i \<and> b = j then entry sw i k + entry sw k j + 1 else entry sw a b)))))"

lemma path_via_ok:
  assumes sq: "square n d" "square n sw" and ij: "i < n" "j < n" "k < n" and d: "\<And>i j. i < n \<Longrightarrow> j < n \<Longrightarrow> 0 \<le> entry d i j"
    and r: "via_ok n d sw i j K r"
  shows "\<exists>r'. path_via d i j k r = Some r' \<and> via_ok n d sw i j (insert k K) r'"
proof -
  obtain m via sw' where r': "r = (m, via, sw')" by (cases r) auto
  have sq': "square n sw'" and le: "m \<le> entry d i j" using r by (auto simp: via_ok_def r')
  note at = mat_at_ok [OF sq(1)] mat_at_ok [OF sq']
  show ?thesis
  proof (cases "m \<le> entry d i k + entry d k j")
    case True
    then have "path_via d i j k r = Some r" using ij by (simp add: path_via_def r' at Let_def min_def)
    then show ?thesis using r True by (auto simp: via_ok_def r')
  next
    case False
    then have k: "k \<noteq> i" "k \<noteq> j" using le d [of i i] d [of j j] ij by auto
    obtain sw2 where sw2: "mat_put sw' i j (entry sw' i k + entry sw' k j + 1) = Some sw2" "square n sw2"
      "\<forall>a < n. \<forall>b < n. entry sw2 a b = (if a = i \<and> b = j then entry sw' i k + entry sw' k j + 1 else entry sw' a b)"
      using mat_put_ok [OF sq' ij(1,2)] by blast
    have "path_via d i j k r = Some (entry d i k + entry d k j, Some k, sw2)"
      using False ij by (simp add: path_via_def r' at Let_def min_def sw2(1))
    moreover have e: "entry sw' a b = entry sw a b" if "a < n" "b < n" "a \<noteq> i \<or> b \<noteq> j" for a b
      using r that by (auto simp: via_ok_def r')
    have "entry sw2 a b = (if a = i \<and> b = j then entry sw i k + entry sw k j + 1 else entry sw a b)" if "a < n" "b < n" for a b
      using sw2(3) that ij k e [of i k] e [of k j] e [of a b] by auto
    moreover have "\<forall>k' \<in> K. entry d i k + entry d k j \<le> entry d i k' + entry d k' j"
      using r False by (force simp: via_ok_def r')
    moreover have "entry d i k + entry d k j < entry d i j" using False le by linarith
    ultimately show ?thesis using k ij sw2(2) by (auto simp: via_ok_def)
  qed
qed

lemma path_vias_ok:
  assumes sq: "square n d" "square n sw" and ij: "i < n" "j < n" and d: "\<And>i j. i < n \<Longrightarrow> j < n \<Longrightarrow> 0 \<le> entry d i j"
  shows "set ks \<subseteq> {..<n} \<Longrightarrow> via_ok n d sw i j K r \<Longrightarrow>
    \<exists>r'. fold_opt (path_via d i j) ks r = Some r' \<and> via_ok n d sw i j (K \<union> set ks) r'"
proof (induction ks arbitrary: r K)
  case (Cons k ks)
  then obtain r' where r': "path_via d i j k r = Some r'" "via_ok n d sw i j (insert k K) r'"
    using path_via_ok [OF sq ij _ d] by (metis insert_subset lessThan_iff list.simps(15))
  with Cons.IH [OF _ r'(2)] Cons.prems(1) show ?case by (simp add: Un_insert_right)
qed simp

definition dist_total :: "nat \<Rightarrow> matrix \<Rightarrow> int" where
  "dist_total n m = (\<Sum>i < n. \<Sum>j < n. entry m i j)"

lemma dist_total_less:
  assumes "i < n" "j < n" "\<forall>a < n. \<forall>b < n. entry m' a b \<le> entry m a b" "entry m' i j < entry m i j"
  shows "dist_total n m' < dist_total n m"
  unfolding dist_total_def
proof (rule sum_strict_mono_ex1)
  show "\<forall>a \<in> {..<n}. (\<Sum>j < n. entry m' a j) \<le> (\<Sum>j < n. entry m a j)" using assms(3) by (auto intro!: sum_mono)
  have "(\<Sum>j < n. entry m' i j) < (\<Sum>j < n. entry m i j)"
    using assms by (intro sum_strict_mono_ex1) auto
  then show "\<exists>a \<in> {..<n}. (\<Sum>j < n. entry m' a j) < (\<Sum>j < n. entry m a j)" using assms(1) by blast
qed simp

text \<open>One pair: nothing changes and no intermediate switch helps, or the distance falls.\<close>

lemma path_pair_ok:
  assumes ok: "paths_ok n w l s" and ij: "i < n" "j < n"
  shows "\<exists>s'. path_pair n (i, j) s = Some s' \<and> paths_ok n w l s' \<and>
    (s' = s \<and> (\<forall>k < n. entry (current_dist s) i j \<le> entry (current_dist s) i k + entry (current_dist s) k j) \<or>
     path_change s' \<and> dist_total n (current_dist s') < dist_total n (current_dist s))"
proof -
  let ?d = "current_dist s" and ?l = "path_latencies s" and ?sw = "inter_switches s"
  note sq = paths_okD(1-3) [OF ok] and nn = paths_okD(4) [OF ok]
  have "via_ok n ?d ?sw i j {} (entry ?d i j, None, ?sw)" using sq by (simp add: via_ok_def)
  from path_vias_ok [OF sq(1,3) ij nn _ this, of "[0..<n]"]
  obtain m via sw' where f: "fold_opt (path_via ?d i j) [0..<n] (entry ?d i j, None, ?sw) = Some (m, via, sw')"
    and v: "via_ok n ?d ?sw i j {..<n} (m, via, sw')" by (auto simp: atLeast0LessThan)
  show ?thesis
  proof (cases "m = entry ?d i j")
    case True
    then have "sw' = ?sw" using v by (auto simp: via_ok_def)
    then have "path_pair n (i, j) s = Some s" using f True mat_at_ok [OF sq(1) ij] by (simp add: path_pair_def Let_def)
    then show ?thesis using ok v True by (auto simp: via_ok_def)
  next
    case False
    then obtain k where k: "m < entry ?d i j" "k < n" "via = Some k" "k \<noteq> i" "k \<noteq> j" "m = entry ?d i k + entry ?d k j"
      and sw': "square n sw'" "\<forall>a < n. \<forall>b < n. entry sw' a b = (if a = i \<and> b = j then entry ?sw i k + entry ?sw k j + 1 else entry ?sw a b)"
      using v unfolding via_ok_def prod.case by blast
    obtain d' where d': "mat_put ?d i j m = Some d'" "square n d'"
      "\<forall>a < n. \<forall>b < n. entry d' a b = (if a = i \<and> b = j then m else entry ?d a b)" using mat_put_ok [OF sq(1) ij] by blast
    obtain l' where l': "mat_put ?l i j (entry ?l i k + entry ?l k j) = Some l'" "square n l'"
      "\<forall>a < n. \<forall>b < n. entry l' a b = (if a = i \<and> b = j then entry ?l i k + entry ?l k j else entry ?l a b)"
      using mat_put_ok [OF sq(2) ij] by blast
    let ?s = "s\<lparr>inter_switches := sw', current_dist := d', path_latencies := l', path_change := True\<rparr>"
    have step: "path_pair n (i, j) s = Some ?s"
      using f False k d' l' mat_at_ok [OF sq(1)] mat_at_ok [OF sq(2)] ij by (simp add: path_pair_def Let_def)
    have "realised n w l i j m (entry ?l i k + entry ?l k j) (entry ?sw i k + entry ?sw k j + 1)"
      using realised_join [OF paths_okD(6) [OF ok ij(1) k(2)] paths_okD(6) [OF ok k(2) ij(2)]] k(6) by simp
    moreover have "0 \<le> m" using nn [OF ij(1) k(2)] nn [OF k(2) ij(2)] k(6) by linarith
    moreover have "m \<le> w i j" using paths_okD(5) [OF ok ij] k(1) by linarith
    ultimately have "paths_ok n w l ?s" using ok sw' d' l' by (auto simp: paths_ok_def)
    moreover have "dist_total n d' < dist_total n ?d" using d'(3) k(1) ij by (intro dist_total_less [of i n j]) auto
    ultimately show ?thesis using step by simp
  qed
qed

lemma path_pairs_ok:
  assumes "set ps \<subseteq> {..<n} \<times> {..<n}" "paths_ok n w l s"
  shows "\<exists>s'. fold_opt (path_pair n) ps s = Some s' \<and> paths_ok n w l s' \<and>
    (s' = s \<and> (\<forall>(i, j) \<in> set ps. \<forall>k < n. entry (current_dist s) i j \<le> entry (current_dist s) i k + entry (current_dist s) k j) \<or>
     path_change s' \<and> dist_total n (current_dist s') < dist_total n (current_dist s))"
  using assms
proof (induction ps arbitrary: s)
  case (Cons ij ps)
  obtain i j where ij: "ij = (i, j)" by (cases ij)
  obtain s1 where s1: "path_pair n ij s = Some s1" "paths_ok n w l s1"
    "s1 = s \<and> (\<forall>k < n. entry (current_dist s) i j \<le> entry (current_dist s) i k + entry (current_dist s) k j) \<or>
     path_change s1 \<and> dist_total n (current_dist s1) < dist_total n (current_dist s)"
    using path_pair_ok [OF Cons.prems(2), of i j] Cons.prems(1) ij by auto
  obtain s2 where s2: "fold_opt (path_pair n) ps s1 = Some s2" "paths_ok n w l s2"
    "s2 = s1 \<and> (\<forall>(i, j) \<in> set ps. \<forall>k < n. entry (current_dist s1) i j \<le> entry (current_dist s1) i k + entry (current_dist s1) k j) \<or>
     path_change s2 \<and> dist_total n (current_dist s2) < dist_total n (current_dist s1)"
    using Cons.IH [OF _ s1(2)] Cons.prems(1) by auto
  show ?case using s1 s2 ij by (intro exI [of _ s2]) auto
qed simp

lemma path_sweep_ok:
  assumes "paths_ok n w l s"
  shows "\<exists>s'. path_sweep s = Some s' \<and> paths_ok n w l s' \<and>
    (\<not> path_change s' \<and> (\<forall>i < n. \<forall>j < n. \<forall>k < n. entry (current_dist s') i j \<le> entry (current_dist s') i k + entry (current_dist s') k j) \<or>
     path_change s' \<and> dist_total n (current_dist s') < dist_total n (current_dist s))"
proof -
  let ?s = "s\<lparr>path_change := False\<rparr>"
  have "paths_ok n w l ?s" and "length (current_dist s) = n" using assms by (simp_all add: paths_ok_def square_def)
  with path_pairs_ok [of "List.product [0..<n] [0..<n]" n w l ?s] show ?thesis by (fastforce simp: path_sweep_def Let_def)
qed

lemma extend_shortest_path_ok:
  assumes "paths_ok n w l s"
  shows "\<exists>s'. extend_shortest_path s = Some s' \<and> paths_ok n w l s' \<and>
    (\<forall>i < n. \<forall>j < n. \<forall>k < n. entry (current_dist s') i j \<le> entry (current_dist s') i k + entry (current_dist s') k j)"
  using assms
proof (induction "nat (dist_total n (current_dist s))" arbitrary: s rule: less_induct)
  case less
  obtain s1 where s1: "path_sweep s = Some s1" "paths_ok n w l s1"
    "\<not> path_change s1 \<and> (\<forall>i < n. \<forall>j < n. \<forall>k < n. entry (current_dist s1) i j \<le> entry (current_dist s1) i k + entry (current_dist s1) k j) \<or>
     path_change s1 \<and> dist_total n (current_dist s1) < dist_total n (current_dist s)"
    using path_sweep_ok [OF less.prems] by blast
  show ?case
  proof (cases "path_change s1")
    case True
    have "0 \<le> dist_total n (current_dist s1)" using paths_okD(4) [OF s1(2)] by (auto simp: dist_total_def intro!: sum_nonneg)
    then have "nat (dist_total n (current_dist s1)) < nat (dist_total n (current_dist s))" using s1(3) True by linarith
    from less.hyps [OF this s1(2)] True s1(1) show ?thesis by (simp add: extend_shortest_path.simps [of s])
  qed (use s1 in \<open>simp add: extend_shortest_path.simps [of s]\<close>)
qed

definition weights_ok :: "nat \<Rightarrow> matrix \<Rightarrow> bool" where
  "weights_ok n m \<longleftrightarrow> square n m \<and> (\<forall>r \<in> set m. \<forall>x \<in> set r. 0 \<le> x)"

lemma weights_ok_entry:
  assumes "weights_ok n m" "i < n" "j < n"
  shows "0 \<le> entry m i j"
proof -
  have "m ! i \<in> set m" "m ! i ! j \<in> set (m ! i)" using assms by (auto simp: weights_ok_def square_def)
  then show ?thesis using assms(1) by (auto simp: weights_ok_def entry_def)
qed

lemma shortest_path_ok:
  assumes "weights_ok n weights" "square n latencies" "switches = replicate n (replicate n 0)"
  obtains dist lat sw where "shortest_path weights latencies switches = Some (dist, lat, sw)"
    "square n dist" "square n lat" "square n sw"
    "\<And>i j. i < n \<Longrightarrow> j < n \<Longrightarrow> least_weight n (entry weights) i j (entry dist i j)"
    "\<And>i j. i < n \<Longrightarrow> j < n \<Longrightarrow> realised n (entry weights) (entry latencies) i j (entry dist i j) (entry lat i j) (entry sw i j)"
    "\<And>i j. i < n \<Longrightarrow> j < n \<Longrightarrow> 0 \<le> entry dist i j"
proof -
  let ?s = "\<lparr>current_dist = weights, path_latencies = latencies, inter_switches = switches, path_change = True\<rparr>"
  have "realised n (entry weights) (entry latencies) i j (entry weights i j) (entry latencies i j) 0" if "i < n" "j < n" for i j
    unfolding realised_def using walk_step [OF that] by (intro exI [of _ "[i, j]"]) simp
  moreover have "entry switches i j = 0" if "i < n" "j < n" for i j using that assms(3) by (simp add: entry_def)
  moreover have "square n switches" using assms(3) by (auto simp: square_def)
  ultimately have "paths_ok n (entry weights) (entry latencies) ?s"
    using assms weights_ok_entry [OF assms(1)] by (auto simp: paths_ok_def weights_ok_def)
  from extend_shortest_path_ok [OF this] obtain s' where s': "extend_shortest_path ?s = Some s'"
    "paths_ok n (entry weights) (entry latencies) s'"
    "\<forall>i < n. \<forall>j < n. \<forall>k < n. entry (current_dist s') i j \<le> entry (current_dist s') i k + entry (current_dist s') k j" by blast
  have "least_weight n (entry weights) i j (entry (current_dist s') i j)" if "i < n" "j < n" for i j
    unfolding least_weight_def
  proof (intro conjI allI impI)
    show "\<exists>p. walk n i p j \<and> path_weight (entry weights) p = entry (current_dist s') i j"
      using paths_okD(6) [OF s'(2) that] unfolding realised_def by blast
    show "entry (current_dist s') i j \<le> path_weight (entry weights) p" if "walk n i p j" for p
      using paths_okD(5) [OF s'(2)] s'(3) by (intro walk_bound [OF that]) auto
  qed
  then show thesis using that paths_okD [OF s'(2)] s'(1) by (simp add: shortest_path_def)
qed

text \<open>C16. \<^verbatim>\<open>shortest_path\<close> computes all-pairs shortest paths: for link weights that are not negative the relaxation loop
  ends, whatever values it has overwritten on the way, and every distance is the least weight of a walk
  from \<open>i\<close> to \<open>j\<close> of one or more links. The recorded latency and the recorded number of intermediate
  switches belong to one and the same walk of least weight.\<close>

theorem shortest_path_correct:
  assumes "weights_ok n weights" "square n latencies"
  shows "\<exists>dist lat sw. shortest_path weights latencies (replicate n (replicate n 0)) = Some (dist, lat, sw) \<and>
    (\<forall>i < n. \<forall>j < n. (\<forall>p. walk n i p j \<longrightarrow> dist ! i ! j \<le> path_weight (entry weights) p) \<and>
      (\<exists>p. walk n i p j \<and> path_weight (entry weights) p = dist ! i ! j \<and>
           path_weight (entry latencies) p = lat ! i ! j \<and> int (length p) - 2 = sw ! i ! j))"
proof -
  obtain dist lat sw where "shortest_path weights latencies (replicate n (replicate n 0)) = Some (dist, lat, sw)"
    "\<And>i j. i < n \<Longrightarrow> j < n \<Longrightarrow> least_weight n (entry weights) i j (entry dist i j)"
    "\<And>i j. i < n \<Longrightarrow> j < n \<Longrightarrow> realised n (entry weights) (entry latencies) i j (entry dist i j) (entry lat i j) (entry sw i j)"
    using shortest_path_ok [OF assms refl] by metis
  then show ?thesis unfolding least_weight_def realised_def by (force simp: entry_def [of dist] entry_def [of lat] entry_def [of sw])
qed

theorem shortest_path_correct_witness:
  "weights_ok 3 [[0, 1, 10000], [10000, 0, 2], [10000, 10000, 0]] \<and>
   shortest_path [[0, 1, 10000], [10000, 0, 2], [10000, 10000, 0]] [[-1, 1, -1], [-1, -1, 2], [-1, -1, -1]]
     (replicate 3 (replicate 3 0)) = Some ([[0, 1, 3], [10000, 0, 2], [10000, 10000, 0]],
     [[-1, 1, 3], [-1, -1, 2], [-1, -1, -1]], [[0, 0, 1], [0, 0, 0], [0, 0, 0]]) \<and>
   (\<exists>p. walk 3 0 p 2 \<and> path_weight (entry [[0, 1, 10000], [10000, 0, 2], [10000, 10000, 0]]) p = 3)"
proof -
  let ?w = "[[0, 1, 10000], [10000, 0, 2], [10000, 10000, 0]]" and ?l = "[[-1, 1, -1], [-1, -1, 2], [-1, -1, -1]]"
  have ok: "weights_ok 3 ?w" "square 3 ?l" by (simp_all add: weights_ok_def square_def)
  have run: "shortest_path ?w ?l (replicate 3 (replicate 3 0)) = Some ([[0, 1, 3], [10000, 0, 2], [10000, 10000, 0]],
     [[-1, 1, 3], [-1, -1, 2], [-1, -1, -1]], [[0, 0, 1], [0, 0, 0], [0, 0, 0]])" by code_simp
  obtain dist lat sw where d: "shortest_path ?w ?l (replicate 3 (replicate 3 0)) = Some (dist, lat, sw)"
    "\<forall>i < 3. \<forall>j < 3. \<exists>p. walk 3 i p j \<and> path_weight (entry ?w) p = dist ! i ! j" using shortest_path_correct [OF ok] by metis
  have "dist ! 0 ! 2 = 3" using d(1) unfolding run by auto
  with d(2) [rule_format, of 0 2] have "\<exists>p. walk 3 0 p 2 \<and> path_weight (entry ?w) p = 3" by simp
  with ok run show ?thesis by blast
qed

subsection \<open>Routing\<close>

text \<open>The first link of a shortest walk is one the routing test accepts, and every accepted link leads closer.\<close>

lemma next_hop_exists:
  assumes least: "\<And>i j. i < n \<Longrightarrow> j < n \<Longrightarrow> least_weight n w i j (d i j)"
    and w: "\<And>i j. i < n \<Longrightarrow> j < n \<Longrightarrow> 0 \<le> w i j" and final: "d final final = 0" "final < n"
    and p: "walk n src p final" "path_weight w p = d src final" "src \<noteq> final"
  shows "\<exists>next < n. next \<noteq> src \<and> w src next \<le> d src final \<and> w src next + d next final = d src final"
  using p
proof (induction p)
  case (Cons a p)
  have dn: "0 \<le> d i j" if "i < n" "j < n" for i j
  proof -
    have pw: "set q \<subseteq> {..<n} \<Longrightarrow> 0 \<le> path_weight w q" for q using w by (induction w q rule: path_weight.induct) auto
    show ?thesis using least [OF that] pw unfolding least_weight_def walk_def by metis
  qed
  from Cons.prems(1) show ?case
  proof (cases rule: walk_cases)
    case 1
    then show ?thesis using Cons.prems final by (intro exI [of _ final]) auto
  next
    case (2 k q)
    then obtain r where q: "q = k # r" by (cases q) auto
    have pq: "p = q" "a = src" and wt: "d src final = w src k + path_weight w q" using 2(1) Cons.prems q by auto
    have le: "d k final \<le> path_weight w q" using least [OF 2(5) final(2)] 2(2) by (simp add: least_weight_def)
    show ?thesis
    proof (cases "k = src")
      case True
      then have "path_weight w q = d src final" using le wt w [OF 2(4,5)] by simp
      then show ?thesis using Cons.IH 2(2) True Cons.prems(3) pq by simp
    next
      case False
      obtain q' where q': "walk n k q' final" "path_weight w q' = d k final" using least [OF 2(5) final(2)] by (auto simp: least_weight_def)
      have "d src final \<le> path_weight w ([src, k] @ tl q')"
        using walk_append(1) [OF walk_step [OF 2(4,5)] q'(1)] least [OF 2(4) final(2)] unfolding least_weight_def by blast
      also have "\<dots> = w src k + d k final" using walk_append(2) [OF walk_step [OF 2(4,5)] q'(1)] q'(2) by simp
      finally have "w src k + d k final = d src final" using le wt by linarith
      moreover have "w src k \<le> d src final" using calculation dn [OF 2(5) final(2)] by linarith
      ultimately show ?thesis using False 2(5) by blast
    qed
  qed
qed (simp add: walk_def)

lemma link_is_shortest_ok:
  assumes "square n weights" "square n dist" "src < n" "next < n" "final < n"
  shows "link_is_shortest_path_to_node src next final weights dist =
    Some (entry weights src next + entry dist next final = entry dist src final)"
  using assms by (simp add: link_is_shortest_path_to_node_def mat_at_ok)

end
