(* ===== verification/Net_Topology.thy ===== *)
theory Net_Topology
  imports Net_Paths Net_Dest Ruby_Config Std_String
begin

text \<open>
  The network topology of \<^verbatim>\<open>network/simple/Topology.C\<close>: the five ways to set up links between endpoints and
  switches (\<^verbatim>\<open>init\<close>), and \<^verbatim>\<open>createLinks\<close>, which computes routes and asks the network for the links.
  Switch numbers below \<open>m_nodes\<close> are the inputs of the endpoints, those below \<open>2 * m_nodes\<close> their outputs.
  The functions on machine types that are generated from the protocol are parameters. The calls that
  \<^verbatim>\<open>createLinks\<close> makes on the network do not change the topology; they are returned in order, as values
  of \<open>net_link\<close>. Vectors of node pairs, latencies, bandwidth multipliers and weights that grow together
  are one list of tuples. A name that cannot be found, \<^verbatim>\<open>exit(1)\<close> and failed assertions are \<open>None\<close>.
\<close>

definition INFINITE_LATENCY :: int where "INFINITE_LATENCY = 10000"

definition DEFAULT_BW_MULTIPLIER :: int where "DEFAULT_BW_MULTIPLIER = 1"

record net_machines =
  nm_types :: machine_types
  MachineType_chip_count :: "nat \<Rightarrow> nat \<Rightarrow> nat"
  MachineType_Directory :: nat
  string_to_MachineType :: "string \<Rightarrow> nat option"

record net_params =
  g_NETWORK_TOPOLOGY :: string
  NETWORK_LINK_LATENCY :: int
  ON_CHIP_LINK_LATENCY :: int
  FAN_OUT_DEGREE :: nat
  g_endpoint_bandwidth :: int
  network_file :: "string option"

datatype TopologyType = CROSSBAR | HIERARCHICAL_SWITCH | TORUS_2D | PT_TO_PT | FILE_SPECIFIED

definition string_to_TopologyType :: "string \<Rightarrow> TopologyType option" where
  "string_to_TopologyType s =
     (if s = ''CROSSBAR'' then Some CROSSBAR
      else if s = ''HIERARCHICAL_SWITCH'' then Some HIERARCHICAL_SWITCH
      else if s = ''TORUS_2D'' then Some TORUS_2D
      else if s = ''PT_TO_PT'' then Some PT_TO_PT
      else if s = ''FILE_SPECIFIED'' then Some FILE_SPECIFIED
      else None)"

record topology =
  m_nodes :: nat
  m_number_of_switches :: nat
  m_links_src_vector :: "nat list"
  m_links_dest_vector :: "nat list"
  m_links_latency_vector :: "int list"
  m_links_weight_vector :: "int list"
  m_bw_multiplier_vector :: "int list"
  m_component_latencies :: matrix
  m_component_inter_switches :: matrix

definition newSwitchID :: "topology \<Rightarrow> nat \<times> topology" where
  "newSwitchID t = (let t1 = t\<lparr>m_number_of_switches := m_number_of_switches t + 1\<rparr>
     in (m_number_of_switches t1 - 1 + m_nodes t1 + m_nodes t1, t1))"

definition addLink_weight :: "nat \<Rightarrow> nat \<Rightarrow> int \<Rightarrow> int \<Rightarrow> int \<Rightarrow> topology \<Rightarrow> topology option" where
  "addLink_weight src dest link_latency bw_multiplier link_weight t = do {
     check (src \<le> m_number_of_switches t + m_nodes t + m_nodes t);
     check (dest \<le> m_number_of_switches t + m_nodes t + m_nodes t);
     Some (t\<lparr>m_links_src_vector := m_links_src_vector t @ [src], m_links_dest_vector := m_links_dest_vector t @ [dest],
       m_links_latency_vector := m_links_latency_vector t @ [link_latency],
       m_links_weight_vector := m_links_weight_vector t @ [link_weight],
       m_bw_multiplier_vector := m_bw_multiplier_vector t @ [bw_multiplier]\<rparr>) }"

definition addLink_bw :: "nat \<Rightarrow> nat \<Rightarrow> int \<Rightarrow> int \<Rightarrow> topology \<Rightarrow> topology option" where
  "addLink_bw src dest link_latency bw_multiplier = addLink_weight src dest link_latency bw_multiplier link_latency"

definition addLink :: "nat \<Rightarrow> nat \<Rightarrow> int \<Rightarrow> topology \<Rightarrow> topology option" where
  "addLink src dest link_latency = addLink_weight src dest link_latency DEFAULT_BW_MULTIPLIER link_latency"

text \<open>A link that is collected before it is added: source, destination, latency, bandwidth multiplier.\<close>

type_synonym link_spec = "nat \<times> nat \<times> int \<times> int"

definition add_links :: "link_spec list \<Rightarrow> topology \<Rightarrow> topology option" where
  "add_links ls = fold_opt (\<lambda>(src, dest, lat, bw). addLink_bw src dest lat bw) ls"

subsection \<open>Hierarchical switches\<close>

definition up_step :: "nat \<Rightarrow> int \<Rightarrow> nat list \<Rightarrow> nat \<Rightarrow> nat list \<times> topology \<Rightarrow> (nat list \<times> topology) option" where
  "up_step fan_out_degree lat last_level i = (\<lambda>(next_level, t). do {
     check (0 < fan_out_degree);
     let (next1, t1) = (if i mod fan_out_degree = 0
       then (case newSwitchID t of (s, t1) \<Rightarrow> (next_level @ [s], t1)) else (next_level, t));
     check (next1 \<noteq> []);
     t2 \<leftarrow> addLink (last_level ! i) (next1 ! (length next1 - 1)) lat t1;
     Some (next1, t2) })"

partial_function (option) up_levels :: "nat \<Rightarrow> int \<Rightarrow> nat list \<times> topology \<Rightarrow> (nat list \<times> topology) option" where
  "up_levels fan_out_degree lat s =
     (if 1 < length (fst s)
      then Option.bind (fold_opt (up_step fan_out_degree lat (fst s)) [0..<length (fst s)] ([], snd s)) (up_levels fan_out_degree lat)
      else Some s)"

definition down_step :: "nat \<Rightarrow> int \<Rightarrow> nat \<Rightarrow> nat list \<Rightarrow> nat \<Rightarrow> nat list \<times> topology \<Rightarrow> (nat list \<times> topology) option" where
  "down_step fan_out_degree lat root_switch out_level i = (\<lambda>(next_level, t). do {
     check (0 < fan_out_degree);
     let (next1, t1) = (if i mod fan_out_degree = 0
       then (if fan_out_degree < length out_level
             then (case newSwitchID t of (s, t1) \<Rightarrow> (next_level @ [s], t1))
             else (next_level @ [root_switch], t))
       else (next_level, t));
     check (next1 \<noteq> []);
     t2 \<leftarrow> addLink (next1 ! (length next1 - 1)) (out_level ! i) lat t1;
     Some (next1, t2) })"

partial_function (option) down_levels :: "nat \<Rightarrow> int \<Rightarrow> nat \<Rightarrow> nat list \<times> topology \<Rightarrow> (nat list \<times> topology) option" where
  "down_levels fan_out_degree lat root_switch s =
     (if length (fst s) \<noteq> 1
      then Option.bind (fold_opt (down_step fan_out_degree lat root_switch (fst s)) [0..<length (fst s)] ([], snd s))
             (down_levels fan_out_degree lat root_switch)
      else Some s)"

declare up_levels.simps [code] down_levels.simps [code]

definition endpoint_switch :: "int \<Rightarrow> nat \<Rightarrow> nat list \<times> topology \<Rightarrow> (nat list \<times> topology) option" where
  "endpoint_switch lat i = (\<lambda>(last_level, t). do {
     let (new_switch, t1) = newSwitchID t;
     t2 \<leftarrow> addLink i new_switch lat t1;
     Some (last_level @ [new_switch], t2) })"

definition makeHierarchicalSwitch :: "net_params \<Rightarrow> nat \<Rightarrow> topology \<Rightarrow> topology option" where
  "makeHierarchicalSwitch p fan_out_degree t = do {
     let lat = NETWORK_LINK_LATENCY p;
     s1 \<leftarrow> fold_opt (endpoint_switch lat) [0..<m_nodes t] ([], t);
     (last_level, t2) \<leftarrow> up_levels fan_out_degree lat s1;
     check (0 < length last_level);
     let root_switch = last_level ! 0;
     (_, t3) \<leftarrow> down_levels fan_out_degree lat root_switch (map (\<lambda>i. m_nodes t + i) [0..<m_nodes t], t2);
     Some t3 }"

subsection \<open>Switches per chip\<close>

record chip_state =
  endpointConnectionExist :: "bool list"
  componentCount :: "nat list"
  chip_links :: "link_spec list"

definition chip_component :: "net_machines \<Rightarrow> net_params \<Rightarrow> nat \<Rightarrow> nat \<times> nat \<times> nat \<Rightarrow> chip_state \<Rightarrow> chip_state option" where
  "chip_component nm p nodes = (\<lambda>(chip, mType, component) s. do {
     let (latency, bw_multiplier) = (if mType \<noteq> MachineType_Directory nm then (ON_CHIP_LINK_LATENCY p, 10) else (NETWORK_LINK_LATENCY p, 1));
     check (mType < length (componentCount s));
     let node = MachineType_base_number (nm_types nm) mType + componentCount s ! mType;
     let switch = chip + nodes * 2;
     let links = [(node, switch, latency, int (componentCount s ! mType + MachineType_base_number (nm_types nm) mType)),
                  (switch, node + nodes, latency, bw_multiplier)];
     check (node < length (endpointConnectionExist s));
     check (\<not> endpointConnectionExist s ! node);
     Some (s\<lparr>chip_links := chip_links s @ links, endpointConnectionExist := (endpointConnectionExist s)[node := True],
             componentCount := (componentCount s)[mType := componentCount s ! mType + 1]\<rparr>) })"

definition chip_components :: "net_machines \<Rightarrow> ruby_config \<Rightarrow> (nat \<times> nat \<times> nat) list" where
  "chip_components nm c = concat (map (\<lambda>chip. concat (map (\<lambda>mType. map (\<lambda>k. (chip, mType, k)) [0..<MachineType_chip_count nm mType chip])
     [0..<MachineType_NUM (nm_types nm)])) [0..<g_NUM_CHIPS c])"

definition makeSwitchesPerChip :: "net_machines \<Rightarrow> net_params \<Rightarrow> ruby_config \<Rightarrow> nat \<Rightarrow> link_spec list \<Rightarrow> link_spec list option" where
  "makeSwitchesPerChip nm p c nodes links = do {
     s \<leftarrow> fold_opt (chip_component nm p nodes) (chip_components nm c)
       \<lparr>endpointConnectionExist = replicate nodes False, componentCount = replicate (MachineType_NUM (nm_types nm)) 0, chip_links = links\<rparr>;
     check (list_all (\<lambda>b. b) (endpointConnectionExist s));
     check (list_all (\<lambda>mType. componentCount s ! mType = MachineType_base_count (nm_types nm) mType) [0..<MachineType_NUM (nm_types nm)]);
     Some (chip_links s) }"

primrec new_switches :: "nat \<Rightarrow> topology \<Rightarrow> nat list \<times> topology" where
  "new_switches 0 t = ([], t)"
| "new_switches (Suc k) t = (case newSwitchID t of (s, t1) \<Rightarrow> case new_switches k t1 of (ss, t2) \<Rightarrow> (s # ss, t2))"

subsection \<open>Torus and point to point\<close>

text \<open>\<^verbatim>\<open>(int)sqrt((double)n)\<close>, exact for the numbers of switches that occur.\<close>

definition int_sqrt :: "nat \<Rightarrow> nat" where
  "int_sqrt n = last (filter (\<lambda>k. k * k \<le> n) [0..<n + 1])"

definition torus_neighbours :: "nat \<Rightarrow> nat \<Rightarrow> nat \<Rightarrow> nat \<Rightarrow> nat list" where
  "torus_neighbours nodes numberOfTorusSwitches lengthOfSide s =
     [if s mod lengthOfSide = 0 then s + lengthOfSide - 1 else s - 1,
      if (s + 1) mod lengthOfSide = 0 then s + 1 - lengthOfSide else s + 1,
      if int s - int lengthOfSide < int (2 * nodes) then s + lengthOfSide * lengthOfSide - lengthOfSide else s - lengthOfSide,
      if 2 * nodes + numberOfTorusSwitches \<le> s + lengthOfSide then s + lengthOfSide - lengthOfSide * lengthOfSide else s + lengthOfSide]"

definition make2DTorus :: "net_machines \<Rightarrow> net_params \<Rightarrow> ruby_config \<Rightarrow> topology \<Rightarrow> topology option" where
  "make2DTorus nm p c t = do {
     let types = nm_types nm;
     check (0 < MachineType_base_level types (MachineType_NUM types));
     let numberOfTorusSwitches = m_nodes t div MachineType_base_level types (MachineType_NUM types);
     let (torusSwitches, t1) = new_switches numberOfTorusSwitches t;
     links \<leftarrow> makeSwitchesPerChip nm p c (m_nodes t) [];
     let lengthOfSide = int_sqrt numberOfTorusSwitches;
     let torus = concat (map (\<lambda>s. map (\<lambda>k. (s, k, NETWORK_LINK_LATENCY p, 1))
       (torus_neighbours (m_nodes t) numberOfTorusSwitches lengthOfSide s)) torusSwitches);
     add_links (links @ torus) t1 }"

definition both_ways :: "nat \<Rightarrow> nat \<Rightarrow> int \<Rightarrow> int \<Rightarrow> link_spec list" where
  "both_ways a b lat bw = [(a, b, lat, bw), (b, a, lat, bw)]"

definition makePtToPt :: "net_machines \<Rightarrow> net_params \<Rightarrow> ruby_config \<Rightarrow> topology \<Rightarrow> topology option" where
  "makePtToPt nm p c t = do {
     let types = nm_types nm;
     check (0 < MachineType_base_level types (MachineType_NUM types));
     let numberOfChipSwitches = m_nodes t div MachineType_base_level types (MachineType_NUM types);
     let (_, t1) = new_switches (2 * numberOfChipSwitches) t;
     links \<leftarrow> makeSwitchesPerChip nm p c (m_nodes t) [];
     let chips = g_NUM_CHIPS c;
     let intra = concat (map (\<lambda>chip. both_ways (chip + m_nodes t * 2) (chip + m_nodes t * 2 + chips) (ON_CHIP_LINK_LATENCY p) 10) [0..<chips]);
     let extern = concat (map (\<lambda>chip. concat (map (\<lambda>other_chip. both_ways (chip + m_nodes t * 2 + chips) (other_chip + m_nodes t * 2 + chips)
       (NETWORK_LINK_LATENCY p) 1) [chip + 1..<chips])) [0..<chips]);
     add_links (links @ intra @ extern) t1 }"

subsection \<open>Topologies from a file\<close>

text \<open>\<^verbatim>\<open>getline\<close> until the end of the file: the text between line ends, with an empty last line behind a final
  line end.\<close>

fun file_lines :: "string \<Rightarrow> string list" where
  "file_lines [] = [[]]"
| "file_lines (ch # cs) = (if ch = CHR 0x0A then [] # file_lines cs
     else case file_lines cs of l # ls \<Rightarrow> (ch # l) # ls | [] \<Rightarrow> [[ch]])"

record file_state =
  fs_connected :: "bool list"
  fs_switches :: nat
  int_network_switches :: "nat list"
  fs_links :: "(nat \<times> nat \<times> int \<times> int \<times> int) list"

text \<open>The variables of one line. The entries of \<^verbatim>\<open>nodes\<close> have no value before they are assigned, so the list
  holds those that are.\<close>

record line_state =
  ls_nodes :: "nat list"
  ls_latency :: int
  ls_weight :: int
  ls_bw_multiplier :: int
  varsFound :: nat
  internalNodes :: nat

definition line_start :: line_state where
  "line_start = \<lparr>ls_nodes = [], ls_latency = -1, ls_weight = -1, ls_bw_multiplier = DEFAULT_BW_MULTIPLIER,
     varsFound = 0, internalNodes = 0\<rparr>"

definition ext_node :: "net_machines \<Rightarrow> ruby_config \<Rightarrow> nat \<Rightarrow> string \<Rightarrow> nat option" where
  "ext_node nm c nodes varStr = do {
     let (name, rest1) = string_split CHR '':'' varStr;
     machine \<leftarrow> string_to_MachineType nm name;
     let (nodeStr, rest2) = string_split CHR '':'' rest1;
     let (label, rest3) = string_split CHR '':'' rest2;
     number \<leftarrow> atoi nodeStr;
     let base = int (MachineType_base_number (nm_types nm) machine) + number;
     node \<leftarrow> (if label = ''bank'' then do { b \<leftarrow> atoi (fst (string_split CHR '':'' rest3)); Some (base + b * int (g_NUM_CHIPS c)) }
              else Some base);
     check (0 \<le> node \<and> node < int nodes);
     Some (nat node) }"

definition int_node :: "nat \<Rightarrow> string \<Rightarrow> nat option" where
  "int_node nodes varStr = do {
     number \<leftarrow> atoi (fst (string_split CHR '':'' varStr));
     let node = number + int nodes * 2;
     check (int nodes * 2 \<le> node);
     Some (nat node) }"

definition expect_number :: "string \<Rightarrow> int \<Rightarrow> unit option" where
  "expect_number varStr n = do { v \<leftarrow> atoi (fst (string_split CHR '':'' varStr)); check (v = n) }"

definition parse_var :: "net_machines \<Rightarrow> net_params \<Rightarrow> ruby_config \<Rightarrow> nat \<Rightarrow> string \<Rightarrow> file_state \<times> line_state \<Rightarrow> (file_state \<times> line_state) option" where
  "parse_var nm p c nodes var = (\<lambda>(f, l). do {
     let (label, varStr) = string_split CHR '':'' var;
     if label = ''ext_node'' then do {
       check (length (ls_nodes l) < 2);
       node \<leftarrow> ext_node nm c nodes varStr;
       check (node < length (fs_connected f));
       Some (f\<lparr>fs_connected := (fs_connected f)[node := True]\<rparr>,
             l\<lparr>ls_nodes := ls_nodes l @ [node], varsFound := varsFound l + 1\<rparr>) }
     else if label = ''int_node'' then do {
       check (length (ls_nodes l) < 2);
       node \<leftarrow> int_node nodes varStr;
       Some (if node \<in> set (int_network_switches f) then f
             else f\<lparr>fs_switches := fs_switches f + 1, int_network_switches := int_network_switches f @ [node]\<rparr>,
             l\<lparr>ls_nodes := ls_nodes l @ [node], varsFound := varsFound l + 1, internalNodes := internalNodes l + 1\<rparr>) }
     else if label = ''link_latency'' then do {
       v \<leftarrow> atoi (fst (string_split CHR '':'' varStr));
       Some (f, l\<lparr>ls_latency := v, varsFound := varsFound l + 1\<rparr>) }
     else if label = ''bw_multiplier'' then do {
       v \<leftarrow> atoi (fst (string_split CHR '':'' varStr));
       Some (f, l\<lparr>ls_bw_multiplier := v\<rparr>) }
     else if label = ''link_weight'' then do {
       v \<leftarrow> atoi (fst (string_split CHR '':'' varStr));
       Some (f, l\<lparr>ls_weight := v\<rparr>) }
     else if label = ''processors'' then do { expect_number varStr (int (g_NUM_PROCESSORS c)); Some (f, l) }
     else if label = ''bw_unit'' then do { expect_number varStr (g_endpoint_bandwidth p); Some (f, l) }
     else if label = ''procs_per_chip'' then do { expect_number varStr (int (g_PROCS_PER_CHIP c)); Some (f, l) }
     else if label = ''L2banks'' then do { expect_number varStr (int (g_NUM_L2_BANKS c)); Some (f, l) }
     else if label = ''memories'' then do { expect_number varStr (int (g_NUM_MEMORIES c)); Some (f, l) }
     else None })"

lemma string_split_shorter: "string_split ch xs = (h, t) \<Longrightarrow> h \<noteq> [] \<Longrightarrow> length t < length xs"
proof -
  have le: "length (snd (string_split ch ys)) \<le> length ys" for ys by (induction ys) (auto split: prod.splits)
  show "string_split ch xs = (h, t) \<Longrightarrow> h \<noteq> [] \<Longrightarrow> length t < length xs"
    using le [of "tl xs"] by (cases xs) (auto split: prod.splits if_splits)
qed

function parse_vars :: "net_machines \<Rightarrow> net_params \<Rightarrow> ruby_config \<Rightarrow> nat \<Rightarrow> string \<Rightarrow> file_state \<times> line_state \<Rightarrow> (file_state \<times> line_state) option" where
  "parse_vars nm p c nodes line s =
     (if fst (string_split CHR '' '' line) = [] then Some s
      else parse_var nm p c nodes (fst (string_split CHR '' '' line)) s \<bind> parse_vars nm p c nodes (snd (string_split CHR '' '' line)))"
  by pat_completeness auto
termination
  by (relation "measure (\<lambda>(nm, p, c, nodes, line, s). length line)") (auto intro: string_split_shorter [OF prod.collapse [symmetric]])

declare parse_vars.simps [simp del]

definition parse_line :: "net_machines \<Rightarrow> net_params \<Rightarrow> ruby_config \<Rightarrow> nat \<Rightarrow> string \<Rightarrow> file_state \<Rightarrow> file_state option" where
  "parse_line nm p c nodes line f = do {
     (f1, l) \<leftarrow> parse_vars nm p c nodes line (f, line_start);
     if varsFound l = 3 then do {
       check (length (ls_nodes l) = 2);
       let n0 = ls_nodes l ! 0;
       let n1 = ls_nodes l ! 1;
       let weight = (if ls_weight l \<noteq> -1 then ls_weight l else ls_latency l);
       let back_to = (if internalNodes l = 2 then n0 else n0 + nodes);
       Some (f1\<lparr>fs_links := fs_links f1 @ [(n0, n1, ls_latency l, ls_bw_multiplier l, weight),
                                           (n1, back_to, ls_latency l, ls_bw_multiplier l, weight)]\<rparr>) }
     else do { check (varsFound l = 0); Some f1 } }"

definition makeFileSpecified :: "net_machines \<Rightarrow> net_params \<Rightarrow> ruby_config \<Rightarrow> topology \<Rightarrow> topology option" where
  "makeFileSpecified nm p c t = do {
     content \<leftarrow> network_file p;
     f \<leftarrow> fold_opt (parse_line nm p c (m_nodes t)) (file_lines content)
       \<lparr>fs_connected = replicate (m_nodes t) False, fs_switches = m_number_of_switches t, int_network_switches = [], fs_links = []\<rparr>;
     check (list_all (\<lambda>b. b) (fs_connected f));
     fold_opt (\<lambda>(src, dest, lat, bw, weight). addLink_weight src dest lat bw weight) (fs_links f)
       (t\<lparr>m_number_of_switches := fs_switches f\<rparr>) }"

subsection \<open>The constructor\<close>

definition topology_empty :: "nat \<Rightarrow> topology" where
  "topology_empty number_of_nodes = \<lparr>m_nodes = number_of_nodes, m_number_of_switches = 0, m_links_src_vector = [],
     m_links_dest_vector = [], m_links_latency_vector = [], m_links_weight_vector = [], m_bw_multiplier_vector = [],
     m_component_latencies = [], m_component_inter_switches = []\<rparr>"

definition topology_init :: "net_machines \<Rightarrow> net_params \<Rightarrow> ruby_config \<Rightarrow> topology \<Rightarrow> topology option" where
  "topology_init nm p c t =
     (if m_nodes t = 1 then do {
        let (s, t1) = newSwitchID t;
        t2 \<leftarrow> addLink 0 s (NETWORK_LINK_LATENCY p) t1;
        addLink s 1 (NETWORK_LINK_LATENCY p) t2 }
      else do {
        topology \<leftarrow> string_to_TopologyType (g_NETWORK_TOPOLOGY p);
        t1 \<leftarrow> (case topology of
            TORUS_2D \<Rightarrow> make2DTorus nm p c t
          | HIERARCHICAL_SWITCH \<Rightarrow> makeHierarchicalSwitch p (FAN_OUT_DEGREE p) t
          | CROSSBAR \<Rightarrow> makeHierarchicalSwitch p 1024 t
          | PT_TO_PT \<Rightarrow> makePtToPt nm p c t
          | FILE_SPECIFIED \<Rightarrow> makeFileSpecified nm p c t);
        Some (t1\<lparr>m_component_latencies := [], m_component_inter_switches := []\<rparr>) })"

definition topology_new :: "net_machines \<Rightarrow> net_params \<Rightarrow> ruby_config \<Rightarrow> nat \<Rightarrow> topology option" where
  "topology_new nm p c number_of_nodes = topology_init nm p c (topology_empty number_of_nodes)"

subsection \<open>Links and routes\<close>

datatype net_link =
    InLink nat nat net_dest int int
  | OutLink nat nat net_dest int int int
  | InternalLink nat nat net_dest int int int

definition makeLink :: "nat \<Rightarrow> nat \<Rightarrow> nat \<Rightarrow> net_dest \<Rightarrow> int \<Rightarrow> int \<Rightarrow> int \<Rightarrow> net_link option" where
  "makeLink nodes src dest routing_table_entry link_latency link_weight bw_multiplier = do {
     check (2 * nodes \<le> src \<or> 2 * nodes \<le> dest);
     if src < nodes then Some (InLink src (dest - 2 * nodes) routing_table_entry link_latency bw_multiplier)
     else if dest < 2 * nodes then do {
       check (nodes \<le> dest);
       Some (OutLink (src - 2 * nodes) (dest - nodes) routing_table_entry link_latency link_weight bw_multiplier) }
     else do {
       check (2 * nodes \<le> src \<and> 2 * nodes \<le> dest);
       Some (InternalLink (src - 2 * nodes) (dest - 2 * nodes) routing_table_entry link_latency link_weight bw_multiplier) } }"

definition machine_list :: "machine_types \<Rightarrow> machine_id list" where
  "machine_list mt = concat (map (\<lambda>m. map (\<lambda>i. \<lparr>mach_type = m, mach_num = i\<rparr>) [0..<MachineType_base_count mt m]) [0..<MachineType_NUM mt])"

definition route_machine :: "machine_types \<Rightarrow> nat \<Rightarrow> nat \<Rightarrow> matrix \<Rightarrow> matrix \<Rightarrow> machine_id \<Rightarrow> nat \<times> net_dest \<Rightarrow> (nat \<times> net_dest) option" where
  "route_machine mt src next weights dist mach = (\<lambda>(d, result). do {
     b \<leftarrow> link_is_shortest_path_to_node src next (d + MachineType_base_number mt (MachineType_NUM mt)) weights dist;
     result' \<leftarrow> (if b then nd_add mt mach result else Some result);
     Some (d + 1, result') })"

definition shortest_path_to_node :: "machine_types \<Rightarrow> nat \<Rightarrow> nat \<Rightarrow> matrix \<Rightarrow> matrix \<Rightarrow> net_dest option" where
  "shortest_path_to_node mt src next weights dist = do {
     result \<leftarrow> nd_new mt;
     (_, result') \<leftarrow> fold_opt (route_machine mt src next weights dist) (machine_list mt) (0, result);
     Some result' }"

definition max_switch_id :: "topology \<Rightarrow> nat" where
  "max_switch_id t = fold max (map2 max (m_links_src_vector t) (m_links_dest_vector t)) 0"

definition fill_matrix :: "topology \<Rightarrow> (topology \<Rightarrow> int list) \<Rightarrow> matrix \<Rightarrow> matrix option" where
  "fill_matrix t vals = fold_opt (\<lambda>i m. do { check (i < length (vals t)); mat_put m (m_links_src_vector t ! i) (m_links_dest_vector t ! i) (vals t ! i) })
     [0..<length (m_links_src_vector t)]"

definition const_matrix :: "nat \<Rightarrow> int \<Rightarrow> matrix" where
  "const_matrix n x = replicate n (replicate n x)"

definition clear_diagonal :: "nat \<Rightarrow> matrix \<Rightarrow> matrix option" where
  "clear_diagonal n = fold_opt (\<lambda>i m. mat_put m i i 0) [0..<n]"

definition create_link :: "machine_types \<Rightarrow> nat \<Rightarrow> matrix \<Rightarrow> matrix \<Rightarrow> matrix \<Rightarrow> matrix \<Rightarrow> nat \<times> nat \<Rightarrow> net_link list \<Rightarrow> net_link list option" where
  "create_link mt nodes weights lats bws dist = (\<lambda>(i, j) links. do {
     weight \<leftarrow> mat_at weights i j;
     bw_multiplier \<leftarrow> mat_at bws i j;
     latency \<leftarrow> mat_at lats i j;
     if 0 < weight \<and> weight \<noteq> INFINITE_LATENCY then do {
       destination_set \<leftarrow> shortest_path_to_node mt i j weights dist;
       check (latency \<noteq> -1);
       l \<leftarrow> makeLink nodes i j destination_set latency weight bw_multiplier;
       Some (links @ [l]) }
     else Some links })"

definition createLinks :: "machine_types \<Rightarrow> topology \<Rightarrow> (net_link list \<times> topology) option" where
  "createLinks mt t = do {
     let num_switches = max_switch_id t + 1;
     w0 \<leftarrow> clear_diagonal num_switches (const_matrix num_switches INFINITE_LATENCY);
     topology_weights \<leftarrow> fill_matrix t m_links_weight_vector w0;
     topology_latency \<leftarrow> fill_matrix t m_links_latency_vector (const_matrix num_switches (-1));
     component_latencies \<leftarrow> fill_matrix t m_links_latency_vector (const_matrix num_switches (-1));
     topology_bw_multis \<leftarrow> fill_matrix t m_bw_multiplier_vector (const_matrix num_switches (-1));
     (dist, lats, switches) \<leftarrow> shortest_path topology_weights component_latencies (const_matrix num_switches 0);
     links \<leftarrow> fold_opt (create_link mt (m_nodes t) topology_weights topology_latency topology_bw_multis dist)
       (List.product [0..<num_switches] [0..<num_switches]) [];
     Some (links, t\<lparr>m_component_latencies := lats, m_component_inter_switches := switches\<rparr>) }"

end
