(* ===== verification/Net_Routing.thy ===== *)
theory Net_Routing
  imports Net_Topology
begin

text \<open>
  What \<^verbatim>\<open>Topology::createLinks\<close> promises: for any topology of legal links it makes the links without failing an
  assertion, and the routing table entries it hands to the switches lead every message to its destination,
  over links of least total weight.
\<close>

subsection \<open>The matrices\<close>

lemma const_matrix_ok: "square n (const_matrix n x)" "i < n \<Longrightarrow> j < n \<Longrightarrow> entry (const_matrix n x) i j = x"
  by (auto simp: const_matrix_def square_def entry_def)

lemma clear_diagonal_ok:
  assumes "square n m"
  shows "\<exists>m'. clear_diagonal n m = Some m' \<and> square n m' \<and>
    (\<forall>i < n. \<forall>j < n. entry m' i j = (if i = j then 0 else entry m i j))"
proof -
  have "set is \<subseteq> {..<n} \<Longrightarrow> square n m \<Longrightarrow> \<exists>m'. fold_opt (\<lambda>i m. mat_put m i i 0) is m = Some m' \<and> square n m' \<and>
    (\<forall>i < n. \<forall>j < n. entry m' i j = (if i = j \<and> i \<in> set is then 0 else entry m i j))" for "is" m
  proof (induction "is" arbitrary: m)
    case (Cons a as)
    have a: "a < n" using Cons.prems by simp
    obtain m1 where m1: "mat_put m a a 0 = Some m1" "square n m1"
      "\<forall>i < n. \<forall>j < n. entry m1 i j = (if i = a \<and> j = a then 0 else entry m i j)" using mat_put_ok [OF Cons.prems(2) a a] by blast
    with Cons.IH [OF _ m1(2)] Cons.prems(1) show ?case by fastforce
  qed simp
  from this [of "[0..<n]" m] assms show ?thesis by (simp add: clear_diagonal_def atLeast0LessThan)
qed

definition link_map :: "topology \<Rightarrow> (topology \<Rightarrow> int list) \<Rightarrow> nat \<times> nat \<Rightarrow> int option" where
  "link_map t vals = map_of (rev (zip (zip (m_links_src_vector t) (m_links_dest_vector t)) (vals t)))"

lemma fill_matrix_ok:
  assumes len: "length (m_links_dest_vector t) = length (m_links_src_vector t)" "length (vals t) = length (m_links_src_vector t)"
    and range: "set (m_links_src_vector t) \<subseteq> {..<n}" "set (m_links_dest_vector t) \<subseteq> {..<n}" and sq: "square n m"
  shows "\<exists>m'. fill_matrix t vals m = Some m' \<and> square n m' \<and>
    (\<forall>i < n. \<forall>j < n. entry m' i j = (case link_map t vals (i, j) of Some v \<Rightarrow> v | None \<Rightarrow> entry m i j))"
proof -
  let ?s = "m_links_src_vector t" and ?d = "m_links_dest_vector t" and ?v = "vals t"
  let ?f = "\<lambda>i m. do { check (i < length ?v); mat_put m (?s ! i) (?d ! i) (?v ! i) }"
  have "k \<le> length ?s \<Longrightarrow> \<exists>m'. fold_opt ?f [0..<k] m = Some m' \<and> square n m' \<and>
    (\<forall>i < n. \<forall>j < n. entry m' i j = (case map_of (rev (take k (zip (zip ?s ?d) ?v))) (i, j) of Some v \<Rightarrow> v | None \<Rightarrow> entry m i j))" for k
  proof (induction k)
    case (Suc k)
    then obtain m1 where m1: "fold_opt ?f [0..<k] m = Some m1" "square n m1"
      "\<forall>i < n. \<forall>j < n. entry m1 i j = (case map_of (rev (take k (zip (zip ?s ?d) ?v))) (i, j) of Some v \<Rightarrow> v | None \<Rightarrow> entry m i j)" by auto
    have "?s ! k \<in> set ?s" "?d ! k \<in> set ?d" using Suc.prems len by auto
    then have "?s ! k < n" "?d ! k < n" using range by auto
    from mat_put_ok [OF m1(2) this, of "?v ! k"] obtain m2 where m2: "mat_put m1 (?s ! k) (?d ! k) (?v ! k) = Some m2" "square n m2"
      "\<forall>a < n. \<forall>b < n. entry m2 a b = (if a = ?s ! k \<and> b = ?d ! k then ?v ! k else entry m1 a b)" by blast
    have "take (Suc k) (zip (zip ?s ?d) ?v) = take k (zip (zip ?s ?d) ?v) @ [((?s ! k, ?d ! k), ?v ! k)]"
      using Suc.prems len by (simp add: take_Suc_conv_app_nth)
    moreover have "[0..<Suc k] = [0..<k] @ [k]" by simp
    ultimately show ?case using m1 m2 Suc.prems len by (simp add: fold_opt_append check_bind del: upt_Suc)
  qed (use sq in simp)
  from this [of "length ?s"] len show ?thesis by (simp add: fill_matrix_def link_map_def)
qed

lemma fold_max_ge: "(x :: nat) \<in> set xs \<or> x \<le> a \<Longrightarrow> x \<le> fold max xs a"
  by (induction xs arbitrary: a) fastforce+

lemma max_switch_id_ge:
  assumes "length (m_links_dest_vector t) = length (m_links_src_vector t)"
  shows "set (m_links_src_vector t) \<subseteq> {..<max_switch_id t + 1}" "set (m_links_dest_vector t) \<subseteq> {..<max_switch_id t + 1}"
proof -
  have "m_links_src_vector t ! k \<le> max_switch_id t" "m_links_dest_vector t ! k \<le> max_switch_id t" if "k < length (m_links_src_vector t)" for k
  proof -
    have "max (m_links_src_vector t ! k) (m_links_dest_vector t ! k) \<in> set (map2 max (m_links_src_vector t) (m_links_dest_vector t))"
      using that assms by (auto simp: set_zip intro!: image_eqI)
    from fold_max_ge [OF disjI1 [OF this], of 0] show "m_links_src_vector t ! k \<le> max_switch_id t" "m_links_dest_vector t ! k \<le> max_switch_id t"
      by (auto simp: max_switch_id_def)
  qed
  then show "set (m_links_src_vector t) \<subseteq> {..<max_switch_id t + 1}" "set (m_links_dest_vector t) \<subseteq> {..<max_switch_id t + 1}"
    using assms by (auto simp: in_set_conv_nth less_Suc_eq_le)
qed

subsection \<open>Destinations\<close>

definition net_types_ok :: "machine_types \<Rightarrow> bool" where
  "net_types_ok mt \<longleftrightarrow> machine_types_ok mt \<and>
     MachineType_base_number mt (MachineType_NUM mt) = sum_list (map (MachineType_base_count mt) [0..<MachineType_NUM mt])"

text \<open>The switch number of the network's output to a machine.\<close>

definition machine_number :: "machine_types \<Rightarrow> machine_id \<Rightarrow> nat" where
  "machine_number mt m = MachineType_base_number mt (mach_type m) + mach_num m"

definition dest_switch :: "machine_types \<Rightarrow> machine_id \<Rightarrow> nat" where
  "dest_switch mt m = MachineType_base_number mt (MachineType_NUM mt) + machine_number mt m"

lemma concat_map_upt_nth:
  "t < n \<Longrightarrow> i < length (f t) \<Longrightarrow> concat (map f [0..<n]) ! (sum_list (map (\<lambda>k. length (f k)) [0..<t]) + i) = f t ! i \<and>
     sum_list (map (\<lambda>k. length (f k)) [0..<t]) + i < length (concat (map f [0..<n]))"
proof (induction n)
  case (Suc n)
  show ?case
  proof (cases "t = n")
    case True
    then show ?thesis using Suc.prems by (simp add: nth_append length_concat comp_def)
  qed (use Suc in \<open>simp add: nth_append\<close>)
qed simp

lemma machine_list_nth:
  assumes "net_types_ok mt" "m \<in> nd_machines mt"
  shows "machine_list mt ! machine_number mt m = m \<and> machine_number mt m < length (machine_list mt)"
proof -
  let ?f = "\<lambda>m. map (\<lambda>i. \<lparr>mach_type = m, mach_num = i\<rparr>) [0..<MachineType_base_count mt m]"
  have t: "mach_type m < MachineType_NUM mt" "mach_num m < length (?f (mach_type m))"
    and b: "MachineType_base_number mt (mach_type m) = sum_list (map (\<lambda>k. length (?f k)) [0..<mach_type m])"
    using assms by (auto simp: nd_machines_def net_types_ok_def machine_types_ok_def)
  from concat_map_upt_nth [of _ _ _ ?f, OF t] t(2) show ?thesis by (simp add: machine_list_def machine_number_def b)
qed

lemma machine_list_length: "net_types_ok mt \<Longrightarrow> length (machine_list mt) = MachineType_base_number mt (MachineType_NUM mt)"
  by (simp add: machine_list_def net_types_ok_def length_concat comp_def)

lemma machine_list_distinct: "distinct (machine_list mt)" and machine_list_set: "set (machine_list mt) = nd_machines mt"
proof -
  have "distinct (concat (map (\<lambda>m. map (\<lambda>i. \<lparr>mach_type = m, mach_num = i\<rparr>) [0..<f m]) [0..<n]))" for f n
    by (induction n) (auto simp: distinct_map inj_on_def)
  then show "distinct (machine_list mt)" by (simp add: machine_list_def)
  show "set (machine_list mt) = nd_machines mt"
    by (auto simp: machine_list_def nd_machines_def machine_eq image_iff)
qed

text \<open>The routing entry of a link holds the machines to which the link is on a shortest path.\<close>

lemma shortest_path_to_node_ok:
  assumes mt: "net_types_ok mt" and sq: "square n weights" "square n dist" and r: "src < n" "next < n"
    and outs: "2 * MachineType_base_number mt (MachineType_NUM mt) \<le> n"
  shows "\<exists>rt. shortest_path_to_node mt src next weights dist = Some rt \<and> nd_inv mt rt \<and>
    nd_elems rt = {m \<in> nd_machines mt. entry weights src next + entry dist next (dest_switch mt m) = entry dist src (dest_switch mt m)}"
proof -
  let ?N = "MachineType_base_number mt (MachineType_NUM mt)" and ?ms = "machine_list mt"
  let ?on = "\<lambda>d. entry weights src next + entry dist next (d + ?N) = entry dist src (d + ?N)"
  obtain r0 where r0: "nd_new mt = Some r0" "nd_inv mt r0" "nd_elems r0 = {}" using nd_new_ok mt by (metis net_types_ok_def)
  have "k \<le> length ?ms \<Longrightarrow> \<exists>rt. fold_opt (route_machine mt src next weights dist) (take k ?ms) (0, r0) = Some (k, rt) \<and>
     nd_inv mt rt \<and> nd_elems rt = {?ms ! d |d. d < k \<and> ?on d}" for k
  proof (induction k)
    case (Suc k)
    then obtain rt where rt: "fold_opt (route_machine mt src next weights dist) (take k ?ms) (0, r0) = Some (k, rt)"
      "nd_inv mt rt" "nd_elems rt = {?ms ! d |d. d < k \<and> ?on d}" by auto
    have "?ms ! k \<in> nd_machines mt" using Suc.prems by (simp flip: machine_list_set)
    from nd_add_ok [OF rt(2) this] obtain rt' where add: "nd_add mt (?ms ! k) rt = Some rt'" "nd_inv mt rt'"
      "nd_elems rt' = insert (?ms ! k) (nd_elems rt)" by blast
    have "k + ?N < n" using Suc.prems outs machine_list_length [OF mt] by simp
    then have link: "link_is_shortest_path_to_node src next (k + ?N) weights dist = Some (?on k)"
      using link_is_shortest_ok [OF sq r] by simp
    have "{?ms ! d |d. d < Suc k \<and> ?on d} = (if ?on k then insert (?ms ! k) (nd_elems rt) else nd_elems rt)"
      unfolding rt(3) by (auto simp: less_Suc_eq)
    moreover have "take (Suc k) ?ms = take k ?ms @ [?ms ! k]" using Suc.prems by (simp add: take_Suc_conv_app_nth)
    moreover have "route_machine mt src next weights dist (?ms ! k) (k, rt) = Some (Suc k, if ?on k then rt' else rt)"
      by (simp add: route_machine_def link add(1))
    ultimately show ?case using rt(1,2) add(2,3) by (simp add: fold_opt_append)
  qed (use r0 in simp)
  from this [of "length ?ms"] obtain rt where rt: "fold_opt (route_machine mt src next weights dist) ?ms (0, r0) = Some (length ?ms, rt)"
    "nd_inv mt rt" "nd_elems rt = {?ms ! d |d. d < length ?ms \<and> ?on d}" by auto
  have "nd_elems rt = {m \<in> nd_machines mt. entry weights src next + entry dist next (dest_switch mt m) = entry dist src (dest_switch mt m)}"
  proof (intro set_eqI iffI)
    fix m assume "m \<in> nd_elems rt"
    then obtain d where d: "m = ?ms ! d" "d < length ?ms" "?on d" using rt(3) by auto
    then have m: "m \<in> nd_machines mt" by (simp flip: machine_list_set)
    from machine_list_nth [OF mt m] d have "machine_number mt m = d" using nth_eq_iff_index_eq [OF machine_list_distinct] by metis
    then show "m \<in> {m \<in> nd_machines mt. entry weights src next + entry dist next (dest_switch mt m) = entry dist src (dest_switch mt m)}"
      using d m by (simp add: dest_switch_def add.commute)
  next
    fix m assume "m \<in> {m \<in> nd_machines mt. entry weights src next + entry dist next (dest_switch mt m) = entry dist src (dest_switch mt m)}"
    then show "m \<in> nd_elems rt" using machine_list_nth [OF mt, of m] rt(3) by (force simp: dest_switch_def add.commute)
  qed
  then show ?thesis using r0 rt by (simp add: shortest_path_to_node_def)
qed

subsection \<open>Legal topologies\<close>

definition legal_link :: "nat \<Rightarrow> nat \<Rightarrow> nat \<Rightarrow> int \<Rightarrow> int \<Rightarrow> bool" where
  "legal_link n src dest lat weight \<longleftrightarrow> (src < n \<and> 2 * n \<le> dest \<or> 2 * n \<le> src \<and> n \<le> dest) \<and> src \<noteq> dest \<and>
     0 < weight \<and> weight < INFINITE_LATENCY \<and> 0 \<le> lat"

text \<open>Links start at an endpoint's input or at a switch and end at a switch or at an endpoint's output, and every
  output has a link.\<close>

definition topology_ok :: "topology \<Rightarrow> bool" where
  "topology_ok t \<longleftrightarrow> 0 < m_nodes t \<and> length (m_links_dest_vector t) = length (m_links_src_vector t) \<and>
     length (m_links_latency_vector t) = length (m_links_src_vector t) \<and> length (m_links_weight_vector t) = length (m_links_src_vector t) \<and>
     length (m_bw_multiplier_vector t) = length (m_links_src_vector t) \<and>
     {m_nodes t..<2 * m_nodes t} \<subseteq> set (m_links_dest_vector t) \<and>
     (\<forall>k < length (m_links_src_vector t). legal_link (m_nodes t) (m_links_src_vector t ! k) (m_links_dest_vector t ! k)
        (m_links_latency_vector t ! k) (m_links_weight_vector t ! k))"

definition links_of :: "topology \<Rightarrow> (nat \<times> nat) set" where
  "links_of t = set (zip (m_links_src_vector t) (m_links_dest_vector t))"

text \<open>The weight of a pair of switches; a link that is added twice has the weight of the later one.\<close>

definition topo_weight :: "topology \<Rightarrow> nat \<Rightarrow> nat \<Rightarrow> int" where
  "topo_weight t i j = (case link_map t m_links_weight_vector (i, j) of Some v \<Rightarrow> v | None \<Rightarrow> if i = j then 0 else INFINITE_LATENCY)"

lemma link_map_Some:
  "link_map t vals (i, j) = Some v \<Longrightarrow>
     \<exists>k. k < length (m_links_src_vector t) \<and> m_links_src_vector t ! k = i \<and> m_links_dest_vector t ! k = j \<and> vals t ! k = v"
  by (auto simp: link_map_def set_zip dest!: map_of_SomeD) blast

lemma link_map_dom:
  assumes "topology_ok t" "length (vals t) = length (m_links_src_vector t)"
  shows "link_map t vals (i, j) \<noteq> None \<longleftrightarrow> (i, j) \<in> links_of t"
proof -
  have "map fst (zip (zip (m_links_src_vector t) (m_links_dest_vector t)) (vals t)) = zip (m_links_src_vector t) (m_links_dest_vector t)"
    using assms by (simp add: topology_ok_def)
  then show ?thesis by (simp add: link_map_def links_of_def map_of_eq_None_iff flip: set_map)
qed

lemma weight_map_dom:
  assumes "topology_ok t"
  shows "link_map t m_links_weight_vector (i, j) = None \<longleftrightarrow> (i, j) \<notin> links_of t"
proof -
  have "length (m_links_weight_vector t) = length (m_links_src_vector t)" using assms by (simp add: topology_ok_def)
  with link_map_dom [OF assms, of m_links_weight_vector] show ?thesis by blast
qed

lemma topo_link:
  assumes "topology_ok t" "(i, j) \<in> links_of t"
  shows "0 < topo_weight t i j" "topo_weight t i j < INFINITE_LATENCY" "i \<noteq> j" "i < max_switch_id t + 1" "j < max_switch_id t + 1"
    "i < m_nodes t \<and> 2 * m_nodes t \<le> j \<or> 2 * m_nodes t \<le> i \<and> m_nodes t \<le> j"
proof -
  obtain v where v: "link_map t m_links_weight_vector (i, j) = Some v" using weight_map_dom [OF assms(1), of i j] assms(2) by auto
  from link_map_Some [OF this] obtain k where k: "k < length (m_links_src_vector t)" "m_links_src_vector t ! k = i"
    "m_links_dest_vector t ! k = j" "m_links_weight_vector t ! k = v" by blast
  then have l: "legal_link (m_nodes t) i j (m_links_latency_vector t ! k) v" using assms(1) by (auto simp: topology_ok_def)
  then show "0 < topo_weight t i j" "topo_weight t i j < INFINITE_LATENCY" "i \<noteq> j"
    "i < m_nodes t \<and> 2 * m_nodes t \<le> j \<or> 2 * m_nodes t \<le> i \<and> m_nodes t \<le> j" using v by (auto simp: topo_weight_def legal_link_def)
  have len: "length (m_links_dest_vector t) = length (m_links_src_vector t)" using assms(1) by (simp add: topology_ok_def)
  show "i < max_switch_id t + 1" "j < max_switch_id t + 1"
    using max_switch_id_ge [OF len] assms(2) by (auto simp: links_of_def dest: set_zip_leftD set_zip_rightD)
qed

lemma topo_weight_nonlink:
  assumes "topology_ok t" "(i, j) \<notin> links_of t"
  shows "topo_weight t i j = (if i = j then 0 else INFINITE_LATENCY)"
proof -
  have "link_map t m_links_weight_vector (i, j) = None" using weight_map_dom [OF assms(1)] assms(2) by simp
  then show ?thesis by (simp add: topo_weight_def)
qed

lemma topo_weight_cases:
  assumes "topology_ok t"
  shows "0 \<le> topo_weight t i j" "topo_weight t i i = 0" "i \<noteq> j \<Longrightarrow> 0 < topo_weight t i j"
    "0 < topo_weight t i j \<and> topo_weight t i j \<noteq> INFINITE_LATENCY \<longleftrightarrow> (i, j) \<in> links_of t"
    "i \<noteq> j \<Longrightarrow> topo_weight t i j < INFINITE_LATENCY \<longleftrightarrow> (i, j) \<in> links_of t"
proof -
  show "topo_weight t i i = 0" using topo_link(3) [OF assms, of i i] topo_weight_nonlink [OF assms, of i i] by auto
  note w = topo_link(1,2) [OF assms, of i j] topo_weight_nonlink [OF assms, of i j]
  show "0 \<le> topo_weight t i j" "i \<noteq> j \<Longrightarrow> 0 < topo_weight t i j"
    using w by (cases "(i, j) \<in> links_of t"; force simp: INFINITE_LATENCY_def)+
  show "0 < topo_weight t i j \<and> topo_weight t i j \<noteq> INFINITE_LATENCY \<longleftrightarrow> (i, j) \<in> links_of t"
    using w by (cases "(i, j) \<in> links_of t") auto
  show "topo_weight t i j < INFINITE_LATENCY \<longleftrightarrow> (i, j) \<in> links_of t" if "i \<noteq> j"
    using w that by (cases "(i, j) \<in> links_of t") auto
qed

subsection \<open>The links that are made\<close>

fun link_ends :: "nat \<Rightarrow> net_link \<Rightarrow> nat \<times> nat \<times> net_dest" where
  "link_ends n (InLink src dest rt lat bw) = (src, dest + 2 * n, rt)"
| "link_ends n (OutLink src dest rt lat weight bw) = (src + 2 * n, dest + n, rt)"
| "link_ends n (InternalLink src dest rt lat weight bw) = (src + 2 * n, dest + 2 * n, rt)"

lemma makeLink_ok:
  assumes "i < n \<and> 2 * n \<le> j \<or> 2 * n \<le> i \<and> n \<le> j"
  shows "\<exists>l. makeLink n i j rt lat weight bw = Some l \<and> link_ends n l = (i, j, rt)"
  using assms by (auto simp: makeLink_def check_bind)

text \<open>A switch at \<open>x\<close> may forward a message for machine \<open>m\<close> to \<open>y\<close>.\<close>

definition forwards :: "nat \<Rightarrow> net_link list \<Rightarrow> machine_id \<Rightarrow> nat \<Rightarrow> nat \<Rightarrow> bool" where
  "forwards n links m x y \<longleftrightarrow> (\<exists>l \<in> set links. \<exists>rt. link_ends n l = (x, y, rt) \<and> m \<in> nd_elems rt)"

lemma create_links_ok:
  assumes t: "topology_ok t" and sq: "square n weights" "square n lats" "square n bws"
    and w: "\<And>i j. i < n \<Longrightarrow> j < n \<Longrightarrow> entry weights i j = topo_weight t i j"
    and l: "\<And>i j. i < n \<Longrightarrow> j < n \<Longrightarrow> (i, j) \<in> links_of t \<Longrightarrow> entry lats i j \<noteq> -1"
    and rt: "\<And>i j. i < n \<Longrightarrow> j < n \<Longrightarrow> shortest_path_to_node mt i j weights dist = Some (rt i j)"
  shows "set ps \<subseteq> {..<n} \<times> {..<n} \<Longrightarrow>
    \<exists>links. fold_opt (create_link mt (m_nodes t) weights lats bws dist) ps acc = Some links \<and>
      link_ends (m_nodes t) ` set links = link_ends (m_nodes t) ` set acc \<union> (\<lambda>(i, j). (i, j, rt i j)) ` (set ps \<inter> links_of t)"
proof (induction ps arbitrary: acc)
  case (Cons ij ps)
  obtain i j where ij: "ij = (i, j)" "i < n" "j < n" using Cons.prems by (cases ij) auto
  have at: "mat_at weights i j = Some (topo_weight t i j)" "mat_at bws i j = Some (entry bws i j)" "mat_at lats i j = Some (entry lats i j)"
    using mat_at_ok sq w ij by auto
  show ?case
  proof (cases "(i, j) \<in> links_of t")
    case True
    from makeLink_ok [OF topo_link(6) [OF t True], of "rt i j" "entry lats i j" "topo_weight t i j" "entry bws i j"]
    obtain lk where lk: "makeLink (m_nodes t) i j (rt i j) (entry lats i j) (topo_weight t i j) (entry bws i j) = Some lk"
      "link_ends (m_nodes t) lk = (i, j, rt i j)" by blast
    have "create_link mt (m_nodes t) weights lats bws dist ij acc = Some (acc @ [lk])"
      using True topo_weight_cases(4) [OF t] at lk(1) rt ij l by (simp add: create_link_def check_bind)
    then show ?thesis using Cons.IH [of "acc @ [lk]"] Cons.prems lk(2) True ij by auto
  next
    case False
    then have "create_link mt (m_nodes t) weights lats bws dist ij acc = Some acc"
      using topo_weight_cases(4) [OF t] at ij by (auto simp: create_link_def)
    then show ?thesis using Cons.IH [of acc] Cons.prems False ij by auto
  qed
qed simp

lemma topology_matrices:
  assumes t: "topology_ok t"
  obtains w0 weights lats bws where
    "clear_diagonal (max_switch_id t + 1) (const_matrix (max_switch_id t + 1) INFINITE_LATENCY) = Some w0"
    "fill_matrix t m_links_weight_vector w0 = Some weights"
    "fill_matrix t m_links_latency_vector (const_matrix (max_switch_id t + 1) (-1)) = Some lats"
    "fill_matrix t m_bw_multiplier_vector (const_matrix (max_switch_id t + 1) (-1)) = Some bws"
    "square (max_switch_id t + 1) weights" "square (max_switch_id t + 1) lats" "square (max_switch_id t + 1) bws"
    "\<And>i j. i < max_switch_id t + 1 \<Longrightarrow> j < max_switch_id t + 1 \<Longrightarrow> entry weights i j = topo_weight t i j"
    "\<And>i j. (i, j) \<in> links_of t \<Longrightarrow> entry lats i j \<noteq> -1"
proof -
  let ?S = "max_switch_id t + 1"
  have len: "length (m_links_dest_vector t) = length (m_links_src_vector t)" "length (m_links_weight_vector t) = length (m_links_src_vector t)"
    "length (m_links_latency_vector t) = length (m_links_src_vector t)" "length (m_bw_multiplier_vector t) = length (m_links_src_vector t)"
    using t by (simp_all add: topology_ok_def)
  note r = max_switch_id_ge [OF len(1)]
  obtain w0 where w0: "clear_diagonal ?S (const_matrix ?S INFINITE_LATENCY) = Some w0" "square ?S w0"
    "\<forall>i < ?S. \<forall>j < ?S. entry w0 i j = (if i = j then 0 else entry (const_matrix ?S INFINITE_LATENCY) i j)"
    using clear_diagonal_ok [OF const_matrix_ok(1)] by blast
  obtain weights where ws: "fill_matrix t m_links_weight_vector w0 = Some weights" "square ?S weights"
    "\<forall>i < ?S. \<forall>j < ?S. entry weights i j = (case link_map t m_links_weight_vector (i, j) of Some v \<Rightarrow> v | None \<Rightarrow> entry w0 i j)"
    using fill_matrix_ok [of t m_links_weight_vector, OF len(1,2) r w0(2)] by blast
  obtain lats where ls: "fill_matrix t m_links_latency_vector (const_matrix ?S (-1)) = Some lats" "square ?S lats"
    "\<forall>i < ?S. \<forall>j < ?S. entry lats i j = (case link_map t m_links_latency_vector (i, j) of Some v \<Rightarrow> v | None \<Rightarrow> entry (const_matrix ?S (-1)) i j)"
    using fill_matrix_ok [of t m_links_latency_vector, OF len(1,3) r const_matrix_ok(1)] by blast
  obtain bws where bs: "fill_matrix t m_bw_multiplier_vector (const_matrix ?S (-1)) = Some bws" "square ?S bws"
    using fill_matrix_ok [of t m_bw_multiplier_vector, OF len(1,4) r const_matrix_ok(1)] by blast
  have w: "entry weights i j = topo_weight t i j" if "i < ?S" "j < ?S" for i j
  proof -
    have "entry weights i j = (case link_map t m_links_weight_vector (i, j) of Some v \<Rightarrow> v | None \<Rightarrow> entry w0 i j)" using ws(3) that by blast
    moreover have "entry w0 i j = (if i = j then 0 else INFINITE_LATENCY)" using w0(3) that const_matrix_ok(2) [OF that] by auto
    ultimately show ?thesis by (simp add: topo_weight_def cong: option.case_cong)
  qed
  have l: "entry lats i j \<noteq> -1" if ij: "(i, j) \<in> links_of t" for i j
  proof -
    obtain v where v: "link_map t m_links_latency_vector (i, j) = Some v"
      using link_map_dom [OF t, of m_links_latency_vector i j] len ij by auto
    from link_map_Some [OF this] have "0 \<le> v" using t by (auto simp: topology_ok_def legal_link_def)
    moreover have "entry lats i j = v" using ls(3) v topo_link(4,5) [OF t ij] by simp
    ultimately show ?thesis by simp
  qed
  show thesis using that w0(1) ws(1,2) ls(1,2) bs w l by blast
qed

lemma outputs_in_range:
  assumes "topology_ok t"
  shows "2 * m_nodes t \<le> max_switch_id t + 1"
proof -
  have len: "length (m_links_dest_vector t) = length (m_links_src_vector t)" using assms by (simp add: topology_ok_def)
  have "2 * m_nodes t - 1 \<in> set (m_links_dest_vector t)" using assms by (auto simp: topology_ok_def)
  then have "2 * m_nodes t - 1 < max_switch_id t + 1" using max_switch_id_ge(2) [OF len] by blast
  then show ?thesis by linarith
qed

lemma createLinks_ok:
  assumes mt: "net_types_ok mt" and t: "topology_ok t" "m_nodes t = MachineType_base_number mt (MachineType_NUM mt)"
  shows "\<exists>links lats sw dist. createLinks mt t = Some (links, t\<lparr>m_component_latencies := lats, m_component_inter_switches := sw\<rparr>) \<and>
    (\<forall>i < max_switch_id t + 1. \<forall>j < max_switch_id t + 1. least_weight (max_switch_id t + 1) (topo_weight t) i j (dist i j)) \<and>
    (\<forall>m \<in> nd_machines mt. \<forall>x y. forwards (m_nodes t) links m x y \<longleftrightarrow>
       (x, y) \<in> links_of t \<and> topo_weight t x y + dist y (dest_switch mt m) = dist x (dest_switch mt m))"
proof -
  let ?S = "max_switch_id t + 1"
  obtain w0 weights lats bws where m: "clear_diagonal ?S (const_matrix ?S INFINITE_LATENCY) = Some w0"
    "fill_matrix t m_links_weight_vector w0 = Some weights" "fill_matrix t m_links_latency_vector (const_matrix ?S (-1)) = Some lats"
    "fill_matrix t m_bw_multiplier_vector (const_matrix ?S (-1)) = Some bws"
    and sq: "square ?S weights" "square ?S lats" "square ?S bws"
    and w: "\<And>i j. i < ?S \<Longrightarrow> j < ?S \<Longrightarrow> entry weights i j = topo_weight t i j" and l: "\<And>i j. (i, j) \<in> links_of t \<Longrightarrow> entry lats i j \<noteq> -1"
    using topology_matrices [OF t(1)] by blast
  have "0 \<le> x" if rx: "r \<in> set weights" "x \<in> set r" for r x
  proof -
    obtain i where i: "i < ?S" "r = weights ! i" using rx(1) sq(1) by (auto simp: square_def in_set_conv_nth)
    obtain j where "j < ?S" "x = entry weights i j" using rx(2) i square_row [OF sq(1)] by (auto simp: entry_def in_set_conv_nth)
    with i(1) show ?thesis using w topo_weight_cases(1) [OF t(1)] by simp
  qed
  then have "weights_ok ?S weights" using sq(1) by (auto simp: weights_ok_def)
  then obtain dist lat' sw where sp: "shortest_path weights lats (const_matrix ?S 0) = Some (dist, lat', sw)" "square ?S dist"
    "\<And>i j. i < ?S \<Longrightarrow> j < ?S \<Longrightarrow> least_weight ?S (entry weights) i j (entry dist i j)"
    using shortest_path_ok [OF _ sq(2) const_matrix_def] by metis
  have outs: "2 * MachineType_base_number mt (MachineType_NUM mt) \<le> ?S" using outputs_in_range [OF t(1)] t(2) by simp
  define rt where "rt i j = the (shortest_path_to_node mt i j weights dist)" for i j
  have "\<exists>r. shortest_path_to_node mt i j weights dist = Some r \<and> nd_inv mt r \<and>
      nd_elems r = {m \<in> nd_machines mt. entry weights i j + entry dist j (dest_switch mt m) = entry dist i (dest_switch mt m)}"
    if ij: "i < ?S" "j < ?S" for i j by (rule shortest_path_to_node_ok [OF mt sq(1) sp(2) ij outs])
  then have rt: "shortest_path_to_node mt i j weights dist = Some (rt i j)"
    "nd_elems (rt i j) = {m \<in> nd_machines mt. entry weights i j + entry dist j (dest_switch mt m) = entry dist i (dest_switch mt m)}"
    if "i < ?S" "j < ?S" for i j using that unfolding rt_def by (metis (no_types, lifting) option.sel)+
  have prod: "set (List.product [0..<k] [0..<k]) = {..<k} \<times> {..<k}" for k :: nat by (simp add: atLeast0LessThan)
  obtain links where
    links: "fold_opt (create_link mt (m_nodes t) weights lats bws dist) (List.product [0..<?S] [0..<?S]) [] = Some links"
    "link_ends (m_nodes t) ` set links = (\<lambda>(i, j). (i, j, rt i j)) ` (({..<?S} \<times> {..<?S}) \<inter> links_of t)"
    using create_links_ok [OF t(1) sq w l rt(1) equalityD1 [OF prod], of "[]"] unfolding prod by auto
  have ran: "(x, y) \<in> links_of t \<Longrightarrow> x < ?S \<and> y < ?S" for x y using topo_link(4,5) [OF t(1)] by blast
  have "forwards (m_nodes t) links m x y \<longleftrightarrow> (x, y) \<in> links_of t \<and> m \<in> nd_elems (rt x y)" for m x y
  proof -
    have "forwards (m_nodes t) links m x y \<longleftrightarrow> (\<exists>r. (x, y, r) \<in> link_ends (m_nodes t) ` set links \<and> m \<in> nd_elems r)"
      unfolding forwards_def image_iff by metis
    also have "\<dots> \<longleftrightarrow> (x, y) \<in> links_of t \<and> m \<in> nd_elems (rt x y)"
      unfolding links(2) using ran [of x y] by (auto simp: image_iff intro!: bexI [of _ "(x, y)"])
    finally show ?thesis .
  qed
  moreover have "m \<in> nd_elems (rt x y) \<longleftrightarrow> topo_weight t x y + entry dist y (dest_switch mt m) = entry dist x (dest_switch mt m)"
    if "(x, y) \<in> links_of t" "m \<in> nd_machines mt" for m x y using rt(2) [of x y] ran [OF that(1)] w that(2) by auto
  ultimately have fw: "forwards (m_nodes t) links m x y \<longleftrightarrow>
       (x, y) \<in> links_of t \<and> topo_weight t x y + entry dist y (dest_switch mt m) = entry dist x (dest_switch mt m)"
    if "m \<in> nd_machines mt" for m x y using that by blast
  have pw: "set p \<subseteq> {..<?S} \<Longrightarrow> path_weight (entry weights) p = path_weight (topo_weight t) p" for p
    using w by (induction "topo_weight t" p rule: path_weight.induct) auto
  have lw: "least_weight ?S (topo_weight t) i j (entry dist i j)" if "i < ?S" "j < ?S" for i j
    using sp(3) [OF that] unfolding least_weight_def by (metis pw walk_def)
  have "createLinks mt t = Some (links, t\<lparr>m_component_latencies := lat', m_component_inter_switches := sw\<rparr>)"
    using m sp(1) links(1) by (simp add: createLinks_def Let_def del: upt_Suc)
  moreover have "\<forall>i < ?S. \<forall>j < ?S. least_weight ?S (topo_weight t) i j (entry dist i j)" using lw by blast
  moreover have "\<forall>m \<in> nd_machines mt. \<forall>x y. forwards (m_nodes t) links m x y \<longleftrightarrow>
       (x, y) \<in> links_of t \<and> topo_weight t x y + entry dist y (dest_switch mt m) = entry dist x (dest_switch mt m)" using fw by blast
  ultimately show ?thesis by (intro exI [of _ links] exI [of _ lat'] exI [of _ sw] exI [of _ "entry dist"] conjI)
qed

subsection \<open>Delivery\<close>

lemma path_weight_nonneg: "(\<And>i j. 0 \<le> w i j) \<Longrightarrow> 0 \<le> path_weight w p"
  by (induction w p rule: path_weight.induct) auto

lemma link_path_in_range:
  assumes "topology_ok t" "successively (\<lambda>a b. (a, b) \<in> links_of t) p" "2 \<le> length p"
  shows "set p \<subseteq> {..<max_switch_id t + 1}" "(hd p, hd (tl p)) \<in> links_of t" "(last (butlast p), last p) \<in> links_of t"
proof -
  have r: "(a, b) \<in> links_of t \<Longrightarrow> a < max_switch_id t + 1 \<and> b < max_switch_id t + 1" for a b
    using topo_link(4,5) [OF assms(1)] by blast
  show "set p \<subseteq> {..<max_switch_id t + 1}"
  proof
    fix x assume "x \<in> set p"
    then obtain k where k: "k < length p" "x = p ! k" by (auto simp: in_set_conv_nth)
    have s: "(p ! i, p ! Suc i) \<in> links_of t" if "Suc i < length p" for i using assms(2) that by (auto simp: successively_conv_nth)
    show "x \<in> {..<max_switch_id t + 1}"
      using r s [of k] s [of "k - 1"] k assms(3) by (cases "Suc k < length p"; cases k) auto
  qed
  obtain a b q where "p = a # b # q" using assms(3) by (metis Suc_le_length_iff numeral_2_eq_2)
  then show "(hd p, hd (tl p)) \<in> links_of t" using assms(2) by simp
  obtain a b q where "rev p = a # b # q" using assms(3) by (metis Suc_le_length_iff length_rev numeral_2_eq_2)
  then have "p = rev q @ [b, a]" by (metis append.assoc append_Cons append_Nil rev.simps(2) rev_rev_ident)
  then show "(last (butlast p), last p) \<in> links_of t" using assms(2) by (simp add: successively_append_iff butlast_append)
qed

lemma forwarding_ends:
  assumes t: "topology_ok t" and f: "final < max_switch_id t + 1"
    and least: "\<And>i j. i < max_switch_id t + 1 \<Longrightarrow> j < max_switch_id t + 1 \<Longrightarrow> least_weight (max_switch_id t + 1) (topo_weight t) i j (dist i j)"
    and fw: "\<And>x y. F x y \<longleftrightarrow> (x, y) \<in> links_of t \<and> topo_weight t x y + dist y final = dist x final"
    and x: "x < max_switch_id t + 1" "dist x final < INFINITE_LATENCY" "successively F (x # ys)"
  shows "path_weight (topo_weight t) (x # ys) \<le> dist x final \<and> (last (x # ys) = final \<or> (\<exists>z. F (last (x # ys)) z))"
  using x
proof (induction ys arbitrary: x)
  case Nil
  note w = topo_weight_cases [OF t]
  have nn: "0 \<le> dist i final" if "i < max_switch_id t + 1" for i
    using least [OF that f] path_weight_nonneg [of "topo_weight t"] w(1) unfolding least_weight_def by metis
  have "dist final final \<le> path_weight (topo_weight t) [final, final]" using least [OF f f] walk_step [OF f f] unfolding least_weight_def by blast
  then have d0: "dist final final = 0" using nn [OF f] w(2) by simp
  have "\<exists>z. F x z" if neq: "x \<noteq> final"
  proof -
    obtain p where p: "walk (max_switch_id t + 1) x p final" "path_weight (topo_weight t) p = dist x final"
      using least [OF Nil.prems(1) f] unfolding least_weight_def by blast
    obtain y where y: "y \<noteq> x" "topo_weight t x y \<le> dist x final" "topo_weight t x y + dist y final = dist x final"
      using next_hop_exists [of _ "topo_weight t" dist, OF least w(1) d0 f p neq] by blast
    then have "(x, y) \<in> links_of t" using w(5) [of x y] Nil.prems(2) by auto
    then show ?thesis using fw y by blast
  qed
  then show ?case using nn [OF Nil.prems(1)] by auto
next
  case (Cons y ys)
  have xy: "(x, y) \<in> links_of t" "topo_weight t x y + dist y final = dist x final" using Cons.prems(3) fw by auto
  note l = topo_link [OF t xy(1)]
  have "dist y final < INFINITE_LATENCY" using xy(2) l(1) Cons.prems(2) by linarith
  from Cons.IH [OF l(5) this] Cons.prems(3) xy(2) l(1) show ?case by auto
qed

lemma createLinks_delivers:
  assumes "net_types_ok mt" "topology_ok t" "m_nodes t = MachineType_base_number mt (MachineType_NUM mt)"
    and "m \<in> nd_machines mt" "2 \<le> length p" "hd p = src" "last p = dest_switch mt m"
    and "successively (\<lambda>a b. (a, b) \<in> links_of t) p" "path_weight (topo_weight t) p < INFINITE_LATENCY"
  shows "\<exists>links t'. createLinks mt t = Some (links, t') \<and>
    (\<forall>ys. successively (forwards (m_nodes t) links m) (src # ys) \<longrightarrow>
       successively (\<lambda>a b. (a, b) \<in> links_of t) (src # ys) \<and>
       path_weight (topo_weight t) (src # ys) \<le> path_weight (topo_weight t) p \<and>
       (last (src # ys) = dest_switch mt m \<or> (\<exists>z. forwards (m_nodes t) links m (last (src # ys)) z)))"
proof -
  let ?S = "max_switch_id t + 1" and ?f = "dest_switch mt m"
  obtain links lats sw dist where c: "createLinks mt t = Some (links, t\<lparr>m_component_latencies := lats, m_component_inter_switches := sw\<rparr>)"
    and least0: "\<forall>i < ?S. \<forall>j < ?S. least_weight ?S (topo_weight t) i j (dist i j)"
    and fw0: "\<forall>m \<in> nd_machines mt. \<forall>x y. forwards (m_nodes t) links m x y \<longleftrightarrow>
       (x, y) \<in> links_of t \<and> topo_weight t x y + dist y (dest_switch mt m) = dist x (dest_switch mt m)"
    using createLinks_ok [OF assms(1-3)] by (elim exE conjE)
  note least = least0 [rule_format] and fw = fw0 [rule_format]
  have ran: "set p \<subseteq> {..<?S}" by (rule link_path_in_range(1) [OF assms(2,8,5)])
  moreover have "hd p \<in> set p" "last p \<in> set p" using assms(5) by (auto intro!: hd_in_set last_in_set)
  ultimately have r: "src < ?S" "?f < ?S" unfolding assms(6,7) by blast+
  have "walk ?S src p ?f" using assms(5-7) ran by (simp add: walk_def)
  then have d: "dist src ?f \<le> path_weight (topo_weight t) p" using least [OF r] unfolding least_weight_def by blast
  then have lt: "dist src ?f < INFINITE_LATENCY" using assms(9) by linarith
  have "successively (\<lambda>a b. (a, b) \<in> links_of t) (src # ys) \<and> path_weight (topo_weight t) (src # ys) \<le> path_weight (topo_weight t) p \<and>
      (last (src # ys) = ?f \<or> (\<exists>z. forwards (m_nodes t) links m (last (src # ys)) z))"
    if s: "successively (forwards (m_nodes t) links m) (src # ys)" for ys
  proof -
    have "successively (\<lambda>a b. (a, b) \<in> links_of t) (src # ys)" by (rule successively_mono [OF s]) (use fw [OF assms(4)] in blast)
    moreover have "path_weight (topo_weight t) (src # ys) \<le> dist src ?f \<and>
        (last (src # ys) = ?f \<or> (\<exists>z. forwards (m_nodes t) links m (last (src # ys)) z))"
      using least fw [OF assms(4)] by (intro forwarding_ends [where dist = dist, OF assms(2) r(2) _ _ r(1) lt s])
    ultimately show ?thesis using d by (meson order_trans)
  qed
  then show ?thesis using c by blast
qed

lemma hops_le_weight:
  assumes "topology_ok t" "successively (\<lambda>a b. (a, b) \<in> links_of t) (x # ys)"
  shows "int (length ys) \<le> path_weight (topo_weight t) (x # ys)"
  using assms(2)
proof (induction ys arbitrary: x)
  case (Cons y ys)
  then show ?case using topo_link(1) [OF assms(1), of x y] by fastforce
qed simp

text \<open>C17. The routes that \<^verbatim>\<open>createLinks\<close> sets up deliver: on any legal topology the function returns, and if some path of links
  leads from \<open>src\<close> to the output of machine \<open>m\<close> (with total weight below the constant that stands for
  infinity), then a message for \<open>m\<close> that starts at \<open>src\<close> and is forwarded over any link whose routing table entry
  holds \<open>m\<close> never gets stuck before the output of \<open>m\<close>, and the links it takes weigh no more than that path; as
  every link weighs at least one, it arrives after finitely many hops.\<close>

theorem routing_delivers:
  assumes "net_types_ok mt" "topology_ok t" "m_nodes t = MachineType_base_number mt (MachineType_NUM mt)"
    and "m \<in> nd_machines mt" "2 \<le> length p" "hd p = src" "last p = dest_switch mt m"
    and "successively (\<lambda>a b. (a, b) \<in> links_of t) p" "path_weight (topo_weight t) p < INFINITE_LATENCY"
  shows "\<exists>links t'. createLinks mt t = Some (links, t') \<and>
    (\<forall>ys. successively (forwards (m_nodes t) links m) (src # ys) \<longrightarrow>
       path_weight (topo_weight t) (src # ys) \<le> path_weight (topo_weight t) p \<and> int (length ys) \<le> path_weight (topo_weight t) p \<and>
       (last (src # ys) = dest_switch mt m \<or> (\<exists>z. forwards (m_nodes t) links m (last (src # ys)) z)))"
  using createLinks_delivers [OF assms] hops_le_weight [OF assms(2)] by (blast intro: order_trans)

definition sample_types :: machine_types where
  "sample_types = \<lparr>MachineType_NUM = 1, MachineType_base_level = \<lambda>t. t, MachineType_base_count = \<lambda>t. 1, MachineType_base_number = \<lambda>t. t\<rparr>"

definition sample_params :: net_params where
  "sample_params = \<lparr>g_NETWORK_TOPOLOGY = ''CROSSBAR'', NETWORK_LINK_LATENCY = 3, ON_CHIP_LINK_LATENCY = 1, FAN_OUT_DEGREE = 4,
     g_endpoint_bandwidth = 10000, network_file = None\<rparr>"

lemma sample_types_ok: "net_types_ok sample_types" "MachineType_base_number sample_types (MachineType_NUM sample_types) = 1"
    "\<lparr>mach_type = 0, mach_num = 0\<rparr> \<in> nd_machines sample_types" "dest_switch sample_types \<lparr>mach_type = 0, mach_num = 0\<rparr> = 1"
  by (auto simp: net_types_ok_def machine_types_ok_def sample_types_def nd_machines_def dest_switch_def machine_number_def)

theorem routing_delivers_witness:
  "\<exists>t links t'. topology_init undefined sample_params undefined (topology_empty 1) = Some t \<and> createLinks sample_types t = Some (links, t') \<and>
     (\<exists>z. forwards 1 links \<lparr>mach_type = 0, mach_num = 0\<rparr> 0 z)"
proof -
  let ?t = "\<lparr>m_nodes = 1, m_number_of_switches = 1, m_links_src_vector = [0, 2], m_links_dest_vector = [2, 1],
    m_links_latency_vector = [3, 3], m_links_weight_vector = [3, 3], m_bw_multiplier_vector = [1, 1],
    m_component_latencies = [], m_component_inter_switches = []\<rparr>"
  have init: "topology_init undefined sample_params undefined (topology_empty 1) = Some ?t"
    by (simp add: topology_init_def topology_empty_def newSwitchID_def addLink_def addLink_weight_def check_bind
        DEFAULT_BW_MULTIPLIER_def sample_params_def Let_def)
  have ok: "topology_ok ?t" by (auto simp: topology_ok_def legal_link_def INFINITE_LATENCY_def less_Suc_eq nth_Cons')
  have p: "successively (\<lambda>a b. (a, b) \<in> links_of ?t) [0, 2, 1]" by (simp add: links_of_def)
  have w: "path_weight (topo_weight ?t) [0, 2, 1] < INFINITE_LATENCY" by (simp add: topo_weight_def link_map_def INFINITE_LATENCY_def)
  have n: "m_nodes ?t = 1" by simp
  obtain links t' where l: "createLinks sample_types ?t = Some (links, t')"
    "\<forall>ys. successively (forwards (m_nodes ?t) links \<lparr>mach_type = 0, mach_num = 0\<rparr>) (0 # ys) \<longrightarrow>
       path_weight (topo_weight ?t) (0 # ys) \<le> path_weight (topo_weight ?t) [0, 2, 1] \<and> int (length ys) \<le> path_weight (topo_weight ?t) [0, 2, 1] \<and>
       (last (0 # ys) = dest_switch sample_types \<lparr>mach_type = 0, mach_num = 0\<rparr> \<or>
        (\<exists>z. forwards (m_nodes ?t) links \<lparr>mach_type = 0, mach_num = 0\<rparr> (last (0 # ys)) z))"
    using routing_delivers [OF sample_types_ok(1) ok _ sample_types_ok(3), of "[0, 2, 1]" 0] sample_types_ok p w by auto
  from l(2) [rule_format, of "[]"] sample_types_ok(4) have "\<exists>z. forwards 1 links \<lparr>mach_type = 0, mach_num = 0\<rparr> 0 z" by simp
  with init l(1) show ?thesis by blast
qed

end
