(* ===== verification/Net_Hierarchy.thy ===== *)
theory Net_Hierarchy
  imports Net_Routing
begin

text \<open>
  \<^verbatim>\<open>Topology::makeHierarchicalSwitch\<close>, the topology behind \<^verbatim>\<open>HIERARCHICAL_SWITCH\<close> and \<^verbatim>\<open>CROSSBAR\<close>: its loops end, the
  links are legal, and a tree of height \<open>h\<close> connects every endpoint with every output over at most
  \<open>2 * h + 1\<close> links. With \<open>Net_Routing\<close> this gives delivery in the composed network.
\<close>

subsection \<open>Topologies under construction\<close>

definition building :: "nat \<Rightarrow> int \<Rightarrow> topology \<Rightarrow> bool" where
  "building n lat t \<longleftrightarrow> m_nodes t = n \<and> length (m_links_dest_vector t) = length (m_links_src_vector t) \<and>
     m_links_latency_vector t = replicate (length (m_links_src_vector t)) lat \<and>
     m_links_weight_vector t = replicate (length (m_links_src_vector t)) lat \<and>
     length (m_bw_multiplier_vector t) = length (m_links_src_vector t) \<and>
     (\<forall>(a, b) \<in> links_of t. legal_link n a b lat lat)"

abbreviation switch_bound :: "topology \<Rightarrow> nat" where
  "switch_bound t \<equiv> 2 * m_nodes t + m_number_of_switches t"

lemma building_empty: "building n lat (topology_empty n)" "links_of (topology_empty n) = {}" "switch_bound (topology_empty n) = 2 * n"
  by (simp_all add: building_def topology_empty_def links_of_def)

lemma newSwitchID_ok:
  "newSwitchID t = (switch_bound t, t\<lparr>m_number_of_switches := m_number_of_switches t + 1\<rparr>)"
  "building n lat (t\<lparr>m_number_of_switches := k\<rparr>) = building n lat t" "links_of (t\<lparr>m_number_of_switches := k\<rparr>) = links_of t"
  by (simp_all add: newSwitchID_def building_def links_of_def Let_def)

lemma addLink_ok:
  assumes "building n lat t" "legal_link n a b lat lat" "a \<le> switch_bound t" "b \<le> switch_bound t"
  shows "\<exists>t'. addLink a b lat t = Some t' \<and> building n lat t' \<and> links_of t' = insert (a, b) (links_of t) \<and> switch_bound t' = switch_bound t"
  using assms by (auto simp: addLink_def addLink_weight_def check_bind building_def links_of_def replicate_append_same)

text \<open>What a step of the construction keeps.\<close>

definition extends :: "nat \<Rightarrow> int \<Rightarrow> topology \<Rightarrow> topology \<Rightarrow> bool" where
  "extends n lat t t' \<longleftrightarrow> building n lat t' \<and> links_of t \<subseteq> links_of t' \<and> switch_bound t \<le> switch_bound t'"

lemma extends_trans: "extends n lat t t' \<Longrightarrow> extends n lat t' t'' \<Longrightarrow> extends n lat t t''"
  by (auto simp: extends_def)

definition path_to :: "topology \<Rightarrow> nat \<Rightarrow> nat \<Rightarrow> nat \<Rightarrow> bool" where
  "path_to t k x y \<longleftrightarrow> (\<exists>p. p \<noteq> [] \<and> hd p = x \<and> last p = y \<and> length p \<le> Suc k \<and> successively (\<lambda>a b. (a, b) \<in> links_of t) p)"

lemma path_to_refl: "path_to t k x x"
  unfolding path_to_def by (intro exI [of _ "[x]"]) simp

lemma path_to_mono: "path_to t k x y \<Longrightarrow> links_of t \<subseteq> links_of t' \<Longrightarrow> k \<le> k' \<Longrightarrow> path_to t' k' x y"
  unfolding path_to_def by (force intro: successively_mono elim!: order_trans)

lemma path_to_trans:
  assumes "path_to t k x y" "path_to t l y z"
  shows "path_to t (k + l) x z"
proof -
  obtain p q where p: "p \<noteq> []" "hd p = x" "last p = y" "length p \<le> Suc k" "successively (\<lambda>a b. (a, b) \<in> links_of t) p"
    and q: "q \<noteq> []" "hd q = y" "last q = z" "length q \<le> Suc l" "successively (\<lambda>a b. (a, b) \<in> links_of t) q"
    using assms unfolding path_to_def by blast
  obtain q' where q': "q = y # q'" using q(1,2) by (cases q) auto
  show ?thesis unfolding path_to_def
    using p q by (intro exI [of _ "p @ q'"]) (auto simp: q' successively_append_iff successively_Cons split: if_splits)
qed

lemma path_to_link: "(x, y) \<in> links_of t \<Longrightarrow> path_to t 1 x y"
  unfolding path_to_def by (intro exI [of _ "[x, y]"]) simp

subsection \<open>One level\<close>

text \<open>Element \<open>i\<close> of a level hangs below element \<open>i div fan\<close> of the next; a level of \<open>len\<close> elements has a next
  level of \<open>levels fan len\<close>.\<close>

definition levels :: "nat \<Rightarrow> nat \<Rightarrow> nat" where
  "levels fan len = (len + fan - 1) div fan"

lemma levels_Suc:
  assumes "0 < fan"
  shows "levels fan (Suc i) = (if i mod fan = 0 then Suc (levels fan i) else levels fan i)" "levels fan (Suc i) = Suc (i div fan)"
proof -
  show s: "levels fan (Suc i) = Suc (i div fan)" for i using assms div_add_self2 [of fan i] by (simp add: levels_def)
  show "levels fan (Suc i) = (if i mod fan = 0 then Suc (levels fan i) else levels fan i)"
  proof (cases i)
    case 0
    then show ?thesis using assms by (simp add: levels_def)
  next
    case (Suc j)
    show ?thesis using s [of i] s [of j] by (simp add: Suc div_Suc)
  qed
qed

lemma levels_less:
  assumes "2 \<le> fan" "2 \<le> len"
  shows "levels fan len < len" "1 \<le> levels fan len" "len \<le> fan \<Longrightarrow> levels fan len = 1" "fan < len \<Longrightarrow> 2 \<le> levels fan len"
    "len \<le> fan ^ Suc h \<Longrightarrow> levels fan len \<le> fan ^ h"
proof -
  obtain j where j: "len = Suc j" "1 \<le> j" using assms(2) by (cases len) auto
  have l: "levels fan len = Suc (j div fan)" using levels_Suc(2) [of fan j] assms(1) j(1) by simp
  have "j div fan < j" using assms(1) j(2) by simp
  then show "levels fan len < len" "1 \<le> levels fan len" using l j by simp_all
  show "levels fan len = 1" if "len \<le> fan" using that l j by simp
  show "2 \<le> levels fan len" if "fan < len"
  proof -
    have "fan div fan \<le> j div fan" using that j(1) by (intro div_le_mono) simp
    then show ?thesis using l assms(1) by simp
  qed
  show "levels fan len \<le> fan ^ h" if "len \<le> fan ^ Suc h"
  proof -
    have "j < fan ^ h * fan" using that j(1) by (simp add: mult.commute)
    then have "j div fan < fan ^ h" by (simp add: less_mult_imp_div_less)
    then show ?thesis using l by simp
  qed
qed

text \<open>Both directions build a level in the same way: every \<open>fan\<close>-th element starts a new element of the next level.\<close>

definition level_step :: "nat \<Rightarrow> int \<Rightarrow> (topology \<Rightarrow> nat \<times> topology) \<Rightarrow> (nat \<Rightarrow> nat \<Rightarrow> nat \<times> nat) \<Rightarrow> nat \<Rightarrow>
    nat list \<times> topology \<Rightarrow> (nat list \<times> topology) option" where
  "level_step fan lat fresh ends i = (\<lambda>(next_level, t). do {
     check (0 < fan);
     let (next1, t1) = (if i mod fan = 0 then (case fresh t of (s, t1) \<Rightarrow> (next_level @ [s], t1)) else (next_level, t));
     check (next1 \<noteq> []);
     t2 \<leftarrow> (case ends i (next1 ! (length next1 - 1)) of (a, b) \<Rightarrow> addLink a b lat t1);
     Some (next1, t2) })"

lemma up_step_level: "up_step fan lat L = level_step fan lat newSwitchID (\<lambda>i s. (L ! i, s))"
  by (simp add: fun_eq_iff up_step_def level_step_def)

lemma down_step_level:
  "down_step fan lat root D = level_step fan lat (\<lambda>t. if fan < length D then newSwitchID t else (root, t)) (\<lambda>i s. (s, D ! i))"
  by (auto simp: fun_eq_iff down_step_def level_step_def)

lemma level_ok:
  assumes fan: "2 \<le> fan" and t: "building n lat t"
    and fresh: "\<And>t1. extends n lat t t1 \<Longrightarrow> \<exists>s t2. fresh t1 = (s, t2) \<and> building n lat t2 \<and> links_of t2 = links_of t1 \<and>
      switch_bound t1 \<le> switch_bound t2 \<and> s < switch_bound t2 \<and> Q s"
    and ends: "\<And>i s. i < len \<Longrightarrow> Q s \<Longrightarrow> legal_link n (fst (ends i s)) (snd (ends i s)) lat lat \<and>
      (fst (ends i s) < switch_bound t \<or> fst (ends i s) = s) \<and> (snd (ends i s) < switch_bound t \<or> snd (ends i s) = s)"
  shows "k \<le> len \<Longrightarrow> \<exists>next t'. fold_opt (level_step fan lat fresh ends) [0..<k] ([], t) = Some (next, t') \<and> extends n lat t t' \<and>
    length next = levels fan k \<and> (\<forall>x \<in> set next. Q x \<and> x < switch_bound t') \<and> (\<forall>i < k. ends i (next ! (i div fan)) \<in> links_of t')"
proof (induction k)
  case 0
  have "levels fan 0 = 0" using fan by (simp add: levels_def)
  then show ?case using t by (simp add: extends_def)
next
  case (Suc k)
  then obtain nx t1 where IH: "fold_opt (level_step fan lat fresh ends) [0..<k] ([], t) = Some (nx, t1)" "extends n lat t t1"
    "length nx = levels fan k" "\<forall>x \<in> set nx. Q x \<and> x < switch_bound t1" "\<forall>i < k. ends i (nx ! (i div fan)) \<in> links_of t1" by auto
  obtain s t2' where f: "fresh t1 = (s, t2')" "building n lat t2'" "links_of t2' = links_of t1" "switch_bound t1 \<le> switch_bound t2'"
    "s < switch_bound t2'" "Q s" using fresh [OF IH(2)] by blast
  define nx' where "nx' = (if k mod fan = 0 then nx @ [s] else nx)"
  define t2 where "t2 = (if k mod fan = 0 then t2' else t1)"
  have t2: "building n lat t2" "links_of t2 = links_of t1" "switch_bound t1 \<le> switch_bound t2"
    using IH(2) f by (simp_all add: t2_def extends_def)
  have len: "length nx' = Suc (k div fan)" using levels_Suc [of fan k] fan IH(3) by (auto simp: nx'_def)
  then have ne: "nx' \<noteq> []" by auto
  have nk: "nx' ! (k div fan) = last nx'" using len ne by (simp add: last_conv_nth)
  have new: "\<forall>x \<in> set nx'. Q x \<and> x < switch_bound t2" using IH(4) f by (auto simp: nx'_def t2_def)
  then have lst: "Q (last nx')" "last nx' < switch_bound t2" using last_in_set [OF ne] by blast+
  obtain a b where ab: "ends k (last nx') = (a, b)" by (cases "ends k (last nx')")
  have bnd: "legal_link n a b lat lat" "a \<le> switch_bound t2" "b \<le> switch_bound t2"
    using ends [of k "last nx'"] Suc.prems lst ab IH(2) t2(3) by (auto simp: extends_def)
  obtain t3 where t3: "addLink a b lat t2 = Some t3" "building n lat t3" "links_of t3 = insert (a, b) (links_of t2)"
    "switch_bound t3 = switch_bound t2" using addLink_ok [OF t2(1) bnd] by blast
  have "(if k mod fan = 0 then (case fresh t1 of (s, t1) \<Rightarrow> (nx @ [s], t1)) else (nx, t1)) = (nx', t2)"
    by (simp add: nx'_def t2_def f(1))
  then have step: "level_step fan lat fresh ends k (nx, t1) = Some (nx', t3)"
    using fan ne t3(1) ab last_conv_nth [OF ne] by (simp add: level_step_def check_bind)
  have "ends i (nx' ! (i div fan)) \<in> links_of t3" if "i < Suc k" for i
  proof (cases "i = k")
    case False
    then obtain j where j: "k = Suc j" "i \<le> j" using \<open>i < Suc k\<close> by (cases k) auto
    have "i div fan < length nx" using IH(3) levels_Suc(2) [of fan j] fan j div_le_mono [OF j(2), of fan] by simp
    then have "nx' ! (i div fan) = nx ! (i div fan)" by (simp add: nx'_def nth_append)
    then show ?thesis using IH(5) j t2(2) t3(3) by auto
  qed (simp add: nk ab t3(3))
  moreover have "extends n lat t t3" using IH(2) t2 t3 by (auto simp: extends_def)
  moreover have "length nx' = levels fan (Suc k)" using len levels_Suc(2) [of fan k] fan by simp
  ultimately show ?case using IH(1) step new t3(4) by (simp add: fold_opt_append)
qed

subsection \<open>All levels\<close>

lemma up_levels_ok:
  assumes fan: "2 \<le> fan" and lat: "0 < lat" "lat < INFINITE_LATENCY"
  shows "building n lat t \<Longrightarrow> 1 \<le> length L \<Longrightarrow> length L \<le> fan ^ h \<Longrightarrow> (\<And>x. x \<in> set L \<Longrightarrow> 2 * n \<le> x \<and> x < switch_bound t) \<Longrightarrow>
    \<exists>root t'. up_levels fan lat (L, t) = Some ([root], t') \<and> extends n lat t t' \<and> 2 * n \<le> root \<and> root < switch_bound t' \<and>
      (\<forall>x \<in> set L. path_to t' h x root)"
proof (induction h arbitrary: L t)
  case 0
  then obtain r where "L = [r]" by (cases L) auto
  then show ?case using 0 path_to_refl by (simp add: up_levels.simps extends_def)
next
  case (Suc h)
  show ?case
  proof (cases "length L = 1")
    case True
    then obtain r where "L = [r]" by (cases L) auto
    then show ?thesis using Suc.prems path_to_refl by (simp add: up_levels.simps extends_def)
  next
    case False
    then have len: "2 \<le> length L" using Suc.prems(2) by linarith
    have n: "m_nodes t = n" using Suc.prems(1) by (simp add: building_def)
    obtain nx t1 where lv: "fold_opt (up_step fan lat L) [0..<length L] ([], t) = Some (nx, t1)" "extends n lat t t1"
      "length nx = levels fan (length L)" "\<forall>x \<in> set nx. (2 * n \<le> x \<and> switch_bound t \<le> x) \<and> x < switch_bound t1"
      "\<forall>i < length L. (L ! i, nx ! (i div fan)) \<in> links_of t1"
    proof -
      have "\<exists>next t'. fold_opt (level_step fan lat newSwitchID (\<lambda>i s. (L ! i, s))) [0..<length L] ([], t) = Some (next, t') \<and> extends n lat t t' \<and>
        length next = levels fan (length L) \<and> (\<forall>x \<in> set next. (2 * n \<le> x \<and> switch_bound t \<le> x) \<and> x < switch_bound t') \<and>
        (\<forall>i < length L. (L ! i, next ! (i div fan)) \<in> links_of t')"
      proof (rule level_ok [OF fan Suc.prems(1), where len = "length L"])
        fix t1 assume "extends n lat t t1"
        then show "\<exists>s t2. newSwitchID t1 = (s, t2) \<and> building n lat t2 \<and> links_of t2 = links_of t1 \<and>
          switch_bound t1 \<le> switch_bound t2 \<and> s < switch_bound t2 \<and> 2 * n \<le> s \<and> switch_bound t \<le> s"
          using n by (simp add: newSwitchID_ok extends_def building_def)
      next
        fix i s assume "i < length L" "2 * n \<le> s \<and> switch_bound t \<le> s"
        then show "legal_link n (fst (L ! i, s)) (snd (L ! i, s)) lat lat \<and>
          (fst (L ! i, s) < switch_bound t \<or> fst (L ! i, s) = s) \<and> (snd (L ! i, s) < switch_bound t \<or> snd (L ! i, s) = s)"
          using Suc.prems(4) [of "L ! i"] lat by (auto simp: legal_link_def)
      qed simp
      then show thesis using that up_step_level by auto
    qed
    have t1: "building n lat t1" using lv(2) by (simp add: extends_def)
    have "1 \<le> length nx" "length nx \<le> fan ^ h" using levels_less(2,5) [OF fan len] Suc.prems(3) lv(3) by simp_all
    from Suc.IH [OF t1 this] lv(4) obtain root t' where r: "up_levels fan lat (nx, t1) = Some ([root], t')" "extends n lat t1 t'"
      "2 * n \<le> root" "root < switch_bound t'" "\<forall>x \<in> set nx. path_to t' h x root" by blast
    have "path_to t' (Suc h) x root" if "x \<in> set L" for x
    proof -
      from that obtain i where i: "i < length L" "x = L ! i" by (auto simp: in_set_conv_nth)
      have "i div fan < length nx"
      proof -
        obtain j where j: "length L = Suc j" "i \<le> j" using i(1) by (cases "length L") auto
        then show ?thesis using lv(3) levels_Suc(2) [of fan j] fan div_le_mono [OF j(2), of fan] by simp
      qed
      then have "path_to t' h (nx ! (i div fan)) root" using r(5) by simp
      moreover have "path_to t' 1 x (nx ! (i div fan))" using lv(5) i r(2) by (intro path_to_link) (auto simp: extends_def)
      ultimately show ?thesis using path_to_trans [of t' 1 x _ h root] by auto
    qed
    then show ?thesis using r extends_trans [OF lv(2) r(2)] lv(1) len by (simp add: up_levels.simps [of _ _ "(L, t)"])
  qed
qed

lemma down_levels_ok:
  assumes fan: "2 \<le> fan" and lat: "0 < lat" "lat < INFINITE_LATENCY"
  shows "building n lat t \<Longrightarrow> 2 \<le> length D \<Longrightarrow> length D \<le> fan ^ h \<Longrightarrow> 2 * n \<le> root \<Longrightarrow> root < switch_bound t \<Longrightarrow>
    (\<And>x. x \<in> set D \<Longrightarrow> n \<le> x \<and> x < switch_bound t \<and> x \<noteq> root) \<Longrightarrow>
    \<exists>ns t'. down_levels fan lat root (D, t) = Some (ns, t') \<and> extends n lat t t' \<and> (\<forall>x \<in> set D. path_to t' h root x)"
proof (induction h arbitrary: D t)
  case (Suc h)
  have n: "m_nodes t = n" using Suc.prems(1) by (simp add: building_def)
  let ?Q = "\<lambda>s. 2 * n \<le> s \<and> (if fan < length D then switch_bound t \<le> s else s = root)"
  obtain nx t1 where lv: "fold_opt (down_step fan lat root D) [0..<length D] ([], t) = Some (nx, t1)" "extends n lat t t1"
    "length nx = levels fan (length D)" "\<forall>x \<in> set nx. ?Q x \<and> x < switch_bound t1"
    "\<forall>i < length D. (nx ! (i div fan), D ! i) \<in> links_of t1"
  proof -
    have "\<exists>next t'. fold_opt (level_step fan lat (\<lambda>t. if fan < length D then newSwitchID t else (root, t)) (\<lambda>i s. (s, D ! i))) [0..<length D] ([], t)
        = Some (next, t') \<and> extends n lat t t' \<and> length next = levels fan (length D) \<and> (\<forall>x \<in> set next. ?Q x \<and> x < switch_bound t') \<and>
        (\<forall>i < length D. (next ! (i div fan), D ! i) \<in> links_of t')"
    proof (rule level_ok [OF fan Suc.prems(1), where len = "length D"])
      fix t1 assume "extends n lat t t1"
      then show "\<exists>s t2. (if fan < length D then newSwitchID t1 else (root, t1)) = (s, t2) \<and> building n lat t2 \<and> links_of t2 = links_of t1 \<and>
        switch_bound t1 \<le> switch_bound t2 \<and> s < switch_bound t2 \<and> ?Q s"
        using n Suc.prems(4,5) by (simp add: newSwitchID_ok extends_def building_def)
    next
      fix i s assume "i < length D" "?Q s"
      then show "legal_link n (fst (s, D ! i)) (snd (s, D ! i)) lat lat \<and>
        (fst (s, D ! i) < switch_bound t \<or> fst (s, D ! i) = s) \<and> (snd (s, D ! i) < switch_bound t \<or> snd (s, D ! i) = s)"
        using Suc.prems(6) [of "D ! i"] lat by (auto simp: legal_link_def split: if_splits)
    qed simp
    then show thesis using that down_step_level by auto
  qed
  have t1: "building n lat t1" "links_of t \<subseteq> links_of t1" "switch_bound t \<le> switch_bound t1" using lv(2) by (simp_all add: extends_def)
  have below: "i div fan < length nx" if ij: "i < length D" for i
  proof -
    obtain j where j: "length D = Suc j" "i \<le> j" using ij by (cases "length D") auto
    then show ?thesis using lv(3) levels_Suc(2) [of fan j] fan div_le_mono [OF j(2), of fan] by simp
  qed
  have unfold: "down_levels fan lat root (D, t) = down_levels fan lat root (nx, t1)"
    using lv(1) Suc.prems(2) by (subst down_levels.simps) simp
  show ?case
  proof (cases "fan < length D")
    case False
    then have "nx = [root]" using levels_less(3) [OF fan Suc.prems(2)] lv(3,4) by (cases nx) auto
    then have "down_levels fan lat root (nx, t1) = Some ([root], t1)" by (simp add: down_levels.simps)
    moreover have "path_to t1 (Suc h) root x" if "x \<in> set D" for x
    proof -
      from that obtain i where i: "i < length D" "x = D ! i" by (auto simp: in_set_conv_nth)
      then have "nx ! (i div fan) = root" using below \<open>nx = [root]\<close> by fastforce
      then show ?thesis using lv(5) i path_to_mono [OF path_to_link, of root x t1 t1 "Suc h"] by auto
    qed
    ultimately show ?thesis using unfold lv(2) by auto
  next
    case True
    have l2: "2 \<le> length nx" "length nx \<le> fan ^ h" using levels_less(4,5) [OF fan Suc.prems(2)] True Suc.prems(3) lv(3) by simp_all
    have "n \<le> x \<and> x < switch_bound t1 \<and> x \<noteq> root" if "x \<in> set nx" for x using lv(4) that True Suc.prems(5) by force
    from Suc.IH [OF t1(1) l2 Suc.prems(4) _ this] t1(3) Suc.prems(5) obtain ns t' where
      r: "down_levels fan lat root (nx, t1) = Some (ns, t')" "extends n lat t1 t'" "\<forall>x \<in> set nx. path_to t' h root x" by auto
    have "path_to t' (Suc h) root x" if "x \<in> set D" for x
    proof -
      from that obtain i where i: "i < length D" "x = D ! i" by (auto simp: in_set_conv_nth)
      have "path_to t' h root (nx ! (i div fan))" using r(3) below [OF i(1)] by simp
      moreover have "path_to t' 1 (nx ! (i div fan)) x" using lv(5) i r(2) by (intro path_to_link) (auto simp: extends_def)
      ultimately show ?thesis using path_to_trans [of t' h root _ 1 x] by auto
    qed
    then show ?thesis using r unfold extends_trans [OF lv(2) r(2)] by auto
  qed
qed simp

lemma endpoint_switches_ok:
  assumes lat: "0 < lat" "lat < INFINITE_LATENCY" and t: "building n lat t" "0 < n"
  shows "k \<le> n \<Longrightarrow> \<exists>L t'. fold_opt (endpoint_switch lat) [0..<k] ([], t) = Some (L, t') \<and> extends n lat t t' \<and> length L = k \<and>
    (\<forall>x \<in> set L. 2 * n \<le> x \<and> x < switch_bound t') \<and> (\<forall>i < k. (i, L ! i) \<in> links_of t')"
proof (induction k)
  case (Suc k)
  then obtain L t1 where IH: "fold_opt (endpoint_switch lat) [0..<k] ([], t) = Some (L, t1)" "extends n lat t t1" "length L = k"
    "\<forall>x \<in> set L. 2 * n \<le> x \<and> x < switch_bound t1" "\<forall>i < k. (i, L ! i) \<in> links_of t1" by auto
  let ?t2 = "t1\<lparr>m_number_of_switches := m_number_of_switches t1 + 1\<rparr>"
  have b: "building n lat ?t2" and n: "m_nodes t1 = n" using IH(2) by (simp_all add: newSwitchID_ok extends_def building_def)
  have "legal_link n k (switch_bound t1) lat lat" using lat Suc.prems n by (auto simp: legal_link_def)
  from addLink_ok [OF b this] n Suc.prems obtain t3 where t3: "addLink k (switch_bound t1) lat ?t2 = Some t3" "building n lat t3"
    "links_of t3 = insert (k, switch_bound t1) (links_of ?t2)" "switch_bound t3 = switch_bound ?t2" by auto
  have "endpoint_switch lat k (L, t1) = Some (L @ [switch_bound t1], t3)"
    using t3(1) by (simp add: endpoint_switch_def newSwitchID_ok)
  moreover have "extends n lat t t3" using IH(2) t3 by (auto simp: extends_def newSwitchID_ok)
  moreover have "\<forall>x \<in> set (L @ [switch_bound t1]). 2 * n \<le> x \<and> x < switch_bound t3" using IH(4) n t3(4) by auto
  moreover have "\<forall>i < Suc k. (i, (L @ [switch_bound t1]) ! i) \<in> links_of t3"
    using IH(3,5) t3(3) by (auto simp: nth_append less_Suc_eq newSwitchID_ok)
  ultimately show ?case using IH(1,3) by (simp add: fold_opt_append)
qed (use t in \<open>simp add: extends_def\<close>)

lemma makeHierarchicalSwitch_ok:
  assumes fan: "2 \<le> fan" "2 \<le> n" "n \<le> fan ^ h" and lat: "0 < NETWORK_LINK_LATENCY p" "NETWORK_LINK_LATENCY p < INFINITE_LATENCY"
  shows "\<exists>t. makeHierarchicalSwitch p fan (topology_empty n) = Some t \<and> building n (NETWORK_LINK_LATENCY p) t \<and>
    (\<forall>i < n. \<forall>j < n. path_to t (2 * h + 1) i (n + j))"
proof -
  let ?lat = "NETWORK_LINK_LATENCY p"
  have n: "m_nodes (topology_empty n) = n" "0 < n" using fan(2) by (simp_all add: topology_empty_def)
  obtain L t1 where L: "fold_opt (endpoint_switch ?lat) [0..<n] ([], topology_empty n) = Some (L, t1)" "extends n ?lat (topology_empty n) t1"
    "length L = n" "\<forall>x \<in> set L. 2 * n \<le> x \<and> x < switch_bound t1" "\<forall>i < n. (i, L ! i) \<in> links_of t1"
    using endpoint_switches_ok [OF lat building_empty(1) n(2) order_refl] by blast
  have "building n ?lat t1" "1 \<le> length L" "length L \<le> fan ^ h" using L fan by (simp_all add: extends_def)
  from up_levels_ok [OF fan(1) lat this] L(4) obtain root t2 where up: "up_levels fan ?lat (L, t1) = Some ([root], t2)" "extends n ?lat t1 t2"
    "2 * n \<le> root" "root < switch_bound t2" "\<forall>x \<in> set L. path_to t2 h x root" by blast
  let ?D = "map (\<lambda>i. n + i) [0..<n]"
  have b2: "building n ?lat t2" using up(2) by (simp add: extends_def)
  have "2 \<le> length ?D" "length ?D \<le> fan ^ h" using fan by simp_all
  moreover have "n \<le> x \<and> x < switch_bound t2 \<and> x \<noteq> root" if "x \<in> set ?D" for x using that up(3,4) by auto
  ultimately obtain ns t3 where down: "down_levels fan ?lat root (?D, t2) = Some (ns, t3)" "extends n ?lat t2 t3"
    "\<forall>x \<in> set ?D. path_to t3 h root x" using down_levels_ok [OF fan(1) lat b2 _ _ up(3,4)] by blast
  have "path_to t3 (2 * h + 1) i (n + j)" if ij: "i < n" "j < n" for i j
  proof -
    have m: "links_of t1 \<subseteq> links_of t3" "links_of t2 \<subseteq> links_of t3" using up(2) down(2) by (auto simp: extends_def)
    have "path_to t3 1 i (L ! i)" using L(5) ij m by (intro path_to_link) auto
    moreover have "path_to t3 h (L ! i) root" using up(5) L(3) ij path_to_mono [OF _ m(2) order_refl] by simp
    moreover have "path_to t3 h root (n + j)" using down(3) ij by simp
    ultimately have "path_to t3 (1 + h + h) i (n + j)" by (blast intro: path_to_trans)
    then show ?thesis by (simp add: mult_2)
  qed
  moreover have "makeHierarchicalSwitch p fan (topology_empty n) = Some t3"
    using L(1) up(1) down(1) n(1) by (simp add: makeHierarchicalSwitch_def Let_def)
  moreover have "building n ?lat t3" using down(2) by (simp add: extends_def)
  ultimately show ?thesis by blast
qed

lemma building_weight:
  assumes "building n lat t" "(a, b) \<in> links_of t"
  shows "topo_weight t a b = lat"
proof -
  have "link_map t m_links_weight_vector (a, b) \<noteq> None"
    using assms by (auto simp: link_map_def links_of_def building_def map_of_eq_None_iff simp flip: set_map)
  then obtain v where v: "link_map t m_links_weight_vector (a, b) = Some v" by blast
  then have "v = lat" using link_map_Some [OF v] assms(1) by (auto simp: building_def)
  then show ?thesis using v by (simp add: topo_weight_def)
qed

lemma building_path_weight:
  assumes "building n lat t"
  shows "successively (\<lambda>a b. (a, b) \<in> links_of t) p \<Longrightarrow> p \<noteq> [] \<Longrightarrow> path_weight (topo_weight t) p = lat * (int (length p) - 1)"
proof (induction "topo_weight t" p rule: path_weight.induct)
  case (1 x y p)
  then show ?case using building_weight [OF assms, of x y] by (simp add: algebra_simps)
qed auto

lemma building_topology_ok:
  assumes b: "building n lat t" "0 < n" and paths: "\<And>j. j < n \<Longrightarrow> path_to t k 0 (n + j)"
  shows "topology_ok t"
proof -
  have out: "{m_nodes t..<2 * m_nodes t} \<subseteq> set (m_links_dest_vector t)"
  proof
    fix x assume "x \<in> {m_nodes t..<2 * m_nodes t}"
    then have x: "n \<le> x" "x - n < n" using b(1) by (auto simp: building_def)
    then obtain p where p: "p \<noteq> []" "hd p = 0" "last p = x" "successively (\<lambda>a b. (a, b) \<in> links_of t) p"
      using paths [OF x(2)] unfolding path_to_def by auto
    obtain q y where q: "p = q @ [y]" using p(1) by (cases p rule: rev_cases) auto
    have "q \<noteq> []" using p q x b(2) by auto
    then have "(last q, x) \<in> links_of t" using p q by (auto simp: successively_append_iff)
    then show "x \<in> set (m_links_dest_vector t)" by (auto simp: links_of_def dest: set_zip_rightD)
  qed
  have "legal_link (m_nodes t) (m_links_src_vector t ! k) (m_links_dest_vector t ! k) (m_links_latency_vector t ! k) (m_links_weight_vector t ! k)"
    if "k < length (m_links_src_vector t)" for k
  proof -
    have "(m_links_src_vector t ! k, m_links_dest_vector t ! k) \<in> links_of t"
      using that b(1) by (auto simp: links_of_def building_def set_zip)
    then show ?thesis using that b(1) by (auto simp: building_def)
  qed
  with out b show ?thesis by (simp add: topology_ok_def building_def)
qed



end
