(* ===== verification/Simple_Network.thy ===== *)
theory Simple_Network
  imports Net_Conservation Net_Hierarchy
begin

text \<open>
  The simple network: \<^verbatim>\<open>network/simple/Switch.C\<close> and \<^verbatim>\<open>SimpleNetwork.C\<close>, which build switches, throttles and
  buffers from the links that the topology asks for. Buffers live in the store and are named by their place in it; the
  number of a consumer stands for the address of the object. An entry of \<^verbatim>\<open>m_endpoint_switches\<close> that has not been
  assigned is \<open>None\<close>. The function \<^verbatim>\<open>clearStats\<close> of the perfect switch is empty.
\<close>

subsection \<open>Switches\<close>

record net_switch =
  sw_switch_id :: nat
  sw_perfect :: perfect_switch
  sw_throttles :: "throttle list"

definition switch_new :: "nat \<Rightarrow> nat \<Rightarrow> nat \<Rightarrow> net_switch" where
  "switch_new sid this vnets = \<lparr>sw_switch_id = sid, sw_perfect = pswitch_new this vnets, sw_throttles = []\<rparr>"

definition switch_addInPort :: "nat list \<Rightarrow> 'a net_buffer list \<times> net_switch \<Rightarrow> ('a net_buffer list \<times> net_switch) option" where
  "switch_addInPort inp = (\<lambda>(bs, sw). do {
     (bs', ps) \<leftarrow> pswitch_addInPort inp (bs, sw_perfect sw);
     Some (bs', sw\<lparr>sw_perfect := ps\<rparr>) })"

definition intermediary_queue :: "switch_env \<Rightarrow> 'a net_buffer" where
  "intermediary_queue env = (let b = mb_setOrdering True message_buffer_new in
     if FINITE_BUFFERING env then mb_setSize (FINITE_BUFFER_SIZE env) b else b)"

definition new_queues :: "switch_env \<Rightarrow> nat \<Rightarrow> 'a net_buffer list \<Rightarrow> nat list \<times> 'a net_buffer list" where
  "new_queues env n bs = ([length bs..<length bs + n], bs @ replicate n (intermediary_queue env))"

definition switch_addOutPort :: "switch_env \<Rightarrow> time \<Rightarrow> nat \<Rightarrow> nat list \<Rightarrow> net_dest \<Rightarrow> int \<Rightarrow> int \<Rightarrow>
    'a net_buffer list \<times> net_switch \<Rightarrow> ('a net_buffer list \<times> net_switch) option" where
  "switch_addOutPort env now this out routing_table_entry link_latency bw_multiplier = (\<lambda>(bs, sw). do {
     th \<leftarrow> throttle_new now this (sw_switch_id sw) (length (sw_throttles sw)) link_latency bw_multiplier;
     let (intermediateBuffers, bs1) = new_queues env (length out) bs;
     ps \<leftarrow> pswitch_addOutPort intermediateBuffers routing_table_entry (sw_perfect sw);
     (bs2, th') \<leftarrow> addLinks intermediateBuffers out (bs1, th);
     Some (bs2, sw\<lparr>sw_perfect := ps, sw_throttles := sw_throttles sw @ [th']\<rparr>) })"

definition switch_clearRoutingTables :: "net_switch \<Rightarrow> net_switch" where
  "switch_clearRoutingTables sw = sw\<lparr>sw_perfect := pswitch_clearRoutingTables (sw_perfect sw)\<rparr>"

definition switch_clearBuffers :: "net_switch \<Rightarrow> 'a net_buffer list \<Rightarrow> 'a net_buffer list option" where
  "switch_clearBuffers sw bs = do {
     bs1 \<leftarrow> pswitch_clearBuffers (sw_perfect sw) bs;
     fold_opt throttle_clear (sw_throttles sw) bs1 }"

definition switch_reconfigureOutPort :: "net_dest \<Rightarrow> net_switch \<Rightarrow> net_switch" where
  "switch_reconfigureOutPort routing_table_entry sw = sw\<lparr>sw_perfect := pswitch_reconfigureOutPort routing_table_entry (sw_perfect sw)\<rparr>"

definition getThrottle :: "nat \<Rightarrow> net_switch \<Rightarrow> throttle option" where
  "getThrottle link_number sw = do { check (link_number < length (sw_throttles sw)); Some (sw_throttles sw ! link_number) }"

definition switch_clearStats :: "time \<Rightarrow> net_switch \<Rightarrow> net_switch" where
  "switch_clearStats now sw = sw\<lparr>sw_throttles := map (throttle_clearStats now) (sw_throttles sw)\<rparr>"

subsection \<open>The network\<close>

record simple_network =
  sn_nodes :: nat
  sn_virtual_networks :: nat
  sn_toNetQueues :: "nat list list"
  sn_fromNetQueues :: "nat list list"
  sn_in_use :: "bool list"
  sn_ordered :: "bool list"
  sn_switches :: "net_switch list"
  sn_endpoint_switches :: "nat option list"
  sn_next_consumer :: nat
  \<comment> \<open>the address of the next object\<close>

text \<open>The buffers of the endpoints are allocated in pairs, to and from the network.\<close>

definition network_empty :: "nat \<Rightarrow> nat \<Rightarrow> nat \<Rightarrow> 'a net_buffer list \<times> simple_network" where
  "network_empty nodes vnets number_of_switches =
     (replicate (2 * nodes * vnets) message_buffer_new,
      \<lparr>sn_nodes = nodes, sn_virtual_networks = vnets,
       sn_toNetQueues = map (\<lambda>node. map (\<lambda>j. 2 * (node * vnets + j)) [0..<vnets]) [0..<nodes],
       sn_fromNetQueues = map (\<lambda>node. map (\<lambda>j. 2 * (node * vnets + j) + 1) [0..<vnets]) [0..<nodes],
       sn_in_use = replicate vnets False, sn_ordered = replicate vnets False,
       sn_switches = map (\<lambda>i. switch_new i i vnets) [0..<number_of_switches],
       sn_endpoint_switches = replicate nodes None, sn_next_consumer = number_of_switches\<rparr>)"

definition switch_at :: "nat \<Rightarrow> simple_network \<Rightarrow> net_switch option" where
  "switch_at s sn = do { check (s < length (sn_switches sn)); Some (sn_switches sn ! s) }"

definition put_switch :: "nat \<Rightarrow> net_switch \<Rightarrow> simple_network \<Rightarrow> simple_network" where
  "put_switch s sw sn = sn\<lparr>sn_switches := (sn_switches sn)[s := sw]\<rparr>"

definition makeInLink :: "bool \<Rightarrow> nat \<Rightarrow> nat \<Rightarrow> 'a net_buffer list \<times> simple_network \<Rightarrow> ('a net_buffer list \<times> simple_network) option" where
  "makeInLink isReconfiguration src dest = (\<lambda>(bs, sn). do {
     check (src < sn_nodes sn);
     if isReconfiguration then Some (bs, sn)
     else do {
       sw \<leftarrow> switch_at dest sn;
       (bs', sw') \<leftarrow> switch_addInPort (sn_toNetQueues sn ! src) (bs, sw);
       Some (bs', put_switch dest sw' sn) } })"

definition makeOutLink :: "switch_env \<Rightarrow> time \<Rightarrow> bool \<Rightarrow> nat \<Rightarrow> nat \<Rightarrow> net_dest \<Rightarrow> int \<Rightarrow> int \<Rightarrow>
    'a net_buffer list \<times> simple_network \<Rightarrow> ('a net_buffer list \<times> simple_network) option" where
  "makeOutLink env now isReconfiguration src dest routing_table_entry link_latency bw_multiplier = (\<lambda>(bs, sn). do {
     check (dest < sn_nodes sn);
     sw \<leftarrow> switch_at src sn;
     if isReconfiguration then Some (bs, put_switch src (switch_reconfigureOutPort routing_table_entry sw) sn)
     else do {
       (bs', sw') \<leftarrow> switch_addOutPort env now (sn_next_consumer sn) (sn_fromNetQueues sn ! dest) routing_table_entry link_latency
         bw_multiplier (bs, sw);
       Some (bs', (put_switch src sw' sn)\<lparr>sn_endpoint_switches := (sn_endpoint_switches sn)[dest := Some src],
         sn_next_consumer := sn_next_consumer sn + 1\<rparr>) } })"

definition makeInternalLink :: "switch_env \<Rightarrow> time \<Rightarrow> bool \<Rightarrow> nat \<Rightarrow> nat \<Rightarrow> net_dest \<Rightarrow> int \<Rightarrow> int \<Rightarrow>
    'a net_buffer list \<times> simple_network \<Rightarrow> ('a net_buffer list \<times> simple_network) option" where
  "makeInternalLink env now isReconfiguration src dest routing_table_entry link_latency bw_multiplier = (\<lambda>(bs, sn).
     if isReconfiguration then do {
       sw \<leftarrow> switch_at src sn;
       Some (bs, put_switch src (switch_reconfigureOutPort routing_table_entry sw) sn) }
     else do {
       let (queues, bs1) = new_queues env (sn_virtual_networks sn) bs;
       dsw \<leftarrow> switch_at dest sn;
       (bs2, dsw') \<leftarrow> switch_addInPort queues (bs1, dsw);
       let sn1 = put_switch dest dsw' sn;
       ssw \<leftarrow> switch_at src sn1;
       (bs3, ssw') \<leftarrow> switch_addOutPort env now (sn_next_consumer sn) queues routing_table_entry link_latency bw_multiplier (bs2, ssw);
       Some (bs3, (put_switch src ssw' sn1)\<lparr>sn_next_consumer := sn_next_consumer sn + 1\<rparr>) })"

fun make_net_link :: "switch_env \<Rightarrow> time \<Rightarrow> bool \<Rightarrow> net_link \<Rightarrow> 'a net_buffer list \<times> simple_network \<Rightarrow> ('a net_buffer list \<times> simple_network) option" where
  "make_net_link env now r (InLink src dest rt lat bw) = makeInLink r src dest"
| "make_net_link env now r (OutLink src dest rt lat weight bw) = makeOutLink env now r src dest rt lat bw"
| "make_net_link env now r (InternalLink src dest rt lat weight bw) = makeInternalLink env now r src dest rt lat bw"

text \<open>The constructor; the number of nodes it is given is not used.\<close>

definition network_new :: "switch_env \<Rightarrow> time \<Rightarrow> net_machines \<Rightarrow> net_params \<Rightarrow> ruby_config \<Rightarrow> nat \<Rightarrow>
    ('a net_buffer list \<times> simple_network \<times> topology) option" where
  "network_new env now nm p c _ = do {
     let nodes = MachineType_base_number (nm_types nm) (MachineType_NUM (nm_types nm));
     t \<leftarrow> topology_new nm p c nodes;
     (links, t') \<leftarrow> createLinks (nm_types nm) t;
     (bs, sn) \<leftarrow> fold_opt (make_net_link env now False) links
       (network_empty nodes (NUMBER_OF_VIRTUAL_NETWORKS env) (m_number_of_switches t));
     Some (bs, sn, t') }"

definition clear_queues :: "nat list list \<Rightarrow> nat \<Rightarrow> nat \<Rightarrow> 'a net_buffer list \<Rightarrow> 'a net_buffer list option" where
  "clear_queues queues node j bs = do { check (node < length queues); i \<leftarrow> ptr_at (queues ! node) j; buf_clear i bs }"

definition network_reset :: "simple_network \<Rightarrow> 'a net_buffer list \<Rightarrow> 'a net_buffer list option" where
  "network_reset sn bs = do {
     bs1 \<leftarrow> fold_opt (\<lambda>(node, j) bs. do { bs' \<leftarrow> clear_queues (sn_toNetQueues sn) node j bs; clear_queues (sn_fromNetQueues sn) node j bs' })
       (List.product [0..<sn_nodes sn] [0..<sn_virtual_networks sn]) bs;
     fold_opt switch_clearBuffers (sn_switches sn) bs1 }"

definition checkNetworkAllocation :: "nat \<Rightarrow> bool \<Rightarrow> nat \<Rightarrow> simple_network \<Rightarrow> simple_network option" where
  "checkNetworkAllocation node ordered network_num sn = do {
     check (node < sn_nodes sn);
     check (network_num < sn_virtual_networks sn);
     Some (sn\<lparr>sn_ordered := (if ordered then (sn_ordered sn)[network_num := True] else sn_ordered sn),
              sn_in_use := (sn_in_use sn)[network_num := True]\<rparr>) }"

definition getToNetQueue :: "nat \<Rightarrow> bool \<Rightarrow> nat \<Rightarrow> simple_network \<Rightarrow> (nat \<times> simple_network) option" where
  "getToNetQueue node ordered network_num sn = do {
     sn' \<leftarrow> checkNetworkAllocation node ordered network_num sn;
     i \<leftarrow> ptr_at (sn_toNetQueues sn ! node) network_num;
     Some (i, sn') }"

definition getFromNetQueue :: "nat \<Rightarrow> bool \<Rightarrow> nat \<Rightarrow> simple_network \<Rightarrow> (nat \<times> simple_network) option" where
  "getFromNetQueue node ordered network_num sn = do {
     sn' \<leftarrow> checkNetworkAllocation node ordered network_num sn;
     i \<leftarrow> ptr_at (sn_fromNetQueues sn ! node) network_num;
     Some (i, sn') }"

definition isVNetOrdered :: "simple_network \<Rightarrow> nat \<Rightarrow> bool" where "isVNetOrdered sn vnet = sn_ordered sn ! vnet"

definition validVirtualNetwork :: "simple_network \<Rightarrow> nat \<Rightarrow> bool" where "validVirtualNetwork sn vnet = sn_in_use sn ! vnet"

definition getThrottles :: "nat \<Rightarrow> simple_network \<Rightarrow> throttle list option" where
  "getThrottles node sn = do {
     check (node < sn_nodes sn);
     s \<leftarrow> sn_endpoint_switches sn ! node;
     sw \<leftarrow> switch_at s sn;
     Some (sw_throttles sw) }"

definition network_clearStats :: "time \<Rightarrow> simple_network \<Rightarrow> simple_network" where
  "network_clearStats now sn = sn\<lparr>sn_switches := map (switch_clearStats now) (sn_switches sn)\<rparr>"

end
