(* ===== verification/Network_Wiring.thy ===== *)
theory Network_Wiring
  imports Simple_Network
begin

text \<open>
  What the construction of the simple network promises: no assertion fails, every queue has the consumer that serves
  it, and a switch can route every message that the routes of the topology send through it.
\<close>

subsection \<open>Consumers\<close>

text \<open>Building only adds buffers and sets consumers that were not set.\<close>

definition grows :: "'a net_buffer list \<Rightarrow> 'a net_buffer list \<Rightarrow> bool" where
  "grows bs bs' \<longleftrightarrow> length bs \<le> length bs' \<and> (\<forall>i < length bs. \<forall>c. mb_consumer_ptr (bs ! i) = Some c \<longrightarrow> mb_consumer_ptr (bs' ! i) = Some c)"

lemma grows_trans: "grows bs bs' \<Longrightarrow> grows bs' bs'' \<Longrightarrow> grows bs bs''"
  by (auto simp: grows_def)

lemma grows_append: "grows bs (bs @ xs)"
  by (simp add: grows_def nth_append)

lemma buf_setConsumers_ok:
  assumes "distinct ps" "\<forall>i \<in> set ps. i < length bs \<and> mb_consumer_ptr (bs ! i) = None"
  shows "\<exists>bs'. fold_opt (\<lambda>i. buf_setConsumer i c) ps bs = Some bs' \<and> length bs' = length bs \<and>
    (\<forall>i \<in> set ps. mb_consumer_ptr (bs' ! i) = Some c) \<and> (\<forall>i. i \<notin> set ps \<longrightarrow> bs' ! i = bs ! i)"
  using assms
proof (induction ps arbitrary: bs)
  case (Cons p ps)
  have p: "p < length bs" "mb_consumer_ptr (bs ! p) = None" using Cons.prems(2) by simp_all
  let ?bs = "bs[p := (bs ! p)\<lparr>mb_consumer_ptr := Some c\<rparr>]"
  have 1: "buf_setConsumer p c bs = Some ?bs" using p by (simp add: buf_setConsumer_def buf_at_def mb_setConsumer_def check_bind)
  have "\<forall>i \<in> set ps. i < length ?bs \<and> mb_consumer_ptr (?bs ! i) = None" using Cons.prems by (auto simp: nth_list_update)
  then obtain bs' where 2: "fold_opt (\<lambda>i. buf_setConsumer i c) ps ?bs = Some bs'" "length bs' = length bs"
    "\<forall>i \<in> set ps. mb_consumer_ptr (bs' ! i) = Some c" "\<forall>i. i \<notin> set ps \<longrightarrow> bs' ! i = ?bs ! i"
    using Cons.IH [of ?bs] Cons.prems(1) by auto
  have "mb_consumer_ptr (bs' ! p) = Some c" using 2(4) Cons.prems(1) p by simp
  then show ?case using 1 2 by (intro exI [of _ bs']) (auto simp: nth_list_update)
qed simp

lemma addVirtualNetworks_ok:
  assumes "distinct (map fst ps)" "\<forall>i \<in> fst ` set ps. i < length bs \<and> mb_consumer_ptr (bs ! i) = None"
  shows "\<exists>bs' u. fold_opt addVirtualNetwork ps (bs, th) = Some (bs', th\<lparr>th_units_remaining := u, th_in := th_in th @ map fst ps,
      th_out := th_out th @ map snd ps\<rparr>) \<and> length bs' = length bs \<and>
    (\<forall>i \<in> fst ` set ps. mb_consumer_ptr (bs' ! i) = Some (th_consumer th)) \<and> (\<forall>i. i \<notin> fst ` set ps \<longrightarrow> bs' ! i = bs ! i)"
  using assms
proof (induction ps arbitrary: bs th)
  case (Cons io ps)
  obtain i j where io: "io = (i, j)" by (cases io)
  have p: "i < length bs" "mb_consumer_ptr (bs ! i) = None" using Cons.prems(2) io by simp_all
  let ?bs = "bs[i := (bs ! i)\<lparr>mb_consumer_ptr := Some (th_consumer th)\<rparr>]"
  let ?th = "th\<lparr>th_units_remaining := th_units_remaining th @ [0], th_in := th_in th @ [i], th_out := th_out th @ [j]\<rparr>"
  have 1: "addVirtualNetwork io (bs, th) = Some (?bs, ?th)"
    using p by (simp add: io addVirtualNetwork_def buf_setConsumer_def buf_at_def mb_setConsumer_def check_bind)
  have ni: "i \<notin> fst ` set ps" using Cons.prems(1) io by simp
  have "\<forall>k \<in> fst ` set ps. k < length ?bs \<and> mb_consumer_ptr (?bs ! k) = None" using Cons.prems ni io by (auto simp: nth_list_update)
  then obtain bs' u where 2: "fold_opt addVirtualNetwork ps (?bs, ?th) = Some (bs', ?th\<lparr>th_units_remaining := u, th_in := th_in ?th @ map fst ps,
      th_out := th_out ?th @ map snd ps\<rparr>)" "length bs' = length ?bs"
    "\<forall>i \<in> fst ` set ps. mb_consumer_ptr (bs' ! i) = Some (th_consumer ?th)" "\<forall>i. i \<notin> fst ` set ps \<longrightarrow> bs' ! i = ?bs ! i"
    using Cons.IH [of ?bs ?th] Cons.prems(1) by auto
  have ci: "mb_consumer_ptr (bs' ! i) = Some (th_consumer th)" using 2(4) ni p by simp
  have "fold_opt addVirtualNetwork (io # ps) (bs, th) = Some (bs', th\<lparr>th_units_remaining := u, th_in := th_in th @ map fst (io # ps),
      th_out := th_out th @ map snd (io # ps)\<rparr>)" using 1 2(1) io by simp
  moreover have "\<forall>k. k \<notin> fst ` set (io # ps) \<longrightarrow> bs' ! k = bs ! k" using 2(4) io by simp
  ultimately show ?case using 2(2,3) ci io by (intro exI [of _ bs'] exI [of _ u]) simp
next
  case Nil
  show ?case by (intro exI [of _ bs] exI [of _ "th_units_remaining th"]) simp
qed

lemma addLinks_ok:
  assumes "length inp = length out" "distinct inp" "\<forall>i \<in> set inp. i < length bs \<and> mb_consumer_ptr (bs ! i) = None" "th_in th = []" "th_out th = []"
  shows "\<exists>bs' th'. addLinks inp out (bs, th) = Some (bs', th') \<and> th_in th' = inp \<and> th_out th' = out \<and> th_consumer th' = th_consumer th \<and>
    length bs' = length bs \<and> (\<forall>i \<in> set inp. mb_consumer_ptr (bs' ! i) = Some (th_consumer th)) \<and> (\<forall>i. i \<notin> set inp \<longrightarrow> bs' ! i = bs ! i)"
proof -
  have z: "map fst (zip inp out) = inp" "map snd (zip inp out) = out" using assms(1) by simp_all
  then have zs: "fst ` set (zip inp out) = set inp" by (metis image_set)
  obtain bs' u where "fold_opt addVirtualNetwork (zip inp out) (bs, th) = Some (bs', th\<lparr>th_units_remaining := u,
      th_in := th_in th @ map fst (zip inp out), th_out := th_out th @ map snd (zip inp out)\<rparr>)" "length bs' = length bs"
    "\<forall>i \<in> set inp. mb_consumer_ptr (bs' ! i) = Some (th_consumer th)" "\<forall>i. i \<notin> set inp \<longrightarrow> bs' ! i = bs ! i"
    using addVirtualNetworks_ok [of "zip inp out" bs th] assms(2,3) unfolding z(1) zs by blast
  then show ?thesis using assms(1,4,5) z by (simp add: addLinks_def check_bind)
qed

subsection \<open>A switch\<close>

definition throttle_wired :: "'a net_buffer list \<Rightarrow> nat \<Rightarrow> nat list \<Rightarrow> throttle \<Rightarrow> bool" where
  "throttle_wired bs vnets out th \<longleftrightarrow> th_in th = out \<and> length (th_out th) = vnets \<and> (\<forall>i \<in> set out. mb_consumer_ptr (bs ! i) = Some (th_consumer th))"

text \<open>A switch whose outputs have the routing entries \<open>rts\<close>: messages in its inputs wake it, those in its outputs wake
  the throttle behind them.\<close>

definition sw_wired :: "machine_types \<Rightarrow> nat \<Rightarrow> 'a net_buffer list \<Rightarrow> net_dest list \<Rightarrow> net_switch \<Rightarrow> bool" where
  "sw_wired mt vnets bs rts sw \<longleftrightarrow> ps_virtual_networks (sw_perfect sw) = vnets \<and> ps_routing_table (sw_perfect sw) = rts \<and>
     wiring_ok mt (length bs) (sw_perfect sw) \<and>
     (\<forall>i \<in> in_bufs (sw_perfect sw). mb_consumer_ptr (bs ! i) = Some (ps_consumer (sw_perfect sw))) \<and>
     list_all2 (throttle_wired bs vnets) (ps_out (sw_perfect sw)) (sw_throttles sw)"

lemma wiring_ok_mono: "wiring_ok mt n ps \<Longrightarrow> n \<le> n' \<Longrightarrow> wiring_ok mt n' ps"
  by (fastforce simp: wiring_ok_def)

lemma throttles_wired_grows:
  assumes "list_all2 (throttle_wired bs vnets) outs ths" "grows bs bs'" "\<forall>p \<in> set outs. \<forall>i \<in> set p. i < length bs"
  shows "list_all2 (throttle_wired bs' vnets) outs ths"
proof -
  have "throttle_wired bs' vnets p th" if "p \<in> set outs" "throttle_wired bs vnets p th" for p th
    using that assms(2,3) by (simp add: throttle_wired_def grows_def)
  then show ?thesis using assms(1) by (auto intro: list.rel_mono_strong)
qed

lemma sw_wired_grows:
  assumes "sw_wired mt vnets bs rts sw" "grows bs bs'"
  shows "sw_wired mt vnets bs' rts sw"
proof -
  have w: "wiring_ok mt (length bs) (sw_perfect sw)" using assms(1) by (simp add: sw_wired_def)
  then have "\<forall>p \<in> set (ps_out (sw_perfect sw)). \<forall>i \<in> set p. i < length bs" by (auto simp: wiring_ok_def)
  moreover have "\<forall>i \<in> in_bufs (sw_perfect sw). i < length bs" using bufs_less [OF w] by blast
  ultimately have "list_all2 (throttle_wired bs' vnets) (ps_out (sw_perfect sw)) (sw_throttles sw)"
    and "\<forall>i \<in> in_bufs (sw_perfect sw). mb_consumer_ptr (bs' ! i) = Some (ps_consumer (sw_perfect sw))"
    using assms throttles_wired_grows [of bs vnets _ _ bs'] by (simp_all add: sw_wired_def grows_def)
  moreover have "wiring_ok mt (length bs') (sw_perfect sw)" using wiring_ok_mono [OF w] assms(2) by (simp add: grows_def)
  ultimately show ?thesis using assms(1) by (simp add: sw_wired_def)
qed

lemma switch_new_wired: "sw_wired mt vnets bs [] (switch_new sid this vnets)"
  by (simp add: sw_wired_def switch_new_def pswitch_new_def wiring_ok_def in_bufs_def out_bufs_def)

lemma switch_addInPort_ok:
  assumes sw: "sw_wired mt vnets bs rts sw" and p: "length p = vnets" "distinct p"
    "\<forall>i \<in> set p. i < length bs \<and> mb_consumer_ptr (bs ! i) = None \<and> i \<notin> out_bufs (sw_perfect sw)"
  shows "\<exists>bs' sw'. switch_addInPort p (bs, sw) = Some (bs', sw') \<and> sw_wired mt vnets bs' rts sw' \<and> grows bs bs' \<and> length bs' = length bs \<and>
    (\<forall>i. i \<notin> set p \<longrightarrow> bs' ! i = bs ! i) \<and> ps_out (sw_perfect sw') = ps_out (sw_perfect sw)"
proof -
  let ?ps = "sw_perfect sw"
  let ?ps' = "?ps\<lparr>ps_in := ps_in ?ps @ [p]\<rparr>"
  have w: "wiring_ok mt (length bs) ?ps" and v: "ps_virtual_networks ?ps = vnets" using sw by (simp_all add: sw_wired_def)
  obtain bs' where b: "fold_opt (\<lambda>i. buf_setConsumer i (ps_consumer ?ps)) p bs = Some bs'" "length bs' = length bs"
    "\<forall>i \<in> set p. mb_consumer_ptr (bs' ! i) = Some (ps_consumer ?ps)" "\<forall>i. i \<notin> set p \<longrightarrow> bs' ! i = bs ! i"
    using buf_setConsumers_ok [OF p(2), of bs "ps_consumer ?ps"] p(3) by blast
  have g: "grows bs bs'" unfolding grows_def using b(2,4) p(3) by (metis option.distinct(1) order_refl)
  have sets: "in_bufs ?ps' = in_bufs ?ps \<union> set p" "out_bufs ?ps' = out_bufs ?ps" by (auto simp: in_bufs_def out_bufs_def)
  have "in_bufs ?ps' \<inter> out_bufs ?ps' = {}" using p(3) wiring_disjoint [OF w] unfolding sets by blast
  then have "wiring_ok mt (length bs') ?ps'" using w b(2) p(1,3) v by (auto simp: wiring_ok_def)
  moreover have "\<forall>i \<in> in_bufs ?ps'. mb_consumer_ptr (bs' ! i) = Some (ps_consumer ?ps)"
    using b(3,4) sw unfolding sets sw_wired_def by fastforce
  moreover have "\<forall>q \<in> set (ps_out ?ps). \<forall>i \<in> set q. i < length bs" using w by (auto simp: wiring_ok_def)
  then have "list_all2 (throttle_wired bs' vnets) (ps_out ?ps) (sw_throttles sw)" using throttles_wired_grows [OF _ g] sw by (simp add: sw_wired_def)
  ultimately have "sw_wired mt vnets bs' rts (sw\<lparr>sw_perfect := ?ps'\<rparr>)" using sw by (simp add: sw_wired_def)
  moreover have "switch_addInPort p (bs, sw) = Some (bs', sw\<lparr>sw_perfect := ?ps'\<rparr>)"
    using b(1) p(1) v by (simp add: switch_addInPort_def pswitch_addInPort_def check_bind)
  ultimately show ?thesis using g b by (intro exI [of _ bs'] exI [of _ "sw\<lparr>sw_perfect := ?ps'\<rparr>"]) simp
qed

lemma intermediary_queue_consumer: "mb_consumer_ptr (intermediary_queue env) = None"
  by (simp add: intermediary_queue_def mb_setOrdering_def mb_setSize_def message_buffer_new_def Let_def)

lemma switch_addOutPort_ok:
  assumes sw: "sw_wired mt vnets bs rts sw" and "length out = vnets" "0 < bw" "nd_inv mt rt"
  shows "\<exists>bs' sw'. switch_addOutPort env now this out rt lat bw (bs, sw) = Some (bs', sw') \<and> sw_wired mt vnets bs' (rts @ [rt]) sw' \<and>
    grows bs bs' \<and> (\<forall>i < length bs. bs' ! i = bs ! i) \<and> out_bufs (sw_perfect sw') = out_bufs (sw_perfect sw) \<union> {length bs..<length bs + vnets}"
proof -
  let ?ps = "sw_perfect sw" and ?new = "[length bs..<length bs + vnets]" and ?n = "length (ps_out (sw_perfect sw))"
  let ?ps' = "?ps\<lparr>ps_link_order := ps_link_order ?ps @ [(?n, 0)], ps_out := ps_out ?ps @ [?new], ps_routing_table := ps_routing_table ?ps @ [rt]\<rparr>"
  let ?bs = "bs @ replicate vnets (intermediary_queue env)"
  have w: "wiring_ok mt (length bs) ?ps" and v: "ps_virtual_networks ?ps = vnets" using sw by (simp_all add: sw_wired_def)
  obtain th where th: "throttle_new now this (sw_switch_id sw) (length (sw_throttles sw)) lat bw = Some th" "th_in th = []" "th_out th = []"
    using assms(3) by (simp add: throttle_new_def throttle_clearStats_def check_bind)
  have fresh: "\<forall>i \<in> set ?new. i < length ?bs \<and> mb_consumer_ptr (?bs ! i) = None"
    by (auto simp: nth_append intermediary_queue_consumer)
  obtain bs' th' where b: "addLinks ?new out (?bs, th) = Some (bs', th')" "th_in th' = ?new" "th_out th' = out" "th_consumer th' = th_consumer th"
    "length bs' = length ?bs" "\<forall>i \<in> set ?new. mb_consumer_ptr (bs' ! i) = Some (th_consumer th)" "\<forall>i. i \<notin> set ?new \<longrightarrow> bs' ! i = ?bs ! i"
    using addLinks_ok [OF _ distinct_upt fresh th(2,3), of out] assms(2) by auto
  have old: "bs' ! i = bs ! i" if "i < length bs" for i using b(7) that by (simp add: nth_append)
  have g: "grows bs bs'" using b(5) old by (simp add: grows_def)
  have sets: "in_bufs ?ps' = in_bufs ?ps" "out_bufs ?ps' = out_bufs ?ps \<union> {length bs..<length bs + vnets}" by (auto simp: in_bufs_def out_bufs_def)
  have inb: "\<forall>i \<in> in_bufs ?ps. i < length bs" using bufs_less [OF w] by blast
  then have "in_bufs ?ps' \<inter> out_bufs ?ps' = {}" using wiring_disjoint [OF w] unfolding sets by fastforce
  moreover have "fst ` set (ps_link_order ?ps') = {..<length (ps_out ?ps')}" using w by (auto simp: wiring_ok_def less_Suc_eq)
  moreover have "\<forall>p \<in> set (ps_in ?ps') \<union> set (ps_out ?ps'). length p = ps_virtual_networks ?ps' \<and> (\<forall>i \<in> set p. i < length bs')"
    using w v b(5) by (fastforce simp: wiring_ok_def)
  ultimately have "wiring_ok mt (length bs') ?ps'" using w assms(4) by (simp add: wiring_ok_def)
  moreover have "\<forall>i \<in> in_bufs ?ps'. mb_consumer_ptr (bs' ! i) = Some (ps_consumer ?ps)" using sw inb old unfolding sets sw_wired_def by simp
  moreover have "list_all2 (throttle_wired bs' vnets) (ps_out ?ps @ [?new]) (sw_throttles sw @ [th'])"
  proof -
    have "\<forall>q \<in> set (ps_out ?ps). \<forall>i \<in> set q. i < length bs" using w by (auto simp: wiring_ok_def)
    then have "list_all2 (throttle_wired bs' vnets) (ps_out ?ps) (sw_throttles sw)" using throttles_wired_grows [OF _ g] sw by (simp add: sw_wired_def)
    moreover have "throttle_wired bs' vnets ?new th'" using b assms(2) by (simp add: throttle_wired_def)
    ultimately show ?thesis by (simp add: list_all2_appendI)
  qed
  ultimately have "sw_wired mt vnets bs' (rts @ [rt]) (sw\<lparr>sw_perfect := ?ps', sw_throttles := sw_throttles sw @ [th']\<rparr>)"
    using sw by (simp add: sw_wired_def)
  moreover have "switch_addOutPort env now this out rt lat bw (bs, sw) = Some (bs', sw\<lparr>sw_perfect := ?ps', sw_throttles := sw_throttles sw @ [th']\<rparr>)"
    using th(1) b(1) v assms(2) by (simp add: switch_addOutPort_def new_queues_def pswitch_addOutPort_def check_bind)
  ultimately show ?thesis using g old sets
    by (intro exI [of _ bs'] exI [of _ "sw\<lparr>sw_perfect := ?ps', sw_throttles := sw_throttles sw @ [th']\<rparr>"]) simp
qed

end
