(* ===== verification/Network_Construction.thy ===== *)
theory Network_Construction
  imports Network_Wiring
begin

text \<open>
  Making the links of a topology: each request succeeds and leaves a network that is wired up for the links so far.
\<close>

subsection \<open>The network\<close>

definition entries :: "nat \<Rightarrow> nat \<Rightarrow> net_link list \<Rightarrow> net_dest list" where
  "entries n k links = map (snd \<circ> snd) (filter (\<lambda>e. fst e = 2 * n + k) (map (link_ends n) links))"

lemma entries_simps [simp]:
  "entries n k [] = []" "entries n k (links @ [l]) = entries n k links @ (if fst (link_ends n l) = 2 * n + k then [snd (snd (link_ends n l))] else [])"
  by (simp_all add: entries_def)

fun in_node :: "net_link \<Rightarrow> nat option" where
  "in_node (InLink src dest rt lat bw) = Some src"
| "in_node _ = None"

definition to_net :: "nat \<Rightarrow> nat \<Rightarrow> nat list" where
  "to_net vnets node = map (\<lambda>j. 2 * (node * vnets + j)) [0..<vnets]"

definition from_net :: "nat \<Rightarrow> nat \<Rightarrow> nat list" where
  "from_net vnets node = map (\<lambda>j. 2 * (node * vnets + j) + 1) [0..<vnets]"

lemma to_net_bound:
  assumes "node < n" "i \<in> set (to_net vnets node)"
  shows "i < 2 * n * vnets"
proof -
  obtain j where j: "i = 2 * (node * vnets + j)" "j < vnets" using assms(2) by (auto simp: to_net_def)
  have "node * vnets + j < Suc node * vnets" using j(2) by simp
  also have "\<dots> \<le> n * vnets" using assms(1) by (intro mult_le_mono1) simp
  finally show ?thesis using j(1) by simp
qed

lemma to_net_disjoint:
  assumes "i \<in> set (to_net vnets a)" "i \<in> set (to_net vnets b)"
  shows "a = b"
proof -
  obtain j where j: "i = 2 * (a * vnets + j)" "j < vnets" using assms(1) by (auto simp: to_net_def)
  obtain k where k: "i = 2 * (b * vnets + k)" "k < vnets" using assms(2) by (auto simp: to_net_def)
  have "(a * vnets + j) div vnets = a" "(b * vnets + k) div vnets = b" using j(2) k(2) by simp_all
  moreover have "a * vnets + j = b * vnets + k" using j(1) k(1) by simp
  ultimately show ?thesis by metis
qed

lemma to_net_distinct: "distinct (to_net vnets node)" "length (to_net vnets node) = vnets" "length (from_net vnets node) = vnets"
  by (simp_all add: to_net_def from_net_def distinct_map inj_on_def)

definition net_wired :: "machine_types \<Rightarrow> nat \<Rightarrow> nat \<Rightarrow> nat \<Rightarrow> net_link list \<Rightarrow> 'a net_buffer list \<Rightarrow> simple_network \<Rightarrow> bool" where
  "net_wired mt n vnets S links bs sn \<longleftrightarrow> sn_nodes sn = n \<and> sn_virtual_networks sn = vnets \<and> length (sn_switches sn) = S \<and>
     sn_toNetQueues sn = map (to_net vnets) [0..<n] \<and> sn_fromNetQueues sn = map (from_net vnets) [0..<n] \<and>
     length (sn_endpoint_switches sn) = n \<and> 2 * n * vnets \<le> length bs \<and>
     (\<forall>k < S. sw_wired mt vnets bs (entries n k links) (sn_switches sn ! k) \<and>
        (\<forall>i \<in> out_bufs (sw_perfect (sn_switches sn ! k)). 2 * n * vnets \<le> i)) \<and>
     (\<forall>node < n. Some node \<notin> in_node ` set links \<longrightarrow> (\<forall>i \<in> set (to_net vnets node). mb_consumer_ptr (bs ! i) = None))"

fun legal_request :: "machine_types \<Rightarrow> nat \<Rightarrow> nat \<Rightarrow> net_link \<Rightarrow> bool" where
  "legal_request mt n S (InLink src dest rt lat bw) \<longleftrightarrow> src < n \<and> dest < S"
| "legal_request mt n S (OutLink src dest rt lat weight bw) \<longleftrightarrow> src < S \<and> dest < n \<and> nd_inv mt rt \<and> 0 < bw"
| "legal_request mt n S (InternalLink src dest rt lat weight bw) \<longleftrightarrow> src < S \<and> dest < S \<and> nd_inv mt rt \<and> 0 < bw"

lemma net_wired_empty:
  fixes bs :: "'a net_buffer list"
  assumes "network_empty n vnets S = (bs, sn)"
  shows "net_wired mt n vnets S [] bs sn"
proof -
  have bs: "bs = replicate (2 * n * vnets) message_buffer_new" and sn: "sn_nodes sn = n" "sn_virtual_networks sn = vnets"
    "sn_toNetQueues sn = map (to_net vnets) [0..<n]" "sn_fromNetQueues sn = map (from_net vnets) [0..<n]"
    "sn_switches sn = map (\<lambda>i. switch_new i i vnets) [0..<S]" "length (sn_endpoint_switches sn) = n"
    using assms by (auto simp: network_empty_def to_net_def from_net_def)
  have "mb_consumer_ptr (bs ! i) = None" if "node < n" "i \<in> set (to_net vnets node)" for node i
    using to_net_bound [OF that] by (simp add: bs message_buffer_new_def)
  moreover have "out_bufs (sw_perfect (switch_new i i vnets)) = {}" for i by (simp add: switch_new_def pswitch_new_def out_bufs_def)
  ultimately show ?thesis using sn by (simp add: net_wired_def switch_new_wired bs)
qed

text \<open>One switch changes and the buffers grow.\<close>

lemma net_wired_put:
  assumes nw: "net_wired mt n vnets S links bs sn" and k: "k < S" and g: "grows bs bs'"
    and sw: "sw_wired mt vnets bs' (entries n k links') sw'" "\<forall>i \<in> out_bufs (sw_perfect sw'). 2 * n * vnets \<le> i"
    and oth: "\<And>k'. k' < S \<Longrightarrow> k' \<noteq> k \<Longrightarrow> entries n k' links' = entries n k' links" and sub: "set links \<subseteq> set links'"
    and free: "\<And>node i. node < n \<Longrightarrow> Some node \<notin> in_node ` set links' \<Longrightarrow> i \<in> set (to_net vnets node) \<Longrightarrow> bs' ! i = bs ! i"
  shows "net_wired mt n vnets S links' bs' (put_switch k sw' sn)"
proof -
  have "sw_wired mt vnets bs' (entries n k' links') ((sn_switches sn)[k := sw'] ! k') \<and>
      (\<forall>i \<in> out_bufs (sw_perfect ((sn_switches sn)[k := sw'] ! k')). 2 * n * vnets \<le> i)" if "k' < S" for k'
  proof (cases "k' = k")
    case True
    then show ?thesis using sw k nw by (simp add: net_wired_def)
  next
    case False
    then show ?thesis using that nw sw_wired_grows [OF _ g] oth [OF that False] by (simp add: net_wired_def)
  qed
  moreover have "2 * n * vnets \<le> length bs'" using nw g by (simp add: net_wired_def grows_def)
  moreover have "mb_consumer_ptr (bs' ! i) = None" if a: "node < n" "Some node \<notin> in_node ` set links'" "i \<in> set (to_net vnets node)" for node i
  proof -
    have "Some node \<notin> in_node ` set links" using a(2) sub by auto
    then show ?thesis using nw free [OF a] a(1,3) by (simp add: net_wired_def)
  qed
  ultimately show ?thesis using nw by (simp add: net_wired_def put_switch_def)
qed

lemma makeInLink_ok:
  assumes nw: "net_wired mt n vnets S links bs sn" and l: "src < n" "dest < S" and new: "Some src \<notin> in_node ` set links"
  shows "\<exists>bs' sn'. makeInLink False src dest (bs, sn) = Some (bs', sn') \<and> net_wired mt n vnets S (links @ [InLink src dest rt lat bw]) bs' sn'"
proof -
  let ?sw = "sn_switches sn ! dest" and ?p = "to_net vnets src" and ?l = "InLink src dest rt lat bw"
  have sw: "sw_wired mt vnets bs (entries n dest links) ?sw" "\<forall>i \<in> out_bufs (sw_perfect ?sw). 2 * n * vnets \<le> i"
    using nw l(2) by (simp_all add: net_wired_def)
  have "2 * n * vnets \<le> length bs" using nw by (simp add: net_wired_def)
  then have free: "\<forall>i \<in> set ?p. i < length bs \<and> mb_consumer_ptr (bs ! i) = None \<and> i \<notin> out_bufs (sw_perfect ?sw)"
    using nw new l(1) to_net_bound [OF l(1)] sw(2) by (force simp: net_wired_def)
  obtain bs' sw' where a: "switch_addInPort ?p (bs, ?sw) = Some (bs', sw')" "sw_wired mt vnets bs' (entries n dest links) sw'" "grows bs bs'"
    "\<forall>i. i \<notin> set ?p \<longrightarrow> bs' ! i = bs ! i" "ps_out (sw_perfect sw') = ps_out (sw_perfect ?sw)"
    using switch_addInPort_ok [OF sw(1) to_net_distinct(2,1) free] by blast
  have e: "entries n k (links @ [?l]) = entries n k links" for k using l(1) by simp
  have "\<forall>i \<in> out_bufs (sw_perfect sw'). 2 * n * vnets \<le> i" using sw(2) a(5) by (simp add: out_bufs_def)
  moreover have "bs' ! i = bs ! i" if "Some node \<notin> in_node ` set (links @ [?l])" "i \<in> set (to_net vnets node)" for node i
    using a(4) that to_net_disjoint [of i vnets node src] by auto
  moreover have "set links \<subseteq> set (links @ [?l])" by auto
  ultimately have "net_wired mt n vnets S (links @ [?l]) bs' (put_switch dest sw' sn)"
    using net_wired_put [OF nw l(2) a(3), of "links @ [?l]" sw'] a(2) unfolding e by blast
  moreover have "makeInLink False src dest (bs, sn) = Some (bs', put_switch dest sw' sn)"
    using nw l a(1) by (simp add: makeInLink_def switch_at_def net_wired_def check_bind)
  ultimately show ?thesis by blast
qed

lemma net_wired_frame:
  "net_wired mt n vnets S links bs sn \<Longrightarrow> length es = n \<Longrightarrow> net_wired mt n vnets S links bs (sn\<lparr>sn_endpoint_switches := es, sn_next_consumer := c\<rparr>)"
  "net_wired mt n vnets S links bs sn \<Longrightarrow> net_wired mt n vnets S links bs (sn\<lparr>sn_next_consumer := c\<rparr>)"
  by (simp_all add: net_wired_def)

lemma makeOutLink_ok:
  assumes nw: "net_wired mt n vnets S links bs sn" and l: "src < S" "dest < n" "nd_inv mt rt" "0 < bw"
  shows "\<exists>bs' sn'. makeOutLink env now False src dest rt lat bw (bs, sn) = Some (bs', sn') \<and>
    net_wired mt n vnets S (links @ [OutLink src dest rt lat weight bw]) bs' sn'"
proof -
  let ?sw = "sn_switches sn ! src" and ?l = "OutLink src dest rt lat weight bw" and ?c = "sn_next_consumer sn"
  have sw: "sw_wired mt vnets bs (entries n src links) ?sw" "\<forall>i \<in> out_bufs (sw_perfect ?sw). 2 * n * vnets \<le> i"
    and len: "2 * n * vnets \<le> length bs" using nw l(1) by (simp_all add: net_wired_def)
  obtain bs' sw' where a: "switch_addOutPort env now ?c (from_net vnets dest) rt lat bw (bs, ?sw) = Some (bs', sw')"
    "sw_wired mt vnets bs' (entries n src links @ [rt]) sw'" "grows bs bs'" "\<forall>i < length bs. bs' ! i = bs ! i"
    "out_bufs (sw_perfect sw') = out_bufs (sw_perfect ?sw) \<union> {length bs..<length bs + vnets}"
    using switch_addOutPort_ok [OF sw(1) to_net_distinct(3) l(4,3)] by blast
  have "\<forall>i \<in> out_bufs (sw_perfect sw'). 2 * n * vnets \<le> i" using sw(2) a(5) len by auto
  moreover have "bs' ! i = bs ! i" if "node < n" "i \<in> set (to_net vnets node)" for node i using a(4) to_net_bound [OF that] len by simp
  ultimately have "net_wired mt n vnets S (links @ [?l]) bs' (put_switch src sw' sn)"
    using net_wired_put [OF nw l(1) a(3), of "links @ [?l]" sw'] a(2) by auto
  from net_wired_frame(1) [OF this, of "(sn_endpoint_switches sn)[dest := Some src]" "?c + 1"]
  have "net_wired mt n vnets S (links @ [?l]) bs' ((put_switch src sw' sn)\<lparr>sn_endpoint_switches := (sn_endpoint_switches sn)[dest := Some src],
      sn_next_consumer := ?c + 1\<rparr>)" using nw by (simp add: net_wired_def)
  moreover have "makeOutLink env now False src dest rt lat bw (bs, sn) = Some (bs', (put_switch src sw' sn)\<lparr>sn_endpoint_switches :=
      (sn_endpoint_switches sn)[dest := Some src], sn_next_consumer := ?c + 1\<rparr>)"
    using nw l a(1) by (simp add: makeOutLink_def switch_at_def net_wired_def check_bind)
  ultimately show ?thesis by blast
qed

lemma makeInternalLink_ok:
  fixes bs :: "'a net_buffer list"
  assumes nw: "net_wired mt n vnets S links bs sn" and l: "src < S" "dest < S" "nd_inv mt rt" "0 < bw"
  shows "\<exists>bs' sn'. makeInternalLink env now False src dest rt lat bw (bs, sn) = Some (bs', sn') \<and>
    net_wired mt n vnets S (links @ [InternalLink src dest rt lat weight bw]) bs' sn'"
proof -
  let ?dsw = "sn_switches sn ! dest" and ?l = "InternalLink src dest rt lat weight bw" and ?c = "sn_next_consumer sn"
  let ?q = "[length bs..<length bs + vnets]" and ?bs = "bs @ replicate vnets (intermediary_queue env)"
  have dsw0: "sw_wired mt vnets bs (entries n dest links) ?dsw" "\<forall>i \<in> out_bufs (sw_perfect ?dsw). 2 * n * vnets \<le> i"
    and len: "2 * n * vnets \<le> length bs" using nw l(2) by (simp_all add: net_wired_def)
  note dsw = sw_wired_grows [OF dsw0(1) grows_append [of bs "replicate vnets (intermediary_queue env)"]]
  have old: "\<forall>i \<in> out_bufs (sw_perfect ?dsw). i < length bs" using bufs_less [of mt "length bs" "sw_perfect ?dsw"] dsw0(1) by (auto simp: sw_wired_def)
  have q: "length ?q = vnets" "distinct ?q" "\<forall>i \<in> set ?q. i < length ?bs \<and> mb_consumer_ptr (?bs ! i) = None \<and> i \<notin> out_bufs (sw_perfect ?dsw)"
    using old by (auto simp: nth_append intermediary_queue_consumer)
  obtain bs2 dsw' where a: "switch_addInPort ?q (?bs, ?dsw) = Some (bs2, dsw')" "sw_wired mt vnets bs2 (entries n dest links) dsw'"
    "grows ?bs bs2" "length bs2 = length ?bs" "\<forall>i. i \<notin> set ?q \<longrightarrow> bs2 ! i = ?bs ! i" "ps_out (sw_perfect dsw') = ps_out (sw_perfect ?dsw)"
    using switch_addInPort_ok [OF dsw q] by blast
  have same2: "bs2 ! i = bs ! i" if "i < length bs" for i using a(5) that by (simp add: nth_append)
  have g2: "grows bs bs2" using grows_trans [OF grows_append a(3)] .
  let ?sn1 = "put_switch dest dsw' sn"
  have tn: "i < length bs" if "node < n" "i \<in> set (to_net vnets node)" for node i using to_net_bound [OF that] len by simp
  have o1: "\<forall>i \<in> out_bufs (sw_perfect dsw'). 2 * n * vnets \<le> i" using dsw0(2) a(6) by (simp add: out_bufs_def)
  have nw1: "net_wired mt n vnets S links bs2 ?sn1"
    using net_wired_put [OF nw l(2) g2 a(2) o1] same2 tn by blast
  let ?ssw = "sn_switches ?sn1 ! src"
  have ssw: "sw_wired mt vnets bs2 (entries n src links) ?ssw" "\<forall>i \<in> out_bufs (sw_perfect ?ssw). 2 * n * vnets \<le> i"
    and len2: "2 * n * vnets \<le> length bs2" using nw1 l(1) by (simp_all add: net_wired_def)
  obtain bs3 ssw' where b: "switch_addOutPort env now ?c ?q rt lat bw (bs2, ?ssw) = Some (bs3, ssw')"
    "sw_wired mt vnets bs3 (entries n src links @ [rt]) ssw'" "grows bs2 bs3" "\<forall>i < length bs2. bs3 ! i = bs2 ! i"
    "out_bufs (sw_perfect ssw') = out_bufs (sw_perfect ?ssw) \<union> {length bs2..<length bs2 + vnets}"
    using switch_addOutPort_ok [OF ssw(1) q(1) l(4,3)] by blast
  have "\<forall>i \<in> out_bufs (sw_perfect ssw'). 2 * n * vnets \<le> i" using ssw(2) b(5) len2 by auto
  moreover have "bs3 ! i = bs2 ! i" if "node < n" "i \<in> set (to_net vnets node)" for node i using b(4) tn [OF that] a(4) by simp
  ultimately have "net_wired mt n vnets S (links @ [?l]) bs3 (put_switch src ssw' ?sn1)"
    using net_wired_put [OF nw1 l(1) b(3), of "links @ [?l]" ssw'] b(2) by auto
  from net_wired_frame(2) [OF this]
  have "net_wired mt n vnets S (links @ [?l]) bs3 ((put_switch src ssw' ?sn1)\<lparr>sn_next_consumer := ?c + 1\<rparr>)" .
  moreover have "makeInternalLink env now False src dest rt lat bw (bs, sn) = Some (bs3, (put_switch src ssw' ?sn1)\<lparr>sn_next_consumer := ?c + 1\<rparr>)"
  proof -
    have "sn_virtual_networks sn = vnets" "switch_at dest sn = Some ?dsw" "switch_at src ?sn1 = Some ?ssw"
      using nw nw1 l by (simp_all add: switch_at_def net_wired_def check_bind)
    then show ?thesis using a(1) b(1) by (simp add: makeInternalLink_def new_queues_def)
  qed
  ultimately show ?thesis by blast
qed

lemma make_net_links_ok:
  fixes bs :: "'a net_buffer list"
  assumes "net_wired mt n vnets S done bs sn" "\<forall>l \<in> set links. legal_request mt n S l"
    "distinct (filter (\<lambda>x. x \<noteq> None) (map in_node (done @ links)))"
  shows "\<exists>bs' sn'. fold_opt (make_net_link env now False) links (bs, sn) = Some (bs', sn') \<and> net_wired mt n vnets S (done @ links) bs' sn'"
  using assms
proof (induction links arbitrary: "done" bs sn)
  case (Cons l links)
  have leg: "legal_request mt n S l" using Cons.prems(2) by simp
  have new: "Some src \<notin> in_node ` set done" if "in_node l = Some src" for src using Cons.prems(3) that by auto
  obtain bs1 sn1 where 1: "make_net_link env now False l (bs, sn) = Some (bs1, sn1)" "net_wired mt n vnets S (done @ [l]) bs1 sn1"
  proof (cases l)
    case (InLink src dest rt lat bw)
    then show ?thesis using that makeInLink_ok [OF Cons.prems(1), of src dest rt lat bw] new leg by auto
  next
    case (OutLink src dest rt lat weight bw)
    then show ?thesis using that makeOutLink_ok [OF Cons.prems(1), of src dest rt bw env now lat weight] leg by auto
  next
    case (InternalLink src dest rt lat weight bw)
    then show ?thesis using that makeInternalLink_ok [OF Cons.prems(1), of src dest rt bw env now lat weight] leg by auto
  qed
  then show ?case using Cons.IH [OF 1(2)] Cons.prems(2,3) by auto
qed simp

end
