(* ===== verification/Network_Built.thy ===== *)
theory Network_Built
  imports Network_Construction
begin

text \<open>
  The network that the topology builds: the links that \<^verbatim>\<open>createLinks\<close> asks for are legal requests, so the construction
  goes through, and the routing tables of the switches are the routes of \<open>Net_Routing\<close>.
\<close>

subsection \<open>The links of a topology\<close>

definition link_pair :: "nat \<Rightarrow> net_link \<Rightarrow> nat \<times> nat" where
  "link_pair n l = (fst (link_ends n l), fst (snd (link_ends n l)))"

fun link_multiplier :: "net_link \<Rightarrow> int" where
  "link_multiplier (InLink src dest rt lat bw) = bw"
| "link_multiplier (OutLink src dest rt lat weight bw) = bw"
| "link_multiplier (InternalLink src dest rt lat weight bw) = bw"

fun out_node_ok :: "nat \<Rightarrow> net_link \<Rightarrow> bool" where
  "out_node_ok n (OutLink src dest rt lat weight bw) \<longleftrightarrow> dest < n"
| "out_node_ok n _ \<longleftrightarrow> True"

lemma makeLink_ends:
  "makeLink n i j rt lat weight bw = Some l \<Longrightarrow>
     link_ends n l = (i, j, rt) \<and> link_multiplier l = bw \<and> in_node l = (if i < n then Some i else None) \<and> out_node_ok n l"
  by (auto simp: makeLink_def bind_Some_iff split: if_splits)

lemma route_machine_inv:
  assumes "fold_opt (route_machine mt src next weights dist) ms (d, rt) = Some (d', rt')" "nd_inv mt rt" "set ms \<subseteq> nd_machines mt"
  shows "nd_inv mt rt'"
  using assms
proof (induction ms arbitrary: d rt)
  case (Cons m ms)
  obtain d1 rt1 where 1: "route_machine mt src next weights dist m (d, rt) = Some (d1, rt1)"
    "fold_opt (route_machine mt src next weights dist) ms (d1, rt1) = Some (d', rt')"
    using Cons.prems(1) by (auto simp: bind_Some_iff)
  have m: "m \<in> nd_machines mt" using Cons.prems(3) by simp
  obtain r where r: "nd_add mt m rt = Some r" "nd_inv mt r" using nd_add_ok [OF Cons.prems(2) m] by blast
  have "nd_inv mt rt1" using 1(1) Cons.prems(2) r by (auto simp: route_machine_def bind_Some_iff split: if_splits)
  then show ?case using Cons.IH [OF 1(2)] Cons.prems(3) by simp
qed simp

lemma shortest_path_to_node_inv:
  assumes "net_types_ok mt" "shortest_path_to_node mt src next weights dist = Some rt"
  shows "nd_inv mt rt"
proof -
  obtain r0 where r0: "nd_new mt = Some r0" "nd_inv mt r0" using nd_new_ok assms(1) by (metis net_types_ok_def)
  then obtain d where "fold_opt (route_machine mt src next weights dist) (machine_list mt) (0, r0) = Some (d, rt)"
    using assms(2) by (auto simp: shortest_path_to_node_def bind_Some_iff)
  then show ?thesis using route_machine_inv r0(2) machine_list_set [of mt] by (metis subset_refl)
qed

definition linked :: "matrix \<Rightarrow> nat \<times> nat \<Rightarrow> bool" where
  "linked weights = (\<lambda>(i, j). \<exists>w. mat_at weights i j = Some w \<and> 0 < w \<and> w \<noteq> INFINITE_LATENCY)"

lemma create_links_shape:
  assumes "net_types_ok mt" "fold_opt (create_link mt n weights lats bws dist) ps acc = Some links"
  shows "\<exists>new. links = acc @ new \<and> map (link_pair n) new = filter (linked weights) ps \<and>
    (\<forall>l \<in> set new. nd_inv mt (snd (snd (link_ends n l))) \<and> out_node_ok n l \<and> in_node l = (if fst (link_pair n l) < n then Some (fst (link_pair n l)) else None) \<and>
       mat_at bws (fst (link_pair n l)) (snd (link_pair n l)) = Some (link_multiplier l))"
  using assms(2)
proof (induction ps arbitrary: acc)
  case (Cons ij ps)
  obtain i j where ij: "ij = (i, j)" by (cases ij)
  obtain acc1 where 1: "create_link mt n weights lats bws dist (i, j) acc = Some acc1"
    "fold_opt (create_link mt n weights lats bws dist) ps acc1 = Some links"
    using Cons.prems ij by (auto simp: bind_Some_iff)
  obtain w b lat where m: "mat_at weights i j = Some w" "mat_at bws i j = Some b" "mat_at lats i j = Some lat"
    using 1(1) by (auto simp: create_link_def bind_Some_iff)
  obtain new where new: "links = acc1 @ new" "map (link_pair n) new = filter (linked weights) ps"
    "\<forall>l \<in> set new. nd_inv mt (snd (snd (link_ends n l))) \<and> out_node_ok n l \<and> in_node l = (if fst (link_pair n l) < n then Some (fst (link_pair n l)) else None) \<and>
       mat_at bws (fst (link_pair n l)) (snd (link_pair n l)) = Some (link_multiplier l)" using Cons.IH [OF 1(2)] by blast
  show ?case
  proof (cases "linked weights (i, j)")
    case True
    then have "0 < w \<and> w \<noteq> INFINITE_LATENCY" using m by (simp add: linked_def)
    then obtain rt l where l: "shortest_path_to_node mt i j weights dist = Some rt" "makeLink n i j rt lat w b = Some l" "acc1 = acc @ [l]"
      using 1(1) m by (auto simp: create_link_def bind_Some_iff)
    note e = makeLink_ends [OF l(2)]
    have "link_pair n l = (i, j)" using e by (simp add: link_pair_def)
    moreover have "nd_inv mt (snd (snd (link_ends n l)))" using shortest_path_to_node_inv [OF assms(1) l(1)] e by simp
    ultimately show ?thesis using new e True m(2) ij l(3) by (intro exI [of _ "l # new"]) simp
  next
    case False
    then have "\<not> (0 < w \<and> w \<noteq> INFINITE_LATENCY)" using m by (simp add: linked_def)
    then have "acc1 = acc" using 1(1) m by (auto simp: create_link_def)
    then show ?thesis using new False ij by auto
  qed
qed simp

subsection \<open>Topologies that can be built\<close>

text \<open>Every link joins switches that exist, an endpoint enters the network in one place, and the links that leave a
  switch have bandwidth.\<close>

definition buildable :: "topology \<Rightarrow> bool" where
  "buildable t \<longleftrightarrow> topology_ok t \<and> (\<forall>(i, j) \<in> links_of t. i < switch_bound t \<and> j < switch_bound t) \<and>
     (\<forall>(i, j) \<in> links_of t. \<forall>(i', j') \<in> links_of t. i = i' \<and> i < m_nodes t \<longrightarrow> j = j') \<and>
     (\<forall>k < length (m_links_src_vector t). 2 * m_nodes t \<le> m_links_src_vector t ! k \<longrightarrow> 0 < m_bw_multiplier_vector t ! k)"

lemma in_nodes_distinct:
  assumes "distinct (map (link_pair n) links)" "\<forall>l \<in> set links. in_node l = (if fst (link_pair n l) < n then Some (fst (link_pair n l)) else None)"
    and "\<And>l l'. l \<in> set links \<Longrightarrow> l' \<in> set links \<Longrightarrow> fst (link_pair n l) = fst (link_pair n l') \<Longrightarrow> fst (link_pair n l) < n \<Longrightarrow>
      snd (link_pair n l) = snd (link_pair n l')"
  shows "distinct (filter (\<lambda>x. x \<noteq> None) (map in_node links))"
  using assms
proof (induction links)
  case (Cons l links)
  have "False" if l': "l' \<in> set links" "in_node l' = in_node l" "in_node l \<noteq> None" for l'
  proof -
    have "fst (link_pair n l) = fst (link_pair n l')" "fst (link_pair n l) < n" using l' Cons.prems(2) by (auto split: if_splits)
    then have "link_pair n l = link_pair n l'" using Cons.prems(3) [of l l'] l'(1) by (simp add: prod_eq_iff)
    then show False using Cons.prems(1) l'(1) by (metis distinct.simps(2) image_eqI list.simps(9) set_map)
  qed
  then have "in_node l \<noteq> None \<Longrightarrow> in_node l \<notin> set (map in_node links)" by (metis imageE set_map)
  then show ?case using Cons by auto
qed simp

lemma topology_links:
  assumes mt: "net_types_ok mt" and t: "buildable t" "m_nodes t = MachineType_base_number mt (MachineType_NUM mt)"
    and c: "createLinks mt t = Some (links, t')"
  shows "\<forall>l \<in> set links. legal_request mt (m_nodes t) (m_number_of_switches t) l"
    "distinct (filter (\<lambda>x. x \<noteq> None) (map in_node links))"
proof -
  let ?S = "max_switch_id t + 1" and ?n = "m_nodes t"
  have tok: "topology_ok t" using t(1) by (simp add: buildable_def)
  obtain w0 weights lats bws where m: "clear_diagonal ?S (const_matrix ?S INFINITE_LATENCY) = Some w0"
    "fill_matrix t m_links_weight_vector w0 = Some weights" "fill_matrix t m_links_latency_vector (const_matrix ?S (-1)) = Some lats"
    "fill_matrix t m_bw_multiplier_vector (const_matrix ?S (-1)) = Some bws"
    and sq: "square ?S weights" "square ?S lats" "square ?S bws"
    and w: "\<And>i j. i < ?S \<Longrightarrow> j < ?S \<Longrightarrow> entry weights i j = topo_weight t i j"
    and "\<And>i j. (i, j) \<in> links_of t \<Longrightarrow> entry lats i j \<noteq> -1"
    using topology_matrices [OF tok] by blast
  note c1 = c [unfolded createLinks_def Let_def m option.simps Option.bind.simps]
  have "shortest_path weights lats (const_matrix ?S 0) \<noteq> None"
    using c1 by (cases "shortest_path weights lats (const_matrix ?S 0)") (simp_all del: upt_Suc)
  then obtain dist ls sw where sp: "shortest_path weights lats (const_matrix ?S 0) = Some (dist, ls, sw)" by (metis option.exhaust prod_cases3)
  have f: "fold_opt (create_link mt ?n weights lats bws dist) (List.product [0..<?S] [0..<?S]) [] = Some links"
    using c1 unfolding sp by (cases "fold_opt (create_link mt ?n weights lats bws dist) (List.product [0..<?S] [0..<?S]) []")
      (simp_all del: upt_Suc)
  note shape = create_links_shape [OF mt f]
  then have sh: "map (link_pair ?n) links = filter (linked weights) (List.product [0..<?S] [0..<?S])"
    "\<forall>l \<in> set links. nd_inv mt (snd (snd (link_ends ?n l))) \<and> out_node_ok ?n l"
    "\<forall>l \<in> set links. in_node l = (if fst (link_pair ?n l) < ?n then Some (fst (link_pair ?n l)) else None)"
    "\<forall>l \<in> set links. mat_at bws (fst (link_pair ?n l)) (snd (link_pair ?n l)) = Some (link_multiplier l)" by auto
  have pr: "link_pair ?n l \<in> links_of t \<and> fst (link_pair ?n l) < ?S \<and> snd (link_pair ?n l) < ?S" if "l \<in> set links" for l
  proof -
    obtain i j where ij: "link_pair ?n l = (i, j)" by (cases "link_pair ?n l")
    have "link_pair ?n l \<in> set (map (link_pair ?n) links)" using that by simp
    then have r: "i < ?S" "j < ?S" "linked weights (i, j)" unfolding sh(1) ij by (auto simp del: upt_Suc)
    then have "0 < topo_weight t i j \<and> topo_weight t i j \<noteq> INFINITE_LATENCY" using mat_at_ok [OF sq(1)] w by (auto simp: linked_def)
    then show ?thesis using topo_weight_cases(4) [OF tok] r ij by simp
  qed
  have bw: "0 < link_multiplier l" if l: "l \<in> set links" "2 * ?n \<le> fst (link_pair ?n l)" for l
  proof -
    obtain i j where ij: "link_pair ?n l = (i, j)" by (cases "link_pair ?n l")
    then have p: "(i, j) \<in> links_of t" "i < ?S" "j < ?S" using pr [OF l(1)] by auto
    have len: "length (m_links_dest_vector t) = length (m_links_src_vector t)" "length (m_bw_multiplier_vector t) = length (m_links_src_vector t)"
      using tok by (simp_all add: topology_ok_def)
    obtain bws' where bws': "fill_matrix t m_bw_multiplier_vector (const_matrix ?S (-1)) = Some bws'" "square ?S bws'"
      "\<forall>i < ?S. \<forall>j < ?S. entry bws' i j = (case link_map t m_bw_multiplier_vector (i, j) of Some v \<Rightarrow> v | None \<Rightarrow> entry (const_matrix ?S (-1)) i j)"
      using fill_matrix_ok [of t m_bw_multiplier_vector, OF len max_switch_id_ge [OF len(1)] const_matrix_ok(1)] by blast
    obtain v where v: "link_map t m_bw_multiplier_vector (i, j) = Some v" using link_map_dom [OF tok, of m_bw_multiplier_vector i j] len(2) p(1) by auto
    then have "entry bws i j = v" using bws' m(4) p(2,3) by simp
    then have "link_multiplier l = v" using sh(4) l(1) ij mat_at_ok [OF sq(3) p(2,3)] by auto
    moreover have "0 < v" using link_map_Some [OF v] t(1) l(2) ij by (auto simp: buildable_def)
    ultimately show ?thesis by simp
  qed
  have bound: "i < switch_bound t \<and> j < switch_bound t" if "(i, j) \<in> links_of t" for i j using t(1) that by (auto simp: buildable_def)
  show "\<forall>l \<in> set links. legal_request mt ?n (m_number_of_switches t) l"
  proof
    fix l assume l: "l \<in> set links"
    note p = pr [OF l] bw [OF l] bspec [OF sh(2) l] bspec [OF sh(3) l]
    have b: "fst (link_pair ?n l) < switch_bound t \<and> snd (link_pair ?n l) < switch_bound t" using bound p(1) by (metis prod.collapse)
    show "legal_request mt ?n (m_number_of_switches t) l"
    proof (cases l)
      case (InLink src dest rt lat bw)
      then show ?thesis using p b by (simp add: link_pair_def split: if_splits)
    next
      case (OutLink src dest rt lat weight bw)
      then show ?thesis using p b by (simp add: link_pair_def)
    next
      case (InternalLink src dest rt lat weight bw)
      then show ?thesis using p b by (simp add: link_pair_def)
    qed
  qed
  have "distinct (map (link_pair ?n) links)" unfolding sh(1) by (simp add: distinct_product del: upt_Suc)
  moreover have "snd (link_pair ?n l) = snd (link_pair ?n l')"
    if "l \<in> set links" "l' \<in> set links" "fst (link_pair ?n l) = fst (link_pair ?n l')" "fst (link_pair ?n l) < ?n" for l l'
  proof -
    have single: "j = j'" if "(i, j) \<in> links_of t" "(i, j') \<in> links_of t" "i < ?n" for i j j' using t(1) that by (fastforce simp: buildable_def)
    have "(fst (link_pair ?n l), snd (link_pair ?n l)) \<in> links_of t" "(fst (link_pair ?n l), snd (link_pair ?n l')) \<in> links_of t"
      using conjunct1 [OF pr [OF that(1)]] conjunct1 [OF pr [OF that(2)]] unfolding that(3) by (metis prod.collapse that(3))+
    then show ?thesis using single that(4) by blast
  qed
  ultimately show "distinct (filter (\<lambda>x. x \<noteq> None) (map in_node links))" using in_nodes_distinct sh(3) by blast
qed

subsection \<open>The network that is built\<close>

lemma reachable_routes:
  assumes "net_wired mt n vnets S links bs sn" "k < S"
  shows "reachable_dests (sw_perfect (sn_switches sn ! k)) = {m. \<exists>y. forwards n links m (2 * n + k) y}"
proof -
  have "ps_routing_table (sw_perfect (sn_switches sn ! k)) = entries n k links" using assms by (simp add: net_wired_def sw_wired_def)
  then have "m \<in> reachable_dests (sw_perfect (sn_switches sn ! k)) \<longleftrightarrow> (\<exists>l \<in> set links. fst (link_ends n l) = 2 * n + k \<and> m \<in> nd_elems (snd (snd (link_ends n l))))" for m
    by (auto simp: reachable_dests_def entries_def)
  moreover have "(\<exists>y. forwards n links m (2 * n + k) y) \<longleftrightarrow> (\<exists>l \<in> set links. fst (link_ends n l) = 2 * n + k \<and> m \<in> nd_elems (snd (snd (link_ends n l))))" for m
    unfolding forwards_def by (metis fst_conv prod.collapse snd_conv)
  ultimately show ?thesis by blast
qed


definition one_node :: topology where
  "one_node = \<lparr>m_nodes = 1, m_number_of_switches = 1, m_links_src_vector = [0, 2], m_links_dest_vector = [2, 1],
    m_links_latency_vector = [3, 3], m_links_weight_vector = [3, 3], m_bw_multiplier_vector = [1, 1],
    m_component_latencies = [], m_component_inter_switches = []\<rparr>"


end
