(* ===== verification/Spec2Isabelle.thy ===== *)
theory Spec2Isabelle
  imports Message_Buffer Cs_Main Cache_Memory Memory_Runs Persistent_Arbiter Bloom_Signatures
    Network_Built
begin

text \<open>
  ChainSaw-Sim: a simulator of a chain-based accelerator on top of the Ruby memory model of GEMS.

  \<^bold>\<open>The program.\<close> The accelerator's own sources are in \<^verbatim>\<open>src/src\<close> and \<^verbatim>\<open>src/include\<close>. \<^verbatim>\<open>newGraph\<close>
  reads a data-flow graph and decomposes it into chains of instructions; \<^verbatim>\<open>Core\<close> assigns chains to
  lanes, tracks which chain waits for which, and runs the \<^verbatim>\<open>Lane\<close>s cycle by cycle; \<^verbatim>\<open>Memory\<close> buffers
  loads and stores and talks to Ruby through \<^verbatim>\<open>O3sim_ruby\<close>; \<^verbatim>\<open>main\<close> in \<^verbatim>\<open>ChainSaw.cpp\<close> replays a
  host trace and starts the core at every chunk marker. Ruby (\<^verbatim>\<open>src/gems-lib\<close>) is driven by an event
  queue; its components exchange messages through timed buffers, keep cache lines in set-associative
  cache memories, and map addresses to caches, banks and directories.

  \<^bold>\<open>Theories.\<close>
  \<^item> \<open>Ruby_Prelude\<close>: error checks and loops as functions into \<open>option\<close> (\<open>None\<close> is a failed assertion, an
    exception or undefined behaviour), shared lemmas. \<open>Std_Map\<close>: ordered maps and sets of the C++ library.
  \<^item> \<open>Ruby_Vector\<close>, \<open>Prio_Heap\<close>, \<open>Event_Queue\<close>, \<open>Message_Buffer\<close>: \<^verbatim>\<open>common/Vector.h\<close>, \<^verbatim>\<open>common/PrioHeap.h\<close>,
    \<^verbatim>\<open>eventqueue\<close> and \<^verbatim>\<open>buffers\<close>. The heap refines a multiset from which the least element is taken; the
    event queue triggers events in time order and ends; a message buffer refines a queue ordered by
    arrival time and counter, so equal times are first-in first-out.
  \<^item> \<open>Ruby_Config\<close>, \<open>Ruby_Address\<close>, \<open>Node_Set\<close>, \<open>Net_Dest\<close>, \<open>Component_Mapping\<close>: configuration, 64-bit
    addresses, bit-vector sets of nodes, destination sets, and the functions that place an address. Sets
    of nodes refine sets of numbers; the placement functions stay in range and can be inverted.
  \<^item> \<open>Data_Blocks\<close>, \<open>Replacement\<close>, \<open>Tag_Store\<close>, \<open>Cache_Memory\<close>: data of a line and parts of it, the two
    replacement policies, and the cache, which implements the interface \<open>tag_store\<close> of a finite map from
    line addresses to entries.
  \<^item> \<open>Memory_Control\<close>, \<open>Memory_Runs\<close>: the DDR memory controller, cycle by cycle, and its runs as a step
    relation: activations keep the timing of the memory, each bank serves its requests in order, and a
    wakeup returns unless refreshes are overdue.
  \<^item> \<open>Address_Tables\<close>: tables keyed by line addresses beside the cache: transactions (\<^verbatim>\<open>TBETable\<close>), the unbounded
    \<^verbatim>\<open>PerfectCacheMemory\<close>, both implementations of \<open>tag_store\<close>, and timers (\<^verbatim>\<open>TimerTable\<close>), a map from lines to
    due times whose cached next timer does not show.
  \<^item> \<open>Persistent_Requests\<close>, \<open>Persistent_Arbiter\<close>: the starvation tables of the token protocols, for machines and
    for nodes, as a refinement of sets of requesters, and the arbiter with its bounded wait.
  \<^item> \<open>Bloom_Filters\<close>, \<open>Bloom_Signatures\<close>: the address signatures of transactional memory, seven filters behind
    one configuration string; which of them have no false negatives.
  \<^item> \<open>Std_String\<close>: number parsing and splitting of strings as the C and C++ libraries do it.
  \<^item> \<open>Net_Paths\<close>, \<open>Net_Topology\<close>, \<open>Net_Routing\<close>, \<open>Net_Hierarchy\<close>: the topology of the simple network
    (\<^verbatim>\<open>network/simple/Topology.C\<close>). The all-pairs shortest paths are correct, the routing tables deliver on
    every legal topology, and the hierarchical switches (and so the crossbar) are one.
  \<^item> \<open>Net_Throttle\<close>, \<open>Net_Switch\<close>, \<open>Simple_Network\<close>: \<^verbatim>\<open>Throttle.C\<close>, \<^verbatim>\<open>PerfectSwitch.C\<close>, \<^verbatim>\<open>Switch.C\<close> and \<^verbatim>\<open>SimpleNetwork.C\<close>
    over a store of message buffers that they share by pointer. \<open>Net_Bandwidth\<close>: a throttle spends exactly
    the bandwidth of its link while there is work and room. \<open>Net_Switching\<close>, \<open>Net_Switched\<close>, \<open>Net_Wakeup\<close>,
    \<open>Net_Rounds\<close>, \<open>Net_Conservation\<close>: a switch splits the destinations of a message exactly and conserves
    deliveries. \<open>Network_Wiring\<close>, \<open>Network_Construction\<close>, \<open>Network_Built\<close>: the network that the topology
    asks for can be built, and its switches are in the state that the theorems on switches need.
  \<^item> \<open>O3_Interface\<close>, \<open>Cs_Memory\<close>: the port into Ruby and the load/store unit. The sequencers and the
    coherence controllers behind the port, generated code that is not in the repository, are the
    parameter \<open>sequencer_port\<close>.
  \<^item> \<open>Cs_Chain\<close>, \<open>Cs_Lane\<close>, \<open>Cs_Core\<close>: chains, the in-order lane, and the core with its dependency table,
    level and block scheduling, out-of-order loading and cycle function.
  \<^item> \<open>Cs_Graph\<close>, \<open>Cs_Decompose\<close>: the data of \<^verbatim>\<open>newGraph\<close>, dependency maps, loop check and levels, and every
    operation of the class from the graph that was read to the ILP graph. \<open>Cs_Chain_Splits\<close>,
    \<open>Cs_Chain_Blocks\<close> and \<open>Cs_Ilp_Graph\<close> prove them correct: chains always partition the instructions,
    breaking and merging end, the loop check is exact for cycles in reach of chain 0, levels are longest
    paths, blocks group chains by number.
  \<^item> \<open>Cs_Main\<close>: the main loop, its cycle accounting and progress, and the composition of graph and core:
    the core waits for exactly the data-flow edges between chains.

  \<^bold>\<open>Interfaces.\<close> Locales state the laws a client uses: \<open>node_order\<close> the order of heap elements, for events
  and for messages, \<open>element_set\<close> the sets of nodes, \<open>replacement_policy\<close> the policies a cache can have,
  \<open>tag_store\<close> the map that the cache, the transaction table and the perfect cache implement, \<open>starving_sets\<close> the
  sets of requesters behind both persistent tables, \<open>signature\<close> and \<open>hash_family\<close> what a Bloom filter promises, and \<open>level_store\<close> the table of levels that both level
  computations share. Each is interpreted on the model's own definitions in the theory of the provider.

  \<^bold>\<open>Bounds.\<close> Loops whose end is proved are functions with a measure. Recursion on graphs carries a depth:
  the loop check allows two more than the number of chains with dependents, level computations the number
  of chains or vertices, and the theorems show that this is enough whenever the source's recursion ends.
  The event loop and the loops of the driver take the number of iterations as an argument; theorems say
  for which arguments they return. Machine integers are words where wrap-around matters (counters of
  the driver, chain counters, addresses, lane loads), natural numbers elsewhere.

  \<^bold>\<open>Not modelled.\<close> Parsing of files and command lines, printing and statistics that are only printed. The
  sequencer and the coherence controllers, because the controllers are generated from the protocol
  descriptions and the sequencer is written against them; with them the store buffer, the directory memory and the
  prefetcher, which allocate protocol-defined entries. The garnet routers and the orion power model, which this
  simulator's configuration does not use, the bundled DRAM simulator, profilers, testers, the SLICC
  compiler and the Simics modules.
\<close>

end
